(* ===== verification/Prelude.thy ===== *)
theory Prelude
  imports Main "HOL-Library.Word" "HOL-Library.Multiset"
begin

section \<open>Shared vocabulary and automation\<close>

text \<open>
  What every component of the development shares: the names of the machine integer types,
  the outcome type of a C function that may abort, and generic facts on words and lists.

  A C function that runs into \<^verbatim>\<open>UTILS_ASSERT\<close>, \<^verbatim>\<open>UTILS_BUG_ON\<close> or \<^verbatim>\<open>assert\<close> with a false
  condition does not return; in the model its outcome is \<open>Inl Abort\<close>. An access
  through a null pointer or beyond the end of a block is undefined in C; in the model its
  outcome is \<open>Inl Bad_Access\<close>. Everything else is \<open>Inr\<close> of the result.
\<close>

unbundle bit_operations_syntax

type_synonym u8 = "8 word"
type_synonym u16 = "16 word"
type_synonym u32 = "32 word"
type_synonym u64 = "64 word"

datatype fault =
    Abort       \<comment> \<open>a failed assertion\<close>
  | Bad_Access  \<comment> \<open>an access the C standard leaves undefined\<close>
  | Out_Of_Memory  \<comment> \<open>the measurement memory is exhausted, which ends the program\<close>
  | Endless  \<comment> \<open>a loop that does not come to an end\<close>

type_synonym 'a outcome = "fault + 'a"

definition and_then :: "'a outcome \<Rightarrow> ('a \<Rightarrow> 'b outcome) \<Rightarrow> 'b outcome" where
  "and_then m f = (case m of Inl e \<Rightarrow> Inl e | Inr a \<Rightarrow> f a)"

definition assert_that :: "bool \<Rightarrow> 'a outcome \<Rightarrow> 'a outcome" where
  "assert_that b m = (if b then m else Inl Abort)"

named_theorems outcome_simps \<open>unfolding of outcomes\<close>

lemma and_then_simps [simp, outcome_simps]:
  "and_then (Inl e) f = Inl e"
  "and_then (Inr a) f = f a"
  by (simp_all add: and_then_def)

lemma and_then_cong [fundef_cong]:
  "m = m' \<Longrightarrow> (\<And>a. m' = Inr a \<Longrightarrow> f a = f' a) \<Longrightarrow> and_then m f = and_then m' f'"
  by (cases m') simp_all

lemma and_then_Inr_iff [outcome_simps]:
  "and_then m f = Inr b \<longleftrightarrow> (\<exists>a. m = Inr a \<and> f a = Inr b)"
  by (cases m) auto

lemma assert_that_simps [simp, outcome_simps]:
  "assert_that True m = m"
  "assert_that False m = Inl Abort"
  by (simp_all add: assert_that_def)

lemma assert_that_Inr_iff [outcome_simps]:
  "assert_that b m = Inr a \<longleftrightarrow> b \<and> m = Inr a"
  by (simp add: assert_that_def)

text \<open>\<^verbatim>\<open>size_t\<close> is 64 bits wide on the platforms the development fixes.\<close>

definition SIZE_MAX :: nat where
  "SIZE_MAX = 2 ^ 64 - 1"

definition size_wrap :: "nat \<Rightarrow> nat" where
  "size_wrap n = n mod 2 ^ 64"

lemma size_wrap_id [simp]: "n \<le> SIZE_MAX \<Longrightarrow> size_wrap n = n"
  by (simp add: size_wrap_def SIZE_MAX_def)

end
