(* ===== verification/JenkinsHash.thy ===== *)
theory JenkinsHash
  imports Prelude
begin

section \<open>The Jenkins hash (common/hash/jenkins_hash.h, common/hash/jenkins_hash.c)\<close>

text \<open>
  Every definition kind, the MPI request table, the function address table and the string
  tables of Score-P hash their keys with Bob Jenkins' \<^verbatim>\<open>lookup3\<close>. The internal state
  is three 32-bit words. A key is modelled as the memory it points to: a function from
  the offset to the byte (or 32-bit word), so that a read behind the end of the key, which
  \<^verbatim>\<open>jenkins_hashlittle2\<close> does on purpose, is a value like any other.
\<close>

type_synonym hstate = "u32 \<times> u32 \<times> u32"

subsection \<open>The mixing steps\<close>

definition rot :: "u32 \<Rightarrow> nat \<Rightarrow> u32" where
  "rot x k = (push_bit k x OR drop_bit (32 - k) x)"

text \<open>
  One line of the \<^verbatim>\<open>mix\<close> macro is \<^verbatim>\<open>a -= c; a ^= rot(c,k); c += b;\<close>, with the three
  variables in one of three roles; one line of \<^verbatim>\<open>final\<close> is \<^verbatim>\<open>c ^= b; c -= rot(b,k);\<close>.
\<close>

fun mix_a :: "nat \<Rightarrow> hstate \<Rightarrow> hstate" where
  "mix_a k (a, b, c) = (let a = a - c; a = a XOR rot c k; c = c + b in (a, b, c))"

fun mix_b :: "nat \<Rightarrow> hstate \<Rightarrow> hstate" where
  "mix_b k (a, b, c) = (let b = b - a; b = b XOR rot a k; a = a + c in (a, b, c))"

fun mix_c :: "nat \<Rightarrow> hstate \<Rightarrow> hstate" where
  "mix_c k (a, b, c) = (let c = c - b; c = c XOR rot b k; b = b + a in (a, b, c))"

definition mix :: "hstate \<Rightarrow> hstate" where
  "mix s = mix_c 4 (mix_b 19 (mix_a 16 (mix_c 8 (mix_b 6 (mix_a 4 s)))))"

fun final_c :: "nat \<Rightarrow> hstate \<Rightarrow> hstate" where
  "final_c k (a, b, c) = (let c = c XOR b; c = c - rot b k in (a, b, c))"

fun final_a :: "nat \<Rightarrow> hstate \<Rightarrow> hstate" where
  "final_a k (a, b, c) = (let a = a XOR c; a = a - rot c k in (a, b, c))"

fun final_b :: "nat \<Rightarrow> hstate \<Rightarrow> hstate" where
  "final_b k (a, b, c) = (let b = b XOR a; b = b - rot a k in (a, b, c))"

definition final :: "hstate \<Rightarrow> hstate" where
  "final s = final_c 24 (final_b 14 (final_a 4 (final_c 16 (final_b 25 (final_a 11 (final_c 14 s))))))"

text \<open>
  The comment of \<^verbatim>\<open>mix\<close> says that the step is reversible. The inverses undo the lines
  in the opposite order.
\<close>

fun unmix_a :: "nat \<Rightarrow> hstate \<Rightarrow> hstate" where
  "unmix_a k (a, b, c) = (let c = c - b; a = (a XOR rot c k) + c in (a, b, c))"

fun unmix_b :: "nat \<Rightarrow> hstate \<Rightarrow> hstate" where
  "unmix_b k (a, b, c) = (let a = a - c; b = (b XOR rot a k) + a in (a, b, c))"

fun unmix_c :: "nat \<Rightarrow> hstate \<Rightarrow> hstate" where
  "unmix_c k (a, b, c) = (let b = b - a; c = (c XOR rot b k) + b in (a, b, c))"

definition unmix :: "hstate \<Rightarrow> hstate" where
  "unmix s = unmix_a 4 (unmix_b 6 (unmix_c 8 (unmix_a 16 (unmix_b 19 (unmix_c 4 s)))))"

fun unfinal_c :: "nat \<Rightarrow> hstate \<Rightarrow> hstate" where
  "unfinal_c k (a, b, c) = (a, b, (c + rot b k) XOR b)"

fun unfinal_a :: "nat \<Rightarrow> hstate \<Rightarrow> hstate" where
  "unfinal_a k (a, b, c) = ((a + rot c k) XOR c, b, c)"

fun unfinal_b :: "nat \<Rightarrow> hstate \<Rightarrow> hstate" where
  "unfinal_b k (a, b, c) = (a, (b + rot a k) XOR a, c)"

definition unfinal :: "hstate \<Rightarrow> hstate" where
  "unfinal s = unfinal_c 14 (unfinal_a 11 (unfinal_b 25 (unfinal_c 16 (unfinal_a 4 (unfinal_b 14 (unfinal_c 24 s))))))"

lemma xor_cancel [simp]:
  fixes x y :: "'a::len word"
  shows "(x XOR y) XOR y = x"
  by (simp add: xor.assoc)

lemma line_inverses [simp]:
  "unmix_a k (mix_a k s) = s" "mix_a k (unmix_a k s) = s"
  "unmix_b k (mix_b k s) = s" "mix_b k (unmix_b k s) = s"
  "unmix_c k (mix_c k s) = s" "mix_c k (unmix_c k s) = s"
  "unfinal_a k (final_a k s) = s" "final_a k (unfinal_a k s) = s"
  "unfinal_b k (final_b k s) = s" "final_b k (unfinal_b k s) = s"
  "unfinal_c k (final_c k s) = s" "final_c k (unfinal_c k s) = s"
  by (cases s; simp add: Let_def)+

lemma mix_inverses: "unmix (mix s) = s" "mix (unmix s) = s"
  by (simp_all add: mix_def unmix_def)

lemma final_inverses: "unfinal (final s) = s" "final (unfinal s) = s"
  by (simp_all add: final_def unfinal_def)

subsection \<open>Hashing an array of 32-bit words\<close>

function hashword_loop ::
  "(nat \<Rightarrow> u32) \<Rightarrow> nat \<Rightarrow> hstate \<Rightarrow> (nat \<Rightarrow> u32) \<times> nat \<times> hstate" where
  "hashword_loop k len (a, b, c) =
     (if len > 3
      then hashword_loop (\<lambda>i. k (i + 3)) (len - 3) (mix (a + k 0, b + k 1, c + k 2))
      else (k, len, (a, b, c)))"
  by pat_completeness auto
termination
  by (relation "measure (\<lambda>(k, len, s). len)") auto

declare hashword_loop.simps [simp del]

text \<open>The \<^verbatim>\<open>switch\<close> on the last words: the cases fall through to \<^verbatim>\<open>final\<close>, except case 0.\<close>

fun hashword_tail :: "(nat \<Rightarrow> u32) \<Rightarrow> nat \<Rightarrow> hstate \<Rightarrow> hstate" where
  "hashword_tail k len (a, b, c) =
     (if len = 0 then (a, b, c)
      else let c = (if len \<ge> 3 then c + k 2 else c);
               b = (if len \<ge> 2 then b + k 1 else b);
               a = a + k 0
           in final (a, b, c))"

definition jenkins_hashword :: "(nat \<Rightarrow> u32) \<Rightarrow> nat \<Rightarrow> u32 \<Rightarrow> u32" where
  "jenkins_hashword k len initval =
     (let i = 0xdeadbeef + push_bit 2 (of_nat len) + initval;
          (k, len, s) = hashword_loop k len (i, i, i);
          (a, b, c) = hashword_tail k len s
      in c)"

text \<open>\<^verbatim>\<open>jenkins_hashword2\<close> takes the two seeds \<open>pc\<close> and \<open>pb\<close> and returns both words.\<close>

definition jenkins_hashword2 :: "(nat \<Rightarrow> u32) \<Rightarrow> nat \<Rightarrow> u32 \<Rightarrow> u32 \<Rightarrow> u32 \<times> u32" where
  "jenkins_hashword2 k len pc pb =
     (let i = 0xdeadbeef + of_nat (4 * len) + pc;
          (k, len, s) = hashword_loop k len (i, i, i + pb);
          (a, b, c) = hashword_tail k len s
      in (c, b))"

subsection \<open>Hashing bytes\<close>

text \<open>A little-endian load of two or four bytes at an offset of the key.\<close>

definition le16 :: "(nat \<Rightarrow> u8) \<Rightarrow> nat \<Rightarrow> u16" where
  "le16 k i = ucast (k i) + push_bit 8 (ucast (k (i + 1)))"

definition le32 :: "(nat \<Rightarrow> u8) \<Rightarrow> nat \<Rightarrow> u32" where
  "le32 k i = ucast (k i) + push_bit 8 (ucast (k (i + 1)))
              + push_bit 16 (ucast (k (i + 2))) + push_bit 24 (ucast (k (i + 3)))"

text \<open>The three ways to add the next twelve bytes to the state.\<close>

fun add_bytes :: "(nat \<Rightarrow> u8) \<Rightarrow> hstate \<Rightarrow> hstate" where
  "add_bytes k (a, b, c) =
     (a + ucast (k 0) + push_bit 8 (ucast (k 1)) + push_bit 16 (ucast (k 2)) + push_bit 24 (ucast (k 3)),
      b + ucast (k 4) + push_bit 8 (ucast (k 5)) + push_bit 16 (ucast (k 6)) + push_bit 24 (ucast (k 7)),
      c + ucast (k 8) + push_bit 8 (ucast (k 9)) + push_bit 16 (ucast (k 10)) + push_bit 24 (ucast (k 11)))"

fun add_words :: "(nat \<Rightarrow> u8) \<Rightarrow> hstate \<Rightarrow> hstate" where
  "add_words k (a, b, c) = (a + le32 k 0, b + le32 k 4, c + le32 k 8)"

fun add_halves :: "(nat \<Rightarrow> u8) \<Rightarrow> hstate \<Rightarrow> hstate" where
  "add_halves k (a, b, c) =
     (a + (ucast (le16 k 0) + push_bit 16 (ucast (le16 k 2))),
      b + (ucast (le16 k 4) + push_bit 16 (ucast (le16 k 6))),
      c + (ucast (le16 k 8) + push_bit 16 (ucast (le16 k 10))))"

function hash_loop ::
  "((nat \<Rightarrow> u8) \<Rightarrow> hstate \<Rightarrow> hstate) \<Rightarrow> (nat \<Rightarrow> u8) \<Rightarrow> nat \<Rightarrow> hstate \<Rightarrow> (nat \<Rightarrow> u8) \<times> nat \<times> hstate" where
  "hash_loop add k len s =
     (if len > 12 then hash_loop add (\<lambda>i. k (i + 12)) (len - 12) (mix (add k s))
      else (k, len, s))"
  by pat_completeness auto
termination
  by (relation "measure (\<lambda>(add, k, len, s). len)") auto

declare hash_loop.simps [simp del]

text \<open>The \<^verbatim>\<open>switch\<close> of the byte-wise reader; all of its cases fall through.\<close>

fun tail_bytes :: "(nat \<Rightarrow> u8) \<Rightarrow> nat \<Rightarrow> hstate \<Rightarrow> hstate" where
  "tail_bytes k len (a, b, c) =
     (let c = (if len \<ge> 12 then c + push_bit 24 (ucast (k 11)) else c);
          c = (if len \<ge> 11 then c + push_bit 16 (ucast (k 10)) else c);
          c = (if len \<ge> 10 then c + push_bit 8 (ucast (k 9)) else c);
          c = (if len \<ge> 9 then c + ucast (k 8) else c);
          b = (if len \<ge> 8 then b + push_bit 24 (ucast (k 7)) else b);
          b = (if len \<ge> 7 then b + push_bit 16 (ucast (k 6)) else b);
          b = (if len \<ge> 6 then b + push_bit 8 (ucast (k 5)) else b);
          b = (if len \<ge> 5 then b + ucast (k 4) else b);
          a = (if len \<ge> 4 then a + push_bit 24 (ucast (k 3)) else a);
          a = (if len \<ge> 3 then a + push_bit 16 (ucast (k 2)) else a);
          a = (if len \<ge> 2 then a + push_bit 8 (ucast (k 1)) else a);
          a = (if len \<ge> 1 then a + ucast (k 0) else a)
      in (a, b, c))"

text \<open>The \<^verbatim>\<open>switch\<close> of the 32-bit reader: it loads whole words, also behind the end of the
  key, and masks the bytes it may not use.\<close>

fun tail_words :: "(nat \<Rightarrow> u8) \<Rightarrow> nat \<Rightarrow> hstate \<Rightarrow> hstate" where
  "tail_words k len (a, b, c) =
     (if len = 12 then (a + le32 k 0, b + le32 k 4, c + le32 k 8)
      else if len = 11 then (a + le32 k 0, b + le32 k 4, c + (le32 k 8 AND 0xffffff))
      else if len = 10 then (a + le32 k 0, b + le32 k 4, c + (le32 k 8 AND 0xffff))
      else if len = 9 then (a + le32 k 0, b + le32 k 4, c + (le32 k 8 AND 0xff))
      else if len = 8 then (a + le32 k 0, b + le32 k 4, c)
      else if len = 7 then (a + le32 k 0, b + (le32 k 4 AND 0xffffff), c)
      else if len = 6 then (a + le32 k 0, b + (le32 k 4 AND 0xffff), c)
      else if len = 5 then (a + le32 k 0, b + (le32 k 4 AND 0xff), c)
      else if len = 4 then (a + le32 k 0, b, c)
      else if len = 3 then (a + (le32 k 0 AND 0xffffff), b, c)
      else if len = 2 then (a + (le32 k 0 AND 0xffff), b, c)
      else if len = 1 then (a + (le32 k 0 AND 0xff), b, c)
      else (a, b, c))"

text \<open>The \<^verbatim>\<open>switch\<close> of the 16-bit reader; the odd cases fall through to the next one.\<close>

definition half2 :: "(nat \<Rightarrow> u8) \<Rightarrow> nat \<Rightarrow> u32" where
  "half2 k i = ucast (le16 k i) + push_bit 16 (ucast (le16 k (i + 2)))"

fun tail_halves :: "(nat \<Rightarrow> u8) \<Rightarrow> nat \<Rightarrow> hstate \<Rightarrow> hstate" where
  "tail_halves k len (a, b, c) =
     (if len = 12 then (a + half2 k 0, b + half2 k 4, c + half2 k 8)
      else if len \<in> {10, 11} then
        (let c = (if len = 11 then c + push_bit 16 (ucast (k 10)) else c)
         in (a + half2 k 0, b + half2 k 4, c + ucast (le16 k 8)))
      else if len \<in> {8, 9} then
        (let c = (if len = 9 then c + ucast (k 8) else c)
         in (a + half2 k 0, b + half2 k 4, c))
      else if len \<in> {6, 7} then
        (let b = (if len = 7 then b + push_bit 16 (ucast (k 6)) else b)
         in (a + half2 k 0, b + ucast (le16 k 4), c))
      else if len \<in> {4, 5} then
        (let b = (if len = 5 then b + ucast (k 4) else b)
         in (a + half2 k 0, b, c))
      else if len \<in> {2, 3} then
        (let a = (if len = 3 then a + push_bit 16 (ucast (k 2)) else a)
         in (a + ucast (le16 k 0), b, c))
      else if len = 1 then (a + ucast (k 0), b, c)
      else (a, b, c))"

text \<open>After the loop: nothing left is no mixing, else the last bytes and \<^verbatim>\<open>final\<close>.\<close>

definition finish_hash ::
  "((nat \<Rightarrow> u8) \<Rightarrow> nat \<Rightarrow> hstate \<Rightarrow> hstate) \<Rightarrow> (nat \<Rightarrow> u8) \<times> nat \<times> hstate \<Rightarrow> hstate" where
  "finish_hash tail r = (case r of (k, len, s) \<Rightarrow> if len = 0 then s else final (tail k len s))"

definition jenkins_hashlittle :: "(nat \<Rightarrow> u8) \<Rightarrow> nat \<Rightarrow> u32 \<Rightarrow> u32" where
  "jenkins_hashlittle key len initval =
     (let i = 0xdeadbeef + of_nat len + initval;
          (a, b, c) = finish_hash tail_bytes (hash_loop add_bytes key len (i, i, i))
      in c)"

text \<open>
  \<^verbatim>\<open>jenkins_hashlittle2\<close> reads words, halfwords or bytes: \<open>little\<close> is the build's
  \<^verbatim>\<open>HASH_LITTLE_ENDIAN\<close> and \<open>addr\<close> the address of the key. The result is \<open>(*pc, *pb)\<close>.
\<close>

definition jenkins_hashlittle2 ::
  "bool \<Rightarrow> nat \<Rightarrow> (nat \<Rightarrow> u8) \<Rightarrow> nat \<Rightarrow> u32 \<Rightarrow> u32 \<Rightarrow> u32 \<times> u32" where
  "jenkins_hashlittle2 little addr key len pc pb =
     (let i = 0xdeadbeef + of_nat len + pc;
          s = (i, i, i + pb);
          (a, b, c) =
            (if little \<and> addr mod 4 = 0 then finish_hash tail_words (hash_loop add_words key len s)
             else if little \<and> addr mod 2 = 0 then finish_hash tail_halves (hash_loop add_halves key len s)
             else finish_hash tail_bytes (hash_loop add_bytes key len s))
      in (c, b))"

text \<open>The big-endian variant, byte-wise only.\<close>

fun add_bytes_be :: "(nat \<Rightarrow> u8) \<Rightarrow> hstate \<Rightarrow> hstate" where
  "add_bytes_be k (a, b, c) =
     (a + push_bit 24 (ucast (k 0)) + push_bit 16 (ucast (k 1)) + push_bit 8 (ucast (k 2)) + ucast (k 3),
      b + push_bit 24 (ucast (k 4)) + push_bit 16 (ucast (k 5)) + push_bit 8 (ucast (k 6)) + ucast (k 7),
      c + push_bit 24 (ucast (k 8)) + push_bit 16 (ucast (k 9)) + push_bit 8 (ucast (k 10)) + ucast (k 11))"

fun tail_bytes_be :: "(nat \<Rightarrow> u8) \<Rightarrow> nat \<Rightarrow> hstate \<Rightarrow> hstate" where
  "tail_bytes_be k len (a, b, c) =
     (let c = (if len \<ge> 12 then c + ucast (k 11) else c);
          c = (if len \<ge> 11 then c + push_bit 8 (ucast (k 10)) else c);
          c = (if len \<ge> 10 then c + push_bit 16 (ucast (k 9)) else c);
          c = (if len \<ge> 9 then c + push_bit 24 (ucast (k 8)) else c);
          b = (if len \<ge> 8 then b + ucast (k 7) else b);
          b = (if len \<ge> 7 then b + push_bit 8 (ucast (k 6)) else b);
          b = (if len \<ge> 6 then b + push_bit 16 (ucast (k 5)) else b);
          b = (if len \<ge> 5 then b + push_bit 24 (ucast (k 4)) else b);
          a = (if len \<ge> 4 then a + ucast (k 3) else a);
          a = (if len \<ge> 3 then a + push_bit 8 (ucast (k 2)) else a);
          a = (if len \<ge> 2 then a + push_bit 16 (ucast (k 1)) else a);
          a = (if len \<ge> 1 then a + push_bit 24 (ucast (k 0)) else a)
      in (a, b, c))"

definition jenkins_hashbig :: "(nat \<Rightarrow> u8) \<Rightarrow> nat \<Rightarrow> u32 \<Rightarrow> u32" where
  "jenkins_hashbig key len initval =
     (let i = 0xdeadbeef + of_nat len + initval;
          (a, b, c) = finish_hash tail_bytes_be (hash_loop add_bytes_be key len (i, i, i))
      in c)"

definition jenkins_hash :: "bool \<Rightarrow> (nat \<Rightarrow> u8) \<Rightarrow> nat \<Rightarrow> u32 \<Rightarrow> u32" where
  "jenkins_hash words_bigendian key len initval =
     (if words_bigendian then jenkins_hashbig key len initval
      else jenkins_hashlittle key len initval)"

text \<open>The bytes of an array of 32-bit words, in little-endian and in big-endian order.\<close>

definition word_bytes :: "(nat \<Rightarrow> u32) \<Rightarrow> nat \<Rightarrow> u8" where
  "word_bytes k i = ucast (drop_bit (8 * (i mod 4)) (k (i div 4)))"

definition word_bytes_be :: "(nat \<Rightarrow> u32) \<Rightarrow> nat \<Rightarrow> u8" where
  "word_bytes_be k i = ucast (drop_bit (24 - 8 * (i mod 4)) (k (i div 4)))"

subsection \<open>The readers agree\<close>


lemma u8_less: "unat (b::u8) < 256"
  using unsigned_less[of b, where ?'a = nat] by simp

lemma unat_ucast_u8:
  "unat (ucast (b::u8) :: u32) = unat b" "unat (ucast (b::u8) :: u16) = unat b"
  using u8_less[of b] by (simp_all add: unsigned_ucast_eq take_bit_nat_eq_self)

lemma unat_push_byte:
  assumes "n \<le> 24"
  shows "unat (push_bit n (ucast (b::u8) :: u32)) = unat b * 2 ^ n"
proof -
  have "unat b * 2 ^ n < 256 * 2 ^ n" using u8_less[of b] by simp
  also have "(256::nat) * 2 ^ n \<le> 256 * 2 ^ 24"
    by (rule mult_le_mono2) (rule power_increasing, use assms in auto)
  finally have "unat b * 2 ^ n < 2 ^ 32" by simp
  then show ?thesis
    by (simp add: unsigned_push_bit_eq take_bit_nat_eq_self unat_ucast_u8 push_bit_eq_mult [of n "unat b"])
qed

lemmas byte_unats = unat_word_ariths unat_push_byte unat_ucast_u8

lemma unat_le32:
  "unat (le32 k i) = unat (k i) + unat (k (i + 1)) * 2 ^ 8 + unat (k (i + 2)) * 2 ^ 16 + unat (k (i + 3)) * 2 ^ 24"
  using u8_less[of "k i"] u8_less[of "k (i + 1)"] u8_less[of "k (i + 2)"] u8_less[of "k (i + 3)"]
  by (simp add: le32_def byte_unats)

lemma and_mask_unat: "unat (x AND mask n :: u32) = unat x mod 2 ^ n"
  by (metis take_bit_eq_mask take_bit_eq_mod unsigned_take_bit_eq)

lemma le32_mask:
  assumes "unat (le32 k i) = low + high * 2 ^ n" "low < 2 ^ n" "unat x = low"
  shows "le32 k i AND mask n = x"
  using assms by (simp add: word_unat_eq_iff and_mask_unat)

lemma le32_masks:
  "le32 k i AND 0xff = ucast (k i)"
  "le32 k i AND 0xffff = ucast (k i) + push_bit 8 (ucast (k (i + 1)))"
  "le32 k i AND 0xffffff = ucast (k i) + push_bit 8 (ucast (k (i + 1))) + push_bit 16 (ucast (k (i + 2)))"
proof -
  have m: "(0xff::u32) = mask 8" "(0xffff::u32) = mask 16" "(0xffffff::u32) = mask 24"
    by (simp_all add: mask_eq_exp_minus_1)
  note b = u8_less[of "k i"] u8_less[of "k (i + 1)"] u8_less[of "k (i + 2)"] u8_less[of "k (i + 3)"]
  show "le32 k i AND 0xff = ucast (k i)"
    unfolding m
    by (rule le32_mask[where low = "unat (k i)" and high = "unat (k (i + 1)) + unat (k (i + 2)) * 2 ^ 8 + unat (k (i + 3)) * 2 ^ 16"])
       (use b in \<open>simp_all add: unat_le32 byte_unats\<close>)
  show "le32 k i AND 0xffff = ucast (k i) + push_bit 8 (ucast (k (i + 1)))"
    unfolding m
    by (rule le32_mask[where low = "unat (k i) + unat (k (i + 1)) * 2 ^ 8" and high = "unat (k (i + 2)) + unat (k (i + 3)) * 2 ^ 8"])
       (use b in \<open>simp_all add: unat_le32 byte_unats\<close>)
  show "le32 k i AND 0xffffff = ucast (k i) + push_bit 8 (ucast (k (i + 1))) + push_bit 16 (ucast (k (i + 2)))"
    unfolding m
    by (rule le32_mask[where low = "unat (k i) + unat (k (i + 1)) * 2 ^ 8 + unat (k (i + 2)) * 2 ^ 16" and high = "unat (k (i + 3))"])
       (use b in \<open>simp_all add: unat_le32 byte_unats\<close>)
qed

lemma ucast_le16: "(ucast (le16 k i) :: u32) = ucast (k i) + push_bit 8 (ucast (k (i + 1)))"
proof -
  note b = u8_less[of "k i"] u8_less[of "k (i + 1)"]
  have p: "unat (push_bit 8 (ucast (k (i + 1)) :: u16)) = unat (k (i + 1)) * 2 ^ 8"
    using b by (simp add: unsigned_push_bit_eq take_bit_nat_eq_self unat_ucast_u8 push_bit_eq_mult [where n = 8 and a = "unat (k (Suc i))"])
  have "unat (le16 k i) = unat (k i) + unat (k (i + 1)) * 2 ^ 8"
    using b p by (simp add: le16_def unat_word_ariths unat_ucast_u8)
  then show ?thesis
    using b by (simp add: word_unat_eq_iff byte_unats unsigned_ucast_eq take_bit_nat_eq_self)
qed

lemma half2_le32: "half2 k i = le32 k i"
  by (simp add: half2_def le32_def ucast_le16 push_bit_add add.assoc numeral_3_eq_3)

lemma add_words_bytes: "add_words k s = add_bytes k s"
  by (cases s) (simp add: le32_def algebra_simps numeral_2_eq_2 numeral_3_eq_3)

lemma add_halves_words: "add_halves k s = add_words k s"
  by (cases s) (use half2_le32 [of k 0] half2_le32 [of k 4] half2_le32 [of k 8] in \<open>simp add: half2_def numeral_2_eq_2\<close>)

lemma hash_loop_cong:
  assumes "\<And>k s. add k s = add' k s"
  shows "hash_loop add k len s = hash_loop add' k len s"
proof -
  have "add = add'" using assms by blast
  then show ?thesis by simp
qed

lemma tail_words_bytes:
  assumes "len \<le> 12"
  shows "tail_words k len s = tail_bytes k len s"
proof -
  obtain a b c where s: "s = (a, b, c)" by (cases s)
  have "len \<in> {0,1,2,3,4,5,6,7,8,9,10,11,12}" using assms unfolding insert_iff empty_iff by arith
  then show ?thesis
    by (elim insertE emptyE; simp add: s le32_masks Let_def; simp add: le32_def algebra_simps numeral_2_eq_2 numeral_3_eq_3)
qed

lemma tail_halves_bytes:
  assumes "len \<le> 12"
  shows "tail_halves k len s = tail_bytes k len s"
proof -
  obtain a b c where s: "s = (a, b, c)" by (cases s)
  have "len \<in> {0,1,2,3,4,5,6,7,8,9,10,11,12}" using assms unfolding insert_iff empty_iff by arith
  then show ?thesis
    by (elim insertE emptyE; simp add: s half2_le32 ucast_le16 Let_def; simp add: le32_def algebra_simps numeral_2_eq_2 numeral_3_eq_3)
qed

lemma hash_loop_len: "hash_loop add k len s = (k', len', s') \<Longrightarrow> len' \<le> 12"
proof (induction add k len s rule: hash_loop.induct)
  case (1 add k len s)
  then show ?case by (cases "len > 12") (simp_all add: hash_loop.simps [of add k len s])
qed

lemma hash_loop_finish:
  assumes "\<And>k len s. len \<le> 12 \<Longrightarrow> tail k len s = tail' k len s"
  shows "finish_hash tail (hash_loop add k len s) = finish_hash tail' (hash_loop add k len s)"
proof -
  obtain k' len' s' where l: "hash_loop add k len s = (k', len', s')"
    by (cases "hash_loop add k len s")
  then have "len' \<le> 12" by (rule hash_loop_len)
  then show ?thesis by (simp add: l finish_hash_def assms)
qed

lemma hash_tails:
  "finish_hash tail_words (hash_loop add k len s) = finish_hash tail_bytes (hash_loop add k len s)"
  "finish_hash tail_halves (hash_loop add k len s) = finish_hash tail_bytes (hash_loop add k len s)"
  by (rule hash_loop_finish, rule tail_words_bytes tail_halves_bytes, assumption)+

lemma jenkins_hashlittle2_align:
  "jenkins_hashlittle2 little addr key len pc pb = jenkins_hashlittle2 False 0 key len pc pb"
proof -
  have e: "add_words = add_bytes" "add_halves = add_bytes"
    by (rule ext, rule ext, simp only: add_halves_words add_words_bytes)+
  show ?thesis
    unfolding jenkins_hashlittle2_def e hash_tails by (simp add: Let_def)
qed

lemma jenkins_hashlittle2_fst:
  "fst (jenkins_hashlittle2 little addr key len pc 0) = jenkins_hashlittle key len pc"
  unfolding jenkins_hashlittle2_align [of little]
  by (simp add: jenkins_hashlittle2_def jenkins_hashlittle_def Let_def split: prod.split)

text \<open>The byte-wise hash looks at the bytes of the key only.\<close>

lemma add_bytes_local: "(\<And>i. i < 12 \<Longrightarrow> k i = k' i) \<Longrightarrow> add_bytes k s = add_bytes k' s"
  by (cases s) simp

lemma tail_bytes_local: "(\<And>i. i < len \<Longrightarrow> k i = k' i) \<Longrightarrow> tail_bytes k len s = tail_bytes k' len s"
  by (cases s) (simp add: Let_def)

lemma hash_bytes_local:
  "(\<And>i. i < len \<Longrightarrow> k i = k' i) \<Longrightarrow>
   finish_hash tail_bytes (hash_loop add_bytes k len s) = finish_hash tail_bytes (hash_loop add_bytes k' len s)"
proof (induction len arbitrary: k k' s rule: less_induct)
  case (less len)
  show ?case
  proof (cases "len > 12")
    case True
    then have "add_bytes k s = add_bytes k' s" by (intro add_bytes_local less.prems) simp
    moreover have "finish_hash tail_bytes (hash_loop add_bytes (\<lambda>i. k (i + 12)) (len - 12) s') =
        finish_hash tail_bytes (hash_loop add_bytes (\<lambda>i. k' (i + 12)) (len - 12) s')" for s'
      using True by (intro less.IH less.prems) auto
    ultimately show ?thesis
      using True by (simp add: hash_loop.simps [of _ k] hash_loop.simps [of _ k'])
  next
    case False
    then show ?thesis
      by (simp add: hash_loop.simps [of _ k] hash_loop.simps [of _ k'] finish_hash_def tail_bytes_local [OF less.prems])
  qed
qed


lemma unat_byte: "unat (ucast (drop_bit n x :: u32) :: u8) = unat x div 2 ^ n mod 256"
  unfolding unsigned_ucast_eq unat_drop_bit_eq
  by (simp add: take_bit_eq_mod drop_bit_eq_div [of n "unat x"])

lemma bytes_of_nat:
  assumes "x < 2 ^ 32"
  shows "x mod 256 + x div 256 mod 256 * 256 + x div 65536 mod 256 * 65536 + x div 16777216 mod 256 * 16777216 = (x::nat)"
proof -
  define y z w where "y = x div 256" and "z = y div 256" and "w = z div 256"
  have "x = x mod 256 + 256 * y" "y = y mod 256 + 256 * z" "z = z mod 256 + 256 * w"
    by (simp_all add: y_def z_def w_def)
  moreover have "w < 256" using assms by (simp add: w_def z_def y_def div_mult2_eq [symmetric])
  moreover have "x div 65536 = z" "x div 16777216 = w"
    by (simp_all add: w_def z_def y_def div_mult2_eq [symmetric])
  ultimately show ?thesis unfolding y_def[symmetric] by simp
qed

lemma le32_word_bytes:
  "ucast (ucast (x :: u32) :: u8) + push_bit 8 (ucast (ucast (drop_bit 8 x) :: u8))
     + push_bit 16 (ucast (ucast (drop_bit 16 x) :: u8)) + push_bit 24 (ucast (ucast (drop_bit 24 x) :: u8)) = x"
proof -
  have x: "unat x < 2 ^ 32" using unsigned_less[of x, where ?'a = nat] by simp
  have m: "unat (ucast x :: u8) = unat x mod 256"
    using unat_byte[of 0 x] by simp
  show ?thesis
    using bytes_of_nat[OF x] x
    by (simp add: word_unat_eq_iff byte_unats unat_byte m)
qed


lemmas word_bytes_simps = le32_word_bytes word_bytes_def word_bytes_be_def

lemma word_index: "j < 4 \<Longrightarrow> (4 * i + j) div 4 = i" "j < 4 \<Longrightarrow> (4 * i + j) mod 4 = (j::nat)"
  by simp_all

lemma word_bytes_at: "j < 4 \<Longrightarrow> word_bytes k (4 * i + j) = ucast (drop_bit (8 * j) (k i))"
  by (simp only: word_bytes_def word_index)

lemma word_bytes_be_at: "j < 4 \<Longrightarrow> word_bytes_be k (4 * i + j) = ucast (drop_bit (24 - 8 * j) (k i))"
  by (simp only: word_bytes_be_def word_index)

lemma le32_word_bytes_at: "le32 (word_bytes k) (4 * i) = k i"
proof -
  have "word_bytes k (4 * i) = ucast (k i)"
    "word_bytes k (4 * i + 1) = ucast (drop_bit 8 (k i))"
    "word_bytes k (4 * i + 2) = ucast (drop_bit 16 (k i))"
    "word_bytes k (4 * i + 3) = ucast (drop_bit 24 (k i))"
    using word_bytes_at [of 0 k i] word_bytes_at [of 1 k i] word_bytes_at [of 2 k i] word_bytes_at [of 3 k i]
    by simp_all
  then show ?thesis by (simp only: le32_def le32_word_bytes)
qed

lemma add_bytes_word_bytes:
  "add_bytes (word_bytes k) (a, b, c) = (a + k 0, b + k 1, c + k 2)"
  using le32_word_bytes_at [of k 0] le32_word_bytes_at [of k 1] le32_word_bytes_at [of k 2]
  unfolding add_words_bytes [symmetric] add_words.simps by simp

lemma word_bytes_shift: "(\<lambda>i. word_bytes k (i + 12)) = word_bytes (\<lambda>i. k (i + 3))"
proof
  fix i :: nat
  have "(i + 12) mod 4 = i mod 4" "(i + 12) div 4 = i div 4 + 3" by presburger+
  then show "word_bytes k (i + 12) = word_bytes (\<lambda>i. k (i + 3)) i" by (simp only: word_bytes_def)
qed

lemma tail_bytes_word_bytes:
  assumes "n \<le> 3"
  shows "tail_bytes (word_bytes k) (4 * n) s = (case s of (a, b, c) \<Rightarrow>
     (if n \<ge> 1 then a + k 0 else a, if n \<ge> 2 then b + k 1 else b, if n \<ge> 3 then c + k 2 else c))"
proof -
  obtain a b c where s: "s = (a, b, c)" by (cases s)
  note w = le32_word_bytes_at [of k 0] le32_word_bytes_at [of k 1] le32_word_bytes_at [of k 2]
  have "n \<in> {0, 1, 2, 3}" using assms by auto
  then show ?thesis
    unfolding tail_words_bytes [symmetric, of "4 * n", OF order_trans [OF mult_le_mono2 [OF assms]], simplified]
    using w by (elim insertE emptyE) (simp_all add: s)
qed

lemma hash_word_bytes:
  "finish_hash tail_bytes (hash_loop add_bytes (word_bytes k) (4 * n) s) =
     (case hashword_loop k n s of (k', n', s') \<Rightarrow> hashword_tail k' n' s')"
proof (induction k n s rule: hashword_loop.induct)
  case (1 k n a b c)
  show ?case
  proof (cases "n > 3")
    case True
    have "4 * n - 12 = 4 * (n - 3)" by simp
    with True 1 show ?thesis
      by (simp add: hash_loop.simps [of _ "word_bytes k"] hashword_loop.simps [of k n] add_bytes_word_bytes
          word_bytes_shift del: add_bytes.simps)
  next
    case False
    then show ?thesis
      using tail_bytes_word_bytes [of n k "(a, b, c)"]
      by (simp add: hash_loop.simps [of _ "word_bytes k"] hashword_loop.simps [of k n] finish_hash_def Let_def
          del: tail_bytes.simps)
  qed
qed

lemma jenkins_hashword_hashlittle:
  "jenkins_hashword k n initval = jenkins_hashlittle (word_bytes k) (4 * n) initval"
proof -
  have "push_bit 2 (of_nat n :: u32) = of_nat (4 * n)" by (simp add: push_bit_eq_mult)
  then show ?thesis
    by (simp add: jenkins_hashword_def jenkins_hashlittle_def hash_word_bytes Let_def split: prod.split)
qed


lemma word_bytes_be_swap: "word_bytes_be k i = word_bytes k (4 * (i div 4) + (3 - i mod 4))"
proof -
  have "24 - 8 * (i mod 4) = 8 * (3 - i mod 4)" by simp
  then show ?thesis
    by (simp only: word_bytes_be_def word_bytes_at [of "3 - i mod 4"])
qed

lemma add_bytes_be_word_bytes: "add_bytes_be (word_bytes_be k) s = add_bytes (word_bytes k) s"
  by (cases s) (simp add: word_bytes_be_swap algebra_simps numeral_2_eq_2)

lemma tail_bytes_be_word_bytes:
  "n \<le> 3 \<Longrightarrow> tail_bytes_be (word_bytes_be k) (4 * n) s = tail_bytes (word_bytes k) (4 * n) s"
proof -
  assume "n \<le> 3"
  then have "n \<in> {0, 1, 2, 3}" by auto
  then show ?thesis
    by (elim insertE emptyE; cases s) (simp_all add: word_bytes_be_swap algebra_simps numeral_2_eq_2)
qed

lemma word_bytes_be_shift: "(\<lambda>i. word_bytes_be k (i + 12)) = word_bytes_be (\<lambda>i. k (i + 3))"
proof
  fix i :: nat
  have "(i + 12) mod 4 = i mod 4" "(i + 12) div 4 = i div 4 + 3" by presburger+
  then show "word_bytes_be k (i + 12) = word_bytes_be (\<lambda>i. k (i + 3)) i" by (simp only: word_bytes_be_def)
qed

lemma hash_word_bytes_be:
  "finish_hash tail_bytes_be (hash_loop add_bytes_be (word_bytes_be k) (4 * n) s) =
   finish_hash tail_bytes (hash_loop add_bytes (word_bytes k) (4 * n) s)"
proof (induction n arbitrary: k s rule: less_induct)
  case (less n)
  show ?case
  proof (cases "n > 3")
    case True
    have "4 * n - 12 = 4 * (n - 3)" by simp
    with True less.IH [of "n - 3"] show ?thesis
      by (simp add: hash_loop.simps [of _ "word_bytes_be k"] hash_loop.simps [of _ "word_bytes k"]
          add_bytes_be_word_bytes word_bytes_shift word_bytes_be_shift)
  next
    case False
    then show ?thesis
      using tail_bytes_be_word_bytes [of n k s]
      by (simp add: hash_loop.simps [of _ "word_bytes_be k"] hash_loop.simps [of _ "word_bytes k"] finish_hash_def
          del: tail_bytes.simps tail_bytes_be.simps)
  qed
qed

lemma jenkins_hashword2_hashlittle:
  "fst (jenkins_hashword2 k n initval 0) = jenkins_hashlittle (word_bytes k) (4 * n) initval"
  by (simp add: jenkins_hashword2_def jenkins_hashlittle_def hash_word_bytes Let_def split: prod.split)

text \<open>A known answer of the test driver in \<^verbatim>\<open>jenkins_hash.c\<close>, \<^verbatim>\<open>driver5\<close>.\<close>

lemma jenkins_hashlittle_known_answer:
  "jenkins_hashlittle (\<lambda>i. of_char (''Four score and seven years ago'' ! i)) 30 0 = 0x17770551"
  by code_simp

subsection \<open>Properties\<close>

text \<open>
  \<^verbatim>\<open>mix\<close> and \<^verbatim>\<open>final\<close> are reversible, as their comments claim: no information in the
  96 bits of state is lost by a mixing step, for every state.
\<close>

theorem mix_final_bijective: "bij mix \<and> bij final"
proof
  show "bij mix" by (rule o_bij [where g = unmix]) (simp_all add: fun_eq_iff mix_inverses)
  show "bij final" by (rule o_bij [where g = unfinal]) (simp_all add: fun_eq_iff final_inverses)
qed

text \<open>
  C24: \<^verbatim>\<open>jenkins_hashlittle2\<close> computes the same two words whatever the alignment of the key
  and the byte order of the machine, although the aligned readers load bytes behind the
  end of the key: it depends on the \<open>len\<close> bytes of the key only. With the second seed 0
  its primary result is that of \<^verbatim>\<open>jenkins_hashlittle\<close>.
\<close>

theorem jenkins_hashlittle2_reader_independent:
  assumes "\<And>i. i < len \<Longrightarrow> key i = key' i"
  shows "jenkins_hashlittle2 little addr key len pc pb = jenkins_hashlittle2 little' addr' key' len pc pb
       \<and> fst (jenkins_hashlittle2 little addr key len pc 0) = jenkins_hashlittle key' len pc"
proof -
  have "jenkins_hashlittle2 False 0 key len pc pb = jenkins_hashlittle2 False 0 key' len pc pb"
    "jenkins_hashlittle key len pc = jenkins_hashlittle key' len pc"
    by (simp_all add: jenkins_hashlittle2_def jenkins_hashlittle_def Let_def hash_bytes_local [OF assms, of len])
  then show ?thesis
    using jenkins_hashlittle2_align [of little] jenkins_hashlittle2_align [of little'] jenkins_hashlittle2_fst
    by metis
qed

theorem jenkins_hashlittle2_reader_independent_witness:
  "jenkins_hashlittle2 True 4 (\<lambda>i. if i < 5 then 7 else 9) 5 1 2 =
   jenkins_hashlittle2 False 3 (\<lambda>i. 7) 5 1 2"
  using jenkins_hashlittle2_reader_independent
    [of 5 "\<lambda>i. if i < 5 then 7 else 9" "\<lambda>i. 7" True 4 1 2 False 3] by simp

text \<open>
  Hashing an array of 32-bit words with \<^verbatim>\<open>jenkins_hashword\<close> gives what \<^verbatim>\<open>jenkins_hash\<close>
  gives on the bytes of the array, on a little-endian and on a big-endian machine, and
  what \<^verbatim>\<open>jenkins_hashword2\<close> gives as its primary result with the second seed 0.
\<close>

theorem jenkins_hash_words:
  "jenkins_hash False (word_bytes k) (4 * n) initval = jenkins_hashword k n initval
   \<and> jenkins_hash True (word_bytes_be k) (4 * n) initval = jenkins_hashword k n initval
   \<and> fst (jenkins_hashword2 k n initval 0) = jenkins_hashword k n initval"
  unfolding jenkins_hash_def jenkins_hashbig_def hash_word_bytes_be
  by (simp add: jenkins_hashlittle_def jenkins_hashword_hashlittle jenkins_hashword2_hashlittle)

end
