(* ===== verification/Vector.thy ===== *)
theory Vector
  imports Prelude
begin

section \<open>The growing array of pointers\<close>

text \<open>
  The model of \<^verbatim>\<open>src/utils/vector/SCOREP_Vector.c\<close>. A vector owns one block of cells. The block
  is a list of cells, each of which is either not written yet or holds a pointer (an address;
  \<^verbatim>\<open>NULL\<close> is 0). The field \<open>capacity\<close> is what the code believes the length of the block to be:
  that the two agree is part of the invariant \<open>vec_wf\<close>, not of the type (the field \<^verbatim>\<open>size\<close> is \<open>vec_size\<close>). The block grows with
  \<^verbatim>\<open>realloc\<close>, whose success is decided by the parameter \<open>alloc\<close>, a function of the number of bytes
  asked for; the byte count is computed in \<^verbatim>\<open>size_t\<close> and wraps around. Operations are called with
  an existing vector and an existing comparison function: the null arguments their assertions
  exclude are not values of the model. Indices that the code stores through an \<^verbatim>\<open>index\<close> argument
  are part of the result.

  The lemmas show that each operation preserves \<open>vec_wf\<close> and does on the list \<open>elems\<close> what its
  documentation says: the binary searches are correct on sorted vectors, and the growth by
  doubling never loses an element and never writes outside the block.
\<close>

type_synonym addr = u64

datatype cell = Undef | Cell addr

type_synonym block = "cell list"

record vec =
  items :: block
  capacity :: nat
  vec_size :: nat

definition DEFAULT_CAPACITY :: nat where
  "DEFAULT_CAPACITY = 16"

definition PTRDIFF_MAX :: nat where
  "PTRDIFF_MAX = 2 ^ 63 - 1"

definition read_cell :: "block \<Rightarrow> nat \<Rightarrow> addr outcome" where
  "read_cell b i = (if i < length b
     then (case b ! i of Undef \<Rightarrow> Inl Bad_Access | Cell p \<Rightarrow> Inr p) else Inl Bad_Access)"

definition write_cell :: "block \<Rightarrow> nat \<Rightarrow> addr \<Rightarrow> block outcome" where
  "write_cell b i p = (if i < length b then Inr (b[i := Cell p]) else Inl Bad_Access)"

text \<open>\<^verbatim>\<open>memmove\<close> of \<open>n\<close> pointers from index \<open>src\<close> to index \<open>dst\<close> of the same block.\<close>

definition memmove_cells :: "block \<Rightarrow> nat \<Rightarrow> nat \<Rightarrow> nat \<Rightarrow> block outcome" where
  "memmove_cells b dst src n =
     (if n = 0 then Inr b
      else if dst + n \<le> length b \<and> src + n \<le> length b
      then Inr (take dst b @ take n (drop src b) @ drop (dst + n) b)
      else Inl Bad_Access)"

text \<open>\<^verbatim>\<open>memset\<close> of \<open>n\<close> pointers to zero, from index \<open>i\<close> on.\<close>

definition memset_cells :: "block \<Rightarrow> nat \<Rightarrow> nat \<Rightarrow> block outcome" where
  "memset_cells b i n =
     (if i + n \<le> length b then Inr (take i b @ replicate n (Cell 0) @ drop (i + n) b)
      else Inl Bad_Access)"

text \<open>\<^verbatim>\<open>realloc\<close> to a number of bytes: the old cells are kept as far as they fit.\<close>

definition realloc_cells :: "(nat \<Rightarrow> bool) \<Rightarrow> block \<Rightarrow> nat \<Rightarrow> block option" where
  "realloc_cells alloc b bytes =
     (if alloc bytes
      then Some (take (bytes div 8) b @ replicate (bytes div 8 - length b) Undef)
      else None)"

subsection \<open>Construction\<close>

definition SCOREP_Vector_Create :: "(nat \<Rightarrow> bool) \<Rightarrow> vec option" where
  "SCOREP_Vector_Create alloc =
     (if alloc 24 then Some \<lparr>items = [], capacity = 0, vec_size = 0\<rparr> else None)"

definition SCOREP_Vector_Reserve :: "(nat \<Rightarrow> bool) \<Rightarrow> vec \<Rightarrow> nat \<Rightarrow> bool \<times> vec" where
  "SCOREP_Vector_Reserve alloc v cap =
     (if cap < capacity v then (True, v)
      else case realloc_cells alloc (items v) (size_wrap (cap * 8)) of
             None \<Rightarrow> (False, v)
           | Some newItems \<Rightarrow> (True, v\<lparr>items := newItems, capacity := cap\<rparr>))"

definition SCOREP_Vector_CreateSize :: "(nat \<Rightarrow> bool) \<Rightarrow> nat \<Rightarrow> vec option" where
  "SCOREP_Vector_CreateSize alloc cap =
     (case SCOREP_Vector_Create alloc of
        None \<Rightarrow> None
      | Some v \<Rightarrow> (let (ok, v') = SCOREP_Vector_Reserve alloc v cap
                   in if ok then Some v' else None))"

subsection \<open>Sizes\<close>

text \<open>Releasing a vector: afterwards there is none.\<close>

definition SCOREP_Vector_Free :: "vec option \<Rightarrow> vec option outcome" where
  "SCOREP_Vector_Free v = assert_that (v \<noteq> None) (Inr None)"

definition SCOREP_Vector_Size :: "vec \<Rightarrow> nat" where
  "SCOREP_Vector_Size v = vec_size v"

definition SCOREP_Vector_Empty :: "vec \<Rightarrow> bool" where
  "SCOREP_Vector_Empty v \<longleftrightarrow> vec_size v = 0"

definition SCOREP_Vector_Capacity :: "vec \<Rightarrow> nat" where
  "SCOREP_Vector_Capacity v = capacity v"

definition SCOREP_Vector_Resize :: "(nat \<Rightarrow> bool) \<Rightarrow> vec \<Rightarrow> nat \<Rightarrow> (bool \<times> vec) outcome" where
  "SCOREP_Vector_Resize alloc v n =
     (if n < vec_size v then Inr (True, v)
      else
        let old_size = vec_size v;
            grown = (if capacity v < n
                     then map_option (\<lambda>newItems. v\<lparr>capacity := n, items := newItems\<rparr>)
                            (realloc_cells alloc (items v) (size_wrap (n * 8)))
                     else Some v)
        in case grown of
             None \<Rightarrow> Inr (False, v)
           | Some v' \<Rightarrow>
               (let v'' = v'\<lparr>vec_size := n\<rparr>
                in if old_size < n
                   then and_then (memset_cells (items v'') old_size (size_wrap ((n - old_size) * 8) div 8))
                          (\<lambda>b. Inr (True, v''\<lparr>items := b\<rparr>))
                   else Inr (True, v'')))"

subsection \<open>Element access\<close>

definition SCOREP_Vector_At :: "vec \<Rightarrow> nat \<Rightarrow> addr outcome" where
  "SCOREP_Vector_At v index = assert_that (index < vec_size v) (read_cell (items v) index)"

definition SCOREP_Vector_Set :: "vec \<Rightarrow> nat \<Rightarrow> addr \<Rightarrow> vec outcome" where
  "SCOREP_Vector_Set v index item = assert_that (index < vec_size v)
     (and_then (write_cell (items v) index item) (\<lambda>b. Inr (v\<lparr>items := b\<rparr>)))"

definition SCOREP_Vector_Front :: "vec \<Rightarrow> addr outcome" where
  "SCOREP_Vector_Front v = assert_that (vec_size v > 0) (read_cell (items v) 0)"

definition SCOREP_Vector_Back :: "vec \<Rightarrow> addr outcome" where
  "SCOREP_Vector_Back v = assert_that (vec_size v > 0) (read_cell (items v) (vec_size v - 1))"

text \<open>\<^verbatim>\<open>Begin\<close> and \<^verbatim>\<open>End\<close> are pointers into the block; here the index they point to.\<close>

definition SCOREP_Vector_Begin :: "vec \<Rightarrow> nat" where
  "SCOREP_Vector_Begin v = 0"

definition SCOREP_Vector_End :: "vec \<Rightarrow> nat" where
  "SCOREP_Vector_End v = vec_size v"

subsection \<open>Insertion and removal\<close>

definition grow_capacity :: "vec \<Rightarrow> nat" where
  "grow_capacity v =
     (if capacity v = 0 then DEFAULT_CAPACITY else size_wrap (capacity v * 2))"

definition SCOREP_Vector_PushBack :: "(nat \<Rightarrow> bool) \<Rightarrow> vec \<Rightarrow> addr \<Rightarrow> (bool \<times> vec) outcome" where
  "SCOREP_Vector_PushBack alloc v item =
     (let (ok, v') = (if vec_size v = capacity v
                      then SCOREP_Vector_Reserve alloc v (grow_capacity v) else (True, v))
      in if \<not> ok then Inr (False, v')
         else and_then (write_cell (items v') (vec_size v') item) (\<lambda>b.
              Inr (True, v'\<lparr>items := b, vec_size := size_wrap (vec_size v' + 1)\<rparr>)))"

definition SCOREP_Vector_Insert ::
  "(nat \<Rightarrow> bool) \<Rightarrow> vec \<Rightarrow> nat \<Rightarrow> addr \<Rightarrow> (bool \<times> vec) outcome" where
  "SCOREP_Vector_Insert alloc v index item = assert_that (index \<le> vec_size v)
     (let (ok, v') = (if vec_size v = capacity v
                      then SCOREP_Vector_Reserve alloc v (grow_capacity v) else (True, v))
      in if \<not> ok then Inr (False, v')
         else and_then (memmove_cells (items v') (index + 1) index (vec_size v' - index)) (\<lambda>b.
              and_then (write_cell b index item) (\<lambda>b'.
              Inr (True, v'\<lparr>items := b', vec_size := size_wrap (vec_size v' + 1)\<rparr>))))"

text \<open>The size is not checked: popping from an empty vector wraps it around.\<close>

definition SCOREP_Vector_PopBack :: "vec \<Rightarrow> vec" where
  "SCOREP_Vector_PopBack v = v\<lparr>vec_size := (if vec_size v = 0 then SIZE_MAX else vec_size v - 1)\<rparr>"

definition SCOREP_Vector_Erase :: "vec \<Rightarrow> nat \<Rightarrow> vec outcome" where
  "SCOREP_Vector_Erase v index = assert_that (index < vec_size v)
     (let v' = v\<lparr>vec_size := vec_size v - 1\<rparr>
      in and_then (memmove_cells (items v') index (index + 1) (vec_size v' - index))
           (\<lambda>b. Inr (v'\<lparr>items := b\<rparr>)))"

definition SCOREP_Vector_Clear :: "vec \<Rightarrow> vec" where
  "SCOREP_Vector_Clear v = v\<lparr>vec_size := 0\<rparr>"

subsection \<open>Algorithms\<close>

type_synonym compare_func = "addr \<Rightarrow> addr \<Rightarrow> int"

function find_from :: "compare_func \<Rightarrow> addr \<Rightarrow> vec \<Rightarrow> nat \<Rightarrow> nat option outcome" where
  "find_from cmp val v i =
     (if i < vec_size v
      then and_then (read_cell (items v) i) (\<lambda>p.
           if cmp val p = 0 then Inr (Some i) else find_from cmp val v (i + 1))
      else Inr None)"
  by pat_completeness auto
termination by (relation "measure (\<lambda>(cmp, val, v, i). vec_size v - i)") auto

declare find_from.simps [simp del]

definition SCOREP_Vector_Find :: "vec \<Rightarrow> addr \<Rightarrow> compare_func \<Rightarrow> nat option outcome" where
  "SCOREP_Vector_Find v val cmp = find_from cmp val v 0"

fun lower_loop :: "compare_func \<Rightarrow> addr \<Rightarrow> block \<Rightarrow> nat \<Rightarrow> nat \<Rightarrow> nat outcome" where
  "lower_loop cmp val b left n =
     (if n > 0
      then let half = n div 2
           in and_then (read_cell b (left + half)) (\<lambda>p.
              if cmp val p > 0
              then lower_loop cmp val b (left + (half + 1)) (n - (half + 1))
              else lower_loop cmp val b left half)
      else Inr left)"

fun upper_loop :: "compare_func \<Rightarrow> addr \<Rightarrow> block \<Rightarrow> nat \<Rightarrow> nat \<Rightarrow> nat outcome" where
  "upper_loop cmp val b left n =
     (if n > 0
      then let half = n div 2
           in and_then (read_cell b (left + half)) (\<lambda>p.
              if cmp val p < 0
              then upper_loop cmp val b left half
              else upper_loop cmp val b (left + (half + 1)) (n - (half + 1)))
      else Inr left)"

declare lower_loop.simps [simp del] upper_loop.simps [simp del]

definition SCOREP_Vector_LowerBound :: "vec \<Rightarrow> addr \<Rightarrow> compare_func \<Rightarrow> (bool \<times> nat) outcome" where
  "SCOREP_Vector_LowerBound v val cmp =
     and_then (lower_loop cmp val (items v) 0 (vec_size v)) (\<lambda>left.
       if left < vec_size v
       then and_then (read_cell (items v) left) (\<lambda>p. Inr (0 = cmp val p, left))
       else Inr (False, left))"

definition SCOREP_Vector_UpperBound :: "vec \<Rightarrow> addr \<Rightarrow> compare_func \<Rightarrow> (bool \<times> nat) outcome" where
  "SCOREP_Vector_UpperBound v val cmp =
     and_then (upper_loop cmp val (items v) 0 (vec_size v)) (\<lambda>left.
       if left > 0
       then and_then (read_cell (items v) (left - 1)) (\<lambda>p. Inr (0 = cmp val p, left))
       else Inr (False, left))"

text \<open>\<^verbatim>\<open>Foreach\<close> runs the processing function on every item; \<open>s\<close> is the state it works on.\<close>

function foreach_from :: "(addr \<Rightarrow> 's \<Rightarrow> 's) \<Rightarrow> vec \<Rightarrow> nat \<Rightarrow> 's \<Rightarrow> 's outcome" where
  "foreach_from proc v i s =
     (if i < vec_size v
      then and_then (read_cell (items v) i) (\<lambda>p. foreach_from proc v (i + 1) (proc p s))
      else Inr s)"
  by pat_completeness auto
termination by (relation "measure (\<lambda>(proc, v, i, s). vec_size v - i)") auto

declare foreach_from.simps [simp del]

definition SCOREP_Vector_Foreach :: "vec \<Rightarrow> (addr \<Rightarrow> 's \<Rightarrow> 's) \<Rightarrow> 's \<Rightarrow> 's outcome" where
  "SCOREP_Vector_Foreach v proc s = foreach_from proc v 0 s"

subsection \<open>The list a vector stands for\<close>

text \<open>
  \<open>vec_rep v xs\<close>: the block has as many cells as \<open>capacity\<close> says, its first \<open>vec_size v\<close> cells hold
  the pointers \<open>xs\<close>, and it is an object of a size that \<^verbatim>\<open>malloc\<close> can return at all.
\<close>

definition vec_rep :: "vec \<Rightarrow> addr list \<Rightarrow> bool" where
  "vec_rep v xs \<longleftrightarrow>
     take (length xs) (items v) = map Cell xs \<and> vec_size v = length xs \<and>
     capacity v = length (items v) \<and> capacity v * 8 \<le> PTRDIFF_MAX"

primrec cell_value :: "cell \<Rightarrow> addr" where
  "cell_value Undef = 0"
| "cell_value (Cell p) = p"

definition elems :: "vec \<Rightarrow> addr list" where
  "elems v = map cell_value (take (vec_size v) (items v))"

definition vec_wf :: "vec \<Rightarrow> bool" where
  "vec_wf v \<longleftrightarrow> vec_rep v (elems v)"

text \<open>\<^verbatim>\<open>malloc\<close> and \<^verbatim>\<open>realloc\<close> of a C library refuse objects of more than \<^verbatim>\<open>PTRDIFF_MAX\<close> bytes.\<close>

definition bounded_alloc :: "(nat \<Rightarrow> bool) \<Rightarrow> bool" where
  "bounded_alloc alloc \<longleftrightarrow> (\<forall>n. alloc n \<longrightarrow> n \<le> PTRDIFF_MAX)"

named_theorems vec_simps \<open>what the vector operations compute on a well-formed vector\<close>

lemma vec_repE:
  assumes "vec_rep v xs"
  obtains rest where "items v = map Cell xs @ rest" "vec_size v = length xs"
    "capacity v = length xs + length rest" "(length xs + length rest) * 8 \<le> PTRDIFF_MAX"
proof -
  obtain rest where i: "items v = map Cell xs @ rest"
    using assms append_take_drop_id [of "length xs" "items v"] unfolding vec_rep_def by metis
  show thesis
    by (rule that [OF i]) (use assms i in \<open>simp_all add: vec_rep_def\<close>)
qed

lemma vec_repI:
  "items v = map Cell xs @ rest \<Longrightarrow> vec_size v = length xs \<Longrightarrow>
   capacity v = length xs + length rest \<Longrightarrow> (length xs + length rest) * 8 \<le> PTRDIFF_MAX \<Longrightarrow>
   vec_rep v xs"
  by (simp add: vec_rep_def)

lemma cell_value_Cell [simp]: "map (cell_value \<circ> Cell) xs = xs"
  by (simp add: comp_def)

lemma elems_vec_rep: "vec_rep v xs \<Longrightarrow> elems v = xs"
  by (elim vec_repE) (simp add: elems_def)

lemma vec_rep_wf: "vec_rep v xs \<Longrightarrow> vec_wf v"
  by (simp add: vec_wf_def elems_vec_rep)

lemma read_cell_append [vec_simps]:
  "i < length xs \<Longrightarrow> read_cell (map Cell xs @ rest) i = Inr (xs ! i)"
  by (simp add: read_cell_def nth_append)

lemma vec_rep_read [vec_simps]:
  "vec_rep v xs \<Longrightarrow> i < length xs \<Longrightarrow> read_cell (items v) i = Inr (xs ! i)"
  by (elim vec_repE) (simp add: read_cell_append)

lemma vec_rep_size [vec_simps]: "vec_rep v xs \<Longrightarrow> vec_size v = length xs"
  by (simp add: vec_rep_def)

lemma vec_rep_Nil: "vec_rep \<lparr>items = [], capacity = 0, vec_size = 0\<rparr> []"
  by (simp add: vec_rep_def)

lemma write_cell_append:
  "i < length xs \<Longrightarrow>
   write_cell (map Cell xs @ rest) i p = Inr (map Cell (xs[i := p]) @ rest)"
  by (simp add: write_cell_def list_update_append map_update)

lemma write_cell_end:
  "write_cell (map Cell xs @ r # rest) (length xs) p = Inr (map Cell (xs @ [p]) @ rest)"
  by (simp add: write_cell_def list_update_append)

lemma memmove_up:
  assumes "i \<le> length xs"
  shows "memmove_cells (map Cell xs @ r # rest) (Suc i) i (length xs - i) =
     Inr (map Cell (take i xs) @ (if i < length xs then Cell (xs ! i) else r) #
          map Cell (drop i xs) @ rest)"
proof (cases "i = length xs")
  case False
  then have "i < length xs" using assms by simp
  then show ?thesis
    by (simp add: memmove_cells_def take_map drop_map Suc_diff_le take_Suc_conv_app_nth)
qed (simp add: memmove_cells_def)

lemma memmove_down:
  assumes "i < length xs"
  shows "memmove_cells (map Cell xs @ rest) i (Suc i) (length xs - Suc i) =
     Inr (map Cell (take i xs @ drop (Suc i) xs) @ Cell (last xs) # rest)"
proof (cases "Suc i = length xs")
  case True
  then have "take i xs @ [last xs] = xs"
    by (metis append_butlast_last_id butlast_conv_take diff_Suc_1 length_0_conv nat.distinct(1))
  then have "map Cell xs = map Cell (take i xs) @ [Cell (last xs)]"
    by (metis list.simps(8) list.simps(9) map_append)
  then show ?thesis
    using True by (simp add: memmove_cells_def)
next
  case False
  then have *: "Suc i < length xs" using assms by simp
  have "drop (length xs - 1) xs = [last xs]"
    using * by (metis One_nat_def append_butlast_last_id append_eq_conv_conj length_butlast list.size(3) not_less_zero)
  then show ?thesis
    using * by (simp add: memmove_cells_def take_map drop_map) arith
qed

subsection \<open>The operations on well-formed vectors\<close>

lemma realloc_grow:
  "length b \<le> n \<Longrightarrow>
   realloc_cells alloc b (n * 8) =
     (if alloc (n * 8) then Some (b @ replicate (n - length b) Undef) else None)"
  by (simp add: realloc_cells_def)

text \<open>Reserving never touches the elements; it fails only when \<^verbatim>\<open>realloc\<close> does.\<close>

lemma SCOREP_Vector_Reserve_rep:
  assumes "vec_rep v xs" and "bounded_alloc alloc" and "n * 8 \<le> SIZE_MAX"
  obtains (enough) "n < capacity v" "SCOREP_Vector_Reserve alloc v n = (True, v)"
  | (failed) "capacity v \<le> n" "\<not> alloc (n * 8)" "SCOREP_Vector_Reserve alloc v n = (False, v)"
  | (grown) v' where "capacity v \<le> n" "alloc (n * 8)" "SCOREP_Vector_Reserve alloc v n = (True, v')"
      "vec_rep v' xs" "capacity v' = n"
proof (cases "n < capacity v")
  case True
  then show thesis by (intro enough) (simp_all add: SCOREP_Vector_Reserve_def)
next
  case False
  obtain rest where v: "items v = map Cell xs @ rest" "vec_size v = length xs"
    "capacity v = length xs + length rest" by (rule vec_repE [OF assms(1)])
  show thesis
  proof (cases "alloc (n * 8)")
    case True
    then have "n * 8 \<le> PTRDIFF_MAX" using assms(2) by (simp add: bounded_alloc_def)
    then show thesis
      using False v True assms(3)
      by (intro grown [of "v\<lparr>items := map Cell xs @ rest @
              replicate (n - (length xs + length rest)) Undef, capacity := n\<rparr>"])
        (simp_all add: SCOREP_Vector_Reserve_def realloc_grow vec_rep_def)
  next
    case nope: False
    then show thesis
      using False v assms(3) by (intro failed) (simp_all add: SCOREP_Vector_Reserve_def realloc_grow)
  qed
qed

lemma grow_capacity_fits:
  assumes "vec_rep v xs"
  shows "grow_capacity v * 8 \<le> SIZE_MAX" and "capacity v < grow_capacity v"
    and "grow_capacity v = (if capacity v = 0 then 16 else capacity v * 2)"
proof -
  have c: "capacity v * 8 \<le> 2 ^ 63 - 1"
    using assms by (simp add: vec_rep_def PTRDIFF_MAX_def)
  then have *: "grow_capacity v = (if capacity v = 0 then 16 else capacity v * 2)"
    by (simp add: grow_capacity_def DEFAULT_CAPACITY_def size_wrap_def)
  show "grow_capacity v = (if capacity v = 0 then 16 else capacity v * 2)" by (rule *)
  show "grow_capacity v * 8 \<le> SIZE_MAX" using c by (simp add: * SIZE_MAX_def)
  show "capacity v < grow_capacity v" by (simp add: *)
qed

text \<open>Making room for one more item, as \<^verbatim>\<open>PushBack\<close> and \<^verbatim>\<open>Insert\<close> do.\<close>

lemma vec_room:
  assumes "vec_rep v xs" and "bounded_alloc alloc"
  obtains (room) v' r rest where
      "(if vec_size v = capacity v then SCOREP_Vector_Reserve alloc v (grow_capacity v)
        else (True, v)) = (True, v')"
      "items v' = map Cell xs @ r # rest" "vec_size v' = length xs"
      "capacity v' = length xs + Suc (length rest)"
      "(length xs + Suc (length rest)) * 8 \<le> PTRDIFF_MAX"
  | (full) "vec_size v = capacity v" "\<not> alloc (grow_capacity v * 8)"
      "SCOREP_Vector_Reserve alloc v (grow_capacity v) = (False, v)"
proof -
  note fits = grow_capacity_fits [OF assms(1)]
  have room_of: thesis
    if rep: "vec_rep v' xs" and less: "length xs < capacity v'"
      and eq: "(if vec_size v = capacity v then SCOREP_Vector_Reserve alloc v (grow_capacity v)
        else (True, v)) = (True, v')" for v'
  proof -
    obtain rest where v': "items v' = map Cell xs @ rest" "vec_size v' = length xs"
      "capacity v' = length xs + length rest" "(length xs + length rest) * 8 \<le> PTRDIFF_MAX"
      by (rule vec_repE [OF rep])
    from v'(3) less obtain r rest' where "rest = r # rest'" by (cases rest) auto
    with v' show thesis by (intro room [OF eq]) simp_all
  qed
  show thesis
  proof (cases "vec_size v = capacity v")
    case False
    then have "length xs < capacity v"
      using assms(1) by (elim vec_repE) simp
    then show thesis using False assms(1) by (intro room_of [of v]) simp_all
  next
    case True
    from assms fits(1) show thesis
    proof (cases rule: SCOREP_Vector_Reserve_rep)
      case (grown v')
      then show thesis
        using True fits(2) assms(1) by (intro room_of [of v']) (simp_all add: vec_rep_size)
    qed (use True fits(2) in \<open>auto intro: full\<close>)
  qed
qed

lemma SCOREP_Vector_PushBack_rep:
  assumes "vec_rep v xs" and "bounded_alloc alloc"
  obtains (ok) v' where "SCOREP_Vector_PushBack alloc v p = Inr (True, v')" "vec_rep v' (xs @ [p])"
  | (full) "SCOREP_Vector_PushBack alloc v p = Inr (False, v)" "vec_size v = capacity v"
      "\<not> alloc (grow_capacity v * 8)"
  using assms
proof (cases rule: vec_room)
  case (room v' r rest)
  then have "SCOREP_Vector_PushBack alloc v p =
      Inr (True, v'\<lparr>items := map Cell (xs @ [p]) @ rest, vec_size := length xs + 1\<rparr>)"
    using write_cell_end [of xs r rest p]
    by (simp add: SCOREP_Vector_PushBack_def PTRDIFF_MAX_def SIZE_MAX_def)
  then show thesis by (rule ok) (use room in \<open>simp add: vec_rep_def\<close>)
qed (simp add: full SCOREP_Vector_PushBack_def)

lemma SCOREP_Vector_Insert_rep:
  assumes "vec_rep v xs" and "bounded_alloc alloc" and i: "i \<le> length xs"
  obtains (ok) v' where "SCOREP_Vector_Insert alloc v i p = Inr (True, v')"
      "vec_rep v' (take i xs @ p # drop i xs)"
  | (full) "SCOREP_Vector_Insert alloc v i p = Inr (False, v)" "vec_size v = capacity v"
      "\<not> alloc (grow_capacity v * 8)"
  using assms(1,2)
proof (cases rule: vec_room)
  case (room v' r rest)
  let ?b = "map Cell (take i xs) @ Cell p # map Cell (drop i xs) @ rest"
  have w: "write_cell (map Cell (take i xs) @ q # map Cell (drop i xs) @ rest) i p = Inr ?b" for q
    using i by (simp add: write_cell_def list_update_append)
  have "i \<le> vec_size v" using i assms(1) by (simp add: vec_rep_size)
  then have "SCOREP_Vector_Insert alloc v i p =
      Inr (True, v'\<lparr>items := ?b, vec_size := length xs + 1\<rparr>)"
    using room memmove_up [OF i, of r rest]
    by (simp add: SCOREP_Vector_Insert_def w PTRDIFF_MAX_def SIZE_MAX_def)
  then show thesis by (rule ok) (use room i in \<open>simp add: vec_rep_def Suc_diff_le\<close>)
qed (use i assms(1) in \<open>simp_all add: full SCOREP_Vector_Insert_def vec_rep_size\<close>)

lemma SCOREP_Vector_Erase_rep:
  assumes "vec_rep v xs" and "i < length xs"
  obtains v' where "SCOREP_Vector_Erase v i = Inr v'" "vec_rep v' (take i xs @ drop (Suc i) xs)"
proof -
  obtain rest where v: "items v = map Cell xs @ rest" "vec_size v = length xs"
    "capacity v = length xs + length rest" "(length xs + length rest) * 8 \<le> PTRDIFF_MAX"
    by (rule vec_repE [OF assms(1)])
  show thesis
    by (rule that [of "v\<lparr>items := map Cell (take i xs @ drop (Suc i) xs) @ Cell (last xs) # rest,
          vec_size := length xs - 1\<rparr>"])
      (use v assms(2) memmove_down [OF assms(2), of rest] in
        \<open>simp_all add: SCOREP_Vector_Erase_def vec_rep_def\<close>)
qed

lemma SCOREP_Vector_Set_rep:
  assumes "vec_rep v xs" and "i < length xs"
  obtains v' where "SCOREP_Vector_Set v i p = Inr v'" "vec_rep v' (xs[i := p])"
proof -
  obtain rest where v: "items v = map Cell xs @ rest" "vec_size v = length xs"
    "capacity v = length xs + length rest" "(length xs + length rest) * 8 \<le> PTRDIFF_MAX"
    by (rule vec_repE [OF assms(1)])
  show thesis
    by (rule that [of "v\<lparr>items := map Cell (xs[i := p]) @ rest\<rparr>"])
      (use v assms(2) in \<open>simp_all add: SCOREP_Vector_Set_def write_cell_append vec_rep_def\<close>)
qed

lemma SCOREP_Vector_PopBack_rep:
  "vec_rep v xs \<Longrightarrow> xs \<noteq> [] \<Longrightarrow> vec_rep (SCOREP_Vector_PopBack v) (butlast xs)"
  by (elim vec_repE) (cases xs rule: rev_cases; simp add: SCOREP_Vector_PopBack_def vec_rep_def)

lemma SCOREP_Vector_Clear_rep:
  "vec_rep v xs \<Longrightarrow> vec_rep (SCOREP_Vector_Clear v) []"
  by (elim vec_repE) (simp add: SCOREP_Vector_Clear_def vec_rep_def)

text \<open>Growing the size appends null pointers; shrinking it is a no-op.\<close>

lemma SCOREP_Vector_Resize_rep:
  assumes "vec_rep v xs" and "bounded_alloc alloc" and "n * 8 \<le> SIZE_MAX"
  obtains (ok) v' where "SCOREP_Vector_Resize alloc v n = Inr (True, v')"
      "vec_rep v' (xs @ replicate (n - length xs) 0)"
  | (failed) "SCOREP_Vector_Resize alloc v n = Inr (False, v)" "capacity v < n" "\<not> alloc (n * 8)"
proof -
  obtain rest where v: "items v = map Cell xs @ rest" "vec_size v = length xs"
    "capacity v = length xs + length rest" "(length xs + length rest) * 8 \<le> PTRDIFF_MAX"
    by (rule vec_repE [OF assms(1)])
  have bytes: "size_wrap ((n - length xs) * 8) div 8 = n - length xs" using assms(3) by simp
  let ?new = "map Cell (xs @ replicate (n - length xs) 0)"
  consider (less) "n < length xs" | (same) "n = length xs"
    | (fits) "length xs < n" "n \<le> capacity v" | (grow) "length xs < n" "capacity v < n" "alloc (n * 8)"
    | (fail) "capacity v < n" "\<not> alloc (n * 8)" "length xs < n"
    using v(3) by linarith
  then show thesis
  proof cases
    case less
    then show thesis using assms(1) v by (intro ok [of v]) (simp_all add: SCOREP_Vector_Resize_def bytes)
  next
    case same
    then show thesis
      using assms(1) v by (intro ok [of "v\<lparr>vec_size := n\<rparr>"])
        (simp_all add: SCOREP_Vector_Resize_def bytes vec_rep_def)
  next
    case fits
    then show thesis
      using v by (intro ok [of "v\<lparr>vec_size := n, items := ?new @ drop (n - length xs) rest\<rparr>"])
        (simp_all add: SCOREP_Vector_Resize_def bytes memset_cells_def vec_rep_def Let_def)
  next
    case grow
    then have "n * 8 \<le> PTRDIFF_MAX" using assms(2) by (simp add: bounded_alloc_def)
    then show thesis
      using v grow assms(3)
      by (intro ok [of "v\<lparr>vec_size := n, items := ?new, capacity := n\<rparr>"])
        (simp_all add: SCOREP_Vector_Resize_def bytes memset_cells_def vec_rep_def realloc_grow)
  next
    case fail
    then show thesis using v assms(3)
      by (intro failed) (simp_all add: SCOREP_Vector_Resize_def bytes realloc_grow)
  qed
qed

subsection \<open>Searching\<close>

lemma find_from_rep:
  assumes "vec_rep v xs" and "i \<le> length xs"
  shows "find_from cmp val v i = Inr
    (if \<exists>j<length xs. i \<le> j \<and> cmp val (xs ! j) = 0
     then Some (LEAST j. i \<le> j \<and> j < length xs \<and> cmp val (xs ! j) = 0) else None)"
  using assms(2)
proof (induction "length xs - i" arbitrary: i)
  case 0
  then show ?case
    using vec_rep_size [OF assms(1)] by (subst find_from.simps) auto
next
  case (Suc k)
  then have i: "i < length xs" by simp
  have step: "find_from cmp val v i =
      (if cmp val (xs ! i) = 0 then Inr (Some i) else find_from cmp val v (i + 1))"
    by (subst find_from.simps) (simp add: vec_rep_size [OF assms(1)] vec_rep_read [OF assms(1) i] i)
  show ?case
  proof (cases "cmp val (xs ! i) = 0")
    case True
    then have "(LEAST j. i \<le> j \<and> j < length xs \<and> cmp val (xs ! j) = 0) = i"
      using i by (intro Least_equality) auto
    then show ?thesis using True i by (auto simp: step)
  next
    case False
    then have "(i \<le> j \<and> j < length xs \<and> cmp val (xs ! j) = 0) =
        (i + 1 \<le> j \<and> j < length xs \<and> cmp val (xs ! j) = 0)" for j
      by (metis Suc_eq_plus1 Suc_leD not_less_eq_eq order_antisym)
    then show ?thesis
      using False Suc(1) [of "i + 1"] Suc(2) i by (simp add: step) metis
  qed
qed

text \<open>Both binary searches are one search for the end of the prefix on which \<open>P\<close> holds.\<close>

fun partition_loop :: "(addr \<Rightarrow> bool) \<Rightarrow> block \<Rightarrow> nat \<Rightarrow> nat \<Rightarrow> nat outcome" where
  "partition_loop P b left n =
     (if n > 0
      then let half = n div 2
           in and_then (read_cell b (left + half)) (\<lambda>p.
              if P p then partition_loop P b (left + (half + 1)) (n - (half + 1))
              else partition_loop P b left half)
      else Inr left)"

declare partition_loop.simps [simp del]

lemma lower_loop_partition:
  "lower_loop cmp val b left n = partition_loop (\<lambda>p. cmp val p > 0) b left n"
proof (induction cmp val b left n rule: lower_loop.induct)
  case (1 cmp val b left n)
  then show ?case
    by (subst lower_loop.simps, subst partition_loop.simps)
      (cases "read_cell b (left + n div 2)"; simp add: Let_def)
qed

lemma upper_loop_partition:
  "upper_loop cmp val b left n = partition_loop (\<lambda>p. \<not> cmp val p < 0) b left n"
proof (induction cmp val b left n rule: upper_loop.induct)
  case (1 cmp val b left n)
  then show ?case
    by (subst upper_loop.simps, subst partition_loop.simps)
      (cases "read_cell b (left + n div 2)"; simp add: Let_def)
qed

definition prefix_closed :: "('a \<Rightarrow> bool) \<Rightarrow> 'a list \<Rightarrow> bool" where
  "prefix_closed P xs \<longleftrightarrow> sorted_wrt (\<lambda>x y. P y \<longrightarrow> P x) xs"

lemma prefix_closed_nth:
  "prefix_closed P xs \<Longrightarrow> i \<le> j \<Longrightarrow> j < length xs \<Longrightarrow> P (xs ! j) \<Longrightarrow> P (xs ! i)"
  unfolding prefix_closed_def sorted_wrt_iff_nth_less by (metis le_neq_implies_less)

lemma length_takeWhile_eq:
  assumes "n \<le> length xs" and "\<And>i. i < n \<Longrightarrow> P (xs ! i)"
    and "n < length xs \<Longrightarrow> \<not> P (xs ! n)"
  shows "length (takeWhile P xs) = n"
  using assms by (metis le_eq_less_or_eq linorder_neqE_nat
      nth_length_takeWhile order.strict_trans1 length_takeWhile_le takeWhile_nth nth_mem
      set_takeWhileD)

lemma partition_loop_correct:
  assumes "vec_rep v xs" and "prefix_closed P xs"
  shows "left + n \<le> length xs \<Longrightarrow> (\<And>i. i < left \<Longrightarrow> P (xs ! i)) \<Longrightarrow>
    (left + n < length xs \<Longrightarrow> \<not> P (xs ! (left + n))) \<Longrightarrow>
    partition_loop P (items v) left n = Inr (length (takeWhile P xs))"
proof (induction n arbitrary: left rule: less_induct)
  case (less n)
  let ?m = "left + n div 2"
  show ?case
  proof (cases "n = 0")
    case True
    then show ?thesis
      using less.prems length_takeWhile_eq [of left xs P] by (subst partition_loop.simps) simp
  next
    case False
    then have m: "?m < length xs" using less.prems(1) by linarith
    have step: "partition_loop P (items v) left n =
        (if P (xs ! ?m) then partition_loop P (items v) (Suc ?m) (n - Suc (n div 2))
         else partition_loop P (items v) left (n div 2))"
      using False by (subst partition_loop.simps) (simp add: Let_def vec_rep_read [OF assms(1) m])
    have end_eq: "Suc ?m + (n - Suc (n div 2)) = left + n" using False by linarith
    show ?thesis
    proof (cases "P (xs ! ?m)")
      case True
      have "P (xs ! i)" if "i < Suc ?m" for i
        using prefix_closed_nth [OF assms(2) _ m True] that by simp
      then show ?thesis
        using less.IH [of "n - Suc (n div 2)" "Suc ?m"] less.prems False True
        unfolding end_eq by (simp add: step)
    next
      case no: False
      then show ?thesis
        using less.IH [of "n div 2" left] less.prems False by (simp add: step)
    qed
  qed
qed

text \<open>
  A vector is sorted for a search value when the comparison with it never goes up again: first
  the items below the value (the comparison is positive), then those equal to it, then the rest.
\<close>

definition sorted_for :: "compare_func \<Rightarrow> addr \<Rightarrow> addr list \<Rightarrow> bool" where
  "sorted_for cmp val xs \<longleftrightarrow> sorted_wrt (\<lambda>x y. sgn (cmp val y) \<le> sgn (cmp val x)) xs"

lemma sorted_for_prefix_closed:
  assumes "sorted_for cmp val xs"
  shows "prefix_closed (\<lambda>p. 0 < cmp val p) xs" and "prefix_closed (\<lambda>p. \<not> cmp val p < 0) xs"
proof -
  have *: "0 < a \<longrightarrow> 0 < b" "\<not> a < 0 \<longrightarrow> \<not> b < 0" if "sgn a \<le> sgn (b :: int)" for a b
    using that by (auto simp: sgn_if split: if_splits)
  show "prefix_closed (\<lambda>p. 0 < cmp val p) xs"
    using assms unfolding sorted_for_def prefix_closed_def
    by (rule sorted_wrt_mono_rel [rotated]) (rule *(1))
  show "prefix_closed (\<lambda>p. \<not> cmp val p < 0) xs"
    using assms unfolding sorted_for_def prefix_closed_def
    by (rule sorted_wrt_mono_rel [rotated]) (rule *(2))
qed

lemma SCOREP_Vector_LowerBound_rep:
  assumes rep: "vec_rep v xs" and sorted: "sorted_for cmp val xs"
  shows "SCOREP_Vector_LowerBound v val cmp =
    Inr (\<exists>p\<in>set xs. cmp val p = 0, length (takeWhile (\<lambda>p. cmp val p > 0) xs))"
proof -
  let ?P = "\<lambda>p. cmp val p > 0" and ?L = "length (takeWhile (\<lambda>p. cmp val p > 0) xs)"
  note P = sorted_for_prefix_closed(1) [OF sorted]
  have loop: "lower_loop cmp val (items v) 0 (length xs) = Inr ?L"
    unfolding lower_loop_partition by (rule partition_loop_correct [OF rep P]) simp_all
  have found: "(\<exists>p\<in>set xs. cmp val p = 0) \<longleftrightarrow> ?L < length xs \<and> 0 = cmp val (xs ! ?L)"
  proof
    assume "\<exists>p\<in>set xs. cmp val p = 0"
    then obtain i where i: "i < length xs" "cmp val (xs ! i) = 0" by (metis in_set_conv_nth)
    then have L: "?L \<le> i" using nth_length_takeWhile [of ?P xs]
      by (metis linorder_not_less nth_mem order_less_irrefl set_takeWhileD takeWhile_nth)
    then have *: "?L < length xs" using i by simp
    have "sgn (cmp val (xs ! i)) \<le> sgn (cmp val (xs ! ?L))"
      using sorted i(1) L unfolding sorted_for_def sorted_wrt_iff_nth_less
      by (cases "?L = i") auto
    with nth_length_takeWhile [OF *] i(2) show "?L < length xs \<and> 0 = cmp val (xs ! ?L)"
      using * by (auto simp: sgn_if split: if_splits)
  next
    assume "?L < length xs \<and> 0 = cmp val (xs ! ?L)"
    then show "\<exists>p\<in>set xs. cmp val p = 0" by (metis nth_mem)
  qed
  show ?thesis
    by (simp add: SCOREP_Vector_LowerBound_def vec_rep_size [OF rep] loop vec_rep_read [OF rep] found)
qed

lemma takeWhile_below: "i < length (takeWhile P xs) \<Longrightarrow> P (xs ! i)"
  by (metis nth_mem set_takeWhileD takeWhile_nth)

lemma SCOREP_Vector_UpperBound_rep:
  assumes rep: "vec_rep v xs" and sorted: "sorted_for cmp val xs"
  shows "SCOREP_Vector_UpperBound v val cmp =
    Inr (\<exists>p\<in>set xs. cmp val p = 0, length (takeWhile (\<lambda>p. \<not> cmp val p < 0) xs))"
proof -
  let ?Q = "\<lambda>p. \<not> cmp val p < 0"
  note Q = sorted_for_prefix_closed(2) [OF sorted]
  obtain n where n: "n = length (takeWhile ?Q xs)" "n \<le> length xs"
    and below: "\<And>i. i < n \<Longrightarrow> ?Q (xs ! i)" and above: "n < length xs \<Longrightarrow> cmp val (xs ! n) < 0"
    using takeWhile_below [of _ ?Q xs] nth_length_takeWhile [of ?Q xs] length_takeWhile_le [of ?Q xs]
    by auto
  have loop: "upper_loop cmp val (items v) 0 (length xs) = Inr n"
    unfolding upper_loop_partition n(1) by (rule partition_loop_correct [OF rep Q]) simp_all
  show ?thesis
  proof (cases "\<exists>p\<in>set xs. cmp val p = 0")
    case True
    then obtain i where i: "i < length xs" "cmp val (xs ! i) = 0" by (metis in_set_conv_nth)
    have L: "i < n"
    proof (rule ccontr)
      assume "\<not> i < n"
      then show False using above i prefix_closed_nth [OF Q, of n i] by simp
    qed
    then have "sgn (cmp val (xs ! (n - 1))) \<le> sgn (cmp val (xs ! i))"
      using sorted n(2) unfolding sorted_for_def sorted_wrt_iff_nth_less
      by (cases "i = n - 1") simp_all
    moreover have "?Q (xs ! (n - 1))" using below L by simp
    ultimately have "cmp val (xs ! (n - 1)) = 0"
      using i(2) by (simp add: sgn_if split: if_splits)
    then show ?thesis
      using True L n(2) unfolding n(1) [symmetric]
      by (simp add: SCOREP_Vector_UpperBound_def vec_rep_size [OF rep] loop vec_rep_read [OF rep])
  next
    case False
    have "cmp val (xs ! (n - 1)) \<noteq> 0" if "0 < n"
    proof -
      have "xs ! (n - 1) \<in> set xs" using that n(2) by simp
      then show ?thesis using False by blast
    qed
    then show ?thesis
      using False n(2) unfolding n(1) [symmetric]
      by (simp add: SCOREP_Vector_UpperBound_def vec_rep_size [OF rep] loop vec_rep_read [OF rep])
  qed
qed

lemma foreach_from_rep:
  "vec_rep v xs \<Longrightarrow> i \<le> length xs \<Longrightarrow>
   foreach_from proc v i s = Inr (fold proc (drop i xs) s)"
proof (induction "length xs - i" arbitrary: i s)
  case 0
  then show ?case by (subst foreach_from.simps) (simp add: vec_rep_size)
next
  case (Suc k)
  then have i: "i < length xs" by simp
  then have "foreach_from proc v i s = foreach_from proc v (i + 1) (proc (xs ! i) s)"
    using Suc.prems by (subst foreach_from.simps) (simp add: vec_rep_size vec_rep_read)
  with Suc(1) [of "i + 1"] Suc.prems Suc(2) i show ?case
    by (simp add: Cons_nth_drop_Suc [symmetric])
qed

lemma SCOREP_Vector_Foreach_rep [vec_simps]:
  "vec_rep v xs \<Longrightarrow> SCOREP_Vector_Foreach v proc s = Inr (fold proc xs s)"
  by (simp add: SCOREP_Vector_Foreach_def foreach_from_rep)

lemma SCOREP_Vector_At_rep [vec_simps]:
  "vec_rep v xs \<Longrightarrow> SCOREP_Vector_At v i = (if i < length xs then Inr (xs ! i) else Inl Abort)"
  by (simp add: SCOREP_Vector_At_def vec_rep_size vec_rep_read)

subsection \<open>The vector as a list: the contract of the operations\<close>

datatype vec_op = Push_Back addr | Insert_At nat addr | Pop_Back | Erase_At nat | Set_At nat addr
  | Resize_To nat | Reserve_To nat | Clear_All

primrec vec_step :: "(nat \<Rightarrow> bool) \<Rightarrow> vec \<Rightarrow> vec_op \<Rightarrow> (bool \<times> vec) outcome" where
  "vec_step alloc v (Push_Back p) = SCOREP_Vector_PushBack alloc v p"
| "vec_step alloc v (Insert_At i p) = SCOREP_Vector_Insert alloc v i p"
| "vec_step alloc v Pop_Back = Inr (True, SCOREP_Vector_PopBack v)"
| "vec_step alloc v (Erase_At i) = and_then (SCOREP_Vector_Erase v i) (\<lambda>v'. Inr (True, v'))"
| "vec_step alloc v (Set_At i p) = and_then (SCOREP_Vector_Set v i p) (\<lambda>v'. Inr (True, v'))"
| "vec_step alloc v (Resize_To n) = SCOREP_Vector_Resize alloc v n"
| "vec_step alloc v (Reserve_To n) = Inr (SCOREP_Vector_Reserve alloc v n)"
| "vec_step alloc v Clear_All = Inr (True, SCOREP_Vector_Clear v)"

text \<open>What a caller has to respect.\<close>

primrec list_legal :: "addr list \<Rightarrow> vec_op \<Rightarrow> bool" where
  "list_legal xs (Push_Back p) = True"
| "list_legal xs (Insert_At i p) = (i \<le> length xs)"
| "list_legal xs Pop_Back = (xs \<noteq> [])"
| "list_legal xs (Erase_At i) = (i < length xs)"
| "list_legal xs (Set_At i p) = (i < length xs)"
| "list_legal xs (Resize_To n) = (n * 8 \<le> SIZE_MAX)"
| "list_legal xs (Reserve_To n) = (n * 8 \<le> SIZE_MAX)"
| "list_legal xs Clear_All = True"

primrec list_step :: "addr list \<Rightarrow> vec_op \<Rightarrow> addr list" where
  "list_step xs (Push_Back p) = xs @ [p]"
| "list_step xs (Insert_At i p) = take i xs @ p # drop i xs"
| "list_step xs Pop_Back = butlast xs"
| "list_step xs (Erase_At i) = take i xs @ drop (Suc i) xs"
| "list_step xs (Set_At i p) = xs[i := p]"
| "list_step xs (Resize_To n) = xs @ replicate (n - length xs) 0"
| "list_step xs (Reserve_To n) = xs"
| "list_step xs Clear_All = []"

lemma grow_refused:
  "vec_rep v xs \<Longrightarrow> \<not> alloc (grow_capacity v * 8) \<Longrightarrow> \<exists>n\<le>SIZE_MAX. \<not> alloc n"
  using grow_capacity_fits(1) by blast

text \<open>
  C3: every modifying operation of the vector, called the way its contract demands, completes
  without touching memory outside its block and has on the represented list exactly its documented
  effect, or reports failure and leaves the list alone; it fails only when the allocator
  refuses a request. Growth by doubling included, the invariant \<^const>\<open>vec_rep\<close> is kept.
\<close>

theorem vector_refines_list:
  assumes rep: "vec_rep v xs" and alloc: "bounded_alloc alloc" and legal: "list_legal xs op"
  shows "\<exists>ok v'. vec_step alloc v op = Inr (ok, v') \<and>
     vec_rep v' (if ok then list_step xs op else xs) \<and> (\<not> ok \<longrightarrow> (\<exists>n\<le>SIZE_MAX. \<not> alloc n))"
proof (cases op)
  case (Push_Back p)
  from SCOREP_Vector_PushBack_rep [OF rep alloc, of p] show ?thesis
    using Push_Back rep by (cases) (auto dest: grow_refused)
next
  case (Insert_At i p)
  then have "i \<le> length xs" using legal by simp
  from SCOREP_Vector_Insert_rep [OF rep alloc this, of p] show ?thesis
    using Insert_At rep by (cases) (auto dest: grow_refused)
next
  case Pop_Back
  then show ?thesis using SCOREP_Vector_PopBack_rep [OF rep] legal by auto
next
  case (Erase_At i)
  then have "i < length xs" using legal by simp
  from SCOREP_Vector_Erase_rep [OF rep this] show ?thesis
    using Erase_At by (cases) auto
next
  case (Set_At i p)
  then have "i < length xs" using legal by simp
  from SCOREP_Vector_Set_rep [OF rep this, of p] show ?thesis
    using Set_At by (cases) auto
next
  case (Resize_To n)
  then have "n * 8 \<le> SIZE_MAX" using legal by simp
  from SCOREP_Vector_Resize_rep [OF rep alloc this] this show ?thesis
    using Resize_To rep by (cases) auto
next
  case (Reserve_To n)
  then have "n * 8 \<le> SIZE_MAX" using legal by simp
  from SCOREP_Vector_Reserve_rep [OF rep alloc this] this show ?thesis
    using Reserve_To rep by (cases) auto
next
  case Clear_All
  then show ?thesis using SCOREP_Vector_Clear_rep [OF rep] by auto
qed

lemma bounded_alloc_witness: "bounded_alloc (\<lambda>n. n \<le> 1024)"
  by (simp add: bounded_alloc_def PTRDIFF_MAX_def)

lemma vector_refines_list_witness:
  "\<exists>ok v'. vec_step (\<lambda>n. n \<le> 1024) \<lparr>items = [Cell 7, Undef], capacity = 2, vec_size = 1\<rparr>
       (Insert_At 0 9) = Inr (ok, v') \<and>
     vec_rep v' (if ok then list_step [7] (Insert_At 0 9) else [7]) \<and>
     (\<not> ok \<longrightarrow> (\<exists>n\<le>SIZE_MAX. \<not> n \<le> 1024))"
  by (rule vector_refines_list [OF _ bounded_alloc_witness])
    (simp_all add: vec_rep_def PTRDIFF_MAX_def)

text \<open>
  C33: on a vector that is sorted for the search value, the binary searches
  \<^verbatim>\<open>SCOREP_Vector_LowerBound\<close> and \<^verbatim>\<open>SCOREP_Vector_UpperBound\<close> return without reading outside
  the elements, store the number of leading items below the value (respectively not above it)
  and report whether the value occurs.
\<close>

theorem vector_bounds_correct:
  assumes "vec_rep v xs" and "sorted_for cmp val xs"
  shows "SCOREP_Vector_LowerBound v val cmp =
      Inr (\<exists>p\<in>set xs. cmp val p = 0, length (takeWhile (\<lambda>p. cmp val p > 0) xs)) \<and>
    SCOREP_Vector_UpperBound v val cmp =
      Inr (\<exists>p\<in>set xs. cmp val p = 0, length (takeWhile (\<lambda>p. \<not> cmp val p < 0) xs))"
  using SCOREP_Vector_LowerBound_rep [OF assms] SCOREP_Vector_UpperBound_rep [OF assms] by blast

lemma vector_bounds_correct_witness:
  "SCOREP_Vector_LowerBound \<lparr>items = [Cell 2, Cell 5, Cell 5, Cell 8], capacity = 4, vec_size = 4\<rparr>
      5 (\<lambda>a b. sint a - sint b) = Inr (True, 1) \<and>
   SCOREP_Vector_UpperBound \<lparr>items = [Cell 2, Cell 5, Cell 5, Cell 8], capacity = 4, vec_size = 4\<rparr>
      5 (\<lambda>a b. sint a - sint b) = Inr (True, 3)"
  using vector_bounds_correct [of "\<lparr>items = [Cell 2, Cell 5, Cell 5, Cell 8], capacity = 4,
      vec_size = 4\<rparr>" "[2, 5, 5, 8]" "\<lambda>a b. sint a - sint b" 5]
  by (simp add: vec_rep_def sorted_for_def PTRDIFF_MAX_def)

text \<open>
  The byte count of \<^verbatim>\<open>SCOREP_Vector_Reserve\<close> wraps around. Asked for \<open>2 ^ 61\<close> pointers, an
  empty vector claims to have that capacity although its block has no cell at all, and the
  \<^verbatim>\<open>PushBack\<close> that follows writes behind the block.
\<close>

theorem vector_reserve_overflow:
  "SCOREP_Vector_Reserve (\<lambda>n. n \<le> 1024) \<lparr>items = [], capacity = 0, vec_size = 0\<rparr> (2 ^ 61) =
     (True, \<lparr>items = [], capacity = 2 ^ 61, vec_size = 0\<rparr>) \<and>
   SCOREP_Vector_PushBack (\<lambda>n. n \<le> 1024) \<lparr>items = [], capacity = 2 ^ 61, vec_size = 0\<rparr> 7 =
     Inl Bad_Access"
  by (simp add: SCOREP_Vector_Reserve_def SCOREP_Vector_PushBack_def realloc_cells_def
      size_wrap_def write_cell_def)

end
