(* ===== verification/Hashtab.thy ===== *)
theory Hashtab
  imports Prelude
begin

section \<open>The hash table with chaining\<close>

text \<open>
  The model of \<^verbatim>\<open>src/utils/hashtab/\<close>: \<^verbatim>\<open>SCOREP_Hashtab.c\<close> (table and iterator), the hash
  functions, comparison functions and extensions beside it. The table is a list of chains and a
  chain the list of its items in the order of their \<^verbatim>\<open>next\<close> pointers; the pointer to an item of a
  chain is the rest of the chain from there on, \<^verbatim>\<open>NULL\<close> the empty rest. Keys are modelled by the
  objects they point to, which the interface demands to stay valid. The four insertion functions
  that the macro \<^verbatim>\<open>GEN_HASHTAB_INSERT_FUNC_DEF\<close> generates differ in the type of the value only:
  the model has one, with the type as a parameter. \<open>ok\<close> tells whether \<^verbatim>\<open>malloc\<close> succeeds.

  The locale \<open>key_functions\<close> is the contract of a pair of hash and comparison function; in it the
  table is shown to hold, for every key, a stack of values: an insertion pushes, a removal pops
  and a search gives the top. The pairs that the library provides are interpretations.
\<close>

record ('k, 'v) listitem =
  item_key :: 'k
  item_value :: 'v
  hash_value :: u64

type_synonym ('k, 'v) chain = "('k, 'v) listitem list"

record ('k, 'v) hashtab =
  table :: "('k, 'v) chain list"
  tabsize :: nat
  hashtab_size :: nat
  hash_func :: "'k \<Rightarrow> u64"
  kcmp_func :: "'k \<Rightarrow> 'k \<Rightarrow> int"

subsection \<open>Construction\<close>

definition SCOREP_Hashtab_CreateSize ::
  "bool \<Rightarrow> nat \<Rightarrow> ('k \<Rightarrow> u64) \<Rightarrow> ('k \<Rightarrow> 'k \<Rightarrow> int) \<Rightarrow> ('k, 'v) hashtab option outcome" where
  "SCOREP_Hashtab_CreateSize ok n hashfunc kcmpfunc = assert_that (n > 0)
     (Inr (if ok then Some \<lparr>table = replicate n [], tabsize = n, hashtab_size = 0,
                            hash_func = hashfunc, kcmp_func = kcmpfunc\<rparr> else None))"

text \<open>\<^verbatim>\<open>Free\<close> releases the items of each chain, then the table; the result is what was released.\<close>

function free_tables :: "('k, 'v) hashtab \<Rightarrow> nat \<Rightarrow> ('k, 'v) listitem list outcome" where
  "free_tables t index =
     (if index < tabsize t
      then if index < length (table t)
           then and_then (free_tables t (index + 1)) (\<lambda>freed. Inr (table t ! index @ freed))
           else Inl Bad_Access
      else Inr [])"
  by pat_completeness auto
termination by (relation "measure (\<lambda>(t, index). tabsize t - index)") auto

declare free_tables.simps [simp del]

definition SCOREP_Hashtab_Free :: "('k, 'v) hashtab \<Rightarrow> ('k, 'v) listitem list outcome" where
  "SCOREP_Hashtab_Free t = free_tables t 0"

definition SCOREP_Hashtab_Size :: "('k, 'v) hashtab \<Rightarrow> nat" where
  "SCOREP_Hashtab_Size t = hashtab_size t"

definition SCOREP_Hashtab_Empty :: "('k, 'v) hashtab \<Rightarrow> bool" where
  "SCOREP_Hashtab_Empty t \<longleftrightarrow> hashtab_size t = 0"

subsection \<open>Insertion, removal, search\<close>

definition read_table :: "('k, 'v) hashtab \<Rightarrow> nat \<Rightarrow> ('k, 'v) chain outcome" where
  "read_table t i = (if i < length (table t) then Inr (table t ! i) else Inl Bad_Access)"

text \<open>\<open>hashValPtr\<close> is the hash value a caller may already have.\<close>

definition hash_or :: "('k, 'v) hashtab \<Rightarrow> 'k \<Rightarrow> u64 option \<Rightarrow> u64" where
  "hash_or t key hashValPtr = (case hashValPtr of Some h \<Rightarrow> h | None \<Rightarrow> hash_func t key)"

definition chain_index :: "('k, 'v) hashtab \<Rightarrow> u64 \<Rightarrow> nat" where
  "chain_index t hashval = unat hashval mod tabsize t"

definition SCOREP_Hashtab_Insert ::
  "bool \<Rightarrow> ('k, 'v) hashtab \<Rightarrow> 'k \<Rightarrow> 'v \<Rightarrow> u64 option
     \<Rightarrow> (('k, 'v) listitem option \<times> ('k, 'v) hashtab) outcome" where
  "SCOREP_Hashtab_Insert ok t key val hashValPtr =
     (let hashval = hash_or t key hashValPtr; index = chain_index t hashval
      in if \<not> ok then Inr (None, t)
         else
           let item = \<lparr>item_key = key, item_value = val, hash_value = hashval\<rparr>
           in and_then (read_table t index) (\<lambda>chain.
              Inr (Some item, t\<lparr>table := (table t)[index := item # chain],
                                hashtab_size := size_wrap (hashtab_size t + 1)\<rparr>)))"

text \<open>The search of a chain, as \<^verbatim>\<open>Find\<close> and \<^verbatim>\<open>Remove\<close> have it: hash values first, then keys.\<close>

definition item_matches :: "('k, 'v) hashtab \<Rightarrow> 'k \<Rightarrow> u64 \<Rightarrow> ('k, 'v) listitem \<Rightarrow> bool" where
  "item_matches t key hashval item \<longleftrightarrow>
     hashval = hash_value item \<and> 0 = kcmp_func t key (item_key item)"

fun remove_item ::
  "(('k, 'v) listitem \<Rightarrow> bool) \<Rightarrow> ('k, 'v) chain \<Rightarrow> (('k, 'v) listitem option \<times> ('k, 'v) chain)"
where
  "remove_item matches [] = (None, [])"
| "remove_item matches (item # rest) =
     (if matches item then (Some item, rest)
      else let (removed, rest') = remove_item matches rest in (removed, item # rest'))"

text \<open>The result is the item whose key and value are deleted. The size is not changed.\<close>

definition SCOREP_Hashtab_Remove ::
  "('k, 'v) hashtab \<Rightarrow> 'k \<Rightarrow> u64 option
     \<Rightarrow> (('k, 'v) listitem option \<times> ('k, 'v) hashtab) outcome" where
  "SCOREP_Hashtab_Remove t key hashValPtr =
     (let hashval = hash_or t key hashValPtr; index = chain_index t hashval
      in and_then (read_table t index) (\<lambda>chain.
         let (removed, chain') = remove_item (item_matches t key hashval) chain
         in Inr (removed, t\<lparr>table := (table t)[index := chain']\<rparr>)))"

fun find_item :: "(('k, 'v) listitem \<Rightarrow> bool) \<Rightarrow> ('k, 'v) chain \<Rightarrow> ('k, 'v) listitem option" where
  "find_item matches [] = None"
| "find_item matches (item # rest) =
     (if matches item then Some item else find_item matches rest)"

text \<open>The second component is the hash value that \<^verbatim>\<open>Find\<close> stores for the caller.\<close>

definition SCOREP_Hashtab_Find ::
  "('k, 'v) hashtab \<Rightarrow> 'k \<Rightarrow> (('k, 'v) listitem option \<times> u64) outcome" where
  "SCOREP_Hashtab_Find t key =
     (let hashval = hash_func t key; index = chain_index t hashval
      in and_then (read_table t index) (\<lambda>chain.
         Inr (find_item (item_matches t key hashval) chain, hashval)))"

subsection \<open>The iterator\<close>

record ('k, 'v) iterator =
  it_index :: nat
  it_item :: "('k, 'v) chain"   \<comment> \<open>the current item with what follows it in its chain\<close>

definition SCOREP_Hashtab_IteratorCreate :: "bool \<Rightarrow> ('k, 'v) iterator option" where
  "SCOREP_Hashtab_IteratorCreate ok = (if ok then Some \<lparr>it_index = 0, it_item = []\<rparr> else None)"

definition current_entry :: "('k, 'v) chain \<Rightarrow> ('k, 'v) listitem option" where
  "current_entry item = (case item of [] \<Rightarrow> None | i # _ \<Rightarrow> Some i)"

text \<open>The loop reads the table before it tests the index.\<close>

function first_loop :: "('k, 'v) hashtab \<Rightarrow> nat \<Rightarrow> nat outcome" where
  "first_loop t index =
     and_then (read_table t index) (\<lambda>chain.
       if chain = [] \<and> index < tabsize t then first_loop t (index + 1) else Inr index)"
  by pat_completeness auto
termination by (relation "measure (\<lambda>(t, index). tabsize t - index)") auto

declare first_loop.simps [simp del]

definition SCOREP_Hashtab_IteratorFirst ::
  "('k, 'v) hashtab \<Rightarrow> ('k, 'v) iterator
     \<Rightarrow> (('k, 'v) listitem option \<times> ('k, 'v) iterator) outcome" where
  "SCOREP_Hashtab_IteratorFirst t it =
     (if hashtab_size t = 0 then Inr (None, it)
      else and_then (first_loop t 0) (\<lambda>index.
           and_then (read_table t index) (\<lambda>chain.
           Inr (current_entry chain, \<lparr>it_index = index, it_item = chain\<rparr>))))"

function next_loop :: "('k, 'v) hashtab \<Rightarrow> nat \<Rightarrow> ('k, 'v) iterator outcome" where
  "next_loop t index =
     (if index + 1 = tabsize t then Inr \<lparr>it_index = index + 1, it_item = []\<rparr>
      else and_then (read_table t (index + 1)) (\<lambda>chain.
           if chain = [] then next_loop t (index + 1)
           else Inr \<lparr>it_index = index + 1, it_item = chain\<rparr>))"
  by pat_completeness auto
termination
  by (relation "measure (\<lambda>(t, index). length (table t) - index)")
    (auto simp: read_table_def split: if_splits)

declare next_loop.simps [simp del]

definition SCOREP_Hashtab_IteratorNext ::
  "('k, 'v) hashtab \<Rightarrow> ('k, 'v) iterator
     \<Rightarrow> (('k, 'v) listitem option \<times> ('k, 'v) iterator) outcome" where
  "SCOREP_Hashtab_IteratorNext t it =
     (case it_item it of
        [] \<Rightarrow> Inr (None, it)
      | _ # rest \<Rightarrow>
          and_then (if rest = [] then next_loop t (it_index it) else Inr (it\<lparr>it_item := rest\<rparr>))
            (\<lambda>it'. Inr (current_entry (it_item it'), it')))"

lemma next_loop_progress:
  "next_loop t i = Inr it \<Longrightarrow> it_item it = [] \<or> i < it_index it \<and> it_index it < length (table t)"
proof (induction t i rule: next_loop.induct)
  case (1 t index)
  show ?case
  proof (cases "index + 1 = tabsize t")
    case True
    then show ?thesis using "1.prems" by (subst (asm) next_loop.simps) auto
  next
    case False
    then obtain chain where chain: "read_table t (index + 1) = Inr chain"
      using "1.prems" by (subst (asm) next_loop.simps) (auto simp: and_then_Inr_iff)
    show ?thesis
    proof (cases "chain = []")
      case True
      then have "next_loop t (index + 1) = Inr it"
        using "1.prems" chain False by (subst (asm) next_loop.simps) simp
      from "1.IH" [OF False chain True this] show ?thesis by auto
    next
      case no: False
      then show ?thesis
        using "1.prems" chain False
        by (subst (asm) next_loop.simps) (auto simp: read_table_def split: if_splits)
    qed
  qed
qed

text \<open>The loop over all entries, as \<^verbatim>\<open>Foreach\<close> and \<^verbatim>\<open>FreeAll\<close> have it; \<open>s\<close> is the caller's state.\<close>

function foreach_loop ::
  "(('k, 'v) listitem \<Rightarrow> 's \<Rightarrow> 's) \<Rightarrow> ('k, 'v) hashtab \<Rightarrow> ('k, 'v) iterator \<Rightarrow> 's \<Rightarrow> 's outcome"
where
  "foreach_loop procfunc t it s =
     (case it_item it of
        [] \<Rightarrow> Inr s
      | entry # _ \<Rightarrow>
          (case SCOREP_Hashtab_IteratorNext t it of
             Inl e \<Rightarrow> Inl e
           | Inr (_, it') \<Rightarrow> foreach_loop procfunc t it' (procfunc entry s)))"
  by pat_completeness auto
termination
proof (relation "measures [\<lambda>(p, t, it, s). if it_item it = [] then 0 else Suc (length (table t) - it_index it),
    \<lambda>(p, t, it, s). length (it_item it)]", goal_cases)
  case (2 procfunc t it s entry rest out e it')
  have "it_item it' = [] \<or> it_item it' = rest \<and> rest \<noteq> [] \<and> it_index it' = it_index it \<or>
      it_index it < it_index it' \<and> it_index it' < length (table t)"
    using 2 next_loop_progress [of t "it_index it" it']
    by (auto simp: SCOREP_Hashtab_IteratorNext_def and_then_Inr_iff split: if_splits)
  then show ?case using 2 by auto
qed simp

declare foreach_loop.simps [simp del]

definition SCOREP_Hashtab_Foreach ::
  "bool \<Rightarrow> ('k, 'v) hashtab \<Rightarrow> (('k, 'v) listitem \<Rightarrow> 's \<Rightarrow> 's) \<Rightarrow> 's \<Rightarrow> 's outcome" where
  "SCOREP_Hashtab_Foreach ok t procfunc s =
     (case SCOREP_Hashtab_IteratorCreate ok of
        None \<Rightarrow> Inl Abort
      | Some iter \<Rightarrow>
          and_then (SCOREP_Hashtab_IteratorFirst t iter) (\<lambda>(entry, it).
            case entry of None \<Rightarrow> Inr s | Some _ \<Rightarrow> foreach_loop procfunc t it s))"

definition SCOREP_Hashtab_FreeAll ::
  "bool \<Rightarrow> ('k, 'v) hashtab \<Rightarrow> ('k \<Rightarrow> 's \<Rightarrow> 's) \<Rightarrow> ('v \<Rightarrow> 's \<Rightarrow> 's) \<Rightarrow> 's
     \<Rightarrow> ('s \<times> ('k, 'v) listitem list) outcome" where
  "SCOREP_Hashtab_FreeAll ok t deleteKey deleteValue s =
     and_then (SCOREP_Hashtab_Foreach ok t
                 (\<lambda>item s. deleteValue (item_value item) (deleteKey (item_key item) s)) s) (\<lambda>s'.
     and_then (SCOREP_Hashtab_Free t) (\<lambda>freed. Inr (s', freed)))"

subsection \<open>Hash functions and comparison functions\<close>

definition hash_string_step :: "u64 \<Rightarrow> char \<Rightarrow> u64" where
  "hash_string_step hash c =
     (let h = hash + of_char c; h = h + push_bit 10 h in h XOR drop_bit 6 h)"

text \<open>One-at-a-time hashing; the string ends at its first null character.\<close>

definition SCOREP_Hashtab_HashString :: "string \<Rightarrow> u64" where
  "SCOREP_Hashtab_HashString key =
     (let h = foldl hash_string_step 0 key; h = h + push_bit 3 h; h = h XOR drop_bit 11 h
      in h + push_bit 15 h)"

definition SCOREP_Hashtab_HashInt64 :: "u64 \<Rightarrow> u64" where
  "SCOREP_Hashtab_HashInt64 key = key * 11400714819323199488"

definition SCOREP_Hashtab_HashInt32 :: "u32 \<Rightarrow> u64" where
  "SCOREP_Hashtab_HashInt32 key = ucast (key * 2654435761)"

text \<open>\<^verbatim>\<open>size_t\<close> is 64 bits wide.\<close>

definition SCOREP_Hashtab_HashPointer :: "u64 \<Rightarrow> u64" where
  "SCOREP_Hashtab_HashPointer key = (key div 8) * 11400714819323199488"

text \<open>\<^verbatim>\<open>strcmp\<close> of the standard library: the sign of the first difference.\<close>

fun strcmp :: "string \<Rightarrow> string \<Rightarrow> int" where
  "strcmp [] [] = 0"
| "strcmp [] (_ # _) = - 1"
| "strcmp (_ # _) [] = 1"
| "strcmp (a # as) (b # bs) =
     (if a = b then strcmp as bs else sgn (of_char a - of_char b))"

definition SCOREP_Hashtab_CompareStrings :: "string \<Rightarrow> string \<Rightarrow> int" where
  "SCOREP_Hashtab_CompareStrings key item_key' = strcmp key item_key'"

definition SCOREP_Hashtab_CompareInt8 :: "u8 \<Rightarrow> u8 \<Rightarrow> int" where
  "SCOREP_Hashtab_CompareInt8 key item_key' = (if sint key = sint item_key' then 0 else 1)"

definition SCOREP_Hashtab_CompareInt16 :: "u16 \<Rightarrow> u16 \<Rightarrow> int" where
  "SCOREP_Hashtab_CompareInt16 key item_key' = (if sint key = sint item_key' then 0 else 1)"

definition SCOREP_Hashtab_CompareInt32 :: "u32 \<Rightarrow> u32 \<Rightarrow> int" where
  "SCOREP_Hashtab_CompareInt32 key item_key' = (if sint key = sint item_key' then 0 else 1)"

definition SCOREP_Hashtab_CompareInt64 :: "u64 \<Rightarrow> u64 \<Rightarrow> int" where
  "SCOREP_Hashtab_CompareInt64 key item_key' = (if sint key = sint item_key' then 0 else 1)"

definition SCOREP_Hashtab_CompareUint32 :: "u32 \<Rightarrow> u32 \<Rightarrow> int" where
  "SCOREP_Hashtab_CompareUint32 key item_key' = of_bool (key \<noteq> item_key')"

definition SCOREP_Hashtab_CompareUint64 :: "u64 \<Rightarrow> u64 \<Rightarrow> int" where
  "SCOREP_Hashtab_CompareUint64 key item_key' = of_bool (key \<noteq> item_key')"

definition SCOREP_Hashtab_ComparePointer :: "u64 \<Rightarrow> u64 \<Rightarrow> int" where
  "SCOREP_Hashtab_ComparePointer key item_key' = (if key = item_key' then 0 else 1)"

subsection \<open>The invariant and what a table stands for\<close>

text \<open>Every item is in the chain that its hash value selects, and carries its key's hash value.\<close>

definition hashtab_wf :: "('k, 'v) hashtab \<Rightarrow> bool" where
  "hashtab_wf t \<longleftrightarrow> 0 < tabsize t \<and> length (table t) = tabsize t \<and>
     list_all (\<lambda>i. list_all (\<lambda>it. hash_value it = hash_func t (item_key it) \<and>
       chain_index t (hash_value it) = i) (table t ! i)) [0..<tabsize t]"

definition all_items :: "('k, 'v) hashtab \<Rightarrow> ('k, 'v) listitem list" where
  "all_items t = concat (table t)"

text \<open>The values stored for a key, the newest first.\<close>

definition values_of :: "('k, 'v) hashtab \<Rightarrow> 'k \<Rightarrow> 'v list" where
  "values_of t key =
     map item_value (filter (\<lambda>it. kcmp_func t key (item_key it) = 0) (all_items t))"

lemma hashtab_wf_iff:
  "hashtab_wf t \<longleftrightarrow> 0 < tabsize t \<and> length (table t) = tabsize t \<and>
     (\<forall>i<tabsize t. \<forall>it\<in>set (table t ! i).
        hash_value it = hash_func t (item_key it) \<and> chain_index t (hash_value it) = i)"
  by (simp only: hashtab_wf_def list_all_iff set_upt Ball_def atLeastLessThan_iff le0 simp_thms)

lemma hashtab_wfD:
  assumes "hashtab_wf t"
  shows "0 < tabsize t" and "length (table t) = tabsize t"
    and "i < tabsize t \<Longrightarrow> it \<in> set (table t ! i) \<Longrightarrow>
      hash_value it = hash_func t (item_key it) \<and> chain_index t (hash_value it) = i"
  using assms unfolding hashtab_wf_iff by blast+

lemma hashtab_wfI:
  "0 < tabsize t \<Longrightarrow> length (table t) = tabsize t \<Longrightarrow>
   (\<And>i it. i < tabsize t \<Longrightarrow> it \<in> set (table t ! i) \<Longrightarrow>
      hash_value it = hash_func t (item_key it) \<and> chain_index t (hash_value it) = i) \<Longrightarrow>
   hashtab_wf t"
  unfolding hashtab_wf_iff by blast

lemma chain_index_less: "hashtab_wf t \<Longrightarrow> chain_index t h < tabsize t"
  by (simp add: chain_index_def hashtab_wf_def)

lemma concat_single:
  "i < length xss \<Longrightarrow> (\<And>j. j < length xss \<Longrightarrow> j \<noteq> i \<Longrightarrow> xss ! j = []) \<Longrightarrow> concat xss = xss ! i"
proof (induction xss arbitrary: i)
  case (Cons xs xss)
  show ?case
  proof (cases i)
    case 0
    have "y = []" if "y \<in> set xss" for y
      using that Cons.prems(2) [of "Suc j" for j] 0 by (auto simp: in_set_conv_nth)
    then show ?thesis using 0 by simp
  next
    case (Suc k)
    have "concat xss = xss ! k"
    proof (rule Cons.IH)
      show "k < length xss" using Cons.prems(1) Suc by simp
      show "xss ! j = []" if "j < length xss" "j \<noteq> k" for j
        using Cons.prems(2) [of "Suc j"] that Suc by simp
    qed
    moreover have "xs = []" using Cons.prems(2) [of 0] Suc by simp
    ultimately show ?thesis using Suc by simp
  qed
qed simp

lemma filter_concat_single:
  assumes "i < length xss" and "\<And>j. j < length xss \<Longrightarrow> j \<noteq> i \<Longrightarrow> filter P (xss ! j) = []"
  shows "filter P (concat xss) = filter P (xss ! i)"
  unfolding filter_concat using assms by (subst concat_single [of i]) simp_all

lemma find_item_filter: "find_item m xs = (case filter m xs of [] \<Rightarrow> None | x # _ \<Rightarrow> Some x)"
  by (induction xs) auto

lemma remove_item_same: "filter m (snd (remove_item m xs)) = tl (filter m xs)"
  by (induction xs) (auto simp: split_beta)

lemma remove_item_other:
  "(\<And>it. it \<in> set xs \<Longrightarrow> \<not> (m it \<and> Q it)) \<Longrightarrow> filter Q (snd (remove_item m xs)) = filter Q xs"
  by (induction xs) (auto simp: split_beta)

lemma remove_item_cong:
  "(\<And>it. it \<in> set xs \<Longrightarrow> m it = m' it) \<Longrightarrow> remove_item m xs = remove_item m' xs"
  by (induction xs) auto

lemma remove_item_removed: "fst (remove_item m xs) = find_item m xs"
  by (induction xs) (auto simp: split_beta)

lemma set_remove_item: "set (snd (remove_item m xs)) \<subseteq> set xs"
  by (induction xs) (auto simp: split_beta)

subsection \<open>The contract of hash and comparison\<close>

locale key_functions =
  fixes hash :: "'k \<Rightarrow> u64" and kcmp :: "'k \<Rightarrow> 'k \<Rightarrow> int"
  assumes kcmp_refl: "kcmp a a = 0"
    and kcmp_sym: "kcmp a b = 0 \<Longrightarrow> kcmp b a = 0"
    and kcmp_trans: "kcmp a b = 0 \<Longrightarrow> kcmp b c = 0 \<Longrightarrow> kcmp a c = 0"
    and hash_kcmp: "kcmp a b = 0 \<Longrightarrow> hash a = hash b"
begin

definition uses :: "('k, 'v) hashtab \<Rightarrow> bool" where
  "uses t \<longleftrightarrow> hash_func t = hash \<and> kcmp_func t = kcmp"

lemma matches_iff:
  assumes "hashtab_wf t" and "uses t" and "i < tabsize t" and "it \<in> set (table t ! i)"
  shows "item_matches t key (hash key) it \<longleftrightarrow> kcmp key (item_key it) = 0"
  using hashtab_wfD(3) [OF assms(1,3,4)] assms(2) hash_kcmp [of key "item_key it"]
  by (auto simp: item_matches_def uses_def)

lemma values_of_chain:
  assumes "hashtab_wf t" and "uses t"
  shows "values_of t key = map item_value
    (filter (\<lambda>it. kcmp key (item_key it) = 0) (table t ! chain_index t (hash key)))"
proof -
  have "filter (\<lambda>it. kcmp key (item_key it) = 0) (table t ! j) = []"
    if "j < length (table t)" "j \<noteq> chain_index t (hash key)" for j
    using hashtab_wfD [OF assms(1)] that assms(2) hash_kcmp
    by (fastforce simp: filter_empty_conv uses_def)
  then have "filter (\<lambda>it. kcmp key (item_key it) = 0) (concat (table t)) =
      filter (\<lambda>it. kcmp key (item_key it) = 0) (table t ! chain_index t (hash key))"
    using chain_index_less [OF assms(1)] hashtab_wfD(2) [OF assms(1)]
    by (intro filter_concat_single) simp_all
  then show ?thesis using assms(2) by (simp add: values_of_def all_items_def uses_def)
qed

lemma Find_values:
  assumes "hashtab_wf t" and "uses t"
  shows "\<exists>entry. SCOREP_Hashtab_Find t key = Inr (entry, hash key) \<and>
    map_option item_value entry = (case values_of t key of [] \<Rightarrow> None | v # _ \<Rightarrow> Some v)"
proof -
  let ?chain = "table t ! chain_index t (hash key)"
  note less = chain_index_less [OF assms(1), of "hash key"]
  have "filter (item_matches t key (hash key)) ?chain = filter (\<lambda>it. kcmp key (item_key it) = 0) ?chain"
    by (rule filter_cong [OF refl]) (rule matches_iff [OF assms less])
  then show ?thesis
    using less hashtab_wfD(2) [OF assms(1)] assms(2)
    by (auto simp: SCOREP_Hashtab_Find_def uses_def read_table_def find_item_filter
        values_of_chain [OF assms] Let_def split: list.splits)
qed

lemma table_update_wf:
  assumes "hashtab_wf t" and "uses t" and "i < tabsize t"
    and "\<And>it. it \<in> set chain \<Longrightarrow> hash_value it = hash (item_key it) \<and> chain_index t (hash_value it) = i"
  shows "hashtab_wf (t\<lparr>table := (table t)[i := chain], hashtab_size := n\<rparr>)"
proof (rule hashtab_wfI)
  fix j it
  assume "j < tabsize (t\<lparr>table := (table t)[i := chain], hashtab_size := n\<rparr>)"
    and "it \<in> set (table (t\<lparr>table := (table t)[i := chain], hashtab_size := n\<rparr>) ! j)"
  then show "hash_value it = hash_func (t\<lparr>table := (table t)[i := chain], hashtab_size := n\<rparr>) (item_key it) \<and>
      chain_index (t\<lparr>table := (table t)[i := chain], hashtab_size := n\<rparr>) (hash_value it) = j"
    using assms(2,3) assms(4) [of it] hashtab_wfD(2) [OF assms(1)]
      hashtab_wfD(3) [OF assms(1), of j it]
    by (cases "j = i") (auto simp: chain_index_def uses_def)
qed (use hashtab_wfD [OF assms(1)] in simp_all)

text \<open>What an operation does to the chain of a key, it does to the values of the equal keys only.\<close>

lemma values_of_update:
  assumes "hashtab_wf t" and "uses t" and "i = chain_index t (hash key)"
    and t': "t' = t\<lparr>table := (table t)[i := chain], hashtab_size := n\<rparr>" and "hashtab_wf t'"
    and same: "\<And>k. kcmp k key = 0 \<Longrightarrow>
      map item_value (filter (\<lambda>it. kcmp k (item_key it) = 0) chain) = f (values_of t key)"
    and other: "\<And>k. kcmp k key \<noteq> 0 \<Longrightarrow>
      filter (\<lambda>it. kcmp k (item_key it) = 0) chain = filter (\<lambda>it. kcmp k (item_key it) = 0) (table t ! i)"
  shows "values_of t' k = (if kcmp k key = 0 then f (values_of t k) else values_of t k)"
proof -
  have uses': "uses t'" using assms(2) by (simp add: uses_def t')
  have index: "chain_index t' h = chain_index t h" for h by (simp add: t' chain_index_def)
  have i: "i < length (table t)"
    using chain_index_less [OF assms(1)] hashtab_wfD(2) [OF assms(1)] assms(3) by simp
  note val = values_of_chain [OF assms(1,2)] and val' = values_of_chain [OF assms(5) uses']
  show ?thesis
  proof (cases "kcmp k key = 0")
    case True
    then have "hash k = hash key" by (rule hash_kcmp)
    moreover have "(kcmp k x = 0) = (kcmp key x = 0)" for x
      using True kcmp_trans kcmp_sym by blast
    ultimately have "values_of t k = values_of t key" by (simp add: val)
    then show ?thesis
      using True same [OF True] i \<open>hash k = hash key\<close> assms(3)
      by (simp add: val' index) (simp add: t')
  next
    case False
    show ?thesis
    proof (cases "chain_index t (hash k) = i")
      case True
      then show ?thesis using False other [OF False] i
        by (simp add: val' index val) (simp add: t')
    next
      case no: False
      then show ?thesis using False by (simp add: val' index val) (simp add: t')
    qed
  qed
qed

lemma Insert_values:
  assumes wf: "hashtab_wf t" and uses: "uses t" and hv: "hv = None \<or> hv = Some (hash key)"
  shows "\<exists>entry t'. SCOREP_Hashtab_Insert True t key v hv = Inr (Some entry, t') \<and>
    item_key entry = key \<and> item_value entry = v \<and> hashtab_wf t' \<and> uses t' \<and>
    hashtab_size t' = size_wrap (hashtab_size t + 1) \<and>
    (\<forall>k. values_of t' k = (if kcmp k key = 0 then v # values_of t k else values_of t k))"
proof -
  let ?i = "chain_index t (hash key)"
  let ?item = "\<lparr>item_key = key, item_value = v, hash_value = hash key\<rparr>"
  let ?chain = "?item # table t ! ?i"
  let ?t = "t\<lparr>table := (table t)[?i := ?chain], hashtab_size := size_wrap (hashtab_size t + 1)\<rparr>"
  note i = chain_index_less [OF wf, of "hash key"]
  have run: "SCOREP_Hashtab_Insert True t key v hv = Inr (Some ?item, ?t)"
    using hv uses i hashtab_wfD(2) [OF wf]
    by (auto simp: SCOREP_Hashtab_Insert_def hash_or_def uses_def read_table_def Let_def)
  have wf': "hashtab_wf ?t"
    using hashtab_wfD(3) [OF wf i] uses by (intro table_update_wf [OF wf uses i]) (auto simp: uses_def)
  have "values_of ?t k = (if kcmp k key = 0 then v # values_of t k else values_of t k)" for k
    by (rule values_of_update [OF wf uses refl refl wf', where f = "\<lambda>vs. v # vs"])
      (auto simp: values_of_chain [OF wf uses] intro!: arg_cong [where f = "map item_value"] filter_cong
        intro: kcmp_trans kcmp_sym)
  with run wf' uses show ?thesis by (auto simp: uses_def)
qed

lemma Remove_values:
  assumes wf: "hashtab_wf t" and uses: "uses t" and hv: "hv = None \<or> hv = Some (hash key)"
  shows "\<exists>removed t'. SCOREP_Hashtab_Remove t key hv = Inr (removed, t') \<and>
    map_option item_value removed = (case values_of t key of [] \<Rightarrow> None | v # _ \<Rightarrow> Some v) \<and>
    hashtab_wf t' \<and> uses t' \<and> hashtab_size t' = hashtab_size t \<and>
    (\<forall>k. values_of t' k = (if kcmp k key = 0 then tl (values_of t k) else values_of t k))"
proof -
  let ?i = "chain_index t (hash key)" and ?m = "\<lambda>it. kcmp key (item_key it) = 0"
  let ?chain = "snd (remove_item ?m (table t ! ?i))"
  let ?t = "t\<lparr>table := (table t)[?i := ?chain], hashtab_size := hashtab_size t\<rparr>"
  note i = chain_index_less [OF wf, of "hash key"]
  have "remove_item (item_matches t key (hash key)) (table t ! ?i) = remove_item ?m (table t ! ?i)"
    by (rule remove_item_cong) (rule matches_iff [OF wf uses i])
  moreover from this
  have "find_item (item_matches t key (hash key)) (table t ! ?i) = find_item ?m (table t ! ?i)"
    by (metis remove_item_removed)
  ultimately have run: "SCOREP_Hashtab_Remove t key hv = Inr (find_item ?m (table t ! ?i), ?t)"
    using hv uses i hashtab_wfD(2) [OF wf]
    by (auto simp: SCOREP_Hashtab_Remove_def hash_or_def uses_def read_table_def Let_def
        split_beta remove_item_removed)
  have wf': "hashtab_wf ?t"
    using hashtab_wfD(3) [OF wf i] uses set_remove_item [of ?m "table t ! ?i"]
    by (intro table_update_wf [OF wf uses i]) (auto simp: uses_def)
  have "values_of ?t k = (if kcmp k key = 0 then tl (values_of t k) else values_of t k)" for k
  proof (rule values_of_update [OF wf uses refl refl wf'])
    fix k assume k: "kcmp k key = 0"
    then have "(kcmp k x = 0) = (kcmp key x = 0)" for x using kcmp_trans kcmp_sym by blast
    then show "map item_value (filter (\<lambda>it. kcmp k (item_key it) = 0) ?chain) = tl (values_of t key)"
      by (simp add: remove_item_same values_of_chain [OF wf uses] map_tl)
  next
    fix k assume "kcmp k key \<noteq> 0"
    then show "filter (\<lambda>it. kcmp k (item_key it) = 0) ?chain =
        filter (\<lambda>it. kcmp k (item_key it) = 0) (table t ! ?i)"
      by (intro remove_item_other) (meson kcmp_trans kcmp_sym)
  qed
  with run wf' uses show ?thesis
    by (auto simp: uses_def find_item_filter values_of_chain [OF wf uses] split: list.splits)
qed

end

subsection \<open>The pairs of functions the library provides\<close>

lemma strcmp_eq_0 [simp]: "strcmp a b = 0 \<longleftrightarrow> a = b"
proof (induction a b rule: strcmp.induct)
  case (4 a as b bs)
  have "a \<noteq> b \<Longrightarrow> (of_char a :: int) \<noteq> of_char b" by (metis of_char_eq_iff)
  then show ?case using 4 by (simp add: sgn_if)
qed simp_all

lemmas compare_defs = SCOREP_Hashtab_CompareStrings_def SCOREP_Hashtab_CompareInt32_def
  SCOREP_Hashtab_CompareInt64_def SCOREP_Hashtab_CompareUint32_def
  SCOREP_Hashtab_CompareUint64_def SCOREP_Hashtab_ComparePointer_def

interpretation string_keys: key_functions SCOREP_Hashtab_HashString SCOREP_Hashtab_CompareStrings
  by unfold_locales (simp_all add: compare_defs)

lemma sint_inject: "sint a = sint b \<Longrightarrow> a = (b :: 'a::len word)"
  by (rule signed_word_eqI)

interpretation int32_keys: key_functions SCOREP_Hashtab_HashInt32 SCOREP_Hashtab_CompareInt32
  by unfold_locales (auto simp: compare_defs split: if_splits dest: sint_inject)

interpretation uint32_keys: key_functions SCOREP_Hashtab_HashInt32 SCOREP_Hashtab_CompareUint32
  by unfold_locales (simp_all add: compare_defs)

interpretation int64_keys: key_functions SCOREP_Hashtab_HashInt64 SCOREP_Hashtab_CompareInt64
  by unfold_locales (auto simp: compare_defs split: if_splits dest: sint_inject)

interpretation uint64_keys: key_functions SCOREP_Hashtab_HashInt64 SCOREP_Hashtab_CompareUint64
  by unfold_locales (simp_all add: compare_defs)

interpretation pointer_keys: key_functions SCOREP_Hashtab_HashPointer SCOREP_Hashtab_ComparePointer
  by unfold_locales (simp_all add: compare_defs split: if_splits)

subsection \<open>Iteration\<close>

lemma next_loop_visits:
  assumes "length (table t) = tabsize t" and "i < tabsize t"
  shows "\<exists>it. next_loop t i = Inr it \<and>
    (it_item it = [] \<and> concat (drop (Suc i) (table t)) = [] \<or>
     i < it_index it \<and> it_index it < tabsize t \<and> it_item it \<noteq> [] \<and>
     concat (drop (Suc i) (table t)) = it_item it @ concat (drop (Suc (it_index it)) (table t)))"
  using assms
proof (induction t i rule: next_loop.induct)
  case (1 t i)
  show ?case
  proof (cases "Suc i = tabsize t")
    case True
    then show ?thesis using "1.prems" by (subst next_loop.simps) simp
  next
    case False
    then have less: "Suc i < length (table t)" using "1.prems" by simp
    have read: "read_table t (i + 1) = Inr (table t ! Suc i)" using less by (simp add: read_table_def)
    have split: "concat (drop (Suc i) (table t)) =
        table t ! Suc i @ concat (drop (Suc (Suc i)) (table t))"
      using less by (simp add: Cons_nth_drop_Suc [symmetric])
    show ?thesis
    proof (cases "table t ! Suc i = []")
      case True
      then have "next_loop t i = next_loop t (Suc i)"
        using False read by (subst next_loop.simps) simp
      moreover obtain it where "next_loop t (Suc i) = Inr it \<and>
        (it_item it = [] \<and> concat (drop (Suc (Suc i)) (table t)) = [] \<or>
         Suc i < it_index it \<and> it_index it < tabsize t \<and> it_item it \<noteq> [] \<and>
         concat (drop (Suc (Suc i)) (table t)) =
           it_item it @ concat (drop (Suc (it_index it)) (table t)))"
        using "1.IH" [of "table t ! Suc i"] False read True "1.prems" by auto
      ultimately show ?thesis using True split by (intro exI [of _ it]) auto
    next
      case no: False
      then have "next_loop t i = Inr \<lparr>it_index = Suc i, it_item = table t ! Suc i\<rparr>"
        using False read by (subst next_loop.simps) simp
      then show ?thesis using no split less "1.prems" by simp
    qed
  qed
qed

lemma foreach_loop_visits:
  assumes "length (table t) = tabsize t" and "it_index it < tabsize t"
  shows "foreach_loop procfunc t it s =
    Inr (if it_item it = [] then s
         else fold procfunc (it_item it @ concat (drop (Suc (it_index it)) (table t))) s)"
  using assms
proof (induction procfunc t it s rule: foreach_loop.induct)
  case (1 procfunc t it s)
  show ?case
  proof (cases "it_item it")
    case Nil
    then show ?thesis by (subst foreach_loop.simps) simp
  next
    case (Cons entry rest)
    show ?thesis
    proof (cases "rest = []")
      case False
      let ?it = "it\<lparr>it_item := rest\<rparr>"
      have step: "SCOREP_Hashtab_IteratorNext t it = Inr (current_entry rest, ?it)"
        using Cons False by (simp add: SCOREP_Hashtab_IteratorNext_def)
      show ?thesis
        using "1.IH" [OF Cons step refl] "1.prems" Cons False
        by (subst foreach_loop.simps) (simp add: step)
    next
      case True
      obtain it' where it': "next_loop t (it_index it) = Inr it'"
        "it_item it' = [] \<and> concat (drop (Suc (it_index it)) (table t)) = [] \<or>
         it_index it < it_index it' \<and> it_index it' < tabsize t \<and> it_item it' \<noteq> [] \<and>
         concat (drop (Suc (it_index it)) (table t)) =
           it_item it' @ concat (drop (Suc (it_index it')) (table t))"
        using next_loop_visits [OF "1.prems"] by blast
      have step: "SCOREP_Hashtab_IteratorNext t it = Inr (current_entry (it_item it'), it')"
        using Cons True it'(1) by (simp add: SCOREP_Hashtab_IteratorNext_def)
      then have loop: "foreach_loop procfunc t it s = foreach_loop procfunc t it' (procfunc entry s)"
        using Cons by (subst foreach_loop.simps) simp
      show ?thesis
      proof (cases "it_item it' = []")
        case True
        then have "foreach_loop procfunc t it' s' = Inr s'" for s'
          by (subst foreach_loop.simps) simp
        then show ?thesis
          using loop Cons \<open>rest = []\<close> True it'(2)
          by (simp del: concat_eq_Nil_conv)
      next
        case no: False
        then show ?thesis
          using "1.IH" [OF Cons step refl] "1.prems" loop Cons True it'(2) by simp
      qed
    qed
  qed
qed

lemma first_loop_visits:
  assumes "length (table t) = tabsize t" and "concat (drop i (table t)) \<noteq> []"
  shows "\<exists>j<tabsize t. first_loop t i = Inr j \<and> table t ! j \<noteq> [] \<and>
    concat (drop i (table t)) = table t ! j @ concat (drop (Suc j) (table t))"
  using assms
proof (induction t i rule: first_loop.induct)
  case (1 t i)
  then have i: "i < length (table t)" by (cases "i < length (table t)") simp_all
  then have split: "concat (drop i (table t)) = table t ! i @ concat (drop (Suc i) (table t))"
    by (simp add: Cons_nth_drop_Suc [symmetric])
  have read: "read_table t i = Inr (table t ! i)" using i by (simp add: read_table_def)
  show ?case
  proof (cases "table t ! i = []")
    case True
    then have "first_loop t i = first_loop t (Suc i)"
      using read i "1.prems" by (subst first_loop.simps) simp
    then show ?thesis
      using "1.IH" [OF read] True split i "1.prems" by simp
  next
    case False
    then show ?thesis using read split i "1.prems" by (subst first_loop.simps) auto
  qed
qed

lemma first_loop_falls_off:
  assumes "length (table t) = tabsize t" and "concat (drop i (table t)) = []" and "i \<le> tabsize t"
  shows "first_loop t i = Inl Bad_Access"
  using assms
proof (induction t i rule: first_loop.induct)
  case (1 t i)
  show ?case
  proof (cases "i = tabsize t")
    case True
    then show ?thesis using "1.prems" by (subst first_loop.simps) (simp add: read_table_def)
  next
    case False
    then have i: "i < length (table t)" using "1.prems" by simp
    then have "concat (drop i (table t)) = table t ! i @ concat (drop (Suc i) (table t))"
      by (simp add: Cons_nth_drop_Suc [symmetric])
    then show ?thesis
      using "1.IH" i "1.prems" by (subst first_loop.simps) (simp add: read_table_def)
  qed
qed

text \<open>The size field counts insertions; while it is the number of items, iteration is safe.\<close>

lemma Foreach_all_items:
  assumes "length (table t) = tabsize t" and "hashtab_size t = 0 \<longleftrightarrow> all_items t = []"
  shows "SCOREP_Hashtab_Foreach True t procfunc s = Inr (fold procfunc (all_items t) s)"
proof (cases "all_items t = []")
  case True
  then show ?thesis
    using assms(2) by (simp add: SCOREP_Hashtab_Foreach_def SCOREP_Hashtab_IteratorCreate_def
        SCOREP_Hashtab_IteratorFirst_def)
next
  case False
  then obtain j where j: "j < tabsize t" "first_loop t 0 = Inr j" "table t ! j \<noteq> []"
    "all_items t = table t ! j @ concat (drop (Suc j) (table t))"
    using first_loop_visits [OF assms(1), of 0] by (auto simp: all_items_def)
  have "foreach_loop procfunc t \<lparr>it_index = j, it_item = table t ! j\<rparr> s =
      Inr (fold procfunc (all_items t) s)"
    using foreach_loop_visits [OF assms(1), of "\<lparr>it_index = j, it_item = table t ! j\<rparr>"] j by simp
  moreover obtain e es where "table t ! j = e # es" using j(3) by (cases "table t ! j") auto
  ultimately show ?thesis
    using False assms j(1,2) by (simp add: SCOREP_Hashtab_Foreach_def
        SCOREP_Hashtab_IteratorCreate_def SCOREP_Hashtab_IteratorFirst_def read_table_def
        current_entry_def)
qed

lemma free_tables_all:
  "length (table t) = tabsize t \<Longrightarrow> i \<le> tabsize t \<Longrightarrow>
   free_tables t i = Inr (concat (drop i (table t)))"
proof (induction "tabsize t - i" arbitrary: i)
  case 0
  then show ?case by (subst free_tables.simps) simp
next
  case (Suc n)
  then have i: "i < length (table t)" by simp
  then have "concat (drop i (table t)) = table t ! i @ concat (drop (Suc i) (table t))"
    by (simp add: Cons_nth_drop_Suc [symmetric])
  then show ?case
    using Suc(1) [of "Suc i"] Suc(2-) i by (subst free_tables.simps) simp
qed

subsection \<open>Properties\<close>

text \<open>
  C10: a hash table keyed by strings with the library's functions holds a stack of values for
  every key. \<^verbatim>\<open>Find\<close> returns the newest value stored for the key and its hash value;
  \<^verbatim>\<open>Insert\<close> pushes one value for its key, and \<^verbatim>\<open>Remove\<close> takes the newest one away, both
  whether the hash value is handed in or not and without changing what is stored for any other
  key; the invariant that items sit in the chain of their hash value is kept. None of them
  accesses memory outside the table.
\<close>

theorem hashtab_string_stacks:
  assumes "hashtab_wf t" and "hash_func t = SCOREP_Hashtab_HashString"
    and "kcmp_func t = SCOREP_Hashtab_CompareStrings"
    and "hv = None \<or> hv = Some (SCOREP_Hashtab_HashString key)"
  shows "(\<exists>entry. SCOREP_Hashtab_Find t key = Inr (entry, SCOREP_Hashtab_HashString key) \<and>
      map_option item_value entry = (case values_of t key of [] \<Rightarrow> None | v # _ \<Rightarrow> Some v)) \<and>
    (\<exists>entry t'. SCOREP_Hashtab_Insert True t key v hv = Inr (Some entry, t') \<and> hashtab_wf t' \<and>
      (\<forall>k. values_of t' k = (if k = key then v # values_of t k else values_of t k))) \<and>
    (\<exists>removed t'. SCOREP_Hashtab_Remove t key hv = Inr (removed, t') \<and> hashtab_wf t' \<and>
      map_option item_value removed = (case values_of t key of [] \<Rightarrow> None | v # _ \<Rightarrow> Some v) \<and>
      (\<forall>k. values_of t' k = (if k = key then tl (values_of t k) else values_of t k)))"
proof (intro conjI)
  have uses: "string_keys.uses t" using assms(2,3) by (simp add: string_keys.uses_def)
  show "\<exists>entry. SCOREP_Hashtab_Find t key = Inr (entry, SCOREP_Hashtab_HashString key) \<and>
      map_option item_value entry = (case values_of t key of [] \<Rightarrow> None | v # _ \<Rightarrow> Some v)"
    by (rule string_keys.Find_values [OF assms(1) uses])
  show "\<exists>entry t'. SCOREP_Hashtab_Insert True t key v hv = Inr (Some entry, t') \<and> hashtab_wf t' \<and>
      (\<forall>k. values_of t' k = (if k = key then v # values_of t k else values_of t k))"
    using string_keys.Insert_values [OF assms(1) uses assms(4), of v]
    by (auto simp: SCOREP_Hashtab_CompareStrings_def)
  show "\<exists>removed t'. SCOREP_Hashtab_Remove t key hv = Inr (removed, t') \<and> hashtab_wf t' \<and>
      map_option item_value removed = (case values_of t key of [] \<Rightarrow> None | v # _ \<Rightarrow> Some v) \<and>
      (\<forall>k. values_of t' k = (if k = key then tl (values_of t k) else values_of t k))"
    using string_keys.Remove_values [OF assms(1) uses assms(4)]
    by (auto simp: SCOREP_Hashtab_CompareStrings_def)
qed

definition empty_string_table :: "(string, nat) hashtab" where
  "empty_string_table = \<lparr>table = [[], [], []], tabsize = 3, hashtab_size = 0,
     hash_func = SCOREP_Hashtab_HashString, kcmp_func = SCOREP_Hashtab_CompareStrings\<rparr>"

lemma hashtab_string_stacks_witness:
  "\<exists>entry t'. SCOREP_Hashtab_Insert True empty_string_table ''main'' 7 None = Inr (Some entry, t') \<and>
     values_of t' ''main'' = [7] \<and> values_of t' ''exit'' = []"
proof -
  have wf: "hashtab_wf empty_string_table" unfolding hashtab_wf_iff
    by (auto simp: empty_string_table_def less_Suc_eq numeral_3_eq_3)
  have none: "values_of empty_string_table k = []" for k
    by (simp add: values_of_def all_items_def empty_string_table_def)
  have funs: "hash_func empty_string_table = SCOREP_Hashtab_HashString"
    "kcmp_func empty_string_table = SCOREP_Hashtab_CompareStrings"
    by (simp_all add: empty_string_table_def)
  show ?thesis
    using hashtab_string_stacks [OF wf funs disjI1 [OF refl], of "''main''" 7]
    by (auto simp: none)
qed

text \<open>
  C35: iteration and release visit every item exactly once, chain by chain: as long as the size
  field is zero only for a table without items, \<^verbatim>\<open>Foreach\<close> applies its function to all items
  in that order, and \<^verbatim>\<open>FreeAll\<close> deletes the key and the value of each of them and releases
  each of them, and nothing else.
\<close>

theorem hashtab_foreach_all:
  assumes "hashtab_wf t" and "hashtab_size t = 0 \<longleftrightarrow> all_items t = []"
  shows "SCOREP_Hashtab_Foreach True t procfunc s = Inr (fold procfunc (all_items t) s) \<and>
    SCOREP_Hashtab_FreeAll True t deleteKey deleteValue s' =
      Inr (fold (\<lambda>it s. deleteValue (item_value it) (deleteKey (item_key it) s)) (all_items t) s',
           all_items t)"
  using free_tables_all [OF hashtab_wfD(2) [OF assms(1)], of 0]
  by (simp add: Foreach_all_items [OF hashtab_wfD(2) [OF assms(1)] assms(2)]
      SCOREP_Hashtab_FreeAll_def SCOREP_Hashtab_Free_def) (simp add: all_items_def)

definition two_entry_table :: "(u64, nat) hashtab" where
  "two_entry_table = \<lparr>table = [[\<lparr>item_key = 8, item_value = 42, hash_value = 8\<rparr>],
       [\<lparr>item_key = 3, item_value = 7, hash_value = 3\<rparr>]],
     tabsize = 2, hashtab_size = 2, hash_func = (\<lambda>k. k), kcmp_func = SCOREP_Hashtab_CompareUint64\<rparr>"

lemma hashtab_foreach_all_witness:
  "SCOREP_Hashtab_Foreach True two_entry_table (\<lambda>it n. n + item_value it) 0 = Inr 49"
proof -
  have wf: "hashtab_wf two_entry_table" unfolding hashtab_wf_iff
    by (auto simp: two_entry_table_def less_2_cases_iff chain_index_def)
  have "hashtab_size two_entry_table = 0 \<longleftrightarrow> all_items two_entry_table = []"
    by (simp add: two_entry_table_def all_items_def)
  from hashtab_foreach_all [OF wf this, of "\<lambda>it n. n + item_value it" 0, THEN conjunct1] show ?thesis
    by (simp add: two_entry_table_def all_items_def)
qed

lemma first_loop_empty:
  assumes "length (table t) = tabsize t" and "all_items t = []"
  shows "first_loop t 0 = Inl Bad_Access"
  using first_loop_falls_off [OF assms(1), of 0] assms(2) by (simp add: all_items_def)

lemma Foreach_no_items:
  assumes "length (table t) = tabsize t" and "all_items t = []" and "hashtab_size t \<noteq> 0"
  shows "SCOREP_Hashtab_Foreach True t procfunc s = Inl Bad_Access"
  using first_loop_empty [OF assms(1,2)] assms(3)
  by (simp add: SCOREP_Hashtab_Foreach_def SCOREP_Hashtab_IteratorCreate_def
      SCOREP_Hashtab_IteratorFirst_def)

text \<open>
  C36: \<^verbatim>\<open>Remove\<close> does not count the item it takes away. After one insertion into an empty table
  and the removal of that key, the table has no item but still reports the size 1, and both
  \<^verbatim>\<open>Foreach\<close> and \<^verbatim>\<open>FreeAll\<close> read behind the end of the table.
\<close>

theorem hashtab_iterate_after_remove:
  "\<exists>e r t1 t2. SCOREP_Hashtab_Insert True empty_string_table key v None = Inr (e, t1) \<and>
     SCOREP_Hashtab_Remove t1 key None = Inr (r, t2) \<and> all_items t2 = [] \<and>
     SCOREP_Hashtab_Size t2 = 1 \<and> SCOREP_Hashtab_Foreach True t2 procfunc s = Inl Bad_Access \<and>
     SCOREP_Hashtab_FreeAll True t2 deleteKey deleteValue s' = Inl Bad_Access"
proof -
  let ?h = "SCOREP_Hashtab_HashString key"
  let ?i = "unat ?h mod 3"
  let ?item = "\<lparr>item_key = key, item_value = v, hash_value = ?h\<rparr>"
  let ?t1 = "empty_string_table\<lparr>table := [[], [], []][?i := [?item]], hashtab_size := 1\<rparr>"
  let ?t2 = "empty_string_table\<lparr>table := [[], [], []], hashtab_size := 1\<rparr>"
  have i: "?i = 0 \<or> ?i = 1 \<or> ?i = 2" by linarith
  have insert: "SCOREP_Hashtab_Insert True empty_string_table key v None = Inr (Some ?item, ?t1)"
    using i by (auto simp: SCOREP_Hashtab_Insert_def hash_or_def chain_index_def read_table_def
        empty_string_table_def Let_def size_wrap_def numeral_2_eq_2)
  have remove: "SCOREP_Hashtab_Remove ?t1 key None = Inr (Some ?item, ?t2)"
    using i by (auto simp: SCOREP_Hashtab_Remove_def hash_or_def chain_index_def read_table_def
        empty_string_table_def Let_def item_matches_def SCOREP_Hashtab_CompareStrings_def
        numeral_2_eq_2)
  have none: "all_items ?t2 = []" by (simp add: all_items_def)
  have t2: "length (table ?t2) = tabsize ?t2" "hashtab_size ?t2 \<noteq> 0"
    by (simp_all add: empty_string_table_def)
  note broken = Foreach_no_items [OF t2(1) none t2(2)]
  show ?thesis
    by (intro exI conjI, rule insert, rule remove, rule none, simp add: SCOREP_Hashtab_Size_def,
        rule broken, simp only: SCOREP_Hashtab_FreeAll_def broken and_then_simps)
qed

end
