(* ===== verification/Selective.thy ===== *)
theory Selective
  imports Vector
begin

section \<open>Selective recording of user regions\<close>

text \<open>
  The model of \<^verbatim>\<open>src/adapters/user/scorep_selective_parser.c\<close>, which reads the configuration file
  of selective recording into a vector of regions, each with a vector of instance intervals, and
  of \<^verbatim>\<open>src/adapters/user/scorep_selective_region.c\<close>, the state machine that switches recording on
  and off when an instance of a region is entered and left.

  Intervals and regions are objects of a heap: two maps from addresses, filled by a \<^verbatim>\<open>malloc\<close>
  that hands out new addresses and fails when the parameter \<open>alloc\<close> refuses the size. \<^verbatim>\<open>strcmp\<close> is a
  parameter. The pointer \<open>value\<close> that the
  binary searches hand to the comparison functions is dereferenced before the call: the model's
  comparison functions take the value itself; they return 0 for an address that is no object,
  which the invariant excludes. The input file is the list of the results of
  \<^verbatim>\<open>UTILS_IO_GetLine\<close>. A number outside the range of \<^verbatim>\<open>int\<close> is undefined behaviour of \<^verbatim>\<open>sscanf\<close>.
\<close>

subsection \<open>The objects\<close>

record interval =
  iv_first :: u64
  iv_last :: u64

record selected_region =
  region_name :: string
  intervals :: vec

record sel_state =
  interval_heap :: "addr \<Rightarrow> interval option"
  region_heap :: "addr \<Rightarrow> selected_region option"
  next_addr :: addr
  selected_regions :: vec

definition load_heap :: "(addr \<Rightarrow> 'a option) \<Rightarrow> addr \<Rightarrow> 'a outcome" where
  "load_heap h a = (case h a of None \<Rightarrow> Inl Bad_Access | Some x \<Rightarrow> Inr x)"

subsection \<open>The comparison functions\<close>

text \<open>Both return \<^verbatim>\<open>int8_t\<close>: the difference is truncated to eight bits.\<close>

definition to_int8 :: "int \<Rightarrow> int" where
  "to_int8 i = sint (word_of_int i :: 8 word)"

definition compare_intervals :: "(addr \<Rightarrow> interval option) \<Rightarrow> u64 \<Rightarrow> addr \<Rightarrow> int" where
  "compare_intervals h val item =
     (case h item of None \<Rightarrow> 0 | Some iv \<Rightarrow> to_int8 (uint (val - iv_first iv)))"

definition compare_regions ::
  "(string \<Rightarrow> string \<Rightarrow> int) \<Rightarrow> (addr \<Rightarrow> selected_region option) \<Rightarrow> string \<Rightarrow> addr \<Rightarrow> int" where
  "compare_regions strcmp h val item =
     (case h item of None \<Rightarrow> 0 | Some r \<Rightarrow> to_int8 (strcmp val (region_name r)))"

subsection \<open>Building the list of regions\<close>

definition init_region_list :: "(nat \<Rightarrow> bool) \<Rightarrow> vec option" where
  "init_region_list alloc = SCOREP_Vector_CreateSize alloc 4"

text \<open>The result of the allocation is not checked, and that of the insertion is not looked at.\<close>

definition add_interval ::
  "(nat \<Rightarrow> bool) \<Rightarrow> addr \<Rightarrow> u64 \<Rightarrow> u64 \<Rightarrow> sel_state \<Rightarrow> sel_state outcome" where
  "add_interval alloc region fst_no lst_no s =
     (if \<not> alloc 16 then Inl Bad_Access
      else
        let a = next_addr s;
            s1 = s\<lparr>interval_heap := (interval_heap s)(a \<mapsto> \<lparr>iv_first = fst_no, iv_last = lst_no\<rparr>),
                   next_addr := a + 1\<rparr>
        in and_then (load_heap (region_heap s1) region) (\<lambda>r.
           and_then (SCOREP_Vector_LowerBound (intervals r) 0
                       (\<lambda>_. compare_intervals (interval_heap s1) fst_no)) (\<lambda>(found, pos).
           and_then (SCOREP_Vector_Insert alloc (intervals r) pos a) (\<lambda>(ok, v).
           Inr (s1\<lparr>region_heap := (region_heap s1)(region \<mapsto> r\<lparr>intervals := v\<rparr>)\<rparr>)))))"

text \<open>\<open>Inr (False, s)\<close> is \<^verbatim>\<open>SCOREP_ERROR_MEM_ALLOC_FAILED\<close>. \<open>cstr\<close> is the length of the string plus 1.\<close>

definition insert_new_region ::
  "(nat \<Rightarrow> bool) \<Rightarrow> string \<Rightarrow> int \<Rightarrow> int \<Rightarrow> nat \<Rightarrow> sel_state \<Rightarrow> (bool \<times> sel_state) outcome" where
  "insert_new_region alloc region fst_no lst_no index s =
     (if \<not> alloc 16 then Inr (False, s)
      else
        let a = next_addr s; cstr = length region + 1
        in if \<not> alloc cstr then Inr (False, s)
           else case SCOREP_Vector_CreateSize alloc 1 of
                  None \<Rightarrow> Inr (False, s)
                | Some ivs \<Rightarrow>
                    and_then (SCOREP_Vector_Insert alloc (selected_regions s) index a) (\<lambda>(ok, v).
                    and_then (add_interval alloc a (word_of_int fst_no) (word_of_int lst_no)
                       (s\<lparr>region_heap := (region_heap s)
                            (a \<mapsto> \<lparr>region_name = region, intervals = ivs\<rparr>),
                          next_addr := a + 1, selected_regions := v\<rparr>)) (\<lambda>s'.
                    Inr (True, s'))))"

definition add ::
  "(nat \<Rightarrow> bool) \<Rightarrow> (string \<Rightarrow> string \<Rightarrow> int) \<Rightarrow> string \<Rightarrow> int \<Rightarrow> int \<Rightarrow> sel_state
     \<Rightarrow> sel_state outcome" where
  "add alloc strcmp name fst_no lst_no s =
     and_then (SCOREP_Vector_Find (selected_regions s) 0
                 (\<lambda>_. compare_regions strcmp (region_heap s) name)) (\<lambda>found.
     case found of
       Some index \<Rightarrow>
         and_then (SCOREP_Vector_At (selected_regions s) index) (\<lambda>region.
         add_interval alloc region (word_of_int fst_no) (word_of_int lst_no) s)
     | None \<Rightarrow>
         and_then (SCOREP_Vector_UpperBound (selected_regions s) 0
                     (\<lambda>_. compare_regions strcmp (region_heap s) name)) (\<lambda>(found, index).
         and_then (insert_new_region alloc name fst_no lst_no
                     (if found then index else SCOREP_Vector_Size (selected_regions s)) s)
           (\<lambda>(ok, s'). Inr s')))"

definition scorep_selective_get_region ::
  "(string \<Rightarrow> string \<Rightarrow> int) \<Rightarrow> string \<Rightarrow> sel_state \<Rightarrow> addr option outcome" where
  "scorep_selective_get_region strcmp name s =
     and_then (SCOREP_Vector_Find (selected_regions s) 0
                 (\<lambda>_. compare_regions strcmp (region_heap s) name)) (\<lambda>found.
     case found of
       None \<Rightarrow> Inr None
     | Some index \<Rightarrow>
         and_then (SCOREP_Vector_At (selected_regions s) index) (\<lambda>p. Inr (Some p)))"

subsection \<open>The parser\<close>

text \<open>\<^verbatim>\<open>strtok\<close>: the next token of a buffer, and what is left behind its delimiter.\<close>

definition strtok :: "char list \<Rightarrow> string \<Rightarrow> (string \<times> string) option" where
  "strtok delims buf =
     (let b = dropWhile (\<lambda>c. c \<in> set delims) buf
      in if b = [] then None
         else Some (takeWhile (\<lambda>c. c \<notin> set delims) b, tl (dropWhile (\<lambda>c. c \<notin> set delims) b)))"

lemma strtok_shorter: "strtok delims buf = Some (tok, rest) \<Longrightarrow> length rest < length buf"
proof -
  assume tok: "strtok delims buf = Some (tok, rest)"
  define b where "b = dropWhile (\<lambda>c. c \<in> set delims) buf"
  have b: "b \<noteq> []" "rest = tl (dropWhile (\<lambda>c. c \<notin> set delims) b)"
    using tok unfolding strtok_def b_def [symmetric] by (simp_all add: Let_def split: if_splits)
  have "length b \<le> length buf" unfolding b_def by (rule length_dropWhile_le)
  moreover have "length (dropWhile (\<lambda>c. c \<notin> set delims) b) \<le> length b"
    by (rule length_dropWhile_le)
  moreover have "0 < length b" using b(1) by simp
  ultimately show ?thesis unfolding b(2) length_tl by linarith
qed

definition blanks :: "char list" where
  "blanks = [CHR '' '', CHR 0x09, CHR 0x0A]"

definition is_digit :: "char \<Rightarrow> bool" where
  "is_digit c \<longleftrightarrow> 48 \<le> (of_char c :: nat) \<and> (of_char c :: nat) \<le> 57"

definition decimal :: "string \<Rightarrow> int" where
  "decimal ds = foldl (\<lambda>n c. n * 10 + (int (of_char c) - 48)) 0 ds"

text \<open>\<^verbatim>\<open>sscanf( s, "%d", &x )\<close> on digits: no digits leave \<open>x\<close> alone.\<close>

definition sscanf_d :: "string \<Rightarrow> int \<Rightarrow> int outcome" where
  "sscanf_d s x =
     (let ds = takeWhile is_digit s
      in if ds = [] then Inr x
         else if decimal ds < 2 ^ 31 then Inr (decimal ds) else Inl Bad_Access)"

definition parse_interval :: "string \<Rightarrow> (int \<times> int) outcome" where
  "parse_interval interval =
     (let pos = length (takeWhile (\<lambda>c. c \<noteq> CHR '':'') interval)
      in if pos \<ge> length interval
         then and_then (sscanf_d interval 0) (\<lambda>start. Inr (start, start))
         else and_then (sscanf_d (take pos interval) 0) (\<lambda>start.
              and_then (sscanf_d (drop (pos + 1) interval) (- 1)) (\<lambda>lst. Inr (start, lst))))"

function parse_intervals ::
  "(nat \<Rightarrow> bool) \<Rightarrow> (string \<Rightarrow> string \<Rightarrow> int) \<Rightarrow> string \<Rightarrow> (string \<times> string) option \<Rightarrow> sel_state
     \<Rightarrow> sel_state outcome" where
  "parse_intervals alloc strcmp region None s = Inr s"
| "parse_intervals alloc strcmp region (Some (interval, buf)) s =
     and_then
       (if list_all (\<lambda>c. is_digit c \<or> c = CHR '':'') interval
        then and_then (parse_interval interval) (\<lambda>(start, lst).
             add alloc strcmp region start lst s)
        else Inr s)
       (parse_intervals alloc strcmp region (strtok (blanks @ '','') buf))"
  by pat_completeness auto
termination
  by (relation "measure (\<lambda>(alloc, strcmp, region, tok, s).
        case tok of None \<Rightarrow> 0 | Some (i, buf) \<Rightarrow> length buf + 1)")
    (auto split: option.splits dest: strtok_shorter)

definition parse_line ::
  "(nat \<Rightarrow> bool) \<Rightarrow> (string \<Rightarrow> string \<Rightarrow> int) \<Rightarrow> string \<Rightarrow> sel_state \<Rightarrow> sel_state outcome" where
  "parse_line alloc strcmp buf s =
     (case strtok blanks buf of
        None \<Rightarrow> Inr s
      | Some (region, rest) \<Rightarrow>
          (case strtok (blanks @ '','') rest of
             None \<Rightarrow> add alloc strcmp region 0 (- 1) s
           | Some tok \<Rightarrow> parse_intervals alloc strcmp region (Some tok) s))"

text \<open>The result of reading a line: \<^verbatim>\<open>SCOREP_SUCCESS\<close>, the end of the file, or another error.\<close>

datatype getline = Line string | Last_Line string | Read_Error

primrec parse_file ::
  "(nat \<Rightarrow> bool) \<Rightarrow> (string \<Rightarrow> string \<Rightarrow> int) \<Rightarrow> getline list \<Rightarrow> sel_state
     \<Rightarrow> (bool \<times> sel_state) outcome" where
  "parse_file alloc strcmp [] s = Inr (True, s)"
| "parse_file alloc strcmp (g # gs) s =
     (case g of
        Read_Error \<Rightarrow> Inr (False, s)
      | Line buf \<Rightarrow> and_then (parse_line alloc strcmp buf s) (parse_file alloc strcmp gs)
      | Last_Line buf \<Rightarrow> and_then (parse_line alloc strcmp buf s) (\<lambda>s'. Inr (True, s')))"

text \<open>
  The initialisation: \<open>file\<close> is what opening and reading the configured file gives, \<^const>\<open>None\<close>
  when none is configured or it cannot be opened. The second component of the result tells
  whether recording is off by default from now on.
\<close>

definition scorep_selective_init ::
  "(nat \<Rightarrow> bool) \<Rightarrow> (string \<Rightarrow> string \<Rightarrow> int) \<Rightarrow> getline list option
     \<Rightarrow> (sel_state \<times> bool) option outcome" where
  "scorep_selective_init alloc strcmp file =
     (case init_region_list alloc of
        None \<Rightarrow> Inr None
      | Some v \<Rightarrow>
          (let s = \<lparr>interval_heap = (\<lambda>_. None), region_heap = (\<lambda>_. None), next_addr = 4096,
                    selected_regions = v\<rparr>
           in case file of
                None \<Rightarrow> Inr (Some (s, False))
              | Some gs \<Rightarrow>
                  and_then (parse_file alloc strcmp gs s) (\<lambda>(ok, s'). Inr (Some (s', ok)))))"

subsection \<open>The state machine of a user region\<close>

text \<open>
  \<open>ivs\<close> is the sequence of intervals that the vector of the selected region holds (the vector is not
  changed any more once the measurement runs, and \<open>vec_rep\<close> gives its reads). The pointer
  \<open>selection\<close> is whether there is one; the pair \<open>rec\<close> is \<^verbatim>\<open>recording_enabled\<close> with whether the
  process is in a parallel region, where switching is refused.
\<close>

record user_region =
  selection :: bool
  current_interval_index :: nat
  current_interval :: "u64 \<times> u64"
  enters :: u64
  exits :: u64
  has_enabled :: bool

record recording =
  recording_enabled :: bool
  in_parallel :: bool

definition SCOREP_EnableRecording :: "recording \<Rightarrow> recording" where
  "SCOREP_EnableRecording rc = (if \<not> in_parallel rc then rc\<lparr>recording_enabled := True\<rparr> else rc)"

definition SCOREP_DisableRecording :: "recording \<Rightarrow> recording" where
  "SCOREP_DisableRecording rc = (if \<not> in_parallel rc then rc\<lparr>recording_enabled := False\<rparr> else rc)"

definition SCOREP_RecordingEnabled :: "recording \<Rightarrow> bool" where
  "SCOREP_RecordingEnabled rc = recording_enabled rc"

definition interval_at :: "(u64 \<times> u64) list \<Rightarrow> nat \<Rightarrow> (u64 \<times> u64) outcome" where
  "interval_at ivs i = assert_that (i < length ivs) (Inr (ivs ! i))"

text \<open>\<open>sel\<close> is what \<^verbatim>\<open>scorep_selective_get_region\<close> found, as the list of its intervals.\<close>

definition scorep_user_create_region :: "(u64 \<times> u64) list option \<Rightarrow> user_region outcome" where
  "scorep_user_create_region sel =
     (let r = \<lparr>selection = (sel \<noteq> None), current_interval_index = 0, current_interval = (0, 0),
               enters = 0, exits = 0, has_enabled = False\<rparr>
      in case sel of
           None \<Rightarrow> Inr r
         | Some ivs \<Rightarrow> and_then (interval_at ivs 0) (\<lambda>iv. Inr (r\<lparr>current_interval := iv\<rparr>)))"

definition scorep_selective_check_enter ::
  "user_region \<times> recording \<Rightarrow> bool \<times> user_region \<times> recording" where
  "scorep_selective_check_enter = (\<lambda>(r, rc).
     if \<not> selection r then (SCOREP_RecordingEnabled rc, r, rc)
     else if has_enabled r
     then (True, r\<lparr>enters := enters r + 1, exits := exits r + 1\<rparr>, rc)
     else if SCOREP_RecordingEnabled rc then (True, r\<lparr>enters := enters r + 1\<rparr>, rc)
     else if enters r \<ge> fst (current_interval r) \<and> enters r \<le> snd (current_interval r)
     then (let rc' = SCOREP_EnableRecording rc
           in if SCOREP_RecordingEnabled rc'
              then (True, r\<lparr>enters := enters r + 1, exits := 1, has_enabled := True\<rparr>, rc')
              else (False, r, rc'))
     else (False, r\<lparr>enters := enters r + 1\<rparr>, rc))"

text \<open>The search for the next interval that is not over yet; it ends at the last index.\<close>

function next_interval :: "(u64 \<times> u64) list \<Rightarrow> user_region \<Rightarrow> user_region outcome" where
  "next_interval ivs r =
     (if snd (current_interval r) < enters r
      then if current_interval_index r < length ivs - 1
           then let i = current_interval_index r + 1
                in and_then (interval_at ivs i) (\<lambda>iv.
                   next_interval ivs (r\<lparr>current_interval_index := i, current_interval := iv\<rparr>))
           else Inr (r\<lparr>selection := False\<rparr>)
      else Inr r)"
  by pat_completeness auto
termination
  by (relation "measure (\<lambda>(ivs, r). length ivs - current_interval_index r)") auto

declare next_interval.simps [simp del]

definition scorep_selective_check_exit ::
  "(u64 \<times> u64) list \<Rightarrow> user_region \<times> recording \<Rightarrow> (bool \<times> user_region \<times> recording) outcome" where
  "scorep_selective_check_exit ivs = (\<lambda>(r, rc).
     if has_enabled r
     then let r1 = r\<lparr>exits := exits r - 1\<rparr>
          in if exits r1 \<le> 0
             then and_then (next_interval ivs (r1\<lparr>has_enabled := False\<rparr>)) (\<lambda>r2.
                  Inr (True, r2, SCOREP_DisableRecording rc))
             else Inr (True, r1, rc)
     else Inr (SCOREP_RecordingEnabled rc, r, rc))"

subsection \<open>A run of the program, and what shall be recorded\<close>

text \<open>The instances of one region in a run: each may contain further instances.\<close>

datatype instances = No_Instance | Instance (nested: instances) (following: instances)

fun run_instances ::
  "(u64 \<times> u64) list \<Rightarrow> instances \<Rightarrow> user_region \<times> recording
     \<Rightarrow> (bool list \<times> user_region \<times> recording) outcome" where
  "run_instances ivs No_Instance st = Inr ([], st)"
| "run_instances ivs (Instance ns fs) st =
     (let (rec_in, st1) = scorep_selective_check_enter st
      in and_then (run_instances ivs ns st1) (\<lambda>(inner, st2).
         and_then (scorep_selective_check_exit ivs st2) (\<lambda>(rec_out, st3).
         and_then (run_instances ivs fs st3) (\<lambda>(rest, st4).
         Inr (rec_in # inner @ rest, st4)))))"

primrec count_instances :: "instances \<Rightarrow> nat" where
  "count_instances No_Instance = 0"
| "count_instances (Instance ns fs) = Suc (count_instances ns + count_instances fs)"

text \<open>Instance number \<open>n\<close> is to be recorded when it, or an instance around it, is selected.\<close>

fun selected_instances :: "(u64 \<times> u64) list \<Rightarrow> bool \<Rightarrow> nat \<Rightarrow> instances \<Rightarrow> bool list" where
  "selected_instances ivs around n No_Instance = []"
| "selected_instances ivs around n (Instance ns fs) =
     (let on = around \<or> (\<exists>(a, b)\<in>set ivs. unat a \<le> n \<and> n \<le> unat b)
      in on # selected_instances ivs on (Suc n) ns @
           selected_instances ivs around (Suc (n + count_instances ns)) fs)"

text \<open>Intervals in order: none empty, each starting behind the end of the one before.\<close>

definition intervals_ordered :: "(u64 \<times> u64) list \<Rightarrow> bool" where
  "intervals_ordered ivs \<longleftrightarrow>
     list_all (\<lambda>(a, b). a \<le> b) ivs \<and> sorted_wrt (\<lambda>(a, b) (c, d). b < c) ivs"

subsection \<open>The state machine records what is selected\<close>

definition waiting :: "(u64 \<times> u64) list \<Rightarrow> nat \<Rightarrow> user_region \<Rightarrow> bool" where
  "waiting ivs n r \<longleftrightarrow> \<not> has_enabled r \<and>
     (if selection r
      then enters r = of_nat n \<and> current_interval_index r < length ivs \<and>
           current_interval r = ivs ! current_interval_index r \<and>
           n \<le> unat (snd (ivs ! current_interval_index r)) \<and>
           (\<forall>j<current_interval_index r. unat (snd (ivs ! j)) < n)
      else \<forall>(a, b)\<in>set ivs. unat b < n)"

lemma selected_all: "selected_instances ivs True n t = replicate (count_instances t) True"
  by (induction t arbitrary: n) (simp_all add: replicate_add)

lemma run_enabled:
  assumes "has_enabled r" and "selection r" and "enters r = of_nat n" and "exits r = of_nat e"
    and "0 < e" and "e + count_instances t < 2 ^ 64"
  shows "run_instances ivs t (r, rc) =
    Inr (replicate (count_instances t) True, r\<lparr>enters := of_nat (n + count_instances t)\<rparr>, rc)"
  using assms
proof (induction t arbitrary: r n e)
  case No_Instance
  then show ?case by simp
next
  case (Instance ns fs)
  let ?r1 = "r\<lparr>enters := of_nat (Suc n), exits := of_nat (Suc e)\<rparr>"
  have enter: "scorep_selective_check_enter (r, rc) = (True, ?r1, rc)"
    using Instance.prems by (simp add: scorep_selective_check_enter_def add.commute)
  have inner: "run_instances ivs ns (?r1, rc) =
      Inr (replicate (count_instances ns) True,
           ?r1\<lparr>enters := of_nat (Suc n + count_instances ns)\<rparr>, rc)"
    by (rule Instance.IH(1) [where e = "Suc e"]) (use Instance.prems in simp_all)
  let ?r2 = "?r1\<lparr>enters := of_nat (Suc n + count_instances ns)\<rparr>"
  have "(of_nat e :: u64) \<noteq> 0"
    using Instance.prems by (simp add: word_of_nat_eq_0_iff nat_dvd_not_less)
  then have exit: "scorep_selective_check_exit ivs (?r2, rc) = Inr (True, ?r2\<lparr>exits := of_nat e\<rparr>, rc)"
    using Instance.prems by (simp add: scorep_selective_check_exit_def Let_def)
  have same: "r\<lparr>enters := x, exits := of_nat e\<rparr> = r\<lparr>enters := x\<rparr>" for x
    using Instance.prems(4) by (cases r) simp
  show ?case
    using Instance.IH(2) [of "r\<lparr>enters := of_nat (Suc n + count_instances ns)\<rparr>"
        "Suc n + count_instances ns" e] Instance.prems enter inner exit
    by (simp add: replicate_add add.assoc same)
qed

lemma next_interval_waiting:
  assumes "\<not> has_enabled r" and "selection r" and "enters r = of_nat n" and "n < 2 ^ 64"
    and "current_interval_index r < length ivs"
    and "current_interval r = ivs ! current_interval_index r"
    and "\<forall>j<current_interval_index r. unat (snd (ivs ! j)) < n"
  shows "\<exists>r'. next_interval ivs r = Inr r' \<and> waiting ivs n r'"
  using assms
proof (induction ivs r rule: next_interval.induct)
  case (1 ivs r)
  have n: "unat (enters r) = n" using "1.prems" by (simp add: unat_of_nat)
  show ?case
  proof (cases "snd (current_interval r) < enters r")
    case False
    then have "n \<le> unat (snd (current_interval r))"
      using n by (simp add: word_less_nat_alt)
    then show ?thesis
      using False "1.prems" by (subst next_interval.simps) (simp add: waiting_def)
  next
    case True
    then have over: "unat (snd (ivs ! current_interval_index r)) < n"
      using n "1.prems" by (simp add: word_less_nat_alt)
    then have before: "\<forall>j<Suc (current_interval_index r). unat (snd (ivs ! j)) < n"
      using "1.prems" less_Suc_eq by auto
    show ?thesis
    proof (cases "current_interval_index r < length ivs - 1")
      case more: True
      then have i: "Suc (current_interval_index r) < length ivs" by simp
      show ?thesis
        using "1.IH" [OF True more, of "Suc (current_interval_index r)"
            "ivs ! Suc (current_interval_index r)"] "1.prems" before i True more
        by (subst next_interval.simps) (simp add: interval_at_def)
    next
      case no_more: False
      then have "Suc (current_interval_index r) = length ivs" using "1.prems" by simp
      then have "\<forall>(a, b)\<in>set ivs. unat b < n"
        using before by (force simp: in_set_conv_nth)
      then show ?thesis
        using True no_more "1.prems" by (subst next_interval.simps) (simp add: waiting_def)
    qed
  qed
qed

text \<open>While the machine waits, the current interval alone decides.\<close>

lemma waiting_selected:
  assumes "waiting ivs n r" and "selection r" and "intervals_ordered ivs"
  shows "(\<exists>(a, b)\<in>set ivs. unat a \<le> n \<and> n \<le> unat b) \<longleftrightarrow> unat (fst (current_interval r)) \<le> n"
proof
  let ?i = "current_interval_index r"
  assume "\<exists>(a, b)\<in>set ivs. unat a \<le> n \<and> n \<le> unat b"
  then obtain j where j: "j < length ivs" "unat (fst (ivs ! j)) \<le> n" "n \<le> unat (snd (ivs ! j))"
    by (auto simp: in_set_conv_nth)
  have "?i \<le> j" using assms(1,2) j by (auto simp: waiting_def not_less[symmetric])
  moreover have "\<not> ?i < j"
  proof
    assume "?i < j"
    then have "snd (ivs ! ?i) < fst (ivs ! j)"
      using assms(3) j(1) by (simp add: intervals_ordered_def sorted_wrt_iff_nth_less case_prod_unfold)
    moreover have "n \<le> unat (snd (ivs ! ?i))" using assms(1,2) by (simp add: waiting_def)
    ultimately show False using j(2) by (simp add: word_less_nat_alt)
  qed
  ultimately have "j = ?i" by simp
  then show "unat (fst (current_interval r)) \<le> n" using j assms(1,2) by (simp add: waiting_def)
next
  assume "unat (fst (current_interval r)) \<le> n"
  then show "\<exists>(a, b)\<in>set ivs. unat a \<le> n \<and> n \<le> unat b"
    using assms(1,2) by (intro bexI [of _ "current_interval r"]) (auto simp: waiting_def)
qed

lemma waiting_unselected:
  "waiting ivs n r \<Longrightarrow> \<not> selection r \<Longrightarrow> \<not> (\<exists>(a, b)\<in>set ivs. unat a \<le> n \<and> n \<le> unat b)"
  by (auto simp: waiting_def)

lemma waiting_mono_off: "waiting ivs n r \<Longrightarrow> \<not> selection r \<Longrightarrow> n \<le> m \<Longrightarrow> waiting ivs m r"
  by (force simp: waiting_def)

lemma run_waiting:
  assumes "waiting ivs n r" and "intervals_ordered ivs" and "n + count_instances t < 2 ^ 64"
    and "\<not> recording_enabled rc" and "\<not> in_parallel rc"
  shows "\<exists>r'. run_instances ivs t (r, rc) = Inr (selected_instances ivs False n t, r', rc) \<and>
    waiting ivs (n + count_instances t) r'"
  using assms
proof (induction t arbitrary: n r)
  case No_Instance
  then show ?case by simp
next
  case (Instance ns fs)
  let ?sel = "\<exists>(a, b)\<in>set ivs. unat a \<le> n \<and> n \<le> unat b" and ?m = "Suc n + count_instances ns"
  have bounds: "?m < 2 ^ 64" "?m + count_instances fs < 2 ^ 64" using Instance.prems by simp_all
  have "\<exists>st1 st2 r3 inner on. scorep_selective_check_enter (r, rc) = (on, st1) \<and> on = ?sel \<and>
      run_instances ivs ns st1 = Inr (inner, st2) \<and> inner = selected_instances ivs on (Suc n) ns \<and>
      scorep_selective_check_exit ivs st2 = Inr (on, r3, rc) \<and> waiting ivs ?m r3"
  proof (cases "?sel")
    case True
    then have sel: "selection r" using waiting_unselected Instance.prems(1) by blast
    note w = Instance.prems(1) [unfolded waiting_def]
    have n: "unat (enters r) = n" using w sel bounds by (simp add: unat_of_nat)
    then have inside: "fst (current_interval r) \<le> enters r" "enters r \<le> snd (current_interval r)"
      using True waiting_selected [OF Instance.prems(1) sel Instance.prems(2)] w sel
      by (simp_all add: word_le_nat_alt)
    let ?r1 = "r\<lparr>enters := of_nat (Suc n), exits := 1, has_enabled := True\<rparr>"
    let ?rc1 = "rc\<lparr>recording_enabled := True\<rparr>"
    have enter: "scorep_selective_check_enter (r, rc) = (True, ?r1, ?rc1)"
      using Instance.prems(4,5) w sel inside
      by (simp add: scorep_selective_check_enter_def SCOREP_RecordingEnabled_def
          SCOREP_EnableRecording_def Let_def add.commute)
    have inner: "run_instances ivs ns (?r1, ?rc1) = Inr (replicate (count_instances ns) True,
        ?r1\<lparr>enters := of_nat ?m\<rparr>, ?rc1)"
      by (rule run_enabled [where e = 1]) (use sel bounds in simp_all)
    have "\<forall>j<current_interval_index r. unat (snd (ivs ! j)) < ?m"
      using w sel by (auto intro: less_trans)
    then obtain r3 where r3: "next_interval ivs (?r1\<lparr>enters := of_nat ?m, exits := 0,
          has_enabled := False\<rparr>) = Inr r3" "waiting ivs ?m r3"
      using next_interval_waiting [of "?r1\<lparr>enters := of_nat ?m, exits := 0, has_enabled := False\<rparr>"
          ?m ivs] w sel bounds by auto
    have off: "SCOREP_DisableRecording ?rc1 = rc"
      using Instance.prems(4,5) by (simp add: SCOREP_DisableRecording_def)
    have exit: "scorep_selective_check_exit ivs (?r1\<lparr>enters := of_nat ?m\<rparr>, ?rc1) = Inr (True, r3, rc)"
      using r3(1) off by (simp add: scorep_selective_check_exit_def Let_def)
    from enter inner exit r3(2) True show ?thesis
      by simp (rule exI [of _ True], simp add: selected_all)
  next
    case False
    have "\<exists>r1. scorep_selective_check_enter (r, rc) = (False, r1, rc) \<and> waiting ivs (Suc n) r1"
    proof (cases "selection r")
      case True
      note w = Instance.prems(1) [unfolded waiting_def]
      have n: "unat (enters r) = n" using w True bounds by (simp add: unat_of_nat)
      have less: "n < unat (fst (current_interval r))"
        using False waiting_selected [OF Instance.prems(1) True Instance.prems(2)] by simp
      have "fst (current_interval r) \<le> snd (current_interval r)"
        using w True Instance.prems(2)
        by (auto simp: intervals_ordered_def list_all_length case_prod_unfold)
      then have "waiting ivs (Suc n) (r\<lparr>enters := enters r + 1\<rparr>)"
        using w True less by (auto simp: waiting_def word_le_nat_alt less_Suc_eq)
      moreover have "scorep_selective_check_enter (r, rc) = (False, r\<lparr>enters := enters r + 1\<rparr>, rc)"
        using w True less n Instance.prems(4)
        by (simp add: scorep_selective_check_enter_def SCOREP_RecordingEnabled_def word_le_nat_alt)
      ultimately show ?thesis by blast
    next
      case no: False
      then show ?thesis
        using waiting_mono_off [OF Instance.prems(1) no, of "Suc n"] Instance.prems(4)
        by (simp add: scorep_selective_check_enter_def SCOREP_RecordingEnabled_def)
    qed
    then obtain r1 where r1: "scorep_selective_check_enter (r, rc) = (False, r1, rc)"
      "waiting ivs (Suc n) r1" by blast
    obtain r2 where r2: "run_instances ivs ns (r1, rc) =
        Inr (selected_instances ivs False (Suc n) ns, r2, rc)" "waiting ivs ?m r2"
      using Instance.IH(1) [OF r1(2) Instance.prems(2) _ Instance.prems(4,5)] bounds by auto
    have "scorep_selective_check_exit ivs (r2, rc) = Inr (False, r2, rc)"
      using r2(2) Instance.prems(4)
      by (simp add: scorep_selective_check_exit_def SCOREP_RecordingEnabled_def waiting_def)
    with r1 r2 False show ?thesis by simp (rule exI [of _ False], simp)
  qed
  then obtain st1 st2 r3 where r3: "scorep_selective_check_enter (r, rc) = (?sel, st1)"
    "run_instances ivs ns st1 = Inr (selected_instances ivs ?sel (Suc n) ns, st2)"
    "scorep_selective_check_exit ivs st2 = Inr (?sel, r3, rc)" "waiting ivs ?m r3" by blast
  obtain r4 where "run_instances ivs fs (r3, rc) = Inr (selected_instances ivs False ?m fs, r4, rc)"
    "waiting ivs (?m + count_instances fs) r4"
    using Instance.IH(2) [OF r3(4) Instance.prems(2) bounds(2) Instance.prems(4,5)] by blast
  then show ?case using r3 by (simp add: Let_def add.assoc)
qed

text \<open>
  C9: selective recording records what is selected. For a region whose intervals are in order, in
  a process that starts with recording switched off and runs no parallel region, an instance is
  recorded (its enter event reports so, the flag is on) exactly when its number lies in one of
  the intervals or an instance around it is recorded; after the run recording is off again.
  The instances are numbered in the order they are entered, and may be nested.
\<close>

theorem selective_records_selected:
  assumes "intervals_ordered ivs" and "ivs \<noteq> []" and "count_instances t < 2 ^ 64"
  shows "\<exists>r r'. scorep_user_create_region (Some ivs) = Inr r \<and>
    run_instances ivs t (r, \<lparr>recording_enabled = False, in_parallel = False\<rparr>) =
      Inr (selected_instances ivs False 0 t, r',
           \<lparr>recording_enabled = False, in_parallel = False\<rparr>)"
proof -
  let ?r = "\<lparr>selection = True, current_interval_index = 0, current_interval = ivs ! 0,
    enters = 0, exits = 0, has_enabled = False\<rparr>"
  have "scorep_user_create_region (Some ivs) = Inr ?r"
    using assms(2) by (simp add: scorep_user_create_region_def interval_at_def)
  moreover have "waiting ivs 0 ?r" using assms(2) by (simp add: waiting_def)
  from run_waiting [OF this assms(1), of t "\<lparr>recording_enabled = False, in_parallel = False\<rparr>"]
  have "\<exists>r'. run_instances ivs t (?r, \<lparr>recording_enabled = False, in_parallel = False\<rparr>) =
      Inr (selected_instances ivs False 0 t, r',
           \<lparr>recording_enabled = False, in_parallel = False\<rparr>)"
    using assms(3) by auto
  ultimately show ?thesis by blast
qed

lemma selective_records_selected_witness:
  "\<exists>r r'. scorep_user_create_region (Some [(1, 1), (3, 4)]) = Inr r \<and>
    run_instances [(1, 1), (3, 4)]
      (Instance No_Instance (Instance (Instance No_Instance No_Instance)
        (Instance No_Instance No_Instance)))
      (r, \<lparr>recording_enabled = False, in_parallel = False\<rparr>) =
      Inr ([False, True, True, True], r', \<lparr>recording_enabled = False, in_parallel = False\<rparr>)"
  using selective_records_selected [of "[(1, 1), (3, 4)]" "Instance No_Instance
      (Instance (Instance No_Instance No_Instance) (Instance No_Instance No_Instance))"]
  by (simp add: intervals_ordered_def)

subsection \<open>The order of the intervals\<close>

text \<open>
  \<open>intervals_of h xs\<close> are the intervals behind the pointers of a vector. The order the state machine
  relies on is kept as long as all first instances are below 128, where the truncated
  difference of \<^const>\<open>compare_intervals\<close> is the difference; beyond, it is not.
\<close>

definition first_of :: "(addr \<Rightarrow> interval option) \<Rightarrow> addr \<Rightarrow> u64" where
  "first_of h p = (case h p of None \<Rightarrow> 0 | Some iv \<Rightarrow> iv_first iv)"

lemma to_int8_diff:
  assumes "a < 128" and "b < (128 :: u64)"
  shows "to_int8 (uint (a - b)) = uint a - uint b"
proof -
  have ab: "uint a < 128" "uint b < 128" using assms by (simp_all add: word_less_def)
  have "to_int8 (uint (a - b)) = signed_take_bit 7 (take_bit 64 (uint a - uint b))"
    by (simp add: to_int8_def signed_of_int uint_word_ariths take_bit_eq_mod)
  also have "\<dots> = signed_take_bit 7 (uint a - uint b)"
    by (simp add: signed_take_bit_take_bit)
  also have "\<dots> = uint a - uint b"
  proof (rule signed_take_bit_int_eq_self)
    have p: "(2 :: int) ^ 7 = 128" by simp
    show "- (2 ^ 7) \<le> uint a - uint b" unfolding p using ab(2) uint_ge_0 [of a] by linarith
    show "uint a - uint b < 2 ^ 7" unfolding p using ab(1) uint_ge_0 [of b] by linarith
  qed
  finally show ?thesis .
qed

lemma compare_intervals_small:
  assumes "h p = Some iv" and "val < 128" and "iv_first iv < 128"
  shows "compare_intervals h val p = uint val - uint (first_of h p)"
  using assms by (simp add: compare_intervals_def first_of_def to_int8_diff)

lemma compare_intervals_less:
  assumes "h q \<noteq> None" and "first_of h q < 128" and "val < 128" and "first_of h a = val"
  shows "(0 < compare_intervals h val q) = (first_of h q < first_of h a)"
proof -
  obtain iv where iv: "h q = Some iv" using assms(1) by blast
  then have "iv_first iv < 128" using assms(2) by (simp add: first_of_def)
  from compare_intervals_small [of h q iv val, OF iv assms(3) this] assms(4) show ?thesis
    by (simp add: word_less_def)
qed

lemma sorted_for_compare_intervals:
  assumes "sorted (map (first_of h) xs)" and "\<forall>p\<in>set xs. h p \<noteq> None \<and> first_of h p < 128"
    and "val < 128"
  shows "sorted_for (\<lambda>_. compare_intervals h val) v xs"
  unfolding sorted_for_def
proof (rule sorted_wrt_mono_rel [OF _ assms(1) [unfolded sorted_map]])
  fix p q assume pq: "p \<in> set xs" "q \<in> set xs" "first_of h p \<le> first_of h q"
  have "compare_intervals h val x = uint val - uint (first_of h x)" if "x \<in> set xs" for x
    using assms(2,3) that by (auto simp: first_of_def compare_intervals_def to_int8_diff)
  then show "sgn (compare_intervals h val q) \<le> sgn (compare_intervals h val p)"
    using pq by (simp add: word_le_def sgn_if)
qed

lemma sorted_insert_at:
  assumes "sorted (map f xs)" and "n = length (takeWhile (\<lambda>p. f p < f a) xs)"
  shows "sorted (map f (take n xs @ a # drop n xs))"
proof -
  have t: "take n xs = takeWhile (\<lambda>p. f p < f a) xs" by (simp add: assms(2) takeWhile_eq_take [symmetric])
  have d: "drop n xs = dropWhile (\<lambda>p. f p < f a) xs" by (simp add: assms(2) dropWhile_eq_drop [symmetric])
  have s: "sorted_wrt (\<lambda>x y. f x \<le> f y) (take n xs @ drop n xs)"
    using assms(1) by (simp add: sorted_map)
  have low: "\<forall>p\<in>set (take n xs). f p \<le> f a"
    unfolding t by (auto dest: set_takeWhileD)
  have high: "\<forall>p\<in>set (drop n xs). f a \<le> f p"
  proof (cases "drop n xs")
    case (Cons q qs)
    then have "\<not> f q < f a" using hd_dropWhile [of "\<lambda>p. f p < f a" xs] unfolding d by auto
    then show ?thesis using s unfolding Cons by (auto simp: sorted_wrt_append)
  qed simp
  from s low high show ?thesis
    by (auto simp: sorted_map sorted_wrt_append simp del: append_take_drop_id)
qed

text \<open>
  As long as all first instances are below 128, \<^verbatim>\<open>add_interval\<close> puts a new interval into a
  region's vector so that the intervals stay sorted by their first instance, keeps all the others
  and changes no other object; the only other outcome is that the vector could not grow, and then
  the region is as before.
\<close>

theorem add_interval_sorted:
  assumes region: "region_heap s p = Some r" "vec_rep (intervals r) xs"
    and small: "\<forall>q\<in>set xs. interval_heap s q \<noteq> None \<and> first_of (interval_heap s) q < 128"
    and sorted: "sorted (map (first_of (interval_heap s)) xs)"
    and new: "next_addr s \<notin> set xs" "lo < 128" "alloc 16" "bounded_alloc alloc"
  shows "\<exists>r' ys s'. add_interval alloc p lo hi s = Inr s' \<and>
    s' = s\<lparr>interval_heap := (interval_heap s)(next_addr s \<mapsto> \<lparr>iv_first = lo, iv_last = hi\<rparr>),
           next_addr := next_addr s + 1, region_heap := (region_heap s)(p \<mapsto> r')\<rparr> \<and>
    region_name r' = region_name r \<and> vec_rep (intervals r') ys \<and>
    (mset ys = mset (next_addr s # xs) \<and> sorted (map (first_of (interval_heap s')) ys) \<or> r' = r \<and> ys = xs)"
proof -
  let ?a = "next_addr s"
  let ?h = "(interval_heap s)(?a \<mapsto> \<lparr>iv_first = lo, iv_last = hi\<rparr>)"
  let ?n = "length (takeWhile (\<lambda>q. 0 < compare_intervals ?h lo q) xs)"
  have small': "\<forall>q\<in>set xs. ?h q \<noteq> None \<and> first_of ?h q < 128"
    using small new(1) by (auto simp: first_of_def)
  have same: "map (first_of ?h) xs = map (first_of (interval_heap s)) xs"
    using new(1) by (auto simp: first_of_def)
  have sorted': "sorted (map (first_of ?h) xs)" unfolding same by (rule sorted)
  note lower = SCOREP_Vector_LowerBound_rep [OF region(2)
      sorted_for_compare_intervals [OF sorted' small' new(2), of 0]]
  have "(0 < compare_intervals ?h lo q) = (first_of ?h q < first_of ?h ?a)" if "q \<in> set xs" for q
    by (rule compare_intervals_less) (use small' that new(2) in \<open>auto simp: first_of_def\<close>)
  then have n: "?n = length (takeWhile (\<lambda>q. first_of ?h q < first_of ?h ?a) xs)"
    by (metis (mono_tags, lifting) takeWhile_cong)
  let ?s = "\<lambda>v. s\<lparr>interval_heap := ?h, next_addr := ?a + 1,
      region_heap := (region_heap s)(p \<mapsto> r\<lparr>intervals := v\<rparr>)\<rparr>"
  have run: "add_interval alloc p lo hi s = Inr (?s v)"
    if "SCOREP_Vector_Insert alloc (intervals r) ?n ?a = Inr (ok, v)" for ok v
    using that lower region(1) new(3)
    by (simp add: add_interval_def load_heap_def Let_def del: fun_upd_apply)
  show ?thesis
  proof (rule SCOREP_Vector_Insert_rep [OF region(2) new(4), of ?n ?a])
    show "?n \<le> length xs" by (rule length_takeWhile_le)
  next
    fix v assume v: "SCOREP_Vector_Insert alloc (intervals r) ?n ?a = Inr (True, v)"
      "vec_rep v (take ?n xs @ ?a # drop ?n xs)"
    have "mset (take ?n xs @ ?a # drop ?n xs) = mset (?a # xs)"
      by (simp, metis append_take_drop_id mset_append union_commute)
    then show ?thesis
      using run [OF v(1)] v(2) sorted_insert_at [OF sorted' n]
      by (intro exI [of _ "r\<lparr>intervals := v\<rparr>"] exI [of _ "take ?n xs @ ?a # drop ?n xs"]
          exI [of _ "?s v"]) simp
  next
    assume "SCOREP_Vector_Insert alloc (intervals r) ?n ?a = Inr (False, intervals r)"
    from run [OF this] show ?thesis
      using region by (intro exI [of _ r] exI [of _ xs] exI [of _ "?s (intervals r)"]) simp
  qed
qed

definition example_selection :: sel_state where
  "example_selection =
     \<lparr>interval_heap = (\<lambda>_. None),
      region_heap = [1 \<mapsto> \<lparr>region_name = ''r'',
        intervals = \<lparr>items = [Undef, Undef], capacity = 2, vec_size = 0\<rparr>\<rparr>],
      next_addr = 2, selected_regions = \<lparr>items = [Cell 1], capacity = 1, vec_size = 1\<rparr>\<rparr>"

lemma add_interval_sorted_witness:
  "\<exists>s'. add_interval (\<lambda>n. n \<le> 1024) 1 7 9 example_selection = Inr s' \<and> next_addr s' = 3"
  using add_interval_sorted [of example_selection 1 "\<lparr>region_name = ''r'',
      intervals = \<lparr>items = [Undef, Undef], capacity = 2, vec_size = 0\<rparr>\<rparr>" "[]" 7 "\<lambda>n. n \<le> 1024" 9]
    bounded_alloc_witness
  by (auto simp: example_selection_def vec_rep_def PTRDIFF_MAX_def)

lemmas selective_exec = add_interval_def load_heap_def SCOREP_Vector_LowerBound_def
  SCOREP_Vector_Insert_def read_cell_def write_cell_def memmove_cells_def compare_intervals_def
  lower_loop.simps to_int8_def size_wrap_def

lemma add_first_interval:
  "add_interval (\<lambda>n. n \<le> 1024) 1 0 0 example_selection = Inr (example_selection
     \<lparr>interval_heap := [2 \<mapsto> \<lparr>iv_first = 0, iv_last = 0\<rparr>],
      region_heap := [1 \<mapsto> \<lparr>region_name = ''r'',
        intervals = \<lparr>items = [Cell 2, Undef], capacity = 2, vec_size = 1\<rparr>\<rparr>], next_addr := 3\<rparr>)"
  by (simp add: example_selection_def selective_exec)

text \<open>
  The comparison of intervals returns \<^verbatim>\<open>int8_t\<close>, and so loses the order of instance numbers that
  are 128 or more apart: after the selected instances 0 and 200 have been added in this order,
  the vector holds 200 before 0, and a region with these intervals does not record instance 0.
\<close>

theorem add_interval_truncates:
  "and_then (add_interval (\<lambda>n. n \<le> 1024) 1 0 0 example_selection)
     (add_interval (\<lambda>n. n \<le> 1024) 1 200 200) = Inr (example_selection
     \<lparr>interval_heap := [2 \<mapsto> \<lparr>iv_first = 0, iv_last = 0\<rparr>, 3 \<mapsto> \<lparr>iv_first = 200, iv_last = 200\<rparr>],
      region_heap := [1 \<mapsto> \<lparr>region_name = ''r'',
        intervals = \<lparr>items = [Cell 3, Cell 2], capacity = 2, vec_size = 2\<rparr>\<rparr>], next_addr := 4\<rparr>) \<and>
   (\<exists>r r'. scorep_user_create_region (Some [(200, 200), (0, 0)]) = Inr r \<and>
      run_instances [(200, 200), (0, 0)] (Instance No_Instance No_Instance)
        (r, \<lparr>recording_enabled = False, in_parallel = False\<rparr>) =
      Inr ([False], r', \<lparr>recording_enabled = False, in_parallel = False\<rparr>))"
proof
  show "and_then (add_interval (\<lambda>n. n \<le> 1024) 1 0 0 example_selection)
     (add_interval (\<lambda>n. n \<le> 1024) 1 200 200) = Inr (example_selection
     \<lparr>interval_heap := [2 \<mapsto> \<lparr>iv_first = 0, iv_last = 0\<rparr>, 3 \<mapsto> \<lparr>iv_first = 200, iv_last = 200\<rparr>],
      region_heap := [1 \<mapsto> \<lparr>region_name = ''r'',
        intervals = \<lparr>items = [Cell 3, Cell 2], capacity = 2, vec_size = 2\<rparr>\<rparr>], next_addr := 4\<rparr>)"
    unfolding add_first_interval
    by (simp add: example_selection_def selective_exec) (simp add: numeral_2_eq_2)
qed (simp add: scorep_user_create_region_def interval_at_def scorep_selective_check_enter_def
    scorep_selective_check_exit_def SCOREP_RecordingEnabled_def)

end
