(* ===== verification/Bitset.thy ===== *)
theory Bitset
  imports Prelude
begin

section \<open>The page bitset\<close>

text \<open>
  The model of \<^verbatim>\<open>src/utils/memory/scorep_bitset.h\<close>: a bitset over an array of 64-bit words.
  Positions and lengths are \<^verbatim>\<open>uint32_t\<close> values, here natural numbers, with the one sum that can
  wrap around written out. Assertions are active, as \<^verbatim>\<open>assert\<close> is in the code; the debug output
  is left out. The word at an index beyond the array is \<open>Inl Bad_Access\<close>.

  A bitset stands for the set of its members (\<open>bs_bit\<close>). The lemmas show that searching finds the
  first free or used position, that the range operations change exactly the bits of their range,
  and that the first-fit search for a range returns a range of free bits whenever there is one.
\<close>

type_synonym bitset = "u64 list"

definition BITSET_WORDSIZE :: nat where
  "BITSET_WORDSIZE = 64"

lemmas [simp] = BITSET_WORDSIZE_def

definition wrap32 :: "nat \<Rightarrow> nat" where
  "wrap32 n = n mod 2 ^ 32"

definition read_word :: "bitset \<Rightarrow> nat \<Rightarrow> u64 outcome" where
  "read_word ws i = (if i < length ws then Inr (ws ! i) else Inl Bad_Access)"

definition bitset_size :: "nat \<Rightarrow> nat" where
  "bitset_size n =
     (n div BITSET_WORDSIZE + of_bool (n mod BITSET_WORDSIZE \<noteq> 0)) * (BITSET_WORDSIZE div 8)"

definition bitset_mark_invalid :: "bitset \<Rightarrow> nat \<Rightarrow> bitset outcome" where
  "bitset_mark_invalid ws n =
     (let last_bit = n mod BITSET_WORDSIZE
      in if last_bit = 0 then Inr ws
         else let i = n div BITSET_WORDSIZE; msk = push_bit last_bit (1 :: u64)
              in and_then (read_word ws i) (\<lambda>_. Inr (ws[i := - msk])))"

definition bitset_set :: "bitset \<Rightarrow> nat \<Rightarrow> nat \<Rightarrow> bitset outcome" where
  "bitset_set ws n pos = assert_that (pos < n)
     (let i = pos div BITSET_WORDSIZE; b = push_bit (pos mod BITSET_WORDSIZE) (1 :: u64)
      in and_then (read_word ws i) (\<lambda>w. Inr (ws[i := w OR b])))"

definition bitset_clear :: "bitset \<Rightarrow> nat \<Rightarrow> nat \<Rightarrow> bitset outcome" where
  "bitset_clear ws n pos = assert_that (pos < n)
     (let i = pos div BITSET_WORDSIZE; b = push_bit (pos mod BITSET_WORDSIZE) (1 :: u64)
      in and_then (read_word ws i) (\<lambda>w. Inr (ws[i := w AND NOT b])))"

subsection \<open>Ranges\<close>

text \<open>
  Setting and clearing a range have the same three parts: the first word from a bit on, whole
  words, the last word up to a bit. \<open>change\<close> is what is done to a word under a mask.
\<close>

type_synonym word_change = "bitset \<Rightarrow> nat \<Rightarrow> u64 \<Rightarrow> bitset outcome"

definition set_masked :: word_change where
  "set_masked ws i msk =
     and_then (read_word ws i) (\<lambda>w. assert_that (w AND msk = 0) (Inr (ws[i := w OR msk])))"

definition set_full :: "bitset \<Rightarrow> nat \<Rightarrow> bitset outcome" where
  "set_full ws i =
     (let msk = NOT (0 :: u64)
      in and_then (read_word ws i) (\<lambda>w. assert_that (w AND msk = 0) (Inr (ws[i := msk]))))"

definition clear_masked :: word_change where
  "clear_masked ws i msk =
     and_then (read_word ws i) (\<lambda>w. assert_that (w AND msk = msk) (Inr (ws[i := w AND NOT msk])))"

definition clear_full :: "bitset \<Rightarrow> nat \<Rightarrow> bitset outcome" where
  "clear_full ws i =
     and_then (read_word ws i) (\<lambda>w. assert_that (w AND 0 = 0) (Inr (ws[i := 0])))"

function for_words :: "(bitset \<Rightarrow> nat \<Rightarrow> bitset outcome) \<Rightarrow> nat \<Rightarrow> bitset \<Rightarrow> nat \<Rightarrow> bitset outcome" where
  "for_words full last_word ws i =
     (if i < last_word then and_then (full ws i) (\<lambda>ws'. for_words full last_word ws' (i + 1))
      else Inr ws)"
  by pat_completeness auto
termination by (relation "measure (\<lambda>(full, last_word, ws, i). last_word - i)") auto

declare for_words.simps [simp del]

definition first_mask :: "nat \<Rightarrow> nat \<Rightarrow> bool \<Rightarrow> u64" where
  "first_mask first_bit_pos last_bit_pos same =
     (let m = - push_bit first_bit_pos (1 :: u64)
      in if same \<and> last_bit_pos \<noteq> 0 then m AND (push_bit last_bit_pos 1 - 1) else m)"

definition change_range ::
  "word_change \<Rightarrow> (bitset \<Rightarrow> nat \<Rightarrow> bitset outcome) \<Rightarrow> bitset \<Rightarrow> nat \<Rightarrow> nat \<Rightarrow> bitset outcome" where
  "change_range masked full ws offset stop =
     (let first_word = offset div BITSET_WORDSIZE; first_bit_pos = offset mod BITSET_WORDSIZE;
          last_word = stop div BITSET_WORDSIZE; last_bit_pos = stop mod BITSET_WORDSIZE;
          same = (first_word = last_word)
      in and_then (if first_bit_pos \<noteq> 0
                   then masked ws first_word (first_mask first_bit_pos last_bit_pos same)
                   else Inr ws) (\<lambda>ws1.
         and_then (for_words full last_word ws1 (first_word + of_bool (first_bit_pos \<noteq> 0))) (\<lambda>ws2.
         if last_bit_pos \<noteq> 0 \<and> \<not> (same \<and> first_bit_pos \<noteq> 0)
         then masked ws2 last_word (push_bit last_bit_pos 1 - 1)
         else Inr ws2)))"

definition range_asserts :: "nat \<Rightarrow> nat \<Rightarrow> nat \<Rightarrow> bool" where
  "range_asserts n offset len \<longleftrightarrow>
     offset < n \<and> len > 0 \<and> len \<le> n \<and> wrap32 (offset + len) \<le> n"

definition bitset_set_range :: "bitset \<Rightarrow> nat \<Rightarrow> nat \<Rightarrow> nat \<Rightarrow> bitset outcome" where
  "bitset_set_range ws n offset len = assert_that (range_asserts n offset len)
     (change_range set_masked set_full ws offset (wrap32 (offset + len)))"

definition bitset_clear_range :: "bitset \<Rightarrow> nat \<Rightarrow> nat \<Rightarrow> nat \<Rightarrow> bitset outcome" where
  "bitset_clear_range ws n offset len = assert_that (range_asserts n offset len)
     (change_range clear_masked clear_full ws offset (wrap32 (offset + len)))"

subsection \<open>Searching\<close>

function count_shifts :: "u64 \<Rightarrow> nat \<Rightarrow> nat" where
  "count_shifts word pos = (if word \<noteq> 0 then count_shifts (drop_bit 1 word) (pos + 1) else pos)"
  by pat_completeness auto
termination
  by (relation "measure (\<lambda>(word, pos). unat word)")
    (auto simp: drop_bit_Suc unat_div unat_gt_0)

declare count_shifts.simps [simp del]

definition find_first_zero :: "u64 \<Rightarrow> nat" where
  "find_first_zero word = count_shifts (drop_bit 1 (NOT word XOR (NOT word - 1))) 0"

definition find_first_set :: "u64 \<Rightarrow> nat" where
  "find_first_set word = find_first_zero (NOT word)"

text \<open>The search over whole words, for one that passes the test.\<close>

function scan_words :: "(u64 \<Rightarrow> bool) \<Rightarrow> bitset \<Rightarrow> nat \<Rightarrow> nat \<Rightarrow> nat outcome" where
  "scan_words found ws n_words i =
     (if i < n_words
      then and_then (read_word ws i) (\<lambda>w. if found w then Inr i else scan_words found ws n_words (i + 1))
      else Inr i)"
  by pat_completeness auto
termination by (relation "measure (\<lambda>(found, ws, n_words, i). n_words - i)") auto

declare scan_words.simps [simp del]

definition n_words_of :: "nat \<Rightarrow> nat" where
  "n_words_of n = n div BITSET_WORDSIZE + of_bool (n mod BITSET_WORDSIZE \<noteq> 0)"

definition bitset_next_free :: "bitset \<Rightarrow> nat \<Rightarrow> nat \<Rightarrow> nat outcome" where
  "bitset_next_free ws n offset =
     (let i = offset div BITSET_WORDSIZE; first_bit_pos = offset mod BITSET_WORDSIZE;
          n_words = n_words_of n
      in if offset \<ge> n then Inr n
         else and_then
           (if first_bit_pos \<noteq> 0
            then and_then (read_word ws i) (\<lambda>w.
                 let word = w OR (push_bit first_bit_pos 1 - 1)
                 in if NOT word \<noteq> 0 then Inr (Inl (i * BITSET_WORDSIZE + find_first_zero word))
                    else Inr (Inr (i + 1)))
            else Inr (Inr i))
           (\<lambda>r. case r of
              Inl pos \<Rightarrow> Inr pos
            | Inr i \<Rightarrow>
                and_then (scan_words (\<lambda>w. NOT w \<noteq> 0) ws n_words i) (\<lambda>i.
                  if i = n_words then Inr n
                  else and_then (read_word ws i) (\<lambda>w.
                       Inr (i * BITSET_WORDSIZE + find_first_zero w)))))"

definition bitset_find_and_set :: "bitset \<Rightarrow> nat \<Rightarrow> (nat \<times> bitset) outcome" where
  "bitset_find_and_set ws n =
     and_then (bitset_next_free ws n 0) (\<lambda>b.
       if b < n then and_then (bitset_set ws n b) (\<lambda>ws'. Inr (b, ws')) else Inr (b, ws))"

definition bitset_next_used :: "bitset \<Rightarrow> nat \<Rightarrow> nat \<Rightarrow> nat outcome" where
  "bitset_next_used ws n offset =
     (let i = offset div BITSET_WORDSIZE; first_bit_pos = offset mod BITSET_WORDSIZE;
          n_words = n_words_of n
      in and_then
           (if first_bit_pos \<noteq> 0
            then and_then (read_word ws i) (\<lambda>w.
                 let word = w AND NOT (push_bit first_bit_pos 1 - 1)
                 in if word \<noteq> 0 then Inr (Inl (i * BITSET_WORDSIZE + find_first_set word))
                    else Inr (Inr (i + 1)))
            else Inr (Inr i))
           (\<lambda>r. case r of
              Inl pos \<Rightarrow> Inr pos
            | Inr i \<Rightarrow>
                and_then (scan_words (\<lambda>w. w \<noteq> 0) ws n_words i) (\<lambda>i.
                  if i = n_words then Inr n
                  else and_then (read_word ws i) (\<lambda>w.
                       Inr (i * BITSET_WORDSIZE + find_first_set w)))))"

text \<open>
  The loop of the search for a range runs at most once per free position; \<open>fuel\<close> bounds it, and
  \<open>n + 1\<close> rounds are shown to be enough.
\<close>

fun find_range_loop :: "nat \<Rightarrow> bitset \<Rightarrow> nat \<Rightarrow> nat \<Rightarrow> nat \<Rightarrow> (nat \<times> bitset) option outcome" where
  "find_range_loop 0 ws n rangeLength pos = Inr None"
| "find_range_loop (Suc fuel) ws n rangeLength pos =
     (if pos < n
      then and_then (bitset_next_used ws n pos) (\<lambda>next_used.
           let len = next_used - pos
           in if len \<ge> rangeLength
              then and_then (bitset_set_range ws n pos rangeLength) (\<lambda>ws'. Inr (Some (pos, ws')))
              else and_then (bitset_next_free ws n (pos + len)) (find_range_loop fuel ws n rangeLength))
      else Inr (Some (n, ws)))"

definition bitset_find_and_set_range ::
  "bitset \<Rightarrow> nat \<Rightarrow> nat \<Rightarrow> (nat \<times> bitset) option outcome" where
  "bitset_find_and_set_range ws n rangeLength =
     and_then (bitset_next_free ws n 0) (find_range_loop (n + 1) ws n rangeLength)"

subsection \<open>The set a bitset stands for\<close>

definition bs_bit :: "bitset \<Rightarrow> nat \<Rightarrow> bool" where
  "bs_bit ws j \<longleftrightarrow> bit (ws ! (j div 64)) (j mod 64)"

text \<open>A bitset for \<open>n\<close> members: enough words, and no free position behind the last member.\<close>

definition bitset_wf :: "bitset \<Rightarrow> nat \<Rightarrow> bool" where
  "bitset_wf ws n \<longleftrightarrow> length ws = n_words_of n \<and> n < 2 ^ 32 \<and>
     list_all (bs_bit ws) [n..<64 * length ws]"

lemma bitset_wf_iff:
  "bitset_wf ws n \<longleftrightarrow> length ws = n_words_of n \<and> n < 2 ^ 32 \<and>
     (\<forall>j. n \<le> j \<and> j < 64 * length ws \<longrightarrow> bs_bit ws j)"
  by (auto simp: bitset_wf_def list_all_iff)

lemma n_words_of_bounds: "n \<le> 64 * n_words_of n" "64 * n_words_of n < n + 64"
proof -
  obtain q r where qr: "n = 64 * q + r" "r < 64"
    by (metis mod_less_divisor mult_div_mod_eq zero_less_numeral)
  then have "n div 64 = q" "n mod 64 = r" by simp_all
  then have *: "n_words_of n = q + of_bool (r \<noteq> 0)" by (simp add: n_words_of_def)
  show "n \<le> 64 * n_words_of n" "64 * n_words_of n < n + 64"
    unfolding * using qr by (cases "r = 0"; simp)+
qed

lemma word_index_less: "j < 64 * k \<Longrightarrow> j div 64 < (k :: nat)"
  by (simp add: less_mult_imp_div_less mult.commute)

lemma bs_bit_update:
  assumes "i < length ws"
  shows "bs_bit (ws[i := w]) j = (if j div 64 = i then bit w (j mod 64) else bs_bit ws j)"
  using assms by (simp add: bs_bit_def)

lemma bs_bit_word: "m < 64 \<Longrightarrow> bs_bit ws (64 * i + m) = bit (ws ! i) m"
  by (simp add: bs_bit_def)

subsection \<open>Finding the first bit of a word\<close>

lemma xor_pred_nat:
  "bit v k \<Longrightarrow> (\<And>j. j < k \<Longrightarrow> \<not> bit v j) \<Longrightarrow> v XOR (v - 1) = mask (Suc k)" for v :: nat
proof (induction k arbitrary: v)
  case 0
  then have "odd v" by (simp add: bit_0)
  then obtain m where "v = 2 * m + 1" by (elim oddE)
  then show ?case by (simp add: xor_nat_unfold mask_eq_exp_minus_1)
next
  case (Suc k)
  have "even v" using Suc.prems(2) [of 0] by (simp add: bit_0)
  then obtain m where v: "v = 2 * m" by (elim evenE)
  have m: "bit m k" using Suc.prems(1) v by (simp add: bit_Suc)
  moreover have "\<not> bit m j" if "j < k" for j using Suc.prems(2) [of "Suc j"] that v by (simp add: bit_Suc)
  ultimately have IH: "m XOR (m - 1) = mask (Suc k)" by (rule Suc.IH)
  have "m \<noteq> 0" using m by (metis bit_0_eq bot_apply bot_bool_def)
  then have "v - 1 = 2 * (m - 1) + 1" using v by simp
  moreover have "(2 * m) XOR (2 * (m - 1) + 1) = 2 * (m XOR (m - 1)) + 1"
    by (subst xor_nat_unfold) simp
  moreover obtain q where "(2 :: nat) ^ k = Suc q"
    by (metis not0_implies_Suc power_not_zero zero_neq_numeral)
  ultimately show ?case using v IH by (simp add: mask_eq_exp_minus_1)
qed

lemma count_shifts_mask: "unat w = 2 ^ k - 1 \<Longrightarrow> count_shifts w p = p + k"
proof (induction k arbitrary: w p)
  case 0
  then have "w = 0" by (simp add: unat_eq_zero)
  then show ?case by (subst count_shifts.simps) simp
next
  case (Suc k)
  obtain m where m: "(2 :: nat) ^ k = Suc m" by (metis not0_implies_Suc power_not_zero zero_neq_numeral)
  have w: "unat w = 2 * m + 1" using Suc.prems m by simp
  then have "w \<noteq> 0" by auto
  moreover have "unat (drop_bit 1 w) = m" using w by (simp add: drop_bit_Suc unat_div)
  ultimately show ?case using Suc.IH [of "drop_bit 1 w" "p + 1"] m
    by (subst count_shifts.simps) simp
qed

lemma find_first_zero_eq:
  assumes "\<not> bit w k" and "k < 64" and "\<And>j. j < k \<Longrightarrow> bit w j"
  shows "find_first_zero w = k"
proof -
  define v where "v = NOT w"
  have v: "bit (unat v) k" "\<And>j. j < k \<Longrightarrow> \<not> bit (unat v) j"
    using assms by (simp_all add: v_def bit_unsigned_iff bit_not_iff)
  then have "unat v \<noteq> 0" by (metis bit_0_eq bot_apply bot_bool_def)
  then have "unat (v - 1) = unat v - 1" by (metis unat_minus_one unat_0)
  moreover define x where "x = v XOR (v - 1)"
  ultimately have "unat x = mask (Suc k)"
    using xor_pred_nat [OF v] by (simp add: unsigned_xor_eq)
  then have "unat (drop_bit 1 x) = 2 ^ k - 1"
    by (simp add: unat_drop_bit_eq drop_bit_Suc mask_eq_exp_minus_1 unat_div)
  then show ?thesis
    unfolding find_first_zero_def v_def [symmetric] x_def [symmetric] by (simp add: count_shifts_mask)
qed

lemma word_first_zero:
  fixes w :: u64
  assumes "NOT w \<noteq> 0"
  obtains k where "k < 64" "\<not> bit w k" "\<And>j. j < k \<Longrightarrow> bit w j" "find_first_zero w = k"
proof -
  have "\<exists>m<64. \<not> bit w m"
  proof (rule ccontr)
    assume "\<not> (\<exists>m<64. \<not> bit w m)"
    then have "NOT w = 0" by (intro bit_word_eqI) (auto simp: bit_not_iff)
    then show False using assms by simp
  qed
  then obtain m where m: "m < 64" "\<not> bit w m" by blast
  define k where "k = (LEAST k. \<not> bit w k)"
  have k: "\<not> bit w k" "k \<le> m" using m(2) unfolding k_def by (rule LeastI, rule Least_le)
  have below: "bit w j" if "j < k" for j using not_less_Least that unfolding k_def by blast
  have less: "k < 64" using k(2) m(1) by simp
  from less k(1) below find_first_zero_eq [OF k(1) less below] show thesis by (rule that)
qed

text \<open>
  \<open>first_from P n k r\<close>: \<open>r\<close> is the first position from \<open>k\<close> on that satisfies \<open>P\<close>, or \<open>n\<close> if
  there is none below \<open>n\<close>.
\<close>

definition first_from :: "(nat \<Rightarrow> bool) \<Rightarrow> nat \<Rightarrow> nat \<Rightarrow> nat \<Rightarrow> bool" where
  "first_from P n k r \<longleftrightarrow> (\<forall>j. k \<le> j \<and> j < r \<longrightarrow> \<not> P j) \<and> (r = n \<or> k \<le> r \<and> r < n \<and> P r)"

lemma scan_words_correct:
  "n_words \<le> length ws \<Longrightarrow> i \<le> n_words \<Longrightarrow>
   \<exists>r. scan_words found ws n_words i = Inr r \<and> i \<le> r \<and> r \<le> n_words \<and>
     (\<forall>k. i \<le> k \<and> k < r \<longrightarrow> \<not> found (ws ! k)) \<and> (r < n_words \<longrightarrow> found (ws ! r))"
proof (induction "n_words - i" arbitrary: i)
  case 0
  then show ?case by (subst scan_words.simps) auto
next
  case (Suc d)
  then have i: "i < n_words" "i < length ws" by simp_all
  show ?case
  proof (cases "found (ws ! i)")
    case True
    then show ?thesis using i by (subst scan_words.simps) (auto simp: read_word_def)
  next
    case False
    have "scan_words found ws n_words i = scan_words found ws n_words (Suc i)"
      using i False by (subst scan_words.simps) (simp add: read_word_def)
    moreover have "\<exists>r. scan_words found ws n_words (Suc i) = Inr r \<and> Suc i \<le> r \<and> r \<le> n_words \<and>
        (\<forall>k. Suc i \<le> k \<and> k < r \<longrightarrow> \<not> found (ws ! k)) \<and> (r < n_words \<longrightarrow> found (ws ! r))"
      by (rule Suc(1)) (use Suc(2-) in auto)
    then obtain r where "scan_words found ws n_words (Suc i) = Inr r" "Suc i \<le> r" "r \<le> n_words"
      "\<forall>k. Suc i \<le> k \<and> k < r \<longrightarrow> \<not> found (ws ! k)" "r < n_words \<longrightarrow> found (ws ! r)"
      by blast
    moreover from this have "\<not> found (ws ! k)" if "i \<le> k" "k < r" for k
      using that False by (cases "k = i") auto
    ultimately show ?thesis by (intro exI [of _ r]) auto
  qed
qed

text \<open>
  Both searches end in the same way: with the whole words from an index on. \<open>Q w k\<close> is the
  property of a bit that is searched for, \<open>ff\<close> finds the first such bit of a word.
\<close>

definition search_rest ::
  "(u64 \<Rightarrow> bool) \<Rightarrow> (u64 \<Rightarrow> nat) \<Rightarrow> bitset \<Rightarrow> nat \<Rightarrow> nat \<Rightarrow> nat outcome" where
  "search_rest found ff ws n i =
     and_then (scan_words found ws (n_words_of n) i) (\<lambda>i.
       if i = n_words_of n then Inr n
       else and_then (read_word ws i) (\<lambda>w. Inr (i * BITSET_WORDSIZE + ff w)))"

definition finds_first :: "(u64 \<Rightarrow> nat \<Rightarrow> bool) \<Rightarrow> (u64 \<Rightarrow> bool) \<Rightarrow> (u64 \<Rightarrow> nat) \<Rightarrow> bool" where
  "finds_first Q found ff \<longleftrightarrow>
     (\<forall>w. if found w then ff w < 64 \<and> Q w (ff w) \<and> (\<forall>j<ff w. \<not> Q w j) else \<forall>j<64. \<not> Q w j)"

lemma finds_firstD:
  assumes "finds_first Q found ff"
  shows "found w \<Longrightarrow> ff w < 64" "found w \<Longrightarrow> Q w (ff w)" "found w \<Longrightarrow> j < ff w \<Longrightarrow> \<not> Q w j"
    "\<not> found w \<Longrightarrow> j < 64 \<Longrightarrow> \<not> Q w j"
  using assms by (auto simp: finds_first_def split: if_splits)

lemma finds_first_zero: "finds_first (\<lambda>w k. \<not> bit w k) (\<lambda>w. NOT w \<noteq> 0) find_first_zero"
  unfolding finds_first_def
proof
  fix w :: u64
  show "if NOT w \<noteq> 0 then find_first_zero w < 64 \<and> \<not> bit w (find_first_zero w) \<and>
      (\<forall>j<find_first_zero w. \<not> \<not> bit w j) else \<forall>j<64. \<not> \<not> bit w j"
  proof (cases "NOT w = 0")
    case True
    then have "w = NOT 0" by (metis bit.double_compl)
    then show ?thesis using True by (simp add: bit_minus_1_iff)
  next
    case False
    then show ?thesis by (auto elim: word_first_zero)
  qed
qed

lemma finds_first_set: "finds_first (\<lambda>w k. bit w k) (\<lambda>w. w \<noteq> 0) find_first_set"
  unfolding finds_first_def
proof
  fix w :: u64
  have Q: "bit (NOT w) j \<longleftrightarrow> \<not> bit w j" if "j < 64" for j using that by (simp add: bit_not_iff)
  show "if w \<noteq> 0 then find_first_set w < 64 \<and> bit w (find_first_set w) \<and>
      (\<forall>j<find_first_set w. \<not> bit w j) else \<forall>j<64. \<not> bit w j"
  proof (cases "w = 0")
    case False
    then have "NOT (NOT w) \<noteq> 0" by simp
    then obtain k where k: "k < 64" "\<not> bit (NOT w) k" "\<And>j. j < k \<Longrightarrow> bit (NOT w) j"
      "find_first_zero (NOT w) = k" by (rule word_first_zero) blast
    have "\<not> bit w j" if "j < k" for j using k(3) [OF that] Q [of j] k(1) that by linarith
    then show ?thesis using False k Q [OF k(1)] by (simp add: find_first_set_def)
  qed simp
qed

lemma position_between:
  fixes i j k :: nat
  assumes "64 * i \<le> j" and "j < 64 * i + k" and "k \<le> 64"
  shows "j div 64 = i" and "j mod 64 = j - 64 * i" and "j mod 64 < k"
proof -
  obtain m where j: "j = 64 * i + m" using le_Suc_ex [OF assms(1)] by blast
  have m: "m < k" using assms(2) unfolding j by simp
  then have less: "m < 64" using assms(3) by simp
  have "j div 64 = i" "j mod 64 = m" unfolding j using less by simp_all
  then show "j div 64 = i" "j mod 64 = j - 64 * i" "j mod 64 < k" using m j by simp_all
qed

lemma search_rest_correct:
  assumes "finds_first Q found ff" and "length ws = n_words_of n" and "s \<le> n_words_of n"
  shows "\<exists>r. search_rest found ff ws n s = Inr r \<and>
    (r = n \<and> (\<forall>j. 64 * s \<le> j \<and> j < 64 * n_words_of n \<longrightarrow> \<not> Q (ws ! (j div 64)) (j mod 64)) \<or>
     64 * s \<le> r \<and> r < 64 * n_words_of n \<and> Q (ws ! (r div 64)) (r mod 64) \<and>
     (\<forall>j. 64 * s \<le> j \<and> j < r \<longrightarrow> \<not> Q (ws ! (j div 64)) (j mod 64)))"
proof -
  obtain i where i: "scan_words found ws (n_words_of n) s = Inr i" "s \<le> i" "i \<le> n_words_of n"
    "\<forall>k. s \<le> k \<and> k < i \<longrightarrow> \<not> found (ws ! k)" "i < n_words_of n \<longrightarrow> found (ws ! i)"
    using scan_words_correct [of "n_words_of n" ws s found] assms(2,3) by auto
  have before: "\<not> Q (ws ! (j div 64)) (j mod 64)" if j: "64 * s \<le> j" "j < 64 * i" for j
  proof -
    have "j div 64 < i" by (rule word_index_less [OF j(2)])
    moreover have "s \<le> j div 64" using div_le_mono [OF j(1), of 64] by simp
    ultimately have "s \<le> j div 64" "j div 64 < i" by simp_all
    then have "\<not> found (ws ! (j div 64))" using i(4) by blast
    then have "\<forall>k<64. \<not> Q (ws ! (j div 64)) k" using assms(1) unfolding finds_first_def by metis
    then show ?thesis by simp
  qed
  show ?thesis
  proof (cases "i = n_words_of n")
    case True
    then show ?thesis using i(1) before by (intro exI [of _ n]) (auto simp: search_rest_def)
  next
    case False
    then have less: "i < n_words_of n" using i(3) by simp
    let ?k = "ff (ws ! i)"
    have k: "?k < 64" "Q (ws ! i) ?k" "\<forall>j<?k. \<not> Q (ws ! i) j"
      using i(5) less assms(1) unfolding finds_first_def by metis+
    have "search_rest found ff ws n s = Inr (64 * i + ?k)"
      using i(1) False less assms(2) by (simp add: search_rest_def read_word_def)
    moreover have "\<not> Q (ws ! (j div 64)) (j mod 64)" if j: "64 * s \<le> j" "j < 64 * i + ?k" for j
    proof (cases "j < 64 * i")
      case True
      then show ?thesis using before j(1) by blast
    next
      case no: False
      then show ?thesis using position_between [of i j ?k] j(2) k(1,3) by simp
    qed
    moreover have "64 * s \<le> 64 * i + ?k" "64 * i + ?k < 64 * n_words_of n" using i(2) k(1) less by simp_all
    ultimately show ?thesis using k(1,2) by (intro exI [of _ "64 * i + ?k"]) simp
  qed
qed

text \<open>The head of both searches: the rest of a word behind the bits that are ignored.\<close>

lemma bit_low_mask: "bit (2 ^ p - 1 :: u64) j \<longleftrightarrow> j < p \<and> j < 64"
proof -
  have "(2 ^ p - 1 :: u64) = mask p" by (simp add: mask_eq_exp_minus_1)
  then show ?thesis by (auto simp: bit_mask_iff)
qed

lemma ignored_zero:
  "j < 64 \<Longrightarrow> \<not> bit (w OR (push_bit p 1 - 1) :: u64) j \<longleftrightarrow> p \<le> j \<and> \<not> bit w j"
  by (auto simp: bit_or_iff bit_low_mask)

lemma ignored_set:
  "j < 64 \<Longrightarrow> bit (w AND NOT (push_bit p 1 - 1) :: u64) j \<longleftrightarrow> p \<le> j \<and> bit w j"
  by (auto simp: bit_and_iff bit_not_iff bit_low_mask)

definition search_head ::
  "(u64 \<Rightarrow> nat \<Rightarrow> u64) \<Rightarrow> (u64 \<Rightarrow> bool) \<Rightarrow> (u64 \<Rightarrow> nat) \<Rightarrow> bitset \<Rightarrow> nat \<Rightarrow> nat
     \<Rightarrow> (nat + nat) outcome" where
  "search_head ignore found ff ws i p =
     (if p \<noteq> 0
      then and_then (read_word ws i) (\<lambda>w.
           let word = ignore w p
           in if found word then Inr (Inl (i * BITSET_WORDSIZE + ff word)) else Inr (Inr (i + 1)))
      else Inr (Inr i))"

lemma search_correct:
  assumes ff: "finds_first Q found ff"
    and ignore: "\<And>w p j. j < 64 \<Longrightarrow> Q (ignore w p) j \<longleftrightarrow> p \<le> j \<and> Q w j"
    and len: "length ws = n_words_of n" and off: "offset < 64 * n_words_of n"
  defines "search \<equiv> and_then (search_head ignore found ff ws (offset div 64) (offset mod 64))
      (\<lambda>r. case r of Inl pos \<Rightarrow> Inr pos | Inr i \<Rightarrow> search_rest found ff ws n i)"
  shows "\<exists>r. search = Inr r \<and>
    (r = n \<and> (\<forall>j. offset \<le> j \<and> j < 64 * n_words_of n \<longrightarrow> \<not> Q (ws ! (j div 64)) (j mod 64)) \<or>
     offset \<le> r \<and> r < 64 * n_words_of n \<and> Q (ws ! (r div 64)) (r mod 64) \<and>
     (\<forall>j. offset \<le> j \<and> j < r \<longrightarrow> \<not> Q (ws ! (j div 64)) (j mod 64)))"
proof -
  let ?i = "offset div 64" and ?p = "offset mod 64"
  have offset: "offset = 64 * ?i + ?p" by simp
  have i: "?i < n_words_of n" by (rule word_index_less [OF off])
  have read: "read_word ws ?i = Inr (ws ! ?i)" using i len by (simp add: read_word_def)
  let ?word = "ignore (ws ! ?i) ?p"
  have p: "?p < 64" by simp
  show ?thesis
  proof (cases "?p \<noteq> 0 \<and> found ?word")
    case True
    let ?k = "ff ?word"
    note k = finds_firstD(1-3) [OF ff conjunct2 [OF True]]
    have k': "?p \<le> ?k" "Q (ws ! ?i) ?k" using ignore [OF k(1)] k(2) by blast+
    have "search = Inr (64 * ?i + ?k)"
      using True read unfolding search_def search_head_def by (simp add: mult.commute)
    moreover have "\<not> Q (ws ! (j div 64)) (j mod 64)" if j: "offset \<le> j" "j < 64 * ?i + ?k" for j
    proof -
      have "64 * ?i \<le> j" using j(1) offset by linarith
      note jj = position_between [OF this j(2) less_imp_le [OF k(1)]]
      have "j mod 64 < 64" by simp
      note ig = ignore [OF this, of "ws ! ?i" ?p]
      have "?p \<le> j mod 64" using j(1) jj(2) offset by linarith
      then show ?thesis using k(3) [OF jj(3)] unfolding ig jj(1) by blast
    qed
    moreover have "offset \<le> 64 * ?i + ?k" using offset k'(1) by linarith
    moreover have "64 * ?i + ?k < 64 * n_words_of n" using i k(1) by simp
    moreover have "(64 * ?i + ?k) div 64 = ?i" "(64 * ?i + ?k) mod 64 = ?k" using k(1) by simp_all
    ultimately show ?thesis using k'(2) by (intro exI [of _ "64 * ?i + ?k"]) simp
  next
    case False
    define s where "s = ?i + of_bool (?p \<noteq> 0)"
    have s: "s \<le> n_words_of n" using i by (simp add: s_def)
    have run: "search = search_rest found ff ws n s"
      using False read unfolding search_def search_head_def s_def by auto
    have before: "\<not> Q (ws ! (j div 64)) (j mod 64)" if j: "offset \<le> j" "j < 64 * s" for j
    proof (cases "?p = 0")
      case True
      then show ?thesis using j offset by (simp add: s_def)
    next
      case no: False
      then have "\<not> found ?word" using False by blast
      note none = finds_firstD(4) [OF ff this]
      have "64 * ?i \<le> j" using j(1) offset by linarith
      note jj = position_between [OF this, of 64]
      have "j < 64 * ?i + 64" using j(2) no by (simp add: s_def)
      note jj = jj [OF this order.refl]
      have "?p \<le> j mod 64" using j(1) jj(2) offset by linarith
      then show ?thesis using none [OF jj(3)] ignore [OF jj(3), of "ws ! ?i" ?p] jj(1) by simp
    qed
    have le: "offset \<le> 64 * s" using offset p by (cases "?p = 0") (auto simp: s_def)
    obtain r where r: "search_rest found ff ws n s = Inr r"
      "r = n \<and> (\<forall>j. 64 * s \<le> j \<and> j < 64 * n_words_of n \<longrightarrow> \<not> Q (ws ! (j div 64)) (j mod 64)) \<or>
       64 * s \<le> r \<and> r < 64 * n_words_of n \<and> Q (ws ! (r div 64)) (r mod 64) \<and>
       (\<forall>j. 64 * s \<le> j \<and> j < r \<longrightarrow> \<not> Q (ws ! (j div 64)) (j mod 64))"
      using search_rest_correct [OF ff len s] by blast
    have all: "\<not> Q (ws ! (j div 64)) (j mod 64)"
      if "offset \<le> j" "j < m" "\<forall>j. 64 * s \<le> j \<and> j < m \<longrightarrow> \<not> Q (ws ! (j div 64)) (j mod 64)" for j m
    proof (cases "j < 64 * s")
      case True
      then show ?thesis using before that(1) by blast
    next
      case False
      then show ?thesis using that(2,3) by (simp add: not_less)
    qed
    from r(2) show ?thesis
    proof
      assume *: "r = n \<and> (\<forall>j. 64 * s \<le> j \<and> j < 64 * n_words_of n \<longrightarrow> \<not> Q (ws ! (j div 64)) (j mod 64))"
      have "\<forall>j. offset \<le> j \<and> j < 64 * n_words_of n \<longrightarrow> \<not> Q (ws ! (j div 64)) (j mod 64)"
        using all * by blast
      then show ?thesis using * unfolding run r(1) by blast
    next
      assume *: "64 * s \<le> r \<and> r < 64 * n_words_of n \<and> Q (ws ! (r div 64)) (r mod 64) \<and>
       (\<forall>j. 64 * s \<le> j \<and> j < r \<longrightarrow> \<not> Q (ws ! (j div 64)) (j mod 64))"
      have "\<forall>j. offset \<le> j \<and> j < r \<longrightarrow> \<not> Q (ws ! (j div 64)) (j mod 64)"
        using all * by blast
      moreover have "offset \<le> r" using le * by linarith
      ultimately show ?thesis using * unfolding run r(1) by blast
    qed
  qed
qed

lemma bitset_next_free_search:
  "offset < n \<Longrightarrow> bitset_next_free ws n offset =
   and_then (search_head (\<lambda>w p. w OR (push_bit p 1 - 1)) (\<lambda>w. NOT w \<noteq> 0) find_first_zero ws
       (offset div 64) (offset mod 64))
     (\<lambda>r. case r of Inl pos \<Rightarrow> Inr pos
        | Inr i \<Rightarrow> search_rest (\<lambda>w. NOT w \<noteq> 0) find_first_zero ws n i)"
  unfolding bitset_next_free_def search_head_def search_rest_def Let_def BITSET_WORDSIZE_def by simp

lemma bitset_next_used_search:
  "bitset_next_used ws n offset =
   and_then (search_head (\<lambda>w p. w AND NOT (push_bit p 1 - 1)) (\<lambda>w. w \<noteq> 0) find_first_set ws
       (offset div 64) (offset mod 64))
     (\<lambda>r. case r of Inl pos \<Rightarrow> Inr pos
        | Inr i \<Rightarrow> search_rest (\<lambda>w. w \<noteq> 0) find_first_set ws n i)"
  unfolding bitset_next_used_def search_head_def search_rest_def Let_def BITSET_WORDSIZE_def by simp

lemma bitset_next_free_first:
  assumes wf: "bitset_wf ws n" and off: "offset < n"
  shows "\<exists>r. bitset_next_free ws n offset = Inr r \<and> first_from (\<lambda>j. \<not> bs_bit ws j) n offset r"
proof -
  have len: "length ws = n_words_of n" and full: "\<And>j. n \<le> j \<Longrightarrow> j < 64 * n_words_of n \<Longrightarrow> bs_bit ws j"
    using wf by (auto simp: bitset_wf_iff)
  have "offset < 64 * n_words_of n" using off n_words_of_bounds(1) by (rule less_le_trans)
  from search_correct [where Q = "\<lambda>w k. \<not> bit w k" and ignore = "\<lambda>w p. w OR (push_bit p 1 - 1)",
      OF finds_first_zero ignored_zero len this]
  obtain r where r: "bitset_next_free ws n offset = Inr r"
    "r = n \<and> (\<forall>j. offset \<le> j \<and> j < 64 * n_words_of n \<longrightarrow> bs_bit ws j) \<or>
     offset \<le> r \<and> r < 64 * n_words_of n \<and> \<not> bs_bit ws r \<and> (\<forall>j. offset \<le> j \<and> j < r \<longrightarrow> bs_bit ws j)"
    unfolding bitset_next_free_search [OF off] bs_bit_def by auto
  note le = n_words_of_bounds(1) [of n]
  from r(2) have "first_from (\<lambda>j. \<not> bs_bit ws j) n offset r"
  proof
    assume "r = n \<and> (\<forall>j. offset \<le> j \<and> j < 64 * n_words_of n \<longrightarrow> bs_bit ws j)"
    then show ?thesis using le by (auto simp: first_from_def)
  next
    assume *: "offset \<le> r \<and> r < 64 * n_words_of n \<and> \<not> bs_bit ws r \<and> (\<forall>j. offset \<le> j \<and> j < r \<longrightarrow> bs_bit ws j)"
    then have "r < n" using full by (meson not_le)
    with * show ?thesis by (simp add: first_from_def)
  qed
  with r(1) show ?thesis by blast
qed

lemma bitset_next_used_first:
  assumes wf: "bitset_wf ws n" and off: "offset < n"
  shows "\<exists>r. bitset_next_used ws n offset = Inr r \<and> first_from (bs_bit ws) n offset r"
proof -
  have len: "length ws = n_words_of n" and full: "\<And>j. n \<le> j \<Longrightarrow> j < 64 * n_words_of n \<Longrightarrow> bs_bit ws j"
    using wf by (auto simp: bitset_wf_iff)
  have "offset < 64 * n_words_of n" using off n_words_of_bounds(1) by (rule less_le_trans)
  from search_correct [where Q = "\<lambda>w k. bit w k" and ignore = "\<lambda>w p. w AND NOT (push_bit p 1 - 1)",
      OF finds_first_set ignored_set len this]
  obtain r where r: "bitset_next_used ws n offset = Inr r"
    "r = n \<and> (\<forall>j. offset \<le> j \<and> j < 64 * n_words_of n \<longrightarrow> \<not> bs_bit ws j) \<or>
     offset \<le> r \<and> r < 64 * n_words_of n \<and> bs_bit ws r \<and> (\<forall>j. offset \<le> j \<and> j < r \<longrightarrow> \<not> bs_bit ws j)"
    unfolding bitset_next_used_search bs_bit_def by auto
  note le = n_words_of_bounds(1) [of n]
  from r(2) have "first_from (bs_bit ws) n offset r"
  proof
    assume "r = n \<and> (\<forall>j. offset \<le> j \<and> j < 64 * n_words_of n \<longrightarrow> \<not> bs_bit ws j)"
    then show ?thesis using le by (auto simp: first_from_def)
  next
    assume *: "offset \<le> r \<and> r < 64 * n_words_of n \<and> bs_bit ws r \<and> (\<forall>j. offset \<le> j \<and> j < r \<longrightarrow> \<not> bs_bit ws j)"
    have "r \<le> n"
    proof (rule ccontr)
      assume "\<not> r \<le> n"
      then show False using * full [of n] off by simp
    qed
    with * show ?thesis by (auto simp: first_from_def)
  qed
  with r(1) show ?thesis by blast
qed

subsection \<open>Setting and clearing ranges\<close>

text \<open>
  A change of a word under a mask: \<open>now\<close> is what the bits of the mask must be, \<open>later\<close> what they
  become. Setting is \<open>changes set_masked False True\<close>.
\<close>

definition changes :: "word_change \<Rightarrow> bool \<Rightarrow> bool \<Rightarrow> bool" where
  "changes masked now later \<longleftrightarrow> (\<forall>ws i msk. i < length ws \<longrightarrow>
     (\<forall>k<64. bit msk k \<longrightarrow> bs_bit ws (64 * i + k) = now) \<longrightarrow>
     (\<exists>ws'. masked ws i msk = Inr ws' \<and> length ws' = length ws \<and>
        (\<forall>j. bs_bit ws' j = (if j div 64 = i \<and> bit msk (j mod 64) then later else bs_bit ws j))))"

lemma changesD:
  assumes "changes masked now later" and "i < length ws"
    and "\<And>k. k < 64 \<Longrightarrow> bit msk k \<Longrightarrow> bs_bit ws (64 * i + k) = now"
  obtains ws' where "masked ws i msk = Inr ws'" "length ws' = length ws"
    "\<And>j. bs_bit ws' j = (if j div 64 = i \<and> bit msk (j mod 64) then later else bs_bit ws j)"
  using assms unfolding changes_def by blast

lemma changes_set: "changes set_masked False True"
  unfolding changes_def
proof (intro allI impI)
  fix ws :: bitset and i and msk :: u64
  assume i: "i < length ws" and now: "\<forall>k<64. bit msk k \<longrightarrow> bs_bit ws (64 * i + k) = False"
  have "ws ! i AND msk = 0"
    by (rule bit_word_eqI) (use now in \<open>auto simp: bit_and_iff bs_bit_word\<close>)
  then show "\<exists>ws'. set_masked ws i msk = Inr ws' \<and> length ws' = length ws \<and>
      (\<forall>j. bs_bit ws' j = (if j div 64 = i \<and> bit msk (j mod 64) then True else bs_bit ws j))"
    using i by (intro exI [of _ "ws[i := ws ! i OR msk]"])
      (auto simp: set_masked_def read_word_def bs_bit_update bit_or_iff, auto simp: bs_bit_def)
qed

lemma changes_clear: "changes clear_masked True False"
  unfolding changes_def
proof (intro allI impI)
  fix ws :: bitset and i and msk :: u64
  assume i: "i < length ws" and now: "\<forall>k<64. bit msk k \<longrightarrow> bs_bit ws (64 * i + k) = True"
  have "ws ! i AND msk = msk"
    by (rule bit_word_eqI) (use now in \<open>auto simp: bit_and_iff bs_bit_word\<close>)
  then show "\<exists>ws'. clear_masked ws i msk = Inr ws' \<and> length ws' = length ws \<and>
      (\<forall>j. bs_bit ws' j = (if j div 64 = i \<and> bit msk (j mod 64) then False else bs_bit ws j))"
    using i by (intro exI [of _ "ws[i := ws ! i AND NOT msk]"])
      (auto simp: clear_masked_def read_word_def bs_bit_update bit_and_iff bit_not_iff,
        auto simp: bs_bit_def)
qed

lemma set_full_masked: "set_full ws i = set_masked ws i (NOT 0)"
  by (simp add: set_full_def set_masked_def Let_def)

lemma clear_full_changes:
  "i < length ws \<Longrightarrow> \<exists>ws'. clear_full ws i = Inr ws' \<and> length ws' = length ws \<and>
     (\<forall>j. bs_bit ws' j = (if j div 64 = i then False else bs_bit ws j))"
  by (intro exI [of _ "ws[i := 0]"]) (auto simp: clear_full_def read_word_def bs_bit_update)

definition fills :: "(bitset \<Rightarrow> nat \<Rightarrow> bitset outcome) \<Rightarrow> bool \<Rightarrow> bool \<Rightarrow> bool" where
  "fills full now later \<longleftrightarrow> (\<forall>ws i. i < length ws \<longrightarrow>
     (\<forall>k<64. bs_bit ws (64 * i + k) = now) \<longrightarrow>
     (\<exists>ws'. full ws i = Inr ws' \<and> length ws' = length ws \<and>
        (\<forall>j. bs_bit ws' j = (if j div 64 = i then later else bs_bit ws j))))"

lemma fillsD:
  assumes "fills full now later" and "i < length ws"
    and "\<And>k. k < 64 \<Longrightarrow> bs_bit ws (64 * i + k) = now"
  obtains ws' where "full ws i = Inr ws'" "length ws' = length ws"
    "\<And>j. bs_bit ws' j = (if j div 64 = i then later else bs_bit ws j)"
  using assms unfolding fills_def by blast

lemma word_index_iff: "j div 64 = i \<longleftrightarrow> 64 * i \<le> j \<and> j < 64 * Suc i" for i j :: nat
proof
  assume i: "j div 64 = i"
  define m where "m = j mod 64"
  have "j = 64 * i + m" unfolding m_def i [symmetric] by simp
  moreover have "m < 64" by (simp add: m_def)
  ultimately show "64 * i \<le> j \<and> j < 64 * Suc i" by simp
next
  assume "64 * i \<le> j \<and> j < 64 * Suc i"
  then show "j div 64 = i" using position_between(1) [of i j 64] by simp
qed

lemma fills_set: "fills set_full False True"
  unfolding fills_def
proof (intro allI impI)
  fix ws :: bitset and i
  assume i: "i < length ws" and now: "\<forall>k<64. bs_bit ws (64 * i + k) = False"
  obtain ws' where "set_masked ws i (NOT 0) = Inr ws'" "length ws' = length ws"
    "\<And>j. bs_bit ws' j = (if j div 64 = i \<and> bit (NOT 0 :: u64) (j mod 64) then True else bs_bit ws j)"
    by (rule changesD [OF changes_set i, where msk = "NOT 0"]) (use now in auto)
  then show "\<exists>ws'. set_full ws i = Inr ws' \<and> length ws' = length ws \<and>
      (\<forall>j. bs_bit ws' j = (if j div 64 = i then True else bs_bit ws j))"
    unfolding set_full_masked by (auto simp: bit_not_iff)
qed

lemma fills_clear: "fills clear_full True False"
  unfolding fills_def using clear_full_changes by blast

lemma for_words_correct:
  assumes "fills full now later"
  shows "last_word \<le> length ws \<Longrightarrow> (\<And>j. 64 * i \<le> j \<Longrightarrow> j < 64 * last_word \<Longrightarrow> bs_bit ws j = now) \<Longrightarrow>
    \<exists>ws'. for_words full last_word ws i = Inr ws' \<and> length ws' = length ws \<and>
      (\<forall>j. bs_bit ws' j = (if 64 * i \<le> j \<and> j < 64 * last_word then later else bs_bit ws j))"
proof (induction "last_word - i" arbitrary: i ws)
  case 0
  then show ?case by (subst for_words.simps) auto
next
  case (Suc d)
  then have i: "i < last_word" "i < length ws" by simp_all
  have now: "bs_bit ws (64 * i + k) = now" if "k < 64" for k
    using Suc.prems(2) [of "64 * i + k"] that i(1) by simp
  obtain ws1 where ws1: "full ws i = Inr ws1" "length ws1 = length ws"
    "\<And>j. bs_bit ws1 j = (if j div 64 = i then later else bs_bit ws j)"
    by (rule fillsD [OF assms i(2) now]) (assumption, rule that)
  have "\<exists>ws'. for_words full last_word ws1 (Suc i) = Inr ws' \<and> length ws' = length ws1 \<and>
      (\<forall>j. bs_bit ws' j = (if 64 * Suc i \<le> j \<and> j < 64 * last_word then later else bs_bit ws1 j))"
  proof (rule Suc.hyps(1))
    show "bs_bit ws1 j = now" if "64 * Suc i \<le> j" "j < 64 * last_word" for j
    proof -
      have "Suc i \<le> j div 64" using div_le_mono [OF that(1), of 64] by simp
      then show ?thesis using Suc.prems(2) [of j] that ws1(3) by simp
    qed
  qed (use Suc ws1(2) in auto)
  then obtain ws' where ws': "for_words full last_word ws1 (Suc i) = Inr ws'" "length ws' = length ws1"
    "\<And>j. bs_bit ws' j = (if 64 * Suc i \<le> j \<and> j < 64 * last_word then later else bs_bit ws1 j)"
    by blast
  have "for_words full last_word ws i = Inr ws'"
    using ws'(1) ws1(1) i(1) by (subst for_words.simps) simp
  moreover have "length ws' = length ws" using ws'(2) ws1(2) by simp
  moreover have "bs_bit ws' j = (if 64 * i \<le> j \<and> j < 64 * last_word then later else bs_bit ws j)" for j
  proof (cases "j div 64 = i")
    case True
    then have "64 * i \<le> j \<and> j < 64 * last_word" "\<not> 64 * Suc i \<le> j"
      using i(1) unfolding word_index_iff by simp_all
    then show ?thesis using True ws1(3) [of j] ws'(3) [of j] by simp
  next
    case False
    then have "64 * Suc i \<le> j \<longleftrightarrow> 64 * i \<le> j" unfolding word_index_iff by auto
    then show ?thesis using False ws1(3) [of j] ws'(3) [of j] by simp
  qed
  ultimately show ?case by blast
qed

text \<open>The masks of the first and of the last word.\<close>

lemma bit_high_mask: "p < 64 \<Longrightarrow> bit (- (2 ^ p) :: u64) j \<longleftrightarrow> p \<le> j \<and> j < 64"
  by (auto simp: minus_exp_eq_not_mask bit_not_iff bit_mask_iff)

lemma bit_first_mask:
  "p < 64 \<Longrightarrow> k < 64 \<Longrightarrow>
   bit (first_mask p q same) k \<longleftrightarrow> p \<le> k \<and> (same \<and> q \<noteq> 0 \<longrightarrow> k < q)"
  by (auto simp: first_mask_def Let_def bit_and_iff bit_high_mask bit_low_mask)

lemma change_range_correct:
  assumes masked: "changes masked now later" and full: "fills full now later"
    and range: "offset < stop" "stop \<le> 64 * length ws"
    and now: "\<And>j. offset \<le> j \<Longrightarrow> j < stop \<Longrightarrow> bs_bit ws j = now"
  shows "\<exists>ws'. change_range masked full ws offset stop = Inr ws' \<and> length ws' = length ws \<and>
    (\<forall>j. bs_bit ws' j = (if offset \<le> j \<and> j < stop then later else bs_bit ws j))"
proof -
  let ?f = "offset div 64" and ?p = "offset mod 64" and ?l = "stop div 64" and ?q = "stop mod 64"
  have offset: "offset = 64 * ?f + ?p" and stop: "stop = 64 * ?l + ?q" by simp_all
  have pq: "?p < 64" "?q < 64" by simp_all
  have fl: "?f \<le> ?l" using range(1) by (simp add: div_le_mono)
  have f: "?f < length ws" using word_index_less [of offset "length ws"] range by simp
  have l: "?l \<le> length ws" using div_le_mono [OF range(2), of 64] by simp
  let ?same = "?f = ?l" and ?s = "?f + of_bool (?p \<noteq> 0)"
  have "\<exists>ws1. (if ?p \<noteq> 0 then masked ws ?f (first_mask ?p ?q ?same) else Inr ws) = Inr ws1 \<and>
      length ws1 = length ws \<and>
      (\<forall>j. bs_bit ws1 j = (if offset \<le> j \<and> j < min stop (64 * ?s) then later else bs_bit ws j))"
  proof (cases "?p = 0")
    case True
    then show ?thesis using offset by auto
  next
    case False
    have inside: "offset \<le> 64 * ?f + k \<and> 64 * ?f + k < stop"
      if "k < 64" "bit (first_mask ?p ?q ?same) k" for k
    proof -
      have k: "?p \<le> k" "?same \<and> ?q \<noteq> 0 \<longrightarrow> k < ?q" using that by (simp_all add: bit_first_mask)
      have "64 * ?f + k < stop"
      proof (cases "?same")
        case True
        then have "?q \<noteq> 0" using range(1) offset stop by linarith
        then show ?thesis using k(2) True stop by linarith
      next
        case False
        then have "?f + 1 \<le> ?l" using fl by linarith
        then show ?thesis using that(1) stop by linarith
      qed
      then show ?thesis using k(1) offset by linarith
    qed
    obtain ws1 where ws1: "masked ws ?f (first_mask ?p ?q ?same) = Inr ws1" "length ws1 = length ws"
      "\<And>j. bs_bit ws1 j = (if j div 64 = ?f \<and> bit (first_mask ?p ?q ?same) (j mod 64)
        then later else bs_bit ws j)"
    proof (rule changesD [OF masked f, where msk = "first_mask ?p ?q ?same"])
      show "bs_bit ws (64 * ?f + k) = now" if "k < 64" "bit (first_mask ?p ?q ?same) k" for k
        using now inside [OF that] by blast
    qed (rule that)
    have "j div 64 = ?f \<and> bit (first_mask ?p ?q ?same) (j mod 64) \<longleftrightarrow>
        offset \<le> j \<and> j < min stop (64 * ?s)" for j
    proof (cases "j div 64 = ?f")
      case True
      then have j: "j = 64 * ?f + j mod 64" using div_mult_mod_eq [of j 64] by simp
      have m: "j mod 64 < 64" by simp
      have "bit (first_mask ?p ?q ?same) (j mod 64) \<longleftrightarrow> offset \<le> j \<and> j < stop"
      proof
        assume "bit (first_mask ?p ?q ?same) (j mod 64)"
        from inside [OF m this] show "offset \<le> j \<and> j < stop" using j by simp
      next
        assume "offset \<le> j \<and> j < stop"
        then have "?p \<le> j mod 64" "?same \<longrightarrow> j mod 64 < ?q" using j offset stop by (linarith, metis nat_add_left_cancel_less)
        then show "bit (first_mask ?p ?q ?same) (j mod 64)" by (simp add: bit_first_mask)
      qed
      moreover have "j < 64 * ?s" using j m False by simp
      ultimately show ?thesis using True by simp
    next
      case no: False
      then have "\<not> (64 * ?f \<le> j \<and> j < 64 * Suc ?f)" unfolding word_index_iff .
      then show ?thesis using no False offset by auto
    qed
    then show ?thesis using ws1 False by auto
  qed
  then obtain ws1 where ws1:
    "(if ?p \<noteq> 0 then masked ws ?f (first_mask ?p ?q ?same) else Inr ws) = Inr ws1"
    "length ws1 = length ws"
    "\<And>j. bs_bit ws1 j = (if offset \<le> j \<and> j < min stop (64 * ?s) then later else bs_bit ws j)"
    by blast
  have s: "offset \<le> 64 * ?s" using offset pq(1) by (cases "?p = 0") auto
  have "\<exists>ws2. for_words full ?l ws1 ?s = Inr ws2 \<and> length ws2 = length ws1 \<and>
      (\<forall>j. bs_bit ws2 j = (if 64 * ?s \<le> j \<and> j < 64 * ?l then later else bs_bit ws1 j))"
  proof (rule for_words_correct [OF full])
    show "?l \<le> length ws1" using l ws1(2) by simp
    show "bs_bit ws1 j = now" if "64 * ?s \<le> j" "j < 64 * ?l" for j
      using now [of j] that s stop by (simp add: ws1(3))
  qed
  then obtain ws2 where ws2: "for_words full ?l ws1 ?s = Inr ws2" "length ws2 = length ws"
    "\<And>j. bs_bit ws2 j = (if 64 * ?s \<le> j \<and> j < 64 * ?l then later else bs_bit ws1 j)"
    using ws1(2) by auto
  have bit2: "bs_bit ws2 j = (if offset \<le> j \<and> j < max (min stop (64 * ?s)) (64 * ?l)
      then later else bs_bit ws j)" for j
    using ws1(3) [of j] ws2(3) [of j] s stop by (auto simp: not_le not_less)
  have run: "change_range masked full ws offset stop =
      (if ?q \<noteq> 0 \<and> \<not> (?same \<and> ?p \<noteq> 0) then masked ws2 ?l (push_bit ?q 1 - 1) else Inr ws2)"
    unfolding change_range_def Let_def BITSET_WORDSIZE_def ws1(1) and_then_simps ws2(1) ..
  show ?thesis
  proof (cases "?q \<noteq> 0 \<and> \<not> (?same \<and> ?p \<noteq> 0)")
    case False
    have "max (min stop (64 * ?s)) (64 * ?l) = stop"
    proof (cases "?q = 0")
      case True
      then have "stop = 64 * ?l" using stop by simp
      then show ?thesis by simp
    next
      case q: False
      then have "stop \<le> 64 * ?s" using False stop pq(2) by simp
      then show ?thesis using stop by simp
    qed
    moreover have "change_range masked full ws offset stop = Inr ws2"
      unfolding run using False by (simp only: if_False)
    ultimately show ?thesis using ws2(2) bit2 by auto
  next
    case True
    then have s_l: "?s \<le> ?l" using fl by (cases "?p = 0") auto
    have "0 < ?q" using True by simp
    then have "64 * ?l < stop" using stop by linarith
    then have l': "?l < length ws2" using range(2) ws2(2) by simp
    have upto: "max (min stop (64 * ?s)) (64 * ?l) = 64 * ?l" using s_l by simp
    obtain ws3 where ws3: "masked ws2 ?l (push_bit ?q 1 - 1) = Inr ws3" "length ws3 = length ws2"
      "\<And>j. bs_bit ws3 j = (if j div 64 = ?l \<and> bit (push_bit ?q 1 - 1 :: u64) (j mod 64)
        then later else bs_bit ws2 j)"
    proof (rule changesD [OF masked l', where msk = "push_bit ?q 1 - 1"])
      fix k assume k: "k < 64" "bit (push_bit ?q 1 - 1 :: u64) k"
      then have "k < ?q" by (simp add: bit_low_mask)
      then have "64 * ?l + k < stop" using stop by linarith
      moreover have "offset \<le> 64 * ?l + k" using le_trans [OF s mult_le_mono2 [OF s_l]] by simp
      ultimately show "bs_bit ws2 (64 * ?l + k) = now" using now bit2 [of "64 * ?l + k", unfolded upto] by simp
    qed (rule that)
    have last: "j div 64 = ?l \<and> bit (push_bit ?q 1 - 1 :: u64) (j mod 64) \<longleftrightarrow> 64 * ?l \<le> j \<and> j < stop" for j
    proof (cases "j div 64 = ?l")
      case True
      then have j: "j = 64 * ?l + j mod 64" using div_mult_mod_eq [of j 64] by simp
      have "j mod 64 < ?q \<longleftrightarrow> j < stop"
      proof
        assume "j mod 64 < ?q"
        then show "j < stop" using j stop by linarith
      next
        assume "j < stop"
        then show "j mod 64 < ?q" using j stop by linarith
      qed
      moreover have "64 * ?l \<le> j" using j by linarith
      ultimately show ?thesis using True by (simp add: bit_low_mask)
    next
      case False
      then have "\<not> (64 * ?l \<le> j \<and> j < 64 * Suc ?l)" unfolding word_index_iff .
      then show ?thesis using False stop pq(2) by auto
    qed
    have le: "offset \<le> 64 * ?l" by (rule le_trans [OF s mult_le_mono2 [OF s_l]])
    have "bs_bit ws3 j = (if offset \<le> j \<and> j < stop then later else bs_bit ws j)" for j
    proof (cases "64 * ?l \<le> j \<and> j < stop")
      case True
      then show ?thesis using ws3(3) [of j] le unfolding last by simp
    next
      case False
      then have "(offset \<le> j \<and> j < 64 * ?l) = (offset \<le> j \<and> j < stop)" using \<open>64 * ?l < stop\<close> by auto
      then show ?thesis using ws3(3) [of j] bit2 [of j] False unfolding last upto by simp
    qed
    moreover have "change_range masked full ws offset stop = Inr ws3"
      unfolding run ws3(1) by (rule if_P [OF True])
    ultimately show ?thesis using ws3(2) ws2(2) by auto
  qed
qed

lemma wrap32_id [simp]: "n < 2 ^ 32 \<Longrightarrow> wrap32 n = n"
  by (simp add: wrap32_def)

lemma bitset_set_range_correct:
  assumes wf: "bitset_wf ws n" and "0 < len" and "offset + len \<le> n"
    and "\<And>j. offset \<le> j \<Longrightarrow> j < offset + len \<Longrightarrow> \<not> bs_bit ws j"
  shows "\<exists>ws'. bitset_set_range ws n offset len = Inr ws' \<and> bitset_wf ws' n \<and>
    (\<forall>j. bs_bit ws' j \<longleftrightarrow> offset \<le> j \<and> j < offset + len \<or> bs_bit ws j)"
proof -
  have n: "n < 2 ^ 32" "n \<le> 64 * length ws" using wf n_words_of_bounds(1) [of n] by (auto simp: bitset_wf_iff)
  have "\<exists>ws'. change_range set_masked set_full ws offset (offset + len) = Inr ws' \<and>
      length ws' = length ws \<and>
      (\<forall>j. bs_bit ws' j = (if offset \<le> j \<and> j < offset + len then True else bs_bit ws j))"
    by (rule change_range_correct [OF changes_set fills_set]) (use assms n in auto)
  then obtain ws' where ws': "change_range set_masked set_full ws offset (offset + len) = Inr ws'"
    "length ws' = length ws"
    "\<And>j. bs_bit ws' j = (if offset \<le> j \<and> j < offset + len then True else bs_bit ws j)" by blast
  have "bitset_set_range ws n offset len = Inr ws'"
    using assms(2,3) n(1) ws'(1) by (simp add: bitset_set_range_def range_asserts_def)
  moreover have "bitset_wf ws' n" using wf ws'(2,3) assms(3) by (simp add: bitset_wf_iff)
  ultimately show ?thesis using ws'(3) by auto
qed

lemma bitset_clear_range_correct:
  assumes wf: "bitset_wf ws n" and "0 < len" and "offset + len \<le> n"
    and "\<And>j. offset \<le> j \<Longrightarrow> j < offset + len \<Longrightarrow> bs_bit ws j"
  shows "\<exists>ws'. bitset_clear_range ws n offset len = Inr ws' \<and> bitset_wf ws' n \<and>
    (\<forall>j. bs_bit ws' j \<longleftrightarrow> \<not> (offset \<le> j \<and> j < offset + len) \<and> bs_bit ws j)"
proof -
  have n: "n < 2 ^ 32" "n \<le> 64 * length ws" using wf n_words_of_bounds(1) [of n] by (auto simp: bitset_wf_iff)
  have "\<exists>ws'. change_range clear_masked clear_full ws offset (offset + len) = Inr ws' \<and>
      length ws' = length ws \<and>
      (\<forall>j. bs_bit ws' j = (if offset \<le> j \<and> j < offset + len then False else bs_bit ws j))"
    by (rule change_range_correct [OF changes_clear fills_clear]) (use assms n in auto)
  then obtain ws' where ws': "change_range clear_masked clear_full ws offset (offset + len) = Inr ws'"
    "length ws' = length ws"
    "\<And>j. bs_bit ws' j = (if offset \<le> j \<and> j < offset + len then False else bs_bit ws j)" by blast
  have "bitset_clear_range ws n offset len = Inr ws'"
    using assms(2,3) n(1) ws'(1) by (simp add: bitset_clear_range_def range_asserts_def)
  moreover have "bitset_wf ws' n" using wf ws'(2,3) assms(3) by (simp add: bitset_wf_iff)
  ultimately show ?thesis using ws'(3) by auto
qed

lemma position_eqI: "j div 64 = i div 64 \<Longrightarrow> j mod 64 = i mod 64 \<Longrightarrow> j = (i :: nat)"
  by (metis div_mult_mod_eq)

lemma single_bit: "bit (push_bit p 1 :: u64) k \<longleftrightarrow> k = p \<and> p < 64"
  by (auto simp: bit_exp_iff)

lemma bitset_set_correct:
  assumes wf: "bitset_wf ws n" and pos: "pos < n"
  shows "\<exists>ws'. bitset_set ws n pos = Inr ws' \<and> bitset_wf ws' n \<and>
    (\<forall>j. bs_bit ws' j \<longleftrightarrow> j = pos \<or> bs_bit ws j)"
proof -
  have i: "pos div 64 < length ws"
    using wf pos n_words_of_bounds(1) [of n] word_index_less [of pos "length ws"] by (simp add: bitset_wf_iff)
  let ?ws = "ws[pos div 64 := ws ! (pos div 64) OR push_bit (pos mod 64) 1]"
  have run: "bitset_set ws n pos = Inr ?ws"
    using pos i by (simp add: bitset_set_def read_word_def Let_def)
  have bits: "bs_bit ?ws j \<longleftrightarrow> j = pos \<or> bs_bit ws j" for j
    using i single_bit [of "pos mod 64" "j mod 64"] position_eqI [of j pos]
    by (auto simp: bs_bit_update bit_or_iff) (auto simp: bs_bit_def)
  then have "bitset_wf ?ws n" using wf by (simp add: bitset_wf_iff)
  with run bits show ?thesis by blast
qed

lemma bitset_clear_correct:
  assumes wf: "bitset_wf ws n" and pos: "pos < n"
  shows "\<exists>ws'. bitset_clear ws n pos = Inr ws' \<and> bitset_wf ws' n \<and>
    (\<forall>j. bs_bit ws' j \<longleftrightarrow> j \<noteq> pos \<and> bs_bit ws j)"
proof -
  have i: "pos div 64 < length ws"
    using wf pos n_words_of_bounds(1) [of n] word_index_less [of pos "length ws"] by (simp add: bitset_wf_iff)
  let ?ws = "ws[pos div 64 := ws ! (pos div 64) AND NOT (push_bit (pos mod 64) 1)]"
  have run: "bitset_clear ws n pos = Inr ?ws"
    using pos i by (simp add: bitset_clear_def read_word_def Let_def)
  have bits: "bs_bit ?ws j \<longleftrightarrow> j \<noteq> pos \<and> bs_bit ws j" for j
    using i single_bit [of "pos mod 64" "j mod 64"] position_eqI [of j pos]
    by (auto simp: bs_bit_update bit_and_iff bit_not_iff) (auto simp: bs_bit_def)
  then have "bitset_wf ?ws n" using wf pos by (simp add: bitset_wf_iff)
  with run bits show ?thesis by blast
qed

subsection \<open>Searching for a range\<close>

text \<open>A free range of a length; what a first-fit search returns.\<close>

definition free_range :: "(nat \<Rightarrow> bool) \<Rightarrow> nat \<Rightarrow> nat \<Rightarrow> nat \<Rightarrow> bool" where
  "free_range used n len p \<longleftrightarrow> p + len \<le> n \<and> (\<forall>j. p \<le> j \<and> j < p + len \<longrightarrow> \<not> used j)"

definition first_fit :: "(nat \<Rightarrow> bool) \<Rightarrow> nat \<Rightarrow> nat \<Rightarrow> nat \<Rightarrow> bool" where
  "first_fit used n len p \<longleftrightarrow>
     (if p < n then free_range used n len p \<and> (\<forall>i<p. \<not> free_range used n len i)
      else p = n \<and> (\<forall>i. \<not> free_range used n len i))"

lemma find_range_loop_correct:
  assumes wf: "bitset_wf ws n" and len: "0 < len"
  shows "n - pos < fuel \<Longrightarrow> pos = n \<or> pos < n \<and> \<not> bs_bit ws pos \<Longrightarrow>
    (\<forall>i<pos. \<not> free_range (bs_bit ws) n len i) \<Longrightarrow>
    \<exists>p ws'. find_range_loop fuel ws n len pos = Inr (Some (p, ws')) \<and>
      first_fit (bs_bit ws) n len p \<and> bitset_wf ws' n \<and>
      (\<forall>j. bs_bit ws' j \<longleftrightarrow> bs_bit ws j \<or> p < n \<and> p \<le> j \<and> j < p + len)"
proof (induction fuel arbitrary: pos)
  case (Suc fuel)
  show ?case
  proof (cases "pos < n")
    case False
    then have "pos = n" using Suc.prems(2) by simp
    moreover have "\<not> free_range (bs_bit ws) n len i" for i
      using Suc.prems(3) len \<open>pos = n\<close> by (cases "i < n") (auto simp: free_range_def)
    ultimately show ?thesis using wf by (auto simp: first_fit_def)
  next
    case True
    then have free: "\<not> bs_bit ws pos" using Suc.prems(2) by simp
    obtain u where u: "bitset_next_used ws n pos = Inr u" "first_from (bs_bit ws) n pos u"
      using bitset_next_used_first [OF wf True] by blast
    have gap: "pos < u" "u \<le> n" "\<And>j. pos \<le> j \<Longrightarrow> j < u \<Longrightarrow> \<not> bs_bit ws j"
      using u(2) True free by (auto simp: first_from_def)
    show ?thesis
    proof (cases "len \<le> u - pos")
      case fits: True
      have "pos + len \<le> n" using fits gap(1,2) by linarith
      moreover have "\<not> bs_bit ws j" if "pos \<le> j" "j < pos + len" for j
        using gap(3) [of j] that fits gap(1) by simp
      ultimately obtain ws' where ws': "bitset_set_range ws n pos len = Inr ws'" "bitset_wf ws' n"
        "\<And>j. bs_bit ws' j \<longleftrightarrow> pos \<le> j \<and> j < pos + len \<or> bs_bit ws j"
        using bitset_set_range_correct [OF wf len, of pos] by blast
      have "free_range (bs_bit ws) n len pos" using gap fits by (auto simp: free_range_def)
      then have "first_fit (bs_bit ws) n len pos" using True Suc.prems(3) by (simp add: first_fit_def)
      then show ?thesis using True fits u(1) ws' by auto
    next
      case False
      have none: "\<not> free_range (bs_bit ws) n len i" if "pos \<le> i" "i \<le> u" for i
      proof (cases "u < n \<and> i < u \<or> u = n")
        case True
        then show ?thesis
        proof
          assume "u = n"
          then show ?thesis using False that by (auto simp: free_range_def)
        next
          assume *: "u < n \<and> i < u"
          then have "bs_bit ws u" using u(2) by (auto simp: first_from_def)
          moreover have "i \<le> u \<and> u < i + len" using * False that by linarith
          ultimately show ?thesis by (auto simp: free_range_def)
        qed
      next
        case no: False
        then have "i = u" "u < n" using that gap(2) by auto
        then have "bs_bit ws i" using u(2) by (auto simp: first_from_def)
        then show ?thesis using len by (auto simp: free_range_def)
      qed
      obtain f where f: "bitset_next_free ws n u = Inr f" "f = n \<or> f < n \<and> \<not> bs_bit ws f" "u \<le> f"
        "\<And>j. u \<le> j \<Longrightarrow> j < f \<Longrightarrow> bs_bit ws j"
      proof (cases "u < n")
        case True
        from bitset_next_free_first [OF wf this] that show thesis
          using True by (auto simp: first_from_def)
      next
        case no: False
        then show thesis using gap(2) by (intro that [of n]) (simp_all add: bitset_next_free_def)
      qed
      have below: "\<forall>i<f. \<not> free_range (bs_bit ws) n len i"
      proof (intro allI impI)
        fix i assume "i < f"
        consider "i < pos" | "pos \<le> i" "i \<le> u" | "u < i" by linarith
        then show "\<not> free_range (bs_bit ws) n len i"
        proof cases
          case 3
          then have "bs_bit ws i" using f(4) \<open>i < f\<close> by simp
          then show ?thesis using len by (auto simp: free_range_def)
        qed (use Suc.prems(3) none in auto)
      qed
      have "find_range_loop (Suc fuel) ws n len pos = find_range_loop fuel ws n len f"
        using True False u(1) f(1) gap(1) by (simp add: Let_def)
      moreover have "n - f < fuel" using Suc.prems(1) gap(1) f(3) True by linarith
      ultimately show ?thesis using Suc.IH [of f] f(2) below by simp
    qed
  qed
qed simp

lemma bitset_find_and_set_range_correct:
  assumes wf: "bitset_wf ws n" and len: "0 < len"
  shows "\<exists>p ws'. bitset_find_and_set_range ws n len = Inr (Some (p, ws')) \<and>
    first_fit (bs_bit ws) n len p \<and> bitset_wf ws' n \<and>
    (\<forall>j. bs_bit ws' j \<longleftrightarrow> bs_bit ws j \<or> p < n \<and> p \<le> j \<and> j < p + len)"
proof -
  obtain f where f: "bitset_next_free ws n 0 = Inr f" "f = n \<or> f < n \<and> \<not> bs_bit ws f"
    "\<And>j. j < f \<Longrightarrow> bs_bit ws j"
  proof (cases "0 < n")
    case True
    from bitset_next_free_first [OF wf this] that show thesis by (auto simp: first_from_def)
  next
    case False
    then show thesis by (intro that [of n]) (simp_all add: bitset_next_free_def)
  qed
  have "\<forall>i<f. \<not> free_range (bs_bit ws) n len i" using f(3) len by (auto simp: free_range_def)
  then show ?thesis
    using find_range_loop_correct [OF wf len, of f "n + 1"] f(1,2)
    by (simp add: bitset_find_and_set_range_def)
qed

lemma first_fit_one:
  "first_from (\<lambda>j. \<not> used j) n 0 p \<Longrightarrow> first_fit used n 1 p"
  unfolding first_from_def first_fit_def free_range_def
  by (cases "p < n") (auto simp: less_Suc_eq Suc_le_eq intro: Suc_leI)

lemma bitset_find_and_set_correct:
  assumes wf: "bitset_wf ws n"
  shows "\<exists>p ws'. bitset_find_and_set ws n = Inr (p, ws') \<and> first_fit (bs_bit ws) n 1 p \<and>
    bitset_wf ws' n \<and> (\<forall>j. bs_bit ws' j \<longleftrightarrow> bs_bit ws j \<or> p < n \<and> j = p)"
proof -
  obtain f where f: "bitset_next_free ws n 0 = Inr f" "first_from (\<lambda>j. \<not> bs_bit ws j) n 0 f"
  proof (cases "0 < n")
    case True
    with bitset_next_free_first [OF wf] that show thesis by blast
  next
    case False
    then show thesis by (intro that [of n]) (simp_all add: bitset_next_free_def first_from_def)
  qed
  show ?thesis
  proof (cases "f < n")
    case True
    with bitset_set_correct [OF wf True] f first_fit_one [OF f(2)] show ?thesis
      by (auto simp: bitset_find_and_set_def)
  next
    case False
    with f wf first_fit_one [OF f(2)] show ?thesis by (auto simp: bitset_find_and_set_def)
  qed
qed

lemma first_fit_free:
  "first_fit used n len p \<Longrightarrow> p < n \<Longrightarrow> p + len \<le> n \<and> (\<forall>j. p \<le> j \<and> j < p + len \<longrightarrow> \<not> used j)"
  by (simp add: first_fit_def free_range_def)

subsection \<open>Properties\<close>

text \<open>
  C11: the search for a free range is first fit, complete and exact: on every well-formed bitset
  \<^verbatim>\<open>bitset_find_and_set_range\<close> ends within the fuel, returns the lowest position at which that
  many consecutive bits are free (or the number of members if there is none) and sets exactly
  these bits; \<^verbatim>\<open>bitset_find_and_set\<close> does the same for one bit. No assertion fails and no word
  outside the array is touched.
\<close>

theorem bitset_first_fit:
  assumes "bitset_wf ws n" and "0 < len"
  shows "(\<exists>p ws'. bitset_find_and_set_range ws n len = Inr (Some (p, ws')) \<and>
      first_fit (bs_bit ws) n len p \<and> bitset_wf ws' n \<and>
      (\<forall>j. bs_bit ws' j \<longleftrightarrow> bs_bit ws j \<or> p < n \<and> p \<le> j \<and> j < p + len)) \<and>
    (\<exists>p ws'. bitset_find_and_set ws n = Inr (p, ws') \<and> first_fit (bs_bit ws) n 1 p \<and>
      bitset_wf ws' n \<and> (\<forall>j. bs_bit ws' j \<longleftrightarrow> bs_bit ws j \<or> p < n \<and> j = p))"
  using bitset_find_and_set_range_correct [OF assms] bitset_find_and_set_correct [OF assms(1)] ..

lemma example_bitset_wf: "bitset_wf [- 15] 4"
  by (simp add: bitset_wf_def n_words_of_def bs_bit_def upt_rec)

lemma bitset_first_fit_witness:
  "\<exists>p ws'. bitset_find_and_set_range [- 15] 4 2 = Inr (Some (p, ws')) \<and>
     first_fit (bs_bit [- 15]) 4 2 p"
  using bitset_first_fit [OF example_bitset_wf, of 2] by auto

text \<open>
  C34: setting a range of free bits and clearing it again gives back the same members, whatever
  the position of the range within the words: the range may lie inside a word, start or end at a
  word boundary, or span whole words.
\<close>

theorem bitset_range_roundtrip:
  assumes "bitset_wf ws n" and "0 < len" and "free_range (bs_bit ws) n len offset"
  shows "\<exists>ws1 ws2. bitset_set_range ws n offset len = Inr ws1 \<and>
    bitset_clear_range ws1 n offset len = Inr ws2 \<and> bitset_wf ws1 n \<and> bitset_wf ws2 n \<and>
    (\<forall>j. bs_bit ws1 j \<longleftrightarrow> offset \<le> j \<and> j < offset + len \<or> bs_bit ws j) \<and>
    (\<forall>j. bs_bit ws2 j \<longleftrightarrow> bs_bit ws j)"
proof -
  have range: "offset + len \<le> n" "\<And>j. offset \<le> j \<Longrightarrow> j < offset + len \<Longrightarrow> \<not> bs_bit ws j"
    using assms(3) by (auto simp: free_range_def)
  obtain ws1 where ws1: "bitset_set_range ws n offset len = Inr ws1" "bitset_wf ws1 n"
    "\<And>j. bs_bit ws1 j \<longleftrightarrow> offset \<le> j \<and> j < offset + len \<or> bs_bit ws j"
    using bitset_set_range_correct [OF assms(1,2) range] by blast
  obtain ws2 where ws2: "bitset_clear_range ws1 n offset len = Inr ws2" "bitset_wf ws2 n"
    "\<And>j. bs_bit ws2 j \<longleftrightarrow> \<not> (offset \<le> j \<and> j < offset + len) \<and> bs_bit ws1 j"
    using bitset_clear_range_correct [OF ws1(2) assms(2) range(1)] ws1(3) by blast
  have "bs_bit ws2 j \<longleftrightarrow> bs_bit ws j" for j using ws2(3) ws1(3) range(2) by blast
  with ws1 ws2 show ?thesis by blast
qed

lemma bitset_range_roundtrip_witness:
  "\<exists>ws1 ws2. bitset_set_range [- 15] 4 1 2 = Inr ws1 \<and> bitset_clear_range ws1 4 1 2 = Inr ws2 \<and>
     (\<forall>j. bs_bit ws2 j \<longleftrightarrow> bs_bit [- 15] j)"
proof -
  have "free_range (bs_bit [- 15]) 4 2 1"
    by (auto simp: free_range_def bs_bit_def less_Suc_eq numeral_3_eq_3)
  from bitset_range_roundtrip [OF example_bitset_wf _ this] show ?thesis by auto
qed

end
