(* ===== verification/Allocator.thy ===== *)
theory Allocator
  imports Bitset
begin

section \<open>The paged memory allocator\<close>

text \<open>
  The model of \<^verbatim>\<open>src/utils/memory/SCOREP_Allocator.c\<close> with \<^verbatim>\<open>scorep_page.h\<close> and
  \<^verbatim>\<open>scorep_allocator.h\<close>. An allocator owns a block of memory that is divided into pages of a
  power-of-two size; the page bitset says which pages are in use. Its own objects (page
  descriptors, page managers) come from a pool of union objects in the maintenance pages. A page
  manager owns pages and hands out memory from them.

  Addresses are natural numbers, \<^verbatim>\<open>uint32_t\<close> sums, differences and shifts that can wrap are
  written with \<open>wrap32\<close>. The free union objects are the list of their addresses; the pages of a
  manager are a list in the order of the \<^verbatim>\<open>next\<close> pointers, each with the address of the union
  object that holds its descriptor. \<^verbatim>\<open>SCOREP_ALLOCATOR_ALIGNMENT\<close>, the larger of the sizes of a
  pointer and of a \<^verbatim>\<open>double\<close>, is 8. The operations are called while the allocator's lock is held, so the model has
  them as atomic steps; the lock functions themselves are parameters of the program and are left
  out. Of the contents of the memory only the page id mapping of a moved page manager matters.
\<close>

subsection \<open>Pages (\<^verbatim>\<open>scorep_page.h\<close>)\<close>

record alloc_page =
  page_object :: nat           \<comment> \<open>address of the descriptor\<close>
  memory_start_address :: nat
  memory_end_address :: nat
  memory_current_address :: nat
  memory_alignment_loss :: nat

record allocator =
  base :: nat                  \<comment> \<open>the address of the allocator object\<close>
  allocated_memory :: nat
  page_shift :: nat
  n_pages_bits :: nat
  n_pages_capacity :: nat
  n_pages_maintenance :: nat
  n_pages_high_watermark :: nat
  n_pages_allocated :: nat
  page_bitset :: bitset
  free_objects :: "nat list"

record page_manager =
  manager_object :: nat
  pages_in_use_list :: "alloc_page list"
  moved_page_id_mapping_page :: "(alloc_page \<times> nat list) option"  \<comment> \<open>with its contents\<close>
  last_allocation :: nat

definition SCOREP_ALLOCATOR_ALIGNMENT :: nat where
  "SCOREP_ALLOCATOR_ALIGNMENT = 8"

text \<open>\<^verbatim>\<open>roundupto\<close> computes in \<^verbatim>\<open>intptr_t\<close>.\<close>

definition roundupto :: "int \<Rightarrow> int \<Rightarrow> int" where
  "roundupto x to = (x + (to - 1)) AND NOT (to - 1)"

definition page_size :: "allocator \<Rightarrow> nat" where
  "page_size a = wrap32 (2 ^ page_shift a)"

definition total_memory :: "allocator \<Rightarrow> nat" where
  "total_memory a = wrap32 (n_pages_capacity a * 2 ^ page_shift a)"

definition page_mask :: "allocator \<Rightarrow> nat" where
  "page_mask a = page_size a - 1"

definition get_page_id :: "allocator \<Rightarrow> alloc_page \<Rightarrow> nat" where
  "get_page_id a p = wrap32 ((memory_start_address p - base a) div 2 ^ page_shift a)"

definition get_order :: "allocator \<Rightarrow> nat \<Rightarrow> nat" where
  "get_order a len = len div 2 ^ page_shift a + of_bool (len AND page_mask a \<noteq> 0)"

definition set_page_order :: "allocator \<Rightarrow> alloc_page \<Rightarrow> nat \<Rightarrow> alloc_page" where
  "set_page_order a p order =
     p\<lparr>memory_end_address := memory_start_address p + wrap32 (order * 2 ^ page_shift a)\<rparr>"

definition set_page_usage :: "alloc_page \<Rightarrow> nat \<Rightarrow> alloc_page" where
  "set_page_usage p usage = p\<lparr>memory_current_address := memory_start_address p + usage\<rparr>"

definition init_page :: "allocator \<Rightarrow> nat \<Rightarrow> nat \<Rightarrow> nat \<Rightarrow> alloc_page" where
  "init_page a obj pid order =
     (let p = \<lparr>page_object = obj,
               memory_start_address = base a + wrap32 (pid * 2 ^ page_shift a),
               memory_end_address = 0, memory_current_address = 0, memory_alignment_loss = 0\<rparr>
      in set_page_order a (set_page_usage p 0) order)"

definition clear_page :: "allocator \<Rightarrow> alloc_page \<Rightarrow> alloc_page" where
  "clear_page a p = set_page_order a (set_page_usage p 0) 1"

definition get_page_length :: "alloc_page \<Rightarrow> nat" where
  "get_page_length p = wrap32 (memory_end_address p - memory_start_address p)"

definition get_page_order :: "allocator \<Rightarrow> alloc_page \<Rightarrow> nat" where
  "get_page_order a p = get_page_length p div 2 ^ page_shift a"

definition get_page_usage :: "alloc_page \<Rightarrow> nat" where
  "get_page_usage p = wrap32 (memory_current_address p - memory_start_address p)"

definition get_page_avail :: "alloc_page \<Rightarrow> nat" where
  "get_page_avail p = wrap32 (memory_end_address p - memory_current_address p)"

definition grab_page_memory :: "alloc_page \<Rightarrow> nat \<Rightarrow> nat \<Rightarrow> (nat \<times> alloc_page) option" where
  "grab_page_memory p requestedSize alignment =
     (let memory = roundupto (int (memory_current_address p)) (int alignment);
          avail = int (memory_end_address p) - memory
      in if avail < 0 \<or> int requestedSize > avail then None
         else Some (nat memory,
                p\<lparr>memory_alignment_loss :=
                     memory_alignment_loss p + nat (memory - int (memory_current_address p)),
                  memory_current_address := nat memory + requestedSize\<rparr>))"

subsection \<open>The allocator's own objects\<close>

text \<open>The smallest power of two that is greater or equal, computed by smearing the top bit.\<close>

definition npot :: "u32 \<Rightarrow> u32" where
  "npot v = (let v = v - 1; v = v OR drop_bit 1 v; v = v OR drop_bit 2 v; v = v OR drop_bit 4 v;
                 v = v OR drop_bit 8 v; v = v OR drop_bit 16 v
             in v + 1)"

text \<open>A page descriptor, the largest member of the union, has six words of eight bytes.\<close>

definition union_size :: nat where
  "union_size = unat (npot 48)"

definition track_update_high_watermark :: "allocator \<Rightarrow> allocator" where
  "track_update_high_watermark a =
     (if n_pages_allocated a > n_pages_high_watermark a
      then a\<lparr>n_pages_high_watermark := n_pages_allocated a\<rparr> else a)"

definition track_bitset_set_range :: "allocator \<Rightarrow> nat \<Rightarrow> nat \<Rightarrow> allocator outcome" where
  "track_bitset_set_range a offset len =
     and_then (bitset_set_range (page_bitset a) (n_pages_capacity a) offset len) (\<lambda>ws.
       Inr (track_update_high_watermark
              (a\<lparr>page_bitset := ws, n_pages_allocated := wrap32 (n_pages_allocated a + len)\<rparr>)))"

definition track_bitset_clear :: "allocator \<Rightarrow> nat \<Rightarrow> allocator outcome" where
  "track_bitset_clear a pos =
     and_then (bitset_clear (page_bitset a) (n_pages_capacity a) pos) (\<lambda>ws.
       Inr (a\<lparr>page_bitset := ws, n_pages_allocated := wrap32 (n_pages_allocated a + (2 ^ 32 - 1))\<rparr>))"

definition track_bitset_clear_range :: "allocator \<Rightarrow> nat \<Rightarrow> nat \<Rightarrow> allocator outcome" where
  "track_bitset_clear_range a offset len =
     and_then (bitset_clear_range (page_bitset a) (n_pages_capacity a) offset len) (\<lambda>ws.
       Inr (a\<lparr>page_bitset := ws, n_pages_allocated := wrap32 (n_pages_allocated a + (2 ^ 32 - len))\<rparr>))"

text \<open>The two searches count the pages before they know whether there are any.\<close>

definition track_bitset_find_and_set :: "allocator \<Rightarrow> (nat \<times> allocator) outcome" where
  "track_bitset_find_and_set a =
     (let a' = track_update_high_watermark (a\<lparr>n_pages_allocated := wrap32 (n_pages_allocated a + 1)\<rparr>)
      in and_then (bitset_find_and_set (page_bitset a') (n_pages_capacity a')) (\<lambda>(pos, ws).
         Inr (pos, a'\<lparr>page_bitset := ws\<rparr>)))"

text \<open>The fuel of the search never runs out; were it to, the outcome is a fault.\<close>

definition track_bitset_find_and_set_range :: "allocator \<Rightarrow> nat \<Rightarrow> (nat \<times> allocator) outcome" where
  "track_bitset_find_and_set_range a len =
     (let a' = track_update_high_watermark (a\<lparr>n_pages_allocated := wrap32 (n_pages_allocated a + len)\<rparr>)
      in and_then (bitset_find_and_set_range (page_bitset a') (n_pages_capacity a') len) (\<lambda>r.
         case r of None \<Rightarrow> Inl Abort | Some (pos, ws) \<Rightarrow> Inr (pos, a'\<lparr>page_bitset := ws\<rparr>)))"

function fill_with_union_objects :: "nat list \<Rightarrow> nat \<Rightarrow> nat \<Rightarrow> nat list" where
  "fill_with_union_objects free freeMemory startAddr =
     (if freeMemory > union_size
      then fill_with_union_objects (startAddr # free) (freeMemory - union_size) (startAddr + union_size)
      else free)"
  by pat_completeness auto
termination
  by (relation "measure (\<lambda>(free, freeMemory, startAddr). freeMemory)")
    (auto simp: union_size_def npot_def)

declare fill_with_union_objects.simps [simp del]

definition get_union_object :: "allocator \<Rightarrow> (nat option \<times> allocator) outcome" where
  "get_union_object a =
     and_then
       (if free_objects a = []
        then and_then (track_bitset_find_and_set a) (\<lambda>(page_id, a').
             if page_id \<ge> n_pages_capacity a' then Inr (False, a')
             else let start_addr = base a' + wrap32 (page_id * 2 ^ page_shift a')
                  in Inr (True, a'\<lparr>free_objects :=
                            fill_with_union_objects (free_objects a') (page_size a') start_addr,
                          n_pages_maintenance := wrap32 (n_pages_maintenance a' + 1)\<rparr>))
        else Inr (True, a))
       (\<lambda>(ok, a'). if \<not> ok then Inr (None, a')
          else case free_objects a' of
                 [] \<Rightarrow> Inl Bad_Access
               | obj # rest \<Rightarrow> Inr (Some obj, a'\<lparr>free_objects := rest\<rparr>))"

definition put_union_object :: "allocator \<Rightarrow> nat \<Rightarrow> allocator" where
  "put_union_object a obj = a\<lparr>free_objects := obj # free_objects a\<rparr>"

definition put_page :: "allocator \<Rightarrow> alloc_page \<Rightarrow> allocator outcome" where
  "put_page a p =
     (let order = get_page_order a p; page_id = get_page_id a p
      in and_then (if order = 1 then track_bitset_clear a page_id
                   else track_bitset_clear_range a page_id order)
           (\<lambda>a'. Inr (put_union_object a' (page_object p))))"

definition get_page :: "allocator \<Rightarrow> nat \<Rightarrow> (alloc_page option \<times> allocator) outcome" where
  "get_page a order =
     and_then (get_union_object a) (\<lambda>(obj, a1).
       case obj of
         None \<Rightarrow> Inr (None, a1)
       | Some obj \<Rightarrow>
           and_then (if order = 1 then track_bitset_find_and_set a1
                     else track_bitset_find_and_set_range a1 order) (\<lambda>(page_id, a2).
             if page_id \<ge> n_pages_capacity a2 then Inr (None, put_union_object a2 obj)
             else Inr (Some (init_page a2 obj page_id order), a2)))"

subsection \<open>Page managers\<close>

definition page_manager_get_new_page ::
  "allocator \<Rightarrow> page_manager \<Rightarrow> nat \<Rightarrow> (bool \<times> page_manager \<times> allocator) outcome" where
  "page_manager_get_new_page a m minPageSize =
     and_then (get_page a (get_order a minPageSize)) (\<lambda>(p, a').
       case p of
         None \<Rightarrow> Inr (False, m, a')
       | Some p \<Rightarrow> Inr (True, m\<lparr>pages_in_use_list := p # pages_in_use_list m\<rparr>, a'))"

text \<open>The first page of the list with enough room; the result has the list with this page changed.\<close>

fun grab_from_pages :: "alloc_page list \<Rightarrow> nat \<Rightarrow> nat \<Rightarrow> (nat \<times> alloc_page list) option" where
  "grab_from_pages [] requestedSize alignment = None"
| "grab_from_pages (p # ps) requestedSize alignment =
     (case grab_page_memory p requestedSize alignment of
        Some (memory, p') \<Rightarrow> Some (memory, p' # ps)
      | None \<Rightarrow> map_option (\<lambda>(memory, ps'). (memory, p # ps'))
                  (grab_from_pages ps requestedSize alignment))"

definition page_manager_alloc ::
  "allocator \<Rightarrow> page_manager \<Rightarrow> nat \<Rightarrow> nat \<Rightarrow> (nat option \<times> page_manager \<times> allocator) outcome"
where
  "page_manager_alloc a m requestedSize alignment =
     assert_that (moved_page_id_mapping_page m = None) (
     assert_that (requestedSize > 0) (
     assert_that (alignment \<le> page_size a) (
       if requestedSize > total_memory a then Inr (None, m, a)
       else case grab_from_pages (pages_in_use_list m) requestedSize alignment of
              Some (memory, ps) \<Rightarrow> Inr (Some memory, m\<lparr>pages_in_use_list := ps\<rparr>, a)
            | None \<Rightarrow>
                and_then (page_manager_get_new_page a m requestedSize) (\<lambda>(ok, m', a').
                  if \<not> ok then Inr (None, m', a')
                  else case pages_in_use_list m' of
                         [] \<Rightarrow> Inl Bad_Access
                       | p # ps \<Rightarrow>
                           (case grab_page_memory p requestedSize alignment of
                              None \<Rightarrow> Inr (None, m', a')
                            | Some (memory, p') \<Rightarrow>
                                Inr (Some memory, m'\<lparr>pages_in_use_list := p' # ps\<rparr>, a'))))))"

definition SCOREP_Allocator_RoundupToAlignment :: "nat \<Rightarrow> nat" where
  "SCOREP_Allocator_RoundupToAlignment n =
     nat (roundupto (int n) (int SCOREP_ALLOCATOR_ALIGNMENT))"

subsection \<open>Creating an allocator\<close>

text \<open>\<open>x >> (n + 1)\<close> and \<open>x >> n\<close> in the loops that count bits.\<close>

function shift_loop :: "nat \<Rightarrow> nat \<Rightarrow> nat" where
  "shift_loop pageSize sh =
     (if pageSize div 2 ^ (sh + 1) \<noteq> 0 then shift_loop pageSize (sh + 1) else sh)"
  by pat_completeness auto
termination
proof (relation "measure (\<lambda>(pageSize, sh). pageSize - sh)", simp)
  fix n s :: nat assume "n div 2 ^ (s + 1) \<noteq> 0"
  then have "2 ^ (s + 1) \<le> n" by (simp add: div_eq_0_iff not_less)
  moreover have "s + 1 < 2 ^ (s + 1)" by (rule less_exp)
  ultimately have "s + 1 < n" by linarith
  then show "((n, s + 1), (n, s)) \<in> measure (\<lambda>(pageSize, sh). pageSize - sh)" by simp
qed

function bits_loop :: "nat \<Rightarrow> nat \<Rightarrow> nat" where
  "bits_loop n_pages nb =
     (if n_pages div 2 ^ nb \<noteq> 0 then bits_loop n_pages (nb + 1) else nb)"
  by pat_completeness auto
termination
proof (relation "measure (\<lambda>(n_pages, nb). n_pages - nb)", simp)
  fix n s :: nat assume "n div 2 ^ s \<noteq> 0"
  then have "2 ^ s \<le> n" by (simp add: div_eq_0_iff not_less)
  moreover have "s < 2 ^ s" by (rule less_exp)
  ultimately have "s < n" by linarith
  then show "((n, s + 1), (n, s)) \<in> measure (\<lambda>(n_pages, nb). n_pages - nb)" by simp
qed

declare shift_loop.simps [simp del] bits_loop.simps [simp del]

text \<open>More maintenance pages until there are union objects for .5% of the pages.\<close>

function reserve_loop :: "nat \<Rightarrow> nat \<Rightarrow> nat \<Rightarrow> nat \<Rightarrow> nat \<times> nat" where
  "reserve_loop n_pages pageSize already_used_pages free_memory =
     (if free_memory div union_size < n_pages div 200 \<and> pageSize > 0
      then reserve_loop n_pages pageSize (already_used_pages + 1) (free_memory + pageSize)
      else (already_used_pages, free_memory))"
  by pat_completeness auto
termination
proof (relation "measure (\<lambda>(n_pages, pageSize, used, free). n_pages div 200 * union_size - free)", simp_all)
  fix n_pages free :: nat and ps :: nat
  assume *: "free div union_size < n_pages div 200 \<and> 0 < ps"
  have "0 < union_size" by (simp add: union_size_def npot_def)
  then have "free < n_pages div 200 * union_size"
    using * by (simp add: div_less_iff_less_mult)
  then show "n_pages div 200 * union_size - (free + ps) < n_pages div 200 * union_size - free"
    using conjunct2 [OF *] by linarith
qed

declare reserve_loop.simps [simp del]

definition MIN_NUMBER_OF_OBJECTS_PER_PAGE :: nat where
  "MIN_NUMBER_OF_OBJECTS_PER_PAGE = 8"

text \<open>
  \<open>calloc\<close> gives the address of a block of that many bytes or \<open>None\<close>. The result is the allocator
  with the total memory and the page size that are announced to the caller; \<open>None\<close> is the null
  pointer. Of the space for the bitset the model has the words that the capacity needs.
\<close>

definition SCOREP_Allocator_CreateAllocator ::
  "(nat \<Rightarrow> nat option) \<Rightarrow> nat \<Rightarrow> nat \<Rightarrow> (allocator \<times> nat \<times> nat) option outcome" where
  "SCOREP_Allocator_CreateAllocator calloc totalMemory0 pageSize0 =
     (let pageSize = unat (npot (of_nat pageSize0))
      in if totalMemory0 \<le> pageSize \<or> totalMemory0 = 0 \<or> pageSize = 0 \<or>
            pageSize < SCOREP_ALLOCATOR_ALIGNMENT then Inr None
         else if pageSize div union_size < MIN_NUMBER_OF_OBJECTS_PER_PAGE then Inr None
         else
           let shift = shift_loop pageSize 0;
               n_pages = totalMemory0 div pageSize;
               totalMemory = n_pages * pageSize;
               bits = bits_loop n_pages 1;
               maint_memory_needed = nat (roundupto (int (union_size + bitset_size n_pages)) 64)
           in if totalMemory \<le> maint_memory_needed then Inr None
              else
                let used0 = maint_memory_needed div 2 ^ shift +
                      of_bool (maint_memory_needed AND (pageSize - 1) \<noteq> 0);
                    free0 = used0 * 2 ^ shift - maint_memory_needed;
                    (already_used_pages, free_memory_in_last_page) =
                      reserve_loop n_pages pageSize used0 free0
                in if already_used_pages \<ge> n_pages - 1 then Inr None
                   else case calloc totalMemory of
                     None \<Rightarrow> Inr None
                   | Some raw \<Rightarrow>
                       let addr = nat (roundupto (int raw) (int pageSize));
                           cap = (if addr \<noteq> raw then n_pages - 1 else n_pages);
                           a0 = \<lparr>base = addr, allocated_memory = raw, page_shift = shift,
                                 n_pages_bits = bits, n_pages_capacity = cap,
                                 n_pages_maintenance = already_used_pages,
                                 n_pages_high_watermark = 0, n_pages_allocated = 0,
                                 page_bitset = replicate (n_words_of cap) 0, free_objects = []\<rparr>
                       in and_then (bitset_mark_invalid (page_bitset a0) cap) (\<lambda>ws.
                          and_then (track_bitset_set_range (a0\<lparr>page_bitset := ws\<rparr>) 0 already_used_pages) (\<lambda>a1.
                          Inr (Some (a1\<lparr>free_objects := fill_with_union_objects []
                                 free_memory_in_last_page (addr + maint_memory_needed)\<rparr>,
                               wrap32 (cap * 2 ^ shift), pageSize)))))"

text \<open>Releasing the allocator frees its one block of memory.\<close>

definition SCOREP_Allocator_DeleteAllocator :: "allocator option \<Rightarrow> allocator option" where
  "SCOREP_Allocator_DeleteAllocator a = None"

definition SCOREP_Allocator_GetMaxNumberOfPages :: "allocator \<Rightarrow> nat" where
  "SCOREP_Allocator_GetMaxNumberOfPages a = n_pages_capacity a"

definition SCOREP_Allocator_GetPageOffsetBitWidth :: "allocator \<Rightarrow> nat" where
  "SCOREP_Allocator_GetPageOffsetBitWidth a = page_shift a"

definition SCOREP_Allocator_GetNPagesBitWidth :: "allocator \<Rightarrow> nat" where
  "SCOREP_Allocator_GetNPagesBitWidth a = n_pages_bits a"

subsection \<open>Creating and deleting page managers\<close>

definition get_page_manager :: "allocator \<Rightarrow> (page_manager option \<times> allocator) outcome" where
  "get_page_manager a =
     and_then (get_union_object a) (\<lambda>(obj, a').
       case obj of
         None \<Rightarrow> Inr (None, a')
       | Some obj \<Rightarrow> Inr (Some \<lparr>manager_object = obj, pages_in_use_list = [],
             moved_page_id_mapping_page = None, last_allocation = 0\<rparr>, a'))"

definition SCOREP_Allocator_CreatePageManager ::
  "allocator \<Rightarrow> (page_manager option \<times> allocator) outcome" where
  "SCOREP_Allocator_CreatePageManager a =
     and_then (get_page_manager a) (\<lambda>(m, a1).
       case m of
         None \<Rightarrow> Inr (None, a1)
       | Some m \<Rightarrow> and_then (page_manager_get_new_page a1 m (page_size a1))
                     (\<lambda>(_, m', a2). Inr (Some m', a2)))"

definition SCOREP_Allocator_CreateMovedPageManager ::
  "allocator \<Rightarrow> (page_manager option \<times> allocator) outcome" where
  "SCOREP_Allocator_CreateMovedPageManager a =
     and_then (get_page_manager a) (\<lambda>(m, a1).
       case m of
         None \<Rightarrow> Inr (None, a1)
       | Some m \<Rightarrow>
           let mapping_size = 4 * n_pages_capacity a1; order = get_order a1 mapping_size
           in and_then (get_page a1 order) (\<lambda>(p, a2).
                case p of
                  None \<Rightarrow> Inr (None, put_union_object a2 (manager_object m))
                | Some p \<Rightarrow>
                    (case grab_page_memory p mapping_size SCOREP_ALLOCATOR_ALIGNMENT of
                       None \<Rightarrow> Inl Bad_Access
                     | Some (_, p') \<Rightarrow>
                         Inr (Some (m\<lparr>moved_page_id_mapping_page :=
                                Some (p', replicate (n_pages_capacity a2) 0)\<rparr>), a2))))"

fun put_pages :: "allocator \<Rightarrow> alloc_page list \<Rightarrow> allocator outcome" where
  "put_pages a [] = Inr a"
| "put_pages a (p # ps) = and_then (put_page a p) (\<lambda>a'. put_pages a' ps)"

definition SCOREP_Allocator_DeletePageManager :: "allocator \<Rightarrow> page_manager \<Rightarrow> allocator outcome" where
  "SCOREP_Allocator_DeletePageManager a m =
     and_then (put_pages a (pages_in_use_list m)) (\<lambda>a1.
     and_then (case moved_page_id_mapping_page m of
                 None \<Rightarrow> Inr a1 | Some (p, _) \<Rightarrow> put_page a1 p) (\<lambda>a2.
     Inr (put_union_object a2 (manager_object m))))"

definition SCOREP_Allocator_Free ::
  "allocator \<Rightarrow> page_manager \<Rightarrow> (page_manager \<times> allocator) outcome" where
  "SCOREP_Allocator_Free a m =
     and_then (put_pages a (pages_in_use_list m)) (\<lambda>a'.
       let mapping = map_option
             (\<lambda>(p, ids). (p, replicate (get_page_usage p div 4) 0 @ drop (get_page_usage p div 4) ids))
             (moved_page_id_mapping_page m)
       in Inr (m\<lparr>pages_in_use_list := [], moved_page_id_mapping_page := mapping,
                 last_allocation := 0\<rparr>, a'))"

subsection \<open>Allocating and reporting\<close>

definition SCOREP_Allocator_Alloc ::
  "allocator \<Rightarrow> page_manager \<Rightarrow> nat \<Rightarrow> (nat option \<times> page_manager \<times> allocator) outcome" where
  "SCOREP_Allocator_Alloc a m memorySize =
     page_manager_alloc a m memorySize SCOREP_ALLOCATOR_ALIGNMENT"

definition SCOREP_Allocator_AlignedAlloc ::
  "allocator \<Rightarrow> page_manager \<Rightarrow> nat \<Rightarrow> nat \<Rightarrow> (nat option \<times> page_manager \<times> allocator) outcome"
where
  "SCOREP_Allocator_AlignedAlloc a m alignment memorySize =
     assert_that (alignment \<ge> SCOREP_ALLOCATOR_ALIGNMENT) (
     assert_that (alignment AND (alignment - 1) = 0) (
       page_manager_alloc a m memorySize alignment))"

text \<open>A movable address is the offset from the allocator, a \<^verbatim>\<open>uint32_t\<close>; 0 is the failure.\<close>

definition SCOREP_Allocator_AllocMovable ::
  "allocator \<Rightarrow> page_manager \<Rightarrow> nat \<Rightarrow> (nat \<times> page_manager \<times> allocator) outcome" where
  "SCOREP_Allocator_AllocMovable a m memorySize =
     and_then (page_manager_alloc a m memorySize SCOREP_ALLOCATOR_ALIGNMENT) (\<lambda>(memory, m', a').
       case memory of
         None \<Rightarrow> Inr (0, m', a')
       | Some memory \<Rightarrow>
           let offset = wrap32 (memory - base a')
           in Inr (offset, m'\<lparr>last_allocation := offset\<rparr>, a'))"

text \<open>\<open>order\<close> consecutive entries of the mapping, from \<open>movedPageId\<close> on.\<close>

fun map_moved_pages :: "nat list \<Rightarrow> nat \<Rightarrow> nat \<Rightarrow> nat \<Rightarrow> nat list outcome" where
  "map_moved_pages ids movedPageId local_page_id 0 = Inr ids"
| "map_moved_pages ids movedPageId local_page_id (Suc order) =
     (if movedPageId < length ids
      then map_moved_pages (ids[movedPageId := local_page_id]) (movedPageId + 1) (local_page_id + 1) order
      else Inl Bad_Access)"

definition SCOREP_Allocator_AllocMovedPage ::
  "allocator \<Rightarrow> page_manager \<Rightarrow> nat \<Rightarrow> nat \<Rightarrow> (nat option \<times> page_manager \<times> allocator) outcome"
where
  "SCOREP_Allocator_AllocMovedPage a m movedPageId pageUsage =
     (case moved_page_id_mapping_page m of
        None \<Rightarrow> Inl Abort
      | Some (mp, ids) \<Rightarrow>
          assert_that (movedPageId \<noteq> 0) (assert_that (movedPageId < n_pages_capacity a) (
          if movedPageId \<ge> length ids then Inl Bad_Access
          else assert_that (ids ! movedPageId = 0) (
            and_then (page_manager_get_new_page a m pageUsage) (\<lambda>(ok, m', a').
              if \<not> ok then Inr (None, m', a')
              else case pages_in_use_list m' of
                     [] \<Rightarrow> Inl Bad_Access
                   | p # ps \<Rightarrow>
                       and_then (map_moved_pages ids movedPageId (get_page_id a' p) (get_page_order a' p))
                         (\<lambda>ids'. Inr (Some (memory_start_address p),
                            m'\<lparr>pages_in_use_list := set_page_usage p pageUsage # ps,
                               moved_page_id_mapping_page := Some (mp, ids')\<rparr>, a')))))))"

definition SCOREP_Allocator_GetAddressFromMovableMemory ::
  "allocator \<Rightarrow> page_manager \<Rightarrow> nat \<Rightarrow> nat outcome" where
  "SCOREP_Allocator_GetAddressFromMovableMemory a m movableMemory =
     assert_that (movableMemory \<ge> page_size a) (assert_that (movableMemory < total_memory a) (
       case moved_page_id_mapping_page m of
         None \<Rightarrow> Inr (base a + movableMemory)
       | Some (mp, ids) \<Rightarrow>
           (let page_id = movableMemory div 2 ^ page_shift a; page_offset = movableMemory AND page_mask a
            in if page_id \<ge> length ids then Inl Bad_Access
               else assert_that (ids ! page_id \<noteq> 0)
                 (Inr (base a + (wrap32 (ids ! page_id * 2 ^ page_shift a) OR page_offset))))))"

fun rollback_in_pages :: "alloc_page list \<Rightarrow> nat \<Rightarrow> alloc_page list option" where
  "rollback_in_pages [] memory = None"
| "rollback_in_pages (p # ps) memory =
     (if memory_start_address p \<le> memory \<and> memory < memory_current_address p
      then Some (p\<lparr>memory_current_address := memory\<rparr> # ps)
      else map_option ((#) p) (rollback_in_pages ps memory))"

definition SCOREP_Allocator_RollbackAllocMovable ::
  "allocator \<Rightarrow> page_manager \<Rightarrow> nat \<Rightarrow> page_manager outcome" where
  "SCOREP_Allocator_RollbackAllocMovable a m movableMemory =
     assert_that (moved_page_id_mapping_page m = None) (
     assert_that (movableMemory \<ge> page_size a) (
     assert_that (last_allocation m = movableMemory) (
       and_then (SCOREP_Allocator_GetAddressFromMovableMemory a m movableMemory) (\<lambda>memory.
         case rollback_in_pages (pages_in_use_list m) memory of
           None \<Rightarrow> Inl Abort
         | Some ps \<Rightarrow> Inr (m\<lparr>pages_in_use_list := ps, last_allocation := 0\<rparr>)))))"

definition SCOREP_Allocator_GetNumberOfUsedPages :: "page_manager \<Rightarrow> nat" where
  "SCOREP_Allocator_GetNumberOfUsedPages m =
     foldl (\<lambda>n p. if get_page_usage p \<noteq> 0 then n + 1 else n) 0 (pages_in_use_list m)"

text \<open>The three arrays that \<^verbatim>\<open>GetPageInfos\<close> fills, as one list of triples.\<close>

definition SCOREP_Allocator_GetPageInfos :: "allocator \<Rightarrow> page_manager \<Rightarrow> (nat \<times> nat \<times> nat) list" where
  "SCOREP_Allocator_GetPageInfos a m =
     foldl (\<lambda>infos p. let usage = get_page_usage p
              in if usage \<noteq> 0 then infos @ [(get_page_id a p, usage, memory_start_address p)] else infos)
       [] (pages_in_use_list m)"

record page_manager_stats =
  pages_allocated :: nat
  pages_used :: nat
  memory_allocated :: nat
  memory_used :: nat
  memory_available :: nat
  stats_alignment_loss :: nat

definition SCOREP_Allocator_GetStats ::
  "allocator \<Rightarrow> page_manager_stats \<Rightarrow> page_manager_stats \<Rightarrow> page_manager_stats \<times> page_manager_stats"
where
  "SCOREP_Allocator_GetStats a pageStats maintStats =
     (let pageStats' = pageStats\<lparr>pages_allocated := n_pages_high_watermark a,
                                 pages_used := n_pages_allocated a\<rparr>;
          m1 = maintStats\<lparr>pages_allocated := n_pages_maintenance a,
                          pages_used := n_pages_maintenance a,
                          memory_allocated := wrap32 (n_pages_maintenance a * page_size a),
                          stats_alignment_loss := base a - allocated_memory a\<rparr>;
          m2 = foldl (\<lambda>m _. m\<lparr>memory_available := memory_available m + union_size\<rparr>) m1 (free_objects a)
      in (pageStats', m2\<lparr>memory_used := memory_allocated m2 - memory_available m2\<rparr>))"

definition update_page_stats ::
  "allocator \<Rightarrow> alloc_page \<Rightarrow> page_manager_stats \<Rightarrow> page_manager_stats outcome" where
  "update_page_stats a p stats =
     (let page_multiple = get_order a (get_page_length p); usage = get_page_usage p
      in assert_that (page_multiple > 0)
           (Inr (stats\<lparr>pages_allocated := pages_allocated stats + page_multiple,
                       memory_allocated := memory_allocated stats + get_page_length p,
                       memory_used := memory_used stats + usage,
                       memory_available := memory_available stats + get_page_avail p,
                       stats_alignment_loss := stats_alignment_loss stats + memory_alignment_loss p,
                       pages_used := pages_used stats + (if usage \<noteq> 0 then page_multiple else 0)\<rparr>)))"

fun update_pages_stats ::
  "allocator \<Rightarrow> alloc_page list \<Rightarrow> page_manager_stats \<Rightarrow> page_manager_stats outcome" where
  "update_pages_stats a [] stats = Inr stats"
| "update_pages_stats a (p # ps) stats =
     and_then (update_page_stats a p stats) (update_pages_stats a ps)"

definition SCOREP_Allocator_GetPageManagerStats ::
  "allocator \<Rightarrow> page_manager \<Rightarrow> page_manager_stats \<Rightarrow> page_manager_stats outcome" where
  "SCOREP_Allocator_GetPageManagerStats a m stats =
     and_then (update_pages_stats a (pages_in_use_list m) stats) (\<lambda>stats'.
       case moved_page_id_mapping_page m of
         None \<Rightarrow> Inr stats' | Some (p, _) \<Rightarrow> update_page_stats a p stats')"

subsection \<open>Rounding\<close>

lemma and_not_mask_int: "x AND NOT (2 ^ k - 1) = x div 2 ^ k * (2 ^ k :: int)"
proof -
  have "x AND NOT (mask k) = push_bit k (drop_bit k x)"
    by (rule bit_eqI) (auto simp: bit_and_iff bit_not_iff bit_mask_iff bit_push_bit_iff bit_drop_bit_eq)
  then show ?thesis by (simp add: mask_eq_exp_minus_1 push_bit_eq_mult drop_bit_eq_div)
qed

lemma roundupto_pow2: "roundupto (int x) (int (2 ^ k)) = int ((x + (2 ^ k - 1)) div 2 ^ k * 2 ^ k)"
proof -
  have "roundupto (int x) (int (2 ^ k)) = (int x + (2 ^ k - 1)) div 2 ^ k * 2 ^ k"
    using and_not_mask_int [of "int x + (2 ^ k - 1)" k] by (simp add: roundupto_def)
  also have "int x + (2 ^ k - 1) = int (x + (2 ^ k - 1))"
  proof -
    obtain c where "(2 :: nat) ^ k = Suc c" by (metis not0_implies_Suc power_not_zero zero_neq_numeral)
    moreover from this have "(2 :: int) ^ k = int c + 1" by (metis of_nat_Suc of_nat_numeral of_nat_power add.commute)
    ultimately show ?thesis by simp
  qed
  also have "int (x + (2 ^ k - 1)) div 2 ^ k * 2 ^ k = int ((x + (2 ^ k - 1)) div 2 ^ k * 2 ^ k)"
    by (simp only: of_nat_mult of_nat_div of_nat_power of_nat_numeral)
  finally show ?thesis .
qed

lemma round_up_div:
  fixes x d :: nat
  assumes "0 < d"
  shows "x \<le> (x + (d - 1)) div d * d" and "(x + (d - 1)) div d * d < x + d"
    and "d dvd e \<Longrightarrow> d dvd x \<Longrightarrow> (x + (d - 1)) div d * d = x"
proof -
  have "(x + (d - 1)) div d * d + (x + (d - 1)) mod d = x + (d - 1)" by simp
  moreover have "(x + (d - 1)) mod d < d" using assms by simp
  ultimately show "x \<le> (x + (d - 1)) div d * d" "(x + (d - 1)) div d * d < x + d"
    using assms by linarith+
next
  assume "d dvd x"
  then obtain q where "x = d * q" ..
  moreover obtain c where "d = Suc c" using assms by (cases d) auto
  moreover have "(Suc c * q + c) div Suc c = q" by (subst add.commute) (simp only: div_mult_self2, simp)
  ultimately show "(x + (d - 1)) div d * d = x" by simp
qed

text \<open>The next multiple of an alignment.\<close>

definition align_up :: "nat \<Rightarrow> nat \<Rightarrow> nat" where
  "align_up x d = (x + (d - 1)) div d * d"

lemma align_up_bounds:
  assumes "0 < d"
  shows "x \<le> align_up x d" "align_up x d < x + d" "d dvd align_up x d"
  unfolding align_up_def by (rule round_up_div(1,2) [OF assms])+ (rule dvd_triv_right)

lemma align_up_id: "0 < d \<Longrightarrow> d dvd x \<Longrightarrow> align_up x d = x"
  unfolding align_up_def by (rule round_up_div(3) [OF _ dvd_refl])

lemma grab_page_memory_pow2:
  "grab_page_memory p n (2 ^ k) =
    (let memory = align_up (memory_current_address p) (2 ^ k)
     in if memory + n \<le> memory_end_address p
        then Some (memory, p\<lparr>memory_alignment_loss :=
               memory_alignment_loss p + (memory - memory_current_address p),
             memory_current_address := memory + n\<rparr>)
        else None)"
  unfolding grab_page_memory_def roundupto_pow2 align_up_def [symmetric]
  using align_up_bounds(1) [of "2 ^ k" "memory_current_address p"]
  by (auto simp: Let_def nat_diff_distrib')

subsection \<open>The invariant\<close>

text \<open>
  The geometry of an allocator, the pages that are described by a list of live page descriptors,
  and how they and the maintenance pages make up the used bits of the bitset.
\<close>

definition geometry_ok :: "allocator \<Rightarrow> bool" where
  "geometry_ok a \<longleftrightarrow> 9 \<le> page_shift a \<and> n_pages_capacity a * 2 ^ page_shift a < 2 ^ 32 \<and>
     2 ^ page_shift a dvd base a \<and> bitset_wf (page_bitset a) (n_pages_capacity a)"

definition same_geometry :: "allocator \<Rightarrow> allocator \<Rightarrow> bool" where
  "same_geometry a b \<longleftrightarrow> base b = base a \<and> page_shift b = page_shift a \<and>
     n_pages_capacity b = n_pages_capacity a"

definition page_first :: "allocator \<Rightarrow> alloc_page \<Rightarrow> nat" where
  "page_first a p = (memory_start_address p - base a) div 2 ^ page_shift a"

definition page_count :: "allocator \<Rightarrow> alloc_page \<Rightarrow> nat" where
  "page_count a p = (memory_end_address p - memory_start_address p) div 2 ^ page_shift a"

definition page_wf :: "allocator \<Rightarrow> alloc_page \<Rightarrow> bool" where
  "page_wf a p \<longleftrightarrow> memory_start_address p = base a + page_first a p * 2 ^ page_shift a \<and>
     memory_end_address p = memory_start_address p + page_count a p * 2 ^ page_shift a \<and>
     0 < page_count a p \<and> page_first a p + page_count a p \<le> n_pages_capacity a \<and>
     memory_start_address p \<le> memory_current_address p \<and>
     memory_current_address p \<le> memory_end_address p"

definition page_ids :: "allocator \<Rightarrow> alloc_page \<Rightarrow> nat set" where
  "page_ids a p = {page_first a p ..< page_first a p + page_count a p}"

definition live_ids :: "allocator \<Rightarrow> alloc_page list \<Rightarrow> nat set" where
  "live_ids a live = (\<Union>p\<in>set live. page_ids a p)"

definition alloc_inv :: "allocator \<Rightarrow> alloc_page list \<Rightarrow> nat set \<Rightarrow> bool" where
  "alloc_inv a live maint \<longleftrightarrow> geometry_ok a \<and> (\<forall>p\<in>set live. page_wf a p) \<and>
     sorted_wrt (\<lambda>p q. page_ids a p \<inter> page_ids a q = {}) live \<and>
     maint \<inter> live_ids a live = {} \<and>
     (\<forall>j<n_pages_capacity a. bs_bit (page_bitset a) j \<longleftrightarrow> j \<in> maint \<union> live_ids a live)"

named_theorems geometry_simps \<open>what depends on the geometry of an allocator only\<close>

lemma same_geometry_simps [geometry_simps]:
  assumes "same_geometry a b"
  shows "base b = base a" "page_shift b = page_shift a" "n_pages_capacity b = n_pages_capacity a"
    "page_first b p = page_first a p" "page_count b p = page_count a p" "page_wf b p = page_wf a p"
    "page_ids b p = page_ids a p" "live_ids b live = live_ids a live" "page_size b = page_size a"
    "total_memory b = total_memory a" "get_order b n = get_order a n" "page_mask b = page_mask a"
  using assms by (simp_all add: same_geometry_def page_first_def page_count_def page_wf_def
      page_ids_def live_ids_def page_size_def total_memory_def get_order_def page_mask_def)

lemma same_geometry_refl [simp]: "same_geometry a a"
  by (simp add: same_geometry_def)

lemma same_geometry_trans: "same_geometry a b \<Longrightarrow> same_geometry b c \<Longrightarrow> same_geometry a c"
  by (simp add: same_geometry_def)

lemma geometry_capacity:
  assumes "geometry_ok a"
  shows "n_pages_capacity a < 2 ^ 32" "page_shift a < 32 \<or> n_pages_capacity a = 0"
    "512 \<le> (2 :: nat) ^ page_shift a"
proof -
  have le: "512 \<le> (2 :: nat) ^ page_shift a"
    using power_increasing [of 9 "page_shift a" "2 :: nat"] assms by (simp add: geometry_ok_def)
  then show "512 \<le> (2 :: nat) ^ page_shift a" .
  have cap: "n_pages_capacity a * 2 ^ page_shift a < 2 ^ 32" using assms by (simp add: geometry_ok_def)
  then show "n_pages_capacity a < 2 ^ 32" by (rule le_less_trans [rotated]) (use le in simp)
  show "page_shift a < 32 \<or> n_pages_capacity a = 0"
  proof (rule disjCI)
    assume "n_pages_capacity a \<noteq> 0"
    then have "2 ^ page_shift a \<le> n_pages_capacity a * (2 :: nat) ^ page_shift a" by simp
    then have "(2 :: nat) ^ page_shift a < 2 ^ 32" using cap by (rule le_less_trans)
    then show "page_shift a < 32" by (simp only: power_strict_increasing_iff one_less_numeral_iff semiring_norm)
  qed
qed

lemma alloc_invD:
  assumes "alloc_inv a live maint"
  shows "geometry_ok a" "p \<in> set live \<Longrightarrow> page_wf a p"
    "sorted_wrt (\<lambda>p q. page_ids a p \<inter> page_ids a q = {}) live" "maint \<inter> live_ids a live = {}"
    "j < n_pages_capacity a \<Longrightarrow> bs_bit (page_bitset a) j \<longleftrightarrow> j \<in> maint \<union> live_ids a live"
  using assms unfolding alloc_inv_def by blast+

text \<open>Changing the bits, the counters or the free objects of an allocator keeps its geometry.\<close>

lemma alloc_inv_change:
  assumes inv: "alloc_inv a live maint" and same: "same_geometry a b"
    and wf: "bitset_wf (page_bitset b) (n_pages_capacity a)"
    and bits: "\<And>j. j < n_pages_capacity a \<Longrightarrow> bs_bit (page_bitset b) j \<longleftrightarrow> j \<in> maint' \<union> live_ids a live'"
    and live: "\<And>p. p \<in> set live' \<Longrightarrow> page_wf a p"
      "sorted_wrt (\<lambda>p q. page_ids a p \<inter> page_ids a q = {}) live'" "maint' \<inter> live_ids a live' = {}"
  shows "alloc_inv b live' maint'"
  using alloc_invD(1) [OF inv] assms(2-) unfolding alloc_inv_def geometry_ok_def same_geometry_simps [OF same]
  by simp

lemma track_high_watermark_simps [simp]:
  "page_bitset (track_update_high_watermark a) = page_bitset a"
  "n_pages_capacity (track_update_high_watermark a) = n_pages_capacity a"
  "free_objects (track_update_high_watermark a) = free_objects a"
  "n_pages_allocated (track_update_high_watermark a) = n_pages_allocated a"
  "n_pages_maintenance (track_update_high_watermark a) = n_pages_maintenance a"
  "same_geometry a (track_update_high_watermark a)"
  by (simp_all add: track_update_high_watermark_def same_geometry_def)

text \<open>Both counted searches: first fit, with the counter changed in any case.\<close>

definition find_pages :: "allocator \<Rightarrow> nat \<Rightarrow> (nat \<times> allocator) outcome" where
  "find_pages a order = (if order = 1 then track_bitset_find_and_set a
     else track_bitset_find_and_set_range a order)"

lemma find_pages_correct:
  assumes "geometry_ok a" and "0 < order"
  shows "\<exists>pos b. find_pages a order = Inr (pos, b) \<and> same_geometry a b \<and>
    free_objects b = free_objects a \<and> n_pages_allocated b = wrap32 (n_pages_allocated a + order) \<and>
    n_pages_maintenance b = n_pages_maintenance a \<and>
    first_fit (bs_bit (page_bitset a)) (n_pages_capacity a) order pos \<and>
    bitset_wf (page_bitset b) (n_pages_capacity a) \<and>
    (\<forall>j. bs_bit (page_bitset b) j \<longleftrightarrow> bs_bit (page_bitset a) j \<or>
       pos < n_pages_capacity a \<and> pos \<le> j \<and> j < pos + order)"
proof -
  have wf: "bitset_wf (page_bitset a) (n_pages_capacity a)" using assms(1) by (simp add: geometry_ok_def)
  let ?u = "\<lambda>n. track_update_high_watermark (a\<lparr>n_pages_allocated := wrap32 (n_pages_allocated a + n)\<rparr>)"
  have simps: "same_geometry a (?u n\<lparr>page_bitset := ws\<rparr>)"
    "free_objects (?u n\<lparr>page_bitset := ws\<rparr>) = free_objects a"
    "n_pages_allocated (?u n\<lparr>page_bitset := ws\<rparr>) = wrap32 (n_pages_allocated a + n)"
    "n_pages_maintenance (?u n\<lparr>page_bitset := ws\<rparr>) = n_pages_maintenance a"
    "page_bitset (?u n\<lparr>page_bitset := ws\<rparr>) = ws" for n ws
    by (simp_all add: same_geometry_def track_update_high_watermark_def)
  have result: ?thesis
    if run: "find_pages a order = Inr (pos, b)" and b: "b = ?u order\<lparr>page_bitset := ws\<rparr>"
      and fit: "first_fit (bs_bit (page_bitset a)) (n_pages_capacity a) order pos"
      and ws: "bitset_wf ws (n_pages_capacity a)"
      and bits: "\<And>j. bs_bit ws j \<longleftrightarrow> bs_bit (page_bitset a) j \<or>
         pos < n_pages_capacity a \<and> pos \<le> j \<and> j < pos + order" for pos ws b
  proof -
    have pb: "page_bitset b = ws" unfolding b by (rule simps)
    have same: "same_geometry a b" "free_objects b = free_objects a"
      "n_pages_allocated b = wrap32 (n_pages_allocated a + order)"
      "n_pages_maintenance b = n_pages_maintenance a"
      unfolding b by (rule simps)+
    show ?thesis
      by (rule exI [of _ pos], rule exI [of _ b])
        (intro conjI allI run same fit, unfold pb, rule ws, rule bits)
  qed
  show ?thesis
  proof (cases "order = 1")
    case True
    obtain pos ws where find: "bitset_find_and_set (page_bitset a) (n_pages_capacity a) = Inr (pos, ws)"
      "first_fit (bs_bit (page_bitset a)) (n_pages_capacity a) 1 pos" "bitset_wf ws (n_pages_capacity a)"
      "\<And>j. bs_bit ws j \<longleftrightarrow> bs_bit (page_bitset a) j \<or> pos < n_pages_capacity a \<and> j = pos"
      using bitset_find_and_set_correct [OF wf] by blast
    have "find_pages a order = Inr (pos, ?u order\<lparr>page_bitset := ws\<rparr>)"
      using True find(1) by (simp add: find_pages_def track_bitset_find_and_set_def Let_def)
    moreover have "first_fit (bs_bit (page_bitset a)) (n_pages_capacity a) order pos"
      unfolding True by (rule find(2))
    moreover have "bs_bit ws j \<longleftrightarrow> bs_bit (page_bitset a) j \<or>
        pos < n_pages_capacity a \<and> pos \<le> j \<and> j < pos + order" for j
    proof -
      have "j = pos \<longleftrightarrow> pos \<le> j \<and> j < pos + order" unfolding True by arith
      then show ?thesis unfolding find(4) by blast
    qed
    ultimately show ?thesis by (rule result [OF _ refl _ find(3)])
  next
    case False
    obtain pos ws where find: "bitset_find_and_set_range (page_bitset a) (n_pages_capacity a) order = Inr (Some (pos, ws))"
      "first_fit (bs_bit (page_bitset a)) (n_pages_capacity a) order pos" "bitset_wf ws (n_pages_capacity a)"
      "\<And>j. bs_bit ws j \<longleftrightarrow> bs_bit (page_bitset a) j \<or> pos < n_pages_capacity a \<and> pos \<le> j \<and> j < pos + order"
      using bitset_find_and_set_range_correct [OF wf assms(2)] by blast
    have "find_pages a order = Inr (pos, ?u order\<lparr>page_bitset := ws\<rparr>)"
      using False find(1) by (simp add: find_pages_def track_bitset_find_and_set_range_def Let_def)
    then show ?thesis by (rule result [OF _ refl find(2-4)])
  qed
qed

lemma fill_nonempty: "union_size < n \<Longrightarrow> fill_with_union_objects free n s \<noteq> []"
proof -
  have *: "free \<noteq> [] \<Longrightarrow> fill_with_union_objects free n s \<noteq> []" for free n s
  proof (induction free n s rule: fill_with_union_objects.induct)
    case (1 free n s)
    then show ?case by (subst fill_with_union_objects.simps) simp
  qed
  assume "union_size < n"
  then show ?thesis by (subst fill_with_union_objects.simps) (simp add: *)
qed

lemma union_size_64: "union_size = 64"
  by (simp add: union_size_def npot_def)

lemma page_size_geometry:
  "geometry_ok a \<Longrightarrow> n_pages_capacity a \<noteq> 0 \<Longrightarrow> page_size a = 2 ^ page_shift a"
  using geometry_capacity(2) [of a] power_strict_increasing [of "page_shift a" 32 "2 :: nat"]
  by (simp add: page_size_def wrap32_def)

lemma get_union_object_inv:
  assumes inv: "alloc_inv a live maint"
  shows "\<exists>obj b maint'. get_union_object a = Inr (obj, b) \<and> same_geometry a b \<and>
    alloc_inv b live maint' \<and> maint \<subseteq> maint'"
proof (cases "free_objects a")
  case (Cons obj rest)
  have "alloc_inv (a\<lparr>free_objects := rest\<rparr>) live maint"
    by (rule alloc_inv_change [OF inv]) (use inv in \<open>auto simp: alloc_inv_def geometry_ok_def same_geometry_def\<close>)
  then show ?thesis using Cons by (auto simp: get_union_object_def same_geometry_def)
next
  case Nil
  note geo = alloc_invD(1) [OF inv]
  obtain pos b where b: "track_bitset_find_and_set a = Inr (pos, b)" "same_geometry a b"
    "free_objects b = []" "first_fit (bs_bit (page_bitset a)) (n_pages_capacity a) 1 pos"
    "bitset_wf (page_bitset b) (n_pages_capacity a)"
    "\<And>j. bs_bit (page_bitset b) j \<longleftrightarrow> bs_bit (page_bitset a) j \<or>
       pos < n_pages_capacity a \<and> pos \<le> j \<and> j < pos + 1"
    using find_pages_correct [OF geo, of 1] Nil by (auto simp: find_pages_def)
  note same = same_geometry_simps [OF b(2)]
  show ?thesis
  proof (cases "pos < n_pages_capacity a")
    case False
    have "alloc_inv b live maint"
      by (rule alloc_inv_change [OF inv b(2,5)]) (use b(6) False alloc_invD [OF inv] in auto)
    then show ?thesis
      using Nil b(1,2) False by (auto simp: get_union_object_def same)
  next
    case True
    let ?objs = "fill_with_union_objects (free_objects b) (page_size b) (base b + wrap32 (pos * 2 ^ page_shift b))"
    have "page_size b = 2 ^ page_shift a" using page_size_geometry [OF geo] True by (simp add: same)
    then have "?objs \<noteq> []"
      using geometry_capacity(3) [OF geo] by (intro fill_nonempty) (simp add: union_size_64)
    then obtain obj rest where objs: "?objs = obj # rest" by (cases ?objs) auto
    let ?b = "b\<lparr>free_objects := rest, n_pages_maintenance := wrap32 (n_pages_maintenance b + 1)\<rparr>"
    have "\<not> bs_bit (page_bitset a) pos" using first_fit_free [OF b(4) True] by simp
    then have fresh: "pos \<notin> maint \<union> live_ids a live" using alloc_invD(5) [OF inv True] by simp
    have geo': "same_geometry a ?b" using b(2) by (simp add: same_geometry_def)
    have "alloc_inv ?b live (insert pos maint)"
      by (rule alloc_inv_change [OF inv geo']) (use b(5,6) True fresh alloc_invD [OF inv] in auto)
    moreover have "get_union_object a = Inr (Some obj, ?b)"
      using Nil b(1) True objs by (simp add: get_union_object_def same Let_def)
    ultimately show ?thesis using geo' by blast
  qed
qed

lemma wrap32_page:
  assumes "geometry_ok a" and "pid + order \<le> n_pages_capacity a"
  shows "wrap32 (pid * 2 ^ page_shift a) = pid * 2 ^ page_shift a"
    "wrap32 (order * 2 ^ page_shift a) = order * 2 ^ page_shift a"
proof -
  have less: "n_pages_capacity a * 2 ^ page_shift a < 2 ^ 32" using assms(1) by (simp add: geometry_ok_def)
  have "pid * 2 ^ page_shift a \<le> n_pages_capacity a * 2 ^ page_shift a"
    "order * 2 ^ page_shift a \<le> n_pages_capacity a * 2 ^ page_shift a"
    using assms(2) by (intro mult_le_mono1; simp)+
  from this(1,2) [THEN le_less_trans, OF less]
  show "wrap32 (pid * 2 ^ page_shift a) = pid * 2 ^ page_shift a"
    "wrap32 (order * 2 ^ page_shift a) = order * 2 ^ page_shift a"
    by (simp_all only: wrap32_id)
qed

lemma init_page_wf:
  assumes "geometry_ok a" and "pid + order \<le> n_pages_capacity a" and "0 < order"
  shows "page_wf a (init_page a obj pid order)" "page_ids a (init_page a obj pid order) = {pid ..< pid + order}"
    "memory_current_address (init_page a obj pid order) = memory_start_address (init_page a obj pid order)"
    "memory_start_address (init_page a obj pid order) = base a + pid * 2 ^ page_shift a"
    "memory_end_address (init_page a obj pid order) = base a + (pid + order) * 2 ^ page_shift a"
  using assms(3,2) wrap32_page [OF assms(1,2)]
  by (simp_all add: init_page_def set_page_order_def set_page_usage_def page_wf_def page_ids_def
      page_first_def page_count_def Let_def algebra_simps)

lemma get_page_inv:
  assumes inv: "alloc_inv a live maint" and order: "0 < order"
  shows "\<exists>r b maint'. get_page a order = Inr (r, b) \<and> same_geometry a b \<and> maint \<subseteq> maint' \<and>
    (case r of None \<Rightarrow> alloc_inv b live maint'
     | Some p \<Rightarrow> alloc_inv b (p # live) maint' \<and> memory_current_address p = memory_start_address p \<and>
         page_count a p = order)"
proof -
  obtain obj b maint' where b: "get_union_object a = Inr (obj, b)" "same_geometry a b"
    "alloc_inv b live maint'" "maint \<subseteq> maint'"
    using get_union_object_inv [OF inv] by blast
  show ?thesis
  proof (cases obj)
    case None
    then have "get_page a order = Inr (None, b)" using b(1) by (simp add: get_page_def)
    then show ?thesis using b by (intro exI [of _ None] exI [of _ b] exI [of _ maint']) simp
  next
    case (Some obj)
    note geo = alloc_invD(1) [OF b(3)]
    obtain pos c where c: "find_pages b order = Inr (pos, c)" "same_geometry b c"
      "first_fit (bs_bit (page_bitset b)) (n_pages_capacity b) order pos"
      "bitset_wf (page_bitset c) (n_pages_capacity b)"
      "\<And>j. bs_bit (page_bitset c) j \<longleftrightarrow> bs_bit (page_bitset b) j \<or>
         pos < n_pages_capacity b \<and> pos \<le> j \<and> j < pos + order"
      using find_pages_correct [OF geo order] by blast
    note same = same_geometry_simps [OF c(2)]
    have run: "get_page a order = (if pos \<ge> n_pages_capacity c then Inr (None, put_union_object c obj)
        else Inr (Some (init_page c obj pos order), c))"
      using b(1) Some c(1) by (simp add: get_page_def find_pages_def)
    show ?thesis
    proof (cases "pos < n_pages_capacity b")
      case False
      have geo': "same_geometry b (put_union_object c obj)"
        using c(2) by (simp add: same_geometry_def put_union_object_def)
      have "alloc_inv (put_union_object c obj) live maint'"
        by (rule alloc_inv_change [OF b(3) geo'])
          (use c(4,5) False alloc_invD [OF b(3)] in \<open>auto simp: put_union_object_def\<close>)
      then show ?thesis
        using run False same same_geometry_trans [OF b(2) geo'] b(4)
        by (intro exI [of _ None] exI [of _ "put_union_object c obj"] exI [of _ maint']) simp
    next
      case True
      let ?p = "init_page c obj pos order"
      have geo_c: "geometry_ok c" using geo c(4) by (simp add: geometry_ok_def same)
      note fit = first_fit_free [OF c(3) True]
      have wf: "page_wf c ?p" "page_ids c ?p = {pos ..< pos + order}"
        "memory_current_address ?p = memory_start_address ?p"
        using init_page_wf [OF geo_c, of pos order obj] fit order by (simp_all add: same)
      have fresh: "{pos ..< pos + order} \<inter> (maint' \<union> live_ids b live) = {}"
        using fit alloc_invD(5) [OF b(3)] by fastforce
      have "alloc_inv c (?p # live) maint'"
      proof (rule alloc_inv_change [OF b(3) c(2,4)])
        show "page_wf b p" if "p \<in> set (?p # live)" for p
          using that wf(1) alloc_invD(2) [OF b(3)] by (auto simp: same)
        show "sorted_wrt (\<lambda>p q. page_ids b p \<inter> page_ids b q = {}) (?p # live)"
          using alloc_invD(3) [OF b(3)] wf(2) fresh by (auto simp: same live_ids_def)
        show "maint' \<inter> live_ids b (?p # live) = {}"
          using alloc_invD(4) [OF b(3)] wf(2) fresh by (auto simp: same live_ids_def)
        show "bs_bit (page_bitset c) j \<longleftrightarrow> j \<in> maint' \<union> live_ids b (?p # live)"
          if "j < n_pages_capacity b" for j
          using c(5) alloc_invD(5) [OF b(3) that] wf(2) True by (auto simp: same live_ids_def)
      qed
      moreover have "page_count a ?p = order"
        using wf(1,2) fit order unfolding same_geometry_simps(5) [OF same_geometry_trans [OF b(2) c(2)], symmetric]
        by (auto simp: page_ids_def page_wf_def) (metis add_diff_cancel_left' card_atLeastLessThan)
      ultimately show ?thesis
        using run True same_geometry_trans [OF b(2) c(2)] b(4) wf(3) same
        by (intro exI [of _ "Some ?p"] exI [of _ c] exI [of _ maint']) simp
    qed
  qed
qed

text \<open>A page is replaced by one with the same ids: its memory was used, or freed again.\<close>

lemma alloc_inv_replace:
  assumes inv: "alloc_inv a (us @ p # vs) maint" and wf: "page_wf a p'" and ids: "page_ids a p' = page_ids a p"
  shows "alloc_inv a (us @ p' # vs) maint"
proof -
  have live: "live_ids a (us @ p' # vs) = live_ids a (us @ p # vs)"
    using ids by (simp add: live_ids_def)
  have bits: "bitset_wf (page_bitset a) (n_pages_capacity a)"
    using alloc_invD(1) [OF inv] by (simp add: geometry_ok_def)
  show ?thesis
  proof (rule alloc_inv_change [OF inv same_geometry_refl bits])
    show "page_wf a q" if "q \<in> set (us @ p' # vs)" for q
      using that wf alloc_invD(2) [OF inv] by auto
    show "sorted_wrt (\<lambda>p q. page_ids a p \<inter> page_ids a q = {}) (us @ p' # vs)"
      using alloc_invD(3) [OF inv] ids by (simp add: sorted_wrt_append)
  qed (use live alloc_invD(4,5) [OF inv] in auto)
qed

lemma put_page_inv:
  assumes inv: "alloc_inv a (p # live) maint"
  shows "\<exists>b. put_page a p = Inr b \<and> same_geometry a b \<and> alloc_inv b live maint"
proof -
  note geo = alloc_invD(1) [OF inv]
  have wf: "page_wf a p" using alloc_invD(2) [OF inv] by simp
  let ?i = "page_first a p" and ?n = "page_count a p"
  have range: "?i + ?n \<le> n_pages_capacity a" "0 < ?n" using wf by (auto simp: page_wf_def)
  have w: "wrap32 (?n * 2 ^ page_shift a) = ?n * 2 ^ page_shift a"
    by (rule wrap32_page(2) [OF geo range(1)])
  have order: "get_page_order a p = ?n"
  proof -
    have "get_page_length p = ?n * 2 ^ page_shift a"
      using wf w by (simp add: get_page_length_def page_wf_def)
    then show ?thesis by (simp add: get_page_order_def)
  qed
  have "?i < 2 ^ 32" using range geometry_capacity(1) [OF geo] by linarith
  then have pid: "get_page_id a p = ?i" by (simp add: get_page_id_def page_first_def [symmetric])
  have cap: "bitset_wf (page_bitset a) (n_pages_capacity a)" using geo by (simp add: geometry_ok_def)
  have used: "bs_bit (page_bitset a) j" if "?i \<le> j" "j < ?i + ?n" for j
    using alloc_invD(5) [OF inv, of j] that range by (auto simp: live_ids_def page_ids_def)
  obtain ws c where ws: "bitset_wf ws (n_pages_capacity a)"
    "\<And>j. bs_bit ws j \<longleftrightarrow> \<not> (?i \<le> j \<and> j < ?i + ?n) \<and> bs_bit (page_bitset a) j"
    "(if ?n = 1 then track_bitset_clear a ?i else track_bitset_clear_range a ?i ?n) =
       Inr (a\<lparr>page_bitset := ws, n_pages_allocated := c\<rparr>)"
  proof (cases "?n = 1")
    case True
    then have "?i < n_pages_capacity a" using range by simp
    from bitset_clear_correct [OF cap this] obtain ws where *: "bitset_clear (page_bitset a) (n_pages_capacity a) ?i = Inr ws"
      "bitset_wf ws (n_pages_capacity a)" "\<And>j. bs_bit ws j \<longleftrightarrow> j \<noteq> ?i \<and> bs_bit (page_bitset a) j"
      by blast
    have "j \<noteq> ?i \<longleftrightarrow> \<not> (?i \<le> j \<and> j < ?i + ?n)" for j unfolding True by arith
    then show thesis by (intro that [OF *(2)]) (auto simp: *(1,3) True track_bitset_clear_def)
  next
    case False
    from bitset_clear_range_correct [OF cap range(2,1) used] obtain ws where
      *: "bitset_clear_range (page_bitset a) (n_pages_capacity a) ?i ?n = Inr ws" "bitset_wf ws (n_pages_capacity a)"
      "\<And>j. bs_bit ws j \<longleftrightarrow> \<not> (?i \<le> j \<and> j < ?i + ?n) \<and> bs_bit (page_bitset a) j"
      by blast
    show thesis
      by (rule that [OF *(2,3), of "wrap32 (n_pages_allocated a + (2 ^ 32 - ?n))"])
        (use False in \<open>simp add: *(1) track_bitset_clear_range_def\<close>)
  qed
  let ?b = "put_union_object (a\<lparr>page_bitset := ws, n_pages_allocated := c\<rparr>) (page_object p)"
  have geo': "same_geometry a ?b" and pb: "page_bitset ?b = ws"
    by (simp_all add: same_geometry_def put_union_object_def)
  have "alloc_inv ?b live maint"
  proof (rule alloc_inv_change [OF inv geo'])
    show "bs_bit (page_bitset ?b) j \<longleftrightarrow> j \<in> maint \<union> live_ids a live" if "j < n_pages_capacity a" for j
    proof -
      have "page_ids a p \<inter> live_ids a live = {}" "page_ids a p \<inter> maint = {}"
        using alloc_invD(3,4) [OF inv] by (auto simp: live_ids_def)
      moreover have "?i \<le> j \<and> j < ?i + ?n \<longleftrightarrow> j \<in> page_ids a p" by (auto simp: page_ids_def)
      moreover have "live_ids a (p # live) = page_ids a p \<union> live_ids a live" by (simp add: live_ids_def)
      ultimately show ?thesis
        using ws(2) [of j] alloc_invD(5) [OF inv that] unfolding pb by blast
    qed
  qed (use ws(1) pb alloc_invD [OF inv] in \<open>auto simp: live_ids_def\<close>)
  moreover have "put_page a p = Inr ?b"
    using ws(3) by (simp add: put_page_def order pid Let_def)
  ultimately show ?thesis using geo' by blast
qed

lemma put_pages_inv:
  "alloc_inv a (ps @ live) maint \<Longrightarrow>
   \<exists>b. put_pages a ps = Inr b \<and> same_geometry a b \<and> alloc_inv b live maint"
proof (induction ps arbitrary: a)
  case (Cons p ps)
  then obtain b where b: "put_page a p = Inr b" "same_geometry a b" "alloc_inv b (ps @ live) maint"
    using put_page_inv [of a p "ps @ live" maint] by auto
  from Cons.IH [OF b(3)] obtain c where "put_pages b ps = Inr c" "same_geometry b c" "alloc_inv c live maint"
    by blast
  then show ?case using b same_geometry_trans by (auto intro!: exI [of _ c])
qed auto

subsection \<open>Handing out memory\<close>

lemma page_regions_disjoint:
  assumes "page_wf a p" and "page_wf a q" and "page_ids a p \<inter> page_ids a q = {}"
  shows "{memory_start_address p ..< memory_end_address p} \<inter>
    {memory_start_address q ..< memory_end_address q} = {}"
proof -
  have inside: "(x - base a) div 2 ^ page_shift a \<in> page_ids a r"
    if "page_wf a r" "x \<in> {memory_start_address r ..< memory_end_address r}" for r x
  proof -
    let ?d = "(2 :: nat) ^ page_shift a"
    have r: "memory_start_address r = base a + page_first a r * ?d"
      "memory_end_address r = base a + (page_first a r + page_count a r) * ?d"
      using that(1) by (simp_all add: page_wf_def algebra_simps)
    then have "page_first a r * ?d \<le> x - base a" "x - base a < (page_first a r + page_count a r) * ?d"
      using that(2) by auto
    then show ?thesis
      by (simp add: page_ids_def less_eq_div_iff_mult_less_eq div_less_iff_less_mult)
  qed
  show ?thesis using inside [OF assms(1)] inside [OF assms(2)] assms(3) by blast
qed

lemma grab_from_pages_split:
  "grab_from_pages ps n al = Some (mem, ps') \<Longrightarrow>
   \<exists>us p vs p'. ps = us @ p # vs \<and> ps' = us @ p' # vs \<and> grab_page_memory p n al = Some (mem, p')"
proof (induction ps arbitrary: ps')
  case (Cons q qs)
  show ?case
  proof (cases "grab_page_memory q n al")
    case None
    then obtain rs where rs: "grab_from_pages qs n al = Some (mem, rs)" "ps' = q # rs"
      using Cons.prems by (auto split: option.splits)
    from Cons.IH [OF rs(1)] obtain us p vs p' where "qs = us @ p # vs" "rs = us @ p' # vs"
      "grab_page_memory p n al = Some (mem, p')" by blast
    then show ?thesis using rs(2) by (intro exI [of _ "q # us"]) auto
  next
    case (Some r)
    then show ?thesis using Cons.prems by (cases r) (auto intro!: exI [of _ "[]"])
  qed
qed simp

lemma grab_page_memory_wf:
  assumes wf: "page_wf a p" and grab: "grab_page_memory p n (2 ^ k) = Some (mem, p')"
  shows "page_wf a p'" "page_ids a p' = page_ids a p" "2 ^ k dvd mem"
    "memory_current_address p \<le> mem" "mem + n = memory_current_address p'"
    "memory_start_address p' = memory_start_address p" "memory_end_address p' = memory_end_address p"
    "mem + n \<le> memory_end_address p"
proof -
  have *: "mem = align_up (memory_current_address p) (2 ^ k)" "mem + n \<le> memory_end_address p"
    "p' = p\<lparr>memory_alignment_loss := memory_alignment_loss p + (mem - memory_current_address p),
            memory_current_address := mem + n\<rparr>"
    using grab unfolding grab_page_memory_pow2 by (auto simp: Let_def split: if_splits)
  have al: "memory_current_address p \<le> mem" "2 ^ k dvd mem"
    unfolding *(1) by (rule align_up_bounds; simp)+
  show "2 ^ k dvd mem" "memory_current_address p \<le> mem" "mem + n \<le> memory_end_address p" by fact+
  show "mem + n = memory_current_address p'" "memory_start_address p' = memory_start_address p"
    "memory_end_address p' = memory_end_address p" by (simp_all add: *(3))
  have ids: "page_first a p' = page_first a p" "page_count a p' = page_count a p"
    by (simp_all add: *(3) page_first_def page_count_def)
  then show "page_ids a p' = page_ids a p" by (simp add: page_ids_def)
  show "page_wf a p'" using wf al(1) *(2) unfolding page_wf_def ids by (simp add: *(3))
qed

lemma get_order_covers:
  assumes "page_size a = 2 ^ page_shift a" and "0 < n"
  shows "0 < get_order a n" "n \<le> get_order a n * 2 ^ page_shift a"
proof -
  let ?d = "(2 :: nat) ^ page_shift a"
  have "n AND page_mask a = n mod ?d"
    unfolding page_mask_def assms(1) by (metis mask_eq_exp_minus_1 take_bit_eq_mask take_bit_eq_mod)
  then have order: "get_order a n = n div ?d + of_bool (n mod ?d \<noteq> 0)" by (simp add: get_order_def)
  have n: "n = n div ?d * ?d + n mod ?d" by (rule div_mult_mod_eq [symmetric])
  have less: "n mod ?d < ?d" by simp
  show "n \<le> get_order a n * ?d"
  proof (cases "n mod ?d = 0")
    case True
    then show ?thesis using n by (simp add: order)
  next
    case False
    then have "get_order a n * ?d = n div ?d * ?d + ?d" by (simp add: order)
    then show ?thesis using n less by linarith
  qed
  then show "0 < get_order a n" using assms(2) by (cases "get_order a n") auto
qed

lemma new_page_inv:
  assumes inv: "alloc_inv a (pages_in_use_list m @ others) maint" and n: "0 < n"
    and cap: "n_pages_capacity a \<noteq> 0"
  shows "\<exists>ok m' b maint'. page_manager_get_new_page a m n = Inr (ok, m', b) \<and> same_geometry a b \<and>
    maint \<subseteq> maint' \<and> alloc_inv b (pages_in_use_list m' @ others) maint' \<and>
    (if ok then \<exists>p. m' = m\<lparr>pages_in_use_list := p # pages_in_use_list m\<rparr> \<and>
       memory_current_address p = memory_start_address p \<and> n \<le> page_count a p * 2 ^ page_shift a
     else m' = m)"
proof -
  have order: "0 < get_order a n" "n \<le> get_order a n * 2 ^ page_shift a"
    using get_order_covers [OF page_size_geometry [OF alloc_invD(1) [OF inv] cap] n] by simp_all
  obtain r b maint' where r: "get_page a (get_order a n) = Inr (r, b)" "same_geometry a b" "maint \<subseteq> maint'"
    "case r of None \<Rightarrow> alloc_inv b (pages_in_use_list m @ others) maint'
     | Some p \<Rightarrow> alloc_inv b (p # pages_in_use_list m @ others) maint' \<and>
         memory_current_address p = memory_start_address p \<and> page_count a p = get_order a n"
    using get_page_inv [OF inv order(1)] by blast
  show ?thesis
  proof (cases r)
    case None
    then have "page_manager_get_new_page a m n = Inr (False, m, b)"
      using r(1) by (simp add: page_manager_get_new_page_def)
    then show ?thesis using None r(2-4)
      by (intro exI [of _ False] exI [of _ m] exI [of _ b] exI [of _ maint']) simp
  next
    case (Some p)
    let ?m = "m\<lparr>pages_in_use_list := p # pages_in_use_list m\<rparr>"
    have "page_manager_get_new_page a m n = Inr (True, ?m, b)"
      using r(1) Some by (simp add: page_manager_get_new_page_def)
    then show ?thesis using Some r(2-4) order(2)
      by (intro exI [of _ True] exI [of _ ?m] exI [of _ b] exI [of _ maint'])
        (simp, intro exI [of _ p], simp)
  qed
qed

text \<open>Memory that has been handed out: the used part of each page.\<close>

definition handed_out :: "alloc_page list \<Rightarrow> nat set" where
  "handed_out ps = (\<Union>p\<in>set ps. {memory_start_address p ..< memory_current_address p})"

lemma handed_out_append: "handed_out (ps @ qs) = handed_out ps \<union> handed_out qs"
  by (simp add: handed_out_def)

lemma fresh_block:
  assumes inv: "alloc_inv a (us @ p # vs) maint" and grab: "grab_page_memory p n (2 ^ k) = Some (mem, p')"
  shows "{mem ..< mem + n} \<inter> handed_out (us @ p # vs) = {}"
proof -
  have wf: "page_wf a p" using alloc_invD(2) [OF inv] by simp
  note g = grab_page_memory_wf [OF wf grab]
  have "{mem ..< mem + n} \<inter> {memory_start_address q ..< memory_current_address q} = {}"
    if "q \<in> set (us @ p # vs)" for q
  proof (cases "q = p")
    case True
    then show ?thesis using g(4) by auto
  next
    case False
    then have "q \<in> set us \<union> set vs" using that by auto
    then have "page_ids a p \<inter> page_ids a q = {}"
      using alloc_invD(3) [OF inv] by (auto simp: sorted_wrt_append)
    moreover have wf_q: "page_wf a q" using alloc_invD(2) [OF inv that] .
    ultimately have "{memory_start_address p ..< memory_end_address p} \<inter>
        {memory_start_address q ..< memory_end_address q} = {}"
      using page_regions_disjoint [OF wf] by blast
    moreover have "{mem ..< mem + n} \<subseteq> {memory_start_address p ..< memory_end_address p}"
      using g(4,8) wf by (auto simp: page_wf_def)
    moreover have "{memory_start_address q ..< memory_current_address q} \<subseteq>
        {memory_start_address q ..< memory_end_address q}"
      using wf_q by (auto simp: page_wf_def)
    ultimately show ?thesis by blast
  qed
  then show ?thesis unfolding handed_out_def by blast
qed

text \<open>
  One allocation: nothing but the pool and one page of the manager changes, and a block that is
  handed out was taken from a page, an old or a new one.
\<close>

lemma page_manager_alloc_step:
  assumes inv: "alloc_inv a (pages_in_use_list m @ others) maint"
    and m: "moved_page_id_mapping_page m = None" "0 < n" "2 ^ k \<le> page_size a"
  shows "\<exists>r m' b maint'. page_manager_alloc a m n (2 ^ k) = Inr (r, m', b) \<and> same_geometry a b \<and>
    maint \<subseteq> maint' \<and> moved_page_id_mapping_page m' = None \<and>
    alloc_inv b (pages_in_use_list m' @ others) maint' \<and>
    (case r of
       None \<Rightarrow> pages_in_use_list m' = pages_in_use_list m
     | Some mem \<Rightarrow> \<exists>us p p' vs. pages_in_use_list m' = us @ p' # vs \<and>
         grab_page_memory p n (2 ^ k) = Some (mem, p') \<and> alloc_inv b (us @ p # vs @ others) maint' \<and>
         handed_out (us @ p # vs) = handed_out (pages_in_use_list m))"
proof (cases "n > total_memory a")
  case True
  then have "page_manager_alloc a m n (2 ^ k) = Inr (None, m, a)"
    using m by (simp add: page_manager_alloc_def)
  then show ?thesis using inv m(1) by (intro exI [of _ None] exI [of _ m] exI [of _ a] exI [of _ maint]) simp
next
  case fits: False
  note geo = alloc_invD(1) [OF inv]
  have cap: "n_pages_capacity a \<noteq> 0"
  proof
    assume "n_pages_capacity a = 0"
    then have "total_memory a = 0" by (simp add: total_memory_def wrap32_def)
    then show False using fits m(2) by simp
  qed
  note ps = page_size_geometry [OF geo cap]
  show ?thesis
  proof (cases "grab_from_pages (pages_in_use_list m) n (2 ^ k)")
    case (Some r)
    obtain mem rs where r: "r = (mem, rs)" by (cases r)
    obtain us p vs p' where split: "pages_in_use_list m = us @ p # vs" "rs = us @ p' # vs"
      "grab_page_memory p n (2 ^ k) = Some (mem, p')"
      using grab_from_pages_split [OF Some [unfolded r]] by blast
    have inv': "alloc_inv a (us @ p # vs @ others) maint" using inv split(1) by simp
    have wf: "page_wf a p" using alloc_invD(2) [OF inv'] by simp
    note g = grab_page_memory_wf [OF wf split(3)]
    have run: "page_manager_alloc a m n (2 ^ k) = Inr (Some mem, m\<lparr>pages_in_use_list := rs\<rparr>, a)"
      using m fits Some r by (simp add: page_manager_alloc_def)
    have "alloc_inv a (rs @ others) maint"
      using alloc_inv_replace [OF inv' g(1,2)] split(2) by simp
    moreover have "\<exists>us p p' vs. rs = us @ p' # vs \<and>
         grab_page_memory p n (2 ^ k) = Some (mem, p') \<and> alloc_inv a (us @ p # vs @ others) maint \<and>
         handed_out (us @ p # vs) = handed_out (pages_in_use_list m)"
      using split inv' by (intro exI [of _ us] exI [of _ p] exI [of _ p'] exI [of _ vs]) simp
    ultimately show ?thesis
      using run m(1) by (intro exI [of _ "Some mem"] exI [of _ "m\<lparr>pages_in_use_list := rs\<rparr>"] exI [of _ a]
          exI [of _ maint]) simp
  next
    case None
    obtain ok m' b maint' where new: "page_manager_get_new_page a m n = Inr (ok, m', b)"
      "same_geometry a b" "maint \<subseteq> maint'" "alloc_inv b (pages_in_use_list m' @ others) maint'"
      "if ok then \<exists>p. m' = m\<lparr>pages_in_use_list := p # pages_in_use_list m\<rparr> \<and>
         memory_current_address p = memory_start_address p \<and> n \<le> page_count a p * 2 ^ page_shift a
       else m' = m"
      using new_page_inv [OF inv m(2) cap] by blast
    note same = same_geometry_simps [OF new(2)]
    show ?thesis
    proof (cases ok)
      case False
      then have "page_manager_alloc a m n (2 ^ k) = Inr (None, m', b)"
        using m fits None new(1) by (simp add: page_manager_alloc_def)
      then show ?thesis using new m(1) False
        by (intro exI [of _ None] exI [of _ m'] exI [of _ b] exI [of _ maint']) simp
    next
      case True
      then obtain p where p: "m' = m\<lparr>pages_in_use_list := p # pages_in_use_list m\<rparr>"
        "memory_current_address p = memory_start_address p" "n \<le> page_count a p * 2 ^ page_shift a"
        using new(5) by auto
      have inv': "alloc_inv b ([] @ p # pages_in_use_list m @ others) maint'" using new(4) p(1) by simp
      have wf: "page_wf a p" using alloc_invD(2) [OF inv'] by (simp add: same)
      have "(2 :: nat) ^ k dvd 2 ^ page_shift a"
        using m(3) unfolding ps by (simp add: le_imp_power_dvd)
      then have "2 ^ k dvd memory_start_address p"
        using wf geo by (auto simp: page_wf_def geometry_ok_def intro!: dvd_add dvd_mult intro: dvd_trans)
      then have al: "align_up (memory_current_address p) (2 ^ k) = memory_start_address p"
        unfolding p(2) by (simp add: align_up_id)
      obtain p' where g: "grab_page_memory p n (2 ^ k) = Some (memory_start_address p, p')"
        using wf p(3) unfolding grab_page_memory_pow2 al by (simp add: page_wf_def Let_def)
      have wf_b: "page_wf b p" using wf by (simp add: same)
      note gw = grab_page_memory_wf [OF wf_b g]
      let ?m = "m'\<lparr>pages_in_use_list := p' # pages_in_use_list m\<rparr>"
      have run: "page_manager_alloc a m n (2 ^ k) = Inr (Some (memory_start_address p), ?m, b)"
        using m fits None new(1) True p(1) g by (simp add: page_manager_alloc_def)
      have "alloc_inv b ([] @ p' # pages_in_use_list m @ others) maint'"
        by (rule alloc_inv_replace [OF inv' gw(1,2)])
      moreover have "\<exists>us q q' vs. p' # pages_in_use_list m = us @ q' # vs \<and>
         grab_page_memory q n (2 ^ k) = Some (memory_start_address p, q') \<and>
         alloc_inv b (us @ q # vs @ others) maint' \<and>
         handed_out (us @ q # vs) = handed_out (pages_in_use_list m)"
        using g inv' p(2)
        by (intro exI [of _ "[]"] exI [of _ p] exI [of _ p'] exI [of _ "pages_in_use_list m"])
          (simp add: handed_out_def)
      ultimately show ?thesis
        using run new(2,3) m(1) p(1)
        by (intro exI [of _ "Some (memory_start_address p)"] exI [of _ ?m] exI [of _ b]
            exI [of _ maint']) simp
    qed
  qed
qed

subsection \<open>Properties\<close>

text \<open>
  C4: memory that is handed out is fresh. In every state in which the pages of a manager and all
  the \<open>others\<close> are accounted for in the bitset, \<^verbatim>\<open>page_manager_alloc\<close> completes without a fault
  and without touching memory outside the bitset, keeps the accounting, and a block it returns is
  aligned as asked for, lies inside a page of the manager, and is disjoint from everything that
  any page manager of the allocator has handed out before.
\<close>

theorem page_manager_alloc_fresh:
  assumes inv: "alloc_inv a (pages_in_use_list m @ others) maint"
    and m: "moved_page_id_mapping_page m = None" "0 < n" "2 ^ k \<le> page_size a"
  shows "\<exists>r m' b maint'. page_manager_alloc a m n (2 ^ k) = Inr (r, m', b) \<and>
    alloc_inv b (pages_in_use_list m' @ others) maint' \<and>
    (\<forall>mem. r = Some mem \<longrightarrow> 2 ^ k dvd mem \<and>
       (\<exists>p\<in>set (pages_in_use_list m'). memory_start_address p \<le> mem \<and>
          mem + n = memory_current_address p \<and> memory_current_address p \<le> memory_end_address p) \<and>
       {mem ..< mem + n} \<inter> handed_out (pages_in_use_list m @ others) = {})"
proof -
  obtain r m' b maint' where run: "page_manager_alloc a m n (2 ^ k) = Inr (r, m', b)"
    and inv': "alloc_inv b (pages_in_use_list m' @ others) maint'"
    and block: "case r of
       None \<Rightarrow> pages_in_use_list m' = pages_in_use_list m
     | Some mem \<Rightarrow> \<exists>us p p' vs. pages_in_use_list m' = us @ p' # vs \<and>
         grab_page_memory p n (2 ^ k) = Some (mem, p') \<and> alloc_inv b (us @ p # vs @ others) maint' \<and>
         handed_out (us @ p # vs) = handed_out (pages_in_use_list m)"
    using page_manager_alloc_step [OF assms] by blast
  have "2 ^ k dvd mem \<and>
       (\<exists>p\<in>set (pages_in_use_list m'). memory_start_address p \<le> mem \<and>
          mem + n = memory_current_address p \<and> memory_current_address p \<le> memory_end_address p) \<and>
       {mem ..< mem + n} \<inter> handed_out (pages_in_use_list m @ others) = {}" if r: "r = Some mem" for mem
  proof -
    obtain us p p' vs where split: "pages_in_use_list m' = us @ p' # vs"
      "grab_page_memory p n (2 ^ k) = Some (mem, p')" "alloc_inv b (us @ p # vs @ others) maint'"
      "handed_out (us @ p # vs) = handed_out (pages_in_use_list m)"
      using block r by auto
    have wf: "page_wf b p" using alloc_invD(2) [OF split(3)] by simp
    note g = grab_page_memory_wf [OF wf split(2)]
    have "handed_out (pages_in_use_list m @ others) = handed_out (us @ p # vs @ others)"
      using split(4) handed_out_append [of "us @ p # vs" others] by (simp add: handed_out_append)
    then have "{mem ..< mem + n} \<inter> handed_out (pages_in_use_list m @ others) = {}"
      using fresh_block [OF split(3,2)] by simp
    moreover have "memory_start_address p' \<le> mem" using g(4,6) wf by (simp add: page_wf_def)
    ultimately show ?thesis using g split(1) by auto
  qed
  then show ?thesis using run inv'
    by (intro exI [of _ r] exI [of _ m'] exI [of _ b] exI [of _ maint']) simp
qed

definition example_allocator :: allocator where
  "example_allocator = \<lparr>base = 4096, allocated_memory = 4096, page_shift = 9, n_pages_bits = 3,
     n_pages_capacity = 4, n_pages_maintenance = 1, n_pages_high_watermark = 1,
     n_pages_allocated = 1, page_bitset = [- 15], free_objects = [4224, 4288, 4352]\<rparr>"

definition example_manager :: page_manager where
  "example_manager = \<lparr>manager_object = 4160, pages_in_use_list = [],
     moved_page_id_mapping_page = None, last_allocation = 0\<rparr>"

lemma example_bitset_bits: "j < 4 \<Longrightarrow> bs_bit [- 15] j \<longleftrightarrow> j = 0"
proof -
  assume "j < 4"
  then consider "j = 0" | "j = 1" | "j = 2" | "j = 3" by linarith
  then show ?thesis by cases (simp_all add: bs_bit_def)
qed

lemma example_allocator_inv: "alloc_inv example_allocator [] {0}"
proof -
  have geo: "geometry_ok example_allocator"
    using example_bitset_wf by (simp add: geometry_ok_def example_allocator_def)
  have "\<forall>j<4. bs_bit [- 15] j \<longleftrightarrow> j \<in> {0}" using example_bitset_bits by simp
  then show ?thesis
    using geo by (simp add: alloc_inv_def live_ids_def) (simp add: example_allocator_def)
qed

lemma page_manager_alloc_fresh_witness:
  "\<exists>r m' b. page_manager_alloc example_allocator example_manager 100 (2 ^ 3) = Inr (r, m', b)"
  using page_manager_alloc_fresh [of example_allocator example_manager "[]" "{0}" 100 3]
    example_allocator_inv
  by (auto simp: example_manager_def example_allocator_def page_size_def wrap32_def)

lemma put_union_object_inv:
  assumes "alloc_inv a live maint" shows "alloc_inv (put_union_object a obj) live maint"
proof -
  have same: "same_geometry a (put_union_object a obj)"
    by (simp add: same_geometry_def put_union_object_def)
  show ?thesis
  proof (rule alloc_inv_change [OF assms same])
    show "bitset_wf (page_bitset (put_union_object a obj)) (n_pages_capacity a)"
      using alloc_invD(1) [OF assms] by (simp add: put_union_object_def geometry_ok_def)
  qed (use assms in \<open>simp_all add: alloc_inv_def put_union_object_def\<close>)
qed

lemma mapping_page_back:
  assumes "alloc_inv b (map fst (case mp of None \<Rightarrow> [] | Some mp \<Rightarrow> [mp]) @ others) maint"
  obtains c where "(case mp of None \<Rightarrow> Inr b | Some (p, _) \<Rightarrow> put_page b p) = Inr c" "alloc_inv c others maint"
    "same_geometry b c"
proof (cases mp)
  case None
  then show ?thesis using assms that [of b] by simp
next
  case (Some q)
  obtain p ids where q: "q = (p, ids)" by (cases q)
  have "alloc_inv b (p # others) maint" using assms Some q by simp
  then obtain c where "put_page b p = Inr c" "alloc_inv c others maint" "same_geometry b c" using put_page_inv by blast
  then show ?thesis using that [of c] Some q by simp
qed

lemma pages_given_back:
  assumes before: "alloc_inv a (ps @ others) maint" and geo: "same_geometry a b" and after: "alloc_inv b others maint"
    and j: "j \<in> live_ids a ps"
  shows "bs_bit (page_bitset a) j \<and> \<not> bs_bit (page_bitset b) j"
proof -
  obtain p where p: "p \<in> set ps" "j \<in> page_ids a p" using j by (auto simp: live_ids_def)
  then have "page_wf a p" using before by (simp add: alloc_inv_def)
  then have cap: "j < n_pages_capacity a" using p(2) by (auto simp: page_wf_def page_ids_def)
  have live: "j \<in> live_ids a (ps @ others)" using j by (auto simp: live_ids_def)
  then have "bs_bit (page_bitset a) j" "j \<notin> maint" using before cap by (auto simp: alloc_inv_def)
  moreover have "page_ids a p \<inter> page_ids a q = {}" if "q \<in> set others" for q
    using before p(1) that by (auto simp: alloc_inv_def sorted_wrt_append)
  then have "j \<notin> live_ids a others" using p(2) by (auto simp: live_ids_def)
  ultimately show ?thesis using after cap same_geometry_simps [OF geo] by (simp add: alloc_inv_def)
qed

text \<open>
  C15: freeing gives every page back. After \<^verbatim>\<open>SCOREP_Allocator_Free\<close> the manager has no page, the
  bits of the pages that it had are clear, and the bitset accounts for the maintenance pages and the pages of the others only; deleting
  a page manager in addition gives back the page of its mapping and its descriptor.
\<close>

theorem free_returns_all_pages:
  assumes "alloc_inv a (pages_in_use_list m @ map fst (case moved_page_id_mapping_page m of
      None \<Rightarrow> [] | Some mp \<Rightarrow> [mp]) @ others) maint"
  shows "(\<exists>m' b. SCOREP_Allocator_Free a m = Inr (m', b) \<and> pages_in_use_list m' = [] \<and>
      last_allocation m' = 0 \<and> alloc_inv b (map fst (case moved_page_id_mapping_page m of
        None \<Rightarrow> [] | Some mp \<Rightarrow> [mp]) @ others) maint \<and>
      (\<forall>j\<in>live_ids a (pages_in_use_list m). bs_bit (page_bitset a) j \<and> \<not> bs_bit (page_bitset b) j)) \<and>
    (\<exists>b. SCOREP_Allocator_DeletePageManager a m = Inr b \<and> alloc_inv b others maint \<and>
       manager_object m \<in> set (free_objects b) \<and>
       (\<forall>j\<in>live_ids a (pages_in_use_list m @ map fst (case moved_page_id_mapping_page m of None \<Rightarrow> [] | Some mp \<Rightarrow> [mp])).
          bs_bit (page_bitset a) j \<and> \<not> bs_bit (page_bitset b) j))"
proof -
  let ?mp = "map fst (case moved_page_id_mapping_page m of None \<Rightarrow> [] | Some mp \<Rightarrow> [mp])"
  obtain b where b: "put_pages a (pages_in_use_list m) = Inr b" "alloc_inv b (?mp @ others) maint" "same_geometry a b"
    using put_pages_inv [OF assms] by blast
  obtain m' where free: "SCOREP_Allocator_Free a m = Inr (m', b)" "pages_in_use_list m' = []"
    "last_allocation m' = 0"
    by (simp add: SCOREP_Allocator_Free_def b(1))
  obtain c where c: "(case moved_page_id_mapping_page m of None \<Rightarrow> Inr b | Some (p, _) \<Rightarrow> put_page b p) = Inr c"
    "alloc_inv c others maint" "same_geometry b c"
    by (rule mapping_page_back [OF b(2)])
  let ?d = "put_union_object c (manager_object m)"
  have del: "SCOREP_Allocator_DeletePageManager a m = Inr ?d"
    by (simp add: SCOREP_Allocator_DeletePageManager_def b(1) c(1))
  have inv: "alloc_inv ?d others maint" by (rule put_union_object_inv [OF c(2)])
  have "same_geometry c ?d" by (simp add: same_geometry_def put_union_object_def)
  then have geo: "same_geometry a ?d" using b(3) c(3) same_geometry_trans by blast
  have all: "alloc_inv a ((pages_in_use_list m @ ?mp) @ others) maint" using assms by simp
  show ?thesis
  proof (intro conjI exI)
    show "SCOREP_Allocator_Free a m = Inr (m', b)" by (rule free)
    show "\<forall>j\<in>live_ids a (pages_in_use_list m). bs_bit (page_bitset a) j \<and> \<not> bs_bit (page_bitset b) j"
      using pages_given_back [OF assms b(3,2)] by blast
    show "SCOREP_Allocator_DeletePageManager a m = Inr ?d" by (rule del)
    show "alloc_inv ?d others maint" by (rule inv)
    show "\<forall>j\<in>live_ids a (pages_in_use_list m @ ?mp). bs_bit (page_bitset a) j \<and> \<not> bs_bit (page_bitset ?d) j"
      using pages_given_back [OF all geo inv] by blast
  qed (simp_all add: b(2) free put_union_object_def)
qed

text \<open>A manager with a page of one unit, and a page of two units for its mapping, which fill an allocator of four units.\<close>

definition busy_page :: "nat \<Rightarrow> nat \<Rightarrow> nat \<Rightarrow> alloc_page" where
  "busy_page obj from number =
     \<lparr>page_object = obj, memory_start_address = 4096 + from * 512, memory_end_address = 4096 + (from + number) * 512,
      memory_current_address = 4096 + from * 512 + 100, memory_alignment_loss = 0\<rparr>"

definition busy_allocator :: allocator where
  "busy_allocator = example_allocator\<lparr>page_bitset := [- 1], n_pages_allocated := 4, free_objects := []\<rparr>"

definition busy_manager :: page_manager where
  "busy_manager = \<lparr>manager_object = 4160, pages_in_use_list = [busy_page 4224 1 1],
     moved_page_id_mapping_page = Some (busy_page 4288 2 2, [0, 1]), last_allocation = 0\<rparr>"

lemma busy_pages:
  "page_first busy_allocator (busy_page obj from number) = from"
  "page_count busy_allocator (busy_page obj from number) = number"
  by (simp_all add: page_first_def page_count_def busy_allocator_def example_allocator_def busy_page_def)

lemma busy_page_wf: "0 < number \<Longrightarrow> from + number \<le> 4 \<Longrightarrow> page_wf busy_allocator (busy_page obj from number)"
  by (simp add: page_wf_def busy_pages) (simp add: busy_allocator_def example_allocator_def busy_page_def)

lemma busy_allocator_inv: "alloc_inv busy_allocator [busy_page 4224 1 1, busy_page 4288 2 2] {0}"
proof -
  have "bitset_wf [- 1] 4" by (simp add: bitset_wf_def n_words_of_def bs_bit_def upt_rec)
  then have "geometry_ok busy_allocator"
    by (simp add: geometry_ok_def busy_allocator_def example_allocator_def)
  moreover have "n_pages_capacity busy_allocator = 4" "page_bitset busy_allocator = [- 1]"
    by (simp_all add: busy_allocator_def example_allocator_def)
  moreover have "bs_bit [- 1] j" if "j < 4" for j using that by (simp add: bs_bit_def)
  ultimately show ?thesis
    by (auto simp: alloc_inv_def live_ids_def page_ids_def busy_pages busy_page_wf)
qed

lemma free_returns_all_pages_witness:
  "\<exists>b. SCOREP_Allocator_DeletePageManager busy_allocator busy_manager = Inr b \<and> alloc_inv b [] {0} \<and>
     (\<forall>j\<in>{1, 2, 3}. bs_bit (page_bitset busy_allocator) j \<and> \<not> bs_bit (page_bitset b) j)"
proof -
  have "alloc_inv busy_allocator (pages_in_use_list busy_manager @
      map fst (case moved_page_id_mapping_page busy_manager of None \<Rightarrow> [] | Some mp \<Rightarrow> [mp]) @ []) {0}"
    using busy_allocator_inv by (simp add: busy_manager_def)
  moreover have "live_ids busy_allocator (pages_in_use_list busy_manager @
      map fst (case moved_page_id_mapping_page busy_manager of None \<Rightarrow> [] | Some mp \<Rightarrow> [mp])) = {1, 2, 3}"
    by (auto simp: busy_manager_def live_ids_def page_ids_def busy_pages)
  ultimately show ?thesis using free_returns_all_pages [of busy_allocator busy_manager "[]" "{0}"] by auto
qed

lemma find_pages_failed:
  assumes "geometry_ok a" and "0 < order" and "find_pages a order = Inr (pos, b)"
    and "n_pages_capacity a \<le> pos"
  shows "\<And>j. bs_bit (page_bitset b) j \<longleftrightarrow> bs_bit (page_bitset a) j"
    "n_pages_allocated b = wrap32 (n_pages_allocated a + order)" "n_pages_capacity b = n_pages_capacity a"
  using find_pages_correct [OF assms(1,2)] assms(3,4) by (auto simp: same_geometry_def)

text \<open>
  A page request that fails is counted as if it had been served. When there is a union object
  for the descriptor but no free range of pages, \<^verbatim>\<open>get_page\<close> returns the null pointer and leaves
  the bitset as it was, but the number of allocated pages, which \<^verbatim>\<open>SCOREP_Allocator_GetStats\<close>
  reports as the current one, has grown by the number of pages asked for and stays so.
\<close>

theorem failed_request_is_counted:
  assumes "geometry_ok a" and "0 < order" and "free_objects a \<noteq> []"
    and "get_page a order = Inr (None, b)"
  shows "(\<forall>j. bs_bit (page_bitset b) j \<longleftrightarrow> bs_bit (page_bitset a) j) \<and>
    n_pages_allocated b = wrap32 (n_pages_allocated a + order) \<and>
    pages_used (fst (SCOREP_Allocator_GetStats b s1 s2)) = wrap32 (n_pages_allocated a + order)"
proof -
  obtain obj rest where objs: "free_objects a = obj # rest" using assms(3) by (cases "free_objects a") auto
  let ?a = "a\<lparr>free_objects := rest\<rparr>"
  have geo: "geometry_ok ?a" using assms(1) by (simp add: geometry_ok_def)
  obtain pos c where c: "find_pages ?a order = Inr (pos, c)"
    using find_pages_correct [OF geo assms(2)] by blast
  have same: "n_pages_capacity c = n_pages_capacity ?a"
    using find_pages_correct [OF geo assms(2)] c by (auto simp: same_geometry_def)
  have run: "get_page a order = (if pos \<ge> n_pages_capacity c then Inr (None, put_union_object c obj)
      else Inr (Some (init_page c obj pos order), c))"
    using c objs by (simp add: get_page_def get_union_object_def find_pages_def)
  then have fail: "n_pages_capacity ?a \<le> pos" "b = put_union_object c obj"
    using assms(4) same by (auto split: if_splits)
  show ?thesis
    using find_pages_failed(1,2) [OF geo assms(2) c fail(1)]
    by (simp add: fail(2) put_union_object_def SCOREP_Allocator_GetStats_def Let_def)
qed

lemma failed_request_is_counted_witness:
  "\<exists>b. get_page example_allocator 5 = Inr (None, b) \<and> n_pages_allocated b = 6"
proof -
  have geo: "geometry_ok example_allocator" by (rule alloc_invD(1) [OF example_allocator_inv])
  obtain r b maint' where r: "get_page example_allocator 5 = Inr (r, b)" "same_geometry example_allocator b"
    "case r of None \<Rightarrow> alloc_inv b [] maint' | Some p \<Rightarrow> alloc_inv b (p # []) maint' \<and>
       memory_current_address p = memory_start_address p \<and> page_count example_allocator p = 5"
    using get_page_inv [OF example_allocator_inv, of 5] by auto
  have "page_wf b p \<Longrightarrow> page_count example_allocator p \<le> 4" for p
    unfolding same_geometry_simps [OF r(2)] by (simp add: page_wf_def example_allocator_def)
  then have none: "r = None"
    using r(3) alloc_invD(2) [of b "[the r]" maint'] by (cases r) fastforce+
  have "free_objects example_allocator \<noteq> []" by (simp add: example_allocator_def)
  from failed_request_is_counted [OF geo _ this r(1) [unfolded none]]
  have "n_pages_allocated b = wrap32 (n_pages_allocated example_allocator + 5)" by simp
  then show ?thesis using r(1) none by (simp add: example_allocator_def wrap32_def)
qed

end
