(* ===== verification/Utils_IO.thy ===== *)
theory Utils_IO
  imports Prelude
begin

section \<open>Strings, paths and lines of a file\<close>

text \<open>
  The helpers of \<^verbatim>\<open>common/utils/src/io/UTILS_IO_Tools.c\<close> and
  \<^verbatim>\<open>common/utils/src/cstr/UTILS_CStr.c\<close> that the parsers of the measurement system use.

  A C string is the list of its characters without the terminating null character. A stream is
  what is left of the file, the end-of-file indicator of \<^verbatim>\<open>stdio\<close>, and whether reading behind what is
  left fails (a read error) or meets the end of the file. \<^verbatim>\<open>fgets\<close> is modelled after its description
  in the C standard. Memory requests are answered by \<open>alloc\<close>, which is given the number of bytes.
\<close>

datatype error_code =
    SCOREP_SUCCESS
  | SCOREP_ERROR_INVALID_ARGUMENT
  | SCOREP_ERROR_MEM_ALLOC_FAILED
  | SCOREP_ERROR_END_OF_BUFFER
  | SCOREP_ERROR_FILE_INTERACTION
  | SCOREP_ERROR_FILE_CAN_NOT_OPEN
  | SCOREP_ERROR_PARSE_SYNTAX
  | SCOREP_ERROR_PROCESSED_WITH_FAULTS

record file_stream =
  left_over :: string
  feof :: bool
  broken :: bool

record line_buffer =
  buffer_chars :: "string option"
  buffer_size :: nat

abbreviation NUL :: char where "NUL \<equiv> CHR 0x00"
abbreviation NEWLINE :: char where "NEWLINE \<equiv> CHR 0x0A"

definition c_str :: "string \<Rightarrow> string" where
  "c_str = takeWhile (\<lambda>c. c \<noteq> NUL)"

definition strcspn :: "string \<Rightarrow> char list \<Rightarrow> nat" where
  "strcspn s reject = length (takeWhile (\<lambda>c. c \<noteq> NUL \<and> c \<notin> set reject) s)"

subsection \<open>Strings\<close>

definition UTILS_CStr_dup :: "(nat \<Rightarrow> bool) \<Rightarrow> string option \<Rightarrow> string option" where
  "UTILS_CStr_dup alloc source =
     (case source of
        None \<Rightarrow> None
      | Some s \<Rightarrow> if alloc (length s + 1) then Some s else None)"

text \<open>\<^verbatim>\<open>strncmp\<close> of the rest of a string with a pattern, over the length of the pattern, is \<open>0\<close>
  when the pattern is a prefix of the rest.\<close>

function cstr_find_from :: "string \<Rightarrow> string \<Rightarrow> nat \<Rightarrow> nat option" where
  "cstr_find_from str pat pos =
     (if pos < length str
      then if take (length pat) (drop pos str) = pat then Some pos
           else cstr_find_from str pat (pos + 1)
      else None)"
  by pat_completeness auto
termination by (relation "measure (\<lambda>(str, pat, pos). length str - pos)") auto

declare cstr_find_from.simps [simp del]

text \<open>The loop starts at the caller's position, which has to be within the string or at its end.\<close>

definition UTILS_CStr_find :: "string \<Rightarrow> string \<Rightarrow> nat \<Rightarrow> nat option outcome" where
  "UTILS_CStr_find str pat pos =
     (if pos \<le> length str then Inr (cstr_find_from str pat pos) else Inl Bad_Access)"

subsection \<open>Reading a line\<close>

definition BUFFER_SIZE :: nat where
  "BUFFER_SIZE = 1024"

text \<open>What is in front of the first newline, with it, if there is one.\<close>

fun first_line :: "string \<Rightarrow> string" where
  "first_line [] = []"
| "first_line (c # cs) = (if c = NEWLINE then [c] else c # first_line cs)"

definition fgets :: "nat \<Rightarrow> file_stream \<Rightarrow> string option \<times> file_stream" where
  "fgets n f =
     (let line = first_line (left_over f); s = take (n - 1) line;
          f' = f\<lparr>left_over := drop (length s) (left_over f)\<rparr>
      in if length s = n - 1 \<or> NEWLINE \<in> set line then (Some s, f')
         else if broken f then (None, f')
         else (if s = [] then None else Some s, f'\<lparr>feof := True\<rparr>))"

lemma first_line_split: "left = first_line left @ drop (length (first_line left)) left"
  by (induction left) auto

lemma fgets_consumes:
  "fgets n f = (Some s, f') \<Longrightarrow> 1 < n \<Longrightarrow> s \<noteq> [] \<and> left_over f = s @ left_over f' \<and> length s < n"
proof -
  assume fg: "fgets n f = (Some s, f')" and n: "1 < n"
  have s: "s = take (n - 1) (first_line (left_over f))"
    and rest: "left_over f' = drop (length s) (left_over f)"
    using fg by (auto simp: fgets_def Let_def split: if_splits)
  have "s \<noteq> []"
  proof
    assume "s = []"
    then have "first_line (left_over f) = []" using s n by simp
    then show False using fg n by (auto simp: fgets_def Let_def split: if_splits)
  qed
  moreover have "left_over f = s @ left_over f'"
    unfolding rest s using first_line_split [of "left_over f"]
    by (metis append_assoc append_eq_conv_conj append_take_drop_id)
  moreover have "length s < n" unfolding s using n by simp
  ultimately show ?thesis by blast
qed

text \<open>The buffer grows while it is full.\<close>

function get_line_loop ::
  "(nat \<Rightarrow> bool) \<Rightarrow> string \<Rightarrow> nat \<Rightarrow> file_stream \<Rightarrow> error_code \<times> line_buffer \<times> file_stream" where
  "get_line_loop alloc buf room f =
     (if length (c_str buf) = room - 1
      then let room' = room + BUFFER_SIZE
           in if \<not> alloc room'
              then (SCOREP_ERROR_MEM_ALLOC_FAILED, \<lparr>buffer_chars = None, buffer_size = 0\<rparr>, f)
              else (case fgets (BUFFER_SIZE + 1) f of
                      (None, f') \<Rightarrow>
                        (if feof f' then SCOREP_ERROR_END_OF_BUFFER else SCOREP_ERROR_FILE_INTERACTION,
                         \<lparr>buffer_chars = Some (c_str buf), buffer_size = room'\<rparr>, f')
                    | (Some s, f') \<Rightarrow> get_line_loop alloc (c_str buf @ s) room' f')
      else (SCOREP_SUCCESS, \<lparr>buffer_chars = Some (c_str buf), buffer_size = room\<rparr>, f))"
  by pat_completeness auto
termination
  by (relation "measure (\<lambda>(alloc, buf, room, f). length (left_over f))")
    (auto dest!: fgets_consumes [OF sym] simp: BUFFER_SIZE_def)

declare get_line_loop.simps [simp del]

definition UTILS_IO_GetLine ::
  "(nat \<Rightarrow> bool) \<Rightarrow> line_buffer \<Rightarrow> file_stream \<Rightarrow> error_code \<times> line_buffer \<times> file_stream" where
  "UTILS_IO_GetLine alloc b f =
     (let fresh = (buffer_chars b = None \<or> buffer_size b = 0);
          room = (if fresh then BUFFER_SIZE else buffer_size b)
      in if fresh \<and> \<not> alloc BUFFER_SIZE
         then (SCOREP_ERROR_MEM_ALLOC_FAILED, \<lparr>buffer_chars = None, buffer_size = 0\<rparr>, f)
         else (case fgets room f of
                 (None, f') \<Rightarrow>
                   (if feof f' then SCOREP_ERROR_END_OF_BUFFER else SCOREP_ERROR_FILE_INTERACTION,
                    \<lparr>buffer_chars = Some [], buffer_size = room\<rparr>, f')
               | (Some s, f') \<Rightarrow> get_line_loop alloc s room f'))"

lemma c_str_id [simp]: "NUL \<notin> set s \<Longrightarrow> c_str s = s"
  by (auto simp: c_str_def takeWhile_eq_all_conv)

lemma take_drop_more [simp]: "take n l @ drop n l @ r = l @ r"
  by (simp flip: append_assoc)

lemma first_line_newline: "NEWLINE \<notin> set l \<Longrightarrow> first_line (l @ NEWLINE # r) = l @ [NEWLINE]"
  by (induction l) auto

lemma first_line_last: "NEWLINE \<notin> set l \<Longrightarrow> first_line l = l"
  by (induction l) auto

lemma fgets_whole_line:
  assumes "left_over f = l @ NEWLINE # r" and "NEWLINE \<notin> set l" and "length l + 1 < n"
  shows "fgets n f = (Some (l @ [NEWLINE]), f\<lparr>left_over := r\<rparr>)"
  using assms by (simp add: fgets_def Let_def first_line_newline)

lemma fgets_part:
  assumes "left_over f = l @ rest" and "NEWLINE \<notin> set l" and "n - 1 \<le> length l"
    and "rest = [] \<or> hd rest = NEWLINE"
  shows "fgets n f = (Some (take (n - 1) l), f\<lparr>left_over := drop (n - 1) l @ rest\<rparr>)"
proof -
  have line: "first_line (left_over f) = l @ take 1 rest"
    using assms(1,2,4) by (cases rest) (auto simp: first_line_newline first_line_last)
  have part: "take (n - 1) (first_line (left_over f)) = take (n - 1) l" "length (take (n - 1) l) = n - 1"
    unfolding line using assms(3) by simp_all
  show ?thesis unfolding fgets_def Let_def part using assms(1,3) by simp
qed

text \<open>
  How long a line may be that is read on its own: the buffer, or the buffer after it has grown
  some times, must not be filled exactly.
\<close>

definition fits_apart :: "nat \<Rightarrow> nat \<Rightarrow> bool" where
  "fits_apart room n \<longleftrightarrow> (\<forall>k. n \<noteq> room - 1 + k * BUFFER_SIZE)"

lemma fits_apart_less: "n < room - 1 \<Longrightarrow> fits_apart room n"
  by (auto simp: fits_apart_def)

text \<open>A call that returns a line, or the end of the file, has consumed input or met the end.\<close>

lemma fgets_leaves: "fgets n f = (r, f') \<Longrightarrow> length (left_over f') \<le> length (left_over f)"
  by (auto simp: fgets_def Let_def split: if_splits)

lemma get_line_loop_progress:
  "get_line_loop alloc buf room f = (err, b', f') \<Longrightarrow>
   err = SCOREP_SUCCESS \<or> err = SCOREP_ERROR_END_OF_BUFFER \<Longrightarrow>
   length (left_over f') \<le> length (left_over f) \<and>
   (length (c_str buf) = room - 1 \<longrightarrow> length (left_over f') < length (left_over f) \<or> feof f')"
proof (induction alloc buf room f arbitrary: err b' f' rule: get_line_loop.induct)
  case (1 alloc buf room f)
  show ?case
  proof (cases "length (c_str buf) = room - 1")
    case False
    then show ?thesis using 1 by (simp add: get_line_loop.simps [of alloc buf room f])
  next
    case True
    have ok: "alloc (room + BUFFER_SIZE)"
      using 1 True by (auto simp: get_line_loop.simps [of alloc buf room f] Let_def split: if_splits)
    obtain r f1 where fg: "fgets (BUFFER_SIZE + 1) f = (r, f1)" by force
    show ?thesis
    proof (cases r)
      case None
      then have "feof f'" "f' = f1"
        using 1(2,3) True ok fg
        by (auto simp: get_line_loop.simps [of alloc buf room f] Let_def split: if_splits)
      then show ?thesis using fgets_leaves [OF fg] by simp
    next
      case (Some s)
      then have "get_line_loop alloc (c_str buf @ s) (room + BUFFER_SIZE) f1 = (err, b', f')"
        using 1(2) True ok fg by (simp add: get_line_loop.simps [of alloc buf room f] Let_def)
      then have "length (left_over f') \<le> length (left_over f1)"
        using 1(1) [OF True refl] ok fg Some 1(3) by auto
      moreover have "s \<noteq> [] \<and> left_over f = s @ left_over f1"
        using fgets_consumes fg Some by (simp add: BUFFER_SIZE_def)
      ultimately show ?thesis by (cases s) auto
    qed
  qed
qed

lemma get_line_progress:
  assumes "UTILS_IO_GetLine alloc b f = (err, b', f')"
    and "err = SCOREP_SUCCESS \<or> err = SCOREP_ERROR_END_OF_BUFFER"
  shows "length (left_over f') \<le> length (left_over f)"
    "length (left_over f') < length (left_over f) \<or> feof f'"
proof -
  define room where "room = (if buffer_chars b = None \<or> buffer_size b = 0 then BUFFER_SIZE else buffer_size b)"
  have room: "0 < room" by (simp add: room_def BUFFER_SIZE_def)
  obtain r f1 where fg: "fgets room f = (r, f1)" by force
  have run: "(case r of None \<Rightarrow> (if feof f1 then SCOREP_ERROR_END_OF_BUFFER else SCOREP_ERROR_FILE_INTERACTION,
        \<lparr>buffer_chars = Some [], buffer_size = room\<rparr>, f1)
      | Some s \<Rightarrow> get_line_loop alloc s room f1) = (err, b', f')"
    using assms fg unfolding UTILS_IO_GetLine_def Let_def room_def [symmetric]
    by (auto split: if_splits)
  have "length (left_over f') \<le> length (left_over f) \<and>
      (length (left_over f') < length (left_over f) \<or> feof f')"
  proof (cases r)
    case None
    then show ?thesis using run assms(2) fgets_leaves [OF fg] by (auto split: if_splits)
  next
    case (Some s)
    then have loop: "get_line_loop alloc s room f1 = (err, b', f')" using run by simp
    note p = get_line_loop_progress [OF loop assms(2)]
    show ?thesis
    proof (cases "room = 1")
      case True
      have "s = []" using fg Some True by (auto simp: fgets_def Let_def split: if_splits)
      then show ?thesis using p True fgets_leaves [OF fg] by (auto simp: c_str_def)
    next
      case False
      then show ?thesis using fgets_consumes [of room f s f1] fg Some room p by (cases s) auto
    qed
  qed
  then show "length (left_over f') \<le> length (left_over f)"
    "length (left_over f') < length (left_over f) \<or> feof f'" by blast+
qed

definition line_room :: "line_buffer \<Rightarrow> nat" where
  "line_room b = (if buffer_chars b = None \<or> buffer_size b = 0 then BUFFER_SIZE else buffer_size b)"

lemma get_line_first:
  assumes "\<And>n. alloc n"
  shows "UTILS_IO_GetLine alloc b f = (case fgets (line_room b) f of
      (None, f') \<Rightarrow> (if feof f' then SCOREP_ERROR_END_OF_BUFFER else SCOREP_ERROR_FILE_INTERACTION,
         \<lparr>buffer_chars = Some [], buffer_size = line_room b\<rparr>, f')
    | (Some s, f') \<Rightarrow> get_line_loop alloc s (line_room b) f')"
  unfolding UTILS_IO_GetLine_def line_room_def Let_def by (simp add: assms)

lemma get_line_short:
  assumes "\<And>n. alloc n" and "left_over f = l @ NEWLINE # r" and "NEWLINE \<notin> set l" and "NUL \<notin> set l"
    and "length l + 2 < line_room b"
  shows "UTILS_IO_GetLine alloc b f =
    (SCOREP_SUCCESS, \<lparr>buffer_chars = Some (l @ [NEWLINE]), buffer_size = line_room b\<rparr>, f\<lparr>left_over := r\<rparr>)"
proof -
  have "fgets (line_room b) f = (Some (l @ [NEWLINE]), f\<lparr>left_over := r\<rparr>)"
    by (rule fgets_whole_line) (use assms in auto)
  moreover have fits: "Suc (length l) \<noteq> line_room b - Suc 0" using assms(5) by linarith
  ultimately show ?thesis
    unfolding get_line_first [OF assms(1)] using assms(4)
    by (simp add: get_line_loop.simps [of alloc "l @ [NEWLINE]"])
qed

lemma get_line_at_end:
  assumes "\<And>n. alloc n" and "left_over f = []" and "\<not> broken f" and "1 < line_room b"
  shows "UTILS_IO_GetLine alloc b f =
    (SCOREP_ERROR_END_OF_BUFFER, \<lparr>buffer_chars = Some [], buffer_size = line_room b\<rparr>, f\<lparr>feof := True\<rparr>)"
  unfolding get_line_first [OF assms(1)] using assms(2-4) by (simp add: fgets_def)

lemma get_line_loop_line:
  assumes "\<And>n. alloc n" and "NUL \<notin> set buf" and "NUL \<notin> set l" and "length buf = room - 1" and "1 < room"
    and "left_over f = l @ NEWLINE # r" and "NEWLINE \<notin> set l" and "fits_apart room (length buf + length l + 1)"
  shows "\<exists>room'. get_line_loop alloc buf room f =
    (SCOREP_SUCCESS, \<lparr>buffer_chars = Some (buf @ l @ [NEWLINE]), buffer_size = room'\<rparr>, f\<lparr>left_over := r\<rparr>)"
  using assms(2-)
proof (induction "length l" arbitrary: l buf room f rule: less_induct)
  case less
  have loop: "get_line_loop alloc buf room f =
    (case fgets (BUFFER_SIZE + 1) f of
       (None, f') \<Rightarrow> (if feof f' then SCOREP_ERROR_END_OF_BUFFER else SCOREP_ERROR_FILE_INTERACTION,
          \<lparr>buffer_chars = Some buf, buffer_size = room + BUFFER_SIZE\<rparr>, f')
     | (Some s, f') \<Rightarrow> get_line_loop alloc (buf @ s) (room + BUFFER_SIZE) f')"
    unfolding get_line_loop.simps [of alloc buf room f] c_str_id [OF less.prems(1)] Let_def
    using less.prems(3) assms(1) by simp
  have fits: "length l + 1 \<noteq> BUFFER_SIZE"
    using less.prems(3,7) by (auto simp: fits_apart_def dest: spec [where x = 1])
  show ?case
  proof (cases "length l + 1 < BUFFER_SIZE")
    case True
    then have fg: "fgets (BUFFER_SIZE + 1) f = (Some (l @ [NEWLINE]), f\<lparr>left_over := r\<rparr>)"
      by (intro fgets_whole_line less.prems) simp
    have "length (buf @ l @ [NEWLINE]) \<noteq> room + BUFFER_SIZE - 1"
      using True less.prems(3,4) by simp
    then show ?thesis
      unfolding loop fg using less.prems(1,2)
      by (simp add: get_line_loop.simps [of alloc "buf @ l @ [NEWLINE]"])
  next
    case False
    then have le: "BUFFER_SIZE \<le> length l" using fits by simp
    then have fg: "fgets (BUFFER_SIZE + 1) f =
        (Some (take BUFFER_SIZE l), f\<lparr>left_over := drop BUFFER_SIZE l @ NEWLINE # r\<rparr>)"
      using fgets_part [OF less.prems(5,6), of "BUFFER_SIZE + 1"] by simp
    have "fits_apart (room + BUFFER_SIZE) (length buf + length l + 1)"
      unfolding fits_apart_def
    proof
      fix k
      have "length buf + length l + 1 \<noteq> room - 1 + Suc k * BUFFER_SIZE"
        using less.prems(7) unfolding fits_apart_def by blast
      then show "length buf + length l + 1 \<noteq> room + BUFFER_SIZE - 1 + k * BUFFER_SIZE"
        using less.prems(4) by simp
    qed
    then have "\<exists>room'. get_line_loop alloc (buf @ take BUFFER_SIZE l) (room + BUFFER_SIZE)
        (f\<lparr>left_over := drop BUFFER_SIZE l @ NEWLINE # r\<rparr>) =
      (SCOREP_SUCCESS, \<lparr>buffer_chars = Some ((buf @ take BUFFER_SIZE l) @ drop BUFFER_SIZE l @ [NEWLINE]),
        buffer_size = room'\<rparr>, f\<lparr>left_over := drop BUFFER_SIZE l @ NEWLINE # r\<rparr>\<lparr>left_over := r\<rparr>)"
      using less.prems le
      by (intro less.hyps) (auto simp: BUFFER_SIZE_def dest: in_set_takeD in_set_dropD)
    then show ?thesis unfolding loop fg by simp
  qed
qed

text \<open>
  C23: reading a line. A line that does not fill the buffer exactly, at its present length or after
  it has grown, is returned whole, with its newline, however long it is, and the stream stands at
  the start of the next line.
\<close>

theorem get_line_reads_line:
  assumes "\<And>n. alloc n" and "left_over f = l @ NEWLINE # r" and "NEWLINE \<notin> set l" and "NUL \<notin> set l"
    and "1 < line_room b" and "fits_apart (line_room b) (length l + 1)"
  shows "\<exists>room. UTILS_IO_GetLine alloc b f =
    (SCOREP_SUCCESS, \<lparr>buffer_chars = Some (l @ [NEWLINE]), buffer_size = room\<rparr>, f\<lparr>left_over := r\<rparr>)"
proof -
  note run = get_line_first [OF assms(1)]
  have fits: "length l + 1 \<noteq> line_room b - 1"
    using assms(6) by (auto simp: fits_apart_def dest: spec [where x = 0])
  show ?thesis
  proof (cases "length l + 1 < line_room b")
    case True
    note fg = fgets_whole_line [OF assms(2,3) True]
    show ?thesis
      unfolding run fg using fits assms(4)
      by (simp add: get_line_loop.simps [of alloc "l @ [NEWLINE]"])
  next
    case False
    then have le: "line_room b - 1 \<le> length l" by simp
    have fg: "fgets (line_room b) f = (Some (take (line_room b - 1) l),
        f\<lparr>left_over := drop (line_room b - 1) l @ NEWLINE # r\<rparr>)"
      using fgets_part [OF assms(2,3) le] by simp
    have "\<exists>room'. get_line_loop alloc (take (line_room b - 1) l) (line_room b)
        (f\<lparr>left_over := drop (line_room b - 1) l @ NEWLINE # r\<rparr>) =
      (SCOREP_SUCCESS, \<lparr>buffer_chars = Some (take (line_room b - 1) l @ drop (line_room b - 1) l @ [NEWLINE]),
        buffer_size = room'\<rparr>, f\<lparr>left_over := drop (line_room b - 1) l @ NEWLINE # r\<rparr>\<lparr>left_over := r\<rparr>)"
      using le assms(3-6)
      by (intro get_line_loop_line assms(1)) (auto dest: in_set_takeD in_set_dropD)
    then show ?thesis unfolding run fg by simp
  qed
qed

definition example_stream :: "string \<Rightarrow> file_stream" where
  "example_stream s = \<lparr>left_over = s, feof = False, broken = False\<rparr>"

lemma get_line_reads_line_witness:
  "\<exists>room. UTILS_IO_GetLine (\<lambda>_. True) \<lparr>buffer_chars = None, buffer_size = 0\<rparr> (example_stream ''ab\<newline>cd'') =
     (SCOREP_SUCCESS, \<lparr>buffer_chars = Some ''ab\<newline>'', buffer_size = room\<rparr>, example_stream ''cd'')"
  using get_line_reads_line [of "\<lambda>_. True" "example_stream ''ab\<newline>cd''" "''ab''" "''cd''"
      "\<lparr>buffer_chars = None, buffer_size = 0\<rparr>"]
  by (simp add: example_stream_def line_room_def BUFFER_SIZE_def fits_apart_less)

text \<open>
  A line that fills the buffer exactly is not returned on its own. When the newline is the last
  character the buffer has room for, the loop takes the full buffer for a part of a line and appends
  the next line of the file; the caller sees both as one line.
\<close>

theorem get_line_joins_lines:
  assumes "\<And>n. alloc n" and "left_over f = l @ NEWLINE # l' @ NEWLINE # r"
    and "NEWLINE \<notin> set l" and "NUL \<notin> set l" and "NEWLINE \<notin> set l'" and "NUL \<notin> set l'"
    and "length l + 2 = line_room b" and "length l' + 1 < BUFFER_SIZE"
  shows "\<exists>room. UTILS_IO_GetLine alloc b f =
    (SCOREP_SUCCESS, \<lparr>buffer_chars = Some (l @ NEWLINE # l' @ [NEWLINE]), buffer_size = room\<rparr>,
     f\<lparr>left_over := r\<rparr>)"
proof -
  have "\<exists>room'. get_line_loop alloc (l @ [NEWLINE]) (line_room b) (f\<lparr>left_over := l' @ NEWLINE # r\<rparr>) =
      (SCOREP_SUCCESS, \<lparr>buffer_chars = Some ((l @ [NEWLINE]) @ l' @ [NEWLINE]), buffer_size = room'\<rparr>,
       f\<lparr>left_over := l' @ NEWLINE # r\<rparr>\<lparr>left_over := r\<rparr>)"
  proof (rule get_line_loop_line [OF assms(1)])
    have "length l' + 1 \<noteq> k * BUFFER_SIZE" for k
      using assms(8) by (cases k) auto
    then show "fits_apart (line_room b) (length (l @ [NEWLINE]) + length l' + 1)"
      by (simp add: fits_apart_def assms(7) [symmetric])
  qed (use assms in auto)
  moreover have "fgets (line_room b) f = (Some (l @ [NEWLINE]), f\<lparr>left_over := l' @ NEWLINE # r\<rparr>)"
    by (rule fgets_whole_line) (use assms in auto)
  ultimately show ?thesis unfolding get_line_first [OF assms(1)] by simp
qed

lemma get_line_joins_lines_witness:
  "\<exists>room. UTILS_IO_GetLine (\<lambda>_. True) \<lparr>buffer_chars = Some [], buffer_size = 4\<rparr>
     (example_stream ''ab\<newline>cd\<newline>'') =
     (SCOREP_SUCCESS, \<lparr>buffer_chars = Some ''ab\<newline>cd\<newline>'', buffer_size = room\<rparr>, example_stream [])"
  using get_line_joins_lines [of "\<lambda>_. True" "example_stream ''ab\<newline>cd\<newline>''" "''ab''" "''cd''" "[]"
      "\<lparr>buffer_chars = Some [], buffer_size = 4\<rparr>"]
  by (simp add: example_stream_def line_room_def BUFFER_SIZE_def)

subsection \<open>Paths\<close>

definition UTILS_IO_HasPath :: "string \<Rightarrow> bool" where
  "UTILS_IO_HasPath path \<longleftrightarrow> strcspn path ''/'' < length path"

text \<open>The loop runs down from the last character; \<open>n\<close> is \<^verbatim>\<open>pos + 1\<close>.\<close>

primrec without_path_from :: "string \<Rightarrow> nat \<Rightarrow> string" where
  "without_path_from path 0 = path"
| "without_path_from path (Suc n) =
     (if path ! n = CHR ''/'' then drop (n + 1) path else without_path_from path n)"

definition UTILS_IO_GetWithoutPath :: "string \<Rightarrow> string" where
  "UTILS_IO_GetWithoutPath path = without_path_from path (length path)"

text \<open>
  \<^verbatim>\<open>UTILS_IO_JoinPath\<close> walks twice over its arguments: the first walk computes the length of the
  result and the position of the last absolute path, the second one copies. A copy that does not
  fit into the block is an access out of bounds.
\<close>

fun join_lengths :: "string option list \<Rightarrow> nat \<Rightarrow> nat \<Rightarrow> string \<Rightarrow> nat \<Rightarrow> (nat \<times> nat) option" where
  "join_lengths [] i len sep last_absolute = Some (len, last_absolute)"
| "join_lengths (None # ps) i len sep last_absolute = None"
| "join_lengths (Some path # ps) i len sep last_absolute =
     (if path = [] then join_lengths ps (i + 1) len sep last_absolute
      else if hd path = CHR ''/''
      then join_lengths ps (i + 1) (length path) ''/'' i
      else join_lengths ps (i + 1) (len + length sep + length path) ''/'' last_absolute)"

definition strcpy_end :: "nat \<Rightarrow> string \<Rightarrow> string \<Rightarrow> string outcome" where
  "strcpy_end room result s =
     (if length result + length s + 1 \<le> room then Inr (result @ s) else Inl Bad_Access)"

fun join_copy :: "string option list \<Rightarrow> nat \<Rightarrow> nat \<Rightarrow> nat \<Rightarrow> string \<Rightarrow> string \<Rightarrow> string outcome" where
  "join_copy [] i last_absolute room sep result = Inr result"
| "join_copy (None # ps) i last_absolute room sep result =
     (if i < last_absolute then join_copy ps (i + 1) last_absolute room sep result else Inl Bad_Access)"
| "join_copy (Some path # ps) i last_absolute room sep result =
     (if i < last_absolute \<or> path = [] then join_copy ps (i + 1) last_absolute room sep result
      else and_then (strcpy_end room result sep) (\<lambda>result.
           and_then (strcpy_end room result path) (\<lambda>result.
           join_copy ps (i + 1) last_absolute room ''/'' result)))"

definition UTILS_IO_JoinPath :: "(nat \<Rightarrow> bool) \<Rightarrow> string option list \<Rightarrow> string option outcome" where
  "UTILS_IO_JoinPath alloc paths =
     (case join_lengths paths 0 0 [] 0 of
        None \<Rightarrow> Inr None
      | Some (len, last_absolute) \<Rightarrow>
          if \<not> alloc (len + 1) then Inr None
          else and_then (join_copy paths 0 last_absolute (len + 1) [] []) (\<lambda>r. Inr (Some r)))"

text \<open>What a joined path is: the arguments from the last absolute one on, without the empty ones.\<close>

definition absolute :: "string \<Rightarrow> bool" where
  "absolute p \<longleftrightarrow> p \<noteq> [] \<and> hd p = CHR ''/''"

fun from_last_absolute :: "string list \<Rightarrow> string list" where
  "from_last_absolute [] = []"
| "from_last_absolute (p # ps) = (if list_ex absolute ps then from_last_absolute ps else p # ps)"

fun join_from :: "string \<Rightarrow> string list \<Rightarrow> string" where
  "join_from sep [] = []"
| "join_from sep (p # ps) = (if p = [] then join_from sep ps else sep @ p @ join_from ''/'' ps)"

lemma from_last_absolute_head:
  "list_ex absolute ps \<Longrightarrow> \<exists>q qs. from_last_absolute ps = q # qs \<and> absolute q \<and> \<not> list_ex absolute qs"
  by (induction ps) auto

lemma from_last_absolute_suffix:
  "from_last_absolute ps = drop (length ps - length (from_last_absolute ps)) ps \<and>
   length (from_last_absolute ps) \<le> length ps"
  by (induction ps) (auto simp: Suc_diff_le)

lemma join_lengths_spec:
  "join_lengths (map Some ps) i len sep la = Some
     (if list_ex absolute ps
      then (length (join_from [] (from_last_absolute ps)), i + (length ps - length (from_last_absolute ps)))
      else (len + length (join_from sep ps), la))"
proof (induction ps arbitrary: i len sep la)
  case (Cons p ps)
  have abs: "\<not> absolute []" "p \<noteq> [] \<Longrightarrow> hd p = CHR ''/'' \<longleftrightarrow> absolute p"
    by (simp_all add: absolute_def)
  show ?case
  proof (cases "list_ex absolute ps")
    case True
    then show ?thesis
      using Cons from_last_absolute_suffix [of ps] by (cases "p = []") (simp_all add: Suc_diff_le)
  next
    case False
    then show ?thesis using Cons by (cases "p = []") (simp_all add: abs)
  qed
qed simp

lemma join_copy_skip:
  "k \<le> length ps \<Longrightarrow> i + k = la \<Longrightarrow>
   join_copy (map Some ps) i la room sep r = join_copy (map Some (drop k ps)) la la room sep r"
proof (induction ps arbitrary: i k)
  case (Cons p ps)
  then show ?case by (cases k) auto
qed simp

lemma join_copy_all:
  "la \<le> i \<Longrightarrow> length r + length (join_from sep ps) + 1 \<le> room \<Longrightarrow>
   join_copy (map Some ps) i la room sep r = Inr (r @ join_from sep ps)"
proof (induction ps arbitrary: i r sep)
  case (Cons p ps)
  then show ?case by (cases "p = []") (simp_all add: strcpy_end_def)
qed simp

text \<open>
  C16: joining paths. For arguments that are all given, the result is the concatenation, with
  slashes between them, of the non-empty arguments from the last absolute one on, the block that
  the first walk asks for is large enough for every copy of the second one, and no memory is
  written behind its end; an argument that is the null pointer gives the null pointer.
\<close>

theorem join_path_correct:
  assumes "\<And>n. alloc n"
  shows "UTILS_IO_JoinPath alloc (map Some ps) = Inr (Some (join_from [] (from_last_absolute ps))) \<and>
    UTILS_IO_JoinPath alloc (map Some ps @ None # qs) = Inr None"
proof -
  have whole: "\<not> list_ex absolute ps \<Longrightarrow> from_last_absolute ps = ps" by (cases ps) auto
  have null: "join_lengths (map Some ps @ None # qs) i t s la = None" for i t s la
    by (induction ps arbitrary: i t s la) auto
  let ?k = "length ps - length (from_last_absolute ps)"
  have "join_copy (map Some ps) 0 ?k (length (join_from [] (from_last_absolute ps)) + 1) [] [] =
      Inr (join_from [] (from_last_absolute ps))"
    using join_copy_skip [of ?k ps 0 ?k] join_copy_all [of ?k ?k "[]" "[]" "from_last_absolute ps"]
      from_last_absolute_suffix [of ps] by simp
  then show ?thesis
    using assms join_copy_all [of 0 0 "[]" "[]" ps] null whole
    by (auto simp: UTILS_IO_JoinPath_def join_lengths_spec)
qed

lemma join_path_correct_witness:
  "UTILS_IO_JoinPath (\<lambda>_. True) [Some ''a'', Some ''/b'', Some [], Some ''c''] = Inr (Some ''/b/c'')"
  using join_path_correct [of "\<lambda>_. True" "[''a'', ''/b'', [], ''c'']" "[]"]
  by (simp add: absolute_def)

lemma without_path_spec:
  "n \<le> length path \<Longrightarrow> CHR ''/'' \<notin> set (drop n path) \<Longrightarrow>
   \<exists>dir. without_path_from path n = drop (length dir) path \<and> path = dir @ without_path_from path n \<and>
     CHR ''/'' \<notin> set (without_path_from path n) \<and> (dir = [] \<or> last dir = CHR ''/'')"
proof (induction n)
  case (Suc n)
  show ?case
  proof (cases "path ! n = CHR ''/''")
    case True
    have "last (take (Suc n) path) = path ! n" using Suc.prems(1) by (simp add: take_Suc_conv_app_nth)
    then show ?thesis
      using True Suc.prems by (intro exI [of _ "take (Suc n) path"]) auto
  next
    case False
    then have "CHR ''/'' \<notin> set (drop n path)"
      using Suc.prems by (simp flip: Cons_nth_drop_Suc)
    then show ?thesis using Suc False by simp
  qed
qed auto

end
