(* ===== verification/FilterRules.thy ===== *)
theory FilterRules
  imports Utils_IO
begin

section \<open>Filter rules: matching and parsing\<close>

text \<open>
  The model of \<^verbatim>\<open>src/utils/filter/scorep_filter_matching.c\<close> and
  \<^verbatim>\<open>scorep_filter_parser.c\<close>. A list of rules linked by \<^verbatim>\<open>next\<close> is a list; the tail pointer of the C
  code always holds the address of the last \<^verbatim>\<open>next\<close>, so adding a rule appends it. The pattern of a rule
  is \<open>None\<close> when the copy of the pattern could not be allocated. \<^verbatim>\<open>fnmatch\<close> of the C library is the
  parameter \<open>fnmatch\<close>, a function of the pattern and the string; \<^verbatim>\<open>0\<close> is a match, \<^verbatim>\<open>FNM_NOMATCH\<close> none,
  and every other value an error.
\<close>

record filter_rule =
  pattern :: "string option"
  is_mangled :: bool
  is_exclude :: bool

record rule_filter =
  file_rules :: "filter_rule list"
  function_rules :: "filter_rule list"

type_synonym fnmatch_function = "string \<Rightarrow> string \<Rightarrow> int"

definition FNM_NOMATCH :: int where
  "FNM_NOMATCH = 1"

definition SIZEOF_RULE :: nat where
  "SIZEOF_RULE = 24"

subsection \<open>Rules\<close>

definition scorep_filter_add_rule ::
  "(nat \<Rightarrow> bool) \<Rightarrow> filter_rule list \<Rightarrow> string \<Rightarrow> bool \<Rightarrow> bool \<Rightarrow> error_code \<times> filter_rule list" where
  "scorep_filter_add_rule alloc rules rule exclude mangled =
     (if rule = [] then (SCOREP_ERROR_INVALID_ARGUMENT, rules)
      else if \<not> alloc SIZEOF_RULE then (SCOREP_ERROR_MEM_ALLOC_FAILED, rules)
      else (SCOREP_SUCCESS,
        rules @ [\<lparr>pattern = UTILS_CStr_dup alloc (Some rule), is_mangled = mangled, is_exclude = exclude\<rparr>]))"

text \<open>Releasing a list: the rules, with their patterns, in the order in which they are freed.\<close>

fun scorep_filter_free_rules :: "filter_rule list \<Rightarrow> filter_rule list" where
  "scorep_filter_free_rules [] = []"
| "scorep_filter_free_rules (head # tail) = head # scorep_filter_free_rules tail"

definition rule_fnmatch :: "fnmatch_function \<Rightarrow> filter_rule \<Rightarrow> string \<Rightarrow> int outcome" where
  "rule_fnmatch fnmatch rule s =
     (case pattern rule of None \<Rightarrow> Inl Bad_Access | Some p \<Rightarrow> Inr (fnmatch p s))"

definition match_result :: "int \<Rightarrow> bool \<times> error_code" where
  "match_result v =
     (if v = 0 then (True, SCOREP_SUCCESS)
      else if v \<noteq> FNM_NOMATCH then (False, SCOREP_ERROR_PROCESSED_WITH_FAULTS)
      else (False, SCOREP_SUCCESS))"

definition scorep_filter_match_file_rule ::
  "fnmatch_function \<Rightarrow> string \<Rightarrow> filter_rule \<Rightarrow> (bool \<times> error_code) outcome" where
  "scorep_filter_match_file_rule fnmatch with_path rule =
     and_then (rule_fnmatch fnmatch rule with_path) (\<lambda>v. Inr (match_result v))"

definition scorep_filter_match_function_rule ::
  "fnmatch_function \<Rightarrow> string \<Rightarrow> string option \<Rightarrow> filter_rule \<Rightarrow> (bool \<times> error_code) outcome" where
  "scorep_filter_match_function_rule fnmatch function_name mangled_name rule =
     and_then
       (case mangled_name of
          Some m \<Rightarrow> if is_mangled rule then rule_fnmatch fnmatch rule m
                    else rule_fnmatch fnmatch rule function_name
        | None \<Rightarrow> rule_fnmatch fnmatch rule function_name)
       (\<lambda>v. Inr (match_result v))"

text \<open>
  The loop over the rules, which the file and the function variant share: a rule is tried only when
  it could change the verdict so far. The error of the last rule that was tried is left in \<^verbatim>\<open>*err\<close>.
\<close>

fun match_rules ::
  "(filter_rule \<Rightarrow> (bool \<times> error_code) outcome) \<Rightarrow> filter_rule list \<Rightarrow> bool \<Rightarrow> error_code
     \<Rightarrow> (bool \<times> error_code) outcome" where
  "match_rules try [] excluded err = Inr (excluded, err)"
| "match_rules try (rule # rules) excluded err =
     (if \<not> excluded \<and> is_exclude rule
      then and_then (try rule) (\<lambda>(matched, err).
        if err \<noteq> SCOREP_SUCCESS then Inr (False, err) else match_rules try rules matched err)
      else if excluded \<and> \<not> is_exclude rule
      then and_then (try rule) (\<lambda>(matched, err).
        if err \<noteq> SCOREP_SUCCESS then Inr (False, err) else match_rules try rules (\<not> matched) err)
      else match_rules try rules excluded err)"

definition scorep_filter_match_file ::
  "fnmatch_function \<Rightarrow> filter_rule list \<Rightarrow> string option \<Rightarrow> (bool \<times> error_code) outcome" where
  "scorep_filter_match_file fnmatch rules file_name =
     (case file_name of
        None \<Rightarrow> Inr (False, SCOREP_SUCCESS)
      | Some n \<Rightarrow> match_rules (scorep_filter_match_file_rule fnmatch n) rules False SCOREP_SUCCESS)"

definition scorep_filter_match_function ::
  "fnmatch_function \<Rightarrow> filter_rule list \<Rightarrow> string option \<Rightarrow> string option \<Rightarrow> (bool \<times> error_code) outcome" where
  "scorep_filter_match_function fnmatch rules function_name mangled_name =
     (case function_name of
        None \<Rightarrow> Inr (False, SCOREP_SUCCESS)
      | Some n \<Rightarrow>
          match_rules (scorep_filter_match_function_rule fnmatch n mangled_name) rules False SCOREP_SUCCESS)"

text \<open>Here every rule is tried, and its error counts only when the rule could change the verdict.\<close>

fun include_rules ::
  "(filter_rule \<Rightarrow> (bool \<times> error_code) outcome) \<Rightarrow> filter_rule list \<Rightarrow> bool \<Rightarrow> bool \<Rightarrow> error_code
     \<Rightarrow> (bool \<times> error_code) outcome" where
  "include_rules try [] excluded explicitly err = Inr (\<not> excluded \<and> explicitly, err)"
| "include_rules try (rule # rules) excluded explicitly err =
     and_then (try rule) (\<lambda>(matched, err).
       let explicitly = (if matched
             then (if is_exclude rule then False
                   else if pattern rule \<noteq> Some ''*'' then True else explicitly)
             else explicitly)
       in if \<not> excluded \<and> is_exclude rule
          then (if err \<noteq> SCOREP_SUCCESS then Inr (True, err)
                else include_rules try rules matched explicitly err)
          else if excluded \<and> \<not> is_exclude rule
          then (if err \<noteq> SCOREP_SUCCESS then Inr (True, err)
                else include_rules try rules (\<not> matched) explicitly err)
          else include_rules try rules excluded explicitly err)"

definition scorep_filter_include_function ::
  "fnmatch_function \<Rightarrow> filter_rule list \<Rightarrow> string option \<Rightarrow> string option \<Rightarrow> (bool \<times> error_code) outcome" where
  "scorep_filter_include_function fnmatch rules function_name mangled_name =
     (case function_name of
        None \<Rightarrow> Inr (True, SCOREP_SUCCESS)
      | Some n \<Rightarrow> include_rules (scorep_filter_match_function_rule fnmatch n mangled_name)
                    rules False False SCOREP_SUCCESS)"

text \<open>The callbacks see the rules in order.\<close>

definition SCOREP_Filter_ForAllFunctionRules ::
  "rule_filter \<Rightarrow> (string option \<Rightarrow> bool \<Rightarrow> bool \<Rightarrow> 's \<Rightarrow> 's) \<Rightarrow> 's \<Rightarrow> 's" where
  "SCOREP_Filter_ForAllFunctionRules filt cb data =
     fold (\<lambda>r. cb (pattern r) (is_exclude r) (is_mangled r)) (function_rules filt) data"

definition SCOREP_Filter_ForAllFileRules ::
  "rule_filter \<Rightarrow> (string option \<Rightarrow> bool \<Rightarrow> bool \<Rightarrow> 's \<Rightarrow> 's) \<Rightarrow> 's \<Rightarrow> 's" where
  "SCOREP_Filter_ForAllFileRules filt cb data =
     fold (\<lambda>r. cb (pattern r) (is_exclude r) (is_mangled r)) (file_rules filt) data"

subsection \<open>The requests of the clients\<close>

text \<open>
  A null filter, or a null pointer for the result, is refused. The result is the integer the C
  code stores, next to the error code.
\<close>

definition request ::
  "rule_filter option \<Rightarrow> bool \<Rightarrow> (rule_filter \<Rightarrow> (bool \<times> error_code) outcome)
     \<Rightarrow> (int option \<times> error_code) outcome" where
  "request filt result_given f =
     (case filt of
        None \<Rightarrow> Inr (None, SCOREP_ERROR_INVALID_ARGUMENT)
      | Some fl \<Rightarrow>
          if \<not> result_given then Inr (None, SCOREP_ERROR_INVALID_ARGUMENT)
          else and_then (f fl) (\<lambda>(b, err). Inr (Some (of_bool b), err)))"

definition SCOREP_Filter_MatchFile ::
  "fnmatch_function \<Rightarrow> rule_filter option \<Rightarrow> string option \<Rightarrow> bool \<Rightarrow> (int option \<times> error_code) outcome" where
  "SCOREP_Filter_MatchFile fnmatch filt file_name result_given =
     request filt result_given (\<lambda>fl. scorep_filter_match_file fnmatch (file_rules fl) file_name)"

definition SCOREP_Filter_MatchFunction ::
  "fnmatch_function \<Rightarrow> rule_filter option \<Rightarrow> string option \<Rightarrow> string option \<Rightarrow> bool
     \<Rightarrow> (int option \<times> error_code) outcome" where
  "SCOREP_Filter_MatchFunction fnmatch filt function_name mangled_name result_given =
     request filt result_given
       (\<lambda>fl. scorep_filter_match_function fnmatch (function_rules fl) function_name mangled_name)"

definition SCOREP_Filter_IncludeFunction ::
  "fnmatch_function \<Rightarrow> rule_filter option \<Rightarrow> string option \<Rightarrow> string option \<Rightarrow> bool
     \<Rightarrow> (int option \<times> error_code) outcome" where
  "SCOREP_Filter_IncludeFunction fnmatch filt function_name mangled_name result_given =
     request filt result_given
       (\<lambda>fl. scorep_filter_include_function fnmatch (function_rules fl) function_name mangled_name)"

text \<open>The function rules are asked only when the file is not excluded; then their error is reported.\<close>

definition SCOREP_Filter_Match ::
  "fnmatch_function \<Rightarrow> rule_filter option \<Rightarrow> string option \<Rightarrow> string option \<Rightarrow> string option \<Rightarrow> bool
     \<Rightarrow> (int option \<times> error_code) outcome" where
  "SCOREP_Filter_Match fnmatch filt file_name function_name mangled_name result_given =
     request filt result_given (\<lambda>fl.
       and_then (scorep_filter_match_file fnmatch (file_rules fl) file_name) (\<lambda>(b, err).
         if b then Inr (True, err)
         else scorep_filter_match_function fnmatch (function_rules fl) function_name mangled_name))"

subsection \<open>The parser\<close>

text \<open>The modes are the integers of the C code; the mangled option is the bit \<open>8\<close>.\<close>

definition SCOREP_FILTER_PARSE_START :: u32 where "SCOREP_FILTER_PARSE_START = 0"
definition SCOREP_FILTER_PARSE_FILES :: u32 where "SCOREP_FILTER_PARSE_FILES = 1"
definition SCOREP_FILTER_PARSE_FILES_EXCLUDE :: u32 where "SCOREP_FILTER_PARSE_FILES_EXCLUDE = 2"
definition SCOREP_FILTER_PARSE_FILES_INCLUDE :: u32 where "SCOREP_FILTER_PARSE_FILES_INCLUDE = 3"
definition SCOREP_FILTER_PARSE_REGIONS :: u32 where "SCOREP_FILTER_PARSE_REGIONS = 4"
definition SCOREP_FILTER_PARSE_REGIONS_EXCLUDE :: u32 where "SCOREP_FILTER_PARSE_REGIONS_EXCLUDE = 5"
definition SCOREP_FILTER_PARSE_REGIONS_INCLUDE :: u32 where "SCOREP_FILTER_PARSE_REGIONS_INCLUDE = 6"
definition SCOREP_FILTER_PARSE_BASE :: u32 where "SCOREP_FILTER_PARSE_BASE = 7"
definition SCOREP_FILTER_PARSE_MANGLED :: u32 where "SCOREP_FILTER_PARSE_MANGLED = 8"

lemmas filter_modes =
  SCOREP_FILTER_PARSE_START_def SCOREP_FILTER_PARSE_FILES_def SCOREP_FILTER_PARSE_FILES_EXCLUDE_def
  SCOREP_FILTER_PARSE_FILES_INCLUDE_def SCOREP_FILTER_PARSE_REGIONS_def
  SCOREP_FILTER_PARSE_REGIONS_EXCLUDE_def SCOREP_FILTER_PARSE_REGIONS_INCLUDE_def
  SCOREP_FILTER_PARSE_BASE_def SCOREP_FILTER_PARSE_MANGLED_def

definition SCOREP_FILTER_MODE_IS_MANGLED :: "u32 \<Rightarrow> bool" where
  "SCOREP_FILTER_MODE_IS_MANGLED m \<longleftrightarrow> m AND SCOREP_FILTER_PARSE_MANGLED \<noteq> 0"

definition SCOREP_FILTER_MODE_BASE :: "u32 \<Rightarrow> u32" where
  "SCOREP_FILTER_MODE_BASE m = m AND SCOREP_FILTER_PARSE_BASE"

record parse_state =
  parsed :: rule_filter
  parse_mode :: u32

definition base_in :: "parse_state \<Rightarrow> u32 \<Rightarrow> u32 \<Rightarrow> bool" where
  "base_in st lo hi \<longleftrightarrow>
     lo \<le> SCOREP_FILTER_MODE_BASE (parse_mode st) \<and> SCOREP_FILTER_MODE_BASE (parse_mode st) \<le> hi"

definition process_token :: "(nat \<Rightarrow> bool) \<Rightarrow> parse_state \<Rightarrow> string \<Rightarrow> error_code \<times> parse_state" where
  "process_token alloc st token =
     (if token = [] then (SCOREP_SUCCESS, st)
      else if token = ''SCOREP_FILE_NAMES_BEGIN''
      then (if parse_mode st = SCOREP_FILTER_PARSE_START
            then (SCOREP_SUCCESS, st\<lparr>parse_mode := SCOREP_FILTER_PARSE_FILES\<rparr>)
            else (SCOREP_ERROR_PARSE_SYNTAX, st))
      else if token = ''SCOREP_FILE_NAMES_END''
      then (if SCOREP_FILTER_PARSE_FILES \<le> parse_mode st \<and>
               parse_mode st \<le> SCOREP_FILTER_PARSE_FILES_INCLUDE
            then (SCOREP_SUCCESS, st\<lparr>parse_mode := SCOREP_FILTER_PARSE_START\<rparr>)
            else (SCOREP_ERROR_PARSE_SYNTAX, st))
      else if token = ''SCOREP_REGION_NAMES_BEGIN''
      then (if parse_mode st = SCOREP_FILTER_PARSE_START
            then (SCOREP_SUCCESS, st\<lparr>parse_mode := SCOREP_FILTER_PARSE_REGIONS\<rparr>)
            else (SCOREP_ERROR_PARSE_SYNTAX, st))
      else if token = ''SCOREP_REGION_NAMES_END''
      then (if base_in st SCOREP_FILTER_PARSE_REGIONS SCOREP_FILTER_PARSE_REGIONS_INCLUDE
            then (SCOREP_SUCCESS, st\<lparr>parse_mode := SCOREP_FILTER_PARSE_START\<rparr>)
            else (SCOREP_ERROR_PARSE_SYNTAX, st))
      else if token = ''EXCLUDE''
      then (if base_in st SCOREP_FILTER_PARSE_FILES SCOREP_FILTER_PARSE_FILES_INCLUDE
            then (SCOREP_SUCCESS, st\<lparr>parse_mode := SCOREP_FILTER_PARSE_FILES_EXCLUDE\<rparr>)
            else if base_in st SCOREP_FILTER_PARSE_REGIONS SCOREP_FILTER_PARSE_REGIONS_INCLUDE
            then (SCOREP_SUCCESS, st\<lparr>parse_mode := SCOREP_FILTER_PARSE_REGIONS_EXCLUDE\<rparr>)
            else (SCOREP_ERROR_PARSE_SYNTAX, st))
      else if token = ''INCLUDE''
      then (if base_in st SCOREP_FILTER_PARSE_FILES SCOREP_FILTER_PARSE_FILES_INCLUDE
            then (SCOREP_SUCCESS, st\<lparr>parse_mode := SCOREP_FILTER_PARSE_FILES_INCLUDE\<rparr>)
            else if base_in st SCOREP_FILTER_PARSE_REGIONS SCOREP_FILTER_PARSE_REGIONS_INCLUDE
            then (SCOREP_SUCCESS, st\<lparr>parse_mode := SCOREP_FILTER_PARSE_REGIONS_INCLUDE\<rparr>)
            else (SCOREP_ERROR_PARSE_SYNTAX, st))
      else if token = ''MANGLED''
      then (if base_in st SCOREP_FILTER_PARSE_REGIONS_EXCLUDE SCOREP_FILTER_PARSE_REGIONS_INCLUDE
            then (SCOREP_SUCCESS, st\<lparr>parse_mode := parse_mode st OR SCOREP_FILTER_PARSE_MANGLED\<rparr>)
            else (SCOREP_ERROR_PARSE_SYNTAX, st))
      else if token = ''DEMANGLED''
      then (if base_in st SCOREP_FILTER_PARSE_REGIONS_EXCLUDE SCOREP_FILTER_PARSE_REGIONS_INCLUDE
            then (SCOREP_SUCCESS, st\<lparr>parse_mode := parse_mode st AND NOT SCOREP_FILTER_PARSE_MANGLED\<rparr>)
            else (SCOREP_ERROR_PARSE_SYNTAX, st))
      else if base_in st SCOREP_FILTER_PARSE_FILES_EXCLUDE SCOREP_FILTER_PARSE_FILES_INCLUDE
      then (let exclude = (SCOREP_FILTER_MODE_BASE (parse_mode st) = SCOREP_FILTER_PARSE_FILES_EXCLUDE)
            in (SCOREP_SUCCESS, st\<lparr>parsed := (parsed st)\<lparr>file_rules :=
                  snd (scorep_filter_add_rule alloc (file_rules (parsed st)) token exclude False)\<rparr>\<rparr>))
      else if base_in st SCOREP_FILTER_PARSE_REGIONS_EXCLUDE SCOREP_FILTER_PARSE_REGIONS_INCLUDE
      then (let exclude = (SCOREP_FILTER_MODE_BASE (parse_mode st) = SCOREP_FILTER_PARSE_REGIONS_EXCLUDE)
            in (SCOREP_SUCCESS, st\<lparr>parsed := (parsed st)\<lparr>function_rules :=
                  snd (scorep_filter_add_rule alloc (function_rules (parsed st)) token exclude
                    (SCOREP_FILTER_MODE_IS_MANGLED (parse_mode st)))\<rparr>\<rparr>))
      else (SCOREP_ERROR_PARSE_SYNTAX, st))"

definition SCOREP_Filter_New :: "(nat \<Rightarrow> bool) \<Rightarrow> rule_filter option" where
  "SCOREP_Filter_New alloc =
     (if alloc 32 then Some \<lparr>file_rules = [], function_rules = []\<rparr> else None)"

definition SCOREP_Filter_Delete :: "rule_filter option \<Rightarrow> filter_rule list" where
  "SCOREP_Filter_Delete filt =
     (case filt of
        None \<Rightarrow> []
      | Some fl \<Rightarrow> scorep_filter_free_rules (file_rules fl) @ scorep_filter_free_rules (function_rules fl))"

text \<open>
  A line in its buffer is the string with its terminating null character. The loop that cuts away
  comments looks for the first hash that is not escaped, and the loop that splits the line into
  tokens for blanks that are not escaped; both write null characters into the buffer.
\<close>

definition BACKSLASH :: char where "BACKSLASH = CHR 0x5C"

definition WHITESPACE :: "char list" where
  "WHITESPACE = [CHR '' '', CHR 0x09, NEWLINE]"

function cut_comment :: "string \<Rightarrow> nat \<Rightarrow> nat \<Rightarrow> string \<times> nat" where
  "cut_comment buf pos len =
     (let pos = pos + strcspn (drop pos buf) ''#'';
          hit = (pos < len \<and> ((pos = 0 \<and> buf ! 0 = CHR ''#'') \<or> (0 < pos \<and> buf ! (pos - 1) \<noteq> BACKSLASH)));
          buf = (if hit then buf[pos := NUL] else buf);
          len = (if hit then pos else len);
          pos = pos + 1
      in if pos < len then cut_comment buf pos len else (buf, len))"
  by pat_completeness auto
termination by (relation "measure (\<lambda>(buf, pos, len). len - pos)") (auto split: if_splits)

declare cut_comment.simps [simp del]

function tokenize ::
  "(nat \<Rightarrow> bool) \<Rightarrow> parse_state \<Rightarrow> string \<Rightarrow> nat \<Rightarrow> nat \<Rightarrow> nat \<Rightarrow> error_code \<times> parse_state" where
  "tokenize alloc st buf pos token_start len =
     (if pos < len
      then let pos = pos + strcspn (drop pos buf) WHITESPACE
           in if pos \<le> len \<and> (pos = 0 \<or> (0 < pos \<and> buf ! (pos - 1) \<noteq> BACKSLASH))
              then let buf = buf[pos := NUL];
                       (err, st') = process_token alloc st (c_str (drop token_start buf))
                   in if err \<noteq> SCOREP_SUCCESS then (err, st')
                      else tokenize alloc st' buf (pos + 1) (pos + 1) len
              else tokenize alloc st buf (pos + 1) token_start len
      else (SCOREP_SUCCESS, st))"
  by pat_completeness auto
termination by (relation "measure (\<lambda>(alloc, st, buf, pos, token_start, len). len - pos)") auto

declare tokenize.simps [simp del]

definition parse_filter_line :: "(nat \<Rightarrow> bool) \<Rightarrow> parse_state \<Rightarrow> string \<Rightarrow> error_code \<times> parse_state" where
  "parse_filter_line alloc st line =
     (if line = [] then (SCOREP_SUCCESS, st)
      else let (buf, len) = cut_comment (line @ [NUL]) 0 (length line)
           in if 2 \<le> len \<and> buf ! (len - 2) = BACKSLASH then (SCOREP_ERROR_PARSE_SYNTAX, st)
              else tokenize alloc st buf 0 0 len)"

lemma get_line_measure:
  assumes "(err, b', f') = UTILS_IO_GetLine alloc b f" and "\<not> feof f"
    and "\<not> (err \<noteq> SCOREP_SUCCESS \<and> err \<noteq> SCOREP_ERROR_END_OF_BUFFER)"
  shows "2 * length (left_over f') + of_bool (\<not> feof f') < 2 * length (left_over f) + (of_bool (\<not> feof f) :: nat)"
proof -
  have "err = SCOREP_SUCCESS \<or> err = SCOREP_ERROR_END_OF_BUFFER" using assms(3) by blast
  from get_line_progress [OF assms(1) [symmetric] this] show ?thesis using assms(2) by auto
qed

text \<open>The loop over the lines; at its end the stream and the buffer are what the C function still holds.\<close>

function parse_filter_lines ::
  "(nat \<Rightarrow> bool) \<Rightarrow> parse_state \<Rightarrow> line_buffer \<Rightarrow> file_stream \<Rightarrow> error_code \<times> parse_state" where
  "parse_filter_lines alloc st b f =
     (if feof f then (SCOREP_SUCCESS, st)
      else let (err, b', f') = UTILS_IO_GetLine alloc b f
           in if err \<noteq> SCOREP_SUCCESS \<and> err \<noteq> SCOREP_ERROR_END_OF_BUFFER then (err, st)
              else let (err, st') = parse_filter_line alloc st (the (buffer_chars b'))
                   in if err \<noteq> SCOREP_SUCCESS then (err, st')
                      else parse_filter_lines alloc st' b' f')"
  by pat_completeness auto
termination
proof (relation "measure (\<lambda>(alloc, st, b, f). 2 * length (left_over f) + of_bool (\<not> feof f))", goal_cases)
  case (2 alloc st b f line err rest b' f')
  from get_line_measure [of err b' f' alloc b f] 2 show ?case by (cases rest) simp
qed simp

declare parse_filter_lines.simps [simp del]

text \<open>What a call leaves behind besides the error code and the filter: an open file, a buffer.\<close>

record parse_result =
  parse_error :: error_code
  new_filter :: rule_filter
  left_open :: bool
  buffer_leaked :: bool

definition SCOREP_Filter_ParseFile ::
  "(nat \<Rightarrow> bool) \<Rightarrow> (string \<Rightarrow> file_stream option) \<Rightarrow> rule_filter option \<Rightarrow> string option \<Rightarrow> parse_result option" where
  "SCOREP_Filter_ParseFile alloc fopen filt file_name =
     (case (filt, file_name) of
        (Some fl, Some n) \<Rightarrow>
          (case fopen n of
             None \<Rightarrow> Some \<lparr>parse_error = SCOREP_ERROR_FILE_CAN_NOT_OPEN, new_filter = fl,
                           left_open = False, buffer_leaked = False\<rparr>
           | Some f \<Rightarrow>
               let (err, st) = parse_filter_lines alloc
                     \<lparr>parsed = fl, parse_mode = SCOREP_FILTER_PARSE_START\<rparr>
                     \<lparr>buffer_chars = None, buffer_size = 0\<rparr> f
               in Some \<lparr>parse_error = err, new_filter = parsed st,
                        left_open = (err = SCOREP_SUCCESS), buffer_leaked = (err = SCOREP_SUCCESS \<and> \<not> feof f)\<rparr>)
      | _ \<Rightarrow> None)"

section \<open>What the filter decides\<close>

subsection \<open>The last matching rule\<close>

text \<open>Whether a rule applies to a name, when \<^verbatim>\<open>fnmatch\<close> reports no error.\<close>

definition applies :: "fnmatch_function \<Rightarrow> string \<Rightarrow> string option \<Rightarrow> filter_rule \<Rightarrow> bool" where
  "applies fnmatch n mn r \<longleftrightarrow>
     fnmatch (the (pattern r)) (if is_mangled r then (case mn of Some m \<Rightarrow> m | None \<Rightarrow> n) else n) = 0"

definition applies_file :: "fnmatch_function \<Rightarrow> string \<Rightarrow> filter_rule \<Rightarrow> bool" where
  "applies_file fnmatch n r \<longleftrightarrow> fnmatch (the (pattern r)) n = 0"

definition last_verdict :: "(filter_rule \<Rightarrow> bool) \<Rightarrow> filter_rule list \<Rightarrow> bool \<Rightarrow> bool" where
  "last_verdict hits rules start =
     (case find hits (rev rules) of None \<Rightarrow> start | Some r \<Rightarrow> is_exclude r)"

definition explicit_verdict :: "(filter_rule \<Rightarrow> bool) \<Rightarrow> filter_rule list \<Rightarrow> bool \<Rightarrow> bool" where
  "explicit_verdict hits rules start =
     (case find (\<lambda>r. hits r \<and> (is_exclude r \<or> pattern r \<noteq> Some ''*'')) (rev rules) of
        None \<Rightarrow> start | Some r \<Rightarrow> \<not> is_exclude r)"

lemma find_snoc: "find P (xs @ [x]) = (case find P xs of None \<Rightarrow> if P x then Some x else None | Some y \<Rightarrow> Some y)"
  by (induction xs) auto

lemma verdict_Cons:
  "last_verdict hits (r # rs) start = last_verdict hits rs (if hits r then is_exclude r else start)"
  "explicit_verdict hits (r # rs) start = explicit_verdict hits rs
     (if hits r \<and> (is_exclude r \<or> pattern r \<noteq> Some ''*'') then \<not> is_exclude r else start)"
  by (auto simp: last_verdict_def explicit_verdict_def find_snoc split: option.splits)

lemma verdict_Nil [simp]: "last_verdict hits [] start = start" "explicit_verdict hits [] start = start"
  by (simp_all add: last_verdict_def explicit_verdict_def)

lemma match_rules_last:
  "(\<And>r. r \<in> set rules \<Longrightarrow> try r = Inr (hits r, SCOREP_SUCCESS)) \<Longrightarrow>
   match_rules try rules excluded SCOREP_SUCCESS = Inr (last_verdict hits rules excluded, SCOREP_SUCCESS)"
  by (induction rules arbitrary: excluded) (auto simp: verdict_Cons)

lemma include_rules_last:
  "(\<And>r. r \<in> set rules \<Longrightarrow> try r = Inr (hits r, SCOREP_SUCCESS)) \<Longrightarrow>
   include_rules try rules excluded explicitly SCOREP_SUCCESS =
     Inr (\<not> last_verdict hits rules excluded \<and> explicit_verdict hits rules explicitly, SCOREP_SUCCESS)"
proof (induction rules arbitrary: excluded explicitly)
  case (Cons r rules)
  then have r: "try r = Inr (hits r, SCOREP_SUCCESS)" by simp
  note IH = Cons.IH [OF Cons.prems]
  show ?case
    by (cases "hits r"; cases "is_exclude r"; cases excluded) (simp_all add: r IH verdict_Cons)
qed simp

text \<open>\<^verbatim>\<open>fnmatch\<close> reports a match or none, and every rule has its pattern.\<close>

definition matches_safely :: "fnmatch_function \<Rightarrow> filter_rule list \<Rightarrow> bool" where
  "matches_safely fnmatch rules \<longleftrightarrow>
     (\<forall>r\<in>set rules. \<exists>p. pattern r = Some p \<and> (\<forall>s. fnmatch p s = 0 \<or> fnmatch p s = FNM_NOMATCH))"

lemma try_rules:
  assumes "matches_safely fnmatch rules" and "r \<in> set rules"
  shows "scorep_filter_match_file_rule fnmatch n r = Inr (applies_file fnmatch n r, SCOREP_SUCCESS)"
    "scorep_filter_match_function_rule fnmatch n mn r = Inr (applies fnmatch n mn r, SCOREP_SUCCESS)"
proof -
  obtain p where p: "pattern r = Some p" "\<And>s. fnmatch p s = 0 \<or> fnmatch p s = FNM_NOMATCH"
    using assms unfolding matches_safely_def by blast
  have m: "match_result (fnmatch p s) = (fnmatch p s = 0, SCOREP_SUCCESS)" for s
    using p(2) [of s] by (auto simp: match_result_def FNM_NOMATCH_def)
  show "scorep_filter_match_file_rule fnmatch n r = Inr (applies_file fnmatch n r, SCOREP_SUCCESS)"
    by (simp add: scorep_filter_match_file_rule_def rule_fnmatch_def p(1) m applies_file_def)
  show "scorep_filter_match_function_rule fnmatch n mn r = Inr (applies fnmatch n mn r, SCOREP_SUCCESS)"
    by (cases mn; cases "is_mangled r")
      (simp_all add: scorep_filter_match_function_rule_def rule_fnmatch_def p(1) m applies_def)
qed

text \<open>
  C12: the sequential evaluation of the rules, which tries a rule only when it could change the
  verdict, agrees with the rule that the last matching one decides: a file, or a function, is
  filtered exactly when some rule applies and the last one that does is an exclude rule, and
  \<^verbatim>\<open>SCOREP_Filter_Match\<close> filters when either does. A function is explicitly included when the last
  rule that applies does not exclude it and the last one that applies, not counting \<^verbatim>\<open>INCLUDE *\<close>, exists
  and includes it.
\<close>

theorem filter_last_match_decides:
  assumes "matches_safely fnmatch (file_rules fl)" and "matches_safely fnmatch (function_rules fl)"
  shows "SCOREP_Filter_Match fnmatch (Some fl) (Some src) (Some func) mangled True =
      Inr (Some (of_bool (last_verdict (applies_file fnmatch src) (file_rules fl) False \<or>
             last_verdict (applies fnmatch func mangled) (function_rules fl) False)), SCOREP_SUCCESS) \<and>
    SCOREP_Filter_IncludeFunction fnmatch (Some fl) (Some func) mangled True =
      Inr (Some (of_bool (\<not> last_verdict (applies fnmatch func mangled) (function_rules fl) False \<and>
             explicit_verdict (applies fnmatch func mangled) (function_rules fl) False)), SCOREP_SUCCESS)"
proof -
  have of_file: "scorep_filter_match_file fnmatch (file_rules fl) (Some src) =
      Inr (last_verdict (applies_file fnmatch src) (file_rules fl) False, SCOREP_SUCCESS)"
    by (simp add: scorep_filter_match_file_def match_rules_last try_rules [OF assms(1)])
  have func: "scorep_filter_match_function fnmatch (function_rules fl) (Some func) mangled =
      Inr (last_verdict (applies fnmatch func mangled) (function_rules fl) False, SCOREP_SUCCESS)"
    by (simp add: scorep_filter_match_function_def match_rules_last try_rules [OF assms(2)])
  have incl: "scorep_filter_include_function fnmatch (function_rules fl) (Some func) mangled =
      Inr (\<not> last_verdict (applies fnmatch func mangled) (function_rules fl) False \<and>
        explicit_verdict (applies fnmatch func mangled) (function_rules fl) False, SCOREP_SUCCESS)"
    by (simp add: scorep_filter_include_function_def include_rules_last try_rules [OF assms(2)])
  show ?thesis
    by (simp add: SCOREP_Filter_Match_def SCOREP_Filter_IncludeFunction_def request_def of_file func incl)
qed

definition example_fnmatch :: fnmatch_function where
  "example_fnmatch p s = (if p = ''*'' \<or> p = s then 0 else if p = ''['' then 2 else 1)"

definition example_filter :: rule_filter where
  "example_filter = \<lparr>file_rules = [],
     function_rules = [\<lparr>pattern = Some ''*'', is_mangled = False, is_exclude = True\<rparr>,
                       \<lparr>pattern = Some ''main'', is_mangled = False, is_exclude = False\<rparr>]\<rparr>"

lemma filter_last_match_decides_witness:
  "SCOREP_Filter_Match example_fnmatch (Some example_filter) (Some ''a.c'') (Some ''foo'') None True =
     Inr (Some 1, SCOREP_SUCCESS) \<and>
   SCOREP_Filter_IncludeFunction example_fnmatch (Some example_filter) (Some ''main'') None True =
     Inr (Some 1, SCOREP_SUCCESS)"
proof -
  have "matches_safely example_fnmatch (file_rules example_filter)"
    "matches_safely example_fnmatch (function_rules example_filter)"
    by (simp_all add: matches_safely_def example_filter_def example_fnmatch_def FNM_NOMATCH_def)
  from filter_last_match_decides [OF this, of "''a.c''" "''foo''" None]
    filter_last_match_decides [OF this, of "''a.c''" "''main''" None]
  show ?thesis
    by (simp add: last_verdict_def explicit_verdict_def example_filter_def applies_def example_fnmatch_def)
qed

subsection \<open>Errors of the pattern matching\<close>

lemma match_rules_error:
  "match_rules try rules excluded err = Inr (b, e) \<Longrightarrow> e \<noteq> SCOREP_SUCCESS \<Longrightarrow> err = SCOREP_SUCCESS \<Longrightarrow> \<not> b"
  by (induction rules arbitrary: excluded err)
    (auto split: if_splits simp: and_then_Inr_iff)

text \<open>
  A pattern that cannot be evaluated never filters anything: when a request for a file or for a
  function reports an error, its result is not to filter.
\<close>

theorem filter_error_never_excludes:
  "(scorep_filter_match_file fnmatch rules n = Inr (b, e) \<and> e \<noteq> SCOREP_SUCCESS \<longrightarrow> \<not> b) \<and>
   (scorep_filter_match_function fnmatch rules n mn = Inr (b, e) \<and> e \<noteq> SCOREP_SUCCESS \<longrightarrow> \<not> b)"
  by (auto simp: scorep_filter_match_file_def scorep_filter_match_function_def
      dest: match_rules_error split: option.splits)

definition broken_filter :: rule_filter where
  "broken_filter = \<lparr>file_rules = [\<lparr>pattern = Some ''['', is_mangled = False, is_exclude = True\<rparr>],
     function_rules = []\<rparr>"

lemma filter_error_never_excludes_witness:
  "scorep_filter_match_file example_fnmatch (file_rules broken_filter) (Some ''a.c'') =
     Inr (False, SCOREP_ERROR_PROCESSED_WITH_FAULTS)"
  using filter_error_never_excludes [of example_fnmatch "file_rules broken_filter" "Some ''a.c''"]
  by (simp add: scorep_filter_match_file_def broken_filter_def scorep_filter_match_file_rule_def
      rule_fnmatch_def example_fnmatch_def match_result_def FNM_NOMATCH_def)

text \<open>
  The combined request loses the error of the file rules. When evaluating the file rules fails,
  the function rules are evaluated into the same error variable, and what is reported is what they
  say: here success, for a filter whose only file pattern could not be evaluated.
\<close>

theorem filter_match_loses_file_error:
  "SCOREP_Filter_MatchFile example_fnmatch (Some broken_filter) (Some ''a.c'') True =
     Inr (Some 0, SCOREP_ERROR_PROCESSED_WITH_FAULTS) \<and>
   SCOREP_Filter_Match example_fnmatch (Some broken_filter) (Some ''a.c'') (Some ''foo'') mn True =
     Inr (Some 0, SCOREP_SUCCESS)"
  by (simp add: SCOREP_Filter_MatchFile_def SCOREP_Filter_Match_def request_def broken_filter_def
      scorep_filter_match_file_def scorep_filter_match_function_def scorep_filter_match_file_rule_def
      rule_fnmatch_def example_fnmatch_def match_result_def FNM_NOMATCH_def)

text \<open>
  A missing mangled name stands for the function name: passing the null pointer for it and
  passing the function name itself give the same answer, as the interface promises.
\<close>

theorem mangled_name_default:
  "SCOREP_Filter_Match fnmatch filt file (Some n) None given =
     SCOREP_Filter_Match fnmatch filt file (Some n) (Some n) given \<and>
   SCOREP_Filter_MatchFunction fnmatch filt (Some n) None given =
     SCOREP_Filter_MatchFunction fnmatch filt (Some n) (Some n) given \<and>
   SCOREP_Filter_IncludeFunction fnmatch filt (Some n) None given =
     SCOREP_Filter_IncludeFunction fnmatch filt (Some n) (Some n) given"
proof -
  have "scorep_filter_match_function_rule fnmatch n None = scorep_filter_match_function_rule fnmatch n (Some n)"
    by (simp add: fun_eq_iff scorep_filter_match_function_rule_def)
  then have same: "scorep_filter_match_function fnmatch rules (Some n) None =
      scorep_filter_match_function fnmatch rules (Some n) (Some n)"
    "scorep_filter_include_function fnmatch rules (Some n) None =
      scorep_filter_include_function fnmatch rules (Some n) (Some n)" for rules
    by (simp_all add: scorep_filter_match_function_def scorep_filter_include_function_def)
  show ?thesis
    unfolding SCOREP_Filter_Match_def SCOREP_Filter_MatchFunction_def SCOREP_Filter_IncludeFunction_def same
    by simp
qed

subsection \<open>How the parser sees a line\<close>

text \<open>
  The reference: a line is cut at the first hash that no backslash precedes, and split at the blanks
  that no backslash precedes. \<open>guarded S p s\<close> says that every character of \<open>S\<close> in \<open>s\<close> follows a
  backslash, where \<open>p\<close> says whether one stands in front of \<open>s\<close>.
\<close>

fun guarded :: "char set \<Rightarrow> bool \<Rightarrow> string \<Rightarrow> bool" where
  "guarded S p [] = True"
| "guarded S p (c # cs) = ((c \<in> S \<longrightarrow> p) \<and> guarded S (c = BACKSLASH) cs)"

lemma guarded_append:
  "guarded S p (xs @ ys) \<longleftrightarrow> guarded S p xs \<and> guarded S (if xs = [] then p else last xs = BACKSLASH) ys"
  by (induction xs arbitrary: p) auto

lemma guarded_mono: "guarded S p s \<Longrightarrow> T \<subseteq> S \<Longrightarrow> guarded T p s"
  by (induction s arbitrary: p) auto

lemma strcspn_split:
  assumes "NUL \<notin> set cs"
  obtains (whole) "strcspn (cs @ NUL # behind) S = length cs" "set cs \<inter> set S = {}"
  | (stop) w c r where "cs = w @ c # r" "c \<in> set S" "set w \<inter> set S = {}"
      "strcspn (cs @ NUL # behind) S = length w"
proof (cases "set cs \<inter> set S = {}")
  case True
  have "takeWhile (\<lambda>c. c \<noteq> NUL \<and> c \<notin> set S) (cs @ NUL # behind) = cs"
    using True assms by (subst takeWhile_append2) auto
  then show ?thesis using True whole by (simp add: strcspn_def)
next
  case False
  then obtain w c r where w: "cs = w @ c # r" "c \<in> set S" "\<forall>x\<in>set w. x \<notin> set S"
    using split_list_first_prop [of cs "\<lambda>x. x \<in> set S"] by blast
  have "takeWhile (\<lambda>c. c \<noteq> NUL \<and> c \<notin> set S) (w @ c # r @ NUL # behind) = w"
    using w assms by (subst takeWhile_append2) auto
  then show ?thesis using w stop [of w c r] by (auto simp: strcspn_def)
qed

lemma nth_before: "xs \<noteq> [] \<Longrightarrow> (xs @ ys) ! (length xs - 1) = last xs"
  by (simp add: last_conv_nth nth_append)

lemma cut_comment_skip:
  assumes "strcspn (drop pos buf) ''#'' = k" and "0 < pos + k" and "buf ! (pos + k - 1) = BACKSLASH"
  shows "cut_comment buf pos len = (if pos + k + 1 < len then cut_comment buf (pos + k + 1) len else (buf, len))"
proof -
  have "\<not> (pos + k < len \<and> (pos + k = 0 \<and> buf ! 0 = CHR ''#'' \<or> 0 < pos + k \<and> buf ! (pos + k - 1) \<noteq> BACKSLASH))"
    using assms(2,3) by (metis less_irrefl)
  then show ?thesis
    by (subst cut_comment.simps) (simp only: Let_def assms(1) if_False)
qed

lemma cut_comment_none:
  "NUL \<notin> set cs \<Longrightarrow> guarded {CHR ''#''} (pre \<noteq> [] \<and> last pre = BACKSLASH) cs \<Longrightarrow>
   cut_comment (pre @ cs @ [NUL]) (length pre) (length pre + length cs) =
     (pre @ cs @ [NUL], length pre + length cs)"
proof (induction "length cs" arbitrary: cs pre rule: less_induct)
  case less
  let ?buf = "pre @ cs @ [NUL]" and ?len = "length pre + length cs"
  from less.prems(1) show ?case
  proof (cases rule: strcspn_split [case_names whole stop, where behind = "[]" and S = "''#''"])
    case whole
    then show ?thesis by (simp add: cut_comment.simps [of ?buf])
  next
    case (stop w c r)
    let ?pos = "length pre + length w"
    have c: "c = CHR ''#''" using stop(2) by simp
    have esc: "pre @ w \<noteq> [] \<and> last (pre @ w) = BACKSLASH"
      using less.prems(2) unfolding stop(1) c by (auto simp: guarded_append split: if_splits)
    then have "?buf ! (?pos - 1) = BACKSLASH" "0 < ?pos"
      using nth_before [of "pre @ w" "c # r @ [NUL]"] unfolding stop(1) by (auto simp: add.commute)
    then have step: "cut_comment ?buf (length pre) ?len =
        (if ?pos + 1 < ?len then cut_comment ?buf (?pos + 1) ?len else (?buf, ?len))"
      using stop(4) by (intro cut_comment_skip) simp_all
    have "cut_comment ((pre @ w @ [c]) @ r @ [NUL]) (length (pre @ w @ [c])) (length (pre @ w @ [c]) + length r) =
        ((pre @ w @ [c]) @ r @ [NUL], length (pre @ w @ [c]) + length r)"
      by (rule less.hyps) (use less.prems in \<open>auto simp: stop(1) guarded_append\<close>)
    then show ?thesis unfolding step by (simp add: stop(1) add.assoc)
  qed
qed

lemma cut_comment_found:
  "NUL \<notin> set cs \<Longrightarrow> guarded {CHR ''#''} (pre \<noteq> [] \<and> last pre = BACKSLASH) cs \<Longrightarrow>
   pre @ cs = [] \<or> last (pre @ cs) \<noteq> BACKSLASH \<Longrightarrow>
   cut_comment (pre @ cs @ CHR ''#'' # junk @ [NUL]) (length pre) (length pre + length cs + length junk + 1) =
     (pre @ cs @ NUL # junk @ [NUL], length pre + length cs)"
proof (induction "length cs" arbitrary: cs pre rule: less_induct)
  case less
  let ?buf = "pre @ cs @ CHR ''#'' # junk @ [NUL]" and ?len = "length pre + length cs + length junk + 1"
  consider (none) "CHR ''#'' \<notin> set cs" | (some) w r where "cs = w @ CHR ''#'' # r" "CHR ''#'' \<notin> set w"
    using split_list_first [of "CHR ''#''" cs] by blast
  then show ?case
  proof cases
    case none
    have "takeWhile (\<lambda>c. c \<noteq> NUL \<and> c \<notin> set ''#'') (cs @ CHR ''#'' # junk @ [NUL]) = cs"
      using none less.prems(1) by (subst takeWhile_append2) auto
    then have "strcspn (drop (length pre) ?buf) ''#'' = length cs" by (simp add: strcspn_def)
    moreover have "length pre + length cs = 0 \<or>
        0 < length pre + length cs \<and> ?buf ! (length pre + length cs - 1) \<noteq> BACKSLASH"
      using less.prems(3) by (cases cs rule: rev_cases; cases pre rule: rev_cases) (auto simp: nth_append)
    ultimately show ?thesis
      by (auto simp: cut_comment.simps [of ?buf "length pre"] Let_def list_update_append)
  next
    case some
    let ?pos = "length pre + length w"
    have "takeWhile (\<lambda>c. c \<noteq> NUL \<and> c \<notin> set ''#'') (w @ CHR ''#'' # r @ CHR ''#'' # junk @ [NUL]) = w"
      using some less.prems(1) by (subst takeWhile_append2) auto
    then have sc: "strcspn (drop (length pre) ?buf) ''#'' = length w" by (simp add: strcspn_def some(1))
    have esc: "pre @ w \<noteq> [] \<and> last (pre @ w) = BACKSLASH"
      using less.prems(2) unfolding some(1) by (auto simp: guarded_append split: if_splits)
    then have "?buf ! (?pos - 1) = BACKSLASH" "0 < ?pos"
      using nth_before [of "pre @ w" "CHR ''#'' # r @ CHR ''#'' # junk @ [NUL]"]
      unfolding some(1) by (auto simp: add.commute)
    then have "cut_comment ?buf (length pre) ?len =
        (if ?pos + 1 < ?len then cut_comment ?buf (?pos + 1) ?len else (?buf, ?len))"
      using sc by (intro cut_comment_skip) simp_all
    then have step: "cut_comment ?buf (length pre) ?len = cut_comment ?buf (?pos + 1) ?len"
      by (simp add: some(1))
    let ?pre = "pre @ w @ [CHR ''#'']"
    have "cut_comment (?pre @ r @ CHR ''#'' # junk @ [NUL]) (length ?pre) (length ?pre + length r + length junk + 1) =
        (?pre @ r @ NUL # junk @ [NUL], length ?pre + length r)"
      by (rule less.hyps)
        (use less.prems in \<open>auto simp: some(1) guarded_append BACKSLASH_def split: if_splits\<close>)
    then show ?thesis unfolding step by (simp add: some(1) add.assoc)
  qed
qed

text \<open>
  The tokens of a line, without indexes: \<open>acc\<close> is what has been read of the current token, in
  reverse. What follows an escaped last character of the line is no token.
\<close>

function split_line :: "string \<Rightarrow> string \<Rightarrow> string list" where
  "split_line acc cs =
     (if cs = [] then []
      else let w = takeWhile (\<lambda>c. c \<notin> set WHITESPACE) cs; r = dropWhile (\<lambda>c. c \<notin> set WHITESPACE) cs;
               tok = rev acc @ w
           in if tok = [] \<or> last tok \<noteq> BACKSLASH
              then tok # (if r = [] then [] else split_line [] (tl r))
              else if r = [] then [] else split_line (hd r # rev w @ acc) (tl r))"
  by pat_completeness auto
termination
proof (relation "measure (\<lambda>(acc, cs). length cs)", goal_cases)
  case (2 acc cs)
  have "length (dropWhile (\<lambda>c. c \<notin> set WHITESPACE) cs) \<le> length cs" by (rule length_dropWhile_le)
  then show ?case using 2 by (cases "dropWhile (\<lambda>c. c \<notin> set WHITESPACE) cs") auto
next
  case (3 acc cs)
  have "length (dropWhile (\<lambda>c. c \<notin> set WHITESPACE) cs) \<le> length cs" by (rule length_dropWhile_le)
  then show ?case using 3 by (cases "dropWhile (\<lambda>c. c \<notin> set WHITESPACE) cs") auto
qed simp

declare split_line.simps [simp del]

fun run_tokens :: "(nat \<Rightarrow> bool) \<Rightarrow> parse_state \<Rightarrow> string list \<Rightarrow> error_code \<times> parse_state" where
  "run_tokens alloc st [] = (SCOREP_SUCCESS, st)"
| "run_tokens alloc st (t # ts) =
     (let (err, st') = process_token alloc st t
      in if err \<noteq> SCOREP_SUCCESS then (err, st') else run_tokens alloc st' ts)"

lemma split_line_whole:
  assumes "set cs \<inter> set WHITESPACE = {}" and "cs \<noteq> []"
  shows "split_line acc cs = (if last cs \<noteq> BACKSLASH then [rev acc @ cs] else [])"
proof -
  have all: "takeWhile (\<lambda>c. c \<notin> set WHITESPACE) cs = cs" "dropWhile (\<lambda>c. c \<notin> set WHITESPACE) cs = []"
    using assms(1) by (auto simp: takeWhile_eq_all_conv dropWhile_eq_Nil_conv)
  show ?thesis unfolding split_line.simps [of acc cs] Let_def all using assms(2) by simp
qed

lemma split_line_stop:
  assumes "set w \<inter> set WHITESPACE = {}" and "c \<in> set WHITESPACE"
  shows "split_line acc (w @ c # r) =
    (if rev acc @ w = [] \<or> last (rev acc @ w) \<noteq> BACKSLASH then (rev acc @ w) # split_line [] r
     else split_line (c # rev w @ acc) r)"
proof -
  have nil: "split_line acc' [] = []" for acc' by (simp add: split_line.simps)
  have "takeWhile (\<lambda>c. c \<notin> set WHITESPACE) (w @ c # r) = w"
    "dropWhile (\<lambda>c. c \<notin> set WHITESPACE) (w @ c # r) = c # r"
    using assms by (subst takeWhile_append2 dropWhile_append2; auto)+
  then show ?thesis
    by (subst split_line.simps) (simp only: Let_def append_is_Nil_conv list.distinct if_False list.sel simp_thms)
qed

lemma tokenize_step:
  assumes "pos < len" and "strcspn (drop pos buf) WHITESPACE = k" and "pos + k \<le> len"
  shows "tokenize alloc st buf pos start len =
    (if pos + k = 0 \<or> buf ! (pos + k - 1) \<noteq> BACKSLASH
     then (let (err, st') = process_token alloc st (c_str (drop start (buf[pos + k := NUL])))
           in if err \<noteq> SCOREP_SUCCESS then (err, st')
              else tokenize alloc st' (buf[pos + k := NUL]) (pos + k + 1) (pos + k + 1) len)
     else tokenize alloc st buf (pos + k + 1) start len)"
proof -
  have "(pos + k \<le> len \<and> (pos + k = 0 \<or> 0 < pos + k \<and> buf ! (pos + k - 1) \<noteq> BACKSLASH)) \<longleftrightarrow>
      (pos + k = 0 \<or> buf ! (pos + k - 1) \<noteq> BACKSLASH)"
    using assms(3) gr0I by metis
  then show ?thesis
    by (subst tokenize.simps) (simp only: Let_def assms(1,2) if_True)
qed

lemma tokenize_end: "len \<le> pos \<Longrightarrow> tokenize alloc st buf pos start len = (SCOREP_SUCCESS, st)"
  by (simp add: tokenize.simps)

lemma c_str_stop: "NUL \<notin> set s \<Longrightarrow> c_str (s @ NUL # behind) = s"
  unfolding c_str_def by (subst takeWhile_append2) auto

lemma tokenize_split:
  "NUL \<notin> set acc \<Longrightarrow> NUL \<notin> set cs \<Longrightarrow> pre = [] \<or> last pre \<noteq> BACKSLASH \<Longrightarrow>
   tokenize alloc st (pre @ rev acc @ cs @ NUL # behind) (length pre + length acc) (length pre)
     (length pre + length acc + length cs) = run_tokens alloc st (split_line acc cs)"
proof (induction "length cs" arbitrary: cs pre acc st behind rule: less_induct)
  case less
  let ?buf = "pre @ rev acc @ cs @ NUL # behind" and ?len = "length pre + length acc + length cs"
  let ?pos = "length pre + length acc"
  show ?case
  proof (cases "cs = []")
    case True
    then show ?thesis by (simp add: tokenize_end split_line.simps)
  next
    case False
    have pos: "?pos < ?len" using False by simp
    from less.prems(2) show ?thesis
    proof (cases rule: strcspn_split [case_names whole stop, where behind = behind and S = WHITESPACE])
      case whole
      have sc: "strcspn (drop ?pos ?buf) WHITESPACE = length cs" using whole(1) by simp
      have prev: "?buf ! (?pos + length cs - 1) = last cs" "?pos + length cs \<noteq> 0"
        using nth_before [of "pre @ rev acc @ cs" "NUL # behind"] False by (simp_all add: add.assoc)
      have same: "?buf[?pos + length cs := NUL] = ?buf" by (simp add: list_update_append)
      have tok: "c_str (drop (length pre) ?buf) = rev acc @ cs"
        using c_str_stop [of "rev acc @ cs" behind] less.prems by simp
      show ?thesis
        unfolding split_line_whole [OF whole(2) False] tokenize_step [OF pos sc order.refl] prev(1) same tok
        using prev(2) False by (simp add: tokenize_end split: prod.split)
    next
      case (stop w c r)
      have sc: "strcspn (drop ?pos ?buf) WHITESPACE = length w" using stop(4) by simp
      have prev: "?pos + length w = 0 \<or> ?buf ! (?pos + length w - 1) \<noteq> BACKSLASH \<longleftrightarrow>
          rev acc @ w = [] \<or> last (rev acc @ w) \<noteq> BACKSLASH"
      proof (cases "pre @ rev acc @ w = []")
        case True
        then show ?thesis by simp
      next
        case nonempty: False
        then have "?buf ! (?pos + length w - 1) = last (pre @ rev acc @ w)"
          using nth_before [of "pre @ rev acc @ w" "c # r @ NUL # behind"] by (simp add: stop(1) add.assoc)
        then show ?thesis
          using nonempty less.prems(3) by (cases "rev acc @ w = []") (simp_all add: last_append)
      qed
      have upd: "?buf[?pos + length w := NUL] = (pre @ rev acc @ w @ [NUL]) @ rev [] @ r @ NUL # behind"
        by (simp add: stop(1) list_update_append)
      have tok: "c_str (drop (length pre) (?buf[?pos + length w := NUL])) = rev acc @ w"
        using c_str_stop [of "rev acc @ w" "r @ NUL # behind"] less.prems unfolding upd by (simp add: stop(1))
      have len: "?len = length (pre @ rev acc @ w @ [NUL]) + length ([] :: string) + length r"
        "?len = length pre + length (c # rev w @ acc) + length r" by (simp_all add: stop(1))
      have IH1: "tokenize alloc st' (?buf[?pos + length w := NUL]) (?pos + length w + 1) (?pos + length w + 1) ?len =
          run_tokens alloc st' (split_line [] r)" for st'
        using less.hyps [of r "[]" "pre @ rev acc @ w @ [NUL]" st' behind] less.prems
        unfolding upd len(1) by (simp add: stop(1) BACKSLASH_def add.assoc)
      have IH2: "tokenize alloc st ?buf (?pos + length w + 1) (length pre) ?len =
          run_tokens alloc st (split_line (c # rev w @ acc) r)"
        using less.hyps [of r "c # rev w @ acc" pre st behind] less.prems
        unfolding len(2) by (simp add: stop(1) add.assoc add.commute add.left_commute)
      have le: "?pos + length w \<le> ?len" by (simp add: stop(1))
      show ?thesis
        unfolding tokenize_step [OF pos sc le] tok IH1 IH2 stop(1) [symmetric]
        unfolding stop(1) split_line_stop [OF stop(3,2)] prev [unfolded stop(1)]
        by (simp split: prod.split)
    qed
  qed
qed

lemma parse_line_plain:
  assumes "NUL \<notin> set line" and "guarded {CHR ''#''} False line"
  shows "parse_filter_line alloc st line =
    (if 2 \<le> length line \<and> line ! (length line - 2) = BACKSLASH then (SCOREP_ERROR_PARSE_SYNTAX, st)
     else run_tokens alloc st (split_line [] line))"
proof (cases "line = []")
  case True
  then show ?thesis by (simp add: parse_filter_line_def split_line.simps)
next
  case False
  have "cut_comment (line @ [NUL]) 0 (length line) = (line @ [NUL], length line)"
    using cut_comment_none [of line "[]"] assms by simp
  moreover have "tokenize alloc st (line @ [NUL]) 0 0 (length line) = run_tokens alloc st (split_line [] line)"
    using tokenize_split [of "[]" line "[]" alloc st "[]"] assms by simp
  moreover have "(line @ [NUL]) ! (length line - 2) = line ! (length line - 2)"
    using False by (simp add: nth_append)
  ultimately show ?thesis using False by (simp add: parse_filter_line_def)
qed

text \<open>
  A comment does not change what a line means. A line with a hash that is not escaped is
  processed, tokens, errors and all, like the part of it in front of the first such hash.
\<close>

theorem filter_comment_ignored:
  assumes "NUL \<notin> set l" and "guarded {CHR ''#''} False l" and "l = [] \<or> last l \<noteq> BACKSLASH"
  shows "parse_filter_line alloc st (l @ CHR ''#'' # comment) = parse_filter_line alloc st l"
proof -
  have cut: "cut_comment ((l @ CHR ''#'' # comment) @ [NUL]) 0 (length (l @ CHR ''#'' # comment)) =
      (l @ NUL # comment @ [NUL], length l)"
    using cut_comment_found [of l "[]" comment] assms by simp
  have tok: "tokenize alloc st (l @ NUL # comment @ [NUL]) 0 0 (length l) = run_tokens alloc st (split_line [] l)"
    using tokenize_split [of "[]" l "[]" alloc st "comment @ [NUL]"] assms by simp
  have "l \<noteq> [] \<Longrightarrow> (l @ NUL # comment @ [NUL]) ! (length l - 2) = l ! (length l - 2)"
    by (simp add: nth_append)
  then show ?thesis
    unfolding parse_line_plain [OF assms(1,2)]
    unfolding parse_filter_line_def cut using tok by (cases "l = []") simp_all
qed

lemma filter_comment_ignored_witness:
  "parse_filter_line (\<lambda>_. True) \<lparr>parsed = example_filter, parse_mode = 4\<rparr> ''EXCLUDE # all'' =
     parse_filter_line (\<lambda>_. True) \<lparr>parsed = example_filter, parse_mode = 4\<rparr> ''EXCLUDE ''"
  using filter_comment_ignored [of "''EXCLUDE ''" "\<lambda>_. True" "\<lparr>parsed = example_filter, parse_mode = 4\<rparr>" "'' all''"]
  by (simp add: BACKSLASH_def)

subsection \<open>Reading back what was written\<close>

fun line_of :: "string list \<Rightarrow> string" where
  "line_of [] = [NEWLINE]"
| "line_of [t] = t @ [NEWLINE]"
| "line_of (t # ts) = t @ CHR '' '' # line_of ts"

definition good_token :: "string \<Rightarrow> bool" where
  "good_token t \<longleftrightarrow> t \<noteq> [] \<and> NUL \<notin> set t \<and> NEWLINE \<notin> set t \<and> last t \<noteq> BACKSLASH \<and>
     guarded (insert (CHR ''#'') (set WHITESPACE)) False t"

lemma split_line_char:
  assumes "x \<notin> set WHITESPACE" and "cs \<noteq> []"
  shows "split_line acc (x # cs) = split_line (x # acc) cs"
proof -
  have all: "takeWhile (\<lambda>c. c \<notin> set WHITESPACE) (x # cs) = x # takeWhile (\<lambda>c. c \<notin> set WHITESPACE) cs"
    "dropWhile (\<lambda>c. c \<notin> set WHITESPACE) (x # cs) = dropWhile (\<lambda>c. c \<notin> set WHITESPACE) cs"
    using assms by simp_all
  show ?thesis
    unfolding split_line.simps [of acc "x # cs"] split_line.simps [of "x # acc" cs] Let_def all
    using assms(2) by simp
qed

lemma split_line_token:
  "guarded (set WHITESPACE) (acc \<noteq> [] \<and> hd acc = BACKSLASH) t \<Longrightarrow>
   rev acc @ t = [] \<or> last (rev acc @ t) \<noteq> BACKSLASH \<Longrightarrow> c \<in> set WHITESPACE \<Longrightarrow>
   split_line acc (t @ c # r) = (rev acc @ t) # split_line [] r"
proof (induction t arbitrary: acc)
  case Nil
  then show ?case using split_line_stop [of "[]" c acc r] by simp
next
  case (Cons x t)
  have IH: "split_line (x # acc) (t @ c # r) = (rev (x # acc) @ t) # split_line [] r"
    by (rule Cons.IH) (use Cons.prems in \<open>auto split: if_splits\<close>)
  show ?case
  proof (cases "x \<in> set WHITESPACE")
    case True
    then have "acc \<noteq> []" "last (rev acc) = BACKSLASH" using Cons.prems by (auto simp: last_rev)
    then show ?thesis using split_line_stop [of "[]" x acc "t @ c # r"] True IH by simp
  next
    case False
    then show ?thesis using split_line_char [of x "t @ c # r" acc] IH by simp
  qed
qed

lemma good_token_guarded:
  assumes "good_token t"
  shows "guarded (set WHITESPACE) False t" "guarded {CHR ''#''} False t"
  using assms guarded_mono unfolding good_token_def by blast+

lemma split_line_of:
  "(\<And>t. t \<in> set ts \<Longrightarrow> good_token t) \<Longrightarrow> ts \<noteq> [] \<Longrightarrow> split_line [] (line_of ts) = ts"
proof (induction ts rule: line_of.induct)
  case (2 t)
  then show ?case
    using split_line_token [of "[]" t NEWLINE "[]"] good_token_guarded(1) [of t]
    by (simp add: good_token_def WHITESPACE_def split_line.simps)
next
  case (3 t t' ts)
  then show ?case
    using split_line_token [of "[]" t "CHR '' ''" "line_of (t' # ts)"] good_token_guarded(1) [of t]
    by (simp add: good_token_def WHITESPACE_def)
qed simp

lemma line_of_shape:
  "(\<And>t. t \<in> set ts \<Longrightarrow> good_token t) \<Longrightarrow> ts \<noteq> [] \<Longrightarrow>
   \<exists>l. line_of ts = l @ [NEWLINE] \<and> NEWLINE \<notin> set l \<and> NUL \<notin> set l \<and> l \<noteq> [] \<and> last l \<noteq> BACKSLASH \<and>
     guarded {CHR ''#''} False l \<and> guarded {CHR ''#''} False (line_of ts)"
proof (induction ts rule: line_of.induct)
  case (2 t)
  then show ?case
    using good_token_guarded(2) [of t]
    by (intro exI [of _ t]) (simp add: good_token_def guarded_append)
next
  case (3 t t' ts)
  then obtain l where "line_of (t' # ts) = l @ [NEWLINE] \<and> NEWLINE \<notin> set l \<and> NUL \<notin> set l \<and> l \<noteq> [] \<and>
      last l \<noteq> BACKSLASH \<and> guarded {CHR ''#''} False l \<and> guarded {CHR ''#''} False (line_of (t' # ts))"
    by (metis list.distinct(1) list.set_intros(2))
  then show ?case
    using 3(2) [of t] good_token_guarded(2) [of t]
    by (intro exI [of _ "t @ CHR '' '' # l"]) (simp add: good_token_def guarded_append BACKSLASH_def)
qed simp

lemma parse_line_of:
  assumes "\<And>t. t \<in> set ts \<Longrightarrow> good_token t" and "ts \<noteq> []"
  shows "parse_filter_line alloc st (line_of ts) = run_tokens alloc st ts"
proof -
  obtain l where l: "line_of ts = l @ [NEWLINE]" "NUL \<notin> set l" "l \<noteq> []" "last l \<noteq> BACKSLASH"
    "guarded {CHR ''#''} False (line_of ts)"
    using line_of_shape [OF assms] by blast
  have "line_of ts ! (length (line_of ts) - 2) \<noteq> BACKSLASH"
    using l(1,3,4) nth_before [of l "[NEWLINE]"] by simp
  then show ?thesis
    using parse_line_plain [of "line_of ts" alloc st] l split_line_of [OF assms] by simp
qed

definition keywords_of_filters :: "string list" where
  "keywords_of_filters = [''SCOREP_FILE_NAMES_BEGIN'', ''SCOREP_FILE_NAMES_END'',
     ''SCOREP_REGION_NAMES_BEGIN'', ''SCOREP_REGION_NAMES_END'', ''EXCLUDE'', ''INCLUDE'', ''MANGLED'',
     ''DEMANGLED'']"

definition good_rule :: "filter_rule \<Rightarrow> bool" where
  "good_rule r \<longleftrightarrow> (\<exists>p. pattern r = Some p \<and> good_token p \<and> p \<notin> set keywords_of_filters \<and> length p < 900)"

definition rule_tokens :: "bool \<Rightarrow> filter_rule \<Rightarrow> string list" where
  "rule_tokens of_region r =
     (if is_exclude r then ''EXCLUDE'' else ''INCLUDE'') #
     (if of_region then [if is_mangled r then ''MANGLED'' else ''DEMANGLED''] else []) @ [the (pattern r)]"

definition filter_tokens :: "rule_filter \<Rightarrow> string list list" where
  "filter_tokens fl = [''SCOREP_FILE_NAMES_BEGIN''] # map (rule_tokens False) (file_rules fl) @
     [[''SCOREP_FILE_NAMES_END''], [''SCOREP_REGION_NAMES_BEGIN'']] @
     map (rule_tokens True) (function_rules fl) @ [[''SCOREP_REGION_NAMES_END'']]"

text \<open>A filter file: one rule per line.\<close>

definition print_filter :: "rule_filter \<Rightarrow> string" where
  "print_filter fl = concat (map line_of (filter_tokens fl))"

fun run_lines :: "(nat \<Rightarrow> bool) \<Rightarrow> parse_state \<Rightarrow> string list list \<Rightarrow> error_code \<times> parse_state" where
  "run_lines alloc st [] = (SCOREP_SUCCESS, st)"
| "run_lines alloc st (l # ls) =
     (let (err, st') = run_tokens alloc st l
      in if err \<noteq> SCOREP_SUCCESS then (err, st') else run_lines alloc st' ls)"

lemma run_lines_append:
  "run_lines alloc st (ls @ ms) =
     (let (err, st') = run_lines alloc st ls
      in if err \<noteq> SCOREP_SUCCESS then (err, st') else run_lines alloc st' ms)"
  by (induction ls arbitrary: st) (auto split: prod.splits)

lemma good_keywords:
  "good_token ''EXCLUDE''" "good_token ''INCLUDE''" "good_token ''MANGLED''" "good_token ''DEMANGLED''"
  "good_token ''SCOREP_FILE_NAMES_BEGIN''" "good_token ''SCOREP_FILE_NAMES_END''"
  "good_token ''SCOREP_REGION_NAMES_BEGIN''" "good_token ''SCOREP_REGION_NAMES_END''"
  by (simp_all add: good_token_def WHITESPACE_def BACKSLASH_def)

lemma add_rule_all:
  assumes "\<And>n. alloc n" and "p \<noteq> []"
  shows "scorep_filter_add_rule alloc rules p exclude mangled =
    (SCOREP_SUCCESS, rules @ [\<lparr>pattern = Some p, is_mangled = mangled, is_exclude = exclude\<rparr>])"
  using assms by (simp add: scorep_filter_add_rule_def UTILS_CStr_dup_def)

lemma process_pattern:
  assumes "\<And>n. alloc n" and "p \<notin> set keywords_of_filters" and "p \<noteq> []"
  shows "process_token alloc st p =
    (if base_in st SCOREP_FILTER_PARSE_FILES_EXCLUDE SCOREP_FILTER_PARSE_FILES_INCLUDE
     then (SCOREP_SUCCESS, st\<lparr>parsed := (parsed st)\<lparr>file_rules := file_rules (parsed st) @
        [\<lparr>pattern = Some p, is_mangled = False,
          is_exclude = (SCOREP_FILTER_MODE_BASE (parse_mode st) = SCOREP_FILTER_PARSE_FILES_EXCLUDE)\<rparr>]\<rparr>\<rparr>)
     else if base_in st SCOREP_FILTER_PARSE_REGIONS_EXCLUDE SCOREP_FILTER_PARSE_REGIONS_INCLUDE
     then (SCOREP_SUCCESS, st\<lparr>parsed := (parsed st)\<lparr>function_rules := function_rules (parsed st) @
        [\<lparr>pattern = Some p, is_mangled = SCOREP_FILTER_MODE_IS_MANGLED (parse_mode st),
          is_exclude = (SCOREP_FILTER_MODE_BASE (parse_mode st) = SCOREP_FILTER_PARSE_REGIONS_EXCLUDE)\<rparr>]\<rparr>\<rparr>)
     else (SCOREP_ERROR_PARSE_SYNTAX, st))"
  using assms(2,3) unfolding process_token_def Let_def add_rule_all [OF assms(1,3)] keywords_of_filters_def
  by simp

text \<open>The modes after a line of a block: the block's first one, or one of a rule.\<close>

definition block_modes :: "bool \<Rightarrow> u32 set" where
  "block_modes of_region = (if of_region then {4, 5, 6, 13, 14} else {1, 2, 3})"

definition rule_mode :: "bool \<Rightarrow> filter_rule \<Rightarrow> u32" where
  "rule_mode of_region r =
     (if of_region then (if is_exclude r then 5 else 6) OR (if is_mangled r then 8 else 0)
      else if is_exclude r then 2 else 3)"

lemmas mode_tests = base_in_def SCOREP_FILTER_MODE_BASE_def SCOREP_FILTER_MODE_IS_MANGLED_def filter_modes

lemma process_verb:
  assumes "parse_mode st \<in> block_modes of_region"
  shows "process_token alloc st (if x then ''EXCLUDE'' else ''INCLUDE'') =
    (SCOREP_SUCCESS, st\<lparr>parse_mode := if of_region then (if x then 5 else 6) else if x then 2 else 3\<rparr>)"
proof (cases of_region)
  case True
  then consider "parse_mode st = 4" | "parse_mode st = 5" | "parse_mode st = 6" | "parse_mode st = 13"
    | "parse_mode st = 14"
    using assms by (auto simp: block_modes_def)
  then show ?thesis using True by cases (simp_all add: process_token_def mode_tests)
next
  case False
  then consider "parse_mode st = 1" | "parse_mode st = 2" | "parse_mode st = 3"
    using assms by (auto simp: block_modes_def)
  then show ?thesis using False by cases (simp_all add: process_token_def mode_tests)
qed

lemma process_mangled:
  assumes "parse_mode st = (if x then 5 else 6)"
  shows "process_token alloc st (if g then ''MANGLED'' else ''DEMANGLED'') =
    (SCOREP_SUCCESS, st\<lparr>parse_mode := (if x then 5 else 6) OR (if g then 8 else 0)\<rparr>)"
  using assms by (cases x; cases g) (simp_all add: process_token_def mode_tests)

lemma run_rule:
  assumes "\<And>n. alloc n" and "good_rule r" and "parse_mode st \<in> block_modes of_region"
    and "\<not> of_region \<Longrightarrow> \<not> is_mangled r"
  shows "run_tokens alloc st (rule_tokens of_region r) =
    (SCOREP_SUCCESS, st\<lparr>parsed := (if of_region
        then (parsed st)\<lparr>function_rules := function_rules (parsed st) @ [r]\<rparr>
        else (parsed st)\<lparr>file_rules := file_rules (parsed st) @ [r]\<rparr>), parse_mode := rule_mode of_region r\<rparr>)"
proof -
  obtain p where p: "pattern r = Some p" "p \<noteq> []" "p \<notin> set keywords_of_filters"
    using assms(2) unfolding good_rule_def good_token_def by blast
  obtain x g where r: "r = \<lparr>pattern = Some p, is_mangled = g, is_exclude = x\<rparr>"
    using p(1) by (cases r) auto
  note pp = process_pattern [OF assms(1) p(3,2)]
  note verb = process_verb [OF assms(3), of alloc x]
  show ?thesis
  proof (cases of_region)
    case True
    let ?st = "st\<lparr>parse_mode := if x then 5 else 6\<rparr>"
    have g: "process_token alloc ?st (if g then ''MANGLED'' else ''DEMANGLED'') =
        (SCOREP_SUCCESS, ?st\<lparr>parse_mode := (if x then 5 else 6) OR (if g then 8 else 0)\<rparr>)"
      by (rule process_mangled) simp
    show ?thesis
      using True verb g by (cases x; cases g) (simp_all add: r rule_tokens_def pp mode_tests rule_mode_def)
  next
    case False
    then show ?thesis
      using verb assms(4) by (cases x) (simp_all add: r rule_tokens_def pp mode_tests rule_mode_def)
  qed
qed

lemma rule_mode_block: "(\<not> of_region \<Longrightarrow> \<not> is_mangled r) \<Longrightarrow> rule_mode of_region r \<in> block_modes of_region"
  by (simp add: rule_mode_def block_modes_def)

lemma run_rules:
  assumes "\<And>n. alloc n" and "\<And>r. r \<in> set rs \<Longrightarrow> good_rule r" and "parse_mode st \<in> block_modes of_region"
    and "\<And>r. r \<in> set rs \<Longrightarrow> \<not> of_region \<Longrightarrow> \<not> is_mangled r"
  shows "\<exists>m\<in>block_modes of_region. run_lines alloc st (map (rule_tokens of_region) rs) =
    (SCOREP_SUCCESS, st\<lparr>parsed := (if of_region
        then (parsed st)\<lparr>function_rules := function_rules (parsed st) @ rs\<rparr>
        else (parsed st)\<lparr>file_rules := file_rules (parsed st) @ rs\<rparr>), parse_mode := m\<rparr>)"
  using assms(2-)
proof (induction rs arbitrary: st)
  case Nil
  then show ?case by (intro bexI [of _ "parse_mode st"]) (cases of_region; simp)+
next
  case (Cons r rs)
  let ?st = "st\<lparr>parsed := (if of_region
      then (parsed st)\<lparr>function_rules := function_rules (parsed st) @ [r]\<rparr>
      else (parsed st)\<lparr>file_rules := file_rules (parsed st) @ [r]\<rparr>), parse_mode := rule_mode of_region r\<rparr>"
  have run: "run_tokens alloc st (rule_tokens of_region r) = (SCOREP_SUCCESS, ?st)"
    by (rule run_rule [OF assms(1)]) (use Cons.prems in auto)
  have "rule_mode of_region r \<in> block_modes of_region" by (rule rule_mode_block) (use Cons.prems in auto)
  then have "parse_mode ?st \<in> block_modes of_region" by simp
  from Cons.IH [OF _ this] Cons.prems
  obtain m where "m \<in> block_modes of_region" "run_lines alloc ?st (map (rule_tokens of_region) rs) =
    (SCOREP_SUCCESS, ?st\<lparr>parsed := (if of_region
        then (parsed ?st)\<lparr>function_rules := function_rules (parsed ?st) @ rs\<rparr>
        else (parsed ?st)\<lparr>file_rules := file_rules (parsed ?st) @ rs\<rparr>), parse_mode := m\<rparr>)"
    by auto
  then show ?case using run by (intro bexI [of _ m]) (cases of_region; simp)+
qed

lemma process_block_end:
  assumes "parse_mode st \<in> block_modes of_region"
  shows "process_token alloc st (if of_region then ''SCOREP_REGION_NAMES_END'' else ''SCOREP_FILE_NAMES_END'') =
    (SCOREP_SUCCESS, st\<lparr>parse_mode := 0\<rparr>)"
proof (cases of_region)
  case True
  then consider "parse_mode st = 4" | "parse_mode st = 5" | "parse_mode st = 6" | "parse_mode st = 13"
    | "parse_mode st = 14"
    using assms by (auto simp: block_modes_def)
  then show ?thesis using True by cases (simp_all add: process_token_def mode_tests)
next
  case False
  then consider "parse_mode st = 1" | "parse_mode st = 2" | "parse_mode st = 3"
    using assms by (auto simp: block_modes_def)
  then show ?thesis using False by cases (simp_all add: process_token_def mode_tests)
qed

lemma process_block_begin:
  assumes "parse_mode st = 0"
  shows "process_token alloc st (if of_region then ''SCOREP_REGION_NAMES_BEGIN'' else ''SCOREP_FILE_NAMES_BEGIN'') =
    (SCOREP_SUCCESS, st\<lparr>parse_mode := if of_region then 4 else 1\<rparr>)"
  using assms by (simp add: process_token_def filter_modes)

text \<open>A block of rules, with the lines around it, adds its rules and returns to the start mode.\<close>

lemma run_block:
  assumes "\<And>n. alloc n" and "\<And>r. r \<in> set rs \<Longrightarrow> good_rule r" and "parse_mode st = 0"
    and "\<And>r. r \<in> set rs \<Longrightarrow> \<not> of_region \<Longrightarrow> \<not> is_mangled r"
  shows "run_lines alloc st
     ([if of_region then ''SCOREP_REGION_NAMES_BEGIN'' else ''SCOREP_FILE_NAMES_BEGIN''] #
      map (rule_tokens of_region) rs @
      [[if of_region then ''SCOREP_REGION_NAMES_END'' else ''SCOREP_FILE_NAMES_END'']]) =
    (SCOREP_SUCCESS, st\<lparr>parsed := (if of_region
        then (parsed st)\<lparr>function_rules := function_rules (parsed st) @ rs\<rparr>
        else (parsed st)\<lparr>file_rules := file_rules (parsed st) @ rs\<rparr>)\<rparr>)"
proof -
  let ?st = "st\<lparr>parse_mode := if of_region then 4 else 1\<rparr>"
  have "parse_mode ?st \<in> block_modes of_region" by (simp add: block_modes_def)
  from run_rules [OF assms(1,2) this assms(4)]
  obtain m where m: "m \<in> block_modes of_region" "run_lines alloc ?st (map (rule_tokens of_region) rs) =
    (SCOREP_SUCCESS, ?st\<lparr>parsed := (if of_region
        then (parsed ?st)\<lparr>function_rules := function_rules (parsed ?st) @ rs\<rparr>
        else (parsed ?st)\<lparr>file_rules := file_rules (parsed ?st) @ rs\<rparr>), parse_mode := m\<rparr>)"
    by (rule bexE)
  let ?st2 = "?st\<lparr>parsed := (if of_region
        then (parsed ?st)\<lparr>function_rules := function_rules (parsed ?st) @ rs\<rparr>
        else (parsed ?st)\<lparr>file_rules := file_rules (parsed ?st) @ rs\<rparr>), parse_mode := m\<rparr>"
  have "parse_mode ?st2 \<in> block_modes of_region" using m(1) by simp
  note stop_block = process_block_end [OF this, of alloc]
  have back_to_start: "?st2\<lparr>parse_mode := 0\<rparr> = st\<lparr>parsed := (if of_region
        then (parsed st)\<lparr>function_rules := function_rules (parsed st) @ rs\<rparr>
        else (parsed st)\<lparr>file_rules := file_rules (parsed st) @ rs\<rparr>)\<rparr>"
    using assms(3) by (cases st) simp
  show ?thesis
    by (simp only: run_lines.simps run_tokens.simps process_block_begin [OF assms(3)] run_lines_append
        m(2) stop_block back_to_start Let_def prod.case simp_thms if_False if_True)
qed

text \<open>Reading lines that fit into the first buffer.\<close>

lemma parse_lines_of:
  assumes "\<And>n. alloc n" and "\<And>ts t. ts \<in> set lines \<Longrightarrow> t \<in> set ts \<Longrightarrow> good_token t"
    and "\<And>ts. ts \<in> set lines \<Longrightarrow> ts \<noteq> [] \<and> length (line_of ts) + 1 < line_room b"
    and "left_over f = concat (map line_of lines)" and "\<not> feof f" and "\<not> broken f" and "1 < line_room b"
  shows "parse_filter_lines alloc st b f = run_lines alloc st lines"
  using assms(2-)
proof (induction lines arbitrary: st b f)
  case Nil
  have "UTILS_IO_GetLine alloc b f =
      (SCOREP_ERROR_END_OF_BUFFER, \<lparr>buffer_chars = Some [], buffer_size = line_room b\<rparr>, f\<lparr>feof := True\<rparr>)"
    by (rule get_line_at_end [OF assms(1)]) (use Nil in auto)
  then show ?case
    using Nil by (simp add: parse_filter_lines.simps parse_filter_line_def)
next
  case (Cons ts lines)
  have good: "\<And>t. t \<in> set ts \<Longrightarrow> good_token t" "ts \<noteq> []" using Cons.prems(1,2) by auto
  obtain l where l: "line_of ts = l @ [NEWLINE]" "NEWLINE \<notin> set l" "NUL \<notin> set l"
    using line_of_shape [OF good] by blast
  let ?b = "\<lparr>buffer_chars = Some (l @ [NEWLINE]), buffer_size = line_room b\<rparr>"
  let ?f = "f\<lparr>left_over := concat (map line_of lines)\<rparr>"
  have room: "line_room ?b = line_room b" using Cons.prems(6) by (simp add: line_room_def)
  have get: "UTILS_IO_GetLine alloc b f = (SCOREP_SUCCESS, ?b, ?f)"
  proof (rule get_line_short [OF assms(1) _ l(2,3)])
    show "left_over f = l @ NEWLINE # concat (map line_of lines)" using Cons.prems(3) l(1) by simp
    show "length l + 2 < line_room b" using Cons.prems(2) [of ts] l(1) by simp
  qed
  have line: "parse_filter_line alloc st (l @ [NEWLINE]) = run_tokens alloc st ts"
    using parse_line_of [OF good, of alloc st] l(1) by simp
  have IH: "parse_filter_lines alloc st' ?b ?f = run_lines alloc st' lines" for st'
    by (rule Cons.IH) (use Cons.prems room in auto)
  show ?case
    using Cons.prems(4) by (simp add: parse_filter_lines.simps [of alloc st b f] get line IH split: prod.split)
qed

lemma length_line_of: "length (line_of ts) \<le> sum_list (map length ts) + length ts + 1"
  by (induction ts rule: line_of.induct) auto

text \<open>
  C8: a filter file gives back the rules that were written to it. Printing the rules of a filter in
  the format of the filter file, one rule per line, and parsing the file restores both lists of
  rules, in their order, for all patterns without newline whose blanks and hashes are escaped,
  that do not end in a backslash, are none of the keywords and not too long. The file stays open
  and the line buffer allocated after the parser has returned successfully.
\<close>

theorem filter_file_roundtrip:
  assumes "\<And>n. alloc n" and "\<And>r. r \<in> set (file_rules fl) \<union> set (function_rules fl) \<Longrightarrow> good_rule r"
    and "\<And>r. r \<in> set (file_rules fl) \<Longrightarrow> \<not> is_mangled r"
    and "fopen name = Some \<lparr>left_over = print_filter fl, feof = False, broken = False\<rparr>"
  shows "SCOREP_Filter_ParseFile alloc fopen (SCOREP_Filter_New alloc) (Some name) =
    Some \<lparr>parse_error = SCOREP_SUCCESS, new_filter = fl, left_open = True, buffer_leaked = True\<rparr>"
proof -
  let ?e = "\<lparr>file_rules = [], function_rules = []\<rparr> :: rule_filter"
  let ?st = "\<lparr>parsed = ?e, parse_mode = 0\<rparr>" and ?b = "\<lparr>buffer_chars = None, buffer_size = 0\<rparr>"
  let ?f = "\<lparr>left_over = print_filter fl, feof = False, broken = False\<rparr>"
  have room: "line_room ?b = 1024" by (simp add: line_room_def BUFFER_SIZE_def)
  have rule: "(\<forall>t\<in>set (rule_tokens g r). good_token t) \<and> length (line_of (rule_tokens g r)) < 930"
    if "good_rule r" for g r
  proof -
    have "sum_list (map length (rule_tokens g r)) + length (rule_tokens g r) < 929"
      using that by (auto simp: good_rule_def rule_tokens_def)
    then show ?thesis
      using that length_line_of [of "rule_tokens g r"] good_keywords
      by (auto simp: good_rule_def rule_tokens_def)
  qed
  have line: "ts \<noteq> [] \<and> (\<forall>t\<in>set ts. good_token t) \<and> length (line_of ts) < 930"
    if ts: "ts \<in> set (filter_tokens fl)" for ts
  proof -
    have "ts \<in> rule_tokens False ` set (file_rules fl) \<union> rule_tokens True ` set (function_rules fl) \<or>
        ts \<in> (\<lambda>t. [t]) ` set keywords_of_filters"
      using ts by (auto simp: filter_tokens_def keywords_of_filters_def)
    then consider (r) g r where "ts = rule_tokens g r" "good_rule r"
      | (k) t where "ts = [t]" "t \<in> set keywords_of_filters"
      using assms(2) by blast
    then show ?thesis
    proof cases
      case r
      then show ?thesis using rule by (simp add: rule_tokens_def)
    next
      case k
      then show ?thesis using good_keywords by (auto simp: keywords_of_filters_def)
    qed
  qed
  have "parse_filter_lines alloc ?st ?b ?f = run_lines alloc ?st (filter_tokens fl)"
  proof (rule parse_lines_of [OF assms(1)])
    show "good_token t" if "ts \<in> set (filter_tokens fl)" "t \<in> set ts" for ts t
      using line [OF that(1)] that(2) by blast
    show "ts \<noteq> [] \<and> length (line_of ts) + 1 < line_room ?b" if "ts \<in> set (filter_tokens fl)" for ts
      using line [OF that] unfolding room by simp
    show "1 < line_room ?b" unfolding room by simp
  qed (simp_all add: print_filter_def)
  also have "\<dots> = (SCOREP_SUCCESS, \<lparr>parsed = fl, parse_mode = 0\<rparr>)"
  proof -
    have split: "filter_tokens fl =
        ([if False then ''SCOREP_REGION_NAMES_BEGIN'' else ''SCOREP_FILE_NAMES_BEGIN''] #
         map (rule_tokens False) (file_rules fl) @
         [[if False then ''SCOREP_REGION_NAMES_END'' else ''SCOREP_FILE_NAMES_END'']]) @
        ([if True then ''SCOREP_REGION_NAMES_BEGIN'' else ''SCOREP_FILE_NAMES_BEGIN''] #
         map (rule_tokens True) (function_rules fl) @
         [[if True then ''SCOREP_REGION_NAMES_END'' else ''SCOREP_FILE_NAMES_END'']])"
      by (simp add: filter_tokens_def)
    have one: "run_lines alloc ?st
        ([if False then ''SCOREP_REGION_NAMES_BEGIN'' else ''SCOREP_FILE_NAMES_BEGIN''] #
         map (rule_tokens False) (file_rules fl) @
         [[if False then ''SCOREP_REGION_NAMES_END'' else ''SCOREP_FILE_NAMES_END'']]) =
      (SCOREP_SUCCESS, ?st\<lparr>parsed := ?e\<lparr>file_rules := file_rules fl\<rparr>\<rparr>)"
      using run_block [OF assms(1), of "file_rules fl" ?st False] assms(2,3) by simp
    have two: "run_lines alloc (?st\<lparr>parsed := ?e\<lparr>file_rules := file_rules fl\<rparr>\<rparr>)
        ([if True then ''SCOREP_REGION_NAMES_BEGIN'' else ''SCOREP_FILE_NAMES_BEGIN''] #
         map (rule_tokens True) (function_rules fl) @
         [[if True then ''SCOREP_REGION_NAMES_END'' else ''SCOREP_FILE_NAMES_END'']]) =
      (SCOREP_SUCCESS, \<lparr>parsed = fl, parse_mode = 0\<rparr>)"
      using run_block [OF assms(1), of "function_rules fl" "?st\<lparr>parsed := ?e\<lparr>file_rules := file_rules fl\<rparr>\<rparr>" True]
        assms(2) by simp
    show ?thesis
      unfolding split run_lines_append one by (simp only: Let_def prod.case two simp_thms if_False)
  qed
  finally show ?thesis
    using assms(1,4) by (simp add: SCOREP_Filter_ParseFile_def SCOREP_Filter_New_def SCOREP_FILTER_PARSE_START_def)
qed

lemma filter_file_roundtrip_witness:
  "SCOREP_Filter_ParseFile (\<lambda>_. True)
     (\<lambda>_. Some \<lparr>left_over = print_filter example_filter, feof = False, broken = False\<rparr>)
     (SCOREP_Filter_New (\<lambda>_. True)) (Some ''f.filt'') =
   Some \<lparr>parse_error = SCOREP_SUCCESS, new_filter = example_filter, left_open = True, buffer_leaked = True\<rparr>"
  by (rule filter_file_roundtrip)
    (auto simp: example_filter_def good_rule_def good_token_def keywords_of_filters_def WHITESPACE_def BACKSLASH_def)

text \<open>
  The modes of the parser. From a mode of the parser every token leads to a mode of the parser;
  the mangled bit is set inside a rule for regions only, and a token that is refused, in any mode,
  changes neither the mode nor the rules.
\<close>

theorem parser_modes:
  assumes "parse_mode st \<in> {0} \<union> block_modes False \<union> block_modes True"
    and "process_token alloc st token = (err, st')"
  shows "parse_mode st' \<in> {0} \<union> block_modes False \<union> block_modes True \<and>
    (err = SCOREP_SUCCESS \<or> err = SCOREP_ERROR_PARSE_SYNTAX \<and> st' = st)"
proof -
  consider "parse_mode st = 0" | "parse_mode st = 1" | "parse_mode st = 2" | "parse_mode st = 3"
    | "parse_mode st = 4" | "parse_mode st = 5" | "parse_mode st = 6" | "parse_mode st = 13" | "parse_mode st = 14"
    using assms(1) by (auto simp: block_modes_def)
  then show ?thesis
    using assms(2) unfolding process_token_def mode_tests block_modes_def Let_def
    by cases (simp_all add: word_le_nat_alt split: if_splits, auto)
qed

lemma parser_modes_witness:
  "process_token (\<lambda>_. True) \<lparr>parsed = example_filter, parse_mode = 13\<rparr> ''MANGLED'' =
     (SCOREP_SUCCESS, \<lparr>parsed = example_filter, parse_mode = 13\<rparr>)"
  using parser_modes [of "\<lparr>parsed = example_filter, parse_mode = 13\<rparr>" "\<lambda>_. True" "''MANGLED''"]
  by (simp add: process_token_def mode_tests)

end
