(* ===== verification/SimplifyPath.thy ===== *)
theory SimplifyPath
  imports Utils_IO
begin

section \<open>Simplification of paths\<close>

text \<open>
  \<^verbatim>\<open>UTILS_IO_SimplifyPath\<close> of \<^verbatim>\<open>common/utils/src/io/UTILS_IO_Tools.c\<close> works in place: the model is on the
  block of bytes that holds the string, every access is checked against its end, and an access in
  front of it or behind it is a fault. The counters are the \<^verbatim>\<open>int\<close>s of the code; paths are taken to be
  shorter than \<^verbatim>\<open>INT_MAX\<close>, so that the counters do not overflow.
\<close>

definition rd :: "string \<Rightarrow> int \<Rightarrow> char outcome" where
  "rd b i = (if 0 \<le> i \<and> nat i < length b then Inr (b ! nat i) else Inl Bad_Access)"

definition wr :: "string \<Rightarrow> int \<Rightarrow> char \<Rightarrow> string outcome" where
  "wr b i c = (if 0 \<le> i \<and> nat i < length b then Inr (b[nat i := c]) else Inl Bad_Access)"

text \<open>\<^verbatim>\<open>memmove( &path[ dst ], &path[ src ], n )\<close>; a negative \<open>n\<close> is a huge \<^verbatim>\<open>size_t\<close>.\<close>

definition move :: "string \<Rightarrow> int \<Rightarrow> int \<Rightarrow> int \<Rightarrow> string outcome" where
  "move b dst src n =
     (if n = 0 then Inr b
      else if n < 0 \<or> dst < 0 \<or> src < 0 \<or> nat (dst + n) > length b \<or> nat (src + n) > length b then Inl Bad_Access
      else Inr (take (nat dst) b @ take (nat n) (drop (nat src) b) @ drop (nat (dst + n)) b))"

lemma wr_length: "wr b i c = Inr b' \<Longrightarrow> length b' = length b"
  by (auto simp: wr_def split: if_splits)

subsection \<open>Double slashes and \<^verbatim>\<open>/./\<close>\<close>

function squeeze :: "string \<Rightarrow> int \<Rightarrow> int \<Rightarrow> bool \<Rightarrow> (string \<times> int \<times> int \<times> bool) outcome" where
  "squeeze b len level has_slashes =
     and_then (rd b len) (\<lambda>c.
       if c = NUL then Inr (b, len, level, has_slashes)
       else and_then (wr b (len - level) c) (\<lambda>b'.
         if c \<noteq> CHR ''/'' then squeeze b' (len + 1) level has_slashes
         else and_then (rd b' (len + 1)) (\<lambda>c1.
           if c1 = CHR ''/'' then squeeze b' (len + 1) (level + 1) True
           else if c1 = CHR ''.''
           then and_then (rd b' (len + 2)) (\<lambda>c2.
                  if c2 = CHR ''/'' then squeeze b' (len + 2) (level + 2) True
                  else squeeze b' (len + 1) level True)
           else squeeze b' (len + 1) level True)))"
  by pat_completeness auto
termination
  by (relation "measure (\<lambda>(b, len, _). nat (int (length b) - len))")
    (auto simp: rd_def dest: wr_length split: if_splits)

declare squeeze.simps [simp del]

subsection \<open>\<^verbatim>\<open>..\<close> components\<close>

definition is_dotdot :: "string \<Rightarrow> int \<Rightarrow> bool outcome" where
  "is_dotdot b pos =
     (if pos \<ge> 3
      then and_then (rd b (pos + 1)) (\<lambda>c3.
        if c3 = CHR ''/'' \<or> c3 = NUL
        then and_then (rd b pos) (\<lambda>c2.
          if c2 = CHR ''.''
          then and_then (rd b (pos - 1)) (\<lambda>c1.
            if c1 = CHR ''.''
            then and_then (rd b (pos - 2)) (\<lambda>c0. Inr (c0 = CHR ''/''))
            else Inr False)
          else Inr False)
        else Inr False)
      else Inr False)"

function cut_dotdots :: "string \<Rightarrow> int \<Rightarrow> int \<Rightarrow> int \<Rightarrow> int \<Rightarrow> (string \<times> int \<times> int \<times> int) outcome" where
  "cut_dotdots b len level cut_end pos =
     (if pos < 0 then Inr (b, len, level, cut_end)
      else and_then (is_dotdot b pos) (\<lambda>dotdot.
        if dotdot then cut_dotdots b len (level + 1) (if level = 0 then pos + 1 else cut_end) (pos - 3)
        else and_then (rd b pos) (\<lambda>c.
          if c = CHR ''/''
          then if level > 0
               then if level - 1 = 0
                    then let diff = cut_end - pos
                         in and_then (move b pos (pos + diff) (len - diff - pos + 1)) (\<lambda>b'.
                              cut_dotdots b' (len - diff) 0 pos (pos - 1))
                    else cut_dotdots b len (level - 1) cut_end (pos - 1)
               else cut_dotdots b len level pos (pos - 1)
          else cut_dotdots b len level cut_end (pos - 1))))"
  by pat_completeness auto
termination by (relation "measure (\<lambda>(_, _, _, _, pos). nat (pos + 1))") auto

declare cut_dotdots.simps [simp del]

text \<open>The levels that are left become a leading \<^verbatim>\<open>../\<close> sequence.\<close>

function put_dotdots :: "string \<Rightarrow> int \<Rightarrow> int \<Rightarrow> (string \<times> int) outcome" where
  "put_dotdots b pos level =
     (if pos < level * 3
      then and_then (wr b pos CHR ''.'') (\<lambda>b. and_then (wr b (pos + 1) CHR ''.'') (\<lambda>b.
             and_then (wr b (pos + 2) CHR ''/'') (\<lambda>b. put_dotdots b (pos + 3) level)))
      else Inr (b, pos))"
  by pat_completeness auto
termination by (relation "measure (\<lambda>(_, pos, level). nat (level * 3 - pos))") auto

declare put_dotdots.simps [simp del]

definition first_item :: "string \<Rightarrow> int \<Rightarrow> int \<Rightarrow> int \<Rightarrow> (string \<times> int) outcome" where
  "first_item b len level cut_end =
     and_then (rd b 0) (\<lambda>p0.
       if p0 \<noteq> CHR ''/'' \<and> level > 0
       then and_then (rd b 1) (\<lambda>p1. and_then (if p0 = CHR ''.'' \<and> p1 = CHR ''.'' then rd b 2 else Inr NUL) (\<lambda>p2.
         let level = (if p2 = CHR ''/'' then level + 1
                      else if p0 \<noteq> CHR ''.'' \<or> p1 \<noteq> CHR ''/'' then level - 1 else level)
         in and_then (put_dotdots b 0 level) (\<lambda>(b, pos).
              let diff = cut_end + 1 - pos; len = len - diff
              in and_then (move b pos (pos + diff) (len - pos + 1)) (\<lambda>b.
                   if len < 0 then and_then (wr b 0 NUL) (\<lambda>b. Inr (b, len)) else Inr (b, len)))))
       else Inr (b, len))"

text \<open>The string has \<open>len\<close> characters; a trailing slash is taken off first and put back at the end.\<close>

definition cut_items :: "string \<Rightarrow> int \<Rightarrow> (string \<times> int) outcome" where
  "cut_items b len =
     and_then (if len > 0 then rd b (len - 1) else Inr NUL) (\<lambda>c.
     let has_trailing_slash = (c = CHR ''/''); len = (if has_trailing_slash then len - 1 else len)
     in and_then (wr b len NUL) (\<lambda>b.
        and_then (cut_dotdots b len 0 len (len - 1)) (\<lambda>(b, len, level, cut_end).
        and_then (first_item b len level cut_end) (\<lambda>(b, len).
        if has_trailing_slash
        then and_then (wr b len CHR ''/'') (\<lambda>b. and_then (wr b (len + 1) NUL) (\<lambda>b. Inr (b, len)))
        else Inr (b, len)))))"

text \<open>A path that had slashes keeps one: \<^verbatim>\<open>./\<close> is put in front.\<close>

definition ensure_slash :: "string \<Rightarrow> int \<Rightarrow> string outcome" where
  "ensure_slash b len =
     and_then (move b 2 0 (len + 1)) (\<lambda>b.
       and_then (wr b 0 CHR ''.'') (\<lambda>b. wr b 1 CHR ''/''))"

definition UTILS_IO_SimplifyPath :: "string \<Rightarrow> string outcome" where
  "UTILS_IO_SimplifyPath path =
     and_then (rd path 0) (\<lambda>p0.
       let has_starting_slash = (p0 = CHR ''/'')
       in and_then (squeeze path 0 0 False) (\<lambda>(b, len, level, has_slashes).
          and_then (cut_items b (len - level)) (\<lambda>(b, len).
          and_then (rd b 0) (\<lambda>p0.
          and_then (if has_starting_slash \<and> p0 = NUL
                    then and_then (wr b 0 CHR ''/'') (\<lambda>b. wr b 1 NUL) else Inr b) (\<lambda>b.
          and_then (rd b 0) (\<lambda>p0.
            if has_slashes \<and> \<not> UTILS_IO_HasPath (c_str b) \<and> p0 \<noteq> NUL
            then ensure_slash b len else Inr b))))))"

definition simplified :: "string \<Rightarrow> string outcome" where
  "simplified path = and_then (UTILS_IO_SimplifyPath (path @ [NUL])) (\<lambda>b. Inr (c_str b))"

subsection \<open>Paths without \<^verbatim>\<open>..\<close>\<close>

text \<open>What the first loop does to the string, as a function on lists.\<close>

fun squeezed :: "string \<Rightarrow> string" where
  "squeezed [] = []"
| "squeezed (c # r) =
     (if c = CHR ''/'' \<and> take 1 r = ''/'' then squeezed r
      else if c = CHR ''/'' \<and> take 2 r = ''./'' then squeezed (tl r)
      else c # squeezed r)"

definition dotdot_free :: "string \<Rightarrow> bool" where
  "dotdot_free y \<longleftrightarrow> (\<nexists>u v. y = u @ ''/..'' @ v \<and> u \<noteq> [] \<and> (v = [] \<or> hd v = CHR ''/''))"

lemma squeezed_slash: "CHR ''/'' \<in> set (squeezed x) \<longleftrightarrow> CHR ''/'' \<in> set x"
proof (induction x rule: squeezed.induct)
  case (2 c r)
  have "CHR ''/'' \<in> set r" if "take 1 r = ''/''" using that by (cases r) auto
  moreover have "CHR ''/'' \<in> set (tl r)" if "take 2 r = ''./''" using that by (cases r; cases "tl r") auto
  ultimately show ?case using 2 by auto
qed simp

lemma squeezed_set: "set (squeezed x) \<subseteq> set x"
proof (induction x rule: squeezed.induct)
  case (2 c r)
  have "set (tl r) \<subseteq> set r" by (cases r) auto
  then show ?case using 2 by auto
qed simp

lemma squeezed_Nil [simp]: "squeezed x = [] \<longleftrightarrow> x = []"
proof (induction x rule: squeezed.induct)
  case (2 c r)
  have "r \<noteq> []" if "take 1 r = ''/''" using that by auto
  moreover have "tl r \<noteq> []" if "take 2 r = ''./''" using that by (cases r) auto
  ultimately show ?case using 2 by auto
qed simp

lemma rd_append [simp]: "rd (us @ c # vs) (int (length us)) = Inr c"
  by (simp add: rd_def)

lemma wr_append [simp]: "wr (us @ c # vs) (int (length us)) d = Inr (us @ d # vs)"
  by (simp add: wr_def)

lemma put_junk: "wr (us @ junk @ c # vs) (int (length us)) c =
    Inr (us @ (case junk of [] \<Rightarrow> [c] | j # js \<Rightarrow> c # js @ [c]) @ vs)"
  by (cases junk) simp_all

lemma squeeze_run:
  assumes "NUL \<notin> set rest"
  shows "\<exists>junk'. squeeze (us @ junk @ rest @ [NUL]) (int (length us + length junk)) (int (length junk)) hs =
    Inr (us @ squeezed rest @ junk' @ [NUL], int (length us + length (squeezed rest) + length junk'),
         int (length junk'), hs \<or> CHR ''/'' \<in> set rest) \<and>
    length (squeezed rest) + length junk' = length rest + length junk"
  using assms
proof (induction rest arbitrary: us junk hs rule: squeezed.induct)
  case 1
  have "rd ((us @ junk) @ NUL # []) (int (length (us @ junk))) = Inr NUL" by (rule rd_append)
  then show ?case by (subst squeeze.simps) (simp add: exI [of _ junk])
next
  case (2 c r)
  let ?b = "us @ junk @ (c # r) @ [NUL]" and ?len = "int (length us + length junk)"
  have c: "c \<noteq> NUL" and r: "NUL \<notin> set r" using 2(4) by auto
  have rd: "rd ?b ?len = Inr c" using rd_append [of "us @ junk" c "r @ [NUL]"] by simp
  obtain junk1 where junk1: "(case junk of [] \<Rightarrow> [c] | j # js \<Rightarrow> c # js @ [c]) = c # junk1"
    "length junk1 = length junk" by (cases junk) auto
  let ?b1 = "us @ (c # junk1) @ r @ [NUL]"
  have wr: "wr ?b (?len - int (length junk)) c = Inr ?b1"
    using put_junk [of us junk c "r @ [NUL]"] junk1(1) by simp
  have start: "squeeze ?b ?len (int (length junk)) hs =
      (if c \<noteq> CHR ''/'' then squeeze ?b1 (?len + 1) (int (length junk)) hs
       else and_then (rd ?b1 (?len + 1)) (\<lambda>c1.
           if c1 = CHR ''/'' then squeeze ?b1 (?len + 1) (int (length junk) + 1) True
           else if c1 = CHR ''.''
           then and_then (rd ?b1 (?len + 2)) (\<lambda>c2.
                  if c2 = CHR ''/'' then squeeze ?b1 (?len + 2) (int (length junk) + 2) True
                  else squeeze ?b1 (?len + 1) (int (length junk)) True)
           else squeeze ?b1 (?len + 1) (int (length junk)) True))"
    by (subst squeeze.simps) (simp only: rd wr c and_then_simps if_False)
  have keep: "\<exists>junk'. squeeze ?b1 (?len + 1) (int (length junk)) h =
      Inr (us @ (c # squeezed r) @ junk' @ [NUL], int (length us + length (c # squeezed r) + length junk'),
         int (length junk'), h \<or> CHR ''/'' \<in> set r) \<and>
      length (c # squeezed r) + length junk' = length (c # r) + length junk"
    if "\<not> (c = CHR ''/'' \<and> take 1 r = ''/'')" "\<not> (c = CHR ''/'' \<and> take 2 r = ''./'')" for h
    using 2(3) [OF that r, of "us @ [c]" junk1 h] junk1(2) by (simp add: algebra_simps)
  show ?case
  proof (cases "c = CHR ''/''")
    case False
    then show ?thesis using start keep [of hs] by simp
  next
    case slash: True
    have rd1: "rd ?b1 (?len + 1) = Inr (hd (r @ [NUL]))"
      using rd_append [of "us @ c # junk1" "hd (r @ [NUL])" "tl (r @ [NUL])"] junk1(2) by (simp add: algebra_simps)
    consider (double) "take 1 r = ''/''" | (dot) "take 1 r \<noteq> ''/''" "take 2 r = ''./''"
      | (other) "take 1 r \<noteq> ''/''" "take 2 r \<noteq> ''./''" by blast
    then show ?thesis
    proof cases
      case double
      then have hd: "hd (r @ [NUL]) = CHR ''/''" by (cases r) auto
      have "squeeze ?b ?len (int (length junk)) hs = squeeze ?b1 (?len + 1) (int (length junk) + 1) True"
        using start slash rd1 hd by simp
      then show ?thesis
        using 2(1) [of us "c # junk1" True] slash double r junk1(2) by (simp add: algebra_simps)
    next
      case dot
      then obtain r2 where r2: "r = CHR ''.'' # CHR ''/'' # r2"
        by (cases r; cases "tl r") auto
      have "rd ?b1 (?len + 2) = Inr (CHR ''/'')"
        using rd_append [of "us @ (c # junk1) @ [CHR ''.'']" "CHR ''/''" "r2 @ [NUL]"] junk1(2) r2
        by (simp add: algebra_simps)
      then have "squeeze ?b ?len (int (length junk)) hs = squeeze ?b1 (?len + 2) (int (length junk) + 2) True"
        using start slash rd1 r2 by simp
      then show ?thesis
        using 2(2) [of us "c # junk1 @ [CHR ''.'']" True] slash dot r r2 junk1(2) by (simp add: algebra_simps)
    next
      case other
      have "squeeze ?b ?len (int (length junk)) hs = squeeze ?b1 (?len + 1) (int (length junk)) True"
      proof (cases r)
        case (Cons d r1)
        have "rd ?b1 (?len + 2) = Inr (hd (r1 @ [NUL]))"
          using rd_append [of "us @ (c # junk1) @ [d]" "hd (r1 @ [NUL])" "tl (r1 @ [NUL])"] junk1(2) Cons
          by (simp add: algebra_simps)
        moreover have "\<not> (d = CHR ''.'' \<and> hd (r1 @ [NUL]) = CHR ''/'')" "d \<noteq> CHR ''/''"
          using other Cons by (cases r1; auto)+
        ultimately show ?thesis using start slash rd1 Cons by auto
      qed (use start slash rd1 in simp)
      then show ?thesis using keep [of True] slash other by simp
    qed
  qed
qed

text \<open>Without \<^verbatim>\<open>..\<close> the second loop changes nothing.\<close>

lemma no_dotdot:
  assumes free: "dotdot_free y" and y: "y = y0 \<or> y = y0 @ ''/''" and pos: "nat pos < length y0"
    and nul: "NUL \<notin> set y0"
  shows "is_dotdot (y0 @ NUL # vs) pos = Inr False"
proof (cases "3 \<le> pos")
  case True
  then obtain n where n: "pos = int n" "3 \<le> n" "n < length y0" using pos by (metis int_nat_eq nat_int nonneg_int_cases order_trans zero_le_numeral nat_le_iff of_nat_numeral zle_int)
  let ?b = "y0 @ NUL # vs"
  have at: "rd ?b (int k) = Inr (y0 ! k)" if "k < length y0" for k
    using that by (simp add: rd_def nth_append)
  have follow: "rd ?b (pos + 1) = Inr (hd (drop (n + 1) y0 @ [NUL]))"
  proof (cases "n + 1 < length y0")
    case True
    then show ?thesis using at [of "n + 1"] n(1) by (simp add: hd_append hd_drop_conv_nth add.commute)
  next
    case False
    then have "n + 1 = length y0" using n(3) by simp
    moreover from this have "pos + 1 = int (length y0)" using n(1) by simp
    ultimately show ?thesis using rd_append [of y0 NUL vs] by simp
  qed
  have "rd ?b pos = Inr (y0 ! n)" "rd ?b (pos - 1) = Inr (y0 ! (n - 1))" "rd ?b (pos - 2) = Inr (y0 ! (n - 2))"
    using at [of n] at [of "n - 1"] at [of "n - 2"] n by (simp_all add: of_nat_diff)
  moreover have "\<not> (hd (drop (n + 1) y0 @ [NUL]) \<in> {CHR ''/'', NUL} \<and> y0 ! n = CHR ''.'' \<and>
      y0 ! (n - 1) = CHR ''.'' \<and> y0 ! (n - 2) = CHR ''/'')"
  proof
    assume *: "hd (drop (n + 1) y0 @ [NUL]) \<in> {CHR ''/'', NUL} \<and> y0 ! n = CHR ''.'' \<and>
      y0 ! (n - 1) = CHR ''.'' \<and> y0 ! (n - 2) = CHR ''/''"
    obtain m where m: "n = Suc (Suc m)" "0 < m" using n(2) by (cases n; cases "n - 1") auto
    have "y0 = take m y0 @ y0 ! m # y0 ! Suc m # y0 ! Suc (Suc m) # drop (n + 1) y0"
      using n(3) m by (simp add: Cons_nth_drop_Suc [symmetric] id_take_nth_drop)
        (metis Cons_nth_drop_Suc Suc_lessD append_take_drop_id)
    then have split: "y0 = take m y0 @ ''/..'' @ drop (n + 1) y0" using * m by simp
    have hd: "drop (n + 1) y0 = [] \<or> hd (drop (n + 1) y0) = CHR ''/''"
    proof (cases "drop (n + 1) y0")
      case (Cons a l)
      then have "a \<in> set y0" by (metis in_set_dropD list.set_intros(1))
      then show ?thesis using * nul Cons by auto
    qed simp
    have ne: "take m y0 \<noteq> []" using m n(3) by auto
    have "\<exists>v. y = take m y0 @ ''/..'' @ v \<and> (v = [] \<or> hd v = CHR ''/'')"
    proof (cases "y = y0")
      case True
      then show ?thesis using split hd by (intro exI [of _ "drop (n + 1) y0"]) simp
    next
      case False
      then have "y = (take m y0 @ ''/..'' @ drop (n + 1) y0) @ ''/''" using y split by simp
      then show ?thesis using hd by (intro exI [of _ "drop (n + 1) y0 @ ''/''"]) (auto simp: hd_append)
    qed
    then show False using free ne unfolding dotdot_free_def by blast
  qed
  ultimately show ?thesis using True follow by (auto simp: is_dotdot_def)
qed (simp add: is_dotdot_def)

lemma cut_dotdots_free:
  assumes "\<And>p. 0 \<le> p \<Longrightarrow> p \<le> pos \<Longrightarrow> is_dotdot b p = Inr False" and "nat (pos + 1) \<le> length b"
  shows "\<exists>e. cut_dotdots b len 0 cut_end pos = Inr (b, len, 0, e)"
  using assms
proof (induction "nat (pos + 1)" arbitrary: pos cut_end)
  case 0
  then show ?case by (subst cut_dotdots.simps) simp
next
  case (Suc k)
  then have pos: "0 \<le> pos" "k = nat (pos - 1 + 1)" by simp_all
  have "nat pos < length b" using Suc.prems(2) pos(1) by (simp add: nat_add_distrib)
  then obtain c where "rd b pos = Inr c" using pos(1) by (auto simp: rd_def)
  then have run: "cut_dotdots b len 0 cut_end pos =
      cut_dotdots b len 0 (if c = CHR ''/'' then pos else cut_end) (pos - 1)"
    using Suc.prems(1) [of pos] pos(1) by (subst cut_dotdots.simps) simp
  show ?case unfolding run by (rule Suc.hyps(1) [OF pos(2)]) (use Suc.prems pos in auto)
qed

text \<open>The items of a path: what is between the slashes, without the empty items and the dots.\<close>

fun components :: "string \<Rightarrow> string list" where
  "components [] = [[]]"
| "components (c # r) =
     (if c = CHR ''/'' then [] # components r
      else (c # hd (components r)) # tl (components r))"

definition path_items :: "string \<Rightarrow> string list" where
  "path_items x = filter (\<lambda>p. p \<noteq> [] \<and> p \<noteq> ''.'') (components x)"

text \<open>The directory a path leads to: how many levels up, and then which way down.\<close>

fun resolve_items :: "nat \<times> string list \<Rightarrow> string list \<Rightarrow> nat \<times> string list" where
  "resolve_items d [] = d"
| "resolve_items (up, way) (p # ps) =
     resolve_items (if p = ''..'' then (if way = [] then (up + 1, []) else (up, butlast way))
                    else (up, way @ [p])) ps"

definition resolved :: "string \<Rightarrow> nat \<times> string list" where
  "resolved x = resolve_items (0, []) (path_items x)"

lemma components_ne [simp]: "components x \<noteq> []"
  by (cases x) auto

lemma squeezed_components:
  "hd (components (squeezed x)) = hd (components x) \<and>
   filter (\<lambda>p. p \<noteq> [] \<and> p \<noteq> ''.'') (tl (components (squeezed x))) =
   filter (\<lambda>p. p \<noteq> [] \<and> p \<noteq> ''.'') (tl (components x))"
proof (induction x rule: squeezed.induct)
  case (2 c r)
  consider (double) "c = CHR ''/''" "take 1 r = ''/''" | (dot) "c = CHR ''/''" "take 1 r \<noteq> ''/''" "take 2 r = ''./''"
    | (other) "\<not> (c = CHR ''/'' \<and> take 1 r = ''/'')" "\<not> (c = CHR ''/'' \<and> take 2 r = ''./'')" by blast
  then show ?case
  proof cases
    case double
    then obtain r1 where "r = CHR ''/'' # r1" by (cases r) auto
    then show ?thesis using double 2(1) by simp
  next
    case dot
    then obtain r2 where "r = CHR ''.'' # CHR ''/'' # r2" by (cases r; cases "tl r") auto
    then show ?thesis using dot 2(2) by simp
  next
    case other
    have sq: "squeezed (c # r) = c # squeezed r" using other by auto
    have split: "filter P (components z) = filter P [hd (components z)] @ filter P (tl (components z))" for P z
      by (metis components_ne filter_append append_Cons append_Nil list.collapse)
    show ?thesis unfolding sq
      using 2(3) [OF other] split [of "\<lambda>p. p \<noteq> [] \<and> p \<noteq> ''.''" "squeezed r"]
        split [of "\<lambda>p. p \<noteq> [] \<and> p \<noteq> ''.''" r] by simp
  qed
qed simp

lemma squeezed_items: "path_items (squeezed x) = path_items x"
proof -
  have "components z = hd (components z) # tl (components z)" for z by (simp add: hd_Cons_tl)
  then show ?thesis using squeezed_components [of x] unfolding path_items_def
    by (metis (no_types, lifting) filter.simps(2))
qed

text \<open>The first loop on the items: all but the first and the last are removed if they are empty or a dot.\<close>

definition kept_items :: "string list \<Rightarrow> string list" where
  "kept_items ps =
     (if tl ps = [] then ps else hd ps # filter (\<lambda>p. p \<noteq> [] \<and> p \<noteq> ''.'') (butlast (tl ps)) @ [last ps])"

lemma components_hd:
  "hd (components r) = [] \<Longrightarrow> tl (components r) \<noteq> [] \<Longrightarrow> take 1 r = ''/''"
  "hd (components r) = ''.'' \<Longrightarrow> tl (components r) \<noteq> [] \<Longrightarrow> take 2 r = ''./''"
  by (cases r; cases "tl r"; auto split: if_splits)+

lemma kept_items_front: "kept_items ([] # p # ps) = [] # kept_items (p # ps)" if "ps = [] \<or> p \<noteq> [] \<and> p \<noteq> ''.''"
  using that by (cases ps) (auto simp: kept_items_def)

lemma kept_items_drop: "p = [] \<or> p = ''.'' \<Longrightarrow> ps \<noteq> [] \<Longrightarrow> kept_items ([] # p # ps) = kept_items ([] # ps)"
  by (cases ps) (auto simp: kept_items_def)

lemma squeezed_kept_items: "components (squeezed x) = kept_items (components x)"
proof (induction x rule: squeezed.induct)
  case (2 c r)
  consider (double) "c = CHR ''/''" "take 1 r = ''/''" | (dot) "c = CHR ''/''" "take 1 r \<noteq> ''/''" "take 2 r = ''./''"
    | (other) "\<not> (c = CHR ''/'' \<and> take 1 r = ''/'')" "\<not> (c = CHR ''/'' \<and> take 2 r = ''./'')" by blast
  then show ?case
  proof cases
    case double
    then obtain r1 where "r = CHR ''/'' # r1" by (cases r) auto
    then show ?thesis using double 2(1) by (simp add: kept_items_drop)
  next
    case dot
    then obtain r2 where "r = CHR ''.'' # CHR ''/'' # r2" by (cases r; cases "tl r") auto
    then show ?thesis using dot 2(2) by (simp add: kept_items_drop)
  next
    case other
    have sq: "squeezed (c # r) = c # squeezed r" using other by auto
    obtain p ps where comps: "components r = p # ps" by (cases "components r") auto
    show ?thesis
    proof (cases "c = CHR ''/''")
      case True
      then have "ps = [] \<or> p \<noteq> [] \<and> p \<noteq> ''.''" using other components_hd [of r] comps by auto
      then show ?thesis unfolding sq using 2(3) [OF other] True comps kept_items_front by simp
    next
      case False
      then show ?thesis unfolding sq using 2(3) [OF other] comps by (simp add: kept_items_def)
    qed
  qed
qed (simp add: kept_items_def)

text \<open>What the rest of the function does on a string without \<^verbatim>\<open>..\<close>.\<close>

lemma c_str_append: "NUL \<notin> set y \<Longrightarrow> c_str (y @ NUL # vs) = y"
  by (simp add: c_str_def takeWhile_append)

lemma has_path_slash: "UTILS_IO_HasPath y \<longleftrightarrow> CHR ''/'' \<in> set (c_str y)"
  if "NUL \<notin> set y"
  using that by (induction y) (auto simp: UTILS_IO_HasPath_def strcspn_def c_str_def)

lemma cut_items_free:
  assumes free: "dotdot_free y" and nul: "NUL \<notin> set y" and ne: "y \<noteq> []"
  shows "\<exists>vs len. length (y @ NUL # vs) = length (y @ junk @ [NUL]) \<and>
    cut_items (y @ junk @ [NUL]) (int (length y)) = Inr (y @ NUL # vs, len)"
proof -
  obtain ys c where ys: "y = ys @ [c]" using ne by (cases y rule: rev_cases) auto
  have last: "rd (y @ junk @ [NUL]) (int (length y) - 1) = Inr c"
    using rd_append [of ys c "junk @ [NUL]"] ys by simp
  obtain j js where js: "junk @ [NUL] = j # js" by (cases "junk @ [NUL]") auto
  have rest: "\<exists>e. cut_dotdots (y0 @ NUL # vs) (int (length y0)) 0 (int (length y0)) (int (length y0) - 1) =
        Inr (y0 @ NUL # vs, int (length y0), 0, e)"
      "first_item (y0 @ NUL # vs) (int (length y0)) 0 e = Inr (y0 @ NUL # vs, int (length y0))"
    if "y = y0 \<or> y = y0 @ ''/''" for y0 vs e
  proof -
    have "NUL \<notin> set y0" using nul that by auto
    then show "\<exists>e. cut_dotdots (y0 @ NUL # vs) (int (length y0)) 0 (int (length y0)) (int (length y0) - 1) =
        Inr (y0 @ NUL # vs, int (length y0), 0, e)"
      using no_dotdot [OF free that] by (intro cut_dotdots_free) auto
    have "\<exists>p0. rd (y0 @ NUL # vs) 0 = Inr p0" by (simp add: rd_def)
    then show "first_item (y0 @ NUL # vs) (int (length y0)) 0 e = Inr (y0 @ NUL # vs, int (length y0))"
      by (auto simp: first_item_def)
  qed
  show ?thesis
  proof (cases "c = CHR ''/''")
    case True
    have eq: "y = ys \<or> y = ys @ ''/''" using ys True by simp
    obtain e where "cut_dotdots (ys @ NUL # junk @ [NUL]) (int (length ys)) 0 (int (length ys)) (int (length ys) - 1) =
        Inr (ys @ NUL # junk @ [NUL], int (length ys), 0, e)" using rest(1) [OF eq, of "junk @ [NUL]"] by blast
    moreover have "wr (ys @ CHR ''/'' # junk @ [NUL]) (int (length ys) + 1) NUL = Inr (y @ NUL # js)"
      using wr_append [of y j js NUL] ys js True by (simp add: add.commute)
    ultimately show ?thesis
      using last ys True js rest(2) [OF eq, of "junk @ [NUL]" e] arg_cong [OF js, of length]
      by (intro exI [of _ js] exI [of _ "int (length ys)"]) (simp add: cut_items_def Let_def)
  next
    case False
    obtain e where "cut_dotdots (y @ NUL # js) (int (length y)) 0 (int (length y)) (int (length y) - 1) =
        Inr (y @ NUL # js, int (length y), 0, e)" using rest(1) [of y js] by blast
    moreover have "wr (y @ junk @ [NUL]) (int (length y)) NUL = Inr (y @ NUL # js)"
      using js by simp
    ultimately show ?thesis
      using last False ne rest(2) [of y js e] arg_cong [OF js, of length]
      by (intro exI [of _ js] exI [of _ "int (length y)"]) (simp add: cut_items_def Let_def)
  qed
qed

text \<open>
  C22: on a path without \<^verbatim>\<open>..\<close> items behind the first item the simplification is exact. It completes
  without leaving the block of the string, and the items of the result are those of the path without the empty items and the dots
  that are neither the first nor the last item: a starting slash, a leading dot, a trailing dot and a trailing slash stay.
\<close>

theorem simplify_path_without_dotdot:
  assumes "NUL \<notin> set x" and "dotdot_free (squeezed x)"
  shows "\<exists>b. UTILS_IO_SimplifyPath (x @ [NUL]) = Inr b \<and> length b = length x + 1 \<and>
    c_str b = squeezed x \<and> components (c_str b) = kept_items (components x) \<and> path_items (c_str b) = path_items x"
proof (cases "x = []")
  case True
  have "UTILS_IO_SimplifyPath [NUL] = Inr [NUL]" by code_simp
  then show ?thesis using True by (simp add: c_str_def kept_items_def)
next
  case False
  let ?y = "squeezed x" and ?hs = "CHR ''/'' \<in> set x"
  obtain junk where squeeze: "squeeze (x @ [NUL]) 0 0 False =
      Inr (?y @ junk @ [NUL], int (length ?y + length junk), int (length junk), ?hs)"
    and total: "length ?y + length junk = length x"
    using squeeze_run [OF assms(1), of "[]" "[]" False] by auto
  have nul: "NUL \<notin> set ?y" using assms(1) squeezed_set [of x] by blast
  have ne: "?y \<noteq> []" using False by simp
  from cut_items_free [OF assms(2) nul ne, of junk]
  obtain vs len where len: "length (?y @ NUL # vs) = length (?y @ junk @ [NUL])"
    and run: "cut_items (?y @ junk @ [NUL]) (int (length ?y)) = Inr (?y @ NUL # vs, len)" by blast
  have first: "rd (?y @ NUL # vs) 0 = Inr (hd ?y)" "\<exists>p0. rd (x @ [NUL]) 0 = Inr p0"
    using ne by (auto simp: rd_def nth_append hd_conv_nth)
  have "hd ?y \<noteq> NUL" using nul hd_in_set [OF ne] by metis
  have "?hs \<longrightarrow> UTILS_IO_HasPath ?y"
    using has_path_slash [OF nul] squeezed_slash [of x] nul by simp
  then have "UTILS_IO_SimplifyPath (x @ [NUL]) = Inr (?y @ NUL # vs)"
    using squeeze run first \<open>hd ?y \<noteq> NUL\<close> c_str_append [OF nul] by (auto simp: UTILS_IO_SimplifyPath_def Let_def)
  moreover have "length (?y @ NUL # vs) = length x + 1" unfolding len using total by simp
  ultimately show ?thesis using c_str_append [OF nul] squeezed_items squeezed_kept_items by simp
qed

lemma simplify_path_without_dotdot_witness:
  "\<exists>b. UTILS_IO_SimplifyPath (''./a//b/./c/.'' @ [NUL]) = Inr b \<and> length b = 13 \<and>
    components (c_str b) = [''.'', ''a'', ''b'', ''c'', ''.'']"
proof -
  have x: "squeezed ''./a//b/./c/.'' = ''./a/b/c/.''"
    "kept_items (components ''./a//b/./c/.'') = [''.'', ''a'', ''b'', ''c'', ''.'']" by code_simp+
  have "dotdot_free ''./a/b/c/.''"
    by (auto simp: dotdot_free_def Cons_eq_append_conv)
  then show ?thesis using simplify_path_without_dotdot [of "''./a//b/./c/.''"] unfolding x by (auto simp: eval_nat_numeral)
qed

subsection \<open>A path that leads back to its start\<close>

lemma rd_at: "i < length b \<Longrightarrow> rd b (int i) = Inr (b ! i)"
  by (simp add: rd_def)

lemma cut_no_slash:
  assumes "n < length b" and "\<And>p. p < n \<Longrightarrow> b ! p \<noteq> CHR ''/''"
  shows "cut_dotdots b len level cut_end (int n - 1) = Inr (b, len, level, cut_end)"
  using assms
proof (induction n)
  case 0
  then show ?case by (subst cut_dotdots.simps) simp
next
  case (Suc n)
  have at: "rd b (int n) = Inr (b ! n)" "rd b (int n + 1) = Inr (b ! Suc n)"
    using Suc.prems(1) rd_at [of n b] rd_at [of "Suc n" b] by (simp_all add: add.commute)
  have "is_dotdot b (int n) = Inr False"
  proof (cases "3 \<le> n")
    case True
    then have "rd b (int n - 1) = Inr (b ! (n - 1))" "rd b (int n - 2) = Inr (b ! (n - 2))"
      using Suc.prems(1) rd_at [of "n - 1" b] rd_at [of "n - 2" b] by (simp_all add: of_nat_diff)
    moreover have "b ! (n - 2) \<noteq> CHR ''/''" using Suc.prems(2) [of "n - 2"] by simp
    ultimately show ?thesis using at by (simp add: is_dotdot_def)
  qed (simp add: is_dotdot_def)
  moreover have "b ! n \<noteq> CHR ''/''" using Suc.prems(2) [of n] by simp
  ultimately have "cut_dotdots b len level cut_end (int n) = cut_dotdots b len level cut_end (int n - 1)"
    using at by (subst cut_dotdots.simps) simp
  then show ?case using Suc.IH Suc.prems by simp
qed

lemma squeezed_no_slash: "CHR ''/'' \<notin> set w \<Longrightarrow> squeezed (w @ ''/../'') = w @ ''/../''"
  by (induction w) auto

lemma first_item_back:
  assumes "w \<noteq> []" and "CHR ''/'' \<notin> set w" and "w \<noteq> ''.''" and "w \<noteq> ''..''"
  shows "first_item (w @ ''/..'' @ [NUL, NUL]) (int (length w) + 3) 1 (int (length w) + 3) =
    Inr ((w @ ''/..'' @ [NUL, NUL])[0 := NUL], - 1)"
proof -
  let ?b = "w @ ''/..'' @ [NUL, NUL]"
  have at: "rd ?b 0 = Inr (?b ! 0)" "rd ?b 1 = Inr (?b ! 1)" "rd ?b 2 = Inr (?b ! 2)"
    using rd_at [of 0 ?b] rd_at [of 1 ?b] rd_at [of 2 ?b] by simp_all
  have first: "?b ! 0 \<noteq> CHR ''/''" using assms(1,2) by (cases w) auto
  have up: "\<not> (?b ! 0 = CHR ''.'' \<and> ?b ! 1 = CHR ''.'' \<and> ?b ! 2 = CHR ''/'')"
  proof (cases w)
    case (Cons c r)
    then show ?thesis using assms by (cases r; cases "tl r") (auto simp: numeral_2_eq_2)
  qed (use assms in simp)
  have down: "?b ! 0 \<noteq> CHR ''.'' \<or> ?b ! 1 \<noteq> CHR ''/''"
  proof (cases w)
    case (Cons c r)
    then show ?thesis using assms by (cases r) auto
  qed (use assms in simp)
  have "wr ?b 0 NUL = Inr (?b[0 := NUL])" by (simp add: wr_def)
  then show ?thesis using at first up down
    by (auto simp: first_item_def Let_def put_dotdots.simps [of _ 0 0] move_def)
qed

text \<open>
  A path that leads back to where it starts and ends in a slash is written to in front of
  its first byte: nothing is left of the path, its length has become \<open>-1\<close>, and the trailing slash is
  put back at that position.
\<close>

theorem simplify_path_writes_in_front:
  assumes "w \<noteq> []" and "NUL \<notin> set w" and "CHR ''/'' \<notin> set w" and "w \<noteq> ''.''" and "w \<noteq> ''..''"
  shows "UTILS_IO_SimplifyPath (w @ ''/../'' @ [NUL]) = Inl Bad_Access"
proof -
  let ?x = "w @ ''/../''" and ?b = "w @ ''/..'' @ [NUL, NUL]" and ?n = "int (length w)"
  have "NUL \<notin> set ?x" using assms(2) by simp
  then obtain junk where sq: "squeeze (?x @ [NUL]) 0 0 False = Inr (?x @ junk @ [NUL], int (length ?x + length junk), int (length junk), True)"
    "length ?x + length junk = length ?x"
    using squeeze_run [of ?x "[]" "[]" False] squeezed_no_slash [OF assms(3)] by auto
  have squeeze: "squeeze (w @ ''/../'' @ [NUL]) 0 0 False = Inr (?x @ [NUL], ?n + 4, 0, True)" using sq by simp
  have last: "rd (?x @ [NUL]) (?n + 3) = Inr (CHR ''/'')" "wr (?x @ [NUL]) (?n + 3) NUL = Inr ?b"
    using rd_append [of "w @ ''/..''" "CHR ''/''" "[NUL]"] wr_append [of "w @ ''/..''" "CHR ''/''" "[NUL]" NUL]
    by (simp_all add: add.commute)
  have "is_dotdot ?b (?n + 2) = Inr True"
    using rd_append [of "w @ ''/..''" NUL "[NUL]"] rd_append [of "w @ ''/.''" "CHR ''.''" "[NUL, NUL]"]
      rd_append [of "w @ ''/''" "CHR ''.''" "''.'' @ [NUL, NUL]"] rd_append [of w "CHR ''/''" "''..'' @ [NUL, NUL]"] assms(1)
    by (cases w) (simp_all add: is_dotdot_def add.commute)
  then have "cut_dotdots ?b (?n + 3) 0 (?n + 3) (?n + 2) = cut_dotdots ?b (?n + 3) 1 (?n + 3) (?n - 1)"
    by (subst cut_dotdots.simps) (simp add: add.commute)
  also have "\<dots> = Inr (?b, ?n + 3, 1, ?n + 3)"
    using assms(3) by (intro cut_no_slash) (auto simp: nth_append in_set_conv_nth)
  finally have cut: "cut_dotdots ?b (?n + 3) 0 (?n + 3) (?n + 2) = Inr (?b, ?n + 3, 1, ?n + 3)" .
  have "?n + 4 - 1 = ?n + 3" "?n + 3 - 1 = ?n + 2" "0 < ?n + 4" by simp_all
  moreover have "wr b (- 1) c = Inl Bad_Access" for b c by (simp add: wr_def)
  ultimately have "cut_items (?x @ [NUL]) (?n + 4) = Inl Bad_Access"
    using last cut first_item_back [OF assms(1,3-5)] unfolding cut_items_def
    by (simp only: if_True Let_def and_then_simps prod.case simp_thms)
  moreover have "\<exists>p0. rd (?x @ [NUL]) 0 = Inr p0" by (simp add: rd_def)
  ultimately show ?thesis using squeeze by (auto simp: UTILS_IO_SimplifyPath_def)
qed

lemma simplify_path_writes_in_front_witness:
  "UTILS_IO_SimplifyPath (''build'' @ ''/../'' @ [NUL]) = Inl Bad_Access"
  by (rule simplify_path_writes_in_front) simp_all

text \<open>
  A relative path that leads above its start can come out wrong: \<^verbatim>\<open>a/../..\<close> is one level up, the
  simplified path is two levels up, because the leading \<^verbatim>\<open>../\<close> overwrites what is moved behind it.
\<close>

theorem simplify_path_changes_directory:
  "simplified ''a/../..'' = Inr ''.././..'' \<and> resolved ''a/../..'' = (1, []) \<and> resolved ''.././..'' = (2, [])"
  by code_simp

end
