(* ===== verification/MovableMemory.thy ===== *)
theory MovableMemory
  imports Prelude
begin

section \<open>Movable memory for definitions\<close>

text \<open>
  The interface between the definition manager and the memory management
  (\<^verbatim>\<open>src/measurement/SCOREP_Memory.c\<close>): memory for a definition is asked for by its size and
  answered by a handle, the offset of the memory in the allocator's block, and the last request can
  be taken back. The locale \<open>movable_memory_laws\<close> is the contract: a handle is none of the handles in
  use, and taking it back leaves the others alone. The page allocator
  provides it (theory AllocatorMemory), and the definition manager (theory Definitions) relies on it.
\<close>

record 'm movable_memory =
  m_alloc :: "'m \<Rightarrow> nat \<Rightarrow> (nat \<times> 'm) outcome"
  m_rollback :: "'m \<Rightarrow> nat \<Rightarrow> 'm outcome"

definition SCOREP_MOVABLE_NULL :: nat where
  "SCOREP_MOVABLE_NULL = 0"

text \<open>
  Memory for definitions, without a location: running out of memory ends the program
  (\<^verbatim>\<open>SCOREP_Memory_HandleOutOfMemory\<close>).
\<close>

definition SCOREP_Memory_AllocForDefinitions ::
  "'m movable_memory \<Rightarrow> 'm \<Rightarrow> nat \<Rightarrow> (nat \<times> 'm) outcome" where
  "SCOREP_Memory_AllocForDefinitions mem m n =
     (if n = 0 then Inr (SCOREP_MOVABLE_NULL, m)
      else and_then (m_alloc mem m n) (\<lambda>(h, m').
           if h = SCOREP_MOVABLE_NULL then Inl Out_Of_Memory else Inr (h, m')))"

subsection \<open>The contract\<close>

locale movable_memory_laws =
  fixes mem :: "'m movable_memory"
    and holds :: "'m \<Rightarrow> nat set \<Rightarrow> bool"
  assumes alloc_law: "holds m L \<Longrightarrow> 0 < n \<Longrightarrow> \<exists>h m'. m_alloc mem m n = Inr (h, m') \<and>
    (h \<noteq> SCOREP_MOVABLE_NULL \<longrightarrow> h \<notin> L \<and> holds m' (insert h L) \<and>
       (\<exists>m''. m_rollback mem m' h = Inr m'' \<and> holds m'' L))"
begin

lemma alloc_for_definitions:
  assumes "holds m L" and "0 < n"
  shows "SCOREP_Memory_AllocForDefinitions mem m n = Inl Out_Of_Memory \<or>
    (\<exists>h m'. SCOREP_Memory_AllocForDefinitions mem m n = Inr (h, m') \<and> h \<noteq> SCOREP_MOVABLE_NULL \<and> h \<notin> L \<and>
       holds m' (insert h L) \<and> (\<exists>m''. m_rollback mem m' h = Inr m'' \<and> holds m'' L))"
proof -
  obtain h m' where run: "m_alloc mem m n = Inr (h, m')"
    and law: "h \<noteq> SCOREP_MOVABLE_NULL \<longrightarrow> h \<notin> L \<and> holds m' (insert h L) \<and>
       (\<exists>m''. m_rollback mem m' h = Inr m'' \<and> holds m'' L)"
    using alloc_law [OF assms] by blast
  show ?thesis
  proof (cases "h = SCOREP_MOVABLE_NULL")
    case True
    then show ?thesis using run assms(2) by (simp add: SCOREP_Memory_AllocForDefinitions_def)
  next
    case False
    then have "SCOREP_Memory_AllocForDefinitions mem m n = Inr (h, m')"
      using run assms(2) by (simp add: SCOREP_Memory_AllocForDefinitions_def)
    then show ?thesis using law False by blast
  qed
qed

end

end
