(* ===== verification/AllocatorMemory.thy ===== *)
theory AllocatorMemory
  imports Allocator MovableMemory
begin

section \<open>The page allocator as the memory for definitions\<close>

text \<open>
  \<^verbatim>\<open>SCOREP_Allocator_AllocMovable\<close> and \<^verbatim>\<open>SCOREP_Allocator_RollbackAllocMovable\<close> on the
  page manager of the definitions (\<^verbatim>\<open>src/utils/memory/SCOREP_Allocator.c\<close>), shown to keep the
  contract of theory MovableMemory.
\<close>

text \<open>The definitions page manager on the page allocator.\<close>

definition scorep_memory :: "(page_manager \<times> allocator) movable_memory" where
  "scorep_memory =
     \<lparr>m_alloc = (\<lambda>(m, a) n. and_then (SCOREP_Allocator_AllocMovable a m n) (\<lambda>(h, m', a'). Inr (h, (m', a')))),
      m_rollback = (\<lambda>(m, a) h. and_then (SCOREP_Allocator_RollbackAllocMovable a m h) (\<lambda>m'. Inr (m', a)))\<rparr>"

subsection \<open>The page allocator keeps the contract\<close>

text \<open>
  Handles in use are offsets of memory that the manager has handed out; page 0 belongs to the
  allocator itself, so that no handle is null.
\<close>

definition handles_held :: "page_manager \<times> allocator \<Rightarrow> nat set \<Rightarrow> bool" where
  "handles_held = (\<lambda>(m, a) L. \<exists>others maint. alloc_inv a (pages_in_use_list m @ others) maint \<and> 0 \<in> maint \<and>
     n_pages_capacity a \<noteq> 0 \<and> moved_page_id_mapping_page m = None \<and> (\<forall>h\<in>L. base a + h \<in> handed_out (pages_in_use_list m)))"

text \<open>The page that holds the block is the one the rollback finds.\<close>

lemma rollback_in_pages_split:
  assumes "\<And>q. q \<in> set us \<Longrightarrow> \<not> (memory_start_address q \<le> x \<and> x < memory_current_address q)"
    and "memory_start_address p \<le> x" and "x < memory_current_address p"
  shows "rollback_in_pages (us @ p # vs) x = Some (us @ p\<lparr>memory_current_address := x\<rparr> # vs)"
  using assms by (induction us) auto

lemma page_in_block:
  assumes "alloc_inv a (us @ p # vs) maint" and "0 \<in> maint"
  shows "base a + 2 ^ page_shift a \<le> memory_start_address p"
    "memory_end_address p \<le> base a + n_pages_capacity a * 2 ^ page_shift a"
    "\<And>q x. q \<in> set us \<Longrightarrow> memory_start_address p \<le> x \<Longrightarrow> x < memory_end_address p \<Longrightarrow>
       \<not> (memory_start_address q \<le> x \<and> x < memory_current_address q)"
proof -
  have wf: "page_wf a p" using alloc_invD(2) [OF assms(1)] by simp
  have "page_first a p \<in> live_ids a (us @ p # vs)"
    using wf by (simp add: live_ids_def page_ids_def page_wf_def)
  then have "page_first a p \<noteq> 0" using alloc_invD(4) [OF assms(1)] assms(2) by auto
  then have "2 ^ page_shift a \<le> page_first a p * 2 ^ page_shift a" by simp
  then show "base a + 2 ^ page_shift a \<le> memory_start_address p"
    using wf unfolding page_wf_def by linarith
  have "(page_first a p + page_count a p) * 2 ^ page_shift a \<le> n_pages_capacity a * 2 ^ page_shift a"
    using wf by (intro mult_le_mono1) (simp add: page_wf_def)
  moreover have "memory_end_address p = base a + (page_first a p + page_count a p) * 2 ^ page_shift a"
    using wf by (simp add: page_wf_def algebra_simps)
  ultimately show "memory_end_address p \<le> base a + n_pages_capacity a * 2 ^ page_shift a" by linarith
  fix q x
  assume q: "q \<in> set us" "memory_start_address p \<le> x" "x < memory_end_address p"
  have wf_q: "page_wf a q" using alloc_invD(2) [OF assms(1)] q(1) by simp
  have "page_ids a q \<inter> page_ids a p = {}"
    using alloc_invD(3) [OF assms(1)] q(1) by (auto simp: sorted_wrt_append)
  from page_regions_disjoint [OF wf_q wf this] show "\<not> (memory_start_address q \<le> x \<and> x < memory_current_address q)"
    using q wf_q by (auto simp: page_wf_def)
qed

lemma handles_heldI:
  assumes "alloc_inv a (pages_in_use_list m @ others) maint" "0 \<in> maint" "n_pages_capacity a \<noteq> 0"
    "moved_page_id_mapping_page m = None"
    "\<And>h. h \<in> L \<Longrightarrow> base a + h \<in> handed_out (pages_in_use_list m)"
  shows "handles_held (m, a) L"
  using assms unfolding handles_held_def by blast

text \<open>The block of a page, as a handle: no wrap-around, never null, and the rollback finds it.\<close>

lemma block_handle:
  assumes inv: "alloc_inv a (us @ p # vs @ others) maint" and maint: "0 \<in> maint"
    and cap: "n_pages_capacity a \<noteq> 0"
    and grab: "grab_page_memory p n (2 ^ k) = Some (mem, p')" and n: "0 < n"
  shows "base a + wrap32 (mem - base a) = mem" "page_size a \<le> wrap32 (mem - base a)"
    "wrap32 (mem - base a) < total_memory a"
    "rollback_in_pages (us @ p' # vs) mem = Some (us @ p'\<lparr>memory_current_address := mem\<rparr> # vs)"
proof -
  have wf: "page_wf a p" using alloc_invD(2) [OF inv] by simp
  note g = grab_page_memory_wf [OF wf grab]
  note geo = alloc_invD(1) [OF inv]
  note block = page_in_block [OF inv maint]
  have start: "memory_start_address p \<le> mem" using wf g(4) by (simp add: page_wf_def)
  have stop: "mem < memory_end_address p" using g(8) n by simp
  have low: "base a + 2 ^ page_shift a \<le> mem" using block(1) start by linarith
  have up: "mem - base a < n_pages_capacity a * 2 ^ page_shift a" using block(2) stop low by linarith
  have cap32: "n_pages_capacity a * 2 ^ page_shift a < 2 ^ 32" using geo by (simp add: geometry_ok_def)
  then have total: "total_memory a = n_pages_capacity a * 2 ^ page_shift a"
    by (simp add: total_memory_def wrap32_def)
  have off: "wrap32 (mem - base a) = mem - base a" using up cap32 by (simp add: wrap32_def)
  show "base a + wrap32 (mem - base a) = mem" unfolding off using low by linarith
  show "page_size a \<le> wrap32 (mem - base a)"
    unfolding off page_size_geometry [OF geo cap] using low by linarith
  show "wrap32 (mem - base a) < total_memory a" unfolding off total by (rule up)
  show "rollback_in_pages (us @ p' # vs) mem = Some (us @ p'\<lparr>memory_current_address := mem\<rparr> # vs)"
  proof (rule rollback_in_pages_split)
    show "\<not> (memory_start_address q \<le> mem \<and> mem < memory_current_address q)" if "q \<in> set us" for q
      by (rule block(3) [OF that start stop])
    show "memory_start_address p' \<le> mem" using start g(6) by simp
    show "mem < memory_current_address p'" using g(5) n by simp
  qed
qed

lemma alloc_movable_held:
  assumes held: "handles_held (m, a) L" and n: "0 < n"
  shows "\<exists>h m' a'. SCOREP_Allocator_AllocMovable a m n = Inr (h, m', a') \<and>
    (h \<noteq> 0 \<longrightarrow> h \<notin> L \<and> handles_held (m', a') (insert h L) \<and>
       (\<exists>m''. SCOREP_Allocator_RollbackAllocMovable a' m' h = Inr m'' \<and> handles_held (m'', a') L))"
proof -
  obtain others maint where inv: "alloc_inv a (pages_in_use_list m @ others) maint" "0 \<in> maint"
    "n_pages_capacity a \<noteq> 0" "moved_page_id_mapping_page m = None"
    "\<And>h. h \<in> L \<Longrightarrow> base a + h \<in> handed_out (pages_in_use_list m)"
    using held unfolding handles_held_def by auto
  have al: "SCOREP_ALLOCATOR_ALIGNMENT = 2 ^ 3" by (simp add: SCOREP_ALLOCATOR_ALIGNMENT_def)
  have "512 \<le> page_size a"
    using page_size_geometry [OF alloc_invD(1) [OF inv(1)] inv(3)] geometry_capacity(3) [OF alloc_invD(1) [OF inv(1)]]
    by simp
  then have "2 ^ 3 \<le> page_size a" by simp
  from page_manager_alloc_step [OF inv(1) inv(4) n this]
  obtain r m' b maint' where run: "page_manager_alloc a m n (2 ^ 3) = Inr (r, m', b)"
    and same: "same_geometry a b" and maint': "maint \<subseteq> maint'" and moved: "moved_page_id_mapping_page m' = None"
    and inv': "alloc_inv b (pages_in_use_list m' @ others) maint'"
    and block: "case r of
       None \<Rightarrow> pages_in_use_list m' = pages_in_use_list m
     | Some mem \<Rightarrow> \<exists>us p p' vs. pages_in_use_list m' = us @ p' # vs \<and>
         grab_page_memory p n (2 ^ 3) = Some (mem, p') \<and> alloc_inv b (us @ p # vs @ others) maint' \<and>
         handed_out (us @ p # vs) = handed_out (pages_in_use_list m)" by blast
  note geo = same_geometry_simps [OF same]
  have zero: "0 \<in> maint'" and cap: "n_pages_capacity b \<noteq> 0" using inv(2,3) maint' geo by auto
  show ?thesis
  proof (cases r)
    case None
    then have "SCOREP_Allocator_AllocMovable a m n = Inr (0, m', b)"
      using run unfolding SCOREP_Allocator_AllocMovable_def al by simp
    then show ?thesis by blast
  next
    case (Some mem)
    obtain us p p' vs where split: "pages_in_use_list m' = us @ p' # vs"
      "grab_page_memory p n (2 ^ 3) = Some (mem, p')" "alloc_inv b (us @ p # vs @ others) maint'"
      "handed_out (us @ p # vs) = handed_out (pages_in_use_list m)"
      using block Some by auto
    define h where "h = wrap32 (mem - base b)"
    define m1 where "m1 = m'\<lparr>last_allocation := h\<rparr>"
    define p'' where "p'' = p'\<lparr>memory_current_address := mem\<rparr>"
    define m2 where "m2 = m1\<lparr>pages_in_use_list := us @ p'' # vs, last_allocation := 0\<rparr>"
    note bh = block_handle [OF split(3) zero cap split(2) n, folded h_def p''_def]
    have wf: "page_wf b p" using alloc_invD(2) [OF split(3)] by simp
    note g = grab_page_memory_wf [OF wf split(2)]
    have start: "memory_start_address p \<le> mem" using wf g(4) by (simp add: page_wf_def)
    have mem_fresh: "mem \<notin> handed_out (us @ p # vs)"
    proof -
      have "mem \<in> {mem ..< mem + n}" using n by simp
      then have "mem \<notin> handed_out (us @ p # vs @ others)" using fresh_block [OF split(3,2)] by blast
      then show ?thesis using handed_out_append [of "us @ p # vs" others] by simp
    qed
    have old: "base b + l \<in> handed_out (us @ p # vs)" if "l \<in> L" for l
      using inv(5) [OF that] split(4) geo by simp
    have fresh: "h \<notin> L"
    proof
      assume "h \<in> L"
      from old [OF this] mem_fresh show False unfolding bh(1) by contradiction
    qed
    have p''_fields: "memory_start_address p'' = memory_start_address p" "memory_current_address p'' = mem"
      "memory_end_address p'' = memory_end_address p"
      using g(6,7) by (simp_all add: p''_def)
    have first: "page_first b p'' = page_first b p" "page_count b p'' = page_count b p"
      using p''_fields by (simp_all add: page_first_def page_count_def)
    have wf'': "page_wf b p''"
      using wf start g(8) unfolding page_wf_def first p''_fields by simp
    have ids'': "page_ids b p'' = page_ids b p" using first by (simp add: page_ids_def)
    have grow: "handed_out (us @ p # vs) \<subseteq> handed_out (us @ q # vs)"
      if "memory_start_address q = memory_start_address p" "memory_current_address p \<le> memory_current_address q" for q
      using that by (auto simp: handed_out_def)
    have run': "SCOREP_Allocator_AllocMovable a m n = Inr (h, m1, b)"
      using run Some unfolding SCOREP_Allocator_AllocMovable_def al by (simp add: h_def m1_def Let_def)
    have held1: "handles_held (m1, b) (insert h L)"
    proof (rule handles_heldI [OF _ zero cap])
      show "alloc_inv b (pages_in_use_list m1 @ others) maint'" using inv' by (simp add: m1_def)
      show "moved_page_id_mapping_page m1 = None" using moved by (simp add: m1_def)
      fix l assume "l \<in> insert h L"
      moreover have "base b + h \<in> handed_out (us @ p' # vs)"
        using bh(1) start g(5,6) n by (auto simp: handed_out_def)
      moreover have "handed_out (us @ p # vs) \<subseteq> handed_out (us @ p' # vs)"
        using grow g(4-6) by simp
      ultimately show "base b + l \<in> handed_out (pages_in_use_list m1)"
        using old split(1) by (auto simp: m1_def)
    qed
    have "SCOREP_Allocator_RollbackAllocMovable b m1 h = Inr m2"
      using bh moved split(1)
      by (simp add: SCOREP_Allocator_RollbackAllocMovable_def SCOREP_Allocator_GetAddressFromMovableMemory_def
          m1_def m2_def)
    moreover have "handles_held (m2, b) L"
    proof (rule handles_heldI [OF _ zero cap])
      show "alloc_inv b (pages_in_use_list m2 @ others) maint'"
        using alloc_inv_replace [OF split(3) wf'' ids''] by (simp add: m2_def)
      show "moved_page_id_mapping_page m2 = None" using moved by (simp add: m1_def m2_def)
      fix l assume "l \<in> L"
      from old [OF this] show "base b + l \<in> handed_out (pages_in_use_list m2)"
        using grow [of p''] p''_fields g(4) by (auto simp: m2_def)
    qed
    ultimately show ?thesis using run' fresh held1
      by (intro exI [of _ h] exI [of _ m1] exI [of _ b]) blast
  qed
qed

interpretation definitions_memory: movable_memory_laws scorep_memory handles_held
proof unfold_locales
  fix m :: "page_manager \<times> allocator" and L :: "nat set" and n :: nat
  assume held: "handles_held m L" and n: "0 < n"
  obtain pm a where m: "m = (pm, a)" by (cases m)
  from alloc_movable_held [OF held [unfolded m] n]
  obtain h m' a' where "SCOREP_Allocator_AllocMovable a pm n = Inr (h, m', a')"
    "h \<noteq> 0 \<longrightarrow> h \<notin> L \<and> handles_held (m', a') (insert h L) \<and>
       (\<exists>m''. SCOREP_Allocator_RollbackAllocMovable a' m' h = Inr m'' \<and> handles_held (m'', a') L)" by blast
  then show "\<exists>h m'. m_alloc scorep_memory m n = Inr (h, m') \<and>
    (h \<noteq> SCOREP_MOVABLE_NULL \<longrightarrow> h \<notin> L \<and> handles_held m' (insert h L) \<and>
       (\<exists>m''. m_rollback scorep_memory m' h = Inr m'' \<and> handles_held m'' L))"
    unfolding m by (intro exI [of _ h] exI [of _ "(m', a')"])
      (auto simp: scorep_memory_def SCOREP_MOVABLE_NULL_def)
qed

end
