(* ===== verification/DefinitionManager.thy ===== *)
theory DefinitionManager
  imports MovableMemory
begin

section \<open>The definition manager\<close>

text \<open>
  \<^verbatim>\<open>src/measurement/definitions/SCOREP_Definitions.c\<close>, the header of the same name and
  \<^verbatim>\<open>scorep_definitions_private.h\<close>: a process keeps its definitions (strings, regions, groups, ...) in
  movable memory, one list and one optional hash table per kind of definition. Handles are offsets;
  a definition that is equal to an existing one gives its memory back and answers the old handle.

  The map \<open>cells\<close> is the content of the movable memory. The links \<^verbatim>\<open>next\<close> and \<^verbatim>\<open>hash_next\<close> are
  represented by the lists they form (\<open>chain\<close>, in the order of the definitions, and the buckets, newest
  first). Both managers, the local and the unified one, live in the same memory, as in the program. The
  definitions lock makes every operation one atomic step; \<^verbatim>\<open>calloc\<close> is taken to succeed.
\<close>

datatype def_type =
    Def_String | Def_Source_File | Def_System_Tree_Node | Def_System_Tree_Node_Property
  | Def_Location_Group | Def_Location | Def_Region | Def_Group | Def_Interim_Communicator
  | Def_Communicator | Def_Rma_Window | Def_Cartesian_Coords | Def_Cartesian_Topology | Def_Metric
  | Def_Sampling_Set | Def_Sampling_Set_Recorder | Def_Io_Handle | Def_Io_File | Def_Io_File_Property
  | Def_Marker_Group | Def_Marker | Def_Parameter | Def_Callpath | Def_Property | Def_Attribute
  | Def_Location_Property | Def_Source_Code_Location | Def_Calling_Context | Def_Interrupt_Generator

record 'b def_cell =
  unified :: nat
  hash_value :: u32
  sequence_number :: u32
  body :: 'b

record manager_entry =
  chain :: "nat list"                   \<comment> \<open>head, tail and the links next\<close>
  hash_table :: "nat list list option"  \<comment> \<open>the buckets, linked by hash_next\<close>
  hash_table_mask :: u32
  counter :: u32
  mapping :: "u32 list option"

type_synonym definition_manager = "def_type \<Rightarrow> manager_entry"

datatype manager_id = Local_Manager | Unified_Manager

record ('m, 'b) definitions =
  memory :: 'm
  cells :: "nat \<rightharpoonup> 'b def_cell"
  local_definition_manager :: definition_manager
  unified_definition_manager :: "definition_manager option"
  new_handles :: "(nat \<times> def_type) list"  \<comment> \<open>what the substrates have been told\<close>
  definitions_initialized :: bool

subsection \<open>Entries and managers\<close>

definition hashsize :: "nat \<Rightarrow> u32" where
  "hashsize n = push_bit n 1"

definition hashmask :: "nat \<Rightarrow> u32" where
  "hashmask n = hashsize n - 1"

definition scorep_definitions_manager_init_entry :: manager_entry where
  "scorep_definitions_manager_init_entry =
     \<lparr>chain = [], hash_table = None, hash_table_mask = 0, counter = 0, mapping = None\<rparr>"

definition scorep_definitions_manager_entry_alloc_hash_table ::
  "manager_entry \<Rightarrow> nat \<Rightarrow> manager_entry outcome" where
  "scorep_definitions_manager_entry_alloc_hash_table e hashTablePower =
     assert_that (\<not> hashTablePower > 15)
       (Inr (e\<lparr>hash_table_mask := hashmask hashTablePower,
              hash_table := Some (replicate (unat (hashsize hashTablePower)) [])\<rparr>))"

definition SCOREP_DEFINITIONS_DEFAULT_HASH_TABLE_POWER :: nat where
  "SCOREP_DEFINITIONS_DEFAULT_HASH_TABLE_POWER = 8"

fun alloc_member_hash_tables :: "definition_manager \<Rightarrow> def_type list \<Rightarrow> definition_manager outcome" where
  "alloc_member_hash_tables m [] = Inr m"
| "alloc_member_hash_tables m (ty # tys) =
     and_then (scorep_definitions_manager_entry_alloc_hash_table (m ty)
                 SCOREP_DEFINITIONS_DEFAULT_HASH_TABLE_POWER)
       (\<lambda>e. alloc_member_hash_tables (m(ty := e)) tys)"

definition always_hashed :: "def_type list" where
  "always_hashed = [Def_String, Def_Source_File, Def_Region, Def_Parameter, Def_Attribute,
     Def_Source_Code_Location]"

definition hashed_on_request :: "def_type list" where
  "hashed_on_request = [Def_System_Tree_Node, Def_System_Tree_Node_Property, Def_Group,
     Def_Cartesian_Topology, Def_Cartesian_Coords, Def_Communicator, Def_Rma_Window, Def_Metric,
     Def_Sampling_Set, Def_Sampling_Set_Recorder, Def_Io_Handle, Def_Io_File, Def_Io_File_Property,
     Def_Marker_Group, Def_Marker, Def_Callpath, Def_Property, Def_Location_Property,
     Def_Calling_Context, Def_Interrupt_Generator]"

definition SCOREP_Definitions_InitializeDefinitionManager :: "bool \<Rightarrow> definition_manager outcome" where
  "SCOREP_Definitions_InitializeDefinitionManager allocHashTables =
     and_then (alloc_member_hash_tables (\<lambda>_. scorep_definitions_manager_init_entry) always_hashed)
       (\<lambda>m. if allocHashTables then alloc_member_hash_tables m hashed_on_request else Inr m)"

text \<open>The mapping starts with all entries invalid.\<close>

definition scorep_definitions_manager_entry_alloc_mapping :: "manager_entry \<Rightarrow> manager_entry" where
  "scorep_definitions_manager_entry_alloc_mapping e =
     e\<lparr>mapping := if counter e > 0 then Some (replicate (unat (counter e)) (- 1)) else None\<rparr>"

definition scorep_definitions_manager_entry_free_mapping :: "manager_entry \<Rightarrow> manager_entry" where
  "scorep_definitions_manager_entry_free_mapping e = e\<lparr>mapping := None\<rparr>"

fun get_manager :: "('m, 'b) definitions \<Rightarrow> manager_id \<Rightarrow> definition_manager outcome" where
  "get_manager s Local_Manager = Inr (local_definition_manager s)"
| "get_manager s Unified_Manager =
     (case unified_definition_manager s of None \<Rightarrow> Inl Abort | Some m \<Rightarrow> Inr m)"

fun set_manager :: "('m, 'b) definitions \<Rightarrow> manager_id \<Rightarrow> definition_manager \<Rightarrow> ('m, 'b) definitions" where
  "set_manager s Local_Manager m = s\<lparr>local_definition_manager := m\<rparr>"
| "set_manager s Unified_Manager m = s\<lparr>unified_definition_manager := Some m\<rparr>"

subsection \<open>Access by handle\<close>

text \<open>The null handle fails the check of the address translation.\<close>

definition SCOREP_HANDLE_DEREF :: "(nat \<rightharpoonup> 'b def_cell) \<Rightarrow> nat \<Rightarrow> 'b def_cell outcome" where
  "SCOREP_HANDLE_DEREF cs h =
     (if h = SCOREP_MOVABLE_NULL then Inl Abort
      else case cs h of None \<Rightarrow> Inl Bad_Access | Some c \<Rightarrow> Inr c)"

definition SCOREP_HANDLE_TO_ID :: "(nat \<rightharpoonup> 'b def_cell) \<Rightarrow> nat \<Rightarrow> u32 outcome" where
  "SCOREP_HANDLE_TO_ID cs h = and_then (SCOREP_HANDLE_DEREF cs h) (\<lambda>c. Inr (sequence_number c))"

definition SCOREP_Definitions_HandleToId :: "(nat \<rightharpoonup> 'b def_cell) \<Rightarrow> nat \<Rightarrow> u32 outcome" where
  "SCOREP_Definitions_HandleToId cs h =
     (if h = SCOREP_MOVABLE_NULL then Inr (- 1) else SCOREP_HANDLE_TO_ID cs h)"

definition SCOREP_HANDLE_GET_UNIFIED :: "(nat \<rightharpoonup> 'b def_cell) \<Rightarrow> nat \<Rightarrow> nat outcome" where
  "SCOREP_HANDLE_GET_UNIFIED cs h = and_then (SCOREP_HANDLE_DEREF cs h) (\<lambda>c. Inr (unified c))"

subsection \<open>Adding a definition\<close>

fun find_in_bucket ::
  "('b \<Rightarrow> 'b \<Rightarrow> bool) \<Rightarrow> (nat \<rightharpoonup> 'b def_cell) \<Rightarrow> 'b def_cell \<Rightarrow> nat list \<Rightarrow> nat option outcome" where
  "find_in_bucket eq cs new [] = Inr None"
| "find_in_bucket eq cs new (h # hs) =
     and_then (SCOREP_HANDLE_DEREF cs h) (\<lambda>existing.
       if hash_value existing = hash_value new \<and> eq (body existing) (body new) then Inr (Some h)
       else find_in_bucket eq cs new hs)"

text \<open>The new definition is put into its bucket, at the end of the list, and numbered.\<close>

definition link_definition ::
  "(nat list list \<times> nat) option \<Rightarrow> manager_entry \<Rightarrow> nat \<Rightarrow> manager_entry" where
  "link_definition bucket e h =
     e\<lparr>hash_table := (case bucket of None \<Rightarrow> hash_table e | Some (bs, i) \<Rightarrow> Some (bs[i := h # bs ! i])),
       chain := chain e @ [h], counter := counter e + 1\<rparr>"

text \<open>
  The macro returns from its caller when the definition exists; the flag of the result tells that.
\<close>

definition SCOREP_DEFINITIONS_MANAGER_ENTRY_ADD_DEFINITION ::
  "'m movable_memory \<Rightarrow> ('b \<Rightarrow> 'b \<Rightarrow> bool) \<Rightarrow> manager_id \<Rightarrow> def_type \<Rightarrow> nat \<Rightarrow> 'b def_cell
   \<Rightarrow> ('m, 'b) definitions \<Rightarrow> (bool \<times> nat \<times> ('m, 'b) definitions) outcome" where
  "SCOREP_DEFINITIONS_MANAGER_ENTRY_ADD_DEFINITION mem eq mid ty new_handle new s =
     and_then (get_manager s mid) (\<lambda>m.
       let link = (\<lambda>bucket.
             Inr (False, new_handle,
               (set_manager s mid (m(ty := link_definition bucket (m ty) new_handle)))
                 \<lparr>cells := (cells s)(new_handle \<mapsto> new\<lparr>sequence_number := counter (m ty)\<rparr>)\<rparr>))
       in case hash_table (m ty) of
            None \<Rightarrow> link None
          | Some bs \<Rightarrow>
              let i = unat (hash_value new AND hash_table_mask (m ty))
              in if i \<ge> length bs then Inl Bad_Access
                 else and_then (find_in_bucket eq (cells s) new (bs ! i)) (\<lambda>r.
                   case r of
                     Some h \<Rightarrow> and_then (m_rollback mem (memory s) new_handle) (\<lambda>mm.
                       Inr (True, h, s\<lparr>memory := mm\<rparr>))
                   | None \<Rightarrow> link (Some (bs, i))))"

text \<open>
  What the functions that define a definition have in common: storage, hash value, search or linking,
  and the notification of the substrates about a new local handle. The fields of the new definition
  are filled in before anything reads them, so that it appears in \<open>cells\<close> when it is linked.
\<close>

definition define_definition ::
  "'m movable_memory \<Rightarrow> ('b \<Rightarrow> 'b \<Rightarrow> bool) \<Rightarrow> def_type \<Rightarrow> nat
   \<Rightarrow> ((nat \<rightharpoonup> 'b def_cell) \<Rightarrow> u32 outcome) \<Rightarrow> bool \<Rightarrow> manager_id \<Rightarrow> 'b
   \<Rightarrow> ('m, 'b) definitions \<Rightarrow> (nat \<times> ('m, 'b) definitions) outcome" where
  "define_definition mem eq ty size_of hash notify mid b s =
     and_then (SCOREP_Memory_AllocForDefinitions mem (memory s) size_of) (\<lambda>(new_handle, mm).
     and_then (hash (cells s)) (\<lambda>v.
     and_then (SCOREP_DEFINITIONS_MANAGER_ENTRY_ADD_DEFINITION mem eq mid ty new_handle
                 \<lparr>unified = SCOREP_MOVABLE_NULL, hash_value = v, sequence_number = - 1, body = b\<rparr>
                 (s\<lparr>memory := mm\<rparr>)) (\<lambda>(found, h, s').
       Inr (h, if \<not> found \<and> notify \<and> mid = Local_Manager
               then s'\<lparr>new_handles := new_handles s' @ [(h, ty)]\<rparr> else s'))))"

subsection \<open>The invariant\<close>

text \<open>
  The definitions of an entry are distinct, numbered in the order of the list, and every one of them
  is in the bucket its hash value selects; with a hash table no two of them are equal.
\<close>

definition table_inv :: "(nat \<rightharpoonup> 'b def_cell) \<Rightarrow> ('b \<Rightarrow> 'b \<Rightarrow> bool) \<Rightarrow> nat list \<Rightarrow> nat list list \<Rightarrow> u32 \<Rightarrow> bool"
where
  "table_inv cs eq hs bs msk \<longleftrightarrow>
     (\<exists>p\<le>15. msk = mask p \<and> length bs = 2 ^ p) \<and>
     (\<forall>b\<in>set bs. set b \<subseteq> set hs) \<and>
     (\<forall>h\<in>set hs. \<forall>c. cs h = Some c \<longrightarrow> h \<in> set (bs ! unat (hash_value c AND msk))) \<and>
     (\<forall>h\<in>set hs. \<forall>h'\<in>set hs. \<forall>c c'. cs h = Some c \<longrightarrow> cs h' = Some c' \<longrightarrow> eq (body c) (body c') \<longrightarrow> h = h')"

definition entry_inv ::
  "(nat \<rightharpoonup> 'b def_cell) \<Rightarrow> ('b \<Rightarrow> def_type) \<Rightarrow> ('b \<Rightarrow> 'b \<Rightarrow> bool) \<Rightarrow> def_type \<Rightarrow> manager_entry \<Rightarrow> bool" where
  "entry_inv cs kind_of eq ty e \<longleftrightarrow>
     distinct (chain e) \<and> counter e = of_nat (length (chain e)) \<and>
     (\<forall>i<length (chain e). \<exists>c. cs (chain e ! i) = Some c \<and> kind_of (body c) = ty \<and>
        sequence_number c = of_nat i) \<and>
     (case hash_table e of None \<Rightarrow> True | Some bs \<Rightarrow> table_inv cs eq (chain e) bs (hash_table_mask e))"

definition definitions_inv ::
  "('m \<Rightarrow> nat set \<Rightarrow> bool) \<Rightarrow> ('b \<Rightarrow> def_type) \<Rightarrow> (def_type \<Rightarrow> 'b \<Rightarrow> 'b \<Rightarrow> bool)
   \<Rightarrow> ((nat \<rightharpoonup> 'b def_cell) \<Rightarrow> 'b \<Rightarrow> u32 outcome) \<Rightarrow> ('b \<Rightarrow> bool) \<Rightarrow> ('m, 'b) definitions \<Rightarrow> bool" where
  "definitions_inv holds kind_of eq hash_of body_ok s \<longleftrightarrow>
     holds (memory s) (dom (cells s)) \<and> SCOREP_MOVABLE_NULL \<notin> dom (cells s) \<and>
     (\<forall>h c. cells s h = Some c \<longrightarrow> hash_of (cells s) (body c) = Inr (hash_value c) \<and> body_ok (body c)) \<and>
     (\<forall>mid m ty. get_manager s mid = Inr m \<longrightarrow> entry_inv (cells s) kind_of (eq ty) ty (m ty))"

text \<open>
  A later content of the memory: the definitions are still there, with their hash value and their
  key; what is not part of the key may have changed.
\<close>

definition cells_extend ::
  "('b \<Rightarrow> def_type) \<Rightarrow> (def_type \<Rightarrow> 'b \<Rightarrow> 'b \<Rightarrow> bool) \<Rightarrow> (nat \<rightharpoonup> 'b def_cell) \<Rightarrow> (nat \<rightharpoonup> 'b def_cell) \<Rightarrow> bool"
where
  "cells_extend kind_of eq cs cs' \<longleftrightarrow>
     (\<forall>h c. cs h = Some c \<longrightarrow> (\<exists>c'. cs' h = Some c' \<and> hash_value c' = hash_value c \<and>
        sequence_number c' = sequence_number c \<and> eq (kind_of (body c)) (body c) (body c')))"


lemma entry_invD:
  assumes "entry_inv cs kind_of eq ty e"
  shows "distinct (chain e)" "counter e = of_nat (length (chain e))"
    "i < length (chain e) \<Longrightarrow> \<exists>c. cs (chain e ! i) = Some c \<and> kind_of (body c) = ty \<and> sequence_number c = of_nat i"
    "hash_table e = Some bs \<Longrightarrow> table_inv cs eq (chain e) bs (hash_table_mask e)"
  using assms unfolding entry_inv_def by simp_all

lemma entry_inv_cell:
  assumes "entry_inv cs kind_of eq ty e" and "h \<in> set (chain e)"
  obtains c where "cs h = Some c" "kind_of (body c) = ty"
  using assms entry_invD(3) [OF assms(1)] by (auto simp: in_set_conv_nth)

lemma table_invD:
  assumes "table_inv cs eq hs bs msk"
  shows "\<exists>p\<le>15. msk = mask p \<and> length bs = 2 ^ p" "b \<in> set bs \<Longrightarrow> set b \<subseteq> set hs"
    "h \<in> set hs \<Longrightarrow> cs h = Some c \<Longrightarrow> h \<in> set (bs ! unat (hash_value c AND msk))"
    "h \<in> set hs \<Longrightarrow> h' \<in> set hs \<Longrightarrow> cs h = Some c \<Longrightarrow> cs h' = Some c' \<Longrightarrow> eq (body c) (body c') \<Longrightarrow> h = h'"
  using assms unfolding table_inv_def by simp_all

lemma bucket_index: "unat (x AND mask p :: u32) < 2 ^ p"
  by (simp add: take_bit_eq_mask [symmetric] unsigned_take_bit_eq)

lemma table_index:
  assumes "table_inv cs eq hs bs msk"
  shows "unat (x AND msk) < length bs"
  using table_invD(1) [OF assms] bucket_index by auto

lemma hashmask_mask: "hashmask p = mask p"
  by (simp add: hashmask_def hashsize_def mask_eq_exp_minus_1 push_bit_eq_mult)

lemma unat_hashsize:
  assumes "p \<le> 15"
  shows "unat (hashsize p) = 2 ^ p"
proof -
  have "(2 :: nat) ^ p < 2 ^ 32" using assms by (intro power_strict_increasing) simp_all
  moreover have "hashsize p = of_nat (2 ^ p)" by (simp add: hashsize_def)
  ultimately show ?thesis
    using assms by (simp add: unsigned_of_nat take_bit_nat_eq_self_iff del: of_nat_power)
qed

lemma find_in_bucket_run:
  assumes "set hs \<subseteq> dom cs" and "SCOREP_MOVABLE_NULL \<notin> dom cs"
  shows "\<exists>r. find_in_bucket eq cs new hs = Inr r \<and>
    (case r of
       None \<Rightarrow> \<forall>h\<in>set hs. \<forall>c. cs h = Some c \<longrightarrow> \<not> (hash_value c = hash_value new \<and> eq (body c) (body new))
     | Some h \<Rightarrow> h \<in> set hs \<and> (\<exists>c. cs h = Some c \<and> eq (body c) (body new)))"
  using assms(1)
proof (induction hs)
  case (Cons h hs)
  obtain c where c: "cs h = Some c" using Cons.prems by auto
  then have deref: "SCOREP_HANDLE_DEREF cs h = Inr c"
    using assms(2) by (auto simp: SCOREP_HANDLE_DEREF_def)
  show ?case
  proof (cases "hash_value c = hash_value new \<and> eq (body c) (body new)")
    case True
    then show ?thesis using c deref by (intro exI [of _ "Some h"]) simp
  next
    case False
    obtain r where "find_in_bucket eq cs new hs = Inr r"
      "case r of
         None \<Rightarrow> \<forall>h\<in>set hs. \<forall>c. cs h = Some c \<longrightarrow> \<not> (hash_value c = hash_value new \<and> eq (body c) (body new))
       | Some h \<Rightarrow> h \<in> set hs \<and> (\<exists>c. cs h = Some c \<and> eq (body c) (body new))"
      using Cons.IH Cons.prems by auto
    then show ?thesis using False c deref by (intro exI [of _ r]) (auto split: option.splits)
  qed
qed simp

subsection \<open>Initialisation\<close>

lemma init_entry_inv: "entry_inv cs kind_of eq ty scorep_definitions_manager_init_entry"
  by (simp add: entry_inv_def scorep_definitions_manager_init_entry_def)

definition hashed_entry :: "manager_entry \<Rightarrow> manager_entry" where
  "hashed_entry e = e\<lparr>hash_table_mask := hashmask SCOREP_DEFINITIONS_DEFAULT_HASH_TABLE_POWER,
     hash_table := Some (replicate (unat (hashsize SCOREP_DEFINITIONS_DEFAULT_HASH_TABLE_POWER)) [])\<rparr>"

lemma alloc_member_hash_tables_run:
  "alloc_member_hash_tables m tys = Inr (\<lambda>ty. if ty \<in> set tys then hashed_entry (m ty) else m ty)"
proof (induction tys arbitrary: m)
  case (Cons ty tys)
  have idem: "hashed_entry (hashed_entry e) = hashed_entry e" for e by (simp add: hashed_entry_def)
  have "scorep_definitions_manager_entry_alloc_hash_table (m ty) SCOREP_DEFINITIONS_DEFAULT_HASH_TABLE_POWER =
      Inr (hashed_entry (m ty))"
    by (simp add: scorep_definitions_manager_entry_alloc_hash_table_def hashed_entry_def
        SCOREP_DEFINITIONS_DEFAULT_HASH_TABLE_POWER_def)
  moreover have "(\<lambda>t. if t \<in> set tys then hashed_entry ((m(ty := hashed_entry (m ty))) t)
        else (m(ty := hashed_entry (m ty))) t) =
      (\<lambda>t. if t \<in> set (ty # tys) then hashed_entry (m t) else m t)"
    by (auto simp: fun_eq_iff idem)
  ultimately show ?case using Cons.IH [of "m(ty := hashed_entry (m ty))"] by (simp del: fun_upd_apply)
qed simp

lemma initialize_run:
  "SCOREP_Definitions_InitializeDefinitionManager b =
    Inr (\<lambda>ty. if ty \<in> set always_hashed \<or> b \<and> ty \<in> set hashed_on_request
              then hashed_entry scorep_definitions_manager_init_entry
              else scorep_definitions_manager_init_entry)"
proof -
  have "set always_hashed \<inter> set hashed_on_request = {}"
    by (simp add: always_hashed_def hashed_on_request_def)
  then show ?thesis
    by (auto simp: SCOREP_Definitions_InitializeDefinitionManager_def alloc_member_hash_tables_run fun_eq_iff)
qed

lemma hashed_entry_inv: "entry_inv cs kind_of eq ty (hashed_entry scorep_definitions_manager_init_entry)"
proof -
  have "table_inv cs eq [] (replicate 256 []) (hashmask 8)"
    unfolding table_inv_def hashmask_mask
    by (intro conjI exI [of _ 8]) auto
  then show ?thesis
    by (simp add: entry_inv_def hashed_entry_def scorep_definitions_manager_init_entry_def
        SCOREP_DEFINITIONS_DEFAULT_HASH_TABLE_POWER_def unat_hashsize)
qed

lemma initialize_inv:
  "SCOREP_Definitions_InitializeDefinitionManager b = Inr m \<Longrightarrow> entry_inv cs kind_of eq ty (m ty)"
  by (auto simp: initialize_run init_entry_inv hashed_entry_inv)

subsection \<open>The contract of the kinds of definitions\<close>

text \<open>
  What the manager needs of the kinds: an equality that identifies the kind and is an equivalence on
  it, equal definitions have equal hash values, and a hash value depends on nothing that may change.
\<close>

locale definition_kinds =
  fixes kind_of :: "'b \<Rightarrow> def_type"
    and eq :: "def_type \<Rightarrow> 'b \<Rightarrow> 'b \<Rightarrow> bool"
    and hash_of :: "(nat \<rightharpoonup> 'b def_cell) \<Rightarrow> 'b \<Rightarrow> u32 outcome"
    and body_ok :: "'b \<Rightarrow> bool"
  assumes eq_refl: "eq (kind_of b) b b"
    and eq_kind: "eq ty b b' \<Longrightarrow> kind_of b = ty \<and> kind_of b' = ty"
    and eq_sym: "eq ty b b' \<Longrightarrow> eq ty b' b"
    and eq_trans: "eq ty b b' \<Longrightarrow> eq ty b' b'' \<Longrightarrow> eq ty b b''"
    and hash_eq: "eq ty b b' \<Longrightarrow> hash_of cs b = hash_of cs b'"
    and hash_extend: "hash_of cs b = Inr v \<Longrightarrow> cells_extend kind_of eq cs cs' \<Longrightarrow> hash_of cs' b = Inr v"
begin

lemma cells_extend_fresh: "cs h = None \<Longrightarrow> cells_extend kind_of eq cs (cs(h \<mapsto> c))"
  by (auto simp: cells_extend_def eq_refl)

lemma entry_inv_extend:
  assumes inv: "entry_inv cs kind_of (eq ty) ty e" and ext: "cells_extend kind_of eq cs cs'"
  shows "entry_inv cs' kind_of (eq ty) ty e"
proof -
  have get: "\<exists>c c'. cs h = Some c \<and> cs' h = Some c' \<and> kind_of (body c) = ty \<and> kind_of (body c') = ty \<and>
      hash_value c' = hash_value c \<and> sequence_number c' = sequence_number c \<and> eq ty (body c) (body c')"
    if h: "h \<in> set (chain e)" for h
  proof -
    obtain c where c: "cs h = Some c" "kind_of (body c) = ty" using entry_inv_cell [OF inv h] .
    then obtain c' where c': "cs' h = Some c'" "hash_value c' = hash_value c"
      "sequence_number c' = sequence_number c" "eq ty (body c) (body c')"
      using ext unfolding cells_extend_def by blast
    then show ?thesis using c eq_kind by blast
  qed
  have tab: "table_inv cs' (eq ty) (chain e) bs (hash_table_mask e)" if "hash_table e = Some bs" for bs
  proof -
    note t = table_invD [OF entry_invD(4) [OF inv that]]
    have "h \<in> set (bs ! unat (hash_value c' AND hash_table_mask e))"
      if "h \<in> set (chain e)" "cs' h = Some c'" for h c'
      using get [OF that(1)] that t(3) by auto
    moreover have "h = h'" if *: "h \<in> set (chain e)" "h' \<in> set (chain e)" "cs' h = Some c" "cs' h' = Some c'"
      "eq ty (body c) (body c')" for h h' c c'
    proof -
      obtain d where d: "cs h = Some d" "eq ty (body d) (body c)" using get [OF *(1)] *(3) by auto
      obtain d' where d': "cs h' = Some d'" "eq ty (body d') (body c')" using get [OF *(2)] *(4) by auto
      have "eq ty (body d) (body d')"
        using d(2) d'(2) *(5) eq_trans eq_sym by blast
      then show ?thesis using t(4) [OF *(1,2) d(1) d'(1)] by simp
    qed
    ultimately show ?thesis using t(1,2) unfolding table_inv_def by blast
  qed
  have "\<exists>c. cs' (chain e ! i) = Some c \<and> kind_of (body c) = ty \<and> sequence_number c = of_nat i"
    if i: "i < length (chain e)" for i
  proof -
    obtain c c' where "cs (chain e ! i) = Some c" "cs' (chain e ! i) = Some c'" "kind_of (body c') = ty"
      "sequence_number c' = sequence_number c"
      using get [OF nth_mem [OF i]] by blast
    moreover from this(1) have "sequence_number c = of_nat i" using entry_invD(3) [OF inv i] by simp
    ultimately show ?thesis by simp
  qed
  then show ?thesis
    using entry_invD(1,2) [OF inv] tab unfolding entry_inv_def by (simp split: option.split)
qed

text \<open>Appending a definition that is new to the table.\<close>

lemma link_inv:
  assumes inv: "entry_inv cs kind_of (eq ty) ty e" and fresh: "cs h = None"
    and b: "kind_of b = ty"
    and new: "case hash_table e of None \<Rightarrow> bucket = None
      | Some bs \<Rightarrow> bucket = Some (bs, unat (v AND hash_table_mask e)) \<and>
          (\<forall>h'\<in>set (chain e). \<forall>c. cs h' = Some c \<longrightarrow> \<not> eq ty (body c) b)"
  shows "entry_inv (cs(h \<mapsto> \<lparr>unified = u, hash_value = v, sequence_number = counter e, body = b\<rparr>))
    kind_of (eq ty) ty (link_definition bucket e h)"
proof -
  let ?c = "\<lparr>unified = u, hash_value = v, sequence_number = counter e, body = b\<rparr>"
  let ?cs = "cs(h \<mapsto> ?c)"
  have not_in: "h \<notin> set (chain e)"
    using entry_inv_cell [OF inv, of h] fresh by auto
  have old: "?cs h' = cs h'" if "h' \<in> set (chain e)" for h' using that not_in by auto
  have count: "counter e = of_nat (length (chain e))" by (rule entry_invD(2) [OF inv])
  have cell: "\<exists>c. ?cs ((chain e @ [h]) ! i) = Some c \<and> kind_of (body c) = ty \<and> sequence_number c = of_nat i"
    if "i < length (chain e @ [h])" for i
  proof (cases "i < length (chain e)")
    case True
    then show ?thesis using entry_invD(3) [OF inv True] old [OF nth_mem [OF True]] by (simp add: nth_append)
  next
    case False
    then have "i = length (chain e)" using that by simp
    then show ?thesis using b count by simp
  qed
  show ?thesis
  proof (cases "hash_table e")
    case None
    then show ?thesis using new cell entry_invD(1) [OF inv] not_in count
      by (simp add: entry_inv_def link_definition_def)
  next
    case (Some bs)
    let ?i = "unat (v AND hash_table_mask e)"
    let ?bs = "bs[?i := h # bs ! ?i]"
    note tinv = entry_invD(4) [OF inv Some]
    note t = table_invD [OF tinv]
    note i = table_index [OF tinv, of v]
    have ne: "\<not> eq ty (body c) b" if "h' \<in> set (chain e)" "cs h' = Some c" for h' c
      using new Some that by simp
    have sub: "set q \<subseteq> set (chain e @ [h])" if "q \<in> set ?bs" for q
    proof -
      have "q \<in> insert (h # bs ! ?i) (set bs)" using that set_update_subset_insert [of bs ?i] by blast
      moreover have "set (bs ! ?i) \<subseteq> set (chain e)" by (rule t(2)) (simp add: i)
      ultimately show ?thesis using t(2) [of q] by auto
    qed
    have mem: "g \<in> set (?bs ! unat (hash_value c AND hash_table_mask e))"
      if g: "g \<in> set (chain e @ [h])" "?cs g = Some c" for g c
    proof (cases "g = h")
      case True
      then have "c = ?c" using g(2) by simp
      then show ?thesis using True i by simp
    next
      case False
      then have "g \<in> set (chain e)" "cs g = Some c" using g by auto
      from t(3) [OF this] show ?thesis using i by (simp add: nth_list_update)
    qed
    have inj: "g = g'" if g: "g \<in> set (chain e @ [h])" "g' \<in> set (chain e @ [h])"
      "?cs g = Some c" "?cs g' = Some c'" "eq ty (body c) (body c')" for g g' c c'
    proof (cases "g = h"; cases "g' = h")
      assume *: "g = h" "g' \<noteq> h"
      then have "g' \<in> set (chain e)" "cs g' = Some c'" "body c = b" using g by auto
      then have "\<not> eq ty (body c') b" using ne by simp
      then show ?thesis using eq_sym [OF g(5)] \<open>body c = b\<close> by simp
    next
      assume *: "g \<noteq> h" "g' = h"
      then have "g \<in> set (chain e)" "cs g = Some c" "body c' = b" using g by auto
      then show ?thesis using ne [of g c] g(5) by simp
    next
      assume *: "g \<noteq> h" "g' \<noteq> h"
      then have "g \<in> set (chain e)" "cs g = Some c" "g' \<in> set (chain e)" "cs g' = Some c'" using g by auto
      then show ?thesis using t(4) [OF _ _ _ _ g(5)] by simp
    qed simp
    have "table_inv ?cs (eq ty) (chain e @ [h]) ?bs (hash_table_mask e)"
      unfolding table_inv_def length_list_update using t(1) sub mem inj by blast
    then show ?thesis using new Some cell entry_invD(1) [OF inv] not_in count
      by (simp add: entry_inv_def link_definition_def)
  qed
qed

end

subsection \<open>Defining a definition\<close>

lemma get_set_manager [simp]:
  "get_manager (set_manager s mid m) mid' = (if mid' = mid then Inr m else get_manager s mid')"
  by (cases mid; cases mid') auto

lemma get_manager_update [simp]:
  "get_manager (s\<lparr>cells := cs\<rparr>) mid = get_manager s mid"
  "get_manager (s\<lparr>memory := mm\<rparr>) mid = get_manager s mid"
  "get_manager (s\<lparr>new_handles := ns\<rparr>) mid = get_manager s mid"
  by (cases mid; simp)+

lemma set_manager_fields [simp]:
  "cells (set_manager s mid m) = cells s" "memory (set_manager s mid m) = memory s"
  "new_handles (set_manager s mid m) = new_handles s"
  by (cases mid; simp)+

lemma set_manager_update:
  "set_manager (s\<lparr>memory := mm\<rparr>) mid m = (set_manager s mid m)\<lparr>memory := mm\<rparr>"
  by (cases mid; simp)

lemma link_definition_chain [simp]:
  "chain (link_definition bucket e h) = chain e @ [h]"
  "counter (link_definition bucket e h) = counter e + 1"
  "hash_table_mask (link_definition bucket e h) = hash_table_mask e"
  "mapping (link_definition bucket e h) = mapping e"
  "hash_table (link_definition bucket e h) = None \<longleftrightarrow> hash_table e = None \<and> bucket = None"
  by (auto simp: link_definition_def split: option.splits)

definition hashed :: "definition_manager \<Rightarrow> def_type \<Rightarrow> bool" where
  "hashed m ty \<longleftrightarrow> hash_table (m ty) \<noteq> None"

text \<open>The state after a definition was linked.\<close>

definition linked_state ::
  "('m, 'b) definitions \<Rightarrow> manager_id \<Rightarrow> definition_manager \<Rightarrow> def_type \<Rightarrow> bool \<Rightarrow> 'm
   \<Rightarrow> (nat list list \<times> nat) option \<Rightarrow> nat \<Rightarrow> u32 \<Rightarrow> 'b \<Rightarrow> ('m, 'b) definitions" where
  "linked_state s mid m ty notify mm bucket h v b =
     (set_manager s mid (m(ty := link_definition bucket (m ty) h)))
       \<lparr>memory := mm,
        cells := (cells s)(h \<mapsto> \<lparr>unified = SCOREP_MOVABLE_NULL, hash_value = v,
                              sequence_number = counter (m ty), body = b\<rparr>),
        new_handles := (if notify \<and> mid = Local_Manager then new_handles s @ [(h, ty)] else new_handles s)\<rparr>"

lemma linked_state_fields [simp]:
  "memory (linked_state s mid m ty notify mm bucket h v b) = mm"
  "cells (linked_state s mid m ty notify mm bucket h v b) =
     (cells s)(h \<mapsto> \<lparr>unified = SCOREP_MOVABLE_NULL, hash_value = v, sequence_number = counter (m ty), body = b\<rparr>)"
  "get_manager (linked_state s mid m ty notify mm bucket h v b) mid' =
     (if mid' = mid then Inr (m(ty := link_definition bucket (m ty) h)) else get_manager s mid')"
  "new_handles (linked_state s mid m ty notify mm bucket h v b) =
     (if notify \<and> mid = Local_Manager then new_handles s @ [(h, ty)] else new_handles s)"
  by (simp_all add: linked_state_def)

locale definition_manager_laws = movable_memory_laws mem holds + definition_kinds kind_of eq hash_of body_ok
  for mem :: "'m movable_memory" and holds :: "'m \<Rightarrow> nat set \<Rightarrow> bool"
    and kind_of :: "'b \<Rightarrow> def_type" and eq :: "def_type \<Rightarrow> 'b \<Rightarrow> 'b \<Rightarrow> bool"
    and hash_of :: "(nat \<rightharpoonup> 'b def_cell) \<Rightarrow> 'b \<Rightarrow> u32 outcome"
    and body_ok :: "'b \<Rightarrow> bool"
begin

abbreviation inv :: "('m, 'b) definitions \<Rightarrow> bool" where
  "inv \<equiv> definitions_inv holds kind_of eq hash_of body_ok"

lemma invD:
  assumes "inv s"
  shows "holds (memory s) (dom (cells s))" "SCOREP_MOVABLE_NULL \<notin> dom (cells s)"
    "cells s h = Some c \<Longrightarrow> hash_of (cells s) (body c) = Inr (hash_value c)"
    "cells s h = Some c \<Longrightarrow> body_ok (body c)"
    "get_manager s mid = Inr m \<Longrightarrow> entry_inv (cells s) kind_of (eq ty) ty (m ty)"
  using assms unfolding definitions_inv_def by blast+

lemma linked_inv:
  assumes inv: "inv s" and mgr: "get_manager s mid = Inr m" and fresh: "cells s h = None"
    and h: "h \<noteq> SCOREP_MOVABLE_NULL" "holds mm (insert h (dom (cells s)))"
    and b: "kind_of b = ty" "hash_of (cells s) b = Inr v" "body_ok b"
    and new: "case hash_table (m ty) of None \<Rightarrow> bucket = None
      | Some bs \<Rightarrow> bucket = Some (bs, unat (v AND hash_table_mask (m ty))) \<and>
          (\<forall>h'\<in>set (chain (m ty)). \<forall>c. cells s h' = Some c \<longrightarrow> \<not> eq ty (body c) b)"
  shows "inv (linked_state s mid m ty notify mm bucket h v b)"
proof -
  let ?c = "\<lparr>unified = SCOREP_MOVABLE_NULL, hash_value = v, sequence_number = counter (m ty), body = b\<rparr>"
  let ?cs = "(cells s)(h \<mapsto> ?c)"
  let ?s = "linked_state s mid m ty notify mm bucket h v b"
  have ext: "cells_extend kind_of eq (cells s) ?cs" by (rule cells_extend_fresh) (rule fresh)
  have entries: "entry_inv ?cs kind_of (eq t) t (m' t)" if "get_manager ?s mid' = Inr m'" for mid' m' t
  proof (cases "mid' = mid \<and> t = ty")
    case True
    then have "m' t = link_definition bucket (m ty) h" using that by auto
    then show ?thesis using link_inv [OF invD(5) [OF inv mgr] fresh b(1) new] True by simp
  next
    case False
    then have "\<exists>m0. get_manager s mid' = Inr m0 \<and> m' t = m0 t"
      using that mgr by (auto split: if_splits)
    then show ?thesis using entry_inv_extend [OF invD(5) [OF inv] ext] by auto
  qed
  have hashes: "hash_of ?cs (body c) = Inr (hash_value c) \<and> body_ok (body c)" if "?cs g = Some c" for g c
  proof (cases "g = h")
    case True
    then have "c = ?c" using that by simp
    then show ?thesis using hash_extend [OF b(2) ext] b(3) by simp
  next
    case False
    then show ?thesis using that hash_extend [OF invD(3) [OF inv] ext] invD(4) [OF inv] by simp
  qed
  have "holds mm (dom ?cs)" "SCOREP_MOVABLE_NULL \<notin> dom ?cs"
    using h invD(2) [OF inv] by simp_all
  then show ?thesis unfolding definitions_inv_def linked_state_fields(1,2)
    using entries hashes by blast
qed

text \<open>
  A definition either runs out of memory, or it is found and nothing but the memory manager's
  books changes, or it is new and linked.
\<close>

lemma define_step:
  assumes inv: "inv s" and mgr: "get_manager s mid = Inr m"
    and b: "kind_of b = ty" "hash (cells s) = Inr v" "hash_of (cells s) b = Inr v"
      "body_ok b" and size: "0 < size_of"
  shows "define_definition mem (eq ty) ty size_of hash notify mid b s = Inl Out_Of_Memory \<or>
    (\<exists>h s'. define_definition mem (eq ty) ty size_of hash notify mid b s = Inr (h, s') \<and> inv s' \<and>
       ((hash_table (m ty) \<noteq> None \<and> h \<in> set (chain (m ty)) \<and> (\<exists>c. cells s h = Some c \<and> eq ty (body c) b) \<and>
           (\<exists>mm. s' = s\<lparr>memory := mm\<rparr>)) \<or>
        ((hash_table (m ty) \<noteq> None \<longrightarrow>
            (\<forall>h'\<in>set (chain (m ty)). \<forall>c. cells s h' = Some c \<longrightarrow> \<not> eq ty (body c) b)) \<and>
         cells s h = None \<and> h \<noteq> SCOREP_MOVABLE_NULL \<and>
         (\<exists>mm bucket. s' = linked_state s mid m ty notify mm bucket h v b))))"
  (is "?run = _ \<or> ?ok")
proof (cases "?run = Inl Out_Of_Memory")
  case False
  let ?new = "\<lparr>unified = SCOREP_MOVABLE_NULL, hash_value = v, sequence_number = - 1, body = b\<rparr>"
  from alloc_for_definitions [OF invD(1) [OF inv] size] False
  obtain h mm where alloc: "SCOREP_Memory_AllocForDefinitions mem (memory s) size_of = Inr (h, mm)"
    and h: "h \<noteq> SCOREP_MOVABLE_NULL" "h \<notin> dom (cells s)" "holds mm (insert h (dom (cells s)))"
    and undo: "\<exists>m''. m_rollback mem mm h = Inr m'' \<and> holds m'' (dom (cells s))"
    by (auto simp: define_definition_def)
  have fresh: "cells s h = None" using h(2) by auto
  note einv = invD(5) [OF inv mgr, of ty]
  have linked: ?ok if new: "case hash_table (m ty) of None \<Rightarrow> bucket = None
      | Some bs \<Rightarrow> bucket = Some (bs, unat (v AND hash_table_mask (m ty))) \<and>
          (\<forall>h'\<in>set (chain (m ty)). \<forall>c. cells s h' = Some c \<longrightarrow> \<not> eq ty (body c) b)"
    and run: "?run = Inr (h, linked_state s mid m ty notify mm bucket h v b)" for bucket
  proof (intro exI conjI disjI2)
    show "inv (linked_state s mid m ty notify mm bucket h v b)"
      by (rule linked_inv [OF inv mgr fresh h(1,3) b(1,3,4) new])
    show "hash_table (m ty) \<noteq> None \<longrightarrow>
        (\<forall>h'\<in>set (chain (m ty)). \<forall>c. cells s h' = Some c \<longrightarrow> \<not> eq ty (body c) b)"
      using new by (auto split: option.splits)
  qed (use run fresh h(1) in auto)
  show ?thesis
  proof (cases "hash_table (m ty)")
    case None
    have "?run = Inr (h, linked_state s mid m ty notify mm None h v b)"
      using alloc b(2) mgr None
      by (simp add: define_definition_def SCOREP_DEFINITIONS_MANAGER_ENTRY_ADD_DEFINITION_def
          linked_state_def set_manager_update Let_def)
    from linked [OF _ this] None show ?thesis by simp
  next
    case (Some bs)
    let ?i = "unat (v AND hash_table_mask (m ty))"
    note tinv = entry_invD(4) [OF einv Some]
    have i: "?i < length bs" by (rule table_index [OF tinv])
    have chain_dom: "set (chain (m ty)) \<subseteq> dom (cells s)"
      using entry_inv_cell [OF einv] by blast
    have "set (bs ! ?i) \<subseteq> set (chain (m ty))"
      using table_invD(2) [OF tinv nth_mem [OF i]] .
    from find_in_bucket_run [OF subset_trans [OF this chain_dom] invD(2) [OF inv], of "eq ty" ?new]
    obtain r where find: "find_in_bucket (eq ty) (cells s) ?new (bs ! ?i) = Inr r"
      and r: "case r of
         None \<Rightarrow> \<forall>h\<in>set (bs ! ?i). \<forall>c. cells s h = Some c \<longrightarrow> \<not> (hash_value c = v \<and> eq ty (body c) b)
       | Some h \<Rightarrow> h \<in> set (bs ! ?i) \<and> (\<exists>c. cells s h = Some c \<and> eq ty (body c) b)"
      unfolding def_cell.simps by blast
    show ?thesis
    proof (cases r)
      case None
      have "\<not> eq ty (body c) b" if c: "h' \<in> set (chain (m ty))" "cells s h' = Some c" for h' c
      proof
        assume eq: "eq ty (body c) b"
        have "hash_value c = v"
          using hash_eq [OF eq, of "cells s"] invD(3) [OF inv c(2)] b(3) by simp
        then have "h' \<in> set (bs ! ?i)" using table_invD(3) [OF tinv c] by simp
        then show False using r None c(2) eq \<open>hash_value c = v\<close> by simp
      qed
      moreover have "?run = Inr (h, linked_state s mid m ty notify mm (Some (bs, ?i)) h v b)"
        using alloc b(2) mgr Some find None i
        by (simp add: define_definition_def SCOREP_DEFINITIONS_MANAGER_ENTRY_ADD_DEFINITION_def
            linked_state_def set_manager_update Let_def)
      ultimately show ?thesis using linked [of "Some (bs, ?i)"] Some by simp
    next
      case (Some g)
      obtain mm' where mm': "m_rollback mem mm h = Inr mm'" "holds mm' (dom (cells s))" using undo by blast
      have "?run = Inr (g, s\<lparr>memory := mm'\<rparr>)"
        using alloc b(2) mgr \<open>hash_table (m ty) = Some bs\<close> find Some i mm'(1)
        by (simp add: define_definition_def SCOREP_DEFINITIONS_MANAGER_ENTRY_ADD_DEFINITION_def Let_def)
      moreover have "inv (s\<lparr>memory := mm'\<rparr>)"
        using inv mm'(2) by (simp add: definitions_inv_def)
      moreover have "g \<in> set (chain (m ty))"
        using r Some table_invD(2) [OF tinv nth_mem [OF i]] by auto
      ultimately show ?thesis using r Some \<open>hash_table (m ty) = Some bs\<close>
        by (intro disjI2 exI [of _ g] exI [of _ "s\<lparr>memory := mm'\<rparr>"]) auto
    qed
  qed
qed simp

text \<open>The same, as the client sees it.\<close>

lemma define_result:
  assumes inv: "inv s" and mgr: "get_manager s mid = Inr m" "hashed m ty"
    and b: "kind_of b = ty" "hash_of (cells s) b = Inr v" "body_ok b" and size: "0 < size_of"
    and hash: "hash (cells s) = hash_of (cells s) b"
  shows "define_definition mem (eq ty) ty size_of hash notify mid b s = Inl Out_Of_Memory \<or>
    (\<exists>h s' m' c. define_definition mem (eq ty) ty size_of hash notify mid b s = Inr (h, s') \<and> inv s' \<and>
       get_manager s' mid = Inr m' \<and> (\<forall>t. hashed m' t = hashed m t) \<and> (\<forall>t. t \<noteq> ty \<longrightarrow> m' t = m t) \<and>
       (\<forall>mid'. mid' \<noteq> mid \<longrightarrow> get_manager s' mid' = get_manager s mid') \<and>
       map_le (cells s) (cells s') \<and> h \<in> set (chain (m' ty)) \<and> cells s' h = Some c \<and> eq ty (body c) b \<and>
       (if \<exists>g\<in>set (chain (m ty)). \<exists>d. cells s g = Some d \<and> eq ty (body d) b
        then m' = m \<and> cells s' = cells s \<and> new_handles s' = new_handles s
        else chain (m' ty) = chain (m ty) @ [h] \<and> cells s h = None \<and> dom (cells s') = insert h (dom (cells s)) \<and>
             body c = b))"
proof -
  have "hash (cells s) = Inr v" using b(2) hash by simp
  from define_step [where hash = hash and notify = notify, OF inv mgr(1) b(1) this b(2,3) size]
  show ?thesis
  proof (elim disjE exE conjE)
    assume "define_definition mem (eq ty) ty size_of hash notify mid b s = Inl Out_Of_Memory"
    then show ?thesis ..
  next
    fix h s' c mm
    assume run: "define_definition mem (eq ty) ty size_of hash notify mid b s = Inr (h, s')" "inv s'"
      and found: "h \<in> set (chain (m ty))" "cells s h = Some c" "eq ty (body c) b" "s' = s\<lparr>memory := mm\<rparr>"
    then show ?thesis using mgr(1)
      by (intro disjI2 exI [of _ h] exI [of _ s'] exI [of _ m] exI [of _ c]) auto
  next
    fix h s' mm bucket
    assume run: "define_definition mem (eq ty) ty size_of hash notify mid b s = Inr (h, s')" "inv s'"
      and none: "hash_table (m ty) \<noteq> None \<longrightarrow>
        (\<forall>h'\<in>set (chain (m ty)). \<forall>c. cells s h' = Some c \<longrightarrow> \<not> eq ty (body c) b)"
      and l: "cells s h = None" "s' = linked_state s mid m ty notify mm bucket h v b"
    have "\<not> (\<exists>g\<in>set (chain (m ty)). \<exists>d. cells s g = Some d \<and> eq ty (body d) b)"
      using none mgr(2) by (auto simp: hashed_def)
    moreover have "map_le (cells s) (cells s')" using l by (auto simp: map_le_def)
    moreover have "hashed (m(ty := link_definition bucket (m ty) h)) t = hashed m t" for t
      using mgr(2) by (cases "t = ty") (simp_all add: hashed_def del: not_None_eq)
    ultimately show ?thesis using run l eq_refl [of b] b(1)
      by (intro disjI2 exI [of _ h] exI [of _ s'] exI [of _ "m(ty := link_definition bucket (m ty) h)"]
          exI [of _ "\<lparr>unified = SCOREP_MOVABLE_NULL, hash_value = v, sequence_number = counter (m ty), body = b\<rparr>"])
        auto
  qed
qed

text \<open>Changing what is not part of the key of a definition.\<close>

lemma inv_update:
  assumes inv: "inv s" and cell: "cells s h = Some c"
    and c': "hash_value c' = hash_value c" "sequence_number c' = sequence_number c"
      "eq (kind_of (body c)) (body c) (body c')" "body_ok (body c')"
  shows "inv (s\<lparr>cells := (cells s)(h \<mapsto> c')\<rparr>)" "cells_extend kind_of eq (cells s) ((cells s)(h \<mapsto> c'))"
proof -
  show ext: "cells_extend kind_of eq (cells s) ((cells s)(h \<mapsto> c'))"
    using cell c'(1-3) by (auto simp: cells_extend_def eq_refl)
  have "hash_of (cells s) (body c') = Inr (hash_value c')"
    using hash_eq [OF c'(3), of "cells s"] invD(3) [OF inv cell] c'(1) by simp
  then have "hash_of ((cells s)(h \<mapsto> c')) (body c') = Inr (hash_value c')" by (rule hash_extend) (rule ext)
  moreover have "hash_of ((cells s)(h \<mapsto> c')) (body d) = Inr (hash_value d)" if "cells s g = Some d" for g d
    by (rule hash_extend [OF invD(3) [OF inv that] ext])
  moreover have "dom ((cells s)(h \<mapsto> c')) = dom (cells s)" using cell by auto
  ultimately show "inv (s\<lparr>cells := (cells s)(h \<mapsto> c')\<rparr>)"
    using invD(1,2,4) [OF inv] c'(4) entry_inv_extend [OF invD(5) [OF inv] ext]
    by (simp add: definitions_inv_def)
qed

lemma extend_refl: "cells_extend kind_of eq cs cs"
  by (auto simp: cells_extend_def eq_refl)

lemma extend_trans:
  assumes "cells_extend kind_of eq cs cs'" and "cells_extend kind_of eq cs' cs''"
  shows "cells_extend kind_of eq cs cs''"
  unfolding cells_extend_def
proof (intro allI impI)
  fix h c
  assume "cs h = Some c"
  then obtain c' where c': "cs' h = Some c'" "hash_value c' = hash_value c"
    "sequence_number c' = sequence_number c" "eq (kind_of (body c)) (body c) (body c')"
    using assms(1) unfolding cells_extend_def by blast
  obtain c'' where c'': "cs'' h = Some c''" "hash_value c'' = hash_value c'"
    "sequence_number c'' = sequence_number c'" "eq (kind_of (body c')) (body c') (body c'')"
    using assms(2) c'(1) unfolding cells_extend_def by blast
  have "eq (kind_of (body c)) (body c) (body c'')"
    using eq_trans [OF c'(4)] c''(4) eq_kind [OF c'(4)] by simp
  then show "\<exists>c''. cs'' h = Some c'' \<and> hash_value c'' = hash_value c \<and>
      sequence_number c'' = sequence_number c \<and> eq (kind_of (body c)) (body c) (body c'')"
    using c' c'' by (intro exI [of _ c'']) simp
qed

lemma inv_deref:
  assumes "inv s" and "cells s h = Some c"
  shows "SCOREP_HANDLE_DEREF (cells s) h = Inr c"
  using assms invD(2) [OF assms(1)] by (auto simp: SCOREP_HANDLE_DEREF_def)

end

end
