(* ===== verification/DefinitionKinds.thy ===== *)
theory DefinitionKinds
  imports DefinitionManager JenkinsHash SimplifyPath
begin

section \<open>Kinds of definitions\<close>

text \<open>
  Strings, source files, regions, groups, parameters, attributes, source code locations, system tree
  nodes, I/O files and callpaths: their data, hash values and equality, the functions that define them,
  and their unification (\<^verbatim>\<open>src/measurement/definitions/scorep_definitions_*.c\<close>). Handles are numbers,
  enumerations and line numbers words of their width; a string is the list of its characters without
  the null character. The bytes of integers are in little-endian order. Where the order of evaluation of
  arguments is left open by C, the model evaluates them from left to right.
\<close>

record region_def =
  name_handle :: nat
  canonical_name_handle :: nat
  description_handle :: nat
  region_type :: u32
  file_name_handle :: nat
  begin_line :: u32
  end_line :: u32
  paradigm_type :: u32
  group_name_handle :: nat

record group_def =
  group_type :: u32
  group_name :: nat
  number_of_members :: u64
  members :: "u64 list"

record system_tree_node_def =
  parent_handle :: nat
  domains :: u32
  node_name_handle :: nat
  class_handle :: nat
  has_children :: bool

text \<open>
  The value of a parameter is the union of a string handle and an integer, as its eight bytes; the
  bytes behind a string handle are zero.
\<close>

record callpath_parameter =
  parameter_handle :: nat
  parameter_value :: u64

record callpath_def =
  parent_callpath_handle :: nat
  region_handle :: nat
  number_of_parameters :: u32
  parameters :: "callpath_parameter list"

datatype def_body =
    String_Def (string_length: u32) (string_data: string)
  | Source_File_Def nat
  | Region_Def region_def
  | Group_Def group_def
  | Parameter_Def nat u32                 \<comment> \<open>name, type\<close>
  | Attribute_Def nat nat u32             \<comment> \<open>name, description, type\<close>
  | Source_Code_Location_Def nat u32      \<comment> \<open>file, line\<close>
  | System_Tree_Node_Def system_tree_node_def
  | Io_File_Def nat nat                   \<comment> \<open>name, scope\<close>
  | Callpath_Def callpath_def

type_synonym def_cells = "nat \<rightharpoonup> def_body def_cell"
type_synonym 'm defs = "('m, def_body) definitions"

fun type_of_body :: "def_body \<Rightarrow> def_type" where
  "type_of_body (String_Def _ _) = Def_String"
| "type_of_body (Source_File_Def _) = Def_Source_File"
| "type_of_body (Region_Def _) = Def_Region"
| "type_of_body (Group_Def _) = Def_Group"
| "type_of_body (Parameter_Def _ _) = Def_Parameter"
| "type_of_body (Attribute_Def _ _ _) = Def_Attribute"
| "type_of_body (Source_Code_Location_Def _ _) = Def_Source_Code_Location"
| "type_of_body (System_Tree_Node_Def _) = Def_System_Tree_Node"
| "type_of_body (Io_File_Def _ _) = Def_Io_File"
| "type_of_body (Callpath_Def _) = Def_Callpath"

subsection \<open>Equality\<close>

fun equal_string :: "def_body \<Rightarrow> def_body \<Rightarrow> bool" where
  "equal_string (String_Def l d) (String_Def l' d') \<longleftrightarrow> l = l' \<and> take (unat l) d = take (unat l) d'"
| "equal_string _ _ \<longleftrightarrow> False"

fun equal_source_file :: "def_body \<Rightarrow> def_body \<Rightarrow> bool" where
  "equal_source_file (Source_File_Def n) (Source_File_Def n') \<longleftrightarrow> n = n'"
| "equal_source_file _ _ \<longleftrightarrow> False"

fun equal_region :: "def_body \<Rightarrow> def_body \<Rightarrow> bool" where
  "equal_region (Region_Def r) (Region_Def r') \<longleftrightarrow>
     name_handle r = name_handle r' \<and> canonical_name_handle r = canonical_name_handle r' \<and>
     description_handle r = description_handle r' \<and> region_type r = region_type r' \<and>
     file_name_handle r = file_name_handle r' \<and> begin_line r = begin_line r' \<and>
     end_line r = end_line r' \<and> paradigm_type r = paradigm_type r'"
| "equal_region _ _ \<longleftrightarrow> False"

fun equal_group :: "def_body \<Rightarrow> def_body \<Rightarrow> bool" where
  "equal_group (Group_Def g) (Group_Def g') \<longleftrightarrow>
     group_type g = group_type g' \<and> group_name g = group_name g' \<and>
     number_of_members g = number_of_members g' \<and>
     take (unat (number_of_members g)) (members g) = take (unat (number_of_members g)) (members g')"
| "equal_group _ _ \<longleftrightarrow> False"

fun equal_parameter :: "def_body \<Rightarrow> def_body \<Rightarrow> bool" where
  "equal_parameter (Parameter_Def n t) (Parameter_Def n' t') \<longleftrightarrow> n = n' \<and> t = t'"
| "equal_parameter _ _ \<longleftrightarrow> False"

fun equal_attribute :: "def_body \<Rightarrow> def_body \<Rightarrow> bool" where
  "equal_attribute (Attribute_Def n d t) (Attribute_Def n' d' t') \<longleftrightarrow> n = n' \<and> d = d' \<and> t = t'"
| "equal_attribute _ _ \<longleftrightarrow> False"

fun equal_source_code_location :: "def_body \<Rightarrow> def_body \<Rightarrow> bool" where
  "equal_source_code_location (Source_Code_Location_Def f l) (Source_Code_Location_Def f' l') \<longleftrightarrow>
     f = f' \<and> l = l'"
| "equal_source_code_location _ _ \<longleftrightarrow> False"

fun equal_system_tree_node :: "def_body \<Rightarrow> def_body \<Rightarrow> bool" where
  "equal_system_tree_node (System_Tree_Node_Def n) (System_Tree_Node_Def n') \<longleftrightarrow>
     parent_handle n = parent_handle n' \<and> domains n = domains n' \<and>
     class_handle n = class_handle n' \<and> node_name_handle n = node_name_handle n'"
| "equal_system_tree_node _ _ \<longleftrightarrow> False"

fun equal_io_file :: "def_body \<Rightarrow> def_body \<Rightarrow> bool" where
  "equal_io_file (Io_File_Def n s) (Io_File_Def n' s') \<longleftrightarrow> n = n' \<and> s = s'"
| "equal_io_file _ _ \<longleftrightarrow> False"

fun equal_callpath :: "def_body \<Rightarrow> def_body \<Rightarrow> bool" where
  "equal_callpath (Callpath_Def c) (Callpath_Def c') \<longleftrightarrow>
     parent_callpath_handle c = parent_callpath_handle c' \<and> region_handle c = region_handle c' \<and>
     number_of_parameters c = number_of_parameters c' \<and>
     take (unat (number_of_parameters c)) (parameters c) = take (unat (number_of_parameters c)) (parameters c')"
| "equal_callpath _ _ \<longleftrightarrow> False"

text \<open>The equality the manager uses for a kind.\<close>

fun equal_definition :: "def_type \<Rightarrow> def_body \<Rightarrow> def_body \<Rightarrow> bool" where
  "equal_definition Def_String = equal_string"
| "equal_definition Def_Source_File = equal_source_file"
| "equal_definition Def_Region = equal_region"
| "equal_definition Def_Group = equal_group"
| "equal_definition Def_Parameter = equal_parameter"
| "equal_definition Def_Attribute = equal_attribute"
| "equal_definition Def_Source_Code_Location = equal_source_code_location"
| "equal_definition Def_System_Tree_Node = equal_system_tree_node"
| "equal_definition Def_Io_File = equal_io_file"
| "equal_definition Def_Callpath = equal_callpath"
| "equal_definition _ = (\<lambda>_ _. False)"

subsection \<open>Hash values\<close>

definition hash_bytes :: "u8 list \<Rightarrow> u32 \<Rightarrow> u32" where
  "hash_bytes bs v = jenkins_hash False (\<lambda>i. if i < length bs then bs ! i else 0) (length bs) v"

definition bytes_of_u32 :: "u32 \<Rightarrow> u8 list" where
  "bytes_of_u32 x = map (\<lambda>i. ucast (drop_bit (8 * i) x)) [0..<4]"

definition bytes_of_u64 :: "u64 \<Rightarrow> u8 list" where
  "bytes_of_u64 x = map (\<lambda>i. ucast (drop_bit (8 * i) x)) [0..<8]"

definition HASH_ADD_POD :: "u8 list \<Rightarrow> u32 \<Rightarrow> u32 outcome" where
  "HASH_ADD_POD bs v = Inr (hash_bytes bs v)"

definition HASH_ADD_ARRAY :: "u64 list \<Rightarrow> u32 \<Rightarrow> u32 outcome" where
  "HASH_ADD_ARRAY xs v = Inr (hash_bytes (concat (map bytes_of_u64 xs)) v)"

definition HASH_ADD_HANDLE :: "def_cells \<Rightarrow> nat \<Rightarrow> u32 \<Rightarrow> u32 outcome" where
  "HASH_ADD_HANDLE cs h v =
     and_then (SCOREP_HANDLE_DEREF cs h) (\<lambda>c. Inr (jenkins_hashword (\<lambda>_. hash_value c) 1 v))"

text \<open>A handle that may be null is only added when it is not.\<close>

definition HASH_ADD_OPTIONAL :: "def_cells \<Rightarrow> nat \<Rightarrow> u32 \<Rightarrow> u32 outcome" where
  "HASH_ADD_OPTIONAL cs h v = (if h \<noteq> SCOREP_MOVABLE_NULL then HASH_ADD_HANDLE cs h v else Inr v)"

definition hash_string :: "u32 \<Rightarrow> string \<Rightarrow> u32" where
  "hash_string l d = hash_bytes (map of_char (take (unat l) d)) 0"

definition hash_source_file :: "def_cells \<Rightarrow> nat \<Rightarrow> u32 outcome" where
  "hash_source_file cs n = and_then (SCOREP_HANDLE_DEREF cs n) (\<lambda>c. Inr (hash_value c))"

definition initialize_region :: "def_cells \<Rightarrow> region_def \<Rightarrow> u32 outcome" where
  "initialize_region cs r =
     and_then (HASH_ADD_HANDLE cs (name_handle r) 0) (\<lambda>v.
     and_then (HASH_ADD_HANDLE cs (canonical_name_handle r) v) (\<lambda>v.
     and_then (HASH_ADD_HANDLE cs (description_handle r) v) (\<lambda>v.
     and_then (HASH_ADD_POD (bytes_of_u32 (region_type r)) v) (\<lambda>v.
     and_then (HASH_ADD_OPTIONAL cs (file_name_handle r) v) (\<lambda>v.
     and_then (HASH_ADD_POD (bytes_of_u32 (begin_line r)) v) (\<lambda>v.
     and_then (HASH_ADD_POD (bytes_of_u32 (end_line r)) v) (\<lambda>v.
       HASH_ADD_POD (bytes_of_u32 (paradigm_type r)) v)))))))"

definition hash_group :: "def_cells \<Rightarrow> group_def \<Rightarrow> u32 outcome" where
  "hash_group cs g =
     and_then (HASH_ADD_POD (bytes_of_u32 (group_type g)) 0) (\<lambda>v.
     and_then (HASH_ADD_HANDLE cs (group_name g) v) (\<lambda>v.
     and_then (HASH_ADD_POD (bytes_of_u64 (number_of_members g)) v) (\<lambda>v.
       HASH_ADD_ARRAY (take (unat (number_of_members g)) (members g)) v)))"

definition hash_parameter :: "def_cells \<Rightarrow> nat \<Rightarrow> u32 \<Rightarrow> u32 outcome" where
  "hash_parameter cs n t =
     and_then (HASH_ADD_HANDLE cs n 0) (\<lambda>v. HASH_ADD_POD (bytes_of_u32 t) v)"

definition initialize_attribute :: "def_cells \<Rightarrow> nat \<Rightarrow> nat \<Rightarrow> u32 \<Rightarrow> u32 outcome" where
  "initialize_attribute cs n d t =
     and_then (HASH_ADD_HANDLE cs n 0) (\<lambda>v.
     and_then (HASH_ADD_HANDLE cs d v) (\<lambda>v. HASH_ADD_POD (bytes_of_u32 t) v))"

definition initialize_source_code_location :: "def_cells \<Rightarrow> nat \<Rightarrow> u32 \<Rightarrow> u32 outcome" where
  "initialize_source_code_location cs f l =
     and_then (HASH_ADD_HANDLE cs f 0) (\<lambda>v. HASH_ADD_POD (bytes_of_u32 l) v)"

definition hash_system_tree_node :: "def_cells \<Rightarrow> system_tree_node_def \<Rightarrow> u32 outcome" where
  "hash_system_tree_node cs n =
     and_then (HASH_ADD_OPTIONAL cs (parent_handle n) 0) (\<lambda>v.
     and_then (HASH_ADD_POD (bytes_of_u32 (domains n)) v) (\<lambda>v.
     and_then (HASH_ADD_HANDLE cs (node_name_handle n) v) (\<lambda>v.
       HASH_ADD_HANDLE cs (class_handle n) v)))"

text \<open>The scope is hashed by its handle, not by the hash value of the node.\<close>

definition initialize_io_file :: "def_cells \<Rightarrow> nat \<Rightarrow> nat \<Rightarrow> u32 outcome" where
  "initialize_io_file cs n scope =
     and_then (HASH_ADD_HANDLE cs n 0) (\<lambda>v. HASH_ADD_POD (bytes_of_u32 (of_nat scope)) v)"

definition SCOREP_PARAMETER_STRING :: u32 where
  "SCOREP_PARAMETER_STRING = 2"

definition SCOREP_ParameterHandle_GetType :: "def_cells \<Rightarrow> nat \<Rightarrow> u32 outcome" where
  "SCOREP_ParameterHandle_GetType cs h =
     and_then (SCOREP_HANDLE_DEREF cs h) (\<lambda>c.
       case body c of Parameter_Def n t \<Rightarrow> Inr t | _ \<Rightarrow> Inl Bad_Access)"

definition string_handle :: "callpath_parameter \<Rightarrow> nat" where
  "string_handle p = unat (ucast (parameter_value p) :: u32)"

fun hash_parameters :: "def_cells \<Rightarrow> callpath_parameter list \<Rightarrow> u32 \<Rightarrow> u32 outcome" where
  "hash_parameters cs [] v = Inr v"
| "hash_parameters cs (p # ps) v =
     and_then (HASH_ADD_HANDLE cs (parameter_handle p) v) (\<lambda>v.
     and_then (SCOREP_ParameterHandle_GetType cs (parameter_handle p)) (\<lambda>t.
     and_then (if t = SCOREP_PARAMETER_STRING then HASH_ADD_HANDLE cs (string_handle p) v
               else HASH_ADD_POD (bytes_of_u64 (parameter_value p)) v) (\<lambda>v.
       hash_parameters cs ps v)))"

definition initialize_callpath :: "def_cells \<Rightarrow> callpath_def \<Rightarrow> u32 outcome" where
  "initialize_callpath cs c =
     and_then (HASH_ADD_OPTIONAL cs (parent_callpath_handle c) 0) (\<lambda>v.
     and_then (HASH_ADD_OPTIONAL cs (region_handle c) v) (\<lambda>v.
     and_then (HASH_ADD_POD (bytes_of_u32 (number_of_parameters c)) v) (\<lambda>v.
       hash_parameters cs (take (unat (number_of_parameters c)) (parameters c)) v)))"

fun body_hash :: "def_cells \<Rightarrow> def_body \<Rightarrow> u32 outcome" where
  "body_hash cs (String_Def l d) = Inr (hash_string l d)"
| "body_hash cs (Source_File_Def n) = hash_source_file cs n"
| "body_hash cs (Region_Def r) = initialize_region cs r"
| "body_hash cs (Group_Def g) = hash_group cs g"
| "body_hash cs (Parameter_Def n t) = hash_parameter cs n t"
| "body_hash cs (Attribute_Def n d t) = initialize_attribute cs n d t"
| "body_hash cs (Source_Code_Location_Def f l) = initialize_source_code_location cs f l"
| "body_hash cs (System_Tree_Node_Def n) = hash_system_tree_node cs n"
| "body_hash cs (Io_File_Def n s) = initialize_io_file cs n s"
| "body_hash cs (Callpath_Def c) = initialize_callpath cs c"

text \<open>The length of a string is kept in 32 bits; the invariant is about strings that fit.\<close>

fun body_ok :: "def_body \<Rightarrow> bool" where
  "body_ok (String_Def l d) \<longleftrightarrow> length d < 2 ^ 32 \<and> l = of_nat (length d)"
| "body_ok _ \<longleftrightarrow> True"

subsection \<open>The contract of the manager\<close>

text \<open>The part of a definition that identifies it.\<close>

fun def_key :: "def_body \<Rightarrow> def_body" where
  "def_key (String_Def l d) = String_Def l (take (unat l) d)"
| "def_key (Region_Def r) = Region_Def (r\<lparr>group_name_handle := 0\<rparr>)"
| "def_key (Group_Def g) = Group_Def (g\<lparr>members := take (unat (number_of_members g)) (members g)\<rparr>)"
| "def_key (System_Tree_Node_Def n) = System_Tree_Node_Def (n\<lparr>has_children := False\<rparr>)"
| "def_key (Callpath_Def c) =
     Callpath_Def (c\<lparr>parameters := take (unat (number_of_parameters c)) (parameters c)\<rparr>)"
| "def_key b = b"

lemma type_def_key [simp]: "type_of_body (def_key b) = type_of_body b"
  by (cases b) simp_all

lemma region_key:
  "r\<lparr>group_name_handle := 0\<rparr> = r'\<lparr>group_name_handle := 0\<rparr> \<longleftrightarrow> equal_region (Region_Def r) (Region_Def r')"
  by (cases r; cases r'; simp)

lemma group_key:
  fixes g g' :: group_def
  shows "g\<lparr>members := ms\<rparr> = g'\<lparr>members := ms'\<rparr> \<longleftrightarrow>
     group_type g = group_type g' \<and> group_name g = group_name g' \<and>
     number_of_members g = number_of_members g' \<and> ms = ms'"
  by (cases g; cases g'; simp)

lemma node_key:
  "n\<lparr>has_children := False\<rparr> = n'\<lparr>has_children := False\<rparr> \<longleftrightarrow>
     equal_system_tree_node (System_Tree_Node_Def n) (System_Tree_Node_Def n')"
  by (cases n; cases n'; auto)

lemma callpath_key:
  fixes c c' :: callpath_def
  shows "c\<lparr>parameters := ps\<rparr> = c'\<lparr>parameters := ps'\<rparr> \<longleftrightarrow>
     parent_callpath_handle c = parent_callpath_handle c' \<and> region_handle c = region_handle c' \<and>
     number_of_parameters c = number_of_parameters c' \<and> ps = ps'"
  by (cases c; cases c'; simp)

lemma equal_keys:
  "equal_string a b \<longleftrightarrow> type_of_body a = Def_String \<and> def_key a = def_key b"
  "equal_source_file a b \<longleftrightarrow> type_of_body a = Def_Source_File \<and> def_key a = def_key b"
  "equal_region a b \<longleftrightarrow> type_of_body a = Def_Region \<and> def_key a = def_key b"
  "equal_group a b \<longleftrightarrow> type_of_body a = Def_Group \<and> def_key a = def_key b"
  "equal_parameter a b \<longleftrightarrow> type_of_body a = Def_Parameter \<and> def_key a = def_key b"
  "equal_attribute a b \<longleftrightarrow> type_of_body a = Def_Attribute \<and> def_key a = def_key b"
  "equal_source_code_location a b \<longleftrightarrow> type_of_body a = Def_Source_Code_Location \<and> def_key a = def_key b"
  "equal_system_tree_node a b \<longleftrightarrow> type_of_body a = Def_System_Tree_Node \<and> def_key a = def_key b"
  "equal_io_file a b \<longleftrightarrow> type_of_body a = Def_Io_File \<and> def_key a = def_key b"
  "equal_callpath a b \<longleftrightarrow> type_of_body a = Def_Callpath \<and> def_key a = def_key b"
  by (cases a; simp; cases b; auto simp: region_key group_key node_key callpath_key)+

lemma equal_definition_key:
  "equal_definition ty a b \<Longrightarrow> type_of_body a = ty \<and> def_key a = def_key b"
  by (cases ty) (simp_all add: equal_keys)

lemma key_equal_definition:
  "type_of_body a = ty \<Longrightarrow> def_key a = def_key b \<Longrightarrow> equal_definition ty a b"
  by (cases a) (auto simp: equal_keys simp del: def_key.simps)

lemma body_hash_key: "body_hash cs (def_key b) = body_hash cs b"
  by (cases b) (simp_all add: hash_string_def initialize_region_def hash_group_def
      hash_system_tree_node_def initialize_callpath_def)

text \<open>A hash value only reads hash values and types of parameters, which do not change.\<close>

definition refines :: "'a outcome \<Rightarrow> 'a outcome \<Rightarrow> bool" where
  "refines m m' \<longleftrightarrow> (\<forall>v. m = Inr v \<longrightarrow> m' = Inr v)"

named_theorems refines_intros \<open>a computation on more definitions\<close>

lemma refines_refl [refines_intros]: "refines m m"
  by (simp add: refines_def)

lemma refines_and_then [refines_intros]:
  "refines m m' \<Longrightarrow> (\<And>a. refines (f a) (f' a)) \<Longrightarrow> refines (and_then m f) (and_then m' f')"
  by (auto simp: refines_def and_then_Inr_iff)

lemma refines_if [refines_intros]:
  "refines m m' \<Longrightarrow> refines n n' \<Longrightarrow> refines (if b then m else n) (if b then m' else n')"
  by simp

lemma deref_extend:
  assumes "cells_extend type_of_body equal_definition cs cs'" and "SCOREP_HANDLE_DEREF cs h = Inr c"
  shows "\<exists>c'. SCOREP_HANDLE_DEREF cs' h = Inr c' \<and> hash_value c' = hash_value c \<and>
    equal_definition (type_of_body (body c)) (body c) (body c')"
proof -
  have c: "h \<noteq> SCOREP_MOVABLE_NULL" "cs h = Some c"
    using assms(2) by (auto simp: SCOREP_HANDLE_DEREF_def split: if_splits option.splits)
  then obtain c' where "cs' h = Some c'" "hash_value c' = hash_value c"
    "equal_definition (type_of_body (body c)) (body c) (body c')"
    using assms(1) unfolding cells_extend_def by blast
  then show ?thesis using c(1) by (simp add: SCOREP_HANDLE_DEREF_def)
qed

lemma hash_add_extend [refines_intros]:
  assumes "cells_extend type_of_body equal_definition cs cs'"
  shows "refines (HASH_ADD_HANDLE cs h v) (HASH_ADD_HANDLE cs' h v)"
    "refines (HASH_ADD_OPTIONAL cs h v) (HASH_ADD_OPTIONAL cs' h v)"
    "refines (hash_source_file cs h) (hash_source_file cs' h)"
    "refines (SCOREP_ParameterHandle_GetType cs h) (SCOREP_ParameterHandle_GetType cs' h)"
proof -
  have deref: "\<exists>c'. SCOREP_HANDLE_DEREF cs' h = Inr c' \<and> hash_value c' = hash_value c \<and>
      type_of_body (body c') = type_of_body (body c) \<and> def_key (body c) = def_key (body c')"
    if "SCOREP_HANDLE_DEREF cs h = Inr c" for c
    using deref_extend [OF assms that] equal_definition_key by (metis type_def_key)
  show add: "refines (HASH_ADD_HANDLE cs h v) (HASH_ADD_HANDLE cs' h v)"
    using deref by (auto simp: refines_def HASH_ADD_HANDLE_def and_then_Inr_iff)
  show "refines (HASH_ADD_OPTIONAL cs h v) (HASH_ADD_OPTIONAL cs' h v)"
    using add by (auto simp: refines_def HASH_ADD_OPTIONAL_def)
  show "refines (hash_source_file cs h) (hash_source_file cs' h)"
    using deref by (auto simp: refines_def hash_source_file_def and_then_Inr_iff)
  show "refines (SCOREP_ParameterHandle_GetType cs h) (SCOREP_ParameterHandle_GetType cs' h)"
    unfolding refines_def
  proof (intro allI impI)
    fix w
    assume "SCOREP_ParameterHandle_GetType cs h = Inr w"
    then obtain c where c: "SCOREP_HANDLE_DEREF cs h = Inr c"
      "(case body c of Parameter_Def n t \<Rightarrow> Inr t | _ \<Rightarrow> Inl Bad_Access) = Inr w"
      by (auto simp: SCOREP_ParameterHandle_GetType_def and_then_Inr_iff)
    then obtain n where "body c = Parameter_Def n w" by (cases "body c") auto
    then obtain c' where "SCOREP_HANDLE_DEREF cs' h = Inr c'" "type_of_body (body c') = Def_Parameter"
      "def_key (body c') = Parameter_Def n w" using deref [OF c(1)] by auto
    then show "SCOREP_ParameterHandle_GetType cs' h = Inr w"
      by (cases "body c'") (auto simp: SCOREP_ParameterHandle_GetType_def)
  qed
qed

lemma hash_parameters_extend [refines_intros]:
  "cells_extend type_of_body equal_definition cs cs' \<Longrightarrow>
   refines (hash_parameters cs ps v) (hash_parameters cs' ps v)"
proof (induction ps arbitrary: v)
  case (Cons p ps)
  show ?case unfolding hash_parameters.simps by (intro refines_intros Cons)
qed (simp add: refines_intros)

lemma body_hash_extend:
  assumes ext: "cells_extend type_of_body equal_definition cs cs'" and "body_hash cs b = Inr v"
  shows "body_hash cs' b = Inr v"
proof -
  have "refines (body_hash cs b) (body_hash cs' b)"
    by (cases b) (simp_all only: body_hash.simps initialize_region_def hash_group_def hash_parameter_def
        initialize_attribute_def initialize_source_code_location_def hash_system_tree_node_def
        initialize_io_file_def initialize_callpath_def, (intro refines_intros ext)+)
  then show ?thesis using assms(2) by (simp add: refines_def)
qed

lemma equal_definition_props:
  "equal_definition (type_of_body b) b b"
  "equal_definition ty a b \<Longrightarrow> type_of_body a = ty \<and> type_of_body b = ty"
  "equal_definition ty a b \<Longrightarrow> equal_definition ty b a"
  "equal_definition ty a b \<Longrightarrow> equal_definition ty b c \<Longrightarrow> equal_definition ty a c"
  "equal_definition ty a b \<Longrightarrow> body_hash cs a = body_hash cs b"
proof -
  show "equal_definition (type_of_body b) b b" by (simp add: key_equal_definition)
  show kind: "type_of_body a = ty \<and> type_of_body b = ty" if "equal_definition ty a b" for a b
    using equal_definition_key [OF that] by (metis type_def_key)
  show "equal_definition ty b a" if "equal_definition ty a b"
    using kind [OF that] equal_definition_key [OF that] by (simp add: key_equal_definition)
  show "equal_definition ty a c" if "equal_definition ty a b" "equal_definition ty b c"
    using kind [OF that(1)] equal_definition_key [OF that(1)] equal_definition_key [OF that(2)]
    by (simp add: key_equal_definition)
  show "body_hash cs a = body_hash cs b" if "equal_definition ty a b"
    using equal_definition_key [OF that] body_hash_key by metis
qed

interpretation kinds: definition_kinds type_of_body equal_definition body_hash body_ok
  by unfold_locales
    (rule equal_definition_props body_hash_extend; assumption?; assumption)+

end
