(* ===== verification/Definitions.thy ===== *)
theory Definitions
  imports DefinitionKinds
begin

section \<open>Defining and unifying definitions\<close>

text \<open>
  The functions \<^verbatim>\<open>SCOREP_Definitions_New*\<close>, the accessors of the handles, and the unification of the
  definitions of a process (\<^verbatim>\<open>src/measurement/scorep_unify.c\<close>): every local definition is defined once more
  in the unified manager, which drops duplicates, and a mapping takes local to unified numbers.
  An argument that may be a null pointer is an option.
\<close>

subsection \<open>Sizes of the structures\<close>

definition sizeof_StringDef :: nat where "sizeof_StringDef = 24"
definition sizeof_SourceFileDef :: nat where "sizeof_SourceFileDef = 24"
definition sizeof_RegionDef :: nat where "sizeof_RegionDef = 56"
definition sizeof_GroupDef :: nat where "sizeof_GroupDef = 40"
definition sizeof_ParameterDef :: nat where "sizeof_ParameterDef = 28"
definition sizeof_AttributeDef :: nat where "sizeof_AttributeDef = 32"
definition sizeof_SourceCodeLocationDef :: nat where "sizeof_SourceCodeLocationDef = 28"
definition sizeof_SystemTreeNodeDef :: nat where "sizeof_SystemTreeNodeDef = 56"
definition sizeof_IoFileDef :: nat where "sizeof_IoFileDef = 40"
definition sizeof_CallpathDef :: nat where "sizeof_CallpathDef = 32"
definition sizeof_callpath_parameter :: nat where "sizeof_callpath_parameter = 16"

lemmas sizeofs = sizeof_StringDef_def sizeof_SourceFileDef_def sizeof_RegionDef_def sizeof_GroupDef_def
  sizeof_ParameterDef_def sizeof_AttributeDef_def sizeof_SourceCodeLocationDef_def
  sizeof_SystemTreeNodeDef_def sizeof_IoFileDef_def sizeof_CallpathDef_def sizeof_callpath_parameter_def

subsection \<open>Strings\<close>

text \<open>
  The generator writes a string of at most \<open>stringLength\<close> characters into the new definition; a longer
  one would leave it.
\<close>

definition scorep_definitions_new_string_generator ::
  "'m movable_memory \<Rightarrow> manager_id \<Rightarrow> nat \<Rightarrow> (nat \<Rightarrow> string outcome) \<Rightarrow> 'm defs \<Rightarrow> (nat \<times> 'm defs) outcome"
where
  "scorep_definitions_new_string_generator mem mid stringLength generator s =
     and_then (generator stringLength) (\<lambda>d.
       if length d > stringLength then Inl Bad_Access
       else let l = of_nat (length d)
            in define_definition mem equal_string Def_String (sizeof_StringDef + (stringLength + 1))
                 (\<lambda>_. Inr (hash_string l d)) True mid (String_Def l d) s)"

definition generator_memcpy :: "string \<Rightarrow> nat \<Rightarrow> string outcome" where
  "generator_memcpy str stringLength = Inr str"

definition scorep_definitions_new_string ::
  "'m movable_memory \<Rightarrow> manager_id \<Rightarrow> string \<Rightarrow> 'm defs \<Rightarrow> (nat \<times> 'm defs) outcome" where
  "scorep_definitions_new_string mem mid str s =
     scorep_definitions_new_string_generator mem mid (length str) (generator_memcpy str) s"

text \<open>The text a format and its arguments make is given; \<^verbatim>\<open>vsnprintf\<close> cuts it to the size of the buffer.\<close>

definition generator_vsnprintf :: "string \<Rightarrow> nat \<Rightarrow> string outcome" where
  "generator_vsnprintf formatted stringLength = Inr (take stringLength formatted)"

definition scorep_definitions_new_string_va ::
  "'m movable_memory \<Rightarrow> manager_id \<Rightarrow> nat \<Rightarrow> string \<Rightarrow> 'm defs \<Rightarrow> (nat \<times> 'm defs) outcome" where
  "scorep_definitions_new_string_va mem mid stringLength formatted s =
     scorep_definitions_new_string_generator mem mid stringLength (generator_vsnprintf formatted) s"

definition SCOREP_Definitions_NewString ::
  "'m movable_memory \<Rightarrow> string option \<Rightarrow> 'm defs \<Rightarrow> (nat \<times> 'm defs) outcome" where
  "SCOREP_Definitions_NewString mem str s =
     (case str of None \<Rightarrow> Inl Abort
      | Some str \<Rightarrow> scorep_definitions_new_string mem Local_Manager str s)"

definition SCOREP_Definitions_NewStringGenerator ::
  "'m movable_memory \<Rightarrow> nat \<Rightarrow> (nat \<Rightarrow> string outcome) \<Rightarrow> 'm defs \<Rightarrow> (nat \<times> 'm defs) outcome" where
  "SCOREP_Definitions_NewStringGenerator mem stringLength generator s =
     scorep_definitions_new_string_generator mem Local_Manager stringLength generator s"

definition SCOREP_StringHandle_Get :: "def_cells \<Rightarrow> nat \<Rightarrow> string outcome" where
  "SCOREP_StringHandle_Get cs h =
     and_then (SCOREP_HANDLE_DEREF cs h) (\<lambda>c.
       case body c of String_Def l d \<Rightarrow> Inr d | _ \<Rightarrow> Inl Bad_Access)"

fun find_string_by_id :: "def_cells \<Rightarrow> u32 \<Rightarrow> nat list \<Rightarrow> string option outcome" where
  "find_string_by_id cs i [] = Inr None"
| "find_string_by_id cs i (h # hs) =
     and_then (SCOREP_HANDLE_DEREF cs h) (\<lambda>c.
       if i = sequence_number c then and_then (SCOREP_StringHandle_Get cs h) (\<lambda>d. Inr (Some d))
       else find_string_by_id cs i hs)"

definition SCOREP_StringHandle_GetById :: "'m defs \<Rightarrow> u32 \<Rightarrow> string option outcome" where
  "SCOREP_StringHandle_GetById s i =
     find_string_by_id (cells s) i (chain (local_definition_manager s Def_String))"

text \<open>The program starts with the empty string as number 0.\<close>

definition SCOREP_Definitions_Initialize :: "'m movable_memory \<Rightarrow> 'm defs \<Rightarrow> 'm defs outcome" where
  "SCOREP_Definitions_Initialize mem s =
     (if definitions_initialized s then Inr s
      else and_then (SCOREP_Definitions_InitializeDefinitionManager False) (\<lambda>m.
             and_then (SCOREP_Definitions_NewString mem (Some '''')
                         (s\<lparr>definitions_initialized := True, local_definition_manager := m\<rparr>))
               (\<lambda>(h, s'). Inr s')))"

subsection \<open>Source files and source code locations\<close>

definition define_source_file ::
  "'m movable_memory \<Rightarrow> manager_id \<Rightarrow> nat \<Rightarrow> 'm defs \<Rightarrow> (nat \<times> 'm defs) outcome" where
  "define_source_file mem mid fileNameHandle =
     define_definition mem equal_source_file Def_Source_File sizeof_SourceFileDef
       (\<lambda>cs. hash_source_file cs fileNameHandle) True mid (Source_File_Def fileNameHandle)"

definition simplify_path :: "string \<Rightarrow> nat \<Rightarrow> string outcome" where
  "simplify_path str strLen = simplified str"

definition SCOREP_Definitions_NewSourceFile ::
  "'m movable_memory \<Rightarrow> string option \<Rightarrow> 'm defs \<Rightarrow> (nat \<times> 'm defs) outcome" where
  "SCOREP_Definitions_NewSourceFile mem fileName s =
     (let name = (case fileName of None \<Rightarrow> ''<unknown source file>'' | Some n \<Rightarrow> n)
      in and_then (scorep_definitions_new_string_generator mem Local_Manager (length name)
                     (simplify_path name) s) (\<lambda>(h, s).
           define_source_file mem Local_Manager h s))"

definition define_source_code_location ::
  "'m movable_memory \<Rightarrow> manager_id \<Rightarrow> nat \<Rightarrow> u32 \<Rightarrow> 'm defs \<Rightarrow> (nat \<times> 'm defs) outcome" where
  "define_source_code_location mem mid fileHandle lineNumber =
     define_definition mem equal_source_code_location Def_Source_Code_Location
       sizeof_SourceCodeLocationDef (\<lambda>cs. initialize_source_code_location cs fileHandle lineNumber)
       True mid (Source_Code_Location_Def fileHandle lineNumber)"

definition SCOREP_Definitions_NewSourceCodeLocation ::
  "'m movable_memory \<Rightarrow> string option \<Rightarrow> u32 \<Rightarrow> 'm defs \<Rightarrow> (nat \<times> 'm defs) outcome" where
  "SCOREP_Definitions_NewSourceCodeLocation mem fl lineNumber s =
     (let name = (case fl of None \<Rightarrow> '''' | Some n \<Rightarrow> n)
      in and_then (scorep_definitions_new_string_generator mem Local_Manager (length name)
                     (simplify_path name) s) (\<lambda>(h, s).
           define_source_code_location mem Local_Manager h lineNumber s))"

definition SCOREP_SourceFileHandle_GetName :: "def_cells \<Rightarrow> nat \<Rightarrow> string outcome" where
  "SCOREP_SourceFileHandle_GetName cs h =
     and_then (SCOREP_HANDLE_DEREF cs h) (\<lambda>c.
       case body c of Source_File_Def n \<Rightarrow> SCOREP_StringHandle_Get cs n | _ \<Rightarrow> Inl Bad_Access)"

subsection \<open>Regions\<close>

definition define_region ::
  "'m movable_memory \<Rightarrow> manager_id \<Rightarrow> region_def \<Rightarrow> 'm defs \<Rightarrow> (nat \<times> 'm defs) outcome" where
  "define_region mem mid r =
     define_definition mem equal_region Def_Region sizeof_RegionDef (\<lambda>cs. initialize_region cs r)
       True mid (Region_Def r)"

definition file_name_of :: "def_cells \<Rightarrow> nat \<Rightarrow> nat outcome" where
  "file_name_of cs fileHandle =
     (if fileHandle = SCOREP_MOVABLE_NULL then Inr SCOREP_MOVABLE_NULL
      else and_then (SCOREP_HANDLE_DEREF cs fileHandle) (\<lambda>c.
             case body c of Source_File_Def n \<Rightarrow> Inr n | _ \<Rightarrow> Inl Bad_Access))"

definition SCOREP_Definitions_NewRegion ::
  "'m movable_memory \<Rightarrow> string option \<Rightarrow> string option \<Rightarrow> nat \<Rightarrow> u32 \<Rightarrow> u32 \<Rightarrow> u32 \<Rightarrow> u32 \<Rightarrow> 'm defs
   \<Rightarrow> (nat \<times> 'm defs) outcome" where
  "SCOREP_Definitions_NewRegion mem regionName regionCanonicalName fileHandle beginLine endLine
       paradigm regionType s =
     and_then (file_name_of (cells s) fileHandle) (\<lambda>file_name.
     and_then (scorep_definitions_new_string mem Local_Manager
                 (case regionName of None \<Rightarrow> ''<unknown region>'' | Some n \<Rightarrow> n) s) (\<lambda>(name, s).
     and_then (scorep_definitions_new_string mem Local_Manager
                 (case regionCanonicalName of
                    Some n \<Rightarrow> n
                  | None \<Rightarrow> case regionName of None \<Rightarrow> ''<unknown region>'' | Some n \<Rightarrow> n) s) (\<lambda>(canonical, s).
     and_then (scorep_definitions_new_string mem Local_Manager '''' s) (\<lambda>(description, s).
       define_region mem Local_Manager
         \<lparr>name_handle = name, canonical_name_handle = canonical, description_handle = description,
          region_type = regionType, file_name_handle = file_name, begin_line = beginLine,
          end_line = endLine, paradigm_type = paradigm, group_name_handle = SCOREP_MOVABLE_NULL\<rparr> s))))"

definition get_region :: "def_cells \<Rightarrow> nat \<Rightarrow> region_def outcome" where
  "get_region cs h =
     and_then (SCOREP_HANDLE_DEREF cs h) (\<lambda>c. case body c of Region_Def r \<Rightarrow> Inr r | _ \<Rightarrow> Inl Bad_Access)"

definition set_cell :: "'m defs \<Rightarrow> nat \<Rightarrow> (def_body def_cell \<Rightarrow> def_body def_cell) \<Rightarrow> 'm defs outcome" where
  "set_cell s h f =
     and_then (SCOREP_HANDLE_DEREF (cells s) h) (\<lambda>c. Inr (s\<lparr>cells := (cells s)(h \<mapsto> f c)\<rparr>))"

definition SCOREP_RegionHandle_SetGroup ::
  "'m movable_memory \<Rightarrow> nat \<Rightarrow> string \<Rightarrow> 'm defs \<Rightarrow> 'm defs outcome" where
  "SCOREP_RegionHandle_SetGroup mem h groupName s =
     and_then (get_region (cells s) h) (\<lambda>r.
     and_then (scorep_definitions_new_string mem Local_Manager groupName s) (\<lambda>(g, s).
       set_cell s h (\<lambda>c. c\<lparr>body := Region_Def (r\<lparr>group_name_handle := g\<rparr>)\<rparr>)))"

definition SCOREP_RegionHandle_GetName :: "def_cells \<Rightarrow> nat \<Rightarrow> string outcome" where
  "SCOREP_RegionHandle_GetName cs h =
     and_then (get_region cs h) (\<lambda>r. SCOREP_StringHandle_Get cs (name_handle r))"

definition SCOREP_RegionHandle_GetCanonicalName :: "def_cells \<Rightarrow> nat \<Rightarrow> string outcome" where
  "SCOREP_RegionHandle_GetCanonicalName cs h =
     and_then (get_region cs h) (\<lambda>r. SCOREP_StringHandle_Get cs (canonical_name_handle r))"

definition SCOREP_RegionHandle_GetFileName :: "def_cells \<Rightarrow> nat \<Rightarrow> string option outcome" where
  "SCOREP_RegionHandle_GetFileName cs h =
     and_then (get_region cs h) (\<lambda>r.
       if file_name_handle r = SCOREP_MOVABLE_NULL then Inr None
       else and_then (SCOREP_StringHandle_Get cs (file_name_handle r)) (\<lambda>d. Inr (Some d)))"

definition SCOREP_RegionHandle_GetType :: "def_cells \<Rightarrow> nat \<Rightarrow> u32 outcome" where
  "SCOREP_RegionHandle_GetType cs h = and_then (get_region cs h) (\<lambda>r. Inr (region_type r))"

definition SCOREP_RegionHandle_GetParadigmType :: "def_cells \<Rightarrow> nat \<Rightarrow> u32 outcome" where
  "SCOREP_RegionHandle_GetParadigmType cs h = and_then (get_region cs h) (\<lambda>r. Inr (paradigm_type r))"

definition SCOREP_RegionHandle_GetBeginLine :: "def_cells \<Rightarrow> nat \<Rightarrow> u32 outcome" where
  "SCOREP_RegionHandle_GetBeginLine cs h = and_then (get_region cs h) (\<lambda>r. Inr (begin_line r))"

definition SCOREP_RegionHandle_GetEndLine :: "def_cells \<Rightarrow> nat \<Rightarrow> u32 outcome" where
  "SCOREP_RegionHandle_GetEndLine cs h = and_then (get_region cs h) (\<lambda>r. Inr (end_line r))"

subsection \<open>Groups\<close>

text \<open>The members come as an array of 64-bit or of 32-bit numbers; the latter are read as \<^verbatim>\<open>int32_t\<close>.\<close>

datatype member_array = Members_64 "u64 list" | Members_32 "u32 list"

fun copy_members :: "bool \<Rightarrow> member_array \<Rightarrow> nat \<Rightarrow> u64 list outcome" where
  "copy_members True (Members_32 xs) n = (if n \<le> length xs then Inr (map scast (take n xs)) else Inl Bad_Access)"
| "copy_members False (Members_64 xs) n = (if n \<le> length xs then Inr (take n xs) else Inl Bad_Access)"
| "copy_members _ _ n = Inl Bad_Access"

definition define_group ::
  "'m movable_memory \<Rightarrow> manager_id \<Rightarrow> u32 \<Rightarrow> u64 \<Rightarrow> member_array \<Rightarrow> nat \<Rightarrow> bool \<Rightarrow> 'm defs
   \<Rightarrow> (nat \<times> 'm defs) outcome" where
  "define_group mem mid groupType numberOfMembers ms groupNameHandle convertFromUint32 s =
     and_then (copy_members convertFromUint32 ms (unat numberOfMembers)) (\<lambda>ms.
       let g = \<lparr>group_type = groupType, group_name = groupNameHandle,
                number_of_members = numberOfMembers, members = ms\<rparr>
       in define_definition mem equal_group Def_Group (sizeof_GroupDef + unat numberOfMembers * 8)
            (\<lambda>cs. hash_group cs g) True mid (Group_Def g) s)"

definition SCOREP_Definitions_NewGroup ::
  "'m movable_memory \<Rightarrow> u32 \<Rightarrow> string option \<Rightarrow> u32 \<Rightarrow> u64 list \<Rightarrow> 'm defs \<Rightarrow> (nat \<times> 'm defs) outcome" where
  "SCOREP_Definitions_NewGroup mem type name numberOfMembers ms s =
     and_then (scorep_definitions_new_string mem Local_Manager (case name of None \<Rightarrow> '''' | Some n \<Rightarrow> n) s)
       (\<lambda>(h, s). define_group mem Local_Manager type (ucast numberOfMembers) (Members_64 ms) h False s)"

definition SCOREP_Definitions_NewGroupFrom32 ::
  "'m movable_memory \<Rightarrow> u32 \<Rightarrow> string option \<Rightarrow> u32 \<Rightarrow> u32 list \<Rightarrow> 'm defs \<Rightarrow> (nat \<times> 'm defs) outcome" where
  "SCOREP_Definitions_NewGroupFrom32 mem type name numberOfMembers ms s =
     and_then (scorep_definitions_new_string mem Local_Manager (case name of None \<Rightarrow> '''' | Some n \<Rightarrow> n) s)
       (\<lambda>(h, s). define_group mem Local_Manager type (ucast numberOfMembers) (Members_32 ms) h True s)"

definition SCOREP_Definitions_NewUnifiedGroup ::
  "'m movable_memory \<Rightarrow> u32 \<Rightarrow> string option \<Rightarrow> u32 \<Rightarrow> u64 list \<Rightarrow> 'm defs \<Rightarrow> (nat \<times> 'm defs) outcome" where
  "SCOREP_Definitions_NewUnifiedGroup mem type name numberOfMembers ms s =
     assert_that (unified_definition_manager s \<noteq> None) (
     case name of None \<Rightarrow> Inl Abort | Some name \<Rightarrow>
       and_then (scorep_definitions_new_string mem Unified_Manager name s)
         (\<lambda>(h, s). define_group mem Unified_Manager type (ucast numberOfMembers) (Members_64 ms) h False s))"

definition SCOREP_Definitions_NewUnifiedGroupFrom32 ::
  "'m movable_memory \<Rightarrow> u32 \<Rightarrow> string option \<Rightarrow> u32 \<Rightarrow> u32 list \<Rightarrow> 'm defs \<Rightarrow> (nat \<times> 'm defs) outcome" where
  "SCOREP_Definitions_NewUnifiedGroupFrom32 mem type name numberOfMembers ms s =
     assert_that (unified_definition_manager s \<noteq> None) (
       and_then (scorep_definitions_new_string mem Unified_Manager (case name of None \<Rightarrow> '''' | Some n \<Rightarrow> n) s)
         (\<lambda>(h, s). define_group mem Unified_Manager type (ucast numberOfMembers) (Members_32 ms) h True s))"

subsection \<open>Parameters, attributes, system tree nodes, I/O files and callpaths\<close>

definition define_parameter ::
  "'m movable_memory \<Rightarrow> manager_id \<Rightarrow> nat \<Rightarrow> u32 \<Rightarrow> 'm defs \<Rightarrow> (nat \<times> 'm defs) outcome" where
  "define_parameter mem mid nameHandle type =
     define_definition mem equal_parameter Def_Parameter sizeof_ParameterDef
       (\<lambda>cs. hash_parameter cs nameHandle type) True mid (Parameter_Def nameHandle type)"

definition SCOREP_Definitions_NewParameter ::
  "'m movable_memory \<Rightarrow> string option \<Rightarrow> u32 \<Rightarrow> 'm defs \<Rightarrow> (nat \<times> 'm defs) outcome" where
  "SCOREP_Definitions_NewParameter mem name type s =
     and_then (scorep_definitions_new_string mem Local_Manager
                 (case name of None \<Rightarrow> ''<unknown parameter>'' | Some n \<Rightarrow> n) s)
       (\<lambda>(h, s). define_parameter mem Local_Manager h type s)"

definition SCOREP_ParameterHandle_GetName :: "def_cells \<Rightarrow> nat \<Rightarrow> string outcome" where
  "SCOREP_ParameterHandle_GetName cs h =
     and_then (SCOREP_HANDLE_DEREF cs h) (\<lambda>c.
       case body c of Parameter_Def n t \<Rightarrow> SCOREP_StringHandle_Get cs n | _ \<Rightarrow> Inl Bad_Access)"

text \<open>The substrates are not told about attributes.\<close>

definition define_attribute ::
  "'m movable_memory \<Rightarrow> manager_id \<Rightarrow> nat \<Rightarrow> nat \<Rightarrow> u32 \<Rightarrow> 'm defs \<Rightarrow> (nat \<times> 'm defs) outcome" where
  "define_attribute mem mid nameHandle descriptionHandle type =
     define_definition mem equal_attribute Def_Attribute sizeof_AttributeDef
       (\<lambda>cs. initialize_attribute cs nameHandle descriptionHandle type) False mid
       (Attribute_Def nameHandle descriptionHandle type)"

definition SCOREP_Definitions_NewAttribute ::
  "'m movable_memory \<Rightarrow> string option \<Rightarrow> string option \<Rightarrow> u32 \<Rightarrow> 'm defs \<Rightarrow> (nat \<times> 'm defs) outcome" where
  "SCOREP_Definitions_NewAttribute mem name description type s =
     and_then (scorep_definitions_new_string mem Local_Manager
                 (case name of None \<Rightarrow> ''<unknown attribute>'' | Some n \<Rightarrow> n) s) (\<lambda>(n, s).
     and_then (scorep_definitions_new_string mem Local_Manager
                 (case description of None \<Rightarrow> '''' | Some d \<Rightarrow> d) s) (\<lambda>(d, s).
       define_attribute mem Local_Manager n d type s))"

definition SCOREP_AttributeHandle_GetType :: "def_cells \<Rightarrow> nat \<Rightarrow> u32 outcome" where
  "SCOREP_AttributeHandle_GetType cs h =
     and_then (SCOREP_HANDLE_DEREF cs h) (\<lambda>c.
       case body c of Attribute_Def n d t \<Rightarrow> Inr t | _ \<Rightarrow> Inl Bad_Access)"

definition define_system_tree_node ::
  "'m movable_memory \<Rightarrow> manager_id \<Rightarrow> nat \<Rightarrow> u32 \<Rightarrow> nat \<Rightarrow> nat \<Rightarrow> 'm defs \<Rightarrow> (nat \<times> 'm defs) outcome" where
  "define_system_tree_node mem mid parent doms name cls =
     (let n = \<lparr>parent_handle = parent, domains = doms, node_name_handle = name, class_handle = cls,
               has_children = False\<rparr>
      in define_definition mem equal_system_tree_node Def_System_Tree_Node sizeof_SystemTreeNodeDef
           (\<lambda>cs. hash_system_tree_node cs n) True mid (System_Tree_Node_Def n))"

definition SCOREP_Definitions_NewSystemTreeNode ::
  "'m movable_memory \<Rightarrow> nat \<Rightarrow> u32 \<Rightarrow> string option \<Rightarrow> string option \<Rightarrow> 'm defs \<Rightarrow> (nat \<times> 'm defs) outcome"
where
  "SCOREP_Definitions_NewSystemTreeNode mem parent doms cls name s =
     and_then (scorep_definitions_new_string mem Local_Manager
                 (case name of None \<Rightarrow> ''<unnamed system tree node>'' | Some n \<Rightarrow> n) s) (\<lambda>(n, s).
     and_then (scorep_definitions_new_string mem Local_Manager
                 (case cls of None \<Rightarrow> ''<unnamed system tree class>'' | Some c \<Rightarrow> c) s) (\<lambda>(c, s).
       define_system_tree_node mem Local_Manager parent doms n c s))"

definition define_io_file ::
  "'m movable_memory \<Rightarrow> manager_id \<Rightarrow> nat \<Rightarrow> nat \<Rightarrow> 'm defs \<Rightarrow> (nat \<times> 'm defs) outcome" where
  "define_io_file mem mid nameHandle scope =
     define_definition mem equal_io_file Def_Io_File sizeof_IoFileDef
       (\<lambda>cs. initialize_io_file cs nameHandle scope) False mid (Io_File_Def nameHandle scope)"

text \<open>The substrates are told about the handle whether it is new or not.\<close>

definition SCOREP_Definitions_NewIoFile ::
  "'m movable_memory \<Rightarrow> string option \<Rightarrow> nat \<Rightarrow> 'm defs \<Rightarrow> (nat \<times> 'm defs) outcome" where
  "SCOREP_Definitions_NewIoFile mem fileName scope s =
     and_then (scorep_definitions_new_string mem Local_Manager
                 (case fileName of None \<Rightarrow> ''<unknown file>'' | Some n \<Rightarrow> n) s) (\<lambda>(n, s).
     and_then (define_io_file mem Local_Manager n scope s) (\<lambda>(h, s).
       Inr (h, s\<lparr>new_handles := new_handles s @ [(h, Def_Io_File)]\<rparr>)))"

definition SCOREP_IoFileHandle_GetFileName :: "def_cells \<Rightarrow> nat \<Rightarrow> string outcome" where
  "SCOREP_IoFileHandle_GetFileName cs h =
     and_then (SCOREP_HANDLE_DEREF cs h) (\<lambda>c.
       case body c of Io_File_Def n sc \<Rightarrow> SCOREP_StringHandle_Get cs n | _ \<Rightarrow> Inl Bad_Access)"

definition define_callpath ::
  "'m movable_memory \<Rightarrow> manager_id \<Rightarrow> nat \<Rightarrow> nat \<Rightarrow> u32 \<Rightarrow> callpath_parameter list \<Rightarrow> 'm defs
   \<Rightarrow> (nat \<times> 'm defs) outcome" where
  "define_callpath mem mid parent region numberOfParameters ps s =
     (if unat numberOfParameters > length ps then Inl Bad_Access
      else let c = \<lparr>parent_callpath_handle = parent, region_handle = region,
                    number_of_parameters = numberOfParameters,
                    parameters = take (unat numberOfParameters) ps\<rparr>
           in define_definition mem equal_callpath Def_Callpath
                (sizeof_CallpathDef + unat numberOfParameters * sizeof_callpath_parameter)
                (\<lambda>cs. initialize_callpath cs c) False mid (Callpath_Def c) s)"

definition SCOREP_Definitions_NewCallpath ::
  "'m movable_memory \<Rightarrow> nat \<Rightarrow> nat \<Rightarrow> u32 \<Rightarrow> callpath_parameter list \<Rightarrow> 'm defs \<Rightarrow> (nat \<times> 'm defs) outcome" where
  "SCOREP_Definitions_NewCallpath mem parentCallpath region numberOfParameters ps =
     define_callpath mem Local_Manager parentCallpath region numberOfParameters ps"

subsection \<open>The contract on the kinds of the program\<close>

definition defs_inv :: "('m \<Rightarrow> nat set \<Rightarrow> bool) \<Rightarrow> 'm defs \<Rightarrow> bool" where
  "defs_inv holds = definitions_inv holds type_of_body equal_definition body_hash body_ok"

text \<open>The text behind a handle, and the strings of a manager in the order of their numbers.\<close>

definition text_of :: "def_cells \<Rightarrow> nat \<Rightarrow> string" where
  "text_of cs h = (case cs h of Some c \<Rightarrow> (case body c of String_Def l d \<Rightarrow> d | _ \<Rightarrow> '''') | None \<Rightarrow> '''')"

definition strings_of :: "def_cells \<Rightarrow> definition_manager \<Rightarrow> string list" where
  "strings_of cs m = map (text_of cs) (chain (m Def_String))"

text \<open>The abstract table of strings: a list without duplicates; a string is known by its position.\<close>

fun position :: "'a \<Rightarrow> 'a list \<Rightarrow> nat" where
  "position x [] = 0"
| "position x (y # ys) = (if x = y then 0 else Suc (position x ys))"

definition intern :: "string list \<Rightarrow> string \<Rightarrow> string list" where
  "intern ss x = (if x \<in> set ss then ss else ss @ [x])"

lemma position_nth: "distinct xs \<Longrightarrow> i < length xs \<Longrightarrow> position (xs ! i) xs = i"
  by (induction xs arbitrary: i) (auto simp: nth_Cons split: nat.splits)

lemma text_of_update [simp]:
  "text_of (cs(h \<mapsto> c)) h = (case body c of String_Def l d \<Rightarrow> d | _ \<Rightarrow> '''')"
  "h' \<noteq> h \<Longrightarrow> text_of (cs(h \<mapsto> c)) h' = text_of cs h'"
  by (simp_all add: text_of_def)

text \<open>The names of a region after the defaults for missing ones.\<close>

definition region_name :: "string option \<Rightarrow> string" where
  "region_name n = (case n of None \<Rightarrow> ''<unknown region>'' | Some n \<Rightarrow> n)"

definition region_canonical_name :: "string option \<Rightarrow> string option \<Rightarrow> string" where
  "region_canonical_name n c = (case c of Some c \<Rightarrow> c | None \<Rightarrow> region_name n)"

text \<open>A local region with its texts.\<close>

definition is_region :: "'m defs \<Rightarrow> nat \<Rightarrow> region_def \<Rightarrow> string \<Rightarrow> string \<Rightarrow> bool" where
  "is_region s h r name canonical \<longleftrightarrow>
     h \<in> set (chain (local_definition_manager s Def_Region)) \<and>
     (\<exists>c. cells s h = Some c \<and> body c = Region_Def r) \<and>
     {name_handle r, canonical_name_handle r, description_handle r} \<subseteq> set (chain (local_definition_manager s Def_String)) \<and>
     text_of (cells s) (name_handle r) = name \<and> text_of (cells s) (canonical_name_handle r) = canonical \<and>
     text_of (cells s) (description_handle r) = []"

text \<open>A sequence of calls.\<close>

fun new_strings :: "'m movable_memory \<Rightarrow> string list \<Rightarrow> 'm defs \<Rightarrow> (nat list \<times> 'm defs) outcome" where
  "new_strings mem [] s = Inr ([], s)"
| "new_strings mem (x # xs) s =
     and_then (SCOREP_Definitions_NewString mem (Some x) s) (\<lambda>(h, s).
     and_then (new_strings mem xs s) (\<lambda>(hs, s). Inr (h # hs, s)))"

locale program_definitions =
  definition_manager_laws mem holds type_of_body equal_definition body_hash body_ok
  for mem :: "'m movable_memory" and holds :: "'m \<Rightarrow> nat set \<Rightarrow> bool"
begin

lemma string_cell:
  assumes "inv s" and "get_manager s mid = Inr m" and "h \<in> set (chain (m Def_String))"
  obtains c where "cells s h = Some c" "body c = String_Def (of_nat (length (text_of (cells s) h))) (text_of (cells s) h)"
    "length (text_of (cells s) h) < 2 ^ 32"
proof -
  obtain c where c: "cells s h = Some c" "type_of_body (body c) = Def_String"
    using entry_inv_cell [OF invD(5) [OF assms(1,2)] assms(3)] .
  obtain l d where d: "body c = String_Def l d" using c(2) by (cases "body c") auto
  then show ?thesis using that [OF c(1)] invD(4) [OF assms(1) c(1)] c(1) by (simp add: text_of_def)
qed

lemma string_unique:
  assumes inv: "inv s" and mgr: "get_manager s mid = Inr m" "hashed m Def_String"
    and h: "h \<in> set (chain (m Def_String))" "h' \<in> set (chain (m Def_String))"
    and same: "text_of (cells s) h = text_of (cells s) h'"
  shows "h = h'"
proof -
  obtain c where c: "cells s h = Some c"
    "body c = String_Def (of_nat (length (text_of (cells s) h))) (text_of (cells s) h)"
    by (rule string_cell [OF inv mgr(1) h(1)])
  obtain c' where c': "cells s h' = Some c'"
    "body c' = String_Def (of_nat (length (text_of (cells s) h'))) (text_of (cells s) h')"
    by (rule string_cell [OF inv mgr(1) h(2)])
  obtain bs where "hash_table (m Def_String) = Some bs" using mgr(2) by (auto simp: hashed_def)
  from entry_invD(4) [OF invD(5) [OF inv mgr(1)] this] table_invD(4) [OF _ h c(1) c'(1)]
  show ?thesis using c(2) c'(2) same by simp
qed

lemma strings_distinct:
  assumes "inv s" and "get_manager s mid = Inr m" and "hashed m Def_String"
  shows "distinct (strings_of (cells s) m)"
  using entry_invD(1) [OF invD(5) [OF assms(1,2)], of Def_String] string_unique [OF assms]
  by (auto simp: strings_of_def distinct_map inj_on_def)

lemma string_number:
  assumes "inv s" and "get_manager s mid = Inr m" and "hashed m Def_String"
    and h: "h \<in> set (chain (m Def_String))"
  shows "SCOREP_HANDLE_TO_ID (cells s) h = Inr (of_nat (position (text_of (cells s) h) (strings_of (cells s) m)))"
    "SCOREP_StringHandle_Get (cells s) h = Inr (text_of (cells s) h)"
proof -
  obtain i where i: "i < length (chain (m Def_String))" "chain (m Def_String) ! i = h"
    using h by (auto simp: in_set_conv_nth)
  then obtain c where c: "cells s h = Some c" "sequence_number c = of_nat i" "type_of_body (body c) = Def_String"
    using entry_invD(3) [OF invD(5) [OF assms(1,2)]] by blast
  have "position (text_of (cells s) h) (strings_of (cells s) m) = i"
    using position_nth [OF strings_distinct [OF assms(1-3)], of i] i by (simp add: strings_of_def)
  then show "SCOREP_HANDLE_TO_ID (cells s) h = Inr (of_nat (position (text_of (cells s) h) (strings_of (cells s) m)))"
    using inv_deref [OF assms(1) c(1)] c(2) by (simp add: SCOREP_HANDLE_TO_ID_def)
  show "SCOREP_StringHandle_Get (cells s) h = Inr (text_of (cells s) h)"
    using inv_deref [OF assms(1) c(1)] c(1,3)
    by (cases "body c") (auto simp: SCOREP_StringHandle_Get_def text_of_def)
qed

text \<open>Defining a string.\<close>

lemma new_string_step:
  assumes inv: "inv s" and mgr: "get_manager s mid = Inr m" "hashed m Def_String"
    and str: "length str < 2 ^ 32"
  shows "scorep_definitions_new_string mem mid str s = Inl Out_Of_Memory \<or>
    (\<exists>h s' m'. scorep_definitions_new_string mem mid str s = Inr (h, s') \<and> inv s' \<and>
       get_manager s' mid = Inr m' \<and> (\<forall>ty. hashed m' ty = hashed m ty) \<and>
       h \<in> set (chain (m' Def_String)) \<and> text_of (cells s') h = str \<and> map_le (cells s) (cells s') \<and>
       strings_of (cells s') m' = intern (strings_of (cells s) m) str \<and>
       (\<forall>ty. ty \<noteq> Def_String \<longrightarrow> m' ty = m ty) \<and> (\<exists>hs. chain (m' Def_String) = chain (m Def_String) @ hs) \<and>
       (\<forall>mid'. mid' \<noteq> mid \<longrightarrow> get_manager s' mid' = get_manager s mid'))"
proof -
  let ?l = "of_nat (length str) :: u32"
  let ?b = "String_Def ?l str"
  let ?run = "define_definition mem (equal_definition Def_String) Def_String
      (sizeof_StringDef + (length str + 1)) (\<lambda>_. Inr (hash_string ?l str)) True mid ?b s"
  have run: "scorep_definitions_new_string mem mid str s = ?run"
    by (simp add: scorep_definitions_new_string_def scorep_definitions_new_string_generator_def
        generator_memcpy_def Let_def)
  have l: "unat ?l = length str" using str by (simp add: unsigned_of_nat take_bit_nat_eq_self)
  have key: "equal_definition Def_String (body c) ?b \<longleftrightarrow> text_of (cells t) g = str"
    if t: "inv t" "get_manager t mid = Inr n" "g \<in> set (chain (n Def_String))" "cells t g = Some c" for t g c n
  proof -
    let ?text = "text_of (cells t) g"
    obtain c' where "cells t g = Some c'" "body c' = String_Def (of_nat (length ?text)) ?text"
      and len: "length ?text < 2 ^ 32" by (rule string_cell [OF t(1-3)])
    then have c: "body c = String_Def (of_nat (length ?text)) ?text" using t(4) by simp
    have "unat (of_nat (length ?text) :: u32) = length ?text" using len by (simp add: unsigned_of_nat take_bit_nat_eq_self)
    then have u: "unat (of_nat (length ?text) :: u32) = length ?text" .
    show ?thesis unfolding c equal_definition.simps(1) equal_string.simps
    proof
      assume *: "of_nat (length ?text) = ?l \<and>
        take (unat (of_nat (length ?text) :: u32)) ?text = take (unat (of_nat (length ?text) :: u32)) str"
      then have "length ?text = length str" using u l by metis
      then show "?text = str" using * unfolding u by simp
    qed simp
  qed
  have "type_of_body ?b = Def_String" "body_hash (cells s) ?b = Inr (hash_string ?l str)" "body_ok ?b"
    "0 < sizeof_StringDef + (length str + 1)" "(\<lambda>_. Inr (hash_string ?l str)) (cells s) = body_hash (cells s) ?b"
    using str by simp_all
  from define_result [where hash = "\<lambda>_. Inr (hash_string ?l str)" and notify = True, OF inv mgr this] show ?thesis unfolding run
  proof (elim disjE exE conjE)
    fix h s' m' c
    assume s': "?run = Inr (h, s')" "inv s'" "get_manager s' mid = Inr m'" "\<forall>t. hashed m' t = hashed m t"
      "\<forall>t. t \<noteq> Def_String \<longrightarrow> m' t = m t" "\<forall>mid'. mid' \<noteq> mid \<longrightarrow> get_manager s' mid' = get_manager s mid'"
      "map_le (cells s) (cells s')" "h \<in> set (chain (m' Def_String))" "cells s' h = Some c"
      "equal_definition Def_String (body c) ?b"
      and upd: "if \<exists>g\<in>set (chain (m Def_String)). \<exists>d. cells s g = Some d \<and> equal_definition Def_String (body d) ?b
        then m' = m \<and> cells s' = cells s \<and> new_handles s' = new_handles s
        else chain (m' Def_String) = chain (m Def_String) @ [h] \<and> cells s h = None \<and>
             dom (cells s') = insert h (dom (cells s)) \<and> body c = ?b"
    have same: "text_of (cells s') h = str" using key [OF s'(2,3,8,9)] s'(10) by simp
    have cell: "\<exists>d. cells s g = Some d" if "g \<in> set (chain (m Def_String))" for g
      by (rule string_cell [OF inv mgr(1) that]) blast
    have "(\<exists>d. cells s g = Some d \<and> equal_definition Def_String (body d) ?b) \<longleftrightarrow> text_of (cells s) g = str"
      if "g \<in> set (chain (m Def_String))" for g
      using key [OF inv mgr(1) that] cell [OF that] by blast
    then have present: "(\<exists>g\<in>set (chain (m Def_String)). \<exists>d. cells s g = Some d \<and>
        equal_definition Def_String (body d) ?b) \<longleftrightarrow> str \<in> set (strings_of (cells s) m)"
      by (simp add: strings_of_def image_iff eq_commute [of str] cong: bex_cong)
    have old: "text_of (cells s') g = text_of (cells s) g" if g: "g \<in> set (chain (m Def_String))" for g
    proof -
      obtain d where d: "cells s g = Some d" using cell [OF g] ..
      then have "cells s' g = Some d" using s'(7) by (metis domI map_le_def)
      then show ?thesis using d by (simp add: text_of_def)
    qed
    have "strings_of (cells s') m' = intern (strings_of (cells s) m) str"
      "\<exists>hs. chain (m' Def_String) = chain (m Def_String) @ hs"
      using upd present same old by (auto simp: intern_def strings_of_def split: if_splits)
    then show "?run = Inl Out_Of_Memory \<or> (\<exists>h s' m'. ?run = Inr (h, s') \<and> inv s' \<and>
       get_manager s' mid = Inr m' \<and> (\<forall>ty. hashed m' ty = hashed m ty) \<and>
       h \<in> set (chain (m' Def_String)) \<and> text_of (cells s') h = str \<and> map_le (cells s) (cells s') \<and>
       strings_of (cells s') m' = intern (strings_of (cells s) m) str \<and>
       (\<forall>ty. ty \<noteq> Def_String \<longrightarrow> m' ty = m ty) \<and> (\<exists>hs. chain (m' Def_String) = chain (m Def_String) @ hs) \<and>
       (\<forall>mid'. mid' \<noteq> mid \<longrightarrow> get_manager s' mid' = get_manager s mid'))"
      using s' same by blast
  qed blast
qed

text \<open>A sequence of strings, and the start of the program.\<close>

lemma chain_text_extends:
  assumes inv: "inv s" and mgr: "get_manager s mid = Inr m" and ext: "map_le (cells s) (cells s')"
    and h: "h \<in> set (chain (m Def_String))"
  shows "text_of (cells s') h = text_of (cells s) h"
proof -
  obtain c where "cells s h = Some c" by (rule string_cell [OF inv mgr h])
  moreover from this have "cells s' h = Some c" using ext by (metis domI map_le_def)
  ultimately show ?thesis by (simp add: text_of_def)
qed

lemma new_strings_step:
  assumes "inv s" and "hashed (local_definition_manager s) Def_String" and "\<forall>x\<in>set xs. length x < 2 ^ 32"
  shows "new_strings mem xs s = Inl Out_Of_Memory \<or>
    (\<exists>hs s'. new_strings mem xs s = Inr (hs, s') \<and> inv s' \<and>
       hashed (local_definition_manager s') Def_String \<and> map_le (cells s) (cells s') \<and>
       strings_of (cells s') (local_definition_manager s') =
         foldl intern (strings_of (cells s) (local_definition_manager s)) xs \<and>
       (\<exists>gs. chain (local_definition_manager s' Def_String) = chain (local_definition_manager s Def_String) @ gs) \<and>
       set hs \<subseteq> set (chain (local_definition_manager s' Def_String)) \<and> map (text_of (cells s')) hs = xs)"
  using assms
proof (induction xs arbitrary: s)
  case Nil
  then show ?case by simp
next
  case (Cons x xs)
  have mgr: "get_manager s Local_Manager = Inr (local_definition_manager s)" by simp
  have len: "length x < 2 ^ 32" using Cons.prems(3) by simp
  have run: "SCOREP_Definitions_NewString mem (Some x) s = scorep_definitions_new_string mem Local_Manager x s"
    by (simp add: SCOREP_Definitions_NewString_def)
  from new_string_step [OF Cons.prems(1) mgr Cons.prems(2) len]
  show ?case
  proof (elim disjE exE conjE)
    fix h s1 m1
    assume *: "scorep_definitions_new_string mem Local_Manager x s = Inr (h, s1)" "inv s1"
      "get_manager s1 Local_Manager = Inr m1" "\<forall>ty. hashed m1 ty = hashed (local_definition_manager s) ty"
      "h \<in> set (chain (m1 Def_String))" "text_of (cells s1) h = x" "map_le (cells s) (cells s1)"
      "strings_of (cells s1) m1 = intern (strings_of (cells s) (local_definition_manager s)) x"
    fix gs1
    assume gs1: "chain (m1 Def_String) = chain (local_definition_manager s Def_String) @ gs1"
    have m1: "m1 = local_definition_manager s1" using *(3) by simp
    have h1: "hashed (local_definition_manager s1) Def_String" using *(4) Cons.prems(2) m1 by simp
    have xs1: "\<forall>x\<in>set xs. length x < 2 ^ 32" using Cons.prems(3) by simp
    from Cons.IH [OF *(2) h1 xs1] show ?thesis
    proof (elim disjE exE conjE)
      assume "new_strings mem xs s1 = Inl Out_Of_Memory"
      then show ?thesis using run *(1) by simp
    next
      fix hs s' gs
      assume IH: "new_strings mem xs s1 = Inr (hs, s')" "inv s'"
        "hashed (local_definition_manager s') Def_String" "map_le (cells s1) (cells s')"
        "strings_of (cells s') (local_definition_manager s') =
           foldl intern (strings_of (cells s1) (local_definition_manager s1)) xs"
        "chain (local_definition_manager s' Def_String) = chain (local_definition_manager s1 Def_String) @ gs"
        "set hs \<subseteq> set (chain (local_definition_manager s' Def_String))" "map (text_of (cells s')) hs = xs"
      have "text_of (cells s') h = x"
        using chain_text_extends [OF *(2,3) IH(4) *(5)] *(6) by simp
      moreover have "map_le (cells s) (cells s')" using *(7) IH(4) by (rule map_le_trans)
      ultimately show ?thesis
        using run * IH m1 gs1
        by (intro disjI2 exI [of _ "h # hs"] exI [of _ s']) auto
    qed
  qed (simp add: run)
qed

lemma initialize_step:
  assumes mem: "holds (memory s) {}" and s: "cells s = Map.empty" "unified_definition_manager s = None"
    "definitions_initialized s = False"
  shows "SCOREP_Definitions_Initialize mem s = Inl Out_Of_Memory \<or>
    (\<exists>s'. SCOREP_Definitions_Initialize mem s = Inr s' \<and> inv s' \<and>
       (\<forall>ty\<in>set always_hashed. hashed (local_definition_manager s') ty) \<and>
       strings_of (cells s') (local_definition_manager s') = [[]])"
proof -
  obtain m where m: "SCOREP_Definitions_InitializeDefinitionManager False = Inr m"
    using initialize_run by blast
  let ?s = "s\<lparr>definitions_initialized := True, local_definition_manager := m\<rparr>"
  have "entry_inv (cells ?s) type_of_body (equal_definition t) t (m t)" for t
    by (rule initialize_inv [OF m])
  moreover have "get_manager ?s mid = Inr m' \<Longrightarrow> m' = m" for mid m'
    using s(2) by (cases mid) auto
  ultimately have inv: "inv ?s" using mem s(1) by (auto simp: definitions_inv_def)
  have hash: "hashed m ty" if "ty \<in> set always_hashed" for ty
    using m that by (auto simp: initialize_run hashed_def hashed_entry_def)
  have str: "hashed m Def_String" by (rule hash) (simp add: always_hashed_def)
  have mgr: "get_manager ?s Local_Manager = Inr m" by simp
  have ss: "strings_of (cells ?s) m = []"
    using m by (auto simp: initialize_run strings_of_def hashed_entry_def
        scorep_definitions_manager_init_entry_def)
  have len: "length [] < (2 :: nat) ^ 32" by simp
  have run: "SCOREP_Definitions_Initialize mem s =
      and_then (scorep_definitions_new_string mem Local_Manager [] ?s) (\<lambda>(h, s'). Inr s')"
    using m s(3) by (simp add: SCOREP_Definitions_Initialize_def SCOREP_Definitions_NewString_def)
  from new_string_step [OF inv mgr str len] show ?thesis
  proof (elim disjE exE conjE)
    fix h s' m'
    assume *: "scorep_definitions_new_string mem Local_Manager [] ?s = Inr (h, s')" "inv s'"
      "get_manager s' Local_Manager = Inr m'" "\<forall>ty. hashed m' ty = hashed m ty"
      "strings_of (cells s') m' = intern (strings_of (cells ?s) m) []"
    then show ?thesis using run hash ss
      by (intro disjI2 exI [of _ s']) (auto simp: intern_def)
  qed (simp add: run)
qed

text \<open>Regions.\<close>

lemma local_string:
  assumes inv: "inv s" and str: "hashed (local_definition_manager s) Def_String" "length str < 2 ^ 32"
  shows "scorep_definitions_new_string mem Local_Manager str s = Inl Out_Of_Memory \<or>
    (\<exists>h s'. scorep_definitions_new_string mem Local_Manager str s = Inr (h, s') \<and> inv s' \<and>
       (\<forall>ty. hashed (local_definition_manager s') ty = hashed (local_definition_manager s) ty) \<and>
       map_le (cells s) (cells s') \<and> text_of (cells s') h = str \<and>
       (\<forall>ty. set (chain (local_definition_manager s ty)) \<subseteq> set (chain (local_definition_manager s' ty))) \<and>
       h \<in> set (chain (local_definition_manager s' Def_String)))"
proof -
  have mgr: "get_manager s Local_Manager = Inr (local_definition_manager s)" by simp
  from new_string_step [OF inv mgr str] show ?thesis
  proof (elim disjE exE conjE)
    fix h s' m' hs
    assume *: "scorep_definitions_new_string mem Local_Manager str s = Inr (h, s')" "inv s'"
      "get_manager s' Local_Manager = Inr m'" "\<forall>ty. hashed m' ty = hashed (local_definition_manager s) ty"
      "map_le (cells s) (cells s')" "text_of (cells s') h = str" "h \<in> set (chain (m' Def_String))"
      "\<forall>ty. ty \<noteq> Def_String \<longrightarrow> m' ty = local_definition_manager s ty"
      "chain (m' Def_String) = chain (local_definition_manager s Def_String) @ hs"
    have "set (chain (local_definition_manager s ty)) \<subseteq> set (chain (m' ty))" for ty
      using *(8,9) by (cases "ty = Def_String") auto
    then show ?thesis using * by (intro disjI2 exI [of _ h] exI [of _ s']) auto
  qed blast
qed

lemma hash_add_dom:
  assumes "inv s" and "h \<in> dom (cells s)"
  shows "\<exists>v. HASH_ADD_HANDLE (cells s) h x = Inr v"
  using assms inv_deref [OF assms(1)] by (auto simp: HASH_ADD_HANDLE_def)

lemma initialize_region_dom:
  assumes "inv s" and "{name_handle r, canonical_name_handle r, description_handle r} \<subseteq> dom (cells s)"
    and "file_name_handle r = SCOREP_MOVABLE_NULL \<or> file_name_handle r \<in> dom (cells s)"
  shows "\<exists>v. initialize_region (cells s) r = Inr v"
proof -
  note add = hash_add_dom [OF assms(1)]
  obtain v1 where v1: "HASH_ADD_HANDLE (cells s) (name_handle r) 0 = Inr v1" using add assms(2) by blast
  obtain v2 where v2: "HASH_ADD_HANDLE (cells s) (canonical_name_handle r) v1 = Inr v2" using add assms(2) by blast
  obtain v3 where v3: "HASH_ADD_HANDLE (cells s) (description_handle r) v2 = Inr v3" using add assms(2) by blast
  have "\<exists>v. HASH_ADD_OPTIONAL (cells s) (file_name_handle r) x = Inr v" for x
    using add assms(3) by (auto simp: HASH_ADD_OPTIONAL_def)
  then obtain v4 where "HASH_ADD_OPTIONAL (cells s) (file_name_handle r)
      (hash_bytes (bytes_of_u32 (region_type r)) v3) = Inr v4" by blast
  then show ?thesis using v1 v2 v3 by (simp add: initialize_region_def HASH_ADD_POD_def)
qed

lemma string_in_dom:
  assumes "inv s" and "h \<in> set (chain (local_definition_manager s Def_String))"
  shows "h \<in> dom (cells s)"
proof -
  have "get_manager s Local_Manager = Inr (local_definition_manager s)" by simp
  from string_cell [OF assms(1) this assms(2)] show ?thesis by blast
qed

lemma local_define:
  assumes inv: "inv s" and tab: "hashed (local_definition_manager s) ty"
    and b: "type_of_body b = ty" "body_hash (cells s) b = Inr v" "body_ok b" and size: "0 < size_of"
    and hash: "hash (cells s) = body_hash (cells s) b"
  shows "define_definition mem (equal_definition ty) ty size_of hash notify Local_Manager b s = Inl Out_Of_Memory \<or>
    (\<exists>h s' c. define_definition mem (equal_definition ty) ty size_of hash notify Local_Manager b s = Inr (h, s') \<and>
       inv s' \<and> (\<forall>t. hashed (local_definition_manager s') t = hashed (local_definition_manager s) t) \<and>
       map_le (cells s) (cells s') \<and> h \<in> set (chain (local_definition_manager s' ty)) \<and>
       cells s' h = Some c \<and> equal_definition ty (body c) b \<and>
       (\<forall>t. set (chain (local_definition_manager s t)) \<subseteq> set (chain (local_definition_manager s' t))))"
proof -
  have mgr: "get_manager s Local_Manager = Inr (local_definition_manager s)" by simp
  from define_result [where hash = hash and notify = notify, OF inv mgr tab b size hash]
  show ?thesis
  proof (elim disjE exE conjE)
    fix h s' m' c
    assume *: "define_definition mem (equal_definition ty) ty size_of hash notify Local_Manager b s = Inr (h, s')"
      "inv s'" "get_manager s' Local_Manager = Inr m'"
      "\<forall>t. hashed m' t = hashed (local_definition_manager s) t" "map_le (cells s) (cells s')"
      "h \<in> set (chain (m' ty))" "cells s' h = Some c" "equal_definition ty (body c) b"
      "\<forall>t. t \<noteq> ty \<longrightarrow> m' t = local_definition_manager s t"
      and upd: "if \<exists>g\<in>set (chain (local_definition_manager s ty)). \<exists>d. cells s g = Some d \<and> equal_definition ty (body d) b
        then m' = local_definition_manager s \<and> cells s' = cells s \<and> new_handles s' = new_handles s
        else chain (m' ty) = chain (local_definition_manager s ty) @ [h] \<and> cells s h = None \<and>
             dom (cells s') = insert h (dom (cells s)) \<and> body c = b"
    have "set (chain (local_definition_manager s t)) \<subseteq> set (chain (m' t))" for t
      using upd *(9) by (cases "t = ty") (auto split: if_splits)
    then show ?thesis using * by (intro disjI2 exI [of _ h] exI [of _ s'] exI [of _ c]) auto
  qed blast
qed

lemma new_region_step:
  assumes inv: "inv s"
    and tabs: "hashed (local_definition_manager s) Def_String" "hashed (local_definition_manager s) Def_Region"
    and fl: "file_name_of (cells s) fh = Inr f" "f = SCOREP_MOVABLE_NULL \<or> f \<in> dom (cells s)"
    and len: "length (region_name n) < 2 ^ 32" "length (region_canonical_name n c) < 2 ^ 32"
  shows "SCOREP_Definitions_NewRegion mem n c fh b e p t s = Inl Out_Of_Memory \<or>
    (\<exists>h s' r. SCOREP_Definitions_NewRegion mem n c fh b e p t s = Inr (h, s') \<and> inv s' \<and>
       (\<forall>ty. hashed (local_definition_manager s') ty = hashed (local_definition_manager s) ty) \<and>
       map_le (cells s) (cells s') \<and> is_region s' h r (region_name n) (region_canonical_name n c) \<and>
       file_name_handle r = f \<and> begin_line r = b \<and> end_line r = e \<and> paradigm_type r = p \<and> region_type r = t \<and>
       (\<forall>ty. set (chain (local_definition_manager s ty)) \<subseteq> set (chain (local_definition_manager s' ty))))"
  (is "?run = _ \<or> _")
proof (cases "?run = Inl Out_Of_Memory")
  case False
  have run: "?run = and_then (scorep_definitions_new_string mem Local_Manager (region_name n) s) (\<lambda>(name, s).
     and_then (scorep_definitions_new_string mem Local_Manager (region_canonical_name n c) s) (\<lambda>(canonical, s).
     and_then (scorep_definitions_new_string mem Local_Manager [] s) (\<lambda>(description, s).
       define_region mem Local_Manager
         \<lparr>name_handle = name, canonical_name_handle = canonical, description_handle = description,
          region_type = t, file_name_handle = f, begin_line = b,
          end_line = e, paradigm_type = p, group_name_handle = SCOREP_MOVABLE_NULL\<rparr> s)))"
    unfolding SCOREP_Definitions_NewRegion_def region_canonical_name_def region_name_def fl(1) and_then_simps ..
  obtain h1 s1 where s1: "scorep_definitions_new_string mem Local_Manager (region_name n) s = Inr (h1, s1)"
    "inv s1" "\<forall>ty. hashed (local_definition_manager s1) ty = hashed (local_definition_manager s) ty"
    "map_le (cells s) (cells s1)" "text_of (cells s1) h1 = region_name n"
    "\<forall>ty. set (chain (local_definition_manager s ty)) \<subseteq> set (chain (local_definition_manager s1 ty))"
    "h1 \<in> set (chain (local_definition_manager s1 Def_String))"
    using local_string [OF inv tabs(1) len(1)] False run by auto
  have t1: "hashed (local_definition_manager s1) Def_String" using s1(3) tabs(1) by simp
  obtain h2 s2 where s2: "scorep_definitions_new_string mem Local_Manager (region_canonical_name n c) s1 = Inr (h2, s2)"
    "inv s2" "\<forall>ty. hashed (local_definition_manager s2) ty = hashed (local_definition_manager s1) ty"
    "map_le (cells s1) (cells s2)" "text_of (cells s2) h2 = region_canonical_name n c"
    "\<forall>ty. set (chain (local_definition_manager s1 ty)) \<subseteq> set (chain (local_definition_manager s2 ty))"
    "h2 \<in> set (chain (local_definition_manager s2 Def_String))"
    using local_string [OF s1(2) t1 len(2)] False run s1(1) by auto
  have t2: "hashed (local_definition_manager s2) Def_String" using s2(3) t1 by simp
  have nil: "length [] < (2 :: nat) ^ 32" by simp
  obtain h3 s3 where s3: "scorep_definitions_new_string mem Local_Manager [] s2 = Inr (h3, s3)"
    "inv s3" "\<forall>ty. hashed (local_definition_manager s3) ty = hashed (local_definition_manager s2) ty"
    "map_le (cells s2) (cells s3)" "text_of (cells s3) h3 = []"
    "\<forall>ty. set (chain (local_definition_manager s2 ty)) \<subseteq> set (chain (local_definition_manager s3 ty))"
    "h3 \<in> set (chain (local_definition_manager s3 Def_String))"
    using local_string [OF s2(2) t2 nil] False run s1(1) s2(1) by auto
  let ?r = "\<lparr>name_handle = h1, canonical_name_handle = h2, description_handle = h3,
          region_type = t, file_name_handle = f, begin_line = b,
          end_line = e, paradigm_type = p, group_name_handle = SCOREP_MOVABLE_NULL\<rparr>"
  let ?def = "define_definition mem (equal_definition Def_Region) Def_Region sizeof_RegionDef
      (\<lambda>cs. initialize_region cs ?r) True Local_Manager (Region_Def ?r) s3"
  have run3: "?run = ?def" using run s1(1) s2(1) s3(1) by (simp add: define_region_def)
  have le: "map_le (cells s) (cells s3)" using s1(4) s2(4) s3(4) by (blast intro: map_le_trans)
  have in3: "{h1, h2, h3} \<subseteq> set (chain (local_definition_manager s3 Def_String))"
    using s1(7) s2(6,7) s3(6,7) by blast
  have "f = SCOREP_MOVABLE_NULL \<or> f \<in> dom (cells s3)"
    using fl(2) map_le_implies_dom_le [OF le] by blast
  moreover have "{h1, h2, h3} \<subseteq> dom (cells s3)" using string_in_dom [OF s3(2)] in3 by blast
  ultimately obtain v where v: "initialize_region (cells s3) ?r = Inr v"
    using initialize_region_dom [OF s3(2), of ?r] by auto
  have t3: "hashed (local_definition_manager s3) Def_Region" using s3(3) s2(3) s1(3) tabs(2) by simp
  have b: "type_of_body (Region_Def ?r) = Def_Region" "body_hash (cells s3) (Region_Def ?r) = Inr v"
    "body_ok (Region_Def ?r)" "0 < sizeof_RegionDef"
    "(\<lambda>cs. initialize_region cs ?r) (cells s3) = body_hash (cells s3) (Region_Def ?r)"
    using v by (simp_all add: sizeofs)
  from local_define [where hash = "\<lambda>cs. initialize_region cs ?r" and notify = True, OF s3(2) t3 b] False run3
  obtain h s' c' where s': "?def = Inr (h, s')" "inv s'"
    "\<forall>ty. hashed (local_definition_manager s') ty = hashed (local_definition_manager s3) ty"
    "map_le (cells s3) (cells s')" "h \<in> set (chain (local_definition_manager s' Def_Region))"
    "cells s' h = Some c'" "equal_definition Def_Region (body c') (Region_Def ?r)"
    "\<forall>ty. set (chain (local_definition_manager s3 ty)) \<subseteq> set (chain (local_definition_manager s' ty))"
    by (auto simp del: equal_definition.simps)
  have mgr: "get_manager x Local_Manager = Inr (local_definition_manager x)" for x by simp
  obtain r where r: "body c' = Region_Def r" using s'(7) by (cases "body c'") auto
  then have rr: "name_handle r = h1" "canonical_name_handle r = h2" "description_handle r = h3"
    "file_name_handle r = f" "begin_line r = b" "end_line r = e" "paradigm_type r = p" "region_type r = t"
    using s'(7) by simp_all
  have "text_of (cells s') h1 = region_name n" "text_of (cells s') h2 = region_canonical_name n c"
    "text_of (cells s') h3 = []"
    using chain_text_extends [OF s1(2) mgr _ s1(7)] chain_text_extends [OF s2(2) mgr _ s2(7)]
      chain_text_extends [OF s3(2) mgr s'(4) s3(7)] s1(5) s2(5) s3(5) map_le_trans s2(4) s3(4) s'(4)
    by metis+
  then have "is_region s' h r (region_name n) (region_canonical_name n c)"
    using s'(5,6,8) r rr in3 by (auto simp: is_region_def)
  moreover have "map_le (cells s) (cells s')" using le s'(4) by (rule map_le_trans)
  moreover have "\<forall>ty. hashed (local_definition_manager s') ty = hashed (local_definition_manager s) ty"
    using s1(3) s2(3) s3(3) s'(3) by simp
  moreover have "set (chain (local_definition_manager s ty)) \<subseteq> set (chain (local_definition_manager s' ty))" for ty
    using s1(6) s2(6) s3(6) s'(8) by blast
  ultimately show ?thesis
    using run3 s'(1,2) rr by (intro disjI2 exI [of _ h] exI [of _ s'] exI [of _ r]) simp
qed simp

lemma region_identity:
  assumes inv: "inv s"
    and tabs: "hashed (local_definition_manager s) Def_String" "hashed (local_definition_manager s) Def_Region"
    and r: "is_region s h r n c" and r': "is_region s h' r' n' c'"
  shows "h = h' \<longleftrightarrow> n = n' \<and> c = c' \<and> file_name_handle r = file_name_handle r' \<and> begin_line r = begin_line r' \<and>
    end_line r = end_line r' \<and> paradigm_type r = paradigm_type r' \<and> region_type r = region_type r'"
    (is "_ \<longleftrightarrow> ?same")
proof
  assume "h = h'"
  then have "r = r'" using r r' by (auto simp: is_region_def)
  then show ?same using r r' by (auto simp: is_region_def)
next
  assume same: ?same
  have mgr: "get_manager s Local_Manager = Inr (local_definition_manager s)" by simp
  note unique = string_unique [OF inv mgr tabs(1)]
  have "name_handle r = name_handle r'" by (rule unique) (use r r' same in \<open>simp_all add: is_region_def\<close>)
  moreover have "canonical_name_handle r = canonical_name_handle r'"
    by (rule unique) (use r r' same in \<open>simp_all add: is_region_def\<close>)
  moreover have "description_handle r = description_handle r'"
    by (rule unique) (use r r' same in \<open>simp_all add: is_region_def\<close>)
  ultimately have eq: "equal_definition Def_Region (Region_Def r) (Region_Def r')" using same by simp
  obtain bs where bs: "hash_table (local_definition_manager s Def_Region) = Some bs"
    using tabs(2) by (auto simp: hashed_def)
  obtain d d' where "cells s h = Some d" "body d = Region_Def r" "cells s h' = Some d'" "body d' = Region_Def r'"
    using r r' by (auto simp: is_region_def)
  moreover have "h \<in> set (chain (local_definition_manager s Def_Region))"
    "h' \<in> set (chain (local_definition_manager s Def_Region))"
    using r r' by (simp_all add: is_region_def)
  ultimately show "h = h'"
    using table_invD(4) [OF entry_invD(4) [OF invD(5) [OF inv mgr] bs]] eq by (simp del: equal_region.simps)
qed

lemma is_region_extends:
  assumes inv: "inv s" and r: "is_region s h r n c" and ext: "map_le (cells s) (cells s')"
    and chains: "\<forall>ty. set (chain (local_definition_manager s ty)) \<subseteq> set (chain (local_definition_manager s' ty))"
  shows "is_region s' h r n c"
proof -
  have mgr: "get_manager s Local_Manager = Inr (local_definition_manager s)" by simp
  note keep = chain_text_extends [OF inv mgr ext]
  obtain d where d: "cells s h = Some d" "body d = Region_Def r" using r by (auto simp: is_region_def)
  then have "cells s' h = Some d" using ext by (metis domI map_le_def)
  moreover have "text_of (cells s') g = text_of (cells s) g"
    if "g \<in> {name_handle r, canonical_name_handle r, description_handle r}" for g
    by (rule keep) (use r that in \<open>auto simp: is_region_def\<close>)
  ultimately show ?thesis using r d chains unfolding is_region_def by auto
qed

end

end
