(* ===== verification/Unification.thy ===== *)
theory Unification
  imports Definitions
begin

section \<open>Unification\<close>

text \<open>
  \<^verbatim>\<open>src/measurement/scorep_unify.c\<close> within one process: every local definition is defined once more in
  the unified manager, which drops duplicates; the mapping of a kind takes local to unified numbers.
\<close>

subsection \<open>Unification of one definition\<close>

text \<open>
  Each function stores the handle of the unified definition in the local one. A referenced
  definition that may be missing must have been unified when it is there.
\<close>

definition set_unified :: "nat \<Rightarrow> nat \<times> 'm defs \<Rightarrow> 'm defs outcome" where
  "set_unified h = (\<lambda>(u, s). set_cell s h (\<lambda>c. c\<lparr>unified := u\<rparr>))"

definition get_unified_checked :: "def_cells \<Rightarrow> nat \<Rightarrow> nat outcome" where
  "get_unified_checked cs h =
     and_then (SCOREP_HANDLE_GET_UNIFIED cs h) (\<lambda>u. assert_that (u \<noteq> SCOREP_MOVABLE_NULL) (Inr u))"

definition get_unified_optional :: "def_cells \<Rightarrow> nat \<Rightarrow> nat outcome" where
  "get_unified_optional cs h =
     (if h \<noteq> SCOREP_MOVABLE_NULL then get_unified_checked cs h else Inr SCOREP_MOVABLE_NULL)"

definition scorep_definitions_unify_string :: "'m movable_memory \<Rightarrow> nat \<Rightarrow> 'm defs \<Rightarrow> 'm defs outcome" where
  "scorep_definitions_unify_string mem h s =
     and_then (SCOREP_StringHandle_Get (cells s) h) (\<lambda>d.
     and_then (scorep_definitions_new_string mem Unified_Manager d s) (set_unified h))"

definition scorep_definitions_unify_source_file ::
  "'m movable_memory \<Rightarrow> nat \<Rightarrow> nat \<Rightarrow> 'm defs \<Rightarrow> 'm defs outcome" where
  "scorep_definitions_unify_source_file mem h n s =
     and_then (SCOREP_HANDLE_GET_UNIFIED (cells s) n) (\<lambda>n.
     and_then (define_source_file mem Unified_Manager n s) (set_unified h))"

definition scorep_definitions_unify_source_code_location ::
  "'m movable_memory \<Rightarrow> nat \<Rightarrow> nat \<Rightarrow> u32 \<Rightarrow> 'm defs \<Rightarrow> 'm defs outcome" where
  "scorep_definitions_unify_source_code_location mem h f l s =
     and_then (SCOREP_HANDLE_GET_UNIFIED (cells s) f) (\<lambda>f.
     and_then (define_source_code_location mem Unified_Manager f l s) (set_unified h))"

definition scorep_definitions_unify_region ::
  "'m movable_memory \<Rightarrow> nat \<Rightarrow> region_def \<Rightarrow> 'm defs \<Rightarrow> 'm defs outcome" where
  "scorep_definitions_unify_region mem h r s =
     and_then (get_unified_optional (cells s) (file_name_handle r)) (\<lambda>file_name.
     and_then (get_unified_optional (cells s) (group_name_handle r)) (\<lambda>grp.
     and_then (SCOREP_HANDLE_GET_UNIFIED (cells s) (name_handle r)) (\<lambda>name.
     and_then (SCOREP_HANDLE_GET_UNIFIED (cells s) (canonical_name_handle r)) (\<lambda>canonical.
     and_then (SCOREP_HANDLE_GET_UNIFIED (cells s) (description_handle r)) (\<lambda>description.
     and_then (define_region mem Unified_Manager
                 \<lparr>name_handle = name, canonical_name_handle = canonical, description_handle = description,
                  region_type = region_type r, file_name_handle = file_name, begin_line = begin_line r,
                  end_line = end_line r, paradigm_type = paradigm_type r, group_name_handle = grp\<rparr> s)
       (set_unified h))))))"

definition scorep_definitions_unify_group ::
  "'m movable_memory \<Rightarrow> nat \<Rightarrow> group_def \<Rightarrow> 'm defs \<Rightarrow> 'm defs outcome" where
  "scorep_definitions_unify_group mem h g s =
     and_then (SCOREP_HANDLE_GET_UNIFIED (cells s) (group_name g)) (\<lambda>n.
     and_then (define_group mem Unified_Manager (group_type g) (number_of_members g)
                 (Members_64 (members g)) n False s) (set_unified h))"

definition scorep_definitions_unify_parameter ::
  "'m movable_memory \<Rightarrow> nat \<Rightarrow> nat \<Rightarrow> u32 \<Rightarrow> 'm defs \<Rightarrow> 'm defs outcome" where
  "scorep_definitions_unify_parameter mem h n t s =
     and_then (SCOREP_HANDLE_GET_UNIFIED (cells s) n) (\<lambda>n.
     and_then (define_parameter mem Unified_Manager n t s) (set_unified h))"

definition scorep_definitions_unify_attribute ::
  "'m movable_memory \<Rightarrow> nat \<Rightarrow> nat \<Rightarrow> nat \<Rightarrow> u32 \<Rightarrow> 'm defs \<Rightarrow> 'm defs outcome" where
  "scorep_definitions_unify_attribute mem h n d t s =
     and_then (SCOREP_HANDLE_GET_UNIFIED (cells s) n) (\<lambda>n.
     and_then (SCOREP_HANDLE_GET_UNIFIED (cells s) d) (\<lambda>d.
     and_then (define_attribute mem Unified_Manager n d t s) (set_unified h)))"

text \<open>A node without children is not unified.\<close>

definition scorep_definitions_unify_system_tree_node ::
  "'m movable_memory \<Rightarrow> nat \<Rightarrow> system_tree_node_def \<Rightarrow> 'm defs \<Rightarrow> 'm defs outcome" where
  "scorep_definitions_unify_system_tree_node mem h n s =
     (if \<not> has_children n then Inr s
      else and_then (get_unified_optional (cells s) (parent_handle n)) (\<lambda>parent.
           and_then (SCOREP_HANDLE_GET_UNIFIED (cells s) (node_name_handle n)) (\<lambda>name.
           and_then (SCOREP_HANDLE_GET_UNIFIED (cells s) (class_handle n)) (\<lambda>cls.
           and_then (define_system_tree_node mem Unified_Manager parent (domains n) name cls s)
             (set_unified h)))))"

definition scorep_definitions_unify_io_file ::
  "'m movable_memory \<Rightarrow> nat \<Rightarrow> nat \<Rightarrow> nat \<Rightarrow> 'm defs \<Rightarrow> 'm defs outcome" where
  "scorep_definitions_unify_io_file mem h n scope s =
     and_then (get_unified_optional (cells s) n) (\<lambda>n.
     and_then (get_unified_optional (cells s) scope) (\<lambda>scope.
     and_then (define_io_file mem Unified_Manager n scope s) (set_unified h)))"

fun unify_parameters :: "def_cells \<Rightarrow> callpath_parameter list \<Rightarrow> callpath_parameter list outcome" where
  "unify_parameters cs [] = Inr []"
| "unify_parameters cs (p # ps) =
     and_then (SCOREP_ParameterHandle_GetType cs (parameter_handle p)) (\<lambda>t.
     and_then (get_unified_checked cs (parameter_handle p)) (\<lambda>u.
     and_then (if t = SCOREP_PARAMETER_STRING
               then and_then (get_unified_checked cs (string_handle p)) (\<lambda>v. Inr (of_nat v))
               else Inr (parameter_value p)) (\<lambda>v.
     and_then (unify_parameters cs ps) (\<lambda>us.
       Inr (\<lparr>parameter_handle = u, parameter_value = v\<rparr> # us)))))"

definition scorep_definitions_unify_callpath ::
  "'m movable_memory \<Rightarrow> nat \<Rightarrow> callpath_def \<Rightarrow> 'm defs \<Rightarrow> 'm defs outcome" where
  "scorep_definitions_unify_callpath mem h c s =
     and_then (get_unified_optional (cells s) (parent_callpath_handle c)) (\<lambda>parent.
     and_then (get_unified_optional (cells s) (region_handle c)) (\<lambda>region.
     and_then (unify_parameters (cells s) (take (unat (number_of_parameters c)) (parameters c))) (\<lambda>ps.
     and_then (define_callpath mem Unified_Manager parent region (number_of_parameters c) ps s)
       (set_unified h))))"

subsection \<open>Unification of all definitions\<close>

definition unify_definition :: "'m movable_memory \<Rightarrow> nat \<Rightarrow> 'm defs \<Rightarrow> 'm defs outcome" where
  "unify_definition mem h s =
     and_then (SCOREP_HANDLE_DEREF (cells s) h) (\<lambda>c.
       case body c of
         String_Def l d \<Rightarrow> scorep_definitions_unify_string mem h s
       | Source_File_Def n \<Rightarrow> scorep_definitions_unify_source_file mem h n s
       | Region_Def r \<Rightarrow> scorep_definitions_unify_region mem h r s
       | Group_Def g \<Rightarrow> scorep_definitions_unify_group mem h g s
       | Parameter_Def n t \<Rightarrow> scorep_definitions_unify_parameter mem h n t s
       | Attribute_Def n d t \<Rightarrow> scorep_definitions_unify_attribute mem h n d t s
       | Source_Code_Location_Def f l \<Rightarrow> scorep_definitions_unify_source_code_location mem h f l s
       | System_Tree_Node_Def n \<Rightarrow> scorep_definitions_unify_system_tree_node mem h n s
       | Io_File_Def n scope \<Rightarrow> scorep_definitions_unify_io_file mem h n scope s
       | Callpath_Def c \<Rightarrow> scorep_definitions_unify_callpath mem h c s)"

fun unify_chain :: "'m movable_memory \<Rightarrow> nat list \<Rightarrow> 'm defs \<Rightarrow> 'm defs outcome" where
  "unify_chain mem [] s = Inr s"
| "unify_chain mem (h # hs) s = and_then (unify_definition mem h s) (unify_chain mem hs)"

definition UNIFY_DEFINITION :: "'m movable_memory \<Rightarrow> def_type \<Rightarrow> 'm defs \<Rightarrow> 'm defs outcome" where
  "UNIFY_DEFINITION mem ty s = unify_chain mem (chain (local_definition_manager s ty)) s"

text \<open>
  The order of the kinds matters: what a definition refers to is unified before it. Kinds the
  development has no data for have no definitions in its states, so that their turns do nothing.
\<close>

definition copied_types :: "bool \<Rightarrow> def_type list" where
  "copied_types use_system_tree_sequence =
     [Def_String] @
     (if use_system_tree_sequence then []
      else [Def_System_Tree_Node, Def_System_Tree_Node_Property, Def_Location_Group, Def_Location,
            Def_Location_Property]) @
     [Def_Source_File, Def_Region, Def_Group, Def_Communicator, Def_Rma_Window, Def_Metric,
      Def_Sampling_Set, Def_Sampling_Set_Recorder, Def_Parameter, Def_Callpath, Def_Property,
      Def_Attribute, Def_Cartesian_Topology, Def_Cartesian_Coords, Def_Source_Code_Location,
      Def_Calling_Context, Def_Interrupt_Generator, Def_Io_File, Def_Io_File_Property, Def_Io_Handle]"

fun unify_types :: "'m movable_memory \<Rightarrow> def_type list \<Rightarrow> 'm defs \<Rightarrow> 'm defs outcome" where
  "unify_types mem [] s = Inr s"
| "unify_types mem (ty # tys) s = and_then (UNIFY_DEFINITION mem ty s) (unify_types mem tys)"

definition SCOREP_CopyDefinitionsToUnified :: "'m movable_memory \<Rightarrow> bool \<Rightarrow> 'm defs \<Rightarrow> 'm defs outcome" where
  "SCOREP_CopyDefinitionsToUnified mem use_system_tree_sequence s =
     unify_types mem (copied_types use_system_tree_sequence) s"

definition types_with_mappings :: "def_type list" where
  "types_with_mappings = [Def_String, Def_Region, Def_Group, Def_Communicator, Def_Rma_Window,
     Def_Metric, Def_Sampling_Set, Def_Parameter, Def_Callpath, Def_Attribute,
     Def_Source_Code_Location, Def_Calling_Context, Def_Interrupt_Generator, Def_Cartesian_Topology,
     Def_Io_File, Def_Io_Handle, Def_Location_Group]"

definition update_entries ::
  "(manager_entry \<Rightarrow> manager_entry) \<Rightarrow> def_type list \<Rightarrow> definition_manager \<Rightarrow> definition_manager" where
  "update_entries f tys m = foldl (\<lambda>m ty. m(ty := f (m ty))) m tys"

definition SCOREP_CreateDefinitionMappings :: "definition_manager \<Rightarrow> definition_manager" where
  "SCOREP_CreateDefinitionMappings =
     update_entries scorep_definitions_manager_entry_alloc_mapping types_with_mappings"

definition SCOREP_DestroyDefinitionMappings :: "definition_manager \<Rightarrow> definition_manager" where
  "SCOREP_DestroyDefinitionMappings =
     update_entries scorep_definitions_manager_entry_free_mapping
       (types_with_mappings @ [Def_Interim_Communicator])"

fun assign_mapping :: "def_cells \<Rightarrow> nat list \<Rightarrow> u32 list \<Rightarrow> u32 list outcome" where
  "assign_mapping cs [] ms = Inr ms"
| "assign_mapping cs (h # hs) ms =
     and_then (SCOREP_HANDLE_DEREF cs h) (\<lambda>c.
       if unified c = SCOREP_MOVABLE_NULL then assign_mapping cs hs ms
       else and_then (SCOREP_HANDLE_TO_ID cs (unified c)) (\<lambda>i.
              if unat (sequence_number c) < length ms
              then assign_mapping cs hs (ms[unat (sequence_number c) := i])
              else Inl Bad_Access))"

definition ASSIGN_MAPPING :: "def_cells \<Rightarrow> manager_entry \<Rightarrow> manager_entry outcome" where
  "ASSIGN_MAPPING cs e =
     (if counter e > 0
      then case mapping e of
             None \<Rightarrow> Inl Bad_Access
           | Some ms \<Rightarrow> and_then (assign_mapping cs (chain e) ms) (\<lambda>ms. Inr (e\<lparr>mapping := Some ms\<rparr>))
      else Inr e)"

fun assign_mappings :: "def_cells \<Rightarrow> def_type list \<Rightarrow> definition_manager \<Rightarrow> definition_manager outcome" where
  "assign_mappings cs [] m = Inr m"
| "assign_mappings cs (ty # tys) m =
     and_then (ASSIGN_MAPPING cs (m ty)) (\<lambda>e. assign_mappings cs tys (m(ty := e)))"

definition SCOREP_AssignDefinitionMappingsFromUnified ::
  "def_cells \<Rightarrow> definition_manager \<Rightarrow> definition_manager outcome" where
  "SCOREP_AssignDefinitionMappingsFromUnified cs = assign_mappings cs types_with_mappings"

definition SCOREP_Unify_CreateUnifiedDefinitionManager :: "'m defs \<Rightarrow> 'm defs outcome" where
  "SCOREP_Unify_CreateUnifiedDefinitionManager s =
     assert_that (unified_definition_manager s = None) (
       and_then (SCOREP_Definitions_InitializeDefinitionManager True) (\<lambda>m.
         Inr (s\<lparr>unified_definition_manager := Some m\<rparr>)))"

text \<open>The locations, whose mapping is special, are left out.\<close>

definition SCOREP_Unify_Locally :: "'m movable_memory \<Rightarrow> bool \<Rightarrow> 'm defs \<Rightarrow> 'm defs outcome" where
  "SCOREP_Unify_Locally mem use_system_tree_sequence s =
     and_then (SCOREP_CopyDefinitionsToUnified mem use_system_tree_sequence s) (\<lambda>s.
     and_then (SCOREP_AssignDefinitionMappingsFromUnified (cells s)
                 (SCOREP_CreateDefinitionMappings (local_definition_manager s))) (\<lambda>m.
       Inr (s\<lparr>local_definition_manager :=
              update_entries scorep_definitions_manager_entry_alloc_mapping [Def_Interim_Communicator] m\<rparr>)))"

subsection \<open>Unification of strings\<close>

lemma unify_definition_string:
  assumes "SCOREP_HANDLE_DEREF (cells s) h = Inr c" and "body c = String_Def l d"
  shows "unify_definition mem h s =
    and_then (scorep_definitions_new_string mem Unified_Manager d s) (set_unified h)"
  using assms by (simp add: unify_definition_def scorep_definitions_unify_string_def SCOREP_StringHandle_Get_def)

text \<open>The mapping of distinct definitions that have all been unified.\<close>

lemma assign_mapping_run:
  assumes "distinct (map (\<lambda>h. unat (sequence_number (the (cs h)))) hs)"
    and "\<And>h. h \<in> set hs \<Longrightarrow> \<exists>c d. SCOREP_HANDLE_DEREF cs h = Inr c \<and> cs h = Some c \<and>
      unified c \<noteq> SCOREP_MOVABLE_NULL \<and> unat (sequence_number c) < length ms \<and>
      SCOREP_HANDLE_DEREF cs (unified c) = Inr d \<and> cs (unified c) = Some d"
  shows "\<exists>ms'. assign_mapping cs hs ms = Inr ms' \<and> length ms' = length ms \<and>
    (\<forall>h\<in>set hs. ms' ! unat (sequence_number (the (cs h))) =
       sequence_number (the (cs (unified (the (cs h)))))) \<and>
    (\<forall>i. i \<notin> (\<lambda>h. unat (sequence_number (the (cs h)))) ` set hs \<longrightarrow> ms' ! i = ms ! i)"
  using assms
proof (induction hs arbitrary: ms)
  case (Cons h hs)
  obtain c d where c: "SCOREP_HANDLE_DEREF cs h = Inr c" "cs h = Some c"
      "unified c \<noteq> SCOREP_MOVABLE_NULL" "unat (sequence_number c) < length ms"
      "SCOREP_HANDLE_DEREF cs (unified c) = Inr d" "cs (unified c) = Some d"
    using Cons.prems(2) [of h] by auto
  let ?ms = "ms[unat (sequence_number c) := sequence_number d]"
  have step: "assign_mapping cs (h # hs) ms = assign_mapping cs hs ?ms"
    using c by (simp add: SCOREP_HANDLE_TO_ID_def)
  have dist: "distinct (map (\<lambda>h. unat (sequence_number (the (cs h)))) hs)"
    and notin: "unat (sequence_number c) \<notin> (\<lambda>h. unat (sequence_number (the (cs h)))) ` set hs"
    using Cons.prems(1) c(2) by simp_all
  have "\<exists>c d. SCOREP_HANDLE_DEREF cs g = Inr c \<and> cs g = Some c \<and>
      unified c \<noteq> SCOREP_MOVABLE_NULL \<and> unat (sequence_number c) < length ?ms \<and>
      SCOREP_HANDLE_DEREF cs (unified c) = Inr d \<and> cs (unified c) = Some d" if "g \<in> set hs" for g
    using Cons.prems(2) [of g] that by simp
  from Cons.IH [OF dist this] obtain ms' where ms': "assign_mapping cs hs ?ms = Inr ms'"
    "length ms' = length ms"
    "\<forall>h\<in>set hs. ms' ! unat (sequence_number (the (cs h))) = sequence_number (the (cs (unified (the (cs h)))))"
    "\<forall>i. i \<notin> (\<lambda>h. unat (sequence_number (the (cs h)))) ` set hs \<longrightarrow> ms' ! i = ?ms ! i"
    by auto
  have "ms' ! unat (sequence_number c) = sequence_number d" using ms'(4) notin c(4) by simp
  then show ?case using step ms' c by (intro exI [of _ ms']) auto
qed simp

text \<open>What the unification of the local strings \<open>hs\<close> does.\<close>

definition strings_unified :: "'m defs \<Rightarrow> nat list \<Rightarrow> 'm defs \<Rightarrow> bool" where
  "strings_unified s hs s' \<longleftrightarrow>
     local_definition_manager s' = local_definition_manager s \<and>
     (\<exists>u u'. get_manager s Unified_Manager = Inr u \<and> get_manager s' Unified_Manager = Inr u' \<and>
        hashed u' Def_String = hashed u Def_String \<and>
        strings_of (cells s') u' = foldl intern (strings_of (cells s) u) (map (text_of (cells s)) hs) \<and>
        set (chain (u Def_String)) \<subseteq> set (chain (u' Def_String)) \<and>
        (\<forall>h\<in>set hs. \<exists>c. cells s' h = Some c \<and> unified c \<in> set (chain (u' Def_String)) \<and>
           text_of (cells s') (unified c) = text_of (cells s) h)) \<and>
     dom (cells s) \<subseteq> dom (cells s') \<and>
     (\<forall>h\<in>dom (cells s). text_of (cells s') h = text_of (cells s) h) \<and>
     (\<forall>h\<in>dom (cells s) - set hs. cells s' h = cells s h)"

lemma strings_unified_append:
  assumes a: "strings_unified s hs s1" and b: "strings_unified s1 gs s2"
    and hs: "set hs \<subseteq> dom (cells s)" and gs: "set gs \<subseteq> dom (cells s)" and disj: "set hs \<inter> set gs = {}"
    and u: "\<And>u1. get_manager s1 Unified_Manager = Inr u1 \<Longrightarrow> set (chain (u1 Def_String)) \<subseteq> dom (cells s1)"
  shows "strings_unified s (hs @ gs) s2"
proof -
  obtain v v1 where v: "get_manager s Unified_Manager = Inr v" "get_manager s1 Unified_Manager = Inr v1"
    "hashed v1 Def_String = hashed v Def_String"
    "strings_of (cells s1) v1 = foldl intern (strings_of (cells s) v) (map (text_of (cells s)) hs)"
    "set (chain (v Def_String)) \<subseteq> set (chain (v1 Def_String))"
    "\<forall>h\<in>set hs. \<exists>c. cells s1 h = Some c \<and> unified c \<in> set (chain (v1 Def_String)) \<and>
           text_of (cells s1) (unified c) = text_of (cells s) h"
    using a unfolding strings_unified_def by blast
  obtain v2 where v2: "get_manager s2 Unified_Manager = Inr v2" "hashed v2 Def_String = hashed v1 Def_String"
    "strings_of (cells s2) v2 = foldl intern (strings_of (cells s1) v1) (map (text_of (cells s1)) gs)"
    "set (chain (v1 Def_String)) \<subseteq> set (chain (v2 Def_String))"
    "\<forall>h\<in>set gs. \<exists>c. cells s2 h = Some c \<and> unified c \<in> set (chain (v2 Def_String)) \<and>
           text_of (cells s2) (unified c) = text_of (cells s1) h"
    using b v(2) unfolding strings_unified_def by auto
  have text1: "text_of (cells s1) h = text_of (cells s) h" if "h \<in> dom (cells s)" for h
    using a that unfolding strings_unified_def by blast
  have text2: "text_of (cells s2) h = text_of (cells s1) h" if "h \<in> dom (cells s1)" for h
    using b that unfolding strings_unified_def by blast
  have dom: "dom (cells s) \<subseteq> dom (cells s1)" "dom (cells s1) \<subseteq> dom (cells s2)"
    using a b unfolding strings_unified_def by blast+
  have keep1: "cells s1 h = cells s h" if "h \<in> dom (cells s) - set hs" for h
    using a that unfolding strings_unified_def by blast
  have keep2: "cells s2 h = cells s1 h" if "h \<in> dom (cells s1) - set gs" for h
    using b that unfolding strings_unified_def by blast
  have maps: "map (text_of (cells s1)) gs = map (text_of (cells s)) gs"
    using gs by (intro map_cong refl text1) blast
  have "\<exists>c. cells s2 h = Some c \<and> unified c \<in> set (chain (v2 Def_String)) \<and>
      text_of (cells s2) (unified c) = text_of (cells s) h" if h: "h \<in> set (hs @ gs)" for h
  proof (cases "h \<in> set hs")
    case True
    obtain c where c: "cells s1 h = Some c" "unified c \<in> set (chain (v1 Def_String))"
      "text_of (cells s1) (unified c) = text_of (cells s) h" using v(6) True by blast
    have "cells s2 h = Some c" using keep2 [of h] c(1) True disj by auto
    moreover have "text_of (cells s2) (unified c) = text_of (cells s) h"
      using text2 u [OF v(2)] c(2,3) by (metis subsetD)
    ultimately show ?thesis using c(2) v2(4) by blast
  next
    case False
    then have "h \<in> set gs" using h by simp
    then show ?thesis using v2(5) text1 gs by (metis subsetD)
  qed
  moreover have "strings_of (cells s2) v2 = foldl intern (strings_of (cells s) v) (map (text_of (cells s)) (hs @ gs))"
    using v(4) v2(3) unfolding maps by simp
  moreover have "local_definition_manager s2 = local_definition_manager s"
    using a b unfolding strings_unified_def by metis
  moreover have "text_of (cells s2) h = text_of (cells s) h" if "h \<in> dom (cells s)" for h
    using text1 [OF that] text2 dom(1) that by (metis subsetD)
  moreover have "cells s2 h = cells s h" if "h \<in> dom (cells s) - set (hs @ gs)" for h
    using keep1 [of h] keep2 [of h] dom(1) that by auto
  ultimately show ?thesis using v(1,3,5) v2(1,2,4) dom unfolding strings_unified_def by blast
qed

context program_definitions
begin

lemma set_unified_step:
  assumes inv: "inv s" and c: "cells s h = Some c"
  shows "set_unified h (u, s) = Inr (s\<lparr>cells := (cells s)(h \<mapsto> c\<lparr>unified := u\<rparr>)\<rparr>)"
    "inv (s\<lparr>cells := (cells s)(h \<mapsto> c\<lparr>unified := u\<rparr>)\<rparr>)"
    "text_of ((cells s)(h \<mapsto> c\<lparr>unified := u\<rparr>)) = text_of (cells s)"
proof -
  show "set_unified h (u, s) = Inr (s\<lparr>cells := (cells s)(h \<mapsto> c\<lparr>unified := u\<rparr>)\<rparr>)"
    using inv_deref [OF inv c] by (simp add: set_unified_def set_cell_def)
  have "equal_definition (type_of_body (body c)) (body c) (body c)" by (rule eq_refl)
  then show "inv (s\<lparr>cells := (cells s)(h \<mapsto> c\<lparr>unified := u\<rparr>)\<rparr>)"
    using inv_update(1) [OF inv c, of "c\<lparr>unified := u\<rparr>"] invD(4) [OF inv c] by simp
  show "text_of ((cells s)(h \<mapsto> c\<lparr>unified := u\<rparr>)) = text_of (cells s)"
    using c by (auto simp: text_of_def fun_eq_iff)
qed

lemma unify_one_string:
  assumes inv: "inv s" and u: "get_manager s Unified_Manager = Inr u" "hashed u Def_String"
    and h: "h \<in> set (chain (local_definition_manager s Def_String))"
  shows "unify_definition mem h s = Inl Out_Of_Memory \<or>
    (\<exists>s'. unify_definition mem h s = Inr s' \<and> inv s' \<and> strings_unified s [h] s')"
proof -
  have mgr: "get_manager s Local_Manager = Inr (local_definition_manager s)" by simp
  obtain c where c: "cells s h = Some c"
    "body c = String_Def (of_nat (length (text_of (cells s) h))) (text_of (cells s) h)"
    "length (text_of (cells s) h) < 2 ^ 32"
    by (rule string_cell [OF inv mgr h])
  have run: "unify_definition mem h s =
      and_then (scorep_definitions_new_string mem Unified_Manager (text_of (cells s) h) s) (set_unified h)"
    by (rule unify_definition_string [OF inv_deref [OF inv c(1)] c(2)])
  from new_string_step [OF inv u c(3)] show ?thesis
  proof (elim disjE exE conjE)
    fix g s1 u1 gs
    assume s1: "scorep_definitions_new_string mem Unified_Manager (text_of (cells s) h) s = Inr (g, s1)" "inv s1"
      "get_manager s1 Unified_Manager = Inr u1" "\<forall>ty. hashed u1 ty = hashed u ty"
      "g \<in> set (chain (u1 Def_String))" "text_of (cells s1) g = text_of (cells s) h" "map_le (cells s) (cells s1)"
      "strings_of (cells s1) u1 = intern (strings_of (cells s) u) (text_of (cells s) h)"
      "chain (u1 Def_String) = chain (u Def_String) @ gs"
      "\<forall>mid'. mid' \<noteq> Unified_Manager \<longrightarrow> get_manager s1 mid' = get_manager s mid'"
    have c1: "cells s1 h = Some c" using c(1) s1(7) by (metis domI map_le_def)
    let ?s2 = "s1\<lparr>cells := (cells s1)(h \<mapsto> c\<lparr>unified := g\<rparr>)\<rparr>"
    note su = set_unified_step [OF s1(2) c1, of g]
    have loc: "local_definition_manager s1 = local_definition_manager s"
      using s1(10) by (metis get_manager.simps(1) manager_id.distinct(1) sum.inject(2))
    have dom: "dom (cells s) \<subseteq> dom (cells s1)" using s1(7) by (rule map_le_implies_dom_le)
    have texts: "text_of (cells s1) x = text_of (cells s) x" if "x \<in> dom (cells s)" for x
      using that s1(7) by (auto simp: text_of_def map_le_def dom_def)
    have same: "text_of (cells ?s2) = text_of (cells s1)" using su(3) by simp
    then have strs: "strings_of (cells ?s2) u1 = foldl intern (strings_of (cells s) u) (map (text_of (cells s)) [h])"
      using s1(8) unfolding strings_of_def by simp
    have "strings_unified s [h] ?s2"
      unfolding strings_unified_def same
    proof (intro conjI exI)
      show "strings_of (cells ?s2) u1 = foldl intern (strings_of (cells s) u) (map (text_of (cells s)) [h])"
        by (rule strs)
      show "\<forall>x\<in>dom (cells s) - set [h]. cells ?s2 x = cells s x" using s1(7) by (auto simp: map_le_def)
    qed (use loc u(1) s1(3-6,9) dom texts in auto)
    then show ?thesis using run s1(1) su(1,2) by (intro disjI2 exI [of _ ?s2]) simp
  qed (simp add: run)
qed

lemma unified_in_dom:
  assumes "inv s" and "get_manager s mid = Inr m"
  shows "set (chain (m ty)) \<subseteq> dom (cells s)"
proof
  fix h assume "h \<in> set (chain (m ty))"
  then obtain c where "cells s h = Some c" using entry_inv_cell [OF invD(5) [OF assms]] by blast
  then show "h \<in> dom (cells s)" by blast
qed

lemma unify_strings_step:
  assumes "inv s" and "get_manager s Unified_Manager = Inr u" and "hashed u Def_String"
    and "set hs \<subseteq> set (chain (local_definition_manager s Def_String))" and "distinct hs"
  shows "unify_chain mem hs s = Inl Out_Of_Memory \<or>
    (\<exists>s'. unify_chain mem hs s = Inr s' \<and> inv s' \<and> strings_unified s hs s')"
  using assms
proof (induction hs arbitrary: s u)
  case Nil
  then show ?case by (auto simp: strings_unified_def)
next
  case (Cons h hs)
  have local_dom: "set (h # hs) \<subseteq> dom (cells s)"
    using Cons.prems(4) string_in_dom [OF Cons.prems(1)] by blast
  have h: "h \<in> set (chain (local_definition_manager s Def_String))" using Cons.prems(4) by simp
  from unify_one_string [OF Cons.prems(1-3) h] show ?case
  proof (elim disjE exE conjE)
    fix s1
    assume s1: "unify_definition mem h s = Inr s1" "inv s1" "strings_unified s [h] s1"
    then obtain u1 where u1: "get_manager s1 Unified_Manager = Inr u1" "hashed u1 Def_String"
      "local_definition_manager s1 = local_definition_manager s"
      using Cons.prems(2,3) unfolding strings_unified_def by auto
    have sub: "set hs \<subseteq> set (chain (local_definition_manager s1 Def_String))"
      using u1(3) Cons.prems(4) by simp
    have dist: "distinct hs" using Cons.prems(5) by simp
    from Cons.IH [OF s1(2) u1(1,2) sub dist] show ?thesis
    proof (elim disjE exE conjE)
      fix s'
      assume IH: "unify_chain mem hs s1 = Inr s'" "inv s'" "strings_unified s1 hs s'"
      have "strings_unified s ([h] @ hs) s'"
      proof (rule strings_unified_append [OF s1(3) IH(3)])
        show "set (chain (u1 Def_String)) \<subseteq> dom (cells s1)" if "get_manager s1 Unified_Manager = Inr u1" for u1
          by (rule unified_in_dom [OF s1(2) that])
      qed (use local_dom Cons.prems(5) in auto)
      then show ?thesis using s1(1) IH(1,2) by simp
    qed (simp add: s1(1))
  qed simp
qed

text \<open>Numbers as positions.\<close>

lemma cell_number:
  assumes "inv s" and "get_manager s mid = Inr m" and "i < length (chain (m ty))" and "length (chain (m ty)) < 2 ^ 32"
  obtains c where "cells s (chain (m ty) ! i) = Some c" "unat (sequence_number c) = i"
proof -
  obtain c where "cells s (chain (m ty) ! i) = Some c" "sequence_number c = of_nat i"
    using entry_invD(3) [OF invD(5) [OF assms(1,2)] assms(3)] by blast
  then show ?thesis using that assms(3,4) by (simp add: unsigned_of_nat take_bit_nat_eq_self)
qed

lemma intern_length: "length (foldl intern ss xs) \<le> length ss + length xs"
proof (induction xs arbitrary: ss)
  case (Cons x xs)
  have "length (intern ss x) \<le> length ss + 1" by (simp add: intern_def)
  then show ?case using Cons.IH [of "intern ss x"] by simp
qed simp

lemma unify_strings_mapping:
  assumes inv: "inv s" and u: "get_manager s Unified_Manager = Inr u" "hashed u Def_String"
    and ne: "chain (local_definition_manager s Def_String) \<noteq> []"
    and len: "length (chain (u Def_String)) + length (chain (local_definition_manager s Def_String)) < 2 ^ 32"
  shows "UNIFY_DEFINITION mem Def_String s = Inl Out_Of_Memory \<or>
    (\<exists>s' u' e ms. UNIFY_DEFINITION mem Def_String s = Inr s' \<and> inv s' \<and> get_manager s' Unified_Manager = Inr u' \<and>
       local_definition_manager s' = local_definition_manager s \<and>
       strings_of (cells s') u' =
         foldl intern (strings_of (cells s) u) (strings_of (cells s) (local_definition_manager s)) \<and>
       ASSIGN_MAPPING (cells s')
         (scorep_definitions_manager_entry_alloc_mapping (local_definition_manager s' Def_String)) = Inr e \<and>
       mapping e = Some ms \<and>
       map (\<lambda>i. strings_of (cells s') u' ! unat i) ms = strings_of (cells s) (local_definition_manager s))"
proof -
  let ?l = "local_definition_manager s" and ?hs = "chain (local_definition_manager s Def_String)"
  have mgr: "get_manager t Local_Manager = Inr (local_definition_manager t)" for t by simp
  have "distinct ?hs" using entry_invD(1) [OF invD(5) [OF inv mgr]] .
  from unify_strings_step [OF inv u subset_refl this]
  show ?thesis
  proof (elim disjE exE conjE)
    fix s'
    assume s': "unify_chain mem ?hs s = Inr s'" "inv s'" "strings_unified s ?hs s'"
    then obtain u' where u': "get_manager s' Unified_Manager = Inr u'" "local_definition_manager s' = ?l"
      "strings_of (cells s') u' = foldl intern (strings_of (cells s) u) (map (text_of (cells s)) ?hs)"
      "\<forall>h\<in>set ?hs. \<exists>c. cells s' h = Some c \<and> unified c \<in> set (chain (u' Def_String)) \<and>
           text_of (cells s') (unified c) = text_of (cells s) h"
      using u(1) unfolding strings_unified_def by auto
    let ?cs = "cells s'" and ?n = "length ?hs"
    let ?e = "scorep_definitions_manager_entry_alloc_mapping (local_definition_manager s' Def_String)"
    have n: "?n < 2 ^ 32" using len by simp
    have hs': "chain (local_definition_manager s' Def_String) = ?hs" using u'(2) by simp
    have len_u: "length (chain (u' Def_String)) < 2 ^ 32"
      using arg_cong [OF u'(3), of length] len intern_length [of "strings_of (cells s) u" "map (text_of (cells s)) ?hs"]
      by (simp add: strings_of_def)
    have num: "unat (sequence_number (the (?cs (?hs ! i)))) = i" if "i < ?n" for i
      using cell_number [OF s'(2) mgr, of i Def_String] that n unfolding hs' by force
    then have nums: "map (\<lambda>h. unat (sequence_number (the (?cs h)))) ?hs = [0..<?n]"
      by (intro nth_equalityI) simp_all
    have count: "counter (?l Def_String) = of_nat ?n" using entry_invD(2) [OF invD(5) [OF inv mgr]] .
    then have cnt: "unat (counter (?l Def_String)) = ?n" using n by (simp add: unsigned_of_nat take_bit_nat_eq_self)
    let ?ms = "replicate ?n (- 1 :: u32)"
    have map_e: "mapping ?e = Some ?ms" "chain ?e = ?hs" "counter ?e > 0"
      using cnt ne u'(2) by (auto simp: scorep_definitions_manager_entry_alloc_mapping_def word_neq_0_conv [symmetric])
    have unified: "\<exists>c d j. SCOREP_HANDLE_DEREF ?cs h = Inr c \<and> ?cs h = Some c \<and> unified c \<noteq> SCOREP_MOVABLE_NULL \<and>
        unat (sequence_number c) < length ?ms \<and> SCOREP_HANDLE_DEREF ?cs (unified c) = Inr d \<and>
        ?cs (unified c) = Some d \<and> unat (sequence_number d) = j \<and> j < length (chain (u' Def_String)) \<and>
        strings_of ?cs u' ! j = text_of (cells s) h" if h: "h \<in> set ?hs" for h
    proof -
      obtain c where c: "?cs h = Some c" "unified c \<in> set (chain (u' Def_String))"
        "text_of ?cs (unified c) = text_of (cells s) h" using u'(4) h by blast
      obtain j where j: "j < length (chain (u' Def_String))" "chain (u' Def_String) ! j = unified c"
        using c(2) by (auto simp: in_set_conv_nth)
      obtain d where d: "?cs (unified c) = Some d" "unat (sequence_number d) = j"
        using cell_number [OF s'(2) u'(1) j(1) len_u] j(2) by auto
      have nn: "unified c \<noteq> SCOREP_MOVABLE_NULL" using invD(2) [OF s'(2)] d(1) by auto
      obtain i where "i < ?n" "?hs ! i = h" using h by (auto simp: in_set_conv_nth)
      then have "unat (sequence_number c) < length ?ms" using num [of i] c(1) by simp
      moreover have "strings_of ?cs u' ! j = text_of (cells s) h" using j c(3) by (simp add: strings_of_def)
      ultimately show ?thesis using c(1) d j(1) nn inv_deref [OF s'(2)] by blast
    qed
    obtain ms where ms: "assign_mapping ?cs ?hs ?ms = Inr ms" "length ms = ?n"
      "\<forall>h\<in>set ?hs. ms ! unat (sequence_number (the (?cs h))) = sequence_number (the (?cs (unified (the (?cs h)))))"
    proof -
      have "distinct (map (\<lambda>h. unat (sequence_number (the (?cs h)))) ?hs)" unfolding nums by simp
      from assign_mapping_run [OF this, of ?ms] unified that show ?thesis by (metis length_replicate)
    qed
    have "map (\<lambda>i. strings_of ?cs u' ! unat i) ms = strings_of (cells s) ?l"
    proof (rule nth_equalityI)
      fix i assume "i < length (map (\<lambda>i. strings_of ?cs u' ! unat i) ms)"
      then have i: "i < ?n" using ms(2) by simp
      then have h: "?hs ! i \<in> set ?hs" by simp
      have "ms ! i = sequence_number (the (?cs (unified (the (?cs (?hs ! i))))))"
        using ms(3) h num [OF i] by metis
      moreover from unified [OF h] have "strings_of ?cs u' ! unat (sequence_number (the (?cs (unified (the (?cs (?hs ! i))))))) =
          text_of (cells s) (?hs ! i)" by force
      ultimately show "map (\<lambda>i. strings_of ?cs u' ! unat i) ms ! i = strings_of (cells s) ?l ! i"
        using i ms(2) by (simp add: strings_of_def)
    qed (simp add: ms(2) strings_of_def)
    moreover have "ASSIGN_MAPPING ?cs ?e = Inr (?e\<lparr>mapping := Some ms\<rparr>)"
      using map_e ms(1) by (simp add: ASSIGN_MAPPING_def)
    ultimately show ?thesis
      using s'(1,2) u' by (intro disjI2 exI [of _ s'] exI [of _ u'] exI [of _ "?e\<lparr>mapping := Some ms\<rparr>"] exI [of _ ms])
        (simp add: strings_of_def UNIFY_DEFINITION_def)
  qed (simp add: UNIFY_DEFINITION_def)
qed

end

end
