(* ===== verification/DefinitionProperties.thy ===== *)
theory DefinitionProperties
  imports Unification AllocatorMemory
begin

section \<open>Properties of the definitions of a process\<close>

text \<open>
  The properties of the definition manager on the page allocator. The contract of the memory is
  discharged by theory AllocatorMemory, the contract of the kinds by theory DefinitionKinds.
\<close>

interpretation scorep_definitions: program_definitions scorep_memory handles_held
  by unfold_locales

definition example_definitions :: "(page_manager \<times> allocator) defs" where
  "example_definitions =
     \<lparr>memory = (example_manager, example_allocator), cells = Map.empty,
      local_definition_manager = (\<lambda>_. scorep_definitions_manager_init_entry),
      unified_definition_manager = None, new_handles = [], definitions_initialized = False\<rparr>"

lemma example_held: "handles_held (memory example_definitions) {}"
  using example_allocator_inv
  by (auto simp: handles_held_def example_definitions_def example_manager_def)
    (auto simp: example_allocator_def)

text \<open>
  C7: strings are numbered. After the definitions have been initialized, a sequence of strings of any
  content is defined: unless the memory is exhausted, which ends the program, the handles give the
  strings back, the number of a string is its position in the list of the different strings in the
  order of their first definition (the empty string is number 0), and every invariant holds.
\<close>

theorem string_numbers:
  assumes "handles_held (memory s) {}" and "cells s = Map.empty" and "unified_definition_manager s = None"
    and "definitions_initialized s = False" and "list_all (\<lambda>x. length x < 2 ^ 32) xs"
  shows "and_then (SCOREP_Definitions_Initialize scorep_memory s) (new_strings scorep_memory xs) = Inl Out_Of_Memory \<or>
    (\<exists>hs s'. and_then (SCOREP_Definitions_Initialize scorep_memory s) (new_strings scorep_memory xs) = Inr (hs, s') \<and>
       defs_inv handles_held s' \<and> distinct (foldl intern [[]] xs) \<and>
       map (SCOREP_StringHandle_Get (cells s')) hs = map Inr xs \<and>
       map (SCOREP_Definitions_HandleToId (cells s')) hs =
         map (\<lambda>x. Inr (of_nat (position x (foldl intern [[]] xs)))) xs)"
proof -
  have len: "\<forall>x\<in>set xs. length x < 2 ^ 32" using assms(5) by (simp add: list_all_iff)
  from scorep_definitions.initialize_step [OF assms(1-4)] show ?thesis
  proof (elim disjE exE conjE)
    fix s0
    assume s0: "SCOREP_Definitions_Initialize scorep_memory s = Inr s0" "scorep_definitions.inv s0"
      "\<forall>ty\<in>set always_hashed. hashed (local_definition_manager s0) ty"
      "strings_of (cells s0) (local_definition_manager s0) = [[]]"
    have tab: "hashed (local_definition_manager s0) Def_String" using s0(3) by (simp add: always_hashed_def)
    from scorep_definitions.new_strings_step [OF s0(2) tab len] show ?thesis
    proof (elim disjE exE conjE)
      fix hs s'
      assume s': "new_strings scorep_memory xs s0 = Inr (hs, s')" "scorep_definitions.inv s'"
        "hashed (local_definition_manager s') Def_String"
        "strings_of (cells s') (local_definition_manager s') =
           foldl intern (strings_of (cells s0) (local_definition_manager s0)) xs"
        "set hs \<subseteq> set (chain (local_definition_manager s' Def_String))" "map (text_of (cells s')) hs = xs"
      have mgr: "get_manager s' Local_Manager = Inr (local_definition_manager s')" by simp
      note ss = s'(4) [unfolded s0(4)]
      have num: "SCOREP_Definitions_HandleToId (cells s') h =
            Inr (of_nat (position (text_of (cells s') h) (foldl intern [[]] xs))) \<and>
          SCOREP_StringHandle_Get (cells s') h = Inr (text_of (cells s') h)" if "h \<in> set hs" for h
      proof -
        have h: "h \<in> set (chain (local_definition_manager s' Def_String))" using s'(5) that by blast
        have "h \<noteq> SCOREP_MOVABLE_NULL"
          using scorep_definitions.string_in_dom [OF s'(2) h] scorep_definitions.invD(2) [OF s'(2)] by metis
        then show ?thesis
          using scorep_definitions.string_number [OF s'(2) mgr s'(3) h] ss
          by (simp add: SCOREP_Definitions_HandleToId_def)
      qed
      have "map (SCOREP_StringHandle_Get (cells s')) hs = map Inr xs"
        "map (SCOREP_Definitions_HandleToId (cells s')) hs =
         map (\<lambda>x. Inr (of_nat (position x (foldl intern [[]] xs)))) xs"
        using num by (simp_all add: s'(6) [symmetric] del: s'(6))
      then show ?thesis
        using s0(1) s'(1,2) scorep_definitions.strings_distinct [OF s'(2) mgr s'(3)] ss
        by (intro disjI2 exI [of _ hs] exI [of _ s']) (simp add: defs_inv_def)
    qed (simp add: s0(1))
  qed simp
qed
theorem string_numbers_witness:
  "\<exists>hs s'. and_then (SCOREP_Definitions_Initialize scorep_memory example_definitions)
       (new_strings scorep_memory [''main'', ''work'', ''main'']) = Inl Out_Of_Memory \<or>
     and_then (SCOREP_Definitions_Initialize scorep_memory example_definitions)
       (new_strings scorep_memory [''main'', ''work'', ''main'']) = Inr (hs, s') \<and>
     map (SCOREP_Definitions_HandleToId (cells s')) hs = [Inr 1, Inr 2, Inr 1]"
  using string_numbers [of example_definitions "[''main'', ''work'', ''main'']"] example_held
  by (auto simp: example_definitions_def intern_def)

definition example_tables :: definition_manager where
  "example_tables = projr (SCOREP_Definitions_InitializeDefinitionManager False)"

lemma example_tables:
  "defs_inv handles_held (example_definitions\<lparr>local_definition_manager := example_tables\<rparr>)"
  "list_all (hashed example_tables) always_hashed"
  "defs_inv handles_held (example_definitions\<lparr>local_definition_manager := example_tables,
     unified_definition_manager := Some example_tables\<rparr>)"
  "chain (example_tables ty) = []"
proof -
  obtain m where m: "SCOREP_Definitions_InitializeDefinitionManager False = Inr m"
    using initialize_run by blast
  then have "example_tables = m" by (simp add: example_tables_def)
  have inv: "defs_inv handles_held (example_definitions\<lparr>local_definition_manager := example_tables,
     unified_definition_manager := u\<rparr>)" (is "defs_inv _ ?s") if u: "u \<in> {None, Some example_tables}" for u
  proof -
    have "entry_inv cs type_of_body (equal_definition ty) ty (m' ty)" if "get_manager ?s mid = Inr m'" for cs mid m' ty
      using that u initialize_inv [OF m] \<open>example_tables = m\<close> by (cases mid) (auto simp: example_definitions_def)
    moreover have "memory ?s = memory example_definitions" "cells ?s = Map.empty"
      by (simp_all add: example_definitions_def)
    ultimately show ?thesis using example_held unfolding defs_inv_def definitions_inv_def by simp
  qed
  have "example_definitions\<lparr>local_definition_manager := example_tables, unified_definition_manager := None\<rparr> =
      example_definitions\<lparr>local_definition_manager := example_tables\<rparr>"
    by (simp add: example_definitions_def)
  then show "defs_inv handles_held (example_definitions\<lparr>local_definition_manager := example_tables\<rparr>)"
    "defs_inv handles_held (example_definitions\<lparr>local_definition_manager := example_tables,
       unified_definition_manager := Some example_tables\<rparr>)"
    using inv [of None] inv [of "Some example_tables"] by simp_all
  show "list_all (hashed example_tables) always_hashed" "chain (example_tables ty) = []"
    using m unfolding \<open>example_tables = m\<close> initialize_run
    by (auto simp: hashed_def hashed_entry_def list_all_iff scorep_definitions_manager_init_entry_def)
qed

lemma file_name_extends:
  assumes "file_name_of cs h = Inr f" and "map_le cs cs'"
  shows "file_name_of cs' h = Inr f"
proof (cases "h = SCOREP_MOVABLE_NULL")
  case False
  then obtain c where "cs h = Some c" "SCOREP_HANDLE_DEREF cs h = Inr c"
    using assms(1) by (cases "cs h") (simp_all add: file_name_of_def SCOREP_HANDLE_DEREF_def)
  moreover from this have "cs' h = Some c" using assms(2) by (metis domI map_le_def)
  ultimately show ?thesis using assms(1) False
    by (simp add: file_name_of_def SCOREP_HANDLE_DEREF_def)
qed (use assms(1) in \<open>simp add: file_name_of_def\<close>)

lemma region_getters:
  assumes inv: "scorep_definitions.inv s" and tab: "hashed (local_definition_manager s) Def_String"
    and r: "is_region s h r n c"
  shows "SCOREP_RegionHandle_GetName (cells s) h = Inr n" "SCOREP_RegionHandle_GetCanonicalName (cells s) h = Inr c"
    "SCOREP_RegionHandle_GetType (cells s) h = Inr (region_type r)"
proof -
  have mgr: "get_manager s Local_Manager = Inr (local_definition_manager s)" by simp
  note str = scorep_definitions.string_number(2) [OF inv mgr tab]
  obtain d where d: "cells s h = Some d" "body d = Region_Def r" using r by (auto simp: is_region_def)
  then have "get_region (cells s) h = Inr r"
    using scorep_definitions.inv_deref [OF inv] by (simp add: get_region_def)
  then show "SCOREP_RegionHandle_GetName (cells s) h = Inr n" "SCOREP_RegionHandle_GetCanonicalName (cells s) h = Inr c"
    "SCOREP_RegionHandle_GetType (cells s) h = Inr (region_type r)"
    using r str unfolding is_region_def
    by (simp_all add: SCOREP_RegionHandle_GetName_def SCOREP_RegionHandle_GetCanonicalName_def SCOREP_RegionHandle_GetType_def)
qed

text \<open>
  C5: the identity of regions. Two regions are defined one after the other, with any names (or none),
  source files, lines, paradigms and types: unless the memory is exhausted both calls succeed, every
  invariant holds, the handles answer the names and types given, with the defaults for missing names,
  and the two handles are the same exactly when all of these agree.
\<close>

theorem region_handles:
  assumes "defs_inv handles_held s" and "list_all (hashed (local_definition_manager s)) always_hashed"
    and "file_name_of (cells s) fl1 = Inr f1" and "f1 \<in> {SCOREP_MOVABLE_NULL} \<union> dom (cells s)"
    and "file_name_of (cells s) fl2 = Inr f2" and "f2 \<in> {SCOREP_MOVABLE_NULL} \<union> dom (cells s)"
    and "list_all (\<lambda>x. length x < 2 ^ 32)
      [region_name n1, region_canonical_name n1 c1, region_name n2, region_canonical_name n2 c2]"
  shows "and_then (SCOREP_Definitions_NewRegion scorep_memory n1 c1 fl1 b1 e1 p1 t1 s) (\<lambda>(h1, s).
      and_then (SCOREP_Definitions_NewRegion scorep_memory n2 c2 fl2 b2 e2 p2 t2 s) (\<lambda>(h2, s).
      Inr (h1, h2, s))) = Inl Out_Of_Memory \<or>
    (\<exists>h1 h2 s'. and_then (SCOREP_Definitions_NewRegion scorep_memory n1 c1 fl1 b1 e1 p1 t1 s) (\<lambda>(h1, s).
      and_then (SCOREP_Definitions_NewRegion scorep_memory n2 c2 fl2 b2 e2 p2 t2 s) (\<lambda>(h2, s).
      Inr (h1, h2, s))) = Inr (h1, h2, s') \<and> defs_inv handles_held s' \<and>
      map (SCOREP_RegionHandle_GetName (cells s')) [h1, h2] = map Inr [region_name n1, region_name n2] \<and>
      map (SCOREP_RegionHandle_GetCanonicalName (cells s')) [h1, h2] =
        map Inr [region_canonical_name n1 c1, region_canonical_name n2 c2] \<and>
      map (SCOREP_RegionHandle_GetType (cells s')) [h1, h2] = map Inr [t1, t2] \<and>
      (h1 = h2 \<longleftrightarrow> (region_name n1, region_canonical_name n1 c1, f1, b1, e1, p1, t1) =
        (region_name n2, region_canonical_name n2 c2, f2, b2, e2, p2, t2)))"
proof -
  let ?run1 = "SCOREP_Definitions_NewRegion scorep_memory n1 c1 fl1 b1 e1 p1 t1 s"
  have inv: "scorep_definitions.inv s" using assms(1) by (simp add: defs_inv_def)
  have tabs: "hashed (local_definition_manager s) Def_String" "hashed (local_definition_manager s) Def_Region"
    using assms(2) by (simp_all add: always_hashed_def)
  have f1: "f1 = SCOREP_MOVABLE_NULL \<or> f1 \<in> dom (cells s)" and f2: "f2 = SCOREP_MOVABLE_NULL \<or> f2 \<in> dom (cells s)"
    using assms(4,6) by simp_all
  have len: "length (region_name n1) < 2 ^ 32" "length (region_canonical_name n1 c1) < 2 ^ 32"
    "length (region_name n2) < 2 ^ 32" "length (region_canonical_name n2 c2) < 2 ^ 32"
    using assms(7) by simp_all
  from scorep_definitions.new_region_step [OF inv tabs assms(3) f1 len(1,2), of b1 e1 p1 t1]
  show ?thesis
  proof (elim disjE exE conjE)
    fix h1 s1 r1
    assume s1: "?run1 = Inr (h1, s1)" "scorep_definitions.inv s1"
      "\<forall>ty. hashed (local_definition_manager s1) ty = hashed (local_definition_manager s) ty"
      "map_le (cells s) (cells s1)" "is_region s1 h1 r1 (region_name n1) (region_canonical_name n1 c1)"
      "file_name_handle r1 = f1" "begin_line r1 = b1" "end_line r1 = e1" "paradigm_type r1 = p1" "region_type r1 = t1"
    let ?run2 = "SCOREP_Definitions_NewRegion scorep_memory n2 c2 fl2 b2 e2 p2 t2 s1"
    have tabs1: "hashed (local_definition_manager s1) Def_String" "hashed (local_definition_manager s1) Def_Region"
      using tabs s1(3) by simp_all
    have f2': "f2 = SCOREP_MOVABLE_NULL \<or> f2 \<in> dom (cells s1)"
      using f2 map_le_implies_dom_le [OF s1(4)] by blast
    from scorep_definitions.new_region_step [OF s1(2) tabs1 file_name_extends [OF assms(5) s1(4)] f2' len(3,4), of b2 e2 p2 t2]
    show ?thesis
    proof (elim disjE exE conjE)
      fix h2 s2 r2
      assume s2: "?run2 = Inr (h2, s2)" "scorep_definitions.inv s2"
        "\<forall>ty. hashed (local_definition_manager s2) ty = hashed (local_definition_manager s1) ty"
        "map_le (cells s1) (cells s2)" "is_region s2 h2 r2 (region_name n2) (region_canonical_name n2 c2)"
        "file_name_handle r2 = f2" "begin_line r2 = b2" "end_line r2 = e2" "paradigm_type r2 = p2" "region_type r2 = t2"
        "\<forall>ty. set (chain (local_definition_manager s1 ty)) \<subseteq> set (chain (local_definition_manager s2 ty))"
      have tabs2: "hashed (local_definition_manager s2) Def_String" "hashed (local_definition_manager s2) Def_Region"
        using tabs1 s2(3) by simp_all
      note r1 = scorep_definitions.is_region_extends [OF s1(2,5) s2(4,11)]
      note get = region_getters [OF s2(2) tabs2(1)]
      have "h1 = h2 \<longleftrightarrow> (region_name n1, region_canonical_name n1 c1, f1, b1, e1, p1, t1) =
        (region_name n2, region_canonical_name n2 c2, f2, b2, e2, p2, t2)"
        using scorep_definitions.region_identity [OF s2(2) tabs2 r1 s2(5)] s1(6-10) s2(6-10) by simp
      then show ?thesis
        using s1(1,10) s2(1,2,10) get [OF r1] get [OF s2(5)]
        by (intro disjI2 exI [of _ h1] exI [of _ h2] exI [of _ s2]) (simp add: defs_inv_def)
    qed (simp add: s1(1))
  qed simp
qed


theorem region_handles_witness:
  "let s = example_definitions\<lparr>local_definition_manager := example_tables\<rparr>;
       run = and_then (SCOREP_Definitions_NewRegion scorep_memory (Some ''main'') None 0 1 9 2 3 s) (\<lambda>(h1, s).
             and_then (SCOREP_Definitions_NewRegion scorep_memory (Some ''main'') (Some ''main'') 0 1 9 2 3 s) (\<lambda>(h2, s).
             Inr (h1, h2, s)))
   in run = Inl Out_Of_Memory \<or> (\<exists>h s'. run = Inr (h, h, s'))"
  using region_handles [of "example_definitions\<lparr>local_definition_manager := example_tables\<rparr>" 0 0 0 0
      "Some ''main''" None "Some ''main''" "Some ''main''" 1 9 2 3 1 9 2 3] example_tables
  by (auto simp: Let_def file_name_of_def SCOREP_MOVABLE_NULL_def region_name_def region_canonical_name_def)

lemma bit_31_iff: "unat (x :: u32) < 2 ^ 31 \<longleftrightarrow> \<not> bit x 31"
proof -
  have "unat x < 2 ^ 32" using unsigned_less [of x] by simp
  then have "unat x div 2 ^ 31 < 2" by (simp add: div_less_iff_less_mult)
  then have "unat x div 2 ^ 31 = 0 \<or> unat x div 2 ^ 31 = 1" by linarith
  moreover have "bit x 31 \<longleftrightarrow> odd (unat x div 2 ^ 31)"
    using bit_iff_odd [of "unat x" 31] by (simp add: bit_unsigned_iff)
  ultimately show ?thesis by auto
qed
lemma sign_extension_harmless: "(scast (x :: u32) :: u64) = ucast x \<longleftrightarrow> unat x < 2 ^ 31" 
  unfolding bit_31_iff
proof
    assume eq: "(scast x :: u64) = ucast x"
    show "\<not> bit x 31"
    proof
      assume "bit x 31"
      then have "bit (scast x :: u64) 32" by (simp add: bit_simps)
      then have "bit (ucast x :: u64) 32" using eq by simp
      then show False by (auto simp: bit_simps dest: bit_imp_le_length)
    qed
  next
    assume "\<not> bit x 31"
    have "n = 31" if "31 \<le> n" "bit x n" for n
      using that bit_imp_le_length [of x n] by simp
    then show "(scast x :: u64) = ucast x"
      using \<open>\<not> bit x 31\<close> by (intro bit_word_eqI) (auto simp: bit_simps min_def)
qed
text \<open>
  Widening of group members. The array of 32-bit members of a group is read as signed numbers: the
  64-bit members are the given ones exactly when all of them are below 2 to the 31; a larger one is
  sign-extended, so that for example rank 4294967295 becomes 18446744073709551615.
\<close>

theorem group_members_widened:
  "copy_members True (Members_32 xs) (length xs) = Inr (map ucast xs) \<longleftrightarrow> list_all (\<lambda>x. unat x < 2 ^ 31) xs"
  by (simp add: list_all_iff sign_extension_harmless)

text \<open>
  C6: unification of the strings of a process. Unless the memory is exhausted, the unified strings become
  the former ones followed by the local ones that were missing, in order and without duplicates; the
  local definitions stay; and the mapping built from the result takes the number of every local string
  to the number of the unified string with the same text.
\<close>

theorem strings_unified_mapping:
  assumes "defs_inv handles_held s" and "get_manager s Unified_Manager = Inr u" and "hashed u Def_String"
    and "length (chain (u Def_String)) + length (chain (local_definition_manager s Def_String)) < 2 ^ 32"
  shows "UNIFY_DEFINITION scorep_memory Def_String s = Inl Out_Of_Memory \<or>
    (\<exists>s' u' e. UNIFY_DEFINITION scorep_memory Def_String s = Inr s' \<and> defs_inv handles_held s' \<and>
       get_manager s' Unified_Manager = Inr u' \<and> local_definition_manager s' = local_definition_manager s \<and>
       strings_of (cells s') u' =
         foldl intern (strings_of (cells s) u) (strings_of (cells s) (local_definition_manager s)) \<and>
       ASSIGN_MAPPING (cells s')
         (scorep_definitions_manager_entry_alloc_mapping (local_definition_manager s' Def_String)) = Inr e \<and>
       map (\<lambda>i. strings_of (cells s') u' ! unat i) (case mapping e of None \<Rightarrow> [] | Some ms \<Rightarrow> ms) =
         strings_of (cells s) (local_definition_manager s))"
proof (cases "chain (local_definition_manager s Def_String) = []")
  case True
  have inv: "scorep_definitions.inv s" using assms(1) by (simp add: defs_inv_def)
  have "counter (local_definition_manager s Def_String) = 0"
    using entry_invD(2) [OF scorep_definitions.invD(5) [OF inv, of Local_Manager "local_definition_manager s"]] True by simp
  then show ?thesis using True assms(1,2)
    by (simp add: UNIFY_DEFINITION_def strings_of_def ASSIGN_MAPPING_def
        scorep_definitions_manager_entry_alloc_mapping_def)
next
  case False
  have inv: "scorep_definitions.inv s" using assms(1) by (simp add: defs_inv_def)
  from scorep_definitions.unify_strings_mapping [OF inv assms(2,3) False assms(4)] show ?thesis
  proof (elim disjE exE conjE)
    fix s' u' e ms
    assume "UNIFY_DEFINITION scorep_memory Def_String s = Inr s'" "scorep_definitions.inv s'"
      "get_manager s' Unified_Manager = Inr u'" "local_definition_manager s' = local_definition_manager s"
      "strings_of (cells s') u' =
         foldl intern (strings_of (cells s) u) (strings_of (cells s) (local_definition_manager s))"
      "ASSIGN_MAPPING (cells s')
         (scorep_definitions_manager_entry_alloc_mapping (local_definition_manager s' Def_String)) = Inr e"
      "mapping e = Some ms"
      "map (\<lambda>i. strings_of (cells s') u' ! unat i) ms = strings_of (cells s) (local_definition_manager s)"
    then show ?thesis unfolding defs_inv_def
      by (intro disjI2 exI [of _ s'] exI [of _ u'] exI [of _ e]) simp
  qed simp
qed

theorem strings_unified_mapping_witness:
  "let s = example_definitions\<lparr>local_definition_manager := example_tables, unified_definition_manager := Some example_tables\<rparr>;
       run = and_then (SCOREP_Definitions_NewString scorep_memory (Some ''main'') s)
               (\<lambda>(h, s). UNIFY_DEFINITION scorep_memory Def_String s)
   in run = Inl Out_Of_Memory \<or>
      (\<exists>s' u'. run = Inr s' \<and> get_manager s' Unified_Manager = Inr u' \<and> strings_of (cells s') u' = [''main''])"
proof -
  let ?s = "example_definitions\<lparr>local_definition_manager := example_tables, unified_definition_manager := Some example_tables\<rparr>"
  let ?new = "scorep_definitions_new_string scorep_memory Local_Manager ''main'' ?s"
  have inv: "scorep_definitions.inv ?s" using example_tables(3) by (simp add: defs_inv_def)
  have tab: "hashed example_tables Def_String" "chain (example_tables Def_String) = []"
    using example_tables(2,4) by (simp_all add: always_hashed_def)
  have mgr: "get_manager ?s Local_Manager = Inr example_tables"
    "get_manager ?s Unified_Manager = Inr example_tables" by simp_all
  have none: "strings_of cs example_tables = []" for cs using tab by (simp add: strings_of_def)
  from scorep_definitions.new_string_step [OF inv mgr(1) tab(1), of "''main''"]
  have "?new = Inl Out_Of_Memory \<or>
      (\<exists>s1. and_then ?new (\<lambda>(h, s). Inr s) = Inr s1 \<and> defs_inv handles_held s1 \<and>
         get_manager s1 Unified_Manager = Inr example_tables \<and>
         strings_of (cells s1) (local_definition_manager s1) = [''main''])"
    using mgr(2) none unfolding defs_inv_def by (auto simp: intern_def)
  then show ?thesis
  proof (elim disjE exE conjE)
    fix s1
    assume s1: "and_then ?new (\<lambda>(h, s). Inr s) = Inr s1" "defs_inv handles_held s1"
      "get_manager s1 Unified_Manager = Inr example_tables"
      "strings_of (cells s1) (local_definition_manager s1) = [''main'']"
    have "length (chain (local_definition_manager s1 Def_String)) = 1"
      using arg_cong [OF s1(4), of length] by (simp add: strings_of_def)
    then show ?thesis
      using strings_unified_mapping [OF s1(2,3) tab(1)] s1(1,4) tab(2) none
      by (auto simp: Let_def SCOREP_Definitions_NewString_def intern_def and_then_Inr_iff)
  qed (simp add: SCOREP_Definitions_NewString_def)
qed

end
