(* ===== verification/ProfileNode.thy ===== *)
theory ProfileNode
  imports Prelude
begin

section \<open>The nodes of a profile\<close>

text \<open>
  \<^verbatim>\<open>src/measurement/profiling/scorep_profile_node.c\<close>, \<^verbatim>\<open>scorep_profile_metric.c\<close>,
  \<^verbatim>\<open>scorep_profile_node_type.c\<close> and the recycling of nodes of \<^verbatim>\<open>scorep_profile_location.c\<close>: a profile is a
  tree of nodes per thread, one node per call path, linked by the pointers \<^verbatim>\<open>parent\<close>, \<^verbatim>\<open>first_child\<close> and
  \<^verbatim>\<open>next_sibling\<close>.

  Nodes live in a store from addresses to nodes; the null pointer is 0. The addresses that memory
  management will answer are given as a list, and an empty list is exhausted memory. The blocks of dense metrics
  and the chains of sparse metrics are part of their node. A loop along a chain of pointers runs
  with fuel, one more than the number of nodes ever made; using it up means that the loop does not end.
  Metrics of type \<^verbatim>\<open>double\<close> are left out.
\<close>

subsection \<open>Metrics\<close>

record dense_metric =
  metric_sum :: u64
  metric_min :: u64
  metric_max :: u64
  squares :: u64
  start_value :: u64
  intermediate_sum :: u64

definition scorep_profile_init_dense_metric :: dense_metric where
  "scorep_profile_init_dense_metric =
     \<lparr>metric_sum = 0, metric_min = - 1, metric_max = 0, squares = 0, start_value = 0, intermediate_sum = 0\<rparr>"

definition scorep_profile_update_dense_metric :: "u64 \<Rightarrow> dense_metric \<Rightarrow> dense_metric" where
  "scorep_profile_update_dense_metric end_value m =
     (let diff = end_value - start_value m + intermediate_sum m
      in m\<lparr>intermediate_sum := 0, metric_sum := metric_sum m + diff,
           metric_min := if metric_min m > diff then diff else metric_min m,
           metric_max := if metric_max m < diff then diff else metric_max m,
           squares := squares m + diff * diff\<rparr>)"

text \<open>The start value is not copied.\<close>

definition scorep_profile_copy_dense_metric :: "dense_metric \<Rightarrow> dense_metric \<Rightarrow> dense_metric" where
  "scorep_profile_copy_dense_metric destination source =
     destination\<lparr>metric_sum := metric_sum source, metric_min := metric_min source,
       metric_max := metric_max source, squares := squares source,
       intermediate_sum := intermediate_sum source\<rparr>"

definition scorep_profile_merge_dense_metric :: "dense_metric \<Rightarrow> dense_metric \<Rightarrow> dense_metric" where
  "scorep_profile_merge_dense_metric destination source =
     destination\<lparr>metric_sum := metric_sum destination + metric_sum source,
       metric_min := if metric_min destination > metric_min source then metric_min source else metric_min destination,
       metric_max := if metric_max destination < metric_max source then metric_max source else metric_max destination,
       squares := squares destination + squares source,
       intermediate_sum := intermediate_sum destination + intermediate_sum source\<rparr>"

text \<open>Sparse metrics, of integers.\<close>

datatype update_scheme = Update_Begin_Value | Update_End_Value | Update_Value_As_Is

record sparse_metric =
  sparse_handle :: nat
  start_value_set :: bool
  sparse_count :: u64
  sparse_start :: u64
  sparse_sum :: u64
  sparse_min :: u64
  sparse_max :: u64
  sparse_squares :: u64

fun scorep_profile_create_sparse_int :: "nat \<Rightarrow> u64 \<Rightarrow> update_scheme \<Rightarrow> sparse_metric outcome" where
  "scorep_profile_create_sparse_int metric val Update_Begin_Value =
     Inr \<lparr>sparse_handle = metric, start_value_set = True, sparse_count = 0, sparse_start = val,
          sparse_sum = 0, sparse_min = - 1, sparse_max = 0, sparse_squares = 0\<rparr>"
| "scorep_profile_create_sparse_int metric val Update_End_Value = Inl Abort"
| "scorep_profile_create_sparse_int metric val Update_Value_As_Is =
     Inr \<lparr>sparse_handle = metric, start_value_set = False, sparse_count = 1, sparse_start = 0,
          sparse_sum = val, sparse_min = val, sparse_max = val, sparse_squares = val * val\<rparr>"

definition add_sparse_value :: "u64 \<Rightarrow> sparse_metric \<Rightarrow> sparse_metric" where
  "add_sparse_value val m =
     m\<lparr>sparse_count := sparse_count m + 1, sparse_sum := sparse_sum m + val,
       sparse_min := if sparse_min m > val then val else sparse_min m,
       sparse_max := if sparse_max m < val then val else sparse_max m,
       sparse_squares := sparse_squares m + val * val\<rparr>"

fun scorep_profile_update_sparse_int :: "sparse_metric \<Rightarrow> u64 \<Rightarrow> update_scheme \<Rightarrow> sparse_metric outcome" where
  "scorep_profile_update_sparse_int m val Update_Begin_Value =
     assert_that (\<not> start_value_set m) (Inr (m\<lparr>start_value_set := True, sparse_start := val\<rparr>))"
| "scorep_profile_update_sparse_int m val Update_End_Value =
     assert_that (start_value_set m) (
     assert_that (\<not> val < sparse_start m)
       (Inr (add_sparse_value (val - sparse_start m) (m\<lparr>start_value_set := False\<rparr>))))"
| "scorep_profile_update_sparse_int m val Update_Value_As_Is =
     assert_that (\<not> (start_value_set m \<or> sparse_start m \<noteq> 0)) (Inr (add_sparse_value val m))"

definition scorep_profile_merge_sparse_metric_int :: "sparse_metric \<Rightarrow> sparse_metric \<Rightarrow> sparse_metric" where
  "scorep_profile_merge_sparse_metric_int destination source =
     destination\<lparr>sparse_count := sparse_count destination + sparse_count source,
       sparse_sum := sparse_sum destination + sparse_sum source,
       sparse_min := if sparse_min destination > sparse_min source then sparse_min source else sparse_min destination,
       sparse_max := if sparse_max destination < sparse_max source then sparse_max source else sparse_max destination,
       sparse_squares := sparse_squares destination + sparse_squares source\<rparr>"

subsection \<open>Type dependent data\<close>

text \<open>The order of the constructors is that of the enumeration, which \<open>type_index\<close> gives.\<close>

datatype node_type =
    Node_Regular_Region | Node_Parameter_String | Node_Parameter_Integer | Node_Thread_Root
  | Node_Thread_Start | Node_Collapse | Node_Task_Root

fun type_index :: "node_type \<Rightarrow> nat" where
  "type_index Node_Regular_Region = 0"
| "type_index Node_Parameter_String = 1"
| "type_index Node_Parameter_Integer = 2"
| "type_index Node_Thread_Root = 3"
| "type_index Node_Thread_Start = 4"
| "type_index Node_Collapse = 5"
| "type_index Node_Task_Root = 6"

record type_data =
  handle_entry :: u64
  value_entry :: u64

text \<open>The table of functions by type.\<close>

definition compare_only_handle :: "type_data \<Rightarrow> type_data \<Rightarrow> bool" where
  "compare_only_handle data1 data2 \<longleftrightarrow> handle_entry data1 = handle_entry data2"

definition compare_only_value :: "type_data \<Rightarrow> type_data \<Rightarrow> bool" where
  "compare_only_value data1 data2 \<longleftrightarrow> value_entry data1 = value_entry data2"

definition compare_both_entries :: "type_data \<Rightarrow> type_data \<Rightarrow> bool" where
  "compare_both_entries data1 data2 \<longleftrightarrow>
     handle_entry data1 = handle_entry data2 \<and> value_entry data1 = value_entry data2"

definition hash_by_both_entries :: "type_data \<Rightarrow> u64" where
  "hash_by_both_entries data =
     (drop_bit 1 (handle_entry data) OR push_bit 31 (handle_entry data)) + value_entry data"

definition less_than_by_both_entries :: "type_data \<Rightarrow> type_data \<Rightarrow> bool" where
  "less_than_by_both_entries data1 data2 \<longleftrightarrow>
     (if handle_entry data1 < handle_entry data2 then True
      else if handle_entry data1 > handle_entry data2 then False
      else value_entry data1 < value_entry data2)"

fun scorep_profile_compare_type_data :: "type_data \<Rightarrow> type_data \<Rightarrow> node_type \<Rightarrow> bool" where
  "scorep_profile_compare_type_data data1 data2 Node_Regular_Region = compare_both_entries data1 data2"
| "scorep_profile_compare_type_data data1 data2 Node_Parameter_String = compare_both_entries data1 data2"
| "scorep_profile_compare_type_data data1 data2 Node_Parameter_Integer = compare_both_entries data1 data2"
| "scorep_profile_compare_type_data data1 data2 Node_Thread_Root = compare_only_value data1 data2"
| "scorep_profile_compare_type_data data1 data2 Node_Thread_Start = compare_only_handle data1 data2"
| "scorep_profile_compare_type_data data1 data2 Node_Collapse = compare_only_value data1 data2"
| "scorep_profile_compare_type_data data1 data2 Node_Task_Root = compare_only_handle data1 data2"

fun scorep_profile_hash_for_type_data :: "type_data \<Rightarrow> node_type \<Rightarrow> u64" where
  "scorep_profile_hash_for_type_data data Node_Regular_Region = handle_entry data"
| "scorep_profile_hash_for_type_data data Node_Parameter_String = hash_by_both_entries data"
| "scorep_profile_hash_for_type_data data Node_Parameter_Integer = hash_by_both_entries data"
| "scorep_profile_hash_for_type_data data Node_Thread_Root = value_entry data"
| "scorep_profile_hash_for_type_data data Node_Thread_Start = handle_entry data"
| "scorep_profile_hash_for_type_data data Node_Collapse = value_entry data"
| "scorep_profile_hash_for_type_data data Node_Task_Root = handle_entry data"

fun scorep_profile_less_than_for_type_data :: "type_data \<Rightarrow> type_data \<Rightarrow> node_type \<Rightarrow> bool" where
  "scorep_profile_less_than_for_type_data data1 data2 Node_Regular_Region \<longleftrightarrow> handle_entry data1 < handle_entry data2"
| "scorep_profile_less_than_for_type_data data1 data2 Node_Parameter_String = less_than_by_both_entries data1 data2"
| "scorep_profile_less_than_for_type_data data1 data2 Node_Parameter_Integer = less_than_by_both_entries data1 data2"
| "scorep_profile_less_than_for_type_data data1 data2 Node_Thread_Root \<longleftrightarrow> value_entry data1 < value_entry data2"
| "scorep_profile_less_than_for_type_data data1 data2 Node_Thread_Start \<longleftrightarrow> handle_entry data1 < handle_entry data2"
| "scorep_profile_less_than_for_type_data data1 data2 Node_Collapse \<longleftrightarrow> value_entry data1 < value_entry data2"
| "scorep_profile_less_than_for_type_data data1 data2 Node_Task_Root \<longleftrightarrow> handle_entry data1 < handle_entry data2"

subsection \<open>Nodes\<close>

text \<open>What a node says of its call path, and the node with its links.\<close>

record node_data =
  node_type :: node_type
  type_specific_data :: type_data
  callpath_handle :: nat
  inclusive_time :: dense_metric
  dense_metrics :: "dense_metric list"
  int_sparse :: "sparse_metric list"
  node_count :: u64
  hits :: u64
  first_enter_time :: u64
  last_exit_time :: u64
  flags :: u8

record profile_node = node_data +
  parent :: nat
  first_child :: nat
  next_sibling :: nat

definition NULL :: nat where
  "NULL = 0"

datatype task_context = Context_Untied | Context_Tied

text \<open>
  The data of a location, without its task objects, and the profile with the store. The items of the list of fork
  points stay for reuse when a parallel region is left; the pointer to the last one in use is its
  position in the list, if any.

  \<open>max_nodes\<close> counts the nodes ever made; \<open>number_of_metrics\<close> is what the metric service answers for
  the number of strictly synchronous metrics.
\<close>

record fork_item =
  fork_node :: nat
  fork_sequence_count :: u32
  profile_depth :: u32

record profile_location =
  root_node :: nat
  creation_node :: nat
  current_implicit_node :: nat
  implicit_depth :: u32
  fork_list :: "fork_item list"
  fork_list_tail :: "nat option"
  current_task_node :: nat
  current_depth :: u32
  free_nodes :: nat
  free_int_metrics :: "sparse_metric list"
  free_stubs :: nat
  foreign_stubs :: nat
  num_foreign_stubs :: u32
  migration_sum :: u64
  migration_win :: u64

record profile =
  nodes :: "nat \<rightharpoonup> profile_node"
  max_nodes :: nat
  free_memory :: "nat list"
  locations :: "nat \<rightharpoonup> profile_location"
  first_root_node :: nat
  has_collapse_node :: bool
  reached_depth :: u64
  is_initialized :: bool
  reinitialize :: bool
  max_callpath_depth :: u64
  stub_exchange :: nat
  task_exchange_num :: u64
  number_of_metrics :: nat

subsection \<open>The store\<close>

definition get_node :: "profile \<Rightarrow> nat \<Rightarrow> profile_node outcome" where
  "get_node p a = (case nodes p a of None \<Rightarrow> Inl Bad_Access | Some n \<Rightarrow> Inr n)"

definition update_node :: "nat \<Rightarrow> (profile_node \<Rightarrow> profile_node) \<Rightarrow> profile \<Rightarrow> profile outcome" where
  "update_node a f p = and_then (get_node p a) (\<lambda>n. Inr (p\<lparr>nodes := (nodes p)(a \<mapsto> f n)\<rparr>))"

definition get_location :: "profile \<Rightarrow> nat \<Rightarrow> profile_location outcome" where
  "get_location p l = (case locations p l of None \<Rightarrow> Inl Bad_Access | Some d \<Rightarrow> Inr d)"

definition update_location :: "nat \<Rightarrow> (profile_location \<Rightarrow> profile_location) \<Rightarrow> profile \<Rightarrow> profile outcome" where
  "update_location l f p = and_then (get_location p l) (\<lambda>d. Inr (p\<lparr>locations := (locations p)(l \<mapsto> f d)\<rparr>))"

definition SCOREP_Location_AllocForProfile :: "profile \<Rightarrow> (nat \<times> profile) outcome" where
  "SCOREP_Location_AllocForProfile p =
     (case free_memory p of [] \<Rightarrow> Inl Out_Of_Memory | a # as \<Rightarrow> Inr (a, p\<lparr>free_memory := as\<rparr>))"

text \<open>The fuel of a loop along a chain.\<close>

definition fuel :: "profile \<Rightarrow> nat" where
  "fuel p = Suc (max_nodes p)"

subsection \<open>Flags\<close>

definition FLAG_MPI_IN_SUBTREE :: u8 where "FLAG_MPI_IN_SUBTREE = 1"
definition FLAG_IS_FORK_NODE :: u8 where "FLAG_IS_FORK_NODE = 2"
definition FLAG_IN_UNTIED_TASK :: u8 where "FLAG_IN_UNTIED_TASK = 4"

definition set_flag :: "u8 \<Rightarrow> bool \<Rightarrow> u8 \<Rightarrow> u8" where
  "set_flag bits on f = (if on then f OR bits else f AND NOT bits)"

definition scorep_profile_is_mpi_in_subtree :: "profile_node \<Rightarrow> bool" where
  "scorep_profile_is_mpi_in_subtree n \<longleftrightarrow> flags n AND FLAG_MPI_IN_SUBTREE \<noteq> 0"

definition scorep_profile_set_mpi_in_subtree :: "bool \<Rightarrow> profile_node \<Rightarrow> profile_node" where
  "scorep_profile_set_mpi_in_subtree b n = n\<lparr>flags := set_flag FLAG_MPI_IN_SUBTREE b (flags n)\<rparr>"

definition scorep_profile_is_fork_node :: "profile_node \<Rightarrow> bool" where
  "scorep_profile_is_fork_node n \<longleftrightarrow> flags n AND FLAG_IS_FORK_NODE \<noteq> 0"

definition scorep_profile_set_fork_node :: "bool \<Rightarrow> profile_node \<Rightarrow> profile_node" where
  "scorep_profile_set_fork_node b n = n\<lparr>flags := set_flag FLAG_IS_FORK_NODE b (flags n)\<rparr>"

definition scorep_profile_get_task_context :: "profile_node \<Rightarrow> task_context" where
  "scorep_profile_get_task_context n =
     (if flags n AND FLAG_IN_UNTIED_TASK \<noteq> 0 then Context_Untied else Context_Tied)"

definition scorep_profile_set_task_context :: "task_context \<Rightarrow> profile_node \<Rightarrow> profile_node" where
  "scorep_profile_set_task_context context n =
     n\<lparr>flags := set_flag FLAG_IN_UNTIED_TASK (context = Context_Untied) (flags n)\<rparr>"

subsection \<open>Links between nodes\<close>

definition scorep_profile_add_child :: "nat \<Rightarrow> nat \<Rightarrow> profile \<Rightarrow> profile outcome" where
  "scorep_profile_add_child par child p =
     and_then (get_node p par) (\<lambda>n.
     and_then (update_node child (\<lambda>c. c\<lparr>next_sibling := first_child n\<rparr>) p) (\<lambda>p.
     and_then (update_node par (\<lambda>n. n\<lparr>first_child := child\<rparr>) p) (\<lambda>p.
       update_node child (\<lambda>c. c\<lparr>parent := par\<rparr>) p)))"

definition scorep_profile_compare_nodes :: "profile_node \<Rightarrow> profile_node \<Rightarrow> bool" where
  "scorep_profile_compare_nodes node1 node2 \<longleftrightarrow>
     (if node_type node1 \<noteq> node_type node2 then False
      else scorep_profile_compare_type_data (type_specific_data node1) (type_specific_data node2) (node_type node1))"

definition scorep_profile_node_hash :: "profile_node \<Rightarrow> u64" where
  "scorep_profile_node_hash n =
     (let val = of_nat (type_index (node_type n))
      in (drop_bit 1 val OR push_bit 31 val) + scorep_profile_hash_for_type_data (type_specific_data n) (node_type n))"

definition scorep_profile_node_less_than :: "profile_node \<Rightarrow> profile_node \<Rightarrow> bool" where
  "scorep_profile_node_less_than a b \<longleftrightarrow>
     (if type_index (node_type a) < type_index (node_type b) then True
      else if type_index (node_type a) > type_index (node_type b) then False
      else scorep_profile_less_than_for_type_data (type_specific_data a) (type_specific_data b) (node_type a))"

text \<open>The first node of a sibling chain with a property, or the null pointer.\<close>

fun find_sibling :: "nat \<Rightarrow> profile \<Rightarrow> (profile_node \<Rightarrow> bool) \<Rightarrow> nat \<Rightarrow> nat outcome" where
  "find_sibling 0 p P a = Inl Endless"
| "find_sibling (Suc n) p P a =
     (if a = NULL then Inr NULL
      else and_then (get_node p a) (\<lambda>c. if P c then Inr a else find_sibling n p P (next_sibling c)))"

definition scorep_profile_find_child :: "nat \<Rightarrow> nat \<Rightarrow> profile \<Rightarrow> nat outcome" where
  "scorep_profile_find_child par type p =
     assert_that (par \<noteq> NULL) (
     and_then (get_node p par) (\<lambda>n.
     and_then (get_node p type) (\<lambda>t.
       find_sibling (fuel p) p (\<lambda>c. scorep_profile_compare_nodes c t) (first_child n))))"

subsection \<open>Making and recycling nodes\<close>

text \<open>Released stubs form a chain by their first child.\<close>

fun last_stub :: "nat \<Rightarrow> profile \<Rightarrow> nat \<Rightarrow> nat outcome" where
  "last_stub 0 p a = Inl Endless"
| "last_stub (Suc n) p a =
     and_then (get_node p a) (\<lambda>c. if first_child c = NULL then Inr a else last_stub n p (first_child c))"

definition scorep_profile_release_stubs :: "nat \<Rightarrow> nat \<Rightarrow> nat \<Rightarrow> u32 \<Rightarrow> bool \<Rightarrow> profile \<Rightarrow> profile outcome" where
  "scorep_profile_release_stubs l root leaf num localObjects p =
     assert_that (root \<noteq> NULL) (
     assert_that (leaf \<noteq> NULL) (
     and_then (get_location p l) (\<lambda>d.
       if localObjects
       then and_then (if free_stubs d \<noteq> NULL then scorep_profile_add_child leaf (free_stubs d) p else Inr p) (\<lambda>p.
              update_location l (\<lambda>d. d\<lparr>free_stubs := root\<rparr>) p)
       else and_then (if foreign_stubs d \<noteq> NULL then scorep_profile_add_child leaf (foreign_stubs d) p else Inr p) (\<lambda>p.
            and_then (update_location l (\<lambda>d. d\<lparr>foreign_stubs := root, num_foreign_stubs := num_foreign_stubs d + num\<rparr>) p) (\<lambda>p.
              if ucast (num_foreign_stubs d + num) > task_exchange_num p
              then and_then (last_stub (fuel p) p leaf) (\<lambda>current.
                   and_then (if stub_exchange p \<noteq> NULL then scorep_profile_add_child current (stub_exchange p) p else Inr p) (\<lambda>p.
                     update_location l (\<lambda>d. d\<lparr>foreign_stubs := NULL, num_foreign_stubs := 0\<rparr>) (p\<lparr>stub_exchange := root\<rparr>)))
              else Inr p)))))"

text \<open>The null pointer is the answer when there is nothing to recycle.\<close>

definition scorep_profile_recycle_stub :: "nat \<Rightarrow> profile \<Rightarrow> (nat \<times> profile) outcome" where
  "scorep_profile_recycle_stub l p =
     and_then (get_location p l) (\<lambda>d.
       if free_stubs d \<noteq> NULL
       then and_then (get_node p (free_stubs d)) (\<lambda>n.
            and_then (update_location l (\<lambda>d. d\<lparr>free_stubs := first_child n\<rparr>) p) (\<lambda>p. Inr (free_stubs d, p)))
       else if foreign_stubs d \<noteq> NULL
       then and_then (get_node p (foreign_stubs d)) (\<lambda>n.
            and_then (update_location l (\<lambda>d. d\<lparr>foreign_stubs := first_child n, num_foreign_stubs := num_foreign_stubs d - 1\<rparr>) p)
              (\<lambda>p. Inr (foreign_stubs d, p)))
       else if stub_exchange p \<noteq> NULL
       then and_then (get_node p (stub_exchange p)) (\<lambda>n.
            and_then (update_location l (\<lambda>d. d\<lparr>free_stubs := first_child n\<rparr>) (p\<lparr>stub_exchange := NULL\<rparr>))
              (\<lambda>p'. Inr (stub_exchange p, p')))
       else Inr (NULL, p))"

definition zero_metric :: dense_metric where
  "zero_metric = \<lparr>metric_sum = 0, metric_min = 0, metric_max = 0, squares = 0, start_value = 0, intermediate_sum = 0\<rparr>"

definition zero_node :: "nat \<Rightarrow> profile_node" where
  "zero_node number =
     \<lparr>node_type = Node_Regular_Region, type_specific_data = \<lparr>handle_entry = 0, value_entry = 0\<rparr>,
      callpath_handle = 0, inclusive_time = zero_metric, dense_metrics = replicate number zero_metric,
      int_sparse = [], node_count = 0, hits = 0, first_enter_time = 0, last_exit_time = 0, flags = 0,
      parent = NULL, first_child = NULL, next_sibling = NULL\<rparr>"

text \<open>
  A new record is zeroed; the block of its dense metrics, whose first contents nobody reads, is a second request.
\<close>

definition scorep_profile_alloc_node :: "nat \<Rightarrow> node_type \<Rightarrow> task_context \<Rightarrow> profile \<Rightarrow> (nat \<times> profile) outcome" where
  "scorep_profile_alloc_node l type context p =
     and_then (get_location p l) (\<lambda>d.
       if context = Context_Tied \<and> free_nodes d \<noteq> NULL \<and> type \<noteq> Node_Thread_Root
       then and_then (get_node p (free_nodes d)) (\<lambda>n.
            and_then (update_location l (\<lambda>d. d\<lparr>free_nodes := first_child n\<rparr>) p) (\<lambda>p. Inr (free_nodes d, p)))
       else and_then (if type \<noteq> Node_Thread_Root then scorep_profile_recycle_stub l p else Inr (NULL, p)) (\<lambda>(stub, p).
            if stub \<noteq> NULL then Inr (stub, p)
            else and_then (SCOREP_Location_AllocForProfile p) (\<lambda>(a, p).
                 and_then (if number_of_metrics p > 0
                           then and_then (SCOREP_Location_AllocForProfile p) (\<lambda>(m, p). Inr p)
                           else Inr p) (\<lambda>p.
                   Inr (a, p\<lparr>nodes := (nodes p)(a \<mapsto>
                              scorep_profile_set_task_context context (zero_node (number_of_metrics p))),
                            max_nodes := Suc (max_nodes p)\<rparr>)))))"

definition SCOREP_INVALID_CALLPATH :: nat where
  "SCOREP_INVALID_CALLPATH = 0"

definition initial_data :: "node_type \<Rightarrow> type_data \<Rightarrow> u64 \<Rightarrow> dense_metric list \<Rightarrow> sparse_metric list \<Rightarrow> node_data" where
  "initial_data type data timestamp ms sparse =
     \<lparr>node_type = type, type_specific_data = data, callpath_handle = SCOREP_INVALID_CALLPATH,
      inclusive_time = scorep_profile_init_dense_metric, dense_metrics = ms, int_sparse = sparse,
      node_count = 0, hits = 0, first_enter_time = timestamp, last_exit_time = timestamp, flags = 0\<rparr>"

text \<open>A recycled node keeps its block of dense metrics.\<close>

definition scorep_profile_create_node ::
  "nat \<Rightarrow> nat \<Rightarrow> node_type \<Rightarrow> type_data \<Rightarrow> u64 \<Rightarrow> task_context \<Rightarrow> profile \<Rightarrow> (nat \<times> profile) outcome" where
  "scorep_profile_create_node l par type data timestamp context p =
     and_then (scorep_profile_alloc_node l type context p) (\<lambda>(a, p).
     and_then (get_node p a) (\<lambda>n.
       if number_of_metrics p > length (dense_metrics n) then Inl Bad_Access
       else let ms = replicate (number_of_metrics p) scorep_profile_init_dense_metric @
                     drop (number_of_metrics p) (dense_metrics n)
            in Inr (a, p\<lparr>nodes := (nodes p)(a \<mapsto>
                 node_data.extend (initial_data type data timestamp ms [])
                   \<lparr>parent = par, first_child = NULL, next_sibling = NULL\<rparr>)\<rparr>)))"

definition scorep_profile_find_create_child ::
  "nat \<Rightarrow> nat \<Rightarrow> node_type \<Rightarrow> type_data \<Rightarrow> u64 \<Rightarrow> profile \<Rightarrow> (nat \<times> profile) outcome" where
  "scorep_profile_find_create_child l par type data timestamp p =
     assert_that (par \<noteq> NULL) (
     and_then (get_node p par) (\<lambda>n.
     and_then (find_sibling (fuel p) p (\<lambda>c. \<not> (node_type c \<noteq> type \<or>
                 \<not> scorep_profile_compare_type_data data (type_specific_data c) type)) (first_child n)) (\<lambda>child.
       if child = NULL
       then and_then (scorep_profile_create_node l par type data timestamp (scorep_profile_get_task_context n) p) (\<lambda>(child, p).
            and_then (get_node p par) (\<lambda>n.
            and_then (update_node child (\<lambda>c. c\<lparr>next_sibling := first_child n\<rparr>) p) (\<lambda>p.
            and_then (update_node par (\<lambda>n. n\<lparr>first_child := child\<rparr>) p) (\<lambda>p.
              Inr (child, p)))))
       else Inr (child, p))))"

end
