(* ===== verification/ProfileEvents.thy ===== *)
theory ProfileEvents
  imports ProfileNode
begin

section \<open>Events of a profile\<close>

text \<open>
  \<^verbatim>\<open>src/measurement/profiling/scorep_profile_event_base.c\<close>, the enter, exit, parameter and trigger events of
  \<^verbatim>\<open>SCOREP_Profile.c\<close>, and the task metrics a parallel region leaves (\<^verbatim>\<open>SCOREP_Profile_Tasking.c\<close>). The type of a
  region is what the definitions answer for its handle, a function. Clustering is switched off, and no
  core files are written. The values of the dense metrics are an array or the null pointer.
\<close>

datatype region_class = Dynamic_Region | Parallel_Region | Other_Region

definition metric_value :: "u64 list option \<Rightarrow> nat \<Rightarrow> u64 outcome" where
  "metric_value ms i =
     (case ms of None \<Rightarrow> Inr 0 | Some xs \<Rightarrow> if i < length xs then Inr (xs ! i) else Inl Bad_Access)"

text \<open>The first metrics of a node, each with the value at its index.\<close>

fun for_metrics ::
  "(u64 \<Rightarrow> dense_metric \<Rightarrow> dense_metric) \<Rightarrow> u64 list option \<Rightarrow> nat \<Rightarrow> nat \<Rightarrow> dense_metric list \<Rightarrow> dense_metric list outcome"
where
  "for_metrics f ms i 0 ds = Inr ds"
| "for_metrics f ms i (Suc k) [] = Inl Bad_Access"
| "for_metrics f ms i (Suc k) (d # ds) =
     and_then (metric_value ms i) (\<lambda>v. and_then (for_metrics f ms (i + 1) k ds) (\<lambda>ds. Inr (f v d # ds)))"

definition set_start :: "u64 \<Rightarrow> dense_metric \<Rightarrow> dense_metric" where
  "set_start v m = m\<lparr>start_value := v\<rparr>"

definition scorep_profile_on_error :: "profile \<Rightarrow> profile" where
  "scorep_profile_on_error p = p\<lparr>is_initialized := False\<rparr>"

definition note_depth :: "u32 \<Rightarrow> profile \<Rightarrow> profile" where
  "note_depth d p = (if reached_depth p < ucast d then p\<lparr>reached_depth := ucast d\<rparr> else p)"

definition change_node :: "nat \<Rightarrow> (profile_node \<Rightarrow> profile_node outcome) \<Rightarrow> profile \<Rightarrow> profile outcome" where
  "change_node a f p =
     and_then (get_node p a) (\<lambda>n. and_then (f n) (\<lambda>n. Inr (p\<lparr>nodes := (nodes p)(a \<mapsto> n)\<rparr>)))"

subsection \<open>Enter and exit\<close>

definition start_visit :: "u64 \<Rightarrow> u64 list option \<Rightarrow> nat \<Rightarrow> profile_node \<Rightarrow> profile_node outcome" where
  "start_visit timestamp ms number n =
     and_then (for_metrics set_start ms 0 number (dense_metrics n)) (\<lambda>ds.
       Inr (n\<lparr>node_count := node_count n + 1, inclusive_time := set_start timestamp (inclusive_time n),
              dense_metrics := ds\<rparr>))"

definition scorep_profile_enter ::
  "nat \<Rightarrow> nat \<Rightarrow> u32 \<Rightarrow> u64 \<Rightarrow> u64 list option \<Rightarrow> profile \<Rightarrow> (nat \<times> profile) outcome" where
  "scorep_profile_enter l current region timestamp ms p =
     and_then (get_location p l) (\<lambda>d.
     and_then (if current \<noteq> NULL then and_then (get_node p current) (\<lambda>n. Inr (node_type n = Node_Collapse)) else Inr False)
       (\<lambda>collapsed.
       if collapsed then Inr (current, note_depth (current_depth d) p)
       else and_then
              (if ucast (current_depth d) > max_callpath_depth p
               then scorep_profile_find_create_child l current Node_Collapse
                      \<lparr>handle_entry = 0, value_entry = ucast (current_depth d)\<rparr> timestamp
                      (note_depth (current_depth d) (p\<lparr>has_collapse_node := True\<rparr>))
               else scorep_profile_find_create_child l current Node_Regular_Region
                      \<lparr>handle_entry = ucast region, value_entry = 0\<rparr> timestamp p) (\<lambda>(node, p).
            and_then (change_node node (start_visit timestamp ms (number_of_metrics p)) p) (\<lambda>p.
              Inr (node, p)))))"

definition end_visit :: "u64 \<Rightarrow> u64 list option \<Rightarrow> nat \<Rightarrow> profile_node \<Rightarrow> profile_node outcome" where
  "end_visit timestamp ms number n =
     and_then (for_metrics scorep_profile_update_dense_metric ms 0 number (dense_metrics n)) (\<lambda>ds.
       Inr (n\<lparr>last_exit_time := timestamp,
              inclusive_time := scorep_profile_update_dense_metric timestamp (inclusive_time n),
              dense_metrics := ds\<rparr>))"

text \<open>The nodes of parameters are left with the region they belong to.\<close>

fun exit_nodes ::
  "nat \<Rightarrow> nat \<Rightarrow> u64 \<Rightarrow> u64 list option \<Rightarrow> nat \<Rightarrow> profile \<Rightarrow> (profile_node \<times> profile) outcome" where
  "exit_nodes 0 l timestamp ms node p = Inl Endless"
| "exit_nodes (Suc k) l timestamp ms node p =
     and_then (update_location l (\<lambda>d. d\<lparr>current_depth := current_depth d - 1\<rparr>) p) (\<lambda>p.
     and_then (change_node node (end_visit timestamp ms (number_of_metrics p)) p) (\<lambda>p.
     and_then (get_node p node) (\<lambda>n.
       if node_type n \<noteq> Node_Regular_Region \<and> node_type n \<noteq> Node_Collapse \<and> parent n \<noteq> NULL
       then exit_nodes k l timestamp ms (parent n) p
       else Inr (n, p))))"

definition scorep_profile_exit ::
  "nat \<Rightarrow> nat \<Rightarrow> u32 \<Rightarrow> u64 \<Rightarrow> u64 list option \<Rightarrow> profile \<Rightarrow> (nat \<times> profile) outcome" where
  "scorep_profile_exit l node region timestamp ms p =
     (if node = NULL then Inr (NULL, scorep_profile_on_error p)
      else and_then (get_node p node) (\<lambda>n.
           and_then (get_location p l) (\<lambda>d.
             if node_type n = Node_Collapse \<and> ucast (current_depth d) > value_entry (type_specific_data n)
             then and_then (update_location l (\<lambda>d. d\<lparr>current_depth := current_depth d - 1\<rparr>) p) (\<lambda>p. Inr (node, p))
             else and_then (exit_nodes (fuel p) l timestamp ms node p) (\<lambda>(n, p).
                    if node_type n = Node_Regular_Region \<and> ucast (handle_entry (type_specific_data n)) \<noteq> region
                    then Inr (NULL, scorep_profile_on_error p)
                    else Inr (parent n, p)))))"

subsection \<open>Sparse metrics\<close>

text \<open>A new metric goes to the end of the chain; its record may come from the location's pool.\<close>

definition alloc_sparse_int :: "nat \<Rightarrow> profile \<Rightarrow> profile outcome" where
  "alloc_sparse_int l p =
     and_then (get_location p l) (\<lambda>d.
       if free_int_metrics d \<noteq> [] then update_location l (\<lambda>d. d\<lparr>free_int_metrics := tl (free_int_metrics d)\<rparr>) p
       else and_then (SCOREP_Location_AllocForProfile p) (\<lambda>(a, p). Inr p))"

fun update_sparse :: "nat \<Rightarrow> u64 \<Rightarrow> update_scheme \<Rightarrow> sparse_metric list \<Rightarrow> sparse_metric list option outcome" where
  "update_sparse metric val scheme [] = Inr None"
| "update_sparse metric val scheme (m # ms) =
     (if sparse_handle m = metric
      then and_then (scorep_profile_update_sparse_int m val scheme) (\<lambda>m. Inr (Some (m # ms)))
      else and_then (update_sparse metric val scheme ms) (\<lambda>r. Inr (map_option ((#) m) r)))"

definition scorep_profile_trigger_int64 ::
  "nat \<Rightarrow> nat \<Rightarrow> u64 \<Rightarrow> nat \<Rightarrow> update_scheme \<Rightarrow> profile \<Rightarrow> profile outcome" where
  "scorep_profile_trigger_int64 l metric val node scheme p =
     and_then (get_node p node) (\<lambda>n.
     and_then (update_sparse metric val scheme (int_sparse n)) (\<lambda>r.
       case r of
         Some ms \<Rightarrow> update_node node (\<lambda>n. n\<lparr>int_sparse := ms\<rparr>) p
       | None \<Rightarrow>
           and_then (alloc_sparse_int l p) (\<lambda>p.
           and_then (scorep_profile_create_sparse_int metric val scheme) (\<lambda>m.
             update_node node (\<lambda>n. n\<lparr>int_sparse := int_sparse n @ [m]\<rparr>) p))))"

definition SCOREP_Profile_TriggerInteger :: "nat \<Rightarrow> nat \<Rightarrow> u64 \<Rightarrow> profile \<Rightarrow> profile outcome" where
  "SCOREP_Profile_TriggerInteger l metric val p =
     (if \<not> is_initialized p then Inr p
      else and_then (get_location p l) (\<lambda>d.
        if current_task_node d = NULL then Inr (scorep_profile_on_error p)
        else scorep_profile_trigger_int64 l metric val (current_task_node d) Update_Value_As_Is p))"

definition scorep_profile_update_task_metrics :: "nat \<times> nat \<Rightarrow> nat \<Rightarrow> profile \<Rightarrow> profile outcome" where
  "scorep_profile_update_task_metrics migration_metrics l p =
     and_then (get_location p l) (\<lambda>d.
       if migration_sum d \<noteq> 0 \<or> migration_win d \<noteq> 0
       then and_then (scorep_profile_trigger_int64 l (fst migration_metrics) (migration_win d - migration_sum d)
                        (current_task_node d) Update_Value_As_Is p) (\<lambda>p.
            and_then (scorep_profile_trigger_int64 l (snd migration_metrics) (migration_win d)
                        (current_task_node d) Update_Value_As_Is p) (\<lambda>p.
              update_location l (\<lambda>d. d\<lparr>migration_sum := 0, migration_win := 0\<rparr>) p))
       else Inr p)"

subsection \<open>Parameters\<close>

definition setup_start_from_parent :: "nat \<Rightarrow> profile \<Rightarrow> profile outcome" where
  "setup_start_from_parent node p =
     and_then (get_node p node) (\<lambda>n.
     and_then (if first_enter_time n = - 1
               then and_then (get_node p (parent n)) (\<lambda>par.
                      update_node node (\<lambda>n. n\<lparr>first_enter_time := start_value (inclusive_time par)\<rparr>) p)
               else Inr p) (\<lambda>p.
     and_then (update_node node (\<lambda>n. n\<lparr>node_count := node_count n + 1\<rparr>) p) (\<lambda>p.
       if parent n \<noteq> NULL
       then and_then (get_node p (parent n)) (\<lambda>par.
            change_node node (\<lambda>n.
              and_then (for_metrics set_start (Some (map start_value (dense_metrics par))) 0
                          (number_of_metrics p) (dense_metrics n)) (\<lambda>ds.
                Inr (n\<lparr>inclusive_time := set_start (start_value (inclusive_time par)) (inclusive_time n),
                       dense_metrics := ds\<rparr>))) p)
       else Inr p)))"

text \<open>The node of a parameter becomes the current node, except beyond the depth limit.\<close>

definition enter_parameter ::
  "nat \<Rightarrow> (nat \<Rightarrow> profile \<Rightarrow> (nat \<times> profile) outcome) \<Rightarrow> profile \<Rightarrow> profile outcome" where
  "enter_parameter l get_child p =
     (if \<not> is_initialized p then Inr p
      else and_then (get_location p l) (\<lambda>d.
        if ucast (current_depth d) \<ge> max_callpath_depth p then Inr p
        else and_then (update_location l (\<lambda>d. d\<lparr>current_depth := current_depth d + 1\<rparr>) p) (\<lambda>p.
             and_then (get_child (current_task_node d) p) (\<lambda>(node, p).
             and_then (setup_start_from_parent node p) (\<lambda>p.
               update_location l (\<lambda>d. d\<lparr>current_task_node := node\<rparr>) p)))))"

definition new_instance :: "nat \<Rightarrow> type_data \<Rightarrow> nat \<Rightarrow> profile \<Rightarrow> (nat \<times> profile) outcome" where
  "new_instance l data par p =
     and_then (get_node p par) (\<lambda>n.
     and_then (scorep_profile_create_node l par Node_Parameter_Integer data (- 1)
                 (scorep_profile_get_task_context n) p) (\<lambda>(node, p).
     and_then (get_node p par) (\<lambda>n.
     and_then (update_node node (\<lambda>c. c\<lparr>next_sibling := first_child n\<rparr>) p) (\<lambda>p.
     and_then (update_node par (\<lambda>n. n\<lparr>first_child := node\<rparr>) p) (\<lambda>p. Inr (node, p))))))"

definition parameter_uint64 :: "u32 \<Rightarrow> nat \<Rightarrow> u32 \<Rightarrow> u64 \<Rightarrow> profile \<Rightarrow> profile outcome" where
  "parameter_uint64 param_instance l param val =
     (let data = \<lparr>handle_entry = ucast param, value_entry = val\<rparr>
      in enter_parameter l
           (if param = param_instance then new_instance l data
            else (\<lambda>par. scorep_profile_find_create_child l par Node_Parameter_Integer data (- 1))))"

definition SCOREP_Profile_ParameterString :: "nat \<Rightarrow> u32 \<Rightarrow> u32 \<Rightarrow> profile \<Rightarrow> profile outcome" where
  "SCOREP_Profile_ParameterString l param str =
     enter_parameter l (\<lambda>par. scorep_profile_find_create_child l par Node_Parameter_String
       \<lparr>handle_entry = ucast param, value_entry = ucast str\<rparr> (- 1))"

subsection \<open>The events of regions\<close>

definition SCOREP_Profile_Enter ::
  "(u32 \<Rightarrow> region_class) \<Rightarrow> u32 \<Rightarrow> nat \<Rightarrow> u64 \<Rightarrow> u32 \<Rightarrow> u64 list option \<Rightarrow> profile \<Rightarrow> profile outcome" where
  "SCOREP_Profile_Enter class_of param_instance l timestamp region ms p =
     (if \<not> is_initialized p then Inr p
      else and_then (update_location l (\<lambda>d. d\<lparr>current_depth := current_depth d + 1\<rparr>) p) (\<lambda>p.
           and_then (get_location p l) (\<lambda>d.
           and_then (scorep_profile_enter l (current_task_node d) region timestamp ms p) (\<lambda>(node, p).
           and_then (update_location l (\<lambda>d. d\<lparr>current_task_node := node\<rparr>) p) (\<lambda>p.
             if class_of region = Dynamic_Region
             then and_then (get_node p node) (\<lambda>n. parameter_uint64 param_instance l param_instance (node_count n) p)
             else Inr p)))))"

definition SCOREP_Profile_Exit ::
  "(u32 \<Rightarrow> region_class) \<Rightarrow> nat \<times> nat \<Rightarrow> nat \<Rightarrow> u64 \<Rightarrow> u32 \<Rightarrow> u64 list option \<Rightarrow> profile \<Rightarrow> profile outcome" where
  "SCOREP_Profile_Exit class_of migration_metrics l timestamp region ms p =
     (if \<not> is_initialized p then Inr p
      else and_then (if class_of region = Parallel_Region then scorep_profile_update_task_metrics migration_metrics l p
                     else Inr p) (\<lambda>p.
           and_then (get_location p l) (\<lambda>d.
             assert_that (current_task_node d \<noteq> NULL) (
             and_then (scorep_profile_exit l (current_task_node d) region timestamp ms p) (\<lambda>(par, p).
               update_location l (\<lambda>d. d\<lparr>current_task_node := par\<rparr>) p)))))"

end
