(* ===== verification/ProfileLocation.thy ===== *)
theory ProfileLocation
  imports ProfileEvents
begin

section \<open>Locations of a profile\<close>

text \<open>
  The rest of \<^verbatim>\<open>scorep_profile_location.c\<close> and the location and thread events of
  \<^verbatim>\<open>SCOREP_Profile.c\<close>: making the data of a location and its root node, the list of fork points, the
  activation of a location in a parallel region, and leaving what is still open at the end. The artificial region of the
  location for metrics of the process, and the task objects, are left out. Locks are not modelled: an event is a step.
\<close>

subsection \<open>Data of a location\<close>

text \<open>
  The memory of the record is not cleared, and one field is not set: it has the value that was there before, an argument.
\<close>

definition scorep_profile_create_location_data :: "nat \<Rightarrow> profile_location" where
  "scorep_profile_create_location_data left_over =
     \<lparr>root_node = NULL, creation_node = NULL, current_implicit_node = NULL, implicit_depth = 0, fork_list = [], fork_list_tail = None,
      current_task_node = NULL, current_depth = 0, free_nodes = NULL, free_int_metrics = [], free_stubs = NULL,
      foreign_stubs = left_over, num_foreign_stubs = 0, migration_sum = 1, migration_win = 0\<rparr>"

definition scorep_profile_finalize_location :: "profile_location \<Rightarrow> profile_location" where
  "scorep_profile_finalize_location d =
     d\<lparr>current_task_node := root_node d, current_implicit_node := root_node d, current_depth := 0, implicit_depth := 0,
       fork_list := [], fork_list_tail := None, free_nodes := NULL, free_int_metrics := [], free_stubs := NULL,
       foreign_stubs := NULL, num_foreign_stubs := 0\<rparr>"

definition scorep_profile_init_definition :: "u64 \<Rightarrow> profile \<Rightarrow> profile" where
  "scorep_profile_init_definition limit p =
     p\<lparr>is_initialized := True, has_collapse_node := False, reached_depth := 0, max_callpath_depth := limit\<rparr>"

definition scorep_profile_delete_definition :: "profile \<Rightarrow> profile" where
  "scorep_profile_delete_definition p = p\<lparr>is_initialized := False, reinitialize := True\<rparr>"

subsection \<open>Fork points\<close>

definition scorep_profile_add_fork_node :: "nat \<Rightarrow> u32 \<Rightarrow> u32 \<Rightarrow> profile_location \<Rightarrow> profile_location" where
  "scorep_profile_add_fork_node node depth sequence d =
     (let position = (case fork_list_tail d of None \<Rightarrow> 0 | Some i \<Rightarrow> i + 1);
          item = \<lparr>fork_node = node, fork_sequence_count = sequence, profile_depth = depth\<rparr>
      in d\<lparr>fork_list := (if position < length (fork_list d) then (fork_list d)[position := item]
                         else fork_list d @ [item]),
           fork_list_tail := Some position\<rparr>)"

definition scorep_profile_remove_fork_node :: "profile_location \<Rightarrow> profile_location" where
  "scorep_profile_remove_fork_node d =
     (case fork_list_tail d of None \<Rightarrow> d
      | Some i \<Rightarrow> d\<lparr>fork_list_tail := (if i = 0 then None else Some (i - 1))\<rparr>)"

text \<open>The last item in use whose sequence count is not above the one looked for.\<close>

fun find_fork :: "fork_item list \<Rightarrow> nat option \<Rightarrow> u32 \<Rightarrow> fork_item option" where
  "find_fork items None sequence = None"
| "find_fork items (Some 0) sequence =
     (if fork_sequence_count (items ! 0) > sequence then None else Some (items ! 0))"
| "find_fork items (Some (Suc i)) sequence =
     (if fork_sequence_count (items ! Suc i) > sequence then find_fork items (Some i) sequence
      else Some (items ! Suc i))"

definition scorep_profile_get_fork_node :: "profile_location \<Rightarrow> u32 \<Rightarrow> nat" where
  "scorep_profile_get_fork_node d sequence =
     (case find_fork (fork_list d) (fork_list_tail d) sequence of None \<Rightarrow> NULL | Some item \<Rightarrow> fork_node item)"

definition scorep_profile_get_fork_depth :: "profile_location \<Rightarrow> u32 \<Rightarrow> u32" where
  "scorep_profile_get_fork_depth d sequence =
     (case find_fork (fork_list d) (fork_list_tail d) sequence of None \<Rightarrow> 0 | Some item \<Rightarrow> profile_depth item)"

subsection \<open>Events of locations\<close>

text \<open>The initial thread has no parent location, or one without data.\<close>

definition on_location_creation ::
  "nat \<Rightarrow> nat \<Rightarrow> u64 \<Rightarrow> nat option \<Rightarrow> profile \<Rightarrow> profile outcome" where
  "on_location_creation left_over l thread_id parent_location p =
     (let p = p\<lparr>locations := (locations p)(l \<mapsto> scorep_profile_create_location_data left_over)\<rparr>
      in if \<not> is_initialized p then Inr p
         else and_then (scorep_profile_create_node l NULL Node_Thread_Root
                          \<lparr>handle_entry = of_nat l, value_entry = thread_id\<rparr> 0 Context_Tied p) (\<lambda>(node, p).
              and_then (update_location l (\<lambda>d. d\<lparr>root_node := node\<rparr>) p) (\<lambda>p.
              and_then (if parent_location \<noteq> None
                        then update_location l (\<lambda>d. d\<lparr>creation_node := NULL, current_depth := 0\<rparr>) p
                        else Inr p) (\<lambda>p.
              and_then (case Option.bind parent_location (locations p) of
                  None \<Rightarrow> and_then (update_node node (\<lambda>n. n\<lparr>next_sibling := first_root_node p\<rparr>) p)
                            (\<lambda>p. Inr (p\<lparr>first_root_node := node\<rparr>))
                | Some pd \<Rightarrow> and_then (get_node p (root_node pd)) (\<lambda>r.
                            and_then (update_node node (\<lambda>n. n\<lparr>next_sibling := next_sibling r\<rparr>) p) (\<lambda>p.
                              update_node (root_node pd) (\<lambda>r. r\<lparr>next_sibling := node\<rparr>) p))) (\<lambda>p.
                update_location l (\<lambda>d. d\<lparr>current_task_node := node\<rparr>) p)))))"

text \<open>The node a location starts at in a parallel region is the child of its root with the same fork point.\<close>

definition on_location_activation :: "nat \<Rightarrow> nat option \<Rightarrow> u32 \<Rightarrow> profile \<Rightarrow> profile outcome" where
  "on_location_activation l parent_location sequence p =
     (if \<not> is_initialized p then Inr p
      else case locations p l of None \<Rightarrow> Inr (scorep_profile_on_error p)
         | Some d \<Rightarrow>
           assert_that (root_node d \<noteq> NULL) (
           and_then (case Option.bind parent_location (locations p) of None \<Rightarrow> Inr (NULL, p)
               | Some pd \<Rightarrow>
                   and_then (update_location l (\<lambda>d. d\<lparr>current_depth := scorep_profile_get_fork_depth pd sequence\<rparr>) p) (\<lambda>p.
                     Inr (scorep_profile_get_fork_node pd sequence, p))) (\<lambda>(creation_point, p).
           and_then (get_node p (root_node d)) (\<lambda>root.
           and_then (find_sibling (fuel p) p (\<lambda>c. node_type c = Node_Thread_Start \<and>
                       handle_entry (type_specific_data c) = of_nat creation_point) (first_child root)) (\<lambda>node.
           and_then (if node = NULL
                     then and_then (scorep_profile_create_node l (root_node d) Node_Thread_Start
                              \<lparr>handle_entry = of_nat creation_point, value_entry = 0\<rparr> 0 Context_Tied p) (\<lambda>(node, p).
                          and_then (get_node p (root_node d)) (\<lambda>root.
                          and_then (update_node node (\<lambda>n. n\<lparr>next_sibling := first_child root\<rparr>) p) (\<lambda>p.
                          and_then (update_node (root_node d) (\<lambda>n. n\<lparr>first_child := node\<rparr>) p) (\<lambda>p.
                            Inr (node, p)))))
                     else Inr (node, p)) (\<lambda>(node, p).
             update_location l (\<lambda>d. d\<lparr>current_task_node := node\<rparr>) p))))))"

definition on_location_deactivation :: "nat \<Rightarrow> profile \<Rightarrow> profile outcome" where
  "on_location_deactivation l p = update_location l (\<lambda>d. d\<lparr>current_task_node := NULL\<rparr>) p"

definition thread_fork :: "nat \<Rightarrow> u32 \<Rightarrow> profile \<Rightarrow> profile outcome" where
  "thread_fork l sequence p =
     (if \<not> is_initialized p then Inr p
      else and_then (get_location p l) (\<lambda>d.
           and_then (get_node p (current_task_node d)) (\<lambda>n.
             let fork = (if node_type n = Node_Thread_Start \<and> unat (handle_entry (type_specific_data n)) \<noteq> NULL
                         then unat (handle_entry (type_specific_data n)) else current_task_node d)
             in and_then (update_node fork (scorep_profile_set_fork_node True) p) (\<lambda>p.
                  update_location l (scorep_profile_add_fork_node fork (current_depth d) sequence) p))))"

definition thread_join :: "nat \<Rightarrow> profile \<Rightarrow> profile outcome" where
  "thread_join l p = update_location l scorep_profile_remove_fork_node p"

subsection \<open>Leaving what is open\<close>

text \<open>The region to exit next: the nearest one upwards from the current node.\<close>

fun open_region :: "nat \<Rightarrow> nat \<Rightarrow> profile \<Rightarrow> nat outcome" where
  "open_region 0 a p = Inl Endless"
| "open_region (Suc k) a p =
     (if a = NULL then Inr NULL
      else and_then (get_node p a) (\<lambda>n.
        if node_type n \<noteq> Node_Regular_Region \<and> node_type n \<noteq> Node_Collapse then open_region k (parent n) p
        else Inr a))"

fun exit_open_regions ::
  "nat \<Rightarrow> (u32 \<Rightarrow> region_class) \<Rightarrow> nat \<times> nat \<Rightarrow> nat \<Rightarrow> u64 \<Rightarrow> u64 list option \<Rightarrow> profile \<Rightarrow> profile outcome" where
  "exit_open_regions 0 class_of mig l timestamp ms p = Inl Endless"
| "exit_open_regions (Suc k) class_of mig l timestamp ms p =
     and_then (get_location p l) (\<lambda>d.
     and_then (open_region (fuel p) (current_task_node d) p) (\<lambda>a.
       if a = NULL then Inr p
       else and_then (get_node p a) (\<lambda>n.
            and_then (SCOREP_Profile_Exit class_of mig l timestamp
                        (if node_type n = Node_Regular_Region then ucast (handle_entry (type_specific_data n)) else 0)
                        ms p) (\<lambda>p.
              exit_open_regions k class_of mig l timestamp ms p))))"

end
