(* ===== verification/ProfileRun.thy ===== *)
theory ProfileRun
  imports ProfileLocation
begin

section \<open>Profiles as trees\<close>

text \<open>
  The pointers of the nodes form a tree: \<open>tree_in\<close> relates the store to a tree of addresses and data.
  The events of nested calls are an operation on this tree (\<open>tree_call\<close>), which the
  program implements: \<open>run_call\<close> shows it for every sequence of nested calls, whatever else is in the store.
\<close>

subsection \<open>Trees in the store\<close>

datatype ptree = PNode (address: nat) (content: node_data) (kids: "ptree list")

fun addresses :: "ptree \<Rightarrow> nat list" where
  "addresses (PNode a d ks) = a # concat (map addresses ks)"

fun first_address :: "ptree list \<Rightarrow> nat" where
  "first_address [] = NULL"
| "first_address (t # ts) = address t"

definition node_holds :: "(nat \<rightharpoonup> profile_node) \<Rightarrow> nat \<Rightarrow> nat \<Rightarrow> nat \<Rightarrow> nat \<Rightarrow> node_data \<Rightarrow> bool" where
  "node_holds ns a par nxt fst_child d \<longleftrightarrow>
     a \<noteq> NULL \<and> (\<exists>n. ns a = Some n \<and> parent n = par \<and> next_sibling n = nxt \<and> first_child n = fst_child \<and>
       node_data.truncate n = d)"

fun tree_in :: "(nat \<rightharpoonup> profile_node) \<Rightarrow> nat \<Rightarrow> nat \<Rightarrow> ptree \<Rightarrow> bool"
  and trees_in :: "(nat \<rightharpoonup> profile_node) \<Rightarrow> nat \<Rightarrow> ptree list \<Rightarrow> bool" where
  "tree_in ns par nxt (PNode a d ks) \<longleftrightarrow> node_holds ns a par nxt (first_address ks) d \<and> trees_in ns a ks"
| "trees_in ns par [] \<longleftrightarrow> True"
| "trees_in ns par (t # ts) \<longleftrightarrow> tree_in ns par (first_address ts) t \<and> trees_in ns par ts"

lemma address_in: "address t \<in> set (addresses t)"
  by (cases t) simp

lemma tree_in_dom:
  "tree_in ns par nxt t \<Longrightarrow> set (addresses t) \<subseteq> dom ns - {NULL}"
  "trees_in ns par ts \<Longrightarrow> (\<Union>t\<in>set ts. set (addresses t)) \<subseteq> dom ns - {NULL}"
  by (induction ns par nxt t and ns par ts rule: tree_in_trees_in.induct)
    (auto simp: node_holds_def)

lemma tree_in_frame:
  "tree_in ns par nxt t \<Longrightarrow> (\<And>x. x \<in> set (addresses t) \<Longrightarrow> ns' x = ns x) \<Longrightarrow> tree_in ns' par nxt t"
  "trees_in ns par ts \<Longrightarrow> (\<And>x. x \<in> (\<Union>t\<in>set ts. set (addresses t)) \<Longrightarrow> ns' x = ns x) \<Longrightarrow> trees_in ns' par ts"
  by (induction ns par nxt t and ns par ts rule: tree_in_trees_in.induct)
    (auto simp: node_holds_def)

lemma trees_in_append:
  "trees_in ns par (ts @ us) \<Longrightarrow> trees_in ns par us"
  by (induction ts) simp_all

lemma trees_in_replace:
  assumes "trees_in ns par (pre @ t # post)" and "tree_in ns' par (first_address post) t'" and "address t' = address t"
    and "\<And>x. x \<in> (\<Union>u\<in>set pre \<union> set post. set (addresses u)) \<Longrightarrow> ns' x = ns x"
  shows "trees_in ns' par (pre @ t' # post)"
  using assms
proof (induction pre)
  case Nil
  then have "trees_in ns' par post" by (intro tree_in_frame(2) [of ns par post ns']) simp_all
  then show ?case using Nil by simp
next
  case (Cons u pre)
  have same: "first_address (pre @ t' # post) = first_address (pre @ t # post)"
    using Cons.prems(3) by (cases pre) simp_all
  have "tree_in ns' par (first_address (pre @ t # post)) u"
    using Cons.prems(1,4) by (intro tree_in_frame(1) [of ns par _ u ns']) simp_all
  moreover have "trees_in ns' par (pre @ t' # post)"
    using Cons.prems by (intro Cons.IH) simp_all
  ultimately show ?case using same by simp
qed

lemma first_address_append: "first_address (ts @ us) = (if ts = [] then first_address us else first_address ts)"
  by (cases ts) simp_all

lemma first_address_replace: "address t' = address t \<Longrightarrow> first_address (pre @ t' # post) = first_address (pre @ t # post)"
  by (cases pre) simp_all

text \<open>Looking for a child.\<close>

lemma find_sibling_trees:
  assumes "trees_in (nodes p) par ts" and "length ts < k"
    and "\<And>n. P n = Q (node_data.truncate n)"
  shows "find_sibling k p P (first_address ts) = Inr (first_address (dropWhile (\<lambda>t. \<not> Q (content t)) ts))"
  using assms(1,2)
proof (induction ts arbitrary: k)
  case Nil
  then show ?case by (cases k) simp_all
next
  case (Cons t ts)
  obtain a d ks where t: "t = PNode a d ks" by (cases t)
  obtain n where n: "nodes p a = Some n" "next_sibling n = first_address ts" "node_data.truncate n = d" "a \<noteq> NULL"
    using Cons.prems(1) t by (auto simp: node_holds_def)
  obtain k' where k: "k = Suc k'" using Cons.prems(2) by (cases k) simp_all
  show ?case using Cons.IH [of k'] Cons.prems t n k assms(3) [of n] by (simp add: get_node_def)
qed

subsection \<open>Nested calls\<close>

text \<open>A call of a region with the calls it makes, the times and the metric values.\<close>

datatype call =
  Call (call_region: u32) (enter_time: u64) (enter_metrics: "u64 list option") (calls_of: "call list")
       (exit_time: u64) (exit_metrics: "u64 list option")

datatype region_event = Enter_Event u32 u64 "u64 list option" | Exit_Event u32 u64 "u64 list option"

fun events_of :: "call \<Rightarrow> region_event list" where
  "events_of (Call r t0 m0 cs t1 m1) =
     Enter_Event r t0 m0 # concat (map events_of cs) @ [Exit_Event r t1 m1]"

fun run_event ::
  "(u32 \<Rightarrow> region_class) \<Rightarrow> u32 \<Rightarrow> nat \<times> nat \<Rightarrow> nat \<Rightarrow> region_event \<Rightarrow> profile \<Rightarrow> profile outcome" where
  "run_event class_of inst mig l (Enter_Event r t ms) p = SCOREP_Profile_Enter class_of inst l t r ms p"
| "run_event class_of inst mig l (Exit_Event r t ms) p = SCOREP_Profile_Exit class_of mig l t r ms p"

fun run_events ::
  "(u32 \<Rightarrow> region_class) \<Rightarrow> u32 \<Rightarrow> nat \<times> nat \<Rightarrow> nat \<Rightarrow> region_event list \<Rightarrow> profile \<Rightarrow> profile outcome" where
  "run_events class_of inst mig l [] p = Inr p"
| "run_events class_of inst mig l (e # es) p =
     and_then (run_event class_of inst mig l e p) (run_events class_of inst mig l es)"

lemma run_events_append:
  "run_events class_of inst mig l (es @ fs) p =
     and_then (run_events class_of inst mig l es p) (run_events class_of inst mig l fs)"
  by (induction es arbitrary: p) (auto simp: and_then_def split: sum.splits)

fun call_size :: "call \<Rightarrow> nat" where
  "call_size (Call r t0 m0 cs t1 m1) = Suc (sum_list (map call_size cs))"

fun call_height :: "call \<Rightarrow> nat" where
  "call_height (Call r t0 m0 cs t1 m1) = Suc (Max (set (0 # map call_height cs)))"

text \<open>Calls of regions that are neither dynamic nor parallel, with enough metric values.\<close>

definition enough_values :: "nat \<Rightarrow> u64 list option \<Rightarrow> bool" where
  "enough_values number ms \<longleftrightarrow> (case ms of None \<Rightarrow> True | Some xs \<Rightarrow> number \<le> length xs)"

fun plain_call :: "(u32 \<Rightarrow> region_class) \<Rightarrow> nat \<Rightarrow> call \<Rightarrow> bool" where
  "plain_call class_of number (Call r t0 m0 cs t1 m1) \<longleftrightarrow>
     class_of r = Other_Region \<and> enough_values number m0 \<and> enough_values number m1 \<and>
     list_all (plain_call class_of number) cs"

subsection \<open>The operation on trees\<close>

definition metrics_at :: "u64 list option \<Rightarrow> nat \<Rightarrow> u64 list" where
  "metrics_at ms number = (case ms of None \<Rightarrow> replicate number 0 | Some xs \<Rightarrow> take number xs)"

definition enter_data :: "u64 \<Rightarrow> u64 list option \<Rightarrow> nat \<Rightarrow> node_data \<Rightarrow> node_data" where
  "enter_data timestamp ms number d =
     d\<lparr>node_count := node_count d + 1, inclusive_time := set_start timestamp (inclusive_time d),
       dense_metrics := map2 set_start (metrics_at ms number) (dense_metrics d)\<rparr>"

definition exit_data :: "u64 \<Rightarrow> u64 list option \<Rightarrow> nat \<Rightarrow> node_data \<Rightarrow> node_data" where
  "exit_data timestamp ms number d =
     d\<lparr>last_exit_time := timestamp,
       inclusive_time := scorep_profile_update_dense_metric timestamp (inclusive_time d),
       dense_metrics := map2 scorep_profile_update_dense_metric (metrics_at ms number) (dense_metrics d)\<rparr>"

definition has_key :: "node_type \<Rightarrow> type_data \<Rightarrow> node_data \<Rightarrow> bool" where
  "has_key type dat d \<longleftrightarrow> node_type d = type \<and> scorep_profile_compare_type_data dat (type_specific_data d) type"

definition draws :: "nat \<Rightarrow> nat" where
  "draws number = (if number > 0 then 2 else 1)"

definition split_kids ::
  "node_type \<Rightarrow> type_data \<Rightarrow> u64 \<Rightarrow> nat \<Rightarrow> nat list \<Rightarrow> ptree list \<Rightarrow> ptree list \<times> ptree \<times> ptree list \<times> nat list" where
  "split_kids type dat timestamp number as ks =
     (case dropWhile (\<lambda>t. \<not> has_key type dat (content t)) ks of
        [] \<Rightarrow> ([], PNode (hd as) (initial_data type dat timestamp (replicate number scorep_profile_init_dense_metric) []) [],
               ks, drop (draws number) as)
      | t # post \<Rightarrow> (takeWhile (\<lambda>t. \<not> has_key type dat (content t)) ks, t, post, as))"

definition change_content :: "(node_data \<Rightarrow> node_data) \<Rightarrow> ptree \<Rightarrow> ptree" where
  "change_content f t = PNode (address t) (f (content t)) (kids t)"

definition call_key :: "u64 \<Rightarrow> u32 \<Rightarrow> u32 \<Rightarrow> node_type \<times> type_data" where
  "call_key limit depth r =
     (if ucast depth > limit then (Node_Collapse, \<lparr>handle_entry = 0, value_entry = ucast depth\<rparr>)
      else (Node_Regular_Region, \<lparr>handle_entry = ucast r, value_entry = 0\<rparr>))"

fun tree_call :: "nat \<Rightarrow> u64 \<Rightarrow> u32 \<Rightarrow> call \<Rightarrow> nat list \<times> ptree \<Rightarrow> nat list \<times> ptree"
  and tree_calls :: "nat \<Rightarrow> u64 \<Rightarrow> u32 \<Rightarrow> call list \<Rightarrow> nat list \<times> ptree \<Rightarrow> nat list \<times> ptree" where
  "tree_call number limit depth (Call r t0 m0 cs t1 m1) (as, t) =
     (let key = call_key limit (depth + 1) r;
          (pre, k, post, as) = split_kids (fst key) (snd key) t0 number as (kids t);
          k = change_content (enter_data t0 m0 number) k;
          (as, k) = (if ucast (depth + 1) > limit then (as, k) else tree_calls number limit (depth + 1) cs (as, k));
          k = change_content (exit_data t1 m1 number) k
      in (as, PNode (address t) (content t) (pre @ k # post)))"
| "tree_calls number limit depth [] x = x"
| "tree_calls number limit depth (c # cs) x = tree_calls number limit depth cs (tree_call number limit depth c x)"

subsection \<open>States with a current node\<close>

text \<open>The store: no more nodes than were ever made, and the memory to come is not in use.\<close>

definition store_ok :: "profile \<Rightarrow> bool" where
  "store_ok p \<longleftrightarrow> finite (dom (nodes p)) \<and> card (dom (nodes p)) \<le> max_nodes p \<and> NULL \<notin> dom (nodes p) \<and>
     distinct (free_memory p) \<and> NULL \<notin> set (free_memory p) \<and> set (free_memory p) \<inter> dom (nodes p) = {}"

text \<open>The location is at a node, and there is nothing to recycle.\<close>

definition stands_at :: "profile \<Rightarrow> nat \<Rightarrow> nat \<Rightarrow> u32 \<Rightarrow> bool" where
  "stands_at p l node depth \<longleftrightarrow> stub_exchange p = NULL \<and>
     (\<exists>d. locations p l = Some d \<and> current_task_node d = node \<and> current_depth d = depth \<and>
        free_nodes d = NULL \<and> free_stubs d = NULL \<and> foreign_stubs d = NULL)"

fun all_content :: "(node_data \<Rightarrow> bool) \<Rightarrow> ptree \<Rightarrow> bool" where
  "all_content P (PNode a d ks) \<longleftrightarrow> P d \<and> list_all (all_content P) ks"

definition holds_tree :: "profile \<Rightarrow> nat \<Rightarrow> nat \<Rightarrow> ptree \<Rightarrow> bool" where
  "holds_tree p par nxt t \<longleftrightarrow> store_ok p \<and> is_initialized p \<and> tree_in (nodes p) par nxt t \<and>
     distinct (addresses t) \<and> all_content (\<lambda>d. length (dense_metrics d) = number_of_metrics p) t"

text \<open>What a part of a run leaves alone: all nodes but those of the tree it works on, and the configuration.\<close>

definition works_on :: "nat set \<Rightarrow> profile \<Rightarrow> profile \<Rightarrow> bool" where
  "works_on A p p' \<longleftrightarrow>
     (\<forall>x\<in>dom (nodes p) - A. nodes p' x = nodes p x) \<and> dom (nodes p) \<subseteq> dom (nodes p') \<and>
     dom (nodes p') \<subseteq> dom (nodes p) \<union> set (free_memory p) \<and>
     set (free_memory p') \<subseteq> set (free_memory p) \<and>
     number_of_metrics p' = number_of_metrics p \<and> max_callpath_depth p' = max_callpath_depth p \<and>
     first_root_node p' = first_root_node p"

subsection \<open>Steps on the tree\<close>

lemma for_metrics_run:
  assumes "length ds = k" and "case ms of None \<Rightarrow> True | Some xs \<Rightarrow> i + k \<le> length xs"
  shows "for_metrics f ms i k ds = Inr (map2 f (case ms of None \<Rightarrow> replicate k 0 | Some xs \<Rightarrow> take k (drop i xs)) ds)"
  using assms
proof (induction k arbitrary: i ds)
  case (Suc k)
  then obtain d ds' where ds: "ds = d # ds'" "length ds' = k" by (cases ds) simp_all
  have "case ms of None \<Rightarrow> True | Some xs \<Rightarrow> i + 1 + k \<le> length xs" using Suc.prems(2) by (auto split: option.splits)
  from Suc.IH [OF ds(2) this] show ?case using Suc.prems(2) ds
    by (auto simp: metric_value_def Cons_nth_drop_Suc [symmetric] split: option.splits)
qed simp

lemma visits:
  assumes "length (dense_metrics n) = number" and "enough_values number ms"
  shows "start_visit timestamp ms number n = Inr (node_data.extend (enter_data timestamp ms number (node_data.truncate n)) 
      \<lparr>parent = parent n, first_child = first_child n, next_sibling = next_sibling n\<rparr>)"
    "end_visit timestamp ms number n = Inr (node_data.extend (exit_data timestamp ms number (node_data.truncate n)) 
      \<lparr>parent = parent n, first_child = first_child n, next_sibling = next_sibling n\<rparr>)"
  using for_metrics_run [where ms = ms and i = 0, OF assms(1)] assms(2)
  by (simp_all add: start_visit_def end_visit_def enter_data_def exit_data_def enough_values_def metrics_at_def
      node_data.defs profile_node.defs split: option.splits)

text \<open>Memory for a node when there is nothing to recycle.\<close>

lemma recycle_nothing:
  assumes "stands_at p l c d"
  shows "scorep_profile_recycle_stub l p = Inr (NULL, p)"
  using assms by (auto simp: stands_at_def scorep_profile_recycle_stub_def get_location_def)

lemma alloc_node_fresh:
  assumes "stands_at p l c d" and "store_ok p" and "draws (number_of_metrics p) \<le> length (free_memory p)"
  shows "scorep_profile_alloc_node l type context p = Inr (hd (free_memory p),
      p\<lparr>nodes := (nodes p)(hd (free_memory p) \<mapsto> scorep_profile_set_task_context context (zero_node (number_of_metrics p))),
        max_nodes := Suc (max_nodes p), free_memory := drop (draws (number_of_metrics p)) (free_memory p)\<rparr>)"
proof -
  obtain loc where loc: "locations p l = Some loc" "free_nodes loc = NULL"
    using assms(1) by (auto simp: stands_at_def)
  obtain a as where mem: "free_memory p = a # as" using assms(3) by (cases "free_memory p") (auto simp: draws_def split: if_splits)
  have "number_of_metrics p > 0 \<Longrightarrow> as \<noteq> []" using assms(3) mem by (auto simp: draws_def)
  then show ?thesis using loc mem recycle_nothing [OF assms(1)]
    by (cases as) (auto simp: scorep_profile_alloc_node_def get_location_def SCOREP_Location_AllocForProfile_def draws_def)
qed

lemma create_node_fresh:
  assumes "stands_at p l c d" and "store_ok p" and "draws (number_of_metrics p) \<le> length (free_memory p)"
  shows "scorep_profile_create_node l par type dat timestamp context p = Inr (hd (free_memory p),
      p\<lparr>nodes := (nodes p)(hd (free_memory p) \<mapsto>
          node_data.extend (initial_data type dat timestamp (replicate (number_of_metrics p) scorep_profile_init_dense_metric) [])
            \<lparr>parent = par, first_child = NULL, next_sibling = NULL\<rparr>),
        max_nodes := Suc (max_nodes p), free_memory := drop (draws (number_of_metrics p)) (free_memory p)\<rparr>)"
  using alloc_node_fresh [OF assms]
  by (simp add: scorep_profile_create_node_def get_node_def scorep_profile_set_task_context_def zero_node_def Let_def)


lemma tree_in_root:
  assumes "tree_in (nodes p) par nxt t"
  obtains n where "get_node p (address t) = Inr n" "nodes p (address t) = Some n" "node_data.truncate n = content t"
    "first_child n = first_address (kids t)" "parent n = par" "next_sibling n = nxt" "address t \<noteq> NULL"
    "trees_in (nodes p) (address t) (kids t)"
  using assms by (cases t) (auto simp: node_holds_def get_node_def)

lemma kids_fewer:
  assumes "holds_tree p par nxt t"
  shows "length (kids t) < fuel p"
proof -
  obtain a d ks where t: "t = PNode a d ks" by (cases t)
  have dist: "distinct (addresses t)" and tr: "tree_in (nodes p) par nxt t"
    and fin: "finite (dom (nodes p))" "card (dom (nodes p)) \<le> max_nodes p"
    using assms by (auto simp: holds_tree_def store_ok_def)
  have sub: "set (addresses t) \<subseteq> dom (nodes p)" using tree_in_dom(1) [OF tr] by blast
  have "length ts \<le> length (concat (map addresses ts))" for ts
  proof (induction ts)
    case (Cons u ts)
    then show ?case by (cases u) simp
  qed simp
  then have "length ks \<le> length (addresses t)" by (simp add: t le_SucI)
  also have "\<dots> = card (set (addresses t))" using dist by (simp add: distinct_card)
  also have "\<dots> \<le> card (dom (nodes p))" using sub fin(1) by (rule card_mono [rotated])
  finally show ?thesis using fin(2) t by (simp add: fuel_def)
qed

lemma split_kids_cases:
  assumes "split_kids type dat timestamp number as ks = (pre, k, post, as')"
  obtains (found) "ks = pre @ k # post" "as' = as" "dropWhile (\<lambda>t. \<not> has_key type dat (content t)) ks = k # post"
      "has_key type dat (content k)" "list_all (\<lambda>t. \<not> has_key type dat (content t)) pre"
  | (missing) "pre = []" "post = ks" "as' = drop (draws number) as"
      "dropWhile (\<lambda>t. \<not> has_key type dat (content t)) ks = []"
      "k = PNode (hd as) (initial_data type dat timestamp (replicate number scorep_profile_init_dense_metric) []) []"
proof (cases "dropWhile (\<lambda>t. \<not> has_key type dat (content t)) ks")
  case Nil
  show ?thesis
    by (rule missing) (use assms Nil in \<open>simp_all add: split_kids_def del: dropWhile_eq_Nil_conv\<close>)
next
  case (Cons u us)
  then have eq: "pre = takeWhile (\<lambda>t. \<not> has_key type dat (content t)) ks" "k = u" "post = us" "as' = as"
    using assms by (simp_all add: split_kids_def)
  have "ks = pre @ k # post"
    using takeWhile_dropWhile_id [of "\<lambda>t. \<not> has_key type dat (content t)" ks] Cons eq by simp
  moreover have "has_key type dat (content k)"
    using hd_dropWhile [of "\<lambda>t. \<not> has_key type dat (content t)" ks] Cons eq by simp
  moreover have "list_all (\<lambda>t. \<not> has_key type dat (content t)) pre"
    unfolding eq(1) list_all_iff by (auto dest: set_takeWhileD)
  ultimately show ?thesis using found Cons eq by blast
qed

lemma find_create_child_step:
  assumes tree: "holds_tree p par nxt t" and at: "stands_at p l c depth"
    and mem: "draws (number_of_metrics p) \<le> length (free_memory p)"
    and split: "split_kids type dat timestamp (number_of_metrics p) (free_memory p) (kids t) = (pre, k, post, as')"
  shows "\<exists>p'. scorep_profile_find_create_child l (address t) type dat timestamp p = Inr (address k, p') \<and>
    holds_tree p' par nxt (PNode (address t) (content t) (pre @ k # post)) \<and> stands_at p' l c depth \<and>
    free_memory p' = as' \<and> works_on {address t} p p'"
proof -
  let ?a = "address t" and ?f = "\<lambda>t. \<not> has_key type dat (content t)"
  have ok: "store_ok p" and tr: "tree_in (nodes p) par nxt t" and dist: "distinct (addresses t)"
    using tree by (simp_all add: holds_tree_def)
  obtain n where n: "get_node p ?a = Inr n" "nodes p ?a = Some n" "node_data.truncate n = content t"
    "first_child n = first_address (kids t)" "parent n = par" "next_sibling n = nxt" "?a \<noteq> NULL"
    "trees_in (nodes p) ?a (kids t)"
    by (rule tree_in_root [OF tr])
  have P: "(\<not> (node_type m \<noteq> type \<or> \<not> scorep_profile_compare_type_data dat (type_specific_data m) type)) =
      has_key type dat (node_data.truncate m)" for m :: profile_node
    by (auto simp: has_key_def node_data.defs)
  have find: "find_sibling (fuel p) p (\<lambda>m. \<not> (node_type m \<noteq> type \<or>
      \<not> scorep_profile_compare_type_data dat (type_specific_data m) type)) (first_child n) =
      Inr (first_address (dropWhile ?f (kids t)))"
    unfolding n(4) by (rule find_sibling_trees [OF n(8) kids_fewer [OF tree]]) (rule P)
  show ?thesis
    using split
  proof (cases rule: split_kids_cases)
    case found
    have "address k \<noteq> NULL"
      using trees_in_append [of "nodes p" ?a pre "k # post"] n(8) found(1)
      by (cases k) (auto simp: node_holds_def)
    then have "scorep_profile_find_create_child l ?a type dat timestamp p = Inr (address k, p)"
      using n find found(3) unfolding scorep_profile_find_create_child_def by simp
    moreover have "PNode ?a (content t) (pre @ k # post) = t" using found(1) by (cases t) simp
    moreover have "works_on {?a} p p" by (simp add: works_on_def)
    ultimately show ?thesis using tree at found(2) by auto
  next
    case missing
    let ?new = "hd (free_memory p)"
    have ne: "free_memory p \<noteq> []" using mem by (auto simp: draws_def split: if_splits)
    then have new: "?new \<in> set (free_memory p)" by simp
    then have fresh: "?new \<notin> dom (nodes p)" "?new \<noteq> NULL" using ok by (auto simp: store_ok_def)
    have neq: "?new \<noteq> ?a" using fresh(1) n(2) by auto
    let ?d = "initial_data type dat timestamp (replicate (number_of_metrics p) scorep_profile_init_dense_metric) []"
    let ?node = "\<lambda>nx. node_data.extend ?d \<lparr>parent = ?a, first_child = NULL, next_sibling = nx\<rparr> :: profile_node"
    let ?ns = "(nodes p)(?new \<mapsto> ?node (first_child n), ?a \<mapsto> n\<lparr>first_child := ?new\<rparr>)"
    let ?p = "p\<lparr>nodes := ?ns, max_nodes := Suc (max_nodes p), free_memory := as'\<rparr>"
    have "(?node NULL)\<lparr>next_sibling := x\<rparr> = ?node x" for x by (simp add: node_data.defs)
    then have run: "scorep_profile_find_create_child l ?a type dat timestamp p = Inr (?new, ?p)"
      using n find missing(3,4) create_node_fresh [OF at ok mem] neq
      by (simp add: scorep_profile_find_create_child_def get_node_def update_node_def NULL_def fun_upd_twist)
    have sub: "set (free_memory ?p) \<subseteq> set (free_memory p)" using missing(3) by (auto dest: in_set_dropD)
    have "?new \<notin> set as'" 
    proof -
      obtain a as where m: "free_memory p = a # as" using ne by (cases "free_memory p") auto
      then have "set as' \<subseteq> set as" using missing(3) by (cases "number_of_metrics p") (auto simp: draws_def dest: in_set_dropD)
      then show ?thesis using ok m by (auto simp: store_ok_def)
    qed
    then have "store_ok ?p"
      using ok fresh n(2) sub missing(3)
      by (auto simp: store_ok_def card_insert_if distinct_drop insert_absorb)
    moreover have "tree_in ?ns par nxt (PNode ?a (content t) ([] @ k # post))"
    proof -
      have "trees_in ?ns ?a (kids t)"
      proof (rule tree_in_frame(2) [OF n(8)])
        fix x assume x: "x \<in> (\<Union>t\<in>set (kids t). set (addresses t))"
        then have "x \<in> dom (nodes p)" using tree_in_dom(2) [OF n(8)] by auto
        moreover have "x \<noteq> ?a" using x dist by (cases t) auto
        ultimately show "?ns x = nodes p x" using fresh(1) by auto
      qed
      moreover have "node_data.truncate (?node x) = ?d" "node_data.truncate (n\<lparr>first_child := x\<rparr>) = content t" for x
        using n(3) by (simp_all add: node_data.defs)
      ultimately show ?thesis
        using n missing fresh(2) neq by (simp add: node_holds_def node_data.defs)
    qed
    moreover have "distinct (addresses (PNode ?a (content t) ([] @ k # post)))"
      using dist neq missing fresh(1) tree_in_dom(1) [OF tr] by (cases t) auto
    moreover have "all_content (\<lambda>d. length (dense_metrics d) = number_of_metrics p) (PNode ?a (content t) ([] @ k # post))"
      using tree missing by (cases t) (simp add: holds_tree_def initial_data_def)
    ultimately have "holds_tree ?p par nxt (PNode ?a (content t) (pre @ k # post))"
      using tree missing(1) by (simp add: holds_tree_def)
    moreover have "stands_at ?p l c depth" using at by (simp add: stands_at_def)
    moreover have "works_on {?a} p ?p"
      using fresh(1) n(2) new sub missing(3) by (auto simp: works_on_def)
    ultimately show ?thesis using run missing(5) by (intro exI [of _ ?p]) simp
  qed
qed

lemma has_key_refl: "has_key type dat (initial_data type dat timestamp ms sparse)"
  by (cases type) (simp_all add: has_key_def initial_data_def compare_both_entries_def compare_only_value_def
      compare_only_handle_def)

lemma split_kids_has_key:
  "split_kids type dat timestamp number as ks = (pre, k, post, as') \<Longrightarrow> has_key type dat (content k)"
  by (erule split_kids_cases) (simp_all add: has_key_refl)

lemma tree_call_root [simp]:
  "address (snd (tree_call number limit depth c x)) = address (snd x)"
  "content (snd (tree_call number limit depth c x)) = content (snd x)"
  by (cases c; cases x; simp add: Let_def split: prod.splits)+

lemma tree_calls_root [simp]:
  "address (snd (tree_calls number limit depth cs x)) = address (snd x)"
  "content (snd (tree_calls number limit depth cs x)) = content (snd x)"
  by (induction cs arbitrary: x) simp_all

lemma change_content_simps [simp]:
  "address (change_content f t) = address t" "content (change_content f t) = f (content t)"
  "kids (change_content f t) = kids t" "addresses (change_content f t) = addresses t"
  by (cases t; simp add: change_content_def)+

text \<open>How the store and the tree may change together.\<close>

definition evolves :: "profile \<Rightarrow> ptree \<Rightarrow> profile \<Rightarrow> ptree \<Rightarrow> bool" where
  "evolves p t p' t' \<longleftrightarrow> works_on (set (addresses t)) p p' \<and> address t' = address t \<and>
     set (addresses t') \<subseteq> set (addresses t) \<union> set (free_memory p)"

lemma evolves_trans:
  assumes ok: "store_ok p" and a: "evolves p t p' t'" and b: "evolves p' t' p'' t''"
  shows "evolves p t p'' t''"
proof -
  have free: "set (free_memory p) \<inter> dom (nodes p) = {}" using ok by (simp add: store_ok_def)
  have keep: "nodes p'' x = nodes p x" if x: "x \<in> dom (nodes p) - set (addresses t)" for x
  proof -
    have "x \<in> dom (nodes p') - set (addresses t')" using a x free unfolding evolves_def works_on_def by blast
    then show ?thesis using a b x by (simp add: evolves_def works_on_def)
  qed
  moreover have "dom (nodes p) \<subseteq> dom (nodes p'')"
    using a b unfolding evolves_def works_on_def by (meson subset_trans)
  moreover have fr: "set (free_memory p'') \<subseteq> set (free_memory p)"
    using a b unfolding evolves_def works_on_def by (meson subset_trans)
  moreover have "dom (nodes p'') \<subseteq> dom (nodes p) \<union> set (free_memory p)"
    using a b unfolding evolves_def works_on_def by blast
  moreover have "set (addresses t'') \<subseteq> set (addresses t) \<union> set (free_memory p)"
    using a b unfolding evolves_def works_on_def by blast
  ultimately show ?thesis using a b by (simp add: evolves_def works_on_def)
qed

lemma holds_tree_independent [simp]:
  "holds_tree (p\<lparr>locations := x\<rparr>) par nxt t = holds_tree p par nxt t"
  "holds_tree (p\<lparr>has_collapse_node := b\<rparr>) par nxt t = holds_tree p par nxt t"
  "holds_tree (p\<lparr>reached_depth := d\<rparr>) par nxt t = holds_tree p par nxt t"
  by (simp_all add: holds_tree_def store_ok_def)

lemma evolves_independent [simp]:
  "evolves p t (p'\<lparr>locations := x\<rparr>) t' = evolves p t p' t'"
  "evolves p t (p'\<lparr>has_collapse_node := b\<rparr>) t' = evolves p t p' t'"
  "evolves p t (p'\<lparr>reached_depth := d\<rparr>) t' = evolves p t p' t'"
  "evolves (p\<lparr>locations := x\<rparr>) t p' t' = evolves p t p' t'"
  "evolves (p\<lparr>has_collapse_node := b\<rparr>) t p' t' = evolves p t p' t'"
  "evolves (p\<lparr>reached_depth := d\<rparr>) t p' t' = evolves p t p' t'"
  by (simp_all add: evolves_def works_on_def)

lemma evolves_refl: "evolves p t p t"
  by (simp add: evolves_def works_on_def)

text \<open>A change below a node.\<close>

lemma holds_tree_child:
  assumes "holds_tree p par nxt (PNode a d (pre @ k # post))"
  shows "holds_tree p a (first_address post) k"
  using assms trees_in_append [of "nodes p" a pre "k # post"] by (simp add: holds_tree_def)

lemma child_evolves:
  assumes t: "holds_tree p par nxt (PNode a d (pre @ k # post))" and k: "holds_tree p' a (first_address post) k'"
    and ev: "evolves p k p' k'"
  shows "holds_tree p' par nxt (PNode a d (pre @ k' # post))"
    and "evolves p (PNode a d (pre @ k # post)) p' (PNode a d (pre @ k' # post))"
proof -
  let ?rest = "\<Union>u\<in>set pre \<union> set post. set (addresses u)"
  have tr: "trees_in (nodes p) a (pre @ k # post)" and hold: "node_holds (nodes p) a par nxt (first_address (pre @ k # post)) d"
    and ok: "store_ok p" and dist: "distinct (a # concat (map addresses (pre @ k # post)))"
    and len: "all_content (\<lambda>d. length (dense_metrics d) = number_of_metrics p) (PNode a d (pre @ k # post))"
    and num: "number_of_metrics p' = number_of_metrics p"
    using t ev by (simp_all add: holds_tree_def evolves_def works_on_def)
  have keep: "nodes p' x = nodes p x" if "x \<in> dom (nodes p)" "x \<notin> set (addresses k)" for x
    using ev that by (simp add: evolves_def works_on_def)
  have restdom: "insert a ?rest \<subseteq> dom (nodes p)"
    using tree_in_dom(2) [OF tr] hold by (auto simp: node_holds_def)
  have restk: "insert a ?rest \<inter> set (addresses k) = {}" using dist by auto
  have free: "set (free_memory p) \<inter> insert a ?rest = {}" using ok restdom unfolding store_ok_def by blast
  have sub: "set (addresses k') \<subseteq> set (addresses k) \<union> set (free_memory p)" and adr: "address k' = address k"
    using ev by (simp_all add: evolves_def)
  have same: "\<And>x. x \<in> insert a ?rest \<Longrightarrow> nodes p' x = nodes p x" using keep restdom restk by blast
  have "trees_in (nodes p') a (pre @ k' # post)"
    by (rule trees_in_replace [OF tr _ adr]) (use k same in \<open>auto simp: holds_tree_def\<close>)
  moreover have "node_holds (nodes p') a par nxt (first_address (pre @ k' # post)) d"
    using hold same [of a] by (simp add: node_holds_def first_address_replace [OF adr])
  moreover have "insert a ?rest \<inter> set (addresses k') = {}" using sub restk free by blast
  then have "distinct (a # concat (map addresses (pre @ k' # post)))"
    using dist k by (auto simp: holds_tree_def)
  ultimately show "holds_tree p' par nxt (PNode a d (pre @ k' # post))"
    using k len num by (simp add: holds_tree_def)
  show "evolves p (PNode a d (pre @ k # post)) p' (PNode a d (pre @ k' # post))"
    using ev by (auto simp: evolves_def works_on_def)
qed

lemma content_evolves:
  assumes t: "holds_tree p par nxt t"
    and g: "\<And>n. node_data.truncate n = content t \<Longrightarrow> g n = Inr (node_data.extend (f (content t))
        \<lparr>parent = parent n, first_child = first_child n, next_sibling = next_sibling n\<rparr>)"
    and len: "length (dense_metrics (f (content t))) = number_of_metrics p"
  shows "\<exists>p'. change_node (address t) g p = Inr p' \<and> holds_tree p' par nxt (change_content f t) \<and>
    evolves p t p' (change_content f t) \<and> (\<exists>ns. p' = p\<lparr>nodes := ns\<rparr>)"
proof -
  obtain a d ks where td: "t = PNode a d ks" by (cases t)
  obtain n where n: "get_node p a = Inr n" "nodes p a = Some n" "node_data.truncate n = d"
    "first_child n = first_address ks" "parent n = par" "next_sibling n = nxt" "a \<noteq> NULL" "trees_in (nodes p) a ks"
    using tree_in_root [of p par nxt t] t td by (auto simp: holds_tree_def)
  let ?n = "node_data.extend (f d) \<lparr>parent = par, first_child = first_address ks, next_sibling = nxt\<rparr> :: profile_node"
  let ?p = "p\<lparr>nodes := (nodes p)(a \<mapsto> ?n)\<rparr>"
  have "node_data.truncate ?n = f d" by (simp add: node_data.defs)
  moreover have "trees_in ((nodes p)(a \<mapsto> ?n)) a ks"
    by (rule tree_in_frame(2) [OF n(8)]) (use t td in \<open>auto simp: holds_tree_def\<close>)
  moreover have "dom ((nodes p)(a \<mapsto> ?n)) = dom (nodes p)" using n(2) by auto
  then have "store_ok ?p" using t unfolding holds_tree_def store_ok_def by simp
  ultimately have "holds_tree ?p par nxt (PNode a (f d) ks)"
    using t td n(7) len by (simp add: holds_tree_def node_holds_def node_data.defs)
  moreover have "evolves p t ?p (PNode a (f d) ks)" using td n(2) by (auto simp: evolves_def works_on_def)
  moreover have "change_node a g p = Inr ?p" using n g [of n] td by (simp add: change_node_def)
  ultimately show ?thesis using td by (intro exI [of _ ?p]) (auto simp: change_content_def)
qed

text \<open>The two events, as steps on the tree.\<close>

definition entered :: "nat \<Rightarrow> u64 \<Rightarrow> u32 \<Rightarrow> u32 \<Rightarrow> u64 \<Rightarrow> u64 list option \<Rightarrow> nat list \<Rightarrow> ptree \<Rightarrow>
    ptree list \<times> ptree \<times> ptree list \<times> nat list" where
  "entered number limit depth r t0 m0 as t =
     (let (pre, k, post, as') = split_kids (fst (call_key limit depth r)) (snd (call_key limit depth r)) t0 number as (kids t)
      in (pre, change_content (enter_data t0 m0 number) k, post, as'))"

lemma stands_at_simps [simp]:
  "stands_at (p\<lparr>nodes := ns\<rparr>) l a depth = stands_at p l a depth"
  "stands_at (p\<lparr>has_collapse_node := b\<rparr>) l a depth = stands_at p l a depth"
  "stands_at (p\<lparr>reached_depth := d\<rparr>) l a depth = stands_at p l a depth"
  by (simp_all add: stands_at_def)

lemma dense_length_child:
  assumes "holds_tree p par nxt t"
  shows "length (dense_metrics (content t)) = number_of_metrics p"
  using assms by (cases t) (simp add: holds_tree_def)

lemma truncate_dense: "dense_metrics (node_data.truncate (n :: profile_node)) = dense_metrics n"
  by (simp add: node_data.defs)

lemma find_create_started:
  assumes tree: "holds_tree p par nxt t" and at: "stands_at p l c depth"
    and mem: "draws (number_of_metrics p) \<le> length (free_memory p)" and vals: "enough_values (number_of_metrics p) m0"
    and split: "split_kids type dat t0 (number_of_metrics p) (free_memory p) (kids t) = (pre, k, post, as')"
  shows "\<exists>p'. and_then (scorep_profile_find_create_child l (address t) type dat t0 p) (\<lambda>(node, p).
        and_then (change_node node (start_visit t0 m0 (number_of_metrics p)) p) (\<lambda>p. Inr (node, p))) = Inr (address k, p') \<and>
    holds_tree p' par nxt (PNode (address t) (content t) (pre @ change_content (enter_data t0 m0 (number_of_metrics p)) k # post)) \<and>
    stands_at p' l c depth \<and> free_memory p' = as' \<and>
    evolves p t p' (PNode (address t) (content t) (pre @ change_content (enter_data t0 m0 (number_of_metrics p)) k # post))"
proof -
  let ?f = "enter_data t0 m0 (number_of_metrics p)" and ?t1 = "PNode (address t) (content t) (pre @ k # post)"
  have ok: "store_ok p" using tree by (simp add: holds_tree_def)
  obtain p1 where p1: "scorep_profile_find_create_child l (address t) type dat t0 p = Inr (address k, p1)"
    "holds_tree p1 par nxt ?t1" "stands_at p1 l c depth" "free_memory p1 = as'" "works_on {address t} p p1"
    using find_create_child_step [OF tree at mem split] by blast
  have num: "number_of_metrics p1 = number_of_metrics p" using p1(5) by (simp add: works_on_def)
  have k: "holds_tree p1 (address t) (first_address post) k" by (rule holds_tree_child [OF p1(2)])
  have len: "length (dense_metrics (content k)) = number_of_metrics p" using dense_length_child [OF k] num by simp
  have "\<exists>p2. change_node (address k) (start_visit t0 m0 (number_of_metrics p)) p1 = Inr p2 \<and>
      holds_tree p2 (address t) (first_address post) (change_content ?f k) \<and>
      evolves p1 k p2 (change_content ?f k) \<and> (\<exists>ns. p2 = p1\<lparr>nodes := ns\<rparr>)"
  proof (rule content_evolves [OF k])
    show "length (dense_metrics (?f (content k))) = number_of_metrics p1"
      using len num vals by (auto simp: enter_data_def metrics_at_def enough_values_def split: option.splits)
    fix n :: profile_node assume n: "node_data.truncate n = content k"
    show "start_visit t0 m0 (number_of_metrics p) n = Inr (node_data.extend (?f (content k))
        \<lparr>parent = parent n, first_child = first_child n, next_sibling = next_sibling n\<rparr>)"
      using visits(1) [of n "number_of_metrics p" m0 t0] vals len truncate_dense [of n] unfolding n by simp
  qed
  then obtain p2 ns where p2: "change_node (address k) (start_visit t0 m0 (number_of_metrics p)) p1 = Inr p2"
      "holds_tree p2 (address t) (first_address post) (change_content ?f k)"
      "evolves p1 k p2 (change_content ?f k)" "p2 = p1\<lparr>nodes := ns\<rparr>" by blast
  have "evolves p t p1 ?t1"
  proof -
    have "hd (free_memory p) \<in> set (free_memory p)" using mem by (cases "free_memory p") (simp_all add: draws_def split: if_splits)
    then have "set (addresses ?t1) \<subseteq> set (addresses t) \<union> set (free_memory p)"
      using split by (cases t) (erule split_kids_cases; auto)
    moreover have "works_on (set (addresses t)) p p1"
      using p1(5) address_in [of t] unfolding works_on_def by blast
    ultimately show ?thesis by (simp add: evolves_def)
  qed
  then have "evolves p t p2 (PNode (address t) (content t) (pre @ change_content ?f k # post))"
    by (rule evolves_trans [OF ok _ child_evolves(2) [OF p1(2) p2(2,3)]])
  moreover have "holds_tree p2 par nxt (PNode (address t) (content t) (pre @ change_content ?f k # post))"
    by (rule child_evolves(1) [OF p1(2) p2(2,3)])
  ultimately show ?thesis using p1(1,3,4) p2(1,4) num by (intro exI [of _ p2]) simp
qed

lemma enter_step:
  assumes tree: "holds_tree p par nxt t" and at: "stands_at p l (address t) depth"
    and open_node: "node_type (content t) \<noteq> Node_Collapse"
    and mem: "draws (number_of_metrics p) \<le> length (free_memory p)" and vals: "enough_values (number_of_metrics p) m0"
    and cls: "class_of r = Other_Region"
    and ent: "entered (number_of_metrics p) (max_callpath_depth p) (depth + 1) r t0 m0 (free_memory p) t = (pre, k, post, as')"
  shows "\<exists>p'. SCOREP_Profile_Enter class_of inst l t0 r m0 p = Inr p' \<and>
    holds_tree p' par nxt (PNode (address t) (content t) (pre @ k # post)) \<and>
    stands_at p' l (address k) (depth + 1) \<and> free_memory p' = as' \<and>
    evolves p t p' (PNode (address t) (content t) (pre @ k # post))"
proof -
  obtain d where d: "locations p l = Some d" "current_task_node d = address t" "current_depth d = depth"
    using at by (auto simp: stands_at_def)
  have init: "is_initialized p" using tree by (simp add: holds_tree_def)
  obtain n where n: "get_node p (address t) = Inr n" "node_data.truncate n = content t" "address t \<noteq> NULL"
    using tree_in_root [of p par nxt t] tree by (auto simp: holds_tree_def)
  have nt: "node_type n \<noteq> Node_Collapse" using open_node unfolding n(2) [symmetric] by (simp add: node_data.defs)
  let ?pl = "p\<lparr>locations := (locations p)(l \<mapsto> d\<lparr>current_depth := depth + 1\<rparr>)\<rparr>"
  let ?pc = "if ucast (depth + 1) > max_callpath_depth p then note_depth (depth + 1) (?pl\<lparr>has_collapse_node := True\<rparr>) else ?pl"
  let ?key = "call_key (max_callpath_depth p) (depth + 1) r"
  obtain k0 where split: "split_kids (fst ?key) (snd ?key) t0 (number_of_metrics p) (free_memory p) (kids t) = (pre, k0, post, as')"
    and k: "k = change_content (enter_data t0 m0 (number_of_metrics p)) k0"
    using ent by (auto simp: entered_def split: prod.splits)
  have same: "number_of_metrics ?pc = number_of_metrics p" "free_memory ?pc = free_memory p"
    "\<And>p' t'. evolves ?pc t p' t' = evolves p t p' t'" "holds_tree ?pc par nxt t = holds_tree p par nxt t"
    by (simp_all add: note_depth_def)
  have at': "stands_at ?pc l (address t) (depth + 1)"
    using at d by (auto simp: stands_at_def note_depth_def)
  obtain p1 where p1: "and_then (scorep_profile_find_create_child l (address t) (fst ?key) (snd ?key) t0 ?pc) (\<lambda>(node, p).
        and_then (change_node node (start_visit t0 m0 (number_of_metrics p)) p) (\<lambda>p. Inr (node, p))) = Inr (address k0, p1)"
    "holds_tree p1 par nxt (PNode (address t) (content t) (pre @ k # post))"
    "stands_at p1 l (address t) (depth + 1)" "free_memory p1 = as'"
    "evolves p t p1 (PNode (address t) (content t) (pre @ k # post))"
    using find_create_started [of ?pc par nxt t l "address t" "depth + 1" m0 "fst ?key" "snd ?key" t0 pre k0 post as']
      tree at' mem vals split unfolding same k by blast
  obtain d1 where d1: "locations p1 l = Some d1" "current_depth d1 = depth + 1" "free_nodes d1 = NULL" "free_stubs d1 = NULL"
      "foreign_stubs d1 = NULL" "stub_exchange p1 = NULL"
    using p1(3) by (auto simp: stands_at_def)
  let ?p' = "p1\<lparr>locations := (locations p1)(l \<mapsto> d1\<lparr>current_task_node := address k0\<rparr>)\<rparr>"
  have "scorep_profile_enter l (address t) r t0 m0 ?pl = Inr (address k0, p1)"
    using n nt p1(1) d by (cases "ucast (depth + 1) > max_callpath_depth p")
      (simp_all add: scorep_profile_enter_def get_node_def get_location_def call_key_def)
  then have "SCOREP_Profile_Enter class_of inst l t0 r m0 p = Inr ?p'"
    using init d d1(1) cls by (simp add: SCOREP_Profile_Enter_def update_location_def get_location_def)
  moreover have "stands_at ?p' l (address k) (depth + 1)" using d1 k by (simp add: stands_at_def)
  ultimately show ?thesis using p1(2,4,5) by (intro exI [of _ ?p']) simp
qed

definition exited :: "nat \<Rightarrow> u64 \<Rightarrow> u64 list option \<Rightarrow> ptree \<Rightarrow> ptree" where
  "exited number t1 m1 k = change_content (exit_data t1 m1 number) k"

lemma exit_step:
  assumes tree: "holds_tree p par nxt (PNode a d (pre @ k # post))" and at: "stands_at p l (address k) depth"
    and key: "has_key (fst (call_key limit depth r)) (snd (call_key limit depth r)) (content k)"
    and vals: "enough_values (number_of_metrics p) m1" and cls: "class_of r = Other_Region"
  shows "\<exists>p'. SCOREP_Profile_Exit class_of mig l t1 r m1 p = Inr p' \<and>
    holds_tree p' par nxt (PNode a d (pre @ exited (number_of_metrics p) t1 m1 k # post)) \<and>
    stands_at p' l a (depth - 1) \<and> free_memory p' = free_memory p \<and>
    evolves p (PNode a d (pre @ k # post)) p' (PNode a d (pre @ exited (number_of_metrics p) t1 m1 k # post))"
proof -
  let ?f = "exit_data t1 m1 (number_of_metrics p)"
  obtain dl where dl: "locations p l = Some dl" "current_task_node dl = address k" "current_depth dl = depth"
    using at by (auto simp: stands_at_def)
  let ?pl = "p\<lparr>locations := (locations p)(l \<mapsto> dl\<lparr>current_depth := depth - 1\<rparr>)\<rparr>"
  have init: "is_initialized p" using tree by (simp add: holds_tree_def)
  have k: "holds_tree p a (first_address post) k" by (rule holds_tree_child [OF tree])
  have len: "length (dense_metrics (content k)) = number_of_metrics p" by (rule dense_length_child [OF k])
  have kl: "holds_tree ?pl a (first_address post) k" using k by simp
  have "\<exists>p2. change_node (address k) (end_visit t1 m1 (number_of_metrics p)) ?pl = Inr p2 \<and>
      holds_tree p2 a (first_address post) (change_content ?f k) \<and>
      evolves ?pl k p2 (change_content ?f k) \<and> (\<exists>ns. p2 = ?pl\<lparr>nodes := ns\<rparr>)"
  proof (rule content_evolves [OF kl])
    show "length (dense_metrics (?f (content k))) = number_of_metrics ?pl"
      using len vals by (auto simp: exit_data_def metrics_at_def enough_values_def split: option.splits)
    fix n :: profile_node assume n: "node_data.truncate n = content k"
    show "end_visit t1 m1 (number_of_metrics p) n = Inr (node_data.extend (?f (content k))
        \<lparr>parent = parent n, first_child = first_child n, next_sibling = next_sibling n\<rparr>)"
      using visits(2) [of n "number_of_metrics p" m1 t1] vals len truncate_dense [of n] unfolding n by simp
  qed
  then obtain p2 ns where p2: "change_node (address k) (end_visit t1 m1 (number_of_metrics p)) ?pl = Inr p2"
      "holds_tree p2 a (first_address post) (change_content ?f k)"
      "evolves p k p2 (change_content ?f k)" "p2 = ?pl\<lparr>nodes := ns\<rparr>" by auto
  obtain n where n: "get_node p (address k) = Inr n" "node_data.truncate n = content k" "address k \<noteq> NULL"
    using tree_in_root [of p a "first_address post" k] k by (auto simp: holds_tree_def)
  obtain n2 where n2: "get_node p2 (address k) = Inr n2" "node_data.truncate n2 = ?f (content k)" "parent n2 = a"
    using tree_in_root [of p2 a "first_address post" "change_content ?f k"] p2(2) by (auto simp: holds_tree_def)
  have tp: "node_type n = node_type (content k)" "type_specific_data n = type_specific_data (content k)"
    unfolding n(2) [symmetric] by (simp_all add: node_data.defs)
  have "node_type n2 = node_type (?f (content k))" "type_specific_data n2 = type_specific_data (?f (content k))"
    unfolding n2(2) [symmetric] by (simp_all add: node_data.defs)
  then have tp2: "node_type n2 = node_type (content k)" "type_specific_data n2 = type_specific_data (content k)"
    by (simp_all add: exit_data_def)
  have kt: "(node_type (content k) = Node_Collapse \<and> value_entry (type_specific_data (content k)) = ucast depth) \<or>
      (node_type (content k) = Node_Regular_Region \<and> handle_entry (type_specific_data (content k)) = ucast r)"
    using key by (auto simp: call_key_def has_key_def compare_both_entries_def compare_only_value_def split: if_splits)
  have "ucast (ucast r :: u64) = r" by (simp add: ucast_up_ucast_id is_up)
  then have "scorep_profile_exit l (address k) r t1 m1 p = Inr (a, p2)"
    using n n2 tp tp2 kt p2(1) dl
    by (auto simp: scorep_profile_exit_def get_location_def update_location_def fuel_def)
  then have "SCOREP_Profile_Exit class_of mig l t1 r m1 p =
      Inr (p2\<lparr>locations := (locations p)(l \<mapsto> dl\<lparr>current_depth := depth - 1, current_task_node := a\<rparr>)\<rparr>)"
    using init dl cls n(3) p2(4) by (simp add: SCOREP_Profile_Exit_def update_location_def get_location_def)
  moreover have "stands_at (p2\<lparr>locations := (locations p)(l \<mapsto> dl\<lparr>current_depth := depth - 1, current_task_node := a\<rparr>)\<rparr>) l a (depth - 1)"
    using at dl p2(4) by (simp add: stands_at_def)
  moreover have "free_memory p2 = free_memory p" using p2(4) by simp
  ultimately show ?thesis using child_evolves [OF tree p2(2,3)] unfolding exited_def
    by (intro exI [of _ "p2\<lparr>locations := (locations p)(l \<mapsto> dl\<lparr>current_depth := depth - 1, current_task_node := a\<rparr>)\<rparr>"]) simp
qed

lemma unat_ucast_u32: "unat (ucast (x :: u32) :: u64) = unat x"
proof -
  have "unat x < 2 ^ 32" using unsigned_less [of x] by simp
  then show ?thesis by (simp add: unsigned_ucast_eq take_bit_nat_eq_self)
qed

text \<open>Calls beyond the depth limit.\<close>

lemma run_quiet_calls:
  assumes "\<And>c p. c \<in> set cs \<Longrightarrow> Q p \<Longrightarrow> \<exists>rd. run_events class_of inst mig l (events_of c) p = Inr (p\<lparr>reached_depth := rd\<rparr>)"
    and "\<And>p rd. Q p \<Longrightarrow> Q (p\<lparr>reached_depth := rd\<rparr>)" and "Q p"
  shows "\<exists>rd. run_events class_of inst mig l (concat (map events_of cs)) p = Inr (p\<lparr>reached_depth := rd\<rparr>)"
  using assms
proof (induction cs arbitrary: p)
  case Nil
  then show ?case by (intro exI [of _ "reached_depth p"]) simp
next
  case (Cons c cs)
  obtain rd where rd: "run_events class_of inst mig l (events_of c) p = Inr (p\<lparr>reached_depth := rd\<rparr>)"
    using Cons.prems by fastforce
  obtain rd' where "run_events class_of inst mig l (concat (map events_of cs)) (p\<lparr>reached_depth := rd\<rparr>) =
      Inr (p\<lparr>reached_depth := rd\<rparr>\<lparr>reached_depth := rd'\<rparr>)"
    using Cons.IH [of "p\<lparr>reached_depth := rd\<rparr>"] Cons.prems by auto
  then show ?case using rd by (auto simp: run_events_append)
qed

lemma run_collapsed:
  assumes "is_initialized p" and "locations p l = Some d" and "current_task_node d = a" and "a \<noteq> NULL"
    and "get_node p a = Inr n" and "node_type n = Node_Collapse"
    and "value_entry (type_specific_data n) \<le> ucast (current_depth d)"
    and "plain_call class_of number c" and "unat (current_depth d) + call_height c < 2 ^ 32"
  shows "\<exists>rd. run_events class_of inst mig l (events_of c) p = Inr (p\<lparr>reached_depth := rd\<rparr>)"
  using assms
proof (induction c arbitrary: p d)
  case (Call r t0 m0 cs t1 m1)
  let ?d = "d\<lparr>current_depth := current_depth d + 1\<rparr>"
  have cls: "class_of r = Other_Region" using Call.prems(8) by simp
  have h: "unat (current_depth d) + 1 < 2 ^ 32" using Call.prems(9) by simp
  have up: "unat (current_depth d + 1) = unat (current_depth d) + 1"
    using h by (simp add: unat_word_ariths)
  have less: "ucast (current_depth d) < (ucast (current_depth d + 1) :: u64)"
  proof -
    have "unat (ucast (current_depth d) :: u64) = unat (current_depth d)" "unat (ucast (current_depth d + 1) :: u64) = unat (current_depth d + 1)"
      by (rule unat_ucast_u32)+
    then show ?thesis using up by (simp add: word_less_nat_alt)
  qed
  let ?Q = "\<lambda>q. is_initialized q \<and> locations q l = Some ?d \<and> get_node q a = Inr n"
  have inner: "\<exists>rd. run_events class_of inst mig l (events_of c') q = Inr (q\<lparr>reached_depth := rd\<rparr>)"
    if c': "c' \<in> set cs" and Q: "?Q q" for c' q
  proof -
    have "call_height c' \<le> Max (set (0 # map call_height cs))" using c' by (intro Max_ge) auto
    then have "unat (current_depth ?d) + call_height c' < 2 ^ 32" using Call.prems(9) up by simp
    moreover have "plain_call class_of number c'" using Call.prems(8) c' by (simp add: list_all_iff)
    moreover have "value_entry (type_specific_data n) \<le> ucast (current_depth ?d)" using Call.prems(7) less by simp
    ultimately show ?thesis using Call.IH [OF c', of q ?d] Call.prems(3,4,6) Q by simp
  qed
  let ?q = "note_depth (current_depth d + 1) (p\<lparr>locations := (locations p)(l \<mapsto> ?d)\<rparr>)"
  have q: "\<exists>rd. ?q = p\<lparr>locations := (locations p)(l \<mapsto> ?d), reached_depth := rd\<rparr>"
    by (auto simp: note_depth_def intro: exI [of _ "reached_depth p"])
  have a: "a = current_task_node d" using Call.prems(3) by simp
  have enter: "SCOREP_Profile_Enter class_of inst l t0 r m0 p = Inr ?q"
    using Call.prems(1,2,4-6) cls unfolding a
    by (simp add: SCOREP_Profile_Enter_def scorep_profile_enter_def update_location_def get_location_def note_depth_def get_node_def fun_upd_idem)
  have Q: "?Q ?q" using Call.prems(1,5) by (simp add: get_node_def note_depth_def)
  obtain rd where run: "run_events class_of inst mig l (concat (map events_of cs)) ?q = Inr (?q\<lparr>reached_depth := rd\<rparr>)"
    using run_quiet_calls [where Q = ?Q and cs = cs and p = ?q, OF inner _ Q] by (auto simp: get_node_def)
  have q': "?q\<lparr>reached_depth := rd\<rparr> = p\<lparr>locations := (locations p)(l \<mapsto> ?d), reached_depth := rd\<rparr>"
    using q by auto
  have "\<not> ucast (current_depth d + 1) \<le> value_entry (type_specific_data n)"
    using Call.prems(7) less by (meson leD order_le_less_trans)
  then have "SCOREP_Profile_Exit class_of mig l t1 r m1 (?q\<lparr>reached_depth := rd\<rparr>) = Inr (p\<lparr>reached_depth := rd\<rparr>)"
    unfolding q' a using Call.prems(1,2,4-6) cls unfolding a
    by (simp add: SCOREP_Profile_Exit_def scorep_profile_exit_def update_location_def get_location_def get_node_def fun_upd_idem not_le)
  then show ?case using enter run by (auto simp: run_events_append)
qed

lemma has_key_enter_exit [simp]:
  "has_key type dat (enter_data t ms number d) = has_key type dat d"
  "has_key type dat (exit_data t ms number d) = has_key type dat d"
  by (simp_all add: has_key_def enter_data_def exit_data_def)

lemma entered_has_key:
  "entered number limit depth r t0 m0 as t = (pre, k, post, as') \<Longrightarrow>
     has_key (fst (call_key limit depth r)) (snd (call_key limit depth r)) (content k)"
  by (auto simp: entered_def split: prod.splits dest!: split_kids_has_key)

lemma entered_memory:
  "entered number limit depth r t0 m0 as t = (pre, k, post, as') \<Longrightarrow> length as \<le> length as' + draws number"
  by (auto simp: entered_def split: prod.splits elim!: split_kids_cases)

lemma tree_call_eq:
  "entered number limit (depth + 1) r t0 m0 as t = (pre, k, post, as') \<Longrightarrow>
   (if ucast (depth + 1) > limit then (as', k) else tree_calls number limit (depth + 1) cs (as', k)) = (as'', k') \<Longrightarrow>
   tree_call number limit depth (Call r t0 m0 cs t1 m1) (as, t) =
     (as'', PNode (address t) (content t) (pre @ exited number t1 m1 k' # post))"
  by (auto simp: entered_def exited_def Let_def split: prod.splits if_splits)

text \<open>What holds after a part of a run from \<open>p\<close> and the tree \<open>t\<close>.\<close>

definition ran :: "profile \<Rightarrow> nat \<Rightarrow> nat \<Rightarrow> nat \<Rightarrow> u32 \<Rightarrow> ptree \<Rightarrow> nat \<Rightarrow> nat list \<times> ptree \<Rightarrow> profile outcome \<Rightarrow> bool" where
  "ran p l par nxt depth t used x result \<longleftrightarrow>
     (\<exists>p'. result = Inr p' \<and> holds_tree p' par nxt (snd x) \<and> stands_at p' l (address t) depth \<and>
        free_memory p' = fst x \<and> evolves p t p' (snd x) \<and> length (free_memory p) \<le> length (fst x) + used)"

lemma run_call:
  "holds_tree p par nxt t \<Longrightarrow> stands_at p l (address t) depth \<Longrightarrow> node_type (content t) \<noteq> Node_Collapse \<Longrightarrow>
   plain_call class_of (number_of_metrics p) c \<Longrightarrow> unat depth + call_height c < 2 ^ 32 \<Longrightarrow>
   draws (number_of_metrics p) * call_size c \<le> length (free_memory p) \<Longrightarrow>
   number = number_of_metrics p \<Longrightarrow> limit = max_callpath_depth p \<Longrightarrow> x = (free_memory p, t) \<Longrightarrow>
   ran p l par nxt depth t (draws number * call_size c) (tree_call number limit depth c x)
     (run_events class_of inst mig l (events_of c) p)"
  "holds_tree p par nxt t \<Longrightarrow> stands_at p l (address t) depth \<Longrightarrow> node_type (content t) \<noteq> Node_Collapse \<Longrightarrow>
   list_all (plain_call class_of (number_of_metrics p)) cs \<Longrightarrow> (\<And>c. c \<in> set cs \<Longrightarrow> unat depth + call_height c < 2 ^ 32) \<Longrightarrow>
   draws (number_of_metrics p) * sum_list (map call_size cs) \<le> length (free_memory p) \<Longrightarrow>
   number = number_of_metrics p \<Longrightarrow> limit = max_callpath_depth p \<Longrightarrow> x = (free_memory p, t) \<Longrightarrow>
   ran p l par nxt depth t (draws number * sum_list (map call_size cs)) (tree_calls number limit depth cs x)
     (run_events class_of inst mig l (concat (map events_of cs)) p)"
proof (induction number limit depth c x and number limit depth cs x arbitrary: p par nxt t and p par nxt t
    rule: tree_call_tree_calls.induct)
  case (2 number limit depth x)
  then show ?case by (auto simp: ran_def evolves_refl)
next
  case (3 number limit depth c cs x)
  have ok: "store_ok p" using 3(3) by (simp add: holds_tree_def)
  let ?x1 = "tree_call number limit depth c x"
  have mem: "draws (number_of_metrics p) * call_size c + draws (number_of_metrics p) * sum_list (map call_size cs)
      \<le> length (free_memory p)"
    using 3(8) by (simp add: distrib_left)
  have "ran p l par nxt depth t (draws number * call_size c) ?x1 (run_events class_of inst mig l (events_of c) p)"
    using 3(6,7) mem by (intro 3(1) [OF 3(3-5)] 3(9-11)) simp_all
  then obtain p1 where p1: "run_events class_of inst mig l (events_of c) p = Inr p1" "holds_tree p1 par nxt (snd ?x1)"
    "stands_at p1 l (address t) depth" "free_memory p1 = fst ?x1" "evolves p t p1 (snd ?x1)"
    "length (free_memory p) \<le> length (fst ?x1) + draws number * call_size c"
    by (auto simp: ran_def)
  have cfg: "number_of_metrics p1 = number_of_metrics p" "max_callpath_depth p1 = max_callpath_depth p"
    using p1(5) by (simp_all add: evolves_def works_on_def)
  have root: "address (snd ?x1) = address t" "content (snd ?x1) = content t" using 3(11) by simp_all
  have "ran p1 l par nxt depth (snd ?x1) (draws number * sum_list (map call_size cs)) (tree_calls number limit depth cs ?x1)
     (run_events class_of inst mig l (concat (map events_of cs)) p1)"
  proof (rule 3(2) [OF p1(2)])
    show "draws (number_of_metrics p1) * sum_list (map call_size cs) \<le> length (free_memory p1)"
      using mem p1(4,6) cfg 3(9) by simp
  qed (use p1(3,4) root 3(4-10) cfg in \<open>simp_all add: prod_eq_iff\<close>)
  then show ?case
    using p1(1,4,6) root(1) evolves_trans [OF ok p1(5)] by (fastforce simp: ran_def run_events_append distrib_left)
next
  case (1 number limit depth r t0 m0 cs t1 m1 as t')
  have as: "as = free_memory p" "t' = t" using 1(10) by simp_all
  have ok: "store_ok p" using 1(2) by (simp add: holds_tree_def)
  obtain pre k post as1 where ent: "entered number limit (depth + 1) r t0 m0 as t = (pre, k, post, as1)"
    by (cases "entered number limit (depth + 1) r t0 m0 as t") auto
  let ?key = "call_key limit (depth + 1) r" and ?b = "ucast (depth + 1) > limit"
  have key: "has_key (fst ?key) (snd ?key) (content k)" by (rule entered_has_key [OF ent])
  have h: "unat depth + 1 < 2 ^ 32" using 1(6) by simp
  then have up: "unat (depth + 1) = unat depth + 1" by (simp add: unat_word_ariths)
  have down: "depth + 1 - 1 = depth" by simp
  have dr: "draws (number_of_metrics p) \<le> length (free_memory p)" using 1(7) by (simp add: le_trans [rotated])
  have vals: "enough_values (number_of_metrics p) m0" "enough_values number m1" and cls: "class_of r = Other_Region"
    and plains: "list_all (plain_call class_of number) cs"
    using 1(5,8) by simp_all
  have ent': "entered (number_of_metrics p) (max_callpath_depth p) (depth + 1) r t0 m0 (free_memory p) t = (pre, k, post, as1)"
    using ent unfolding as 1(8,9) .
  let ?t1 = "PNode (address t) (content t) (pre @ k # post)"
  obtain p1 where p1: "SCOREP_Profile_Enter class_of inst l t0 r m0 p = Inr p1" "holds_tree p1 par nxt ?t1"
    "stands_at p1 l (address k) (depth + 1)" "free_memory p1 = as1" "evolves p t p1 ?t1"
    using enter_step [where depth = depth and l = l and class_of = class_of and r = r and inst = inst and ?t0.0 = t0, OF 1(2-4) dr vals(1) cls ent'] by blast
  have cfg: "number_of_metrics p1 = number" "max_callpath_depth p1 = limit"
    using p1(5) 1(8,9) by (simp_all add: evolves_def works_on_def)
  have k1: "holds_tree p1 (address t) (first_address post) k" by (rule holds_tree_child [OF p1(2)])
  have used: "length (free_memory p) \<le> length as1 + draws number" using entered_memory [OF ent] as by simp
  obtain as2 k2 where sub: "(if ?b then (as1, k) else tree_calls number limit (depth + 1) cs (as1, k)) = (as2, k2)"
    by (cases "if ?b then (as1, k) else tree_calls number limit (depth + 1) cs (as1, k)")
  have heights: "unat (depth + 1) + call_height c < 2 ^ 32" if "c \<in> set cs" for c
  proof -
    have "call_height c \<le> Max (set (0 # map call_height cs))" using that by (intro Max_ge) auto
    then show ?thesis using 1(6) up by simp
  qed
  have "ran p1 l (address t) (first_address post) (depth + 1) k (draws number * sum_list (map call_size cs)) (as2, k2)
      (run_events class_of inst mig l (concat (map events_of cs)) p1)"
  proof (cases ?b)
    case False
    then have x: "tree_calls number limit (depth + 1) cs (as1, k) = (as2, k2)" using sub by simp
    obtain k0 where split: "split_kids (fst ?key) (snd ?key) t0 number as (kids t') = (pre, k0, post, as1)"
      and k0: "k = change_content (enter_data t0 m0 number) k0"
      using ent as(2) by (auto simp: entered_def split: prod.splits)
    have open_k: "node_type (content k) \<noteq> Node_Collapse" using key False by (simp add: call_key_def has_key_def)
    have plain: "list_all (plain_call class_of (number_of_metrics p1)) cs" using plains cfg(1) by simp
    have mem: "draws (number_of_metrics p1) * sum_list (map call_size cs) \<le> length (free_memory p1)"
      using 1(7,8) cfg p1(4) used by simp
    have start: "(as1, k) = (free_memory p1, k)" by (simp add: p1(4))
    show ?thesis
      using 1(1) [OF refl split [symmetric] refl refl refl k0 False k1 p1(3) open_k plain heights mem cfg [symmetric] start]
      unfolding x .
  next
    case True
    then have x: "as2 = as1" "k2 = k" using sub by simp_all
    obtain dl where dl: "locations p1 l = Some dl" "current_task_node dl = address k" "current_depth dl = depth + 1"
      using p1(3) by (auto simp: stands_at_def)
    obtain n where n: "get_node p1 (address k) = Inr n" "node_data.truncate n = content k" "address k \<noteq> NULL"
      using tree_in_root [of p1 "address t" "first_address post" k] k1 by (auto simp: holds_tree_def)
    have nt: "node_type n = Node_Collapse" "value_entry (type_specific_data n) = ucast (depth + 1)"
      using key True unfolding n(2) [symmetric]
      by (simp_all add: node_data.defs has_key_def call_key_def compare_only_value_def)
    have init1: "is_initialized p1" using k1 by (simp add: holds_tree_def)
    let ?Q = "\<lambda>q. is_initialized q \<and> locations q l = Some dl \<and> get_node q (address k) = Inr n"
    have "\<exists>rd. run_events class_of inst mig l (events_of c) q = Inr (q\<lparr>reached_depth := rd\<rparr>)"
      if c: "c \<in> set cs" and Q: "?Q q" for c q
    proof -
      have q: "is_initialized q" "locations q l = Some dl" "get_node q (address k) = Inr n" using Q by blast+
      show ?thesis
      proof (rule run_collapsed [OF q(1,2) dl(2) n(3) q(3) nt(1)])
      show "plain_call class_of number c" using plains c by (simp add: list_all_iff)
      show "unat (current_depth dl) + call_height c < 2 ^ 32" using heights [OF c] dl(3) by simp
      show "value_entry (type_specific_data n) \<le> ucast (current_depth dl)" using nt(2) dl(3) by simp
      qed
    qed
    then obtain rd where "run_events class_of inst mig l (concat (map events_of cs)) p1 = Inr (p1\<lparr>reached_depth := rd\<rparr>)"
      using run_quiet_calls [where Q = ?Q and cs = cs and p = p1] dl(1) n(1) init1 by (simp add: get_node_def) blast
    then show ?thesis using k1 p1(3,4) x by (simp add: ran_def evolves_refl)
  qed
  then obtain p2 where p2: "run_events class_of inst mig l (concat (map events_of cs)) p1 = Inr p2"
    "holds_tree p2 (address t) (first_address post) k2" "stands_at p2 l (address k) (depth + 1)" "free_memory p2 = as2"
    "evolves p1 k p2 k2" "length as1 \<le> length as2 + draws number * sum_list (map call_size cs)"
    using p1(4) by (auto simp: ran_def)
  let ?t2 = "PNode (address t) (content t) (pre @ k2 # post)"
  have t2: "holds_tree p2 par nxt ?t2" "evolves p1 ?t1 p2 ?t2" by (rule child_evolves [OF p1(2) p2(2,5)])+
  have k2: "address k2 = address k" "content k2 = content k"
    using tree_calls_root [of number limit "depth + 1" cs "(as1, k)"] sub by (cases ?b; simp)+
  have cfg2: "number_of_metrics p2 = number" using p2(5) cfg by (simp add: evolves_def works_on_def)
  let ?t3 = "PNode (address t) (content t) (pre @ exited number t1 m1 k2 # post)"
  obtain p3 where p3: "SCOREP_Profile_Exit class_of mig l t1 r m1 p2 = Inr p3" "holds_tree p3 par nxt ?t3"
    "stands_at p3 l (address t) depth" "free_memory p3 = as2" "evolves p2 ?t2 p3 ?t3"
    using exit_step [where l = l and depth = "depth + 1" and limit = limit and r = r and ?m1.0 = m1 and class_of = class_of
        and mig = mig and ?t1.0 = t1, OF t2(1)] p2(3,4) k2 key cfg2 vals(2) cls by auto
  have "evolves p t p3 ?t3"
    by (rule evolves_trans [OF ok p1(5) evolves_trans [OF _ t2(2) p3(5)]]) (use p1(2) in \<open>simp add: holds_tree_def\<close>)
  moreover have "length (free_memory p) \<le> length as2 + draws number * call_size (Call r t0 m0 cs t1 m1)"
    using used p2(6) by simp
  ultimately show ?case
    using tree_call_eq [OF ent sub] p1(1) p2(1) p3 as by (simp add: ran_def run_events_append)
qed

end
