(* ===== verification/ProfileStatistics.thy ===== *)
theory ProfileStatistics
  imports ProfileRun
begin

section \<open>What a profile says of a run\<close>

text \<open>
  The data at a call path of the tree that \<open>run_call\<close> gives is that of the calls with this call path, in the
  order of their time; the statistics of a node follow from it.
\<close>

subsection \<open>Calls by path\<close>

text \<open>The data at a path of regions below the root of a tree.\<close>

definition region_key :: "u32 \<Rightarrow> type_data" where
  "region_key r = \<lparr>handle_entry = ucast r, value_entry = 0\<rparr>"

fun at_path :: "u32 list \<Rightarrow> ptree \<Rightarrow> node_data option" where
  "at_path [] t = Some (content t)"
| "at_path (r # rs) t =
     (case find (\<lambda>k. has_key Node_Regular_Region (region_key r) (content k)) (kids t) of
        None \<Rightarrow> None
      | Some k \<Rightarrow> at_path rs k)"

text \<open>The calls with a call path, in the order of their time.\<close>

fun calls_at :: "u32 list \<Rightarrow> call list \<Rightarrow> call list" where
  "calls_at [] cs = []"
| "calls_at [r] cs = filter (\<lambda>c. call_region c = r) cs"
| "calls_at (r # rs) cs = calls_at rs (concat (map calls_of (filter (\<lambda>c. call_region c = r) cs)))"

definition visit :: "nat \<Rightarrow> call \<Rightarrow> node_data \<Rightarrow> node_data" where
  "visit number c d =
     exit_data (exit_time c) (exit_metrics c) number (enter_data (enter_time c) (enter_metrics c) number d)"

definition fresh_data :: "nat \<Rightarrow> u32 \<Rightarrow> u64 \<Rightarrow> node_data" where
  "fresh_data number r timestamp =
     initial_data Node_Regular_Region (region_key r) timestamp (replicate number scorep_profile_init_dense_metric) []"

text \<open>What the visits of the calls make of the data at a path, which may not have been there.\<close>

definition visited :: "nat \<Rightarrow> u32 \<Rightarrow> call list \<Rightarrow> node_data option \<Rightarrow> node_data option" where
  "visited number r cs old =
     (case cs of [] \<Rightarrow> old
      | c # _ \<Rightarrow> Some (fold (visit number) cs (case old of None \<Rightarrow> fresh_data number r (enter_time c) | Some d \<Rightarrow> d)))"

lemma visited_append:
  "visited number r (cs @ ds) old = visited number r ds (visited number r cs old)"
  by (cases cs; cases ds; simp add: visited_def)

lemma visited_Nil: "visited number r [] old = old"
  by (simp add: visited_def)

lemma ucast_u32_eq: "(ucast (x :: u32) :: u64) = ucast y \<longleftrightarrow> x = y"
  using unat_ucast_u32 [of x] unat_ucast_u32 [of y] by (metis unsigned_word_eqI)

lemma has_key_regions:
  assumes "has_key Node_Regular_Region (region_key r) d"
  shows "has_key Node_Regular_Region (region_key r') d \<longleftrightarrow> r' = r"
proof -
  have "type_specific_data d = region_key r" "node_type d = Node_Regular_Region"
    using assms by (simp_all add: has_key_def compare_both_entries_def)
  then show ?thesis by (simp add: has_key_def compare_both_entries_def region_key_def ucast_u32_eq)
qed

lemma calls_at_append: "calls_at rs (cs @ ds) = calls_at rs cs @ calls_at rs ds"
  by (induction rs cs arbitrary: ds rule: calls_at.induct) simp_all

lemma calls_at_Nil [simp]: "calls_at rs [] = []"
  by (induction rs "[] :: call list" rule: calls_at.induct) simp_all

lemma at_path_change_content: "rs \<noteq> [] \<Longrightarrow> at_path rs (change_content f t) = at_path rs t"
  by (cases rs) simp_all

lemma find_append_list: "find P (xs @ ys) = (case find P xs of None \<Rightarrow> find P ys | Some x \<Rightarrow> Some x)"
  by (induction xs) simp_all

lemma find_None_list: "list_all (\<lambda>x. \<not> P x) xs \<Longrightarrow> find P xs = None"
  by (induction xs) simp_all

lemma at_path_other:
  assumes "has_key Node_Regular_Region (region_key r) (content k)" and "r' \<noteq> r"
  shows "at_path (r' # rs) (PNode a d (pre @ k # post)) = at_path (r' # rs) (PNode a d (pre @ post))"
  using assms by (simp add: find_append_list has_key_regions split: option.splits)

lemma at_path_this:
  assumes "has_key Node_Regular_Region (region_key r) (content k)"
    and "list_all (\<lambda>t. \<not> has_key Node_Regular_Region (region_key r) (content t)) pre"
  shows "at_path (r # rs) (PNode a d (pre @ k # post)) = at_path rs k"
  using assms by (simp add: find_append_list find_None_list)

lemma call_key_region:
  "ucast depth \<le> limit \<Longrightarrow> call_key limit depth r = (Node_Regular_Region, region_key r)"
  by (simp add: call_key_def region_key_def)

lemma tree_call_paths:
  "rs \<noteq> [] \<Longrightarrow> unat depth + length rs \<le> unat limit \<Longrightarrow> unat depth + call_height c < 2 ^ 32 \<Longrightarrow>
     at_path rs (snd (tree_call number limit depth c x)) = visited number (last rs) (calls_at rs [c]) (at_path rs (snd x))"
  "rs \<noteq> [] \<Longrightarrow> unat depth + length rs \<le> unat limit \<Longrightarrow> (\<And>c. c \<in> set cs \<Longrightarrow> unat depth + call_height c < 2 ^ 32) \<Longrightarrow>
     at_path rs (snd (tree_calls number limit depth cs x)) = visited number (last rs) (calls_at rs cs) (at_path rs (snd x))"
proof (induction number limit depth c x and number limit depth cs x arbitrary: rs and rs
    rule: tree_call_tree_calls.induct)
  case (2 number limit depth x)
  then show ?case by (simp add: visited_def)
next
  case (3 number limit depth c cs x)
  have "calls_at rs (c # cs) = calls_at rs [c] @ calls_at rs cs" using calls_at_append [of rs "[c]" cs] by simp
  then show ?case using 3 by (simp add: visited_append)
next
  case (1 number limit depth r t0 m0 cs t1 m1 as t)
  obtain r' rs' where rs: "rs = r' # rs'" using 1(2) by (cases rs) simp_all
  have up: "unat (depth + 1) = unat depth + 1" using 1(4) by (simp add: unat_word_ariths)
  then have below: "ucast (depth + 1) \<le> limit"
    using 1(3) rs unat_ucast_u32 [of "depth + 1"] by (simp add: word_le_nat_alt)
  note key = call_key_region [OF below]
  obtain pre k0 post as1 where split: "split_kids Node_Regular_Region (region_key r) t0 number as (kids t) = (pre, k0, post, as1)"
    by (cases "split_kids Node_Regular_Region (region_key r) t0 number as (kids t)") auto
  let ?k = "change_content (enter_data t0 m0 number) k0"
  let ?x2 = "tree_calls number limit (depth + 1) cs (as1, ?k)"
  let ?k3 = "exited number t1 m1 (snd ?x2)"
  have res: "snd (tree_call number limit depth (Call r t0 m0 cs t1 m1) (as, t)) =
      PNode (address t) (content t) (pre @ ?k3 # post)"
    using below [THEN leD] split key by (simp add: exited_def Let_def split: prod.splits)
  have hk: "has_key Node_Regular_Region (region_key r) (content k0)" by (rule split_kids_has_key [OF split])
  then have hk3: "has_key Node_Regular_Region (region_key r) (content ?k3)" by (simp add: exited_def)
  have pre: "list_all (\<lambda>t. \<not> has_key Node_Regular_Region (region_key r) (content t)) pre"
    using split by (cases rule: split_kids_cases) simp_all
  have other: "at_path (r'' # rs'') t = at_path (r'' # rs'') (PNode (address t) (content t) (pre @ post))" if "r'' \<noteq> r" for r'' rs''
    using split
  proof (cases rule: split_kids_cases)
    case found
    then show ?thesis using at_path_other [OF hk that, of rs'' "address t" "content t" pre post] by (cases t) simp
  qed (cases t; simp)
  show ?case
  proof (cases "r' = r")
    case False
    then have none: "calls_at rs [Call r t0 m0 cs t1 m1] = []" using rs by (cases rs') simp_all
    show ?thesis
      by (simp only: none visited_Nil res snd_conv) (simp only: rs at_path_other [OF hk3 False] other [OF False])
  next
    case True
    have new: "at_path rs (snd (tree_call number limit depth (Call r t0 m0 cs t1 m1) (as, t))) = at_path rs' ?k3"
      unfolding res rs True by (rule at_path_this [OF hk3 pre])
    have old: "at_path rs t = at_path rs' k0 \<or>
        (at_path rs t = None \<and> kids k0 = [] \<and> content k0 = fresh_data number r t0)"
      using split
    proof (cases rule: split_kids_cases)
      case found
      then show ?thesis using at_path_this [OF hk pre, of rs' "address t" "content t" post] rs True by (cases t) simp
    next
      case missing
      then have "find (\<lambda>k. has_key Node_Regular_Region (region_key r) (content k)) (kids t) = None"
        by (auto simp: find_None_iff)
      then show ?thesis using missing(5) rs True by (simp add: fresh_data_def)
    qed
    show ?thesis
    proof (cases rs')
      case Nil
      have "content ?k3 = visit number (Call r t0 m0 cs t1 m1) (content k0)" by (simp add: exited_def visit_def)
      then show ?thesis using new old Nil rs True by (auto simp: visited_def)
    next
      case (Cons r2 rs2)
      have ne: "rs' \<noteq> []" using Cons by simp
      have split': "(pre, k0, post, as1) = split_kids (fst (call_key limit (depth + 1) r))
          (snd (call_key limit (depth + 1) r)) t0 number as (kids t)"
        using split key by simp
      have heights: "unat (depth + 1) + call_height c < 2 ^ 32" if "c \<in> set cs" for c
      proof -
        have "call_height c \<le> Max (set (0 # map call_height cs))" using that by (intro Max_ge) auto
        then show ?thesis using 1(4) up by simp
      qed
      have "at_path rs' (snd ?x2) = visited number (last rs') (calls_at rs' cs) (at_path rs' ?k)"
        using 1(1) [OF refl split' refl refl refl refl _ _ _ heights, of rs'] below [THEN leD] Cons 1(3) up rs by simp
      then have "at_path rs' (snd ?x2) = visited number (last rs') (calls_at rs' cs) (at_path rs' k0)"
        unfolding at_path_change_content [OF ne] .
      moreover have "at_path rs' k0 = at_path rs t" using old Cons by auto
      moreover have "calls_at rs [Call r t0 m0 cs t1 m1] = calls_at rs' cs" using rs True Cons by simp
      ultimately show ?thesis using new rs ne by (simp add: exited_def at_path_change_content)
    qed
  qed
qed

definition duration :: "call \<Rightarrow> u64" where
  "duration c = exit_time c - enter_time c"

text \<open>The statistics of the visits.\<close>

lemma visit_statistics:
  "node_count (visit number c d) = node_count d + 1" 
  "first_enter_time (visit number c d) = first_enter_time d" "last_exit_time (visit number c d) = exit_time c"
  "intermediate_sum (inclusive_time d) = 0 \<Longrightarrow> intermediate_sum (inclusive_time (visit number c d)) = 0"
  "intermediate_sum (inclusive_time d) = 0 \<Longrightarrow>
     metric_sum (inclusive_time (visit number c d)) = metric_sum (inclusive_time d) + duration c"
  "intermediate_sum (inclusive_time d) = 0 \<Longrightarrow>
     metric_min (inclusive_time (visit number c d)) = min (duration c) (metric_min (inclusive_time d))"
  "intermediate_sum (inclusive_time d) = 0 \<Longrightarrow>
     metric_max (inclusive_time (visit number c d)) = max (duration c) (metric_max (inclusive_time d))"
  "intermediate_sum (inclusive_time d) = 0 \<Longrightarrow>
     squares (inclusive_time (visit number c d)) = squares (inclusive_time d) + duration c * duration c"
  by (auto simp: visit_def exit_data_def enter_data_def scorep_profile_update_dense_metric_def set_start_def Let_def
      duration_def min_def max_def)

lemma visits_statistics:
  "node_count (fold (visit number) cs d) = node_count d + of_nat (length cs)"
  "first_enter_time (fold (visit number) cs d) = first_enter_time d"
  "last_exit_time (fold (visit number) cs d) = (if cs = [] then last_exit_time d else exit_time (last cs))"
  "intermediate_sum (inclusive_time d) = 0 \<Longrightarrow>
     metric_sum (inclusive_time (fold (visit number) cs d)) = metric_sum (inclusive_time d) + sum_list (map duration cs)"
  "intermediate_sum (inclusive_time d) = 0 \<Longrightarrow>
     metric_min (inclusive_time (fold (visit number) cs d)) = fold min (map duration cs) (metric_min (inclusive_time d))"
  "intermediate_sum (inclusive_time d) = 0 \<Longrightarrow>
     metric_max (inclusive_time (fold (visit number) cs d)) = fold max (map duration cs) (metric_max (inclusive_time d))"
  "intermediate_sum (inclusive_time d) = 0 \<Longrightarrow>
     squares (inclusive_time (fold (visit number) cs d)) =
       squares (inclusive_time d) + sum_list (map (\<lambda>c. duration c * duration c) cs)"
  by (induction cs arbitrary: d) (simp_all add: visit_statistics algebra_simps)

lemma fold_min_top: "xs \<noteq> [] \<Longrightarrow> fold min xs (- 1 :: u64) = Min (set xs)"
  using Min.set_eq_fold [of "- 1 :: u64" xs] by (simp add: min_absorb2)

lemma fold_max_bot: "xs \<noteq> [] \<Longrightarrow> fold max xs (0 :: u64) = Max (set xs)"
  using Max.set_eq_fold [of "0 :: u64" xs] by simp

lemma run_calls:
  assumes "holds_tree p par nxt t" and "stands_at p l (address t) depth" and "node_type (content t) \<noteq> Node_Collapse"
    and "list_all (plain_call class_of (number_of_metrics p)) cs"
    and "list_all (\<lambda>c. unat depth + call_height c < 2 ^ 32) cs"
    and "draws (number_of_metrics p) * sum_list (map call_size cs) \<le> length (free_memory p)"
  obtains p' t' where "run_events class_of inst mig l (concat (map events_of cs)) p = Inr p'"
    and "holds_tree p' par nxt t'" and "stands_at p' l (address t) depth"
    and "length (free_memory p) \<le> length (free_memory p') + draws (number_of_metrics p) * sum_list (map call_size cs)"
    and "address t' = address t" and "content t' = content t" and "works_on (set (addresses t)) p p'"
    and "\<And>rs. rs \<noteq> [] \<Longrightarrow> unat depth + length rs \<le> unat (max_callpath_depth p) \<Longrightarrow>
       at_path rs t' = visited (number_of_metrics p) (last rs) (calls_at rs cs) (at_path rs t)"
proof -
  let ?x = "tree_calls (number_of_metrics p) (max_callpath_depth p) depth cs (free_memory p, t)"
  have heights: "unat depth + call_height c < 2 ^ 32" if "c \<in> set cs" for c
    using assms(5) that by (simp add: list_all_iff)
  have "ran p l par nxt depth t (draws (number_of_metrics p) * sum_list (map call_size cs)) ?x
      (run_events class_of inst mig l (concat (map events_of cs)) p)"
    by (rule run_call(2) [OF assms(1-4) heights assms(6) refl refl refl])
  then obtain p' where p': "run_events class_of inst mig l (concat (map events_of cs)) p = Inr p'"
    "holds_tree p' par nxt (snd ?x)" "stands_at p' l (address t) depth" "free_memory p' = fst ?x"
    "evolves p t p' (snd ?x)" "length (free_memory p) \<le> length (fst ?x) + draws (number_of_metrics p) * sum_list (map call_size cs)"
    by (auto simp: ran_def)
  have "at_path rs (snd ?x) = visited (number_of_metrics p) (last rs) (calls_at rs cs) (at_path rs t)"
    if "rs \<noteq> []" "unat depth + length rs \<le> unat (max_callpath_depth p)" for rs
    using tree_call_paths(2) [OF that heights, where x = "(free_memory p, t)"] by simp
  then show ?thesis using p' by (intro that [of p' "snd ?x"]) (simp_all add: evolves_def)
qed


subsection \<open>From the creation of a location\<close>

definition root_data :: "nat \<Rightarrow> nat \<Rightarrow> u64 \<Rightarrow> node_data" where
  "root_data number l thread_id =
     initial_data Node_Thread_Root \<lparr>handle_entry = of_nat l, value_entry = thread_id\<rparr> 0
       (replicate number scorep_profile_init_dense_metric) []"

lemma drop_free:
  assumes "store_ok p" and "draws number \<le> length (free_memory p)"
  shows "hd (free_memory p) \<in> set (free_memory p)" and "hd (free_memory p) \<notin> set (drop (draws number) (free_memory p))"
    and "set (drop (draws number) (free_memory p)) \<subseteq> set (free_memory p)"
proof -
  obtain a as where m: "free_memory p = a # as" using assms(2) by (cases "free_memory p") (auto simp: draws_def split: if_splits)
  then show "hd (free_memory p) \<in> set (free_memory p)" by simp
  have "set (drop (draws number) (free_memory p)) \<subseteq> set as"
    using m by (auto simp: draws_def dest: in_set_dropD)
  then show "hd (free_memory p) \<notin> set (drop (draws number) (free_memory p))" using assms(1) m by (auto simp: store_ok_def)
  show "set (drop (draws number) (free_memory p)) \<subseteq> set (free_memory p)" by (rule set_drop_subset)
qed

lemma fresh_location:
  assumes init: "is_initialized p" and ok: "store_ok p" and stubs: "stub_exchange p = NULL"
    and mem: "draws (number_of_metrics p) \<le> length (free_memory p)"
  shows "\<exists>p'. on_location_creation NULL l thread_id None p = Inr p' \<and>
    holds_tree p' NULL (first_root_node p) (PNode (hd (free_memory p)) (root_data (number_of_metrics p) l thread_id) []) \<and>
    stands_at p' l (hd (free_memory p)) 0 \<and> free_memory p' = drop (draws (number_of_metrics p)) (free_memory p) \<and>
    number_of_metrics p' = number_of_metrics p \<and> max_callpath_depth p' = max_callpath_depth p \<and>
    first_root_node p' = hd (free_memory p)"
proof -
  let ?a = "hd (free_memory p)" and ?n = "number_of_metrics p"
  let ?d = "scorep_profile_create_location_data NULL"
  let ?pl = "p\<lparr>locations := (locations p)(l \<mapsto> ?d)\<rparr>"
  let ?node = "node_data.extend (root_data ?n l thread_id)
      \<lparr>parent = NULL, first_child = NULL, next_sibling = first_root_node p\<rparr> :: profile_node"
  let ?p = "p\<lparr>nodes := (nodes p)(?a \<mapsto> ?node), max_nodes := Suc (max_nodes p), free_memory := drop (draws ?n) (free_memory p),
      locations := (locations p)(l \<mapsto> ?d\<lparr>root_node := ?a, current_task_node := ?a\<rparr>), first_root_node := ?a\<rparr>"
  obtain a as where m: "free_memory p = a # as" using mem by (cases "free_memory p") (auto simp: draws_def split: if_splits)
  have two: "?n > 0 \<Longrightarrow> as \<noteq> []" using mem m by (auto simp: draws_def)
  have free: "?a \<notin> dom (nodes p)" "?a \<noteq> NULL" using ok m by (auto simp: store_ok_def)
  have "on_location_creation NULL l thread_id None p = Inr ?p"
    using init m two
    by (cases as) (auto simp: on_location_creation_def scorep_profile_create_node_def scorep_profile_alloc_node_def get_location_def
        update_location_def get_node_def update_node_def SCOREP_Location_AllocForProfile_def draws_def zero_node_def
        scorep_profile_set_task_context_def root_data_def initial_data_def node_data.defs Let_def)
  moreover have "store_ok ?p"
    using ok free drop_free [OF ok mem] by (auto simp: store_ok_def card_insert_if distinct_drop)
  then have "holds_tree ?p NULL (first_root_node p) (PNode ?a (root_data ?n l thread_id) [])"
    using init free by (auto simp: holds_tree_def node_holds_def node_data.defs NULL_def root_data_def initial_data_def)
  moreover have "stands_at ?p l ?a 0"
    using stubs by (simp add: stands_at_def scorep_profile_create_location_data_def)
  ultimately show ?thesis by (intro exI [of _ ?p]) simp
qed

lemma profile_of_calls:
  assumes "is_initialized p" and "store_ok p" and "stub_exchange p = NULL"
    and "list_all (plain_call class_of (number_of_metrics p)) cs"
    and "list_all (\<lambda>c. call_height c < 2 ^ 32) cs"
    and "draws (number_of_metrics p) * Suc (sum_list (map call_size cs)) \<le> length (free_memory p)"
  obtains p1 p' t where "on_location_creation NULL l thread_id None p = Inr p1"
    and "run_events class_of inst mig l (concat (map events_of cs)) p1 = Inr p'"
    and "holds_tree p' NULL (first_root_node p) t" and "stands_at p' l (address t) 0" and "first_root_node p' = address t"
    and "\<And>rs. rs \<noteq> [] \<Longrightarrow> length rs \<le> unat (max_callpath_depth p) \<Longrightarrow>
       at_path rs t = visited (number_of_metrics p) (last rs) (calls_at rs cs) None"
proof -
  let ?t0 = "PNode (hd (free_memory p)) (root_data (number_of_metrics p) l thread_id) []"
  have mem: "draws (number_of_metrics p) \<le> length (free_memory p)" using assms(6) by simp
  obtain p1 where p1: "on_location_creation NULL l thread_id None p = Inr p1" "holds_tree p1 NULL (first_root_node p) ?t0"
    "stands_at p1 l (address ?t0) 0" "free_memory p1 = drop (draws (number_of_metrics p)) (free_memory p)"
    "number_of_metrics p1 = number_of_metrics p" "max_callpath_depth p1 = max_callpath_depth p"
    "first_root_node p1 = hd (free_memory p)"
    using fresh_location [OF assms(1-3) mem, of l thread_id] by auto
  have root: "node_type (content ?t0) \<noteq> Node_Collapse" by (simp add: root_data_def initial_data_def)
  have "list_all (plain_call class_of (number_of_metrics p1)) cs" "list_all (\<lambda>c. unat (0 :: u32) + call_height c < 2 ^ 32) cs"
    "draws (number_of_metrics p1) * sum_list (map call_size cs) \<le> length (free_memory p1)"
    using assms(4-6) p1(4,5) by simp_all
  then obtain p' t where "run_events class_of inst mig l (concat (map events_of cs)) p1 = Inr p'"
    "holds_tree p' NULL (first_root_node p) t" "stands_at p' l (address ?t0) 0" "address t = address ?t0"
    "works_on (set (addresses ?t0)) p1 p'"
    "\<And>rs. rs \<noteq> [] \<Longrightarrow> unat (0 :: u32) + length rs \<le> unat (max_callpath_depth p1) \<Longrightarrow>
       at_path rs t = visited (number_of_metrics p1) (last rs) (calls_at rs cs) (at_path rs ?t0)"
    using run_calls [OF p1(2,3) root, of class_of cs inst mig] by metis
  moreover have "at_path rs ?t0 = None" if "rs \<noteq> []" for rs using that by (cases rs) simp_all
  ultimately show ?thesis using p1(1,5,6,7) by (intro that [of p1 p' t]) (simp_all add: works_on_def)
qed

subsection \<open>Leaving the open regions\<close>

text \<open>What the events of leaving regions do not change of a node, and the path from a node to its root.\<close>

definition skeleton :: "profile \<Rightarrow> nat \<Rightarrow> (nat \<times> node_type \<times> type_data \<times> nat) option" where
  "skeleton p a = map_option (\<lambda>n. (parent n, node_type n, type_specific_data n, length (dense_metrics n))) (nodes p a)"

fun upwards :: "profile \<Rightarrow> nat \<Rightarrow> nat list \<Rightarrow> bool" where
  "upwards p a [] \<longleftrightarrow> a = NULL"
| "upwards p a (x # xs) \<longleftrightarrow> a = x \<and> x \<noteq> NULL \<and>
     (\<exists>n. nodes p x = Some n \<and> length (dense_metrics n) = number_of_metrics p \<and> upwards p (parent n) xs)"

definition is_region :: "profile \<Rightarrow> nat \<Rightarrow> bool" where
  "is_region p a \<longleftrightarrow> (\<exists>n. nodes p a = Some n \<and> (node_type n = Node_Regular_Region \<or> node_type n = Node_Collapse))"

definition alike :: "profile \<Rightarrow> profile \<Rightarrow> bool" where
  "alike p p' \<longleftrightarrow> skeleton p' = skeleton p \<and> number_of_metrics p' = number_of_metrics p \<and> max_nodes p' = max_nodes p \<and>
     is_initialized p' = is_initialized p"

lemma alike_node:
  assumes "alike p p'" and "nodes p a = Some n"
  obtains n' where "nodes p' a = Some n'" "parent n' = parent n" "node_type n' = node_type n"
    "type_specific_data n' = type_specific_data n" "length (dense_metrics n') = length (dense_metrics n)"
proof -
  have "skeleton p' a = skeleton p a" using assms(1) by (simp add: alike_def)
  then show ?thesis using assms(2) that by (cases "nodes p' a") (auto simp: skeleton_def)
qed

lemma upwards_alike: "alike p p' \<Longrightarrow> upwards p a as \<Longrightarrow> upwards p' a as"
proof (induction as arbitrary: a)
  case (Cons x xs)
  then obtain n where n: "nodes p x = Some n" "length (dense_metrics n) = number_of_metrics p" "upwards p (parent n) xs" by auto
  then obtain n' where "nodes p' x = Some n'" "parent n' = parent n" "length (dense_metrics n') = length (dense_metrics n)"
    using alike_node [OF Cons.prems(1) n(1)] by metis
  then show ?case using Cons n by (auto simp: alike_def)
qed simp

lemma is_region_alike: "alike p p' \<Longrightarrow> is_region p' a = is_region p a"
proof -
  assume "alike p p'"
  then have "skeleton p' a = skeleton p a" by (simp add: alike_def)
  then show ?thesis by (cases "nodes p a"; cases "nodes p' a") (auto simp: skeleton_def is_region_def)
qed

lemma alike_trans: "alike p p' \<Longrightarrow> alike p' p'' \<Longrightarrow> alike p p''"
  by (simp add: alike_def)

lemma end_visit_alike:
  assumes "nodes p a = Some n" and "length (dense_metrics n) = number_of_metrics p" and "enough_values (number_of_metrics p) ms"
  shows "\<exists>n'. change_node a (end_visit timestamp ms (number_of_metrics p)) p = Inr (p\<lparr>nodes := (nodes p)(a \<mapsto> n')\<rparr>) \<and>
    parent n' = parent n \<and> node_type n' = node_type n \<and> type_specific_data n' = type_specific_data n \<and>
    length (dense_metrics n') = length (dense_metrics n)"
  using visits(2) [OF assms(2,3), of timestamp] assms
  by (auto simp: change_node_def get_node_def exit_data_def node_data.defs metrics_at_def enough_values_def split: option.splits)

lemma open_region_upwards:
  assumes "upwards p a as" and "length as < k"
  shows "open_region k a p = Inr (case find (is_region p) as of None \<Rightarrow> NULL | Some r \<Rightarrow> r)"
  using assms
proof (induction as arbitrary: a k)
  case Nil
  then show ?case by (cases k) simp_all
next
  case (Cons x xs)
  then obtain n where n: "nodes p x = Some n" "upwards p (parent n) xs" "a = x" "x \<noteq> NULL" by auto
  obtain k' where "k = Suc k'" using Cons.prems(2) by (cases k) simp_all
  then show ?case using n Cons.IH [OF n(2), of k'] Cons.prems(2) by (auto simp: get_node_def is_region_def)
qed

text \<open>The nodes from the current one up to the nearest region.\<close>

lemma exit_nodes_upwards:
  assumes "upwards p a (pre @ r # post)" and "list_all (\<lambda>x. \<not> is_region p x) pre" and "is_region p r"
    and "locations p l = Some d" and "length pre < k" and "enough_values (number_of_metrics p) ms"
  shows "\<exists>n p' e. exit_nodes k l timestamp ms a p = Inr (n, p') \<and> alike p p' \<and> nodes p' r = Some n \<and>
    locations p' = (locations p)(l \<mapsto> d\<lparr>current_depth := e\<rparr>)"
  using assms
proof (induction k arbitrary: p a pre d)
  case (Suc k)
  obtain x xs where xs: "pre @ r # post = x # xs" by (cases pre) simp_all
  obtain n where n: "nodes p a = Some n" "length (dense_metrics n) = number_of_metrics p" "upwards p (parent n) xs" "a = x" "a \<noteq> NULL"
    using Suc.prems(1) xs by auto
  let ?p0 = "p\<lparr>locations := (locations p)(l \<mapsto> d\<lparr>current_depth := current_depth d - 1\<rparr>)\<rparr>"
  obtain n' where n': "change_node a (end_visit timestamp ms (number_of_metrics p)) ?p0 = Inr (?p0\<lparr>nodes := (nodes p)(a \<mapsto> n')\<rparr>)"
    "parent n' = parent n" "node_type n' = node_type n" "type_specific_data n' = type_specific_data n"
    "length (dense_metrics n') = length (dense_metrics n)"
    using end_visit_alike [of ?p0 a n ms timestamp] n(1,2) Suc.prems(6) by auto
  let ?p1 = "?p0\<lparr>nodes := (nodes p)(a \<mapsto> n')\<rparr>"
  have like: "alike p ?p1" using n(1) n'(2-5) by (auto simp: alike_def skeleton_def)
  have run: "exit_nodes (Suc k) l timestamp ms a p =
      (if node_type n' \<noteq> Node_Regular_Region \<and> node_type n' \<noteq> Node_Collapse \<and> parent n' \<noteq> NULL
       then exit_nodes k l timestamp ms (parent n') ?p1 else Inr (n', ?p1))"
    using n'(1) Suc.prems(4) by (simp add: update_location_def get_location_def get_node_def)
  show ?case
  proof (cases pre)
    case Nil
    then have "a = r" using n(4) xs by simp
    then have "node_type n' = Node_Regular_Region \<or> node_type n' = Node_Collapse"
      using Suc.prems(3) n(1) n'(3) by (auto simp: is_region_def)
    then show ?thesis using run like \<open>a = r\<close> by (intro exI [of _ n'] exI [of _ ?p1] exI [of _ "current_depth d - 1"]) auto
  next
    case (Cons y pre')
    then have y: "y = a" "xs = pre' @ r # post" using xs n(4) by simp_all
    then have "\<not> is_region p a" using Suc.prems(2) Cons by simp
    then have go: "node_type n' \<noteq> Node_Regular_Region" "node_type n' \<noteq> Node_Collapse" using n(1) n'(3) by (auto simp: is_region_def)
    have up: "upwards ?p1 (parent n') (pre' @ r # post)" using upwards_alike [OF like n(3)] n'(2) y(2) by simp
    then have "parent n' \<noteq> NULL" by (cases pre') auto
    moreover have "\<exists>m p' e. exit_nodes k l timestamp ms (parent n') ?p1 = Inr (m, p') \<and> alike ?p1 p' \<and> nodes p' r = Some m \<and>
        locations p' = (locations ?p1)(l \<mapsto> d\<lparr>current_depth := current_depth d - 1\<rparr>\<lparr>current_depth := e\<rparr>)"
    proof (rule Suc.IH [OF up])
      show "list_all (\<lambda>x. \<not> is_region ?p1 x) pre'" using Suc.prems(2) Cons unfolding is_region_alike [OF like] by simp
      show "is_region ?p1 r" using Suc.prems(3) unfolding is_region_alike [OF like] .
    qed (use Suc.prems(5,6) Cons in simp_all)
    then obtain m p' e where "exit_nodes k l timestamp ms (parent n') ?p1 = Inr (m, p')" "alike ?p1 p'" "nodes p' r = Some m"
        "locations p' = (locations p)(l \<mapsto> d\<lparr>current_depth := e\<rparr>)"
      by auto
    ultimately show ?thesis using run go alike_trans [OF like]
      by (intro exI [of _ m] exI [of _ p'] exI [of _ e]) (simp del: exit_nodes.simps)
  qed
qed simp

lemma find_first:
  assumes "find P xs = Some r"
  obtains pre post where "xs = pre @ r # post" "list_all (\<lambda>x. \<not> P x) pre" "P r"
proof -
  have "\<exists>pre post. xs = pre @ r # post \<and> list_all (\<lambda>x. \<not> P x) pre \<and> P r"
    using assms
  proof (induction xs)
    case (Cons x xs)
    show ?case
    proof (cases "P x")
      case True
      then show ?thesis using Cons.prems by (intro exI [of _ "[]"] exI [of _ xs]) simp
    next
      case False
      then obtain pre post where "xs = pre @ r # post" "list_all (\<lambda>x. \<not> P x) pre" "P r" using Cons by auto
      then show ?thesis using False by (intro exI [of _ "x # pre"] exI [of _ post]) simp
    qed
  qed simp
  then show thesis using that by blast
qed

lemma upwards_split: "upwards p a (pre @ r # post) \<Longrightarrow> \<exists>n. nodes p r = Some n \<and> upwards p (parent n) post \<and> r \<noteq> NULL"
  by (induction pre arbitrary: a) auto

text \<open>One exit: the current node moves up, or the depth below a collapse node goes down.\<close>

lemma exit_open_step:
  assumes up: "upwards p (current_task_node d) as" and loc: "locations p l = Some d" and init: "is_initialized p"
    and len: "length as \<le> max_nodes p" and found: "find (is_region p) as = Some r" and r: "nodes p r = Some nr"
    and vals: "enough_values (number_of_metrics p) ms" and cls: "\<And>x. class_of x \<noteq> Parallel_Region"
  shows "\<exists>p' d' as'. SCOREP_Profile_Exit class_of mig l timestamp
      (if node_type nr = Node_Regular_Region then ucast (handle_entry (type_specific_data nr)) else 0) ms p = Inr p' \<and>
    alike p p' \<and> locations p' l = Some d' \<and> upwards p' (current_task_node d') as' \<and>
    (length as' < length as \<or> as' = as \<and> unat (current_depth d') < unat (current_depth d))"
proof -
  obtain pre post where split: "as = pre @ r # post" "list_all (\<lambda>x. \<not> is_region p x) pre" "is_region p r"
    using find_first [OF found] .
  let ?a = "current_task_node d"
  let ?reg = "if node_type nr = Node_Regular_Region then ucast (handle_entry (type_specific_data nr)) else (0 :: u32)"
  have "as \<noteq> []" using split(1) by simp
  then obtain x xs where x: "as = x # xs" by (cases as) auto
  obtain n where n: "nodes p ?a = Some n" "?a \<noteq> NULL" using up x by auto
  show ?thesis
  proof (cases "node_type n = Node_Collapse \<and> ucast (current_depth d) > value_entry (type_specific_data n)")
    case True
    let ?d = "d\<lparr>current_depth := current_depth d - 1\<rparr>"
    let ?p = "p\<lparr>locations := (locations p)(l \<mapsto> ?d)\<rparr>"
    have "current_depth d \<noteq> 0" using True by auto
    then have less: "unat (current_depth d - 1) < unat (current_depth d)" by (rule measure_unat)
    have "alike p ?p" by (simp add: alike_def skeleton_def fun_eq_iff)
    moreover have "SCOREP_Profile_Exit class_of mig l timestamp ?reg ms p = Inr ?p"
      using init loc n True cls
      by (simp add: SCOREP_Profile_Exit_def scorep_profile_exit_def get_location_def get_node_def update_location_def)
    ultimately show ?thesis using up less upwards_alike [OF \<open>alike p ?p\<close> up] by (intro exI [of _ ?p] exI [of _ ?d] exI [of _ as]) simp
  next
    case False
    have "length pre < fuel p" using len split(1) by (simp add: fuel_def)
    then obtain m p' e where m: "exit_nodes (fuel p) l timestamp ms ?a p = Inr (m, p')" "alike p p'" "nodes p' r = Some m"
      "locations p' = (locations p)(l \<mapsto> d\<lparr>current_depth := e\<rparr>)"
      using exit_nodes_upwards [OF up [unfolded split(1)] split(2,3) loc _ vals] by blast
    have same: "parent m = parent nr" "node_type m = node_type nr" "type_specific_data m = type_specific_data nr"
      using alike_node [OF m(2) r] m(3) by auto
    let ?d = "d\<lparr>current_depth := e, current_task_node := parent nr\<rparr>"
    let ?p = "p'\<lparr>locations := (locations p)(l \<mapsto> ?d)\<rparr>"
    have "SCOREP_Profile_Exit class_of mig l timestamp ?reg ms p = Inr ?p"
      using init loc n m(1,4) same cls False
      by (auto simp: SCOREP_Profile_Exit_def scorep_profile_exit_def get_location_def get_node_def update_location_def)
    moreover have like: "alike p ?p" using m(2) by (simp add: alike_def skeleton_def fun_eq_iff)
    moreover have "upwards ?p (parent nr) post"
      using upwards_alike [OF like] upwards_split [OF up [unfolded split(1)]] r by auto
    ultimately show ?thesis using split(1) by (intro exI [of _ ?p] exI [of _ ?d] exI [of _ post]) simp
  qed
qed

lemma exit_open_regions_end:
  assumes "upwards p (current_task_node d) as" and "locations p l = Some d" and "is_initialized p"
    and "length as \<le> max_nodes p" and "enough_values (number_of_metrics p) ms" and cls: "\<And>x. class_of x \<noteq> Parallel_Region"
  shows "\<exists>k p' d'. exit_open_regions k class_of mig l timestamp ms p = Inr p' \<and> locations p' l = Some d' \<and>
    open_region (fuel p') (current_task_node d') p' = Inr NULL \<and> alike p p'"
  using assms(1-5)
proof (induction "(length as, unat (current_depth d))" arbitrary: p d as rule: wf_induct_rule [OF wf_lex_prod [OF wf_less wf_less]])
  case 1
  have fuel: "length as < fuel p" using "1.prems"(4) by (simp add: fuel_def)
  note search = open_region_upwards [OF "1.prems"(1) fuel]
  show ?case
  proof (cases "find (is_region p) as")
    case None
    then have "exit_open_regions 1 class_of mig l timestamp ms p = Inr p"
      using search "1.prems"(2) by (simp add: get_location_def)
    then show ?thesis using None search "1.prems"(2)
      by (intro exI [of _ 1] exI [of _ p] exI [of _ d]) (simp add: alike_def)
  next
    case (Some r)
    obtain pre post where split: "as = pre @ r # post" using find_first [OF Some] by metis
    then obtain nr where nr: "nodes p r = Some nr" "r \<noteq> NULL" using upwards_split "1.prems"(1) by blast
    let ?reg = "if node_type nr = Node_Regular_Region then ucast (handle_entry (type_specific_data nr)) else (0 :: u32)"
    obtain p1 d1 as1 where one: "SCOREP_Profile_Exit class_of mig l timestamp ?reg ms p = Inr p1"
      "alike p p1" "locations p1 l = Some d1" "upwards p1 (current_task_node d1) as1"
      "length as1 < length as \<or> as1 = as \<and> unat (current_depth d1) < unat (current_depth d)"
      using exit_open_step [where class_of = class_of and mig = mig and timestamp = timestamp,
          OF "1.prems"(1-4) Some nr(1) "1.prems"(5) cls] by blast
    have keep: "is_initialized p1" "max_nodes p1 = max_nodes p" "number_of_metrics p1 = number_of_metrics p"
      using one(2) "1.prems"(3) by (simp_all add: alike_def)
    have "\<exists>k p' d'. exit_open_regions k class_of mig l timestamp ms p1 = Inr p' \<and> locations p' l = Some d' \<and>
        open_region (fuel p') (current_task_node d') p' = Inr NULL \<and> alike p1 p'"
      by (rule "1.hyps" [OF _ one(4) one(3) keep(1)]) (use one(5) keep "1.prems"(4,5) in auto)
    then obtain k p' d' where rest: "exit_open_regions k class_of mig l timestamp ms p1 = Inr p'" "locations p' l = Some d'"
        "open_region (fuel p') (current_task_node d') p' = Inr NULL" "alike p1 p'" by blast
    have "exit_open_regions (Suc k) class_of mig l timestamp ms p = Inr p'"
      using search Some nr "1.prems"(2) one(1) rest(1) by (simp add: get_location_def get_node_def)
    then show ?thesis using rest(2,3) alike_trans [OF one(2) rest(4)] by blast
  qed
qed

end
