(* ===== verification/ProfileSorting.thy ===== *)
theory ProfileSorting
  imports ProfileRun
begin

section \<open>Sorting of subtrees\<close>

text \<open>
  The sorting of \<^verbatim>\<open>scorep_profile_node.c\<close>: a merge sort of the chains of siblings that writes through a pointer
  to the pointer to the next node, which is the caller's head or the link of a node. A \<open>cell\<close> is such a pointer.
  The chain ends up as the pure merge sort \<open>sort_by\<close> says, which is the stable sort when the comparison is one of keys;
  the subtree ends up as \<open>sort_tree\<close> says.
\<close>

subsection \<open>Sorting a chain\<close>

datatype cell = Head_Cell | Next_Cell nat

type_synonym compare_node = "profile_node \<Rightarrow> profile_node \<Rightarrow> bool"

definition write_cell :: "cell \<Rightarrow> nat \<Rightarrow> nat \<Rightarrow> profile \<Rightarrow> (nat \<times> profile) outcome" where
  "write_cell c v head p =
     (case c of
        Head_Cell \<Rightarrow> Inr (v, p)
      | Next_Cell a \<Rightarrow> and_then (update_node a (\<lambda>n. n\<lparr>next_sibling := v\<rparr>) p) (\<lambda>p. Inr (head, p)))"

text \<open>The node in front of the middle of the chain, and the middle.\<close>

fun walk :: "nat \<Rightarrow> profile \<Rightarrow> nat \<Rightarrow> nat \<Rightarrow> (nat \<times> nat) outcome" where
  "walk 0 p last_node mid = Inr (last_node, mid)"
| "walk (Suc k) p last_node mid = and_then (get_node p mid) (\<lambda>n. walk k p mid (next_sibling n))"

text \<open>The merge loop, with the cell to write to, the head of the list, and the heads of the two parts.\<close>

fun merge_loop ::
  "nat \<Rightarrow> compare_node \<Rightarrow> cell \<Rightarrow> nat \<Rightarrow> nat \<Rightarrow> nat \<Rightarrow> profile \<Rightarrow> (cell \<times> nat \<times> nat \<times> nat \<times> profile) outcome" where
  "merge_loop 0 func c head head_tail mid p = Inl Endless"
| "merge_loop (Suc k) func c head head_tail mid p =
     (if mid \<noteq> NULL \<and> head_tail \<noteq> NULL
      then and_then (get_node p head_tail) (\<lambda>a.
           and_then (get_node p mid) (\<lambda>b.
             if \<not> func a b
             then merge_loop k func (Next_Cell head_tail) head (next_sibling a) mid p
             else and_then (write_cell c mid head p) (\<lambda>(head, p).
                  and_then (update_node mid (\<lambda>n. n\<lparr>next_sibling := head_tail\<rparr>) p) (\<lambda>p.
                    merge_loop k func (Next_Cell mid) head head_tail (next_sibling b) p))))
      else Inr (c, head, head_tail, mid, p))"

fun last_sibling :: "nat \<Rightarrow> profile \<Rightarrow> nat \<Rightarrow> nat outcome" where
  "last_sibling 0 p a = Inl Endless"
| "last_sibling (Suc k) p a =
     and_then (get_node p a) (\<lambda>n. if next_sibling n \<noteq> NULL then last_sibling k p (next_sibling n) else Inr a)"

definition merge_lists :: "compare_node \<Rightarrow> nat \<Rightarrow> nat \<Rightarrow> nat \<Rightarrow> nat \<Rightarrow> profile \<Rightarrow> (nat \<times> nat \<times> profile) outcome" where
  "merge_lists func head head_tail mid tail p =
     and_then (get_node p head_tail) (\<lambda>a.
     and_then (get_node p mid) (\<lambda>b.
       if \<not> func a b
       then and_then (update_node head_tail (\<lambda>n. n\<lparr>next_sibling := mid\<rparr>) p) (\<lambda>p. Inr (head, tail, p))
       else and_then (merge_loop (fuel p) func Head_Cell head head mid p) (\<lambda>(c, head, head_tail, mid, p).
            if mid \<noteq> NULL
            then and_then (write_cell c mid head p) (\<lambda>(head, p). Inr (head, tail, p))
            else if head_tail \<noteq> NULL
            then and_then (last_sibling (fuel p) p head_tail) (\<lambda>tail. Inr (head, tail, p))
            else Inr (head, tail, p))))"

text \<open>The new head and the new tail.\<close>

function sort_node_list :: "compare_node \<Rightarrow> nat \<Rightarrow> nat \<Rightarrow> profile \<Rightarrow> (nat \<times> nat \<times> profile) outcome" where
  "sort_node_list func number head p =
     (if number \<le> 1 then Inr (head, head, p)
      else and_then (walk (number div 2) p NULL head) (\<lambda>(last_node, mid).
           and_then (update_node last_node (\<lambda>n. n\<lparr>next_sibling := NULL\<rparr>) p) (\<lambda>p.
           and_then (sort_node_list func (number div 2) head p) (\<lambda>(head, head_tail, p).
           and_then (sort_node_list func (number - number div 2) mid p) (\<lambda>(mid, tail, p).
             merge_lists func head head_tail mid tail p)))))"
  by pat_completeness auto
termination
  by (relation "measure (\<lambda>(func, number, head, p). number)") auto

declare sort_node_list.simps [simp del]

fun count_siblings :: "nat \<Rightarrow> profile \<Rightarrow> nat \<Rightarrow> nat outcome" where
  "count_siblings 0 p a = Inl Endless"
| "count_siblings (Suc k) p a =
     (if a = NULL then Inr 0
      else and_then (get_node p a) (\<lambda>n. and_then (count_siblings k p (next_sibling n)) (\<lambda>i. Inr (Suc i))))"

definition scorep_profile_get_number_of_children :: "nat \<Rightarrow> profile \<Rightarrow> u64 outcome" where
  "scorep_profile_get_number_of_children a p =
     (if a = NULL then Inr 0
      else and_then (get_node p a) (\<lambda>n. and_then (count_siblings (fuel p) p (first_child n)) (\<lambda>i. Inr (of_nat i))))"

fun sort_subtree :: "nat \<Rightarrow> compare_node \<Rightarrow> nat \<Rightarrow> profile \<Rightarrow> profile outcome"
  and sort_subtrees :: "nat \<Rightarrow> compare_node \<Rightarrow> nat \<Rightarrow> profile \<Rightarrow> profile outcome" where
  "sort_subtree 0 func root p = Inl Endless"
| "sort_subtree (Suc k) func root p =
     and_then (get_node p root) (\<lambda>n.
     and_then (scorep_profile_get_number_of_children root p) (\<lambda>number.
     and_then (sort_node_list func (unat (ucast number :: u32)) (first_child n) p) (\<lambda>(head, tail, p).
     and_then (update_node root (\<lambda>n. n\<lparr>first_child := head\<rparr>) p) (\<lambda>p.
       sort_subtrees k func head p))))"
| "sort_subtrees 0 func current p = Inl Endless"
| "sort_subtrees (Suc k) func current p =
     (if current = NULL then Inr p
      else and_then (sort_subtree k func current p) (\<lambda>p.
           and_then (get_node p current) (\<lambda>n. sort_subtrees k func (next_sibling n) p)))"

text \<open>The recursion visits each node once, and steps once per sibling.\<close>

definition scorep_profile_sort_subtree :: "nat \<Rightarrow> compare_node \<Rightarrow> profile \<Rightarrow> profile outcome" where
  "scorep_profile_sort_subtree root func p = sort_subtree (2 * fuel p) func root p"

definition compare_first_enter_time :: compare_node where
  "compare_first_enter_time node_a node_b \<longleftrightarrow> first_enter_time node_a > first_enter_time node_b"

subsection \<open>Segments of a chain\<close>

fun segment :: "(nat \<rightharpoonup> profile_node) \<Rightarrow> nat \<Rightarrow> nat list \<Rightarrow> nat \<Rightarrow> bool" where
  "segment ns a [] b \<longleftrightarrow> a = b"
| "segment ns a (x # xs) b \<longleftrightarrow> a = x \<and> x \<noteq> NULL \<and> (\<exists>n. ns x = Some n \<and> segment ns (next_sibling n) xs b)"

text \<open>Only the links to the next sibling change, and only in some nodes.\<close>

definition relinked :: "nat set \<Rightarrow> profile \<Rightarrow> profile \<Rightarrow> bool" where
  "relinked A p p' \<longleftrightarrow> (\<exists>ns. p' = p\<lparr>nodes := ns\<rparr> \<and> (\<forall>x. x \<notin> A \<longrightarrow> ns x = nodes p x) \<and>
     (\<forall>x. \<exists>v. ns x = map_option (\<lambda>n. n\<lparr>next_sibling := v\<rparr>) (nodes p x)))"

lemma relink_nothing: "\<exists>v. m = map_option (\<lambda>n :: profile_node. n\<lparr>next_sibling := v\<rparr>) m"
  by (cases m) (auto intro: exI [of _ "next_sibling (the m)"])

lemma relinked_refl: "relinked A p p"
  using relink_nothing unfolding relinked_def by (intro exI [of _ "nodes p"]) simp

lemma relinked_some:
  assumes "relinked A p p'"
  shows "\<exists>v. nodes p' x = map_option (\<lambda>n. n\<lparr>next_sibling := v\<rparr>) (nodes p x)"
proof -
  obtain ns where "p' = p\<lparr>nodes := ns\<rparr>" "\<forall>x. \<exists>v. ns x = map_option (\<lambda>n. n\<lparr>next_sibling := v\<rparr>) (nodes p x)"
    using assms by (auto simp: relinked_def)
  then show ?thesis by simp
qed

lemma relinked_trans:
  assumes "relinked A p p'" and "relinked B p' p''" and "A \<subseteq> C" and "B \<subseteq> C"
  shows "relinked C p p''"
proof -
  obtain ns where ns: "p' = p\<lparr>nodes := ns\<rparr>" "\<And>x. x \<notin> A \<Longrightarrow> ns x = nodes p x"
    "\<And>x. \<exists>v. ns x = map_option (\<lambda>n. n\<lparr>next_sibling := v\<rparr>) (nodes p x)"
    using assms(1) by (auto simp: relinked_def)
  obtain ns' where ns': "p'' = p\<lparr>nodes := ns'\<rparr>" "\<And>x. x \<notin> B \<Longrightarrow> ns' x = ns x"
    "\<And>x. \<exists>v. ns' x = map_option (\<lambda>n. n\<lparr>next_sibling := v\<rparr>) (ns x)"
    using assms(2) ns(1) by (auto simp: relinked_def)
  have "\<exists>v. ns' x = map_option (\<lambda>n. n\<lparr>next_sibling := v\<rparr>) (nodes p x)" for x
  proof -
    obtain v w where "ns x = map_option (\<lambda>n. n\<lparr>next_sibling := v\<rparr>) (nodes p x)"
      "ns' x = map_option (\<lambda>n. n\<lparr>next_sibling := w\<rparr>) (ns x)" using ns(3) ns'(3) by metis
    then show ?thesis by (cases "nodes p x") auto
  qed
  moreover have "ns' x = nodes p x" if "x \<notin> C" for x
  proof -
    have "x \<notin> A" "x \<notin> B" using that assms(3,4) by blast+
    then show ?thesis using ns(2) ns'(2) by simp
  qed
  ultimately show ?thesis using ns'(1) by (auto simp: relinked_def)
qed

lemma relinked_dom: "relinked A p p' \<Longrightarrow> dom (nodes p') = dom (nodes p)"
proof -
  assume "relinked A p p'"
  note relinked_some [OF this]
  then have "(nodes p' x = None) = (nodes p x = None)" for x by (metis map_option_is_None)
  then show ?thesis by (auto simp: dom_def)
qed

lemma relinked_fields:
  assumes "relinked A p p'"
  shows "max_nodes p' = max_nodes p" "number_of_metrics p' = number_of_metrics p" "free_memory p' = free_memory p"
    "fuel p' = fuel p" "locations p' = locations p" "is_initialized p' = is_initialized p"
  using assms by (auto simp: relinked_def fuel_def)

lemma relinked_same: "relinked A p p' \<Longrightarrow> x \<notin> A \<Longrightarrow> nodes p' x = nodes p x"
  by (auto simp: relinked_def)

lemma relinked_node:
  assumes "relinked A p p'" and "nodes p x = Some n"
  obtains v where "nodes p' x = Some (n\<lparr>next_sibling := v\<rparr>)"
proof -
  obtain v where "nodes p' x = map_option (\<lambda>n. n\<lparr>next_sibling := v\<rparr>) (nodes p x)" using relinked_some [OF assms(1)] by blast
  then show ?thesis using assms(2) that by simp
qed

lemma update_next:
  assumes "nodes p a = Some n" and "a \<in> A"
  shows "update_node a (\<lambda>n. n\<lparr>next_sibling := v\<rparr>) p = Inr (p\<lparr>nodes := (nodes p)(a \<mapsto> n\<lparr>next_sibling := v\<rparr>)\<rparr>)"
    and "relinked A p (p\<lparr>nodes := (nodes p)(a \<mapsto> n\<lparr>next_sibling := v\<rparr>)\<rparr>)"
proof -
  show "update_node a (\<lambda>n. n\<lparr>next_sibling := v\<rparr>) p = Inr (p\<lparr>nodes := (nodes p)(a \<mapsto> n\<lparr>next_sibling := v\<rparr>)\<rparr>)"
    using assms(1) by (simp add: update_node_def get_node_def)
  have "\<exists>w. ((nodes p)(a \<mapsto> n\<lparr>next_sibling := v\<rparr>)) x = map_option (\<lambda>n. n\<lparr>next_sibling := w\<rparr>) (nodes p x)" for x
    using assms(1) relink_nothing [of "nodes p x"] by (cases "x = a") auto
  then show "relinked A p (p\<lparr>nodes := (nodes p)(a \<mapsto> n\<lparr>next_sibling := v\<rparr>)\<rparr>)"
    using assms(2) by (auto simp: relinked_def)
qed

lemma segment_append: "segment ns a (xs @ ys) c \<longleftrightarrow> (\<exists>b. segment ns a xs b \<and> segment ns b ys c)"
  by (induction xs arbitrary: a) auto

lemma segment_frame: "segment ns a xs b \<Longrightarrow> (\<And>x. x \<in> set xs \<Longrightarrow> ns' x = ns x) \<Longrightarrow> segment ns' a xs b"
  by (induction xs arbitrary: a) auto

lemma segment_dom: "segment ns a xs b \<Longrightarrow> set xs \<subseteq> dom ns - {NULL}"
  by (induction xs arbitrary: a) auto

lemma segment_last:
  assumes "segment ns a xs b" and "xs \<noteq> []" and "distinct xs" and "ns (last xs) = Some n"
  shows "segment (ns(last xs \<mapsto> n\<lparr>next_sibling := c\<rparr>)) a xs c"
  using assms
proof (induction xs arbitrary: a)
  case (Cons x xs)
  show ?case
  proof (cases "xs = []")
    case True
    then show ?thesis using Cons.prems by auto
  next
    case False
    then show ?thesis using Cons by auto
  qed
qed simp


subsection \<open>Merging\<close>

fun merge_by :: "('a \<Rightarrow> 'a \<Rightarrow> bool) \<Rightarrow> 'a list \<Rightarrow> 'a list \<Rightarrow> 'a list" where
  "merge_by after [] ys = ys"
| "merge_by after (x # xs) [] = x # xs"
| "merge_by after (x # xs) (y # ys) =
     (if after x y then y # merge_by after (x # xs) ys else x # merge_by after xs (y # ys))"

lemma merge_by_Nil [simp]: "merge_by after xs [] = xs"
  by (cases xs) simp_all

lemma mset_merge_by [simp]: "mset (merge_by after xs ys) = mset xs + mset ys"
  by (induction after xs ys rule: merge_by.induct) auto

text \<open>The comparison looks at the nodes, but not at their links to the next one.\<close>

definition link_blind :: "compare_node \<Rightarrow> bool" where
  "link_blind func \<longleftrightarrow> (\<forall>a b v w. func (a\<lparr>next_sibling := v\<rparr>) (b\<lparr>next_sibling := w\<rparr>) = func a b)"

definition after_in :: "compare_node \<Rightarrow> profile \<Rightarrow> nat \<Rightarrow> nat \<Rightarrow> bool" where
  "after_in func p x y \<longleftrightarrow> func (the (nodes p x)) (the (nodes p y))"

lemma after_in_relinked:
  assumes "link_blind func" and "relinked A p p'" and "x \<in> dom (nodes p)" and "y \<in> dom (nodes p)"
  shows "after_in func p' x y = after_in func p x y"
proof -
  obtain n m where n: "nodes p x = Some n" "nodes p y = Some m" using assms(3,4) by auto
  obtain v w where "nodes p' x = Some (n\<lparr>next_sibling := v\<rparr>)" "nodes p' y = Some (m\<lparr>next_sibling := w\<rparr>)"
    using relinked_node [OF assms(2) n(1)] relinked_node [OF assms(2) n(2)] by metis
  then show ?thesis using n assms(1) by (simp add: after_in_def link_blind_def)
qed

lemma merge_by_cong:
  "(\<And>x y. x \<in> set xs \<Longrightarrow> y \<in> set ys \<Longrightarrow> f x y = g x y) \<Longrightarrow> merge_by f xs ys = merge_by g xs ys"
  by (induction f xs ys rule: merge_by.induct) auto

text \<open>The list in front of a cell.\<close>

definition cell_of :: "nat list \<Rightarrow> cell" where
  "cell_of ds = (if ds = [] then Head_Cell else Next_Cell (last ds))"

lemma cell_of_Nil: "cell_of [] = Head_Cell"
  by (simp add: cell_of_def)

lemma write_cell_segment:
  assumes "segment (nodes p) head ds a" and "distinct ds"
  shows "\<exists>head' p'. write_cell (cell_of ds) v head p = Inr (head', p') \<and> segment (nodes p') head' ds v \<and> relinked (set ds) p p'"
proof (cases "ds = []")
  case True
  then show ?thesis by (auto simp: cell_of_def write_cell_def relinked_refl)
next
  case False
  then have "last ds \<in> dom (nodes p)" using segment_dom [OF assms(1)] last_in_set by blast
  then obtain n where n: "nodes p (last ds) = Some n" by auto
  have "last ds \<in> set ds" using False by simp
  note up = update_next [OF n this, of v]
  have "segment (nodes (p\<lparr>nodes := (nodes p)(last ds \<mapsto> n\<lparr>next_sibling := v\<rparr>)\<rparr>)) head ds v"
    using segment_last [OF assms(1) False assms(2) n] by simp
  then show ?thesis using up False by (auto simp: cell_of_def write_cell_def)
qed

text \<open>What the loop gives: a list \<open>zs\<close>, of which either the rest of the first or of the second part is not linked yet.\<close>

definition merged ::
  "nat set \<Rightarrow> profile \<Rightarrow> nat list \<Rightarrow> nat list \<Rightarrow> (cell \<times> nat \<times> nat \<times> nat \<times> profile) outcome \<Rightarrow> bool" where
  "merged A p ys zs result \<longleftrightarrow> (\<exists>ds xs' ys' us head ht mid p'.
     result = Inr (cell_of ds, head, ht, mid, p') \<and>
     segment (nodes p') head ds ht \<and> segment (nodes p') ht xs' NULL \<and> segment (nodes p') mid ys' NULL \<and>
     (xs' = [] \<and> ys' \<noteq> [] \<or> ys' = [] \<and> xs' \<noteq> []) \<and> ys = us @ ys' \<and>
     ds @ xs' @ ys' = zs \<and> relinked A p p')"

lemma mergedI:
  "segment (nodes p') head ds ht \<Longrightarrow> segment (nodes p') ht xs' NULL \<Longrightarrow> segment (nodes p') mid ys' NULL \<Longrightarrow>
   xs' = [] \<and> ys' \<noteq> [] \<or> ys' = [] \<and> xs' \<noteq> [] \<Longrightarrow> ys = us @ ys' \<Longrightarrow> ds @ xs' @ ys' = zs \<Longrightarrow> relinked A p p' \<Longrightarrow>
   merged A p ys zs (Inr (cell_of ds, head, ht, mid, p'))"
  unfolding merged_def by blast

lemma merged_weaken:
  assumes "merged B p2 ys0 zs r" and "relinked A p p2" and "A \<subseteq> C" and "B \<subseteq> C"
  shows "merged C p (us @ ys0) zs r"
  using assms(1) relinked_trans [OF assms(2) _ assms(3,4)] unfolding merged_def by (metis append_assoc)

lemma merge_loop_merges:
  assumes "segment (nodes p) head ds ht" and "segment (nodes p) ht xs NULL" and "segment (nodes p) mid ys NULL"
    and "distinct (ds @ xs @ ys)" and "link_blind func" and "length xs + length ys < k" and "xs \<noteq> [] \<or> ys \<noteq> []"
  shows "merged (set (ds @ xs @ ys)) p ys (ds @ merge_by (after_in func p) xs ys)
    (merge_loop k func (cell_of ds) head ht mid p)"
  using assms
proof (induction k arbitrary: p ds xs ys head ht mid)
  case (Suc k)
  show ?case
  proof (cases "xs = [] \<or> ys = []")
    case True
    have "ht = NULL \<or> mid = NULL" using True Suc.prems(2,3) by auto
    then have L: "merge_loop (Suc k) func (cell_of ds) head ht mid p = Inr (cell_of ds, head, ht, mid, p)" by auto
    show ?thesis unfolding L
      by (rule mergedI [where us = "[]", OF Suc.prems(1-3)]) (use True Suc.prems(7) in \<open>auto simp: relinked_refl\<close>)
  next
    case False
    then obtain x xs0 y ys0 where xy: "xs = x # xs0" "ys = y # ys0" by (meson neq_Nil_conv)
    obtain a b where ab: "ht = x" "x \<noteq> NULL" "nodes p x = Some a" "segment (nodes p) (next_sibling a) xs0 NULL"
      "mid = y" "y \<noteq> NULL" "nodes p y = Some b" "segment (nodes p) (next_sibling b) ys0 NULL"
      using Suc.prems(2,3) xy by auto
    have f: "after_in func p x y = func a b" using ab by (simp add: after_in_def)
    show ?thesis
    proof (cases "func a b")
      case stay: False
      have "segment (nodes p) head (ds @ [x]) (next_sibling a)"
        using Suc.prems(1) ab(1-3) by (auto simp: segment_append)
      then have M: "merged (set ((ds @ [x]) @ xs0 @ ys)) p ys ((ds @ [x]) @ merge_by (after_in func p) xs0 ys)
          (merge_loop k func (cell_of (ds @ [x])) head (next_sibling a) mid p)"
        by (rule Suc.IH [OF _ ab(4) Suc.prems(3)]) (use Suc.prems(4-6) xy in auto)
      have L: "merge_loop (Suc k) func (cell_of ds) head ht mid p =
          merge_loop k func (cell_of (ds @ [x])) head (next_sibling a) mid p"
        using ab stay by (simp add: get_node_def cell_of_def)
      have Z: "(ds @ [x]) @ merge_by (after_in func p) xs0 ys = ds @ merge_by (after_in func p) xs ys"
        using xy stay f by simp
      have "set ((ds @ [x]) @ xs0 @ ys) = set (ds @ xs @ ys)" using xy by simp
      then show ?thesis using M unfolding L Z by (simp only:)
    next
      case take: True
      obtain head1 p1 where w: "write_cell (cell_of ds) mid head p = Inr (head1, p1)" "segment (nodes p1) head1 ds mid" "relinked (set ds) p p1"
        using write_cell_segment [OF Suc.prems(1)] Suc.prems(4) by fastforce
      have y: "nodes p1 y = Some b" using relinked_same [OF w(3), of y] Suc.prems(4) xy ab(7) by simp
      let ?p2 = "p1\<lparr>nodes := (nodes p1)(y \<mapsto> b\<lparr>next_sibling := ht\<rparr>)\<rparr>"
      have up: "update_node mid (\<lambda>n. n\<lparr>next_sibling := ht\<rparr>) p1 = Inr ?p2" "relinked {y} p1 ?p2"
        using update_next [OF y, of "{y}" ht] ab(5) by simp_all
      have rel: "relinked (set (ds @ [y])) p ?p2" by (rule relinked_trans [OF w(3) up(2)]) auto
      have keep: "nodes ?p2 z = nodes p z" if "z \<notin> set (ds @ [y])" for z by (rule relinked_same [OF rel that])
      have s1: "segment (nodes ?p2) head1 ds mid"
        by (rule segment_frame [OF w(2)]) (use Suc.prems(4) xy in auto)
      have g1: "segment (nodes ?p2) head1 (ds @ [y]) ht"
        using s1 ab(5,6) by (auto simp: segment_append)
      have g2: "segment (nodes ?p2) ht xs NULL"
        by (rule segment_frame [OF Suc.prems(2)]) (rule keep, use Suc.prems(4) xy in auto)
      have g3: "segment (nodes ?p2) (next_sibling b) ys0 NULL"
        by (rule segment_frame [OF ab(8)]) (rule keep, use Suc.prems(4) xy in auto)
      have "merged (set ((ds @ [y]) @ xs @ ys0)) ?p2 ys0 ((ds @ [y]) @ merge_by (after_in func ?p2) xs ys0)
          (merge_loop k func (cell_of (ds @ [y])) head1 ht (next_sibling b) ?p2)"
        by (rule Suc.IH [OF g1 g2 g3]) (use Suc.prems(4-6) xy in auto)
      then have M: "merged (set (ds @ xs @ ys)) p ([y] @ ys0) ((ds @ [y]) @ merge_by (after_in func ?p2) xs ys0)
          (merge_loop k func (cell_of (ds @ [y])) head1 ht (next_sibling b) ?p2)"
        by (rule merged_weaken [OF _ rel]) (use xy in auto)
      have Z: "merge_by (after_in func ?p2) xs ys0 = merge_by (after_in func p) xs ys0"
        by (rule merge_by_cong, rule after_in_relinked [OF Suc.prems(5) rel])
          (use segment_dom [OF Suc.prems(2)] segment_dom [OF ab(8)] in blast)+
      have L: "merge_loop (Suc k) func (cell_of ds) head ht mid p =
          merge_loop k func (cell_of (ds @ [y])) head1 ht (next_sibling b) ?p2"
        using w(1) up(1) ab take by (simp add: get_node_def cell_of_def)
      have "(ds @ [y]) @ merge_by (after_in func p) xs ys0 = ds @ merge_by (after_in func p) xs ys" "[y] @ ys0 = ys"
        using xy take f by simp_all
      then show ?thesis using M unfolding L Z by (simp only:)
    qed
  qed
qed simp

lemma last_sibling_end:
  assumes "segment (nodes p) a xs NULL" and "xs \<noteq> []" and "length xs \<le> k"
  shows "last_sibling k p a = Inr (last xs)"
  using assms
proof (induction xs arbitrary: a k)
  case (Cons x xs)
  obtain k' where k: "k = Suc k'" using Cons.prems(3) by (cases k) simp_all
  obtain n where n: "nodes p x = Some n" "segment (nodes p) (next_sibling n) xs NULL" "a = x" using Cons.prems(1) by auto
  show ?case
  proof (cases "xs = []")
    case True
    then show ?thesis using n k by (simp add: get_node_def)
  next
    case False
    then have "next_sibling n \<noteq> NULL" using n(2) by (cases xs) auto
    then show ?thesis using n k Cons.IH [OF n(2) False, of k'] Cons.prems(3) False by (simp add: get_node_def)
  qed
qed simp

text \<open>The merge of two sorted chains, or their concatenation.\<close>

definition merge_or_join :: "('a \<Rightarrow> 'a \<Rightarrow> bool) \<Rightarrow> 'a list \<Rightarrow> 'a list \<Rightarrow> 'a list" where
  "merge_or_join after xs ys = (if \<not> after (last xs) (hd ys) then xs @ ys else merge_by after xs ys)"

lemma merge_lists_merges:
  assumes "segment (nodes p) head xs NULL" and "segment (nodes p) mid ys NULL" and "distinct (xs @ ys)"
    and "xs \<noteq> []" and "ys \<noteq> []" and "link_blind func" and "length xs + length ys \<le> max_nodes p"
  shows "\<exists>head' p'. merge_lists func head (last xs) mid (last ys) p =
      Inr (head', last (merge_or_join (after_in func p) xs ys), p') \<and>
    segment (nodes p') head' (merge_or_join (after_in func p) xs ys) NULL \<and> relinked (set (xs @ ys)) p p'"
proof -
  let ?x = "last xs"
  obtain y ys0 b where y: "ys = y # ys0" "mid = y" "nodes p y = Some b" using assms(2,5) by (cases ys) auto
  have "?x \<in> dom (nodes p)" using segment_dom [OF assms(1)] assms(4) last_in_set by blast
  then obtain a where a: "nodes p ?x = Some a" by auto
  have f: "after_in func p ?x (hd ys) = func a b" using y a by (simp add: after_in_def)
  show ?thesis
  proof (cases "func a b")
    case False
    note up = update_next [OF a, of "set (xs @ ys)" mid]
    have "segment (nodes (p\<lparr>nodes := (nodes p)(?x \<mapsto> a\<lparr>next_sibling := mid\<rparr>)\<rparr>)) head xs mid"
      using segment_last [OF assms(1,4) _ a] assms(3) by simp
    moreover have "segment (nodes (p\<lparr>nodes := (nodes p)(?x \<mapsto> a\<lparr>next_sibling := mid\<rparr>)\<rparr>)) mid ys NULL"
      by (rule segment_frame [OF assms(2)]) (use assms(3,4) in \<open>auto dest: last_in_set\<close>)
    ultimately have "segment (nodes (p\<lparr>nodes := (nodes p)(?x \<mapsto> a\<lparr>next_sibling := mid\<rparr>)\<rparr>)) head (xs @ ys) NULL"
      unfolding segment_append by blast
    then show ?thesis using up assms(4,5) f False a y by (auto simp: merge_lists_def get_node_def merge_or_join_def)
  next
    case True
    have fuel: "length xs + length ys < fuel p" using assms(7) by (simp add: fuel_def)
    have "merged (set ([] @ xs @ ys)) p ys ([] @ merge_by (after_in func p) xs ys) (merge_loop (fuel p) func (cell_of []) head head mid p)"
      by (rule merge_loop_merges) (use assms fuel in simp_all)
    then obtain ds xs' ys' us head1 ht mid1 p1 where r: "merge_loop (fuel p) func Head_Cell head head mid p = Inr (cell_of ds, head1, ht, mid1, p1)"
      "segment (nodes p1) head1 ds ht" "segment (nodes p1) ht xs' NULL" "segment (nodes p1) mid1 ys' NULL"
      "xs' = [] \<and> ys' \<noteq> [] \<or> ys' = [] \<and> xs' \<noteq> []" "ys = us @ ys'" "ds @ xs' @ ys' = merge_by (after_in func p) xs ys"
      "relinked (set (xs @ ys)) p p1"
      unfolding merged_def append_Nil cell_of_Nil by blast
    have mset: "mset (ds @ xs' @ ys') = mset (xs @ ys)" using r(7) by simp
    then have dist: "distinct (ds @ xs' @ ys')" using assms(3) mset_eq_imp_distinct_iff by blast
    have sub: "set ds \<subseteq> set (xs @ ys)" using mset by (metis Un_upper1 set_append set_mset_mset)
    have start: "merge_lists func head ?x mid (last ys) p =
        (if mid1 \<noteq> NULL
         then and_then (write_cell (cell_of ds) mid1 head1 p1) (\<lambda>(head, p). Inr (head, last ys, p))
         else if ht \<noteq> NULL
         then and_then (last_sibling (fuel p1) p1 ht) (\<lambda>tail. Inr (head1, tail, p1))
         else Inr (head1, last ys, p1))"
      using a y True r(1) by (simp add: merge_lists_def get_node_def)
    show ?thesis
    proof (cases "ys' = []")
      case False
      then have e: "xs' = []" "mid1 \<noteq> NULL" "ht = NULL" using r(3-5) by (cases ys'; auto)+
      obtain head2 p2 where w: "write_cell (cell_of ds) mid1 head1 p1 = Inr (head2, p2)" "segment (nodes p2) head2 ds mid1" "relinked (set ds) p1 p2"
        using write_cell_segment [OF r(2)] dist by fastforce
      have "segment (nodes p2) mid1 ys' NULL"
        by (rule segment_frame [OF r(4)]) (rule relinked_same [OF w(3)], use dist in auto)
      then have "segment (nodes p2) head2 (merge_by (after_in func p) xs ys) NULL"
        using w(2) r(7) [symmetric] e(1) by (auto simp: segment_append)
      moreover have "last (merge_by (after_in func p) xs ys) = last ys" using r(6) r(7) [symmetric] e(1) False by simp
      moreover have "relinked (set (xs @ ys)) p p2" by (rule relinked_trans [OF r(8) w(3)]) (use sub in auto)
      ultimately show ?thesis using start w(1) e f True by (simp add: merge_or_join_def)
    next
      case True
      then have e: "xs' \<noteq> []" "mid1 = NULL" "ht \<noteq> NULL" using r(3-5) by (cases xs'; auto)+
      have "length xs' \<le> length (xs @ ys)" using mset_eq_length [OF mset] by simp
      then have "last_sibling (fuel p1) p1 ht = Inr (last xs')"
        using last_sibling_end [OF r(3) e(1), of "fuel p1"] fuel relinked_fields(4) [OF r(8)] by simp
      moreover have "segment (nodes p1) head1 (merge_by (after_in func p) xs ys) NULL"
        using r(2,3) r(7) [symmetric] True by (auto simp: segment_append)
      moreover have "last (merge_by (after_in func p) xs ys) = last xs'" using r(7) [symmetric] True e(1) by simp
      ultimately show ?thesis using start r(8) e f \<open>func a b\<close> by (simp add: merge_or_join_def)
    qed
  qed
qed

subsection \<open>Merge sort\<close>

function sort_by :: "('a \<Rightarrow> 'a \<Rightarrow> bool) \<Rightarrow> 'a list \<Rightarrow> 'a list" where
  "sort_by after xs =
     (if length xs \<le> 1 then xs
      else merge_or_join after (sort_by after (take (length xs div 2) xs)) (sort_by after (drop (length xs div 2) xs)))"
  by pat_completeness auto
termination
  by (relation "measure (\<lambda>(after, xs). length xs)") auto

declare sort_by.simps [simp del]

lemma mset_merge_or_join [simp]: "mset (merge_or_join after xs ys) = mset xs + mset ys"
  by (simp add: merge_or_join_def)

lemma merge_or_join_cong:
  assumes "xs \<noteq> []" and "ys \<noteq> []" and "\<And>x y. x \<in> set xs \<Longrightarrow> y \<in> set ys \<Longrightarrow> f x y = g x y"
  shows "merge_or_join f xs ys = merge_or_join g xs ys"
proof -
  have "f (last xs) (hd ys) = g (last xs) (hd ys)" using assms by simp
  moreover have "merge_by f xs ys = merge_by g xs ys" by (rule merge_by_cong) (rule assms(3))
  ultimately show ?thesis by (simp add: merge_or_join_def)
qed

lemma mset_sort_by [simp]: "mset (sort_by after xs) = mset xs"
proof (induction after xs rule: sort_by.induct)
  case (1 after xs)
  have "mset (take (length xs div 2) xs) + mset (drop (length xs div 2) xs) = mset xs"
    by (simp flip: mset_append)
  then show ?case using 1 by (subst sort_by.simps) auto
qed

lemma set_sort_by [simp]: "set (sort_by after xs) = set xs"
  by (metis mset_sort_by set_mset_mset)

lemma length_sort_by [simp]: "length (sort_by after xs) = length xs"
  by (metis mset_sort_by size_mset)

lemma sort_by_Nil_iff [simp]: "sort_by after xs = [] \<longleftrightarrow> xs = []"
  by (metis length_0_conv length_sort_by)

lemma sort_by_cong:
  "(\<And>x y. x \<in> set xs \<Longrightarrow> y \<in> set xs \<Longrightarrow> f x y = g x y) \<Longrightarrow> sort_by f xs = sort_by g xs"
proof (induction f xs rule: sort_by.induct)
  case (1 f xs)
  show ?case
  proof (cases "length xs \<le> 1")
    case True
    then show ?thesis by (simp add: sort_by.simps)
  next
    case False
    let ?l = "take (length xs div 2) xs" and ?r = "drop (length xs div 2) xs"
    have sub: "set ?l \<subseteq> set xs" "set ?r \<subseteq> set xs" by (rule set_take_subset set_drop_subset)+
    have ne: "?l \<noteq> []" "?r \<noteq> []" using False by auto
    have eq: "sort_by f ?l = sort_by g ?l" "sort_by f ?r = sort_by g ?r"
      using 1 False sub by (meson in_mono)+
    have "merge_or_join f (sort_by g ?l) (sort_by g ?r) = merge_or_join g (sort_by g ?l) (sort_by g ?r)"
      by (rule merge_or_join_cong) (use ne sub 1(3) in \<open>auto simp: in_mono\<close>)
    then show ?thesis using False eq by (simp add: sort_by.simps [of f xs] sort_by.simps [of g xs])
  qed
qed

lemma merge_by_map: "merge_by after (map f xs) (map f ys) = map f (merge_by (\<lambda>x y. after (f x) (f y)) xs ys)"
  by (induction "\<lambda>x y. after (f x) (f y)" xs ys rule: merge_by.induct) auto

lemma sort_by_map: "sort_by after (map f xs) = map f (sort_by (\<lambda>x y. after (f x) (f y)) xs)"
proof (induction "\<lambda>x y. after (f x) (f y)" xs rule: sort_by.induct)
  case (1 xs)
  show ?case
  proof (cases "length xs \<le> 1")
    case True
    then show ?thesis by (simp add: sort_by.simps)
  next
    case False
    have ne: "take (length xs div 2) xs \<noteq> []" "drop (length xs div 2) xs \<noteq> []" using False by auto
    show ?thesis
      using 1 False ne
      by (subst (1 2) sort_by.simps) (simp add: take_map drop_map merge_or_join_def last_map hd_map merge_by_map)
  qed
qed

text \<open>By keys, this is the stable sort.\<close>

lemma filter_merge_by:
  assumes "sorted (map key xs)" and "sorted (map key ys)"
  shows "filter (\<lambda>x. k = key x) (merge_by (\<lambda>x y. key y < (key x :: 'b :: linorder)) xs ys) =
    filter (\<lambda>x. k = key x) xs @ filter (\<lambda>x. k = key x) ys"
  using assms
proof (induction "\<lambda>x y. key y < key x" xs ys rule: merge_by.induct)
  case (3 x xs y ys)
  show ?case
  proof (cases "key y < key x")
    case True
    have "filter (\<lambda>x. k = key x) (x # xs) = []" if "k = key y"
      using 3(3) True that by (auto simp: filter_empty_conv)
    then show ?thesis using 3 True by auto
  qed (use 3 in auto)
qed simp_all

lemma sorted_merge_by:
  assumes "sorted (map key xs)" and "sorted (map key ys)"
  shows "sorted (map key (merge_by (\<lambda>x y. key y < (key x :: 'b :: linorder)) xs ys))"
  using assms
proof (induction "\<lambda>x y. key y < key x" xs ys rule: merge_by.induct)
  case (3 x xs y ys)
  have sets: "set (merge_by (\<lambda>x y. key y < key x) us vs) = set us \<union> set vs" for us vs
    by (metis mset_merge_by set_mset_mset set_mset_union)
  show ?case using 3 by (auto simp: sets)
qed simp_all

lemma sort_key_stable': "filter (\<lambda>x. k = key x) (sort_key key xs) = filter (\<lambda>x. k = key x) xs"
  using sort_key_stable [of key k xs] by (simp add: eq_commute [of k])

lemma sorted_le_last: "sorted (map key xs) \<Longrightarrow> x \<in> set xs \<Longrightarrow> key x \<le> key (last xs)"
  by (induction xs) auto

lemma merge_or_join_sort:
  assumes "xs \<noteq> []" and "ys \<noteq> []"
  shows "merge_or_join (\<lambda>x y. key y < (key x :: 'b :: linorder)) (sort_key key xs) (sort_key key ys) = sort_key key (xs @ ys)"
proof (cases "key (hd (sort_key key ys)) < key (last (sort_key key xs))")
  case True
  have "sort_key key (xs @ ys) = merge_by (\<lambda>x y. key y < key x) (sort_key key xs) (sort_key key ys)"
    by (rule properties_for_sort_key) (simp_all add: filter_merge_by sorted_merge_by sort_key_stable')
  then show ?thesis using True by (simp add: merge_or_join_def)
next
  case False
  have "sorted (map key (sort_key key xs @ sort_key key ys))"
  proof -
    have "key x \<le> key y" if x: "x \<in> set (sort_key key xs)" and y: "y \<in> set (sort_key key ys)" for x y
    proof -
      have "key x \<le> key (last (sort_key key xs))"
        by (rule sorted_le_last [OF sorted_sort_key x])
      moreover have "key (hd (sort_key key ys)) \<le> key y"
        using y sorted_sort_key [of key ys] by (cases "sort_key key ys") auto
      ultimately show ?thesis using False by simp
    qed
    then show ?thesis by (simp add: sorted_append)
  qed
  then have "sort_key key (xs @ ys) = sort_key key xs @ sort_key key ys"
    by (intro properties_for_sort_key) (simp_all add: sort_key_stable')
  then show ?thesis using False by (simp add: merge_or_join_def)
qed

lemma sort_by_key: "sort_by (\<lambda>x y. key y < (key x :: 'b :: linorder)) xs = sort_key key xs"
proof (induction "\<lambda>x y. key y < key x" xs rule: sort_by.induct)
  case (1 xs)
  show ?case
  proof (cases "length xs \<le> 1")
    case True
    then show ?thesis by (cases xs) (simp_all add: sort_by.simps)
  next
    case False
    then have "take (length xs div 2) xs \<noteq> []" "drop (length xs div 2) xs \<noteq> []" by auto
    then show ?thesis
      using 1 False merge_or_join_sort [of "take (length xs div 2) xs" "drop (length xs div 2) xs" key]
      by (subst sort_by.simps) simp
  qed
qed

text \<open>A comparison that never holds leaves the list as it is.\<close>

lemma sort_by_never:
  assumes "distinct xs" and "\<And>x y. x \<in> set xs \<Longrightarrow> y \<in> set xs \<Longrightarrow> x \<noteq> y \<Longrightarrow> \<not> after x y"
  shows "sort_by after xs = xs"
  using assms
proof (induction after xs rule: sort_by.induct)
  case (1 after xs)
  show ?case
  proof (cases "length xs \<le> 1")
    case True
    then show ?thesis by (simp add: sort_by.simps)
  next
    case False
    let ?l = "take (length xs div 2) xs" and ?r = "drop (length xs div 2) xs"
    have ne: "?l \<noteq> []" "?r \<noteq> []" using False by auto
    have sub: "set ?l \<subseteq> set xs" "set ?r \<subseteq> set xs" by (rule set_take_subset set_drop_subset)+
    have eq: "sort_by after ?l = ?l" "sort_by after ?r = ?r"
      using 1 False sub by (auto intro!: 1(1,2) simp: in_mono)
    have "distinct (?l @ ?r)" using 1(3) by simp
    then have "last ?l \<noteq> hd ?r" using ne by (metis disjoint_iff distinct_append hd_in_set last_in_set)
    then have "\<not> after (last ?l) (hd ?r)" using 1(4) sub ne by (meson hd_in_set in_mono last_in_set)
    then show ?thesis using False eq by (subst sort_by.simps) (simp add: merge_or_join_def)
  qed
qed


subsection \<open>The chain is sorted\<close>

lemma walk_segment:
  assumes "segment (nodes p) head us b" and "us \<noteq> []"
  shows "walk (length us) p ln head = Inr (last us, b)"
  using assms
proof (induction us arbitrary: head ln)
  case (Cons u us)
  then show ?case by (cases "us = []") (auto simp: get_node_def)
qed simp

lemma sort_node_list_sorts:
  assumes "segment (nodes p) head xs NULL" and "distinct xs" and "xs \<noteq> []" and "link_blind func" and "length xs \<le> max_nodes p"
  shows "\<exists>head' p'. sort_node_list func (length xs) head p = Inr (head', last (sort_by (after_in func p) xs), p') \<and>
    segment (nodes p') head' (sort_by (after_in func p) xs) NULL \<and> relinked (set xs) p p'"
  using assms
proof (induction "length xs" arbitrary: xs head p rule: less_induct)
  case less
  show ?case
  proof (cases "length xs \<le> 1")
    case True
    then obtain x where "xs = [x]" using less.prems(3) by (cases xs) auto
    then show ?thesis using less.prems(1) relinked_refl by (auto simp: sort_node_list.simps sort_by.simps)
  next
    case False
    let ?h = "length xs div 2"
    define us vs where uv: "us = take ?h xs" "vs = drop ?h xs"
    have len: "length us = ?h" "length vs = length xs - ?h" "length us < length xs" "length vs < length xs" "us \<noteq> []" "vs \<noteq> []"
      using False uv by auto
    have xs: "xs = us @ vs" by (simp add: uv)
    have dist: "distinct us" "distinct vs" "set us \<inter> set vs = {}" using less.prems(2) xs by auto
    obtain b where b: "segment (nodes p) head us b" "segment (nodes p) b vs NULL"
      using less.prems(1) xs by (auto simp: segment_append)
    have "last us \<in> dom (nodes p)" using segment_dom [OF b(1)] len(5) last_in_set by blast
    then obtain n where n: "nodes p (last us) = Some n" by auto
    let ?p1 = "p\<lparr>nodes := (nodes p)(last us \<mapsto> n\<lparr>next_sibling := NULL\<rparr>)\<rparr>"
    have cut: "update_node (last us) (\<lambda>n. n\<lparr>next_sibling := NULL\<rparr>) p = Inr ?p1" "relinked (set us) p ?p1"
      using update_next [OF n, of "set us" NULL] len(5) by simp_all
    have u1: "segment (nodes ?p1) head us NULL" using segment_last [OF b(1) len(5) dist(1) n, of NULL] by simp
    obtain head2 p2 where s2: "sort_node_list func (length us) head ?p1 = Inr (head2, last (sort_by (after_in func ?p1) us), p2)"
      "segment (nodes p2) head2 (sort_by (after_in func ?p1) us) NULL" "relinked (set us) ?p1 p2"
      using less.hyps [OF len(3) u1 dist(1) len(5) less.prems(4)] less.prems(5) len(3) by auto
    have r2: "relinked (set us) p p2" by (rule relinked_trans [OF cut(2) s2(3)]) auto
    have v2: "segment (nodes p2) b vs NULL"
      by (rule segment_frame [OF b(2)]) (rule relinked_same [OF r2], use dist(3) in auto)
    obtain mid3 p3 where s3: "sort_node_list func (length vs) b p2 = Inr (mid3, last (sort_by (after_in func p2) vs), p3)"
      "segment (nodes p3) mid3 (sort_by (after_in func p2) vs) NULL" "relinked (set vs) p2 p3"
      using less.hyps [OF len(4) v2 dist(2) len(6) less.prems(4)] less.prems(5) len(4) relinked_fields(1) [OF r2] by auto
    have r3: "relinked (set xs) p p3" by (rule relinked_trans [OF r2 s3(3)]) (use xs in auto)
    have doms: "set us \<subseteq> dom (nodes p)" "set vs \<subseteq> dom (nodes p)" using segment_dom [OF b(1)] segment_dom [OF b(2)] by auto
    have same1: "sort_by (after_in func ?p1) us = sort_by (after_in func p) us"
      by (rule sort_by_cong, rule after_in_relinked [OF less.prems(4) cut(2)]) (use doms in auto)
    have same2: "sort_by (after_in func p2) vs = sort_by (after_in func p) vs"
      by (rule sort_by_cong, rule after_in_relinked [OF less.prems(4) r2]) (use doms in auto)
    let ?us = "sort_by (after_in func p) us" and ?vs = "sort_by (after_in func p) vs"
    have u3: "segment (nodes p3) head2 ?us NULL"
      by (rule segment_frame [OF s2(2) [unfolded same1]]) (rule relinked_same [OF s3(3)], use dist(3) in auto)
    have "distinct (?us @ ?vs)"
      using less.prems(2) xs by (metis distinct_append mset_sort_by mset_eq_imp_distinct_iff set_sort_by)
    moreover have "length ?us + length ?vs \<le> max_nodes p3"
      using less.prems(5) xs relinked_fields(1) [OF r3] by simp
    ultimately obtain head4 p4 where m: "merge_lists func head2 (last ?us) mid3 (last ?vs) p3 =
        Inr (head4, last (merge_or_join (after_in func p3) ?us ?vs), p4)"
      "segment (nodes p4) head4 (merge_or_join (after_in func p3) ?us ?vs) NULL" "relinked (set (?us @ ?vs)) p3 p4"
      using merge_lists_merges [OF u3 s3(2) [unfolded same2] _ _ _ less.prems(4)] len(5,6) by auto
    have "merge_or_join (after_in func p3) ?us ?vs = merge_or_join (after_in func p) ?us ?vs"
      by (rule merge_or_join_cong) (use len(5,6) after_in_relinked [OF less.prems(4) r3] doms in \<open>auto simp: in_mono\<close>)
    also have "\<dots> = sort_by (after_in func p) xs" using False uv by (simp add: sort_by.simps [of _ xs])
    finally have res: "merge_or_join (after_in func p3) ?us ?vs = sort_by (after_in func p) xs" .
    have "sort_node_list func (length xs) head p = Inr (head4, last (sort_by (after_in func p) xs), p4)"
      using False walk_segment [OF b(1) len(5), of NULL] len(1,2) cut(1) s2(1) s3(1) m(1) same1 same2 res
      by (subst sort_node_list.simps) simp
    moreover have "relinked (set xs) p p4" by (rule relinked_trans [OF r3 m(3)]) (use xs in auto)
    ultimately show ?thesis using m(2) res by simp
  qed
qed

subsection \<open>The tree is sorted\<close>

lemma tree_in_node:
  assumes "tree_in ns par nxt t"
  obtains n where "ns (address t) = Some n" "next_sibling n = nxt" "address t \<noteq> NULL" "node_data.truncate n = content t"
  using assms by (cases t) (auto simp: node_holds_def)

lemma tree_in_content: "tree_in ns par v t \<Longrightarrow> \<exists>n. ns (address t) = Some n \<and> node_data.truncate n = content t"
  by (cases t) (auto simp: node_holds_def)

lemma tree_in_next:
  "tree_in ns a v t \<longleftrightarrow> (\<exists>n. ns (address t) = Some n \<and> next_sibling n = v) \<and> (\<exists>w. tree_in ns a w t)"
  by (cases t) (auto simp: node_holds_def)

lemma segment_first: "segment ns b (map address ts) NULL \<Longrightarrow> b = first_address ts"
  by (cases ts) auto

lemma trees_in_segment:
  "trees_in ns a ts \<longleftrightarrow> segment ns (first_address ts) (map address ts) NULL \<and> (\<forall>t\<in>set ts. \<exists>v. tree_in ns a v t)"
proof (induction ts)
  case Nil
  then show ?case by simp
next
  case (Cons t ts)
  show ?case
  proof
    assume "trees_in ns a (t # ts)"
    then have t: "tree_in ns a (first_address ts) t" and ts: "trees_in ns a ts" by simp_all
    obtain n where "ns (address t) = Some n" "next_sibling n = first_address ts" "address t \<noteq> NULL"
      using tree_in_node [OF t] by blast
    then show "segment ns (first_address (t # ts)) (map address (t # ts)) NULL \<and> (\<forall>t\<in>set (t # ts). \<exists>v. tree_in ns a v t)"
      using t ts Cons by auto
  next
    assume r: "segment ns (first_address (t # ts)) (map address (t # ts)) NULL \<and> (\<forall>t\<in>set (t # ts). \<exists>v. tree_in ns a v t)"
    then obtain n where n: "ns (address t) = Some n" "segment ns (next_sibling n) (map address ts) NULL" by auto
    have "tree_in ns a (first_address ts) t" using r n segment_first [OF n(2)] by (subst tree_in_next) auto
    moreover have "trees_in ns a ts" using r n segment_first [OF n(2)] Cons by auto
    ultimately show "trees_in ns a (t # ts)" by simp
  qed
qed

lemma tree_relink:
  assumes "tree_in ns par v t" and "ns (address t) = Some n" and "ns' (address t) = Some (n\<lparr>next_sibling := w\<rparr>)"
    and "distinct (addresses t)" and "\<And>x. x \<in> set (addresses t) \<Longrightarrow> x \<noteq> address t \<Longrightarrow> ns' x = ns x"
  shows "tree_in ns' par w t"
proof (cases t)
  case (PNode a d ks)
  have "trees_in ns' a ks"
    by (rule tree_in_frame(2) [of ns]) (use assms PNode in auto)
  then show ?thesis using assms PNode by (auto simp: node_holds_def node_data.defs)
qed

lemma mset_addresses: "mset ks' = mset ks \<Longrightarrow> mset (addresses (PNode a d ks')) = mset (addresses (PNode a d ks))"
proof -
  assume "mset ks' = mset ks"
  then have "mset (map addresses ks') = mset (map addresses ks)" by (metis mset_map)
  then have "sum_mset (image_mset mset (mset (map addresses ks'))) = sum_mset (image_mset mset (mset (map addresses ks)))" by simp
  moreover have "mset (concat xss) = sum_mset (image_mset mset (mset xss))" for xss :: "nat list list"
    by (induction xss) simp_all
  ultimately show ?thesis by simp
qed

text \<open>The pure counterpart.\<close>

fun sort_tree :: "(node_data \<Rightarrow> node_data \<Rightarrow> bool) \<Rightarrow> ptree \<Rightarrow> ptree" where
  "sort_tree after (PNode a d ks) =
     PNode a d (sort_by (\<lambda>t u. after (content t) (content u)) (map (sort_tree after) ks))"

lemma sort_tree_root [simp]:
  "address (sort_tree after t) = address t" "content (sort_tree after t) = content t"
  by (cases t; simp)+

lemma sort_tree_kids:
  "sort_tree after (PNode a d ks) = PNode a d (map (sort_tree after) (sort_by (\<lambda>t u. after (content t) (content u)) ks))"
  by (simp add: sort_by_map)

text \<open>A comparison of nodes that is one of their data.\<close>

definition compares :: "compare_node \<Rightarrow> (node_data \<Rightarrow> node_data \<Rightarrow> bool) \<Rightarrow> bool" where
  "compares func after \<longleftrightarrow> (\<forall>a b. func a b = after (node_data.truncate a) (node_data.truncate b))"

lemma compares_link_blind: "compares func after \<Longrightarrow> link_blind func"
  by (simp add: compares_def link_blind_def node_data.defs)

lemma after_in_content:
  assumes cmp: "compares func after" and t: "\<exists>v. tree_in (nodes p) a v t" and u: "\<exists>v. tree_in (nodes p) a v u"
  shows "after_in func p (address t) (address u) = after (content t) (content u)"
proof -
  obtain m where m: "nodes p (address t) = Some m" "node_data.truncate m = content t" using t tree_in_content by blast
  obtain k where k: "nodes p (address u) = Some k" "node_data.truncate k = content u" using u tree_in_content by blast
  have "func m k = after (node_data.truncate m) (node_data.truncate k)" using cmp unfolding compares_def by blast
  then show ?thesis unfolding after_in_def m k by simp
qed

lemma count_siblings_length:
  assumes "segment (nodes p) a xs NULL" and "length xs < k"
  shows "count_siblings k p a = Inr (length xs)"
  using assms
proof (induction xs arbitrary: a k)
  case (Cons x xs)
  then obtain k' where "k = Suc k'" by (cases k) simp_all
  then show ?case using Cons by (auto simp: get_node_def)
qed (auto simp: gr0_conv_Suc)

lemma same_tree:
  "distinct (concat (map addresses ts)) \<Longrightarrow> t \<in> set ts \<Longrightarrow> u \<in> set ts \<Longrightarrow> x \<in> set (addresses t) \<Longrightarrow>
   x \<in> set (addresses u) \<Longrightarrow> t = u"
  by (induction ts) (auto simp: disjoint_iff)

lemma relinked_config:
  "relinked A p p' \<Longrightarrow> number_of_metrics p' = number_of_metrics p \<and> max_callpath_depth p' = max_callpath_depth p \<and>
     first_root_node p' = first_root_node p \<and> free_memory p' = free_memory p"
  by (auto simp: relinked_def)

lemma sort_kids:
  assumes tree: "holds_tree p par nxt (PNode a d ks)" and cmp: "compares func after" and few: "max_nodes p < 2 ^ 32"
  shows "\<exists>n number head tail p1 p'. get_node p a = Inr n \<and>
    scorep_profile_get_number_of_children a p = Inr number \<and>
    sort_node_list func (unat (ucast number :: u32)) (first_child n) p = Inr (head, tail, p1) \<and>
    update_node a (\<lambda>n. n\<lparr>first_child := head\<rparr>) p1 = Inr p' \<and>
    head = first_address (sort_by (\<lambda>t u. after (content t) (content u)) ks) \<and>
    holds_tree p' par nxt (PNode a d (sort_by (\<lambda>t u. after (content t) (content u)) ks)) \<and>
    evolves p (PNode a d ks) p' (PNode a d (sort_by (\<lambda>t u. after (content t) (content u)) ks)) \<and>
    (\<exists>ns. p' = p\<lparr>nodes := ns\<rparr>)"
proof -
  let ?after = "\<lambda>t u. after (content t) (content u)"
  let ?ks = "sort_by ?after ks"
  obtain n where n: "get_node p a = Inr n" "nodes p a = Some n" "node_data.truncate n = d" "first_child n = first_address ks"
    "parent n = par" "next_sibling n = nxt" "a \<noteq> NULL" "trees_in (nodes p) a ks"
    using tree_in_root [of p par nxt "PNode a d ks"] tree by (auto simp: holds_tree_def)
  have seg: "segment (nodes p) (first_address ks) (map address ks) NULL" and sub: "\<forall>t\<in>set ks. \<exists>v. tree_in (nodes p) a v t"
    using n(8) by (simp_all add: trees_in_segment)
  have dist: "distinct (a # concat (map addresses ks))" using tree by (simp add: holds_tree_def)
  have few_kids: "length ks \<le> max_nodes p" using kids_fewer [OF tree] by (simp add: fuel_def)
  have addr_dist: "distinct (map address ks)"
  proof -
    have "distinct (map address ts)" if "distinct (concat (map addresses ts))" for ts
      using that
    proof (induction ts)
      case (Cons t ts)
      have "address t \<notin> set (map address ts)"
      proof
        assume "address t \<in> set (map address ts)"
        then obtain u where "u \<in> set ts" "address t = address u" by auto
        then show False using Cons.prems address_in [of u] address_in [of t] by (auto simp: disjoint_iff)
      qed
      then show ?case using Cons by simp
    qed simp
    then show ?thesis using dist by simp
  qed
  have a_out: "a \<notin> set (map address ks)"
  proof
    assume "a \<in> set (map address ks)"
    then obtain t where "t \<in> set ks" "a = address t" by auto
    then show False using dist address_in [of t] by auto
  qed
  have "length (map address ks) < fuel p" using few_kids by (simp add: fuel_def)
  then have "count_siblings (fuel p) p (first_address ks) = Inr (length ks)" using count_siblings_length [OF seg] by simp
  then have count: "scorep_profile_get_number_of_children a p = Inr (of_nat (length ks))"
    using n by (simp add: scorep_profile_get_number_of_children_def)
  have number: "unat (ucast (of_nat (length ks) :: u64) :: u32) = length ks"
    using few few_kids by (simp add: unsigned_ucast_eq unsigned_of_nat take_bit_nat_eq_self)
  have eq: "after_in func p (address t) (address u) = ?after t u" if tu: "t \<in> set ks" "u \<in> set ks" for t u
    by (rule after_in_content [OF cmp sub [rule_format, OF tu(1)] sub [rule_format, OF tu(2)]])
  have sorted: "sort_by (after_in func p) (map address ks) = map address ?ks"
    using sort_by_cong [of ks "\<lambda>t u. after_in func p (address t) (address u)" ?after] eq by (simp add: sort_by_map)
  have "\<exists>head tail p1. sort_node_list func (length ks) (first_address ks) p = Inr (head, tail, p1) \<and>
      segment (nodes p1) head (map address ?ks) NULL \<and> relinked (set (map address ks)) p p1"
  proof (cases "ks = []")
    case True
    then show ?thesis using relinked_refl by (simp add: sort_node_list.simps sort_by.simps)
  next
    case False
    then have ne: "map address ks \<noteq> []" by simp
    have len: "length (map address ks) \<le> max_nodes p" using few_kids by simp
    show ?thesis
      using sort_node_list_sorts [OF seg addr_dist ne compares_link_blind [OF cmp] len] unfolding sorted length_map by blast
  qed
  then obtain head tail p1 where s: "sort_node_list func (length ks) (first_address ks) p = Inr (head, tail, p1)"
    "segment (nodes p1) head (map address ?ks) NULL" "relinked (set (map address ks)) p p1" by blast
  have a1: "nodes p1 a = Some n" using relinked_same [OF s(3) a_out] n(2) by simp
  let ?p = "p1\<lparr>nodes := (nodes p1)(a \<mapsto> n\<lparr>first_child := head\<rparr>)\<rparr>"
  have up: "update_node a (\<lambda>n. n\<lparr>first_child := head\<rparr>) p1 = Inr ?p" using a1 by (simp add: update_node_def get_node_def)
  have head: "head = first_address ?ks" by (rule segment_first [OF s(2)])
  have trees: "\<exists>v. tree_in (nodes ?p) a v t" if t: "t \<in> set ks" for t
  proof -
    obtain v where v: "tree_in (nodes p) a v t" using sub t by blast
    obtain m where m: "nodes p (address t) = Some m" using tree_in_content [OF v] by blast
    obtain w where w: "nodes p1 (address t) = Some (m\<lparr>next_sibling := w\<rparr>)" by (rule relinked_node [OF s(3) m])
    have other: "nodes ?p x = nodes p x" if x: "x \<in> set (addresses t)" "x \<noteq> address t" for x
    proof -
      have "x \<noteq> address u" if u: "u \<in> set ks" for u
        using same_tree [OF _ t u x(1)] dist address_in [of u] x(2) by auto
      then have "x \<notin> set (map address ks)" by auto
      moreover have "x \<noteq> a" using dist t x(1) by auto
      ultimately show ?thesis using relinked_same [OF s(3)] by simp
    qed
    have "address t \<noteq> a" using a_out t by auto
    then have "nodes ?p (address t) = Some (m\<lparr>next_sibling := w\<rparr>)" using w by simp
    moreover have "distinct (addresses t)" using dist t by (auto simp: distinct_concat_iff)
    ultimately have "tree_in (nodes ?p) a w t" using tree_relink [OF v m] other by blast
    then show ?thesis by blast
  qed
  have doms: "dom (nodes ?p) = dom (nodes p)" using relinked_dom [OF s(3)] a1 n(2) by auto
  have ok: "store_ok ?p" using tree doms relinked_fields [OF s(3)] by (simp add: holds_tree_def store_ok_def)
  have intree: "tree_in (nodes ?p) par nxt (PNode a d ?ks)"
  proof -
    have "segment (nodes ?p) head (map address ?ks) NULL"
      by (rule segment_frame [OF s(2)]) (use a_out in auto)
    then have "trees_in (nodes ?p) a ?ks" using trees head by (simp add: trees_in_segment)
    then show ?thesis using n head by (simp add: node_holds_def node_data.defs)
  qed
  have ms: "mset (addresses (PNode a d ?ks)) = mset (addresses (PNode a d ks))" by (rule mset_addresses) simp
  have dist': "distinct (addresses (PNode a d ?ks))" using mset_eq_imp_distinct_iff [OF ms] tree by (simp only: holds_tree_def)
  have sets: "set (addresses (PNode a d ?ks)) = set (addresses (PNode a d ks))" by (rule mset_eq_setD [OF ms])
  have contents: "all_content (\<lambda>d. length (dense_metrics d) = number_of_metrics p) (PNode a d ?ks)"
    using tree by (simp add: holds_tree_def list_all_iff)
  have num: "number_of_metrics ?p = number_of_metrics p" "is_initialized ?p" 
    using tree relinked_fields [OF s(3)] by (simp_all add: holds_tree_def)
  have holds: "holds_tree ?p par nxt (PNode a d ?ks)"
    unfolding holds_tree_def num(1) by (intro conjI ok num(2) intree dist' contents)
  have "nodes ?p x = nodes p x" if "x \<notin> set (addresses (PNode a d ks))" for x
  proof -
    have "x \<notin> set (map address ks)" using that address_in by auto
    then show ?thesis using that relinked_same [OF s(3)] by simp
  qed
  then have ev: "evolves p (PNode a d ks) ?p (PNode a d ?ks)"
    using doms relinked_config [OF s(3)] unfolding evolves_def works_on_def sets by auto
  obtain ns where "p1 = p\<lparr>nodes := ns\<rparr>" using s(3) by (auto simp: relinked_def)
  then have form: "?p = p\<lparr>nodes := ns(a \<mapsto> n\<lparr>first_child := head\<rparr>)\<rparr>" by simp
  have run: "sort_node_list func (unat (ucast (of_nat (length ks) :: u64) :: u32)) (first_child n) p = Inr (head, tail, p1)"
    unfolding number n(4) by (rule s(1))
  show ?thesis
    by (intro exI conjI)
      (rule n(1), rule count, rule run, rule up, rule head, rule holds, rule ev, rule form)
qed


text \<open>The recursion over the tree. The children in front are done.\<close>

lemma sort_subtree_run:
  "holds_tree p par nxt t \<Longrightarrow> 2 * length (addresses t) \<le> k \<Longrightarrow> max_nodes p < 2 ^ 32 \<Longrightarrow> compares func after \<Longrightarrow>
   \<exists>p'. sort_subtree k func (address t) p = Inr p' \<and> holds_tree p' par nxt (sort_tree after t) \<and>
     evolves p t p' (sort_tree after t) \<and> (\<exists>ns. p' = p\<lparr>nodes := ns\<rparr>)"
  "holds_tree p par nxt (PNode a d (pre @ ts)) \<Longrightarrow> Suc (2 * length (concat (map addresses ts))) \<le> k \<Longrightarrow>
   max_nodes p < 2 ^ 32 \<Longrightarrow> compares func after \<Longrightarrow>
   \<exists>p'. sort_subtrees k func (first_address ts) p = Inr p' \<and>
     holds_tree p' par nxt (PNode a d (pre @ map (sort_tree after) ts)) \<and>
     evolves p (PNode a d (pre @ ts)) p' (PNode a d (pre @ map (sort_tree after) ts)) \<and> (\<exists>ns. p' = p\<lparr>nodes := ns\<rparr>)"
proof (induction k arbitrary: p par nxt t a d pre ts)
  case 0
  {
    case 1
    then show ?case by (cases t) simp
  next
    case 2
    then show ?case by simp
  }
next
  case (Suc k)
  {
    case 1
    obtain a d ks where t: "t = PNode a d ks" by (cases t)
    let ?ks = "sort_by (\<lambda>t u. after (content t) (content u)) ks"
    have ok: "store_ok p" using 1(1) by (simp add: holds_tree_def)
    obtain n number head tail p1 p2 where s: "get_node p a = Inr n" "scorep_profile_get_number_of_children a p = Inr number"
      "sort_node_list func (unat (ucast number :: u32)) (first_child n) p = Inr (head, tail, p1)"
      "update_node a (\<lambda>n. n\<lparr>first_child := head\<rparr>) p1 = Inr p2" "head = first_address ?ks"
      "holds_tree p2 par nxt (PNode a d ([] @ ?ks))" "evolves p t p2 (PNode a d ?ks)" "\<exists>ns. p2 = p\<lparr>nodes := ns\<rparr>"
      using sort_kids [OF 1(1) [unfolded t] 1(4,3)] unfolding t append_Nil by blast
    have len: "mset (addresses (PNode a d ?ks)) = mset (addresses (PNode a d ks))" by (rule mset_addresses) simp
    have "length (addresses (PNode a d ?ks)) = length (addresses (PNode a d ks))" using mset_eq_length [OF len] .
    then have "Suc (2 * length (concat (map addresses ?ks))) \<le> k" using 1(2) t by simp
    moreover have "max_nodes p2 < 2 ^ 32" using 1(3) s(8) by auto
    ultimately obtain p3 where r: "sort_subtrees k func (first_address ?ks) p2 = Inr p3"
      "holds_tree p3 par nxt (PNode a d ([] @ map (sort_tree after) ?ks))"
      "evolves p2 (PNode a d ([] @ ?ks)) p3 (PNode a d ([] @ map (sort_tree after) ?ks))" "\<exists>ns. p3 = p2\<lparr>nodes := ns\<rparr>"
      using Suc.IH(2) [OF s(6) _ _ 1(4)] by blast
    have res: "sort_tree after t = PNode a d (map (sort_tree after) ?ks)" unfolding t by (rule sort_tree_kids)
    have "sort_subtree (Suc k) func (address t) p = Inr p3" using s(1-5) r(1) t by simp
    moreover have "evolves p t p3 (sort_tree after t)"
      unfolding res using evolves_trans [OF ok s(7)] r(3) by simp
    ultimately show ?case using r(2,4) s(8) unfolding res append_Nil by auto
  next
    case 2
    show ?case
    proof (cases ts)
      case Nil
      then show ?thesis using 2(1) evolves_refl by (auto intro: exI [of _ "nodes p"])
    next
      case (Cons t ts')
      have ok: "store_ok p" using 2(1) by (simp add: holds_tree_def)
      have t: "holds_tree p a (first_address ts') t" by (rule holds_tree_child [OF 2(1) [unfolded Cons]])
      have "addresses t \<noteq> []" by (cases t) simp
      then have len: "2 * length (addresses t) \<le> k" "Suc (2 * length (concat (map addresses ts'))) \<le> k"
        using 2(2) Cons by (cases "addresses t"; simp)+
      obtain p1 where p1: "sort_subtree k func (address t) p = Inr p1" "holds_tree p1 a (first_address ts') (sort_tree after t)"
        "evolves p t p1 (sort_tree after t)" "\<exists>ns. p1 = p\<lparr>nodes := ns\<rparr>"
        using Suc.IH(1) [OF t len(1) 2(3,4)] by blast
      have h1: "holds_tree p1 par nxt (PNode a d ((pre @ [sort_tree after t]) @ ts'))"
        and e1: "evolves p (PNode a d (pre @ ts)) p1 (PNode a d ((pre @ [sort_tree after t]) @ ts'))"
        using child_evolves [OF 2(1) [unfolded Cons] p1(2,3)] unfolding Cons by simp_all
      have "max_nodes p1 < 2 ^ 32" using 2(3) p1(4) by auto
      then obtain p2 where p2: "sort_subtrees k func (first_address ts') p1 = Inr p2"
        "holds_tree p2 par nxt (PNode a d ((pre @ [sort_tree after t]) @ map (sort_tree after) ts'))"
        "evolves p1 (PNode a d ((pre @ [sort_tree after t]) @ ts')) p2 (PNode a d ((pre @ [sort_tree after t]) @ map (sort_tree after) ts'))"
        "\<exists>ns. p2 = p1\<lparr>nodes := ns\<rparr>"
        using Suc.IH(2) [OF h1 len(2) _ 2(4)] by blast
      obtain m where m: "get_node p1 (address t) = Inr m" "next_sibling m = first_address ts'"
        using tree_in_root [of p1 a "first_address ts'" "sort_tree after t"] p1(2) by (auto simp: holds_tree_def)
      have "address t \<noteq> NULL" using tree_in_root [of p a "first_address ts'" t] t by (auto simp: holds_tree_def)
      then have "sort_subtrees (Suc k) func (first_address ts) p = Inr p2" using p1(1) m p2(1) Cons by simp
      moreover have "evolves p (PNode a d (pre @ ts)) p2 (PNode a d (pre @ map (sort_tree after) ts))"
        using evolves_trans [OF ok e1 p2(3)] Cons by simp
      ultimately show ?thesis using p2(2,4) p1(4) Cons by auto
    qed
  }
qed

lemma sort_subtree_sorts:
  assumes "holds_tree p par nxt t" and "max_nodes p < 2 ^ 32" and "compares func after"
  shows "\<exists>p'. scorep_profile_sort_subtree (address t) func p = Inr p' \<and> holds_tree p' par nxt (sort_tree after t) \<and>
     evolves p t p' (sort_tree after t)"
proof -
  have "length (addresses t) = card (set (addresses t))" using assms(1) by (simp add: holds_tree_def distinct_card)
  also have "\<dots> \<le> card (dom (nodes p))"
    using assms(1) tree_in_dom(1) [of "nodes p" par nxt t] by (intro card_mono) (auto simp: holds_tree_def store_ok_def)
  finally have "2 * length (addresses t) \<le> 2 * fuel p" using assms(1) by (simp add: holds_tree_def store_ok_def fuel_def)
  from sort_subtree_run(1) [OF assms(1) this assms(2,3)] show ?thesis unfolding scorep_profile_sort_subtree_def by blast
qed

end
