(* ===== verification/ProfilePasses.thy ===== *)
theory ProfilePasses
  imports ProfileSorting
begin

section \<open>Traversals of the tree\<close>

text \<open>
  The traversal of \<^verbatim>\<open>scorep_profile_node.c\<close>, which finds its way with the links only, and the passes over all
  roots: \<^verbatim>\<open>scorep_profile_collapse.c\<close>, the sorting of \<^verbatim>\<open>scorep_profile_callpath.c\<close> and the
  comparison of \<^verbatim>\<open>scorep_profile_post_cluster.c\<close>.
\<close>

subsection \<open>Traversal\<close>

text \<open>The next node in the order of the traversal that is not below this one, or the root when there is none.\<close>

fun next_node :: "nat \<Rightarrow> nat \<Rightarrow> nat \<Rightarrow> profile \<Rightarrow> nat outcome" where
  "next_node 0 root a p = Inl Endless"
| "next_node (Suc k) root a p =
     and_then (get_node p a) (\<lambda>n.
       if next_sibling n \<noteq> NULL then Inr (next_sibling n)
       else if parent n \<noteq> root then next_node k root (parent n) p
       else Inr root)"

fun for_all_loop :: "nat \<Rightarrow> (nat \<Rightarrow> profile \<Rightarrow> profile outcome) \<Rightarrow> nat \<Rightarrow> nat \<Rightarrow> profile \<Rightarrow> profile outcome" where
  "for_all_loop 0 func root a p = Inl Endless"
| "for_all_loop (Suc k) func root a p =
     (if a = root then Inr p
      else and_then (func a p) (\<lambda>p.
           and_then (get_node p a) (\<lambda>n.
           and_then (if first_child n \<noteq> NULL then Inr (first_child n) else next_node (fuel p) root a p) (\<lambda>b.
             for_all_loop k func root b p))))"

definition scorep_profile_for_all :: "nat \<Rightarrow> (nat \<Rightarrow> profile \<Rightarrow> profile outcome) \<Rightarrow> profile \<Rightarrow> profile outcome" where
  "scorep_profile_for_all root func p =
     (if root = NULL then Inr p
      else and_then (func root p) (\<lambda>p.
           and_then (get_node p root) (\<lambda>n.
             if first_child n = NULL then Inr p
             else for_all_loop (fuel p) func root (first_child n) p)))"

text \<open>Functions that change what a node says, but no links.\<close>

definition change_data :: "(node_data \<Rightarrow> node_data) \<Rightarrow> profile_node \<Rightarrow> profile_node" where
  "change_data g n = node_data.extend (g (node_data.truncate n))
     \<lparr>parent = parent n, first_child = first_child n, next_sibling = next_sibling n\<rparr>"

definition map_nodes :: "(node_data \<Rightarrow> node_data) \<Rightarrow> nat set \<Rightarrow> profile \<Rightarrow> profile" where
  "map_nodes g A p = p\<lparr>nodes := (\<lambda>x. if x \<in> A then map_option (change_data g) (nodes p x) else nodes p x)\<rparr>"

fun map_tree :: "(node_data \<Rightarrow> node_data) \<Rightarrow> ptree \<Rightarrow> ptree" where
  "map_tree g (PNode a d ks) = PNode a (g d) (map (map_tree g) ks)"

lemma change_data_simps [simp]:
  "parent (change_data g n) = parent n" "first_child (change_data g n) = first_child n"
  "next_sibling (change_data g n) = next_sibling n" "node_data.truncate (change_data g n) = g (node_data.truncate n)"
  by (simp_all add: change_data_def node_data.defs)

lemma map_nodes_map_nodes: "A \<inter> B = {} \<Longrightarrow> map_nodes g B (map_nodes g A p) = map_nodes g (A \<union> B) p"
  by (simp add: map_nodes_def) (rule arg_cong [where f = "\<lambda>ns. p\<lparr>nodes := ns\<rparr>"], auto simp: fun_eq_iff)

lemma map_nodes_empty [simp]: "map_nodes g {} p = p"
  by (simp add: map_nodes_def)

lemma map_nodes_fields [simp]:
  "max_nodes (map_nodes g A p) = max_nodes p" "free_memory (map_nodes g A p) = free_memory p"
  "number_of_metrics (map_nodes g A p) = number_of_metrics p" "is_initialized (map_nodes g A p) = is_initialized p"
  "locations (map_nodes g A p) = locations p" "first_root_node (map_nodes g A p) = first_root_node p"
  by (simp_all add: map_nodes_def)

lemma fuel_map_nodes [simp]: "fuel (map_nodes g A p) = fuel p"
  by (simp add: fuel_def map_nodes_def)

lemma update_change_data:
  assumes "nodes p a = Some n"
  shows "update_node a (change_data g) p = Inr (map_nodes g {a} p)"
  using assms by (auto simp: update_node_def get_node_def map_nodes_def fun_eq_iff)

lemma address_map_tree [simp]: "address (map_tree g t) = address t" "content (map_tree g t) = g (content t)"
  by (cases t; simp)+

lemma addresses_map_tree [simp]: "addresses (map_tree g t) = addresses t"
  by (induction t) (simp add: comp_def cong: map_cong)

lemma first_address_map_tree [simp]: "first_address (map (map_tree g) ts) = first_address ts"
  by (cases ts) simp_all

lemma tree_in_map_nodes:
  "tree_in (nodes p) par nxt t \<Longrightarrow> set (addresses t) \<subseteq> A \<Longrightarrow> tree_in (nodes (map_nodes g A p)) par nxt (map_tree g t)"
  "trees_in (nodes p) par ts \<Longrightarrow> (\<Union>t\<in>set ts. set (addresses t)) \<subseteq> A \<Longrightarrow>
     trees_in (nodes (map_nodes g A p)) par (map (map_tree g) ts)"
  by (induction "nodes p" par nxt t and "nodes p" par ts rule: tree_in_trees_in.induct)
    (auto simp: node_holds_def map_nodes_def)

lemma tree_in_other_nodes:
  "tree_in (nodes p) par nxt t \<Longrightarrow> set (addresses t) \<inter> A = {} \<Longrightarrow> tree_in (nodes (map_nodes g A p)) par nxt t"
  "trees_in (nodes p) par ts \<Longrightarrow> (\<Union>t\<in>set ts. set (addresses t)) \<inter> A = {} \<Longrightarrow> trees_in (nodes (map_nodes g A p)) par ts"
  by (erule tree_in_frame; auto simp: map_nodes_def)+

lemma next_node_map_nodes: "next_node k root a (map_nodes g A p) = next_node k root a p"
  by (induction k arbitrary: a) (auto simp: get_node_def map_nodes_def and_then_def split: option.splits sum.splits)

lemma next_node_more: "next_node k root a p = Inr b \<Longrightarrow> k \<le> k' \<Longrightarrow> next_node k' root a p = Inr b"
proof (induction k arbitrary: a k')
  case (Suc k)
  then obtain k0 where "k' = Suc k0" "k \<le> k0" by (cases k') simp_all
  then show ?case using Suc by (auto simp: outcome_simps split: if_splits)
qed simp

text \<open>The loop goes through a subtree in one step per node, and then on to the next node.\<close>

definition traverses :: "(node_data \<Rightarrow> node_data) \<Rightarrow> nat \<Rightarrow> ptree \<Rightarrow> bool" where
  "traverses g root t \<longleftrightarrow> (\<forall>p par nxt f b k.
     tree_in (nodes p) par nxt t \<longrightarrow> distinct (addresses t) \<longrightarrow> root \<notin> set (addresses t) \<longrightarrow>
     next_node f root (address t) p = Inr b \<longrightarrow> f + length (addresses t) \<le> fuel p \<longrightarrow>
     for_all_loop (length (addresses t) + k) (\<lambda>a. update_node a (change_data g)) root (address t) p =
       for_all_loop k (\<lambda>a. update_node a (change_data g)) root b (map_nodes g (set (addresses t)) p))"

lemma for_all_trees:
  assumes "\<And>t. t \<in> set ts \<Longrightarrow> traverses g root t" and "trees_in (nodes p) par ts" and "ts \<noteq> []"
    and "distinct (concat (map addresses ts))" and "root \<notin> set (concat (map addresses ts))"
    and "if par = root then b = root else next_node f root par p = Inr b"
    and "Suc f + length (concat (map addresses ts)) \<le> fuel p"
  shows "for_all_loop (length (concat (map addresses ts)) + k) (\<lambda>a. update_node a (change_data g)) root (first_address ts) p =
    for_all_loop k (\<lambda>a. update_node a (change_data g)) root b (map_nodes g (set (concat (map addresses ts))) p)"
  using assms
proof (induction ts arbitrary: p k)
  case (Cons t ts)
  let ?func = "\<lambda>a. update_node a (change_data g)" and ?A = "set (addresses t)"
  have t: "tree_in (nodes p) par (first_address ts) t" and ts: "trees_in (nodes p) par ts" using Cons.prems(2) by simp_all
  obtain n where n: "nodes p (address t) = Some n" "next_sibling n = first_address ts" "parent n = par"
    using tree_in_root [OF t] by metis
  have trav: "for_all_loop (length (addresses t) + j) ?func root (address t) p = for_all_loop j ?func root c (map_nodes g ?A p)"
    if "next_node h root (address t) p = Inr c" "h + length (addresses t) \<le> fuel p" for h c j
  proof -
    have "traverses g root t" "distinct (addresses t)" "root \<notin> set (addresses t)" using Cons.prems(1,4,5) by simp_all
    then show ?thesis using t that unfolding traverses_def by blast
  qed
  show ?case
  proof (cases "ts = []")
    case True
    have "next_node (Suc f) root (address t) p = Inr b"
      using n True Cons.prems(6) by (auto simp: get_node_def split: if_splits)
    from trav [OF this, of k] show ?thesis using True Cons.prems(7) by simp
  next
    case False
    have "first_address ts \<noteq> NULL" using ts False by (cases ts) (auto elim: tree_in_node)
    then have "next_node 1 root (address t) p = Inr (first_address ts)" using n by (simp add: get_node_def)
    then have one: "for_all_loop (length (addresses t) + (length (concat (map addresses ts)) + k)) ?func root (address t) p =
        for_all_loop (length (concat (map addresses ts)) + k) ?func root (first_address ts) (map_nodes g ?A p)"
      by (rule trav) (use Cons.prems(7) in simp)
    have dis: "?A \<inter> set (concat (map addresses ts)) = {}" using Cons.prems(4) by simp
    have "trees_in (nodes (map_nodes g ?A p)) par ts" by (rule tree_in_other_nodes(2) [OF ts]) (use dis in auto)
    then have "for_all_loop (length (concat (map addresses ts)) + k) ?func root (first_address ts) (map_nodes g ?A p) =
        for_all_loop k ?func root b (map_nodes g (set (concat (map addresses ts))) (map_nodes g ?A p))"
      by (rule Cons.IH [rotated]) (use Cons.prems False in \<open>simp_all add: next_node_map_nodes\<close>)
    then show ?thesis using one dis by (simp add: map_nodes_map_nodes add.assoc)
  qed
qed simp

lemma for_all_subtree: "traverses g root t"
proof (induction t)
  case (PNode a d ks)
  let ?func = "\<lambda>a. update_node a (change_data g)"
  show ?case
    unfolding traverses_def
  proof (intro allI impI)
    fix p par nxt f b k
    assume t: "tree_in (nodes p) par nxt (PNode a d ks)" and dist: "distinct (addresses (PNode a d ks))"
      and out: "root \<notin> set (addresses (PNode a d ks))" and nx: "next_node f root (address (PNode a d ks)) p = Inr b"
      and le: "f + length (addresses (PNode a d ks)) \<le> fuel p"
    obtain n where n: "nodes p a = Some n" "first_child n = first_address ks" "a \<noteq> NULL" using t by (auto simp: node_holds_def)
    let ?p = "map_nodes g {a} p"
    have f: "next_node f root a ?p = Inr b" using nx by (simp add: next_node_map_nodes)
    have a: "a \<noteq> root" using out by auto
    have n': "get_node ?p a = Inr (change_data g n)" using n(1) by (simp add: get_node_def map_nodes_def)
    have ks: "trees_in (nodes p) a ks" "{a} \<inter> set (concat (map addresses ks)) = {}" using t dist by auto
    show "for_all_loop (length (addresses (PNode a d ks)) + k) ?func root (address (PNode a d ks)) p =
        for_all_loop k ?func root b (map_nodes g (set (addresses (PNode a d ks))) p)"
    proof (cases "ks = []")
      case True
      have "f \<le> fuel ?p" using le by simp
      then show ?thesis using True a n n' next_node_more [OF f] update_change_data [OF n(1)] by simp
    next
      case False
      have "trees_in (nodes ?p) a ks" by (rule tree_in_other_nodes(2) [OF ks(1)]) (use ks(2) in auto)
      then have "for_all_loop (length (concat (map addresses ks)) + k) ?func root (first_address ks) ?p =
          for_all_loop k ?func root b (map_nodes g (set (concat (map addresses ks))) ?p)"
        by (rule for_all_trees [rotated, where f = f]) (use PNode False dist out a f le in simp_all)
      moreover have "first_address ks \<noteq> NULL" using ks(1) False by (cases ks) (auto elim: tree_in_node)
      ultimately show ?thesis
        using a n n' update_change_data [OF n(1), of g] map_nodes_map_nodes [OF ks(2), of g p] by simp
    qed
  qed
qed

lemma holds_tree_map_nodes:
  assumes "holds_tree p par nxt t" and "\<And>d. length (dense_metrics (g d)) = length (dense_metrics d)"
  shows "holds_tree (map_nodes g (set (addresses t)) p) par nxt (map_tree g t)"
proof -
  have "all_content (\<lambda>d. length (dense_metrics d) = k) (map_tree g t) = all_content (\<lambda>d. length (dense_metrics d) = k) t" for k
    by (induction t) (auto simp: assms(2) list_all_iff)
  moreover have "dom (nodes (map_nodes g A p)) = dom (nodes p)" for A by (auto simp: map_nodes_def split: if_splits)
  ultimately show ?thesis
    using assms(1) tree_in_map_nodes(1) [of p par nxt t "set (addresses t)" g]
    unfolding holds_tree_def store_ok_def by simp
qed

lemma for_all_maps:
  assumes "holds_tree p par nxt t"
  shows "scorep_profile_for_all (address t) (\<lambda>a. update_node a (change_data g)) p = Inr (map_nodes g (set (addresses t)) p)"
proof -
  let ?func = "\<lambda>a. update_node a (change_data g)"
  obtain a d ks where t: "t = PNode a d ks" by (cases t)
  have tr: "tree_in (nodes p) par nxt t" and dist: "distinct (addresses t)" using assms by (simp_all add: holds_tree_def)
  obtain n where n: "nodes p a = Some n" "first_child n = first_address ks" "a \<noteq> NULL" using tr t by (auto simp: node_holds_def)
  let ?p = "map_nodes g {a} p"
  have n': "get_node ?p a = Inr (change_data g n)" using n(1) by (simp add: get_node_def map_nodes_def)
  have ks: "trees_in (nodes p) a ks" "{a} \<inter> set (concat (map addresses ks)) = {}" using tr dist t by auto
  have start: "scorep_profile_for_all (address t) ?func p =
      (if first_address ks = NULL then Inr ?p else for_all_loop (fuel p) ?func a (first_address ks) ?p)"
    using n n' t update_change_data [OF n(1), of g] by (simp add: scorep_profile_for_all_def)
  show ?thesis
  proof (cases "ks = []")
    case True
    then show ?thesis using start t by simp
  next
    case False
    have ne: "first_address ks \<noteq> NULL" using ks(1) False by (cases ks) (auto elim: tree_in_node)
    have "length (addresses t) = card (set (addresses t))" using dist by (simp add: distinct_card)
    also have "\<dots> \<le> card (dom (nodes p))"
      using assms tree_in_dom(1) [OF tr] by (intro card_mono) (auto simp: holds_tree_def store_ok_def)
    also have "\<dots> \<le> max_nodes p" using assms by (simp add: holds_tree_def store_ok_def)
    finally have len: "Suc (length (concat (map addresses ks))) \<le> max_nodes p" using t by simp
    then obtain j where j: "fuel p = length (concat (map addresses ks)) + Suc j"
      by (metis add_Suc_right fuel_def less_iff_Suc_add less_Suc_eq_le Suc_le_eq)
    have "trees_in (nodes ?p) a ks" by (rule tree_in_other_nodes(2) [OF ks(1)]) (use ks(2) in auto)
    then have "for_all_loop (length (concat (map addresses ks)) + Suc j) ?func a (first_address ks) ?p =
        for_all_loop (Suc j) ?func a a (map_nodes g (set (concat (map addresses ks))) ?p)"
      by (rule for_all_trees [rotated, where f = 0]) (use for_all_subtree False dist len t in \<open>simp_all add: fuel_def map_nodes_def\<close>)
    then show ?thesis using start ne j t map_nodes_map_nodes [OF ks(2), of g p] by simp
  qed
qed

subsection \<open>Passes over all roots\<close>

fun for_roots :: "nat \<Rightarrow> (nat \<Rightarrow> profile \<Rightarrow> profile outcome) \<Rightarrow> nat \<Rightarrow> profile \<Rightarrow> profile outcome" where
  "for_roots 0 f a p = Inl Endless"
| "for_roots (Suc k) f a p =
     (if a = NULL then Inr p
      else and_then (f a p) (\<lambda>p. and_then (get_node p a) (\<lambda>n. for_roots k f (next_sibling n) p)))"

text \<open>The region for collapsed nodes is what the definitions answer for a new region.\<close>

definition substitute_collapse :: "u32 \<Rightarrow> node_data \<Rightarrow> node_data" where
  "substitute_collapse collapse_region d =
     (if node_type d = Node_Collapse
      then d\<lparr>node_type := Node_Regular_Region,
             type_specific_data := \<lparr>handle_entry = ucast collapse_region, value_entry = 0\<rparr>\<rparr>
      else d)"

definition scorep_profile_process_collapse :: "u32 \<Rightarrow> profile \<Rightarrow> profile outcome" where
  "scorep_profile_process_collapse collapse_region p =
     (if \<not> has_collapse_node p then Inr p
      else for_roots (fuel p)
             (\<lambda>root. scorep_profile_for_all root (\<lambda>a. update_node a (change_data (substitute_collapse collapse_region))))
             (first_root_node p) p)"

definition sort_tree_pass :: "profile \<Rightarrow> profile outcome" where
  "sort_tree_pass p =
     for_roots (fuel p) (\<lambda>root. scorep_profile_sort_subtree root compare_first_enter_time) (first_root_node p) p"

subsection \<open>Comparison of trees\<close>

definition differs :: "profile_node \<Rightarrow> profile_node \<Rightarrow> bool" where
  "differs a b \<longleftrightarrow> node_type a \<noteq> Node_Thread_Root \<and>
     (\<not> scorep_profile_compare_nodes a b \<or> node_count a > 0 \<and> node_count b = 0 \<or> node_count a = 0 \<and> node_count b > 0)"

fun compare_structure :: "nat \<Rightarrow> nat \<Rightarrow> nat \<Rightarrow> profile \<Rightarrow> bool outcome"
  and compare_children :: "nat \<Rightarrow> nat \<Rightarrow> nat \<Rightarrow> profile \<Rightarrow> bool outcome" where
  "compare_structure 0 a b p = Inl Endless"
| "compare_structure (Suc k) a b p =
     (if a = NULL \<and> b = NULL then Inr True
      else if a = NULL \<or> b = NULL then Inr False
      else and_then (get_node p a) (\<lambda>n. and_then (get_node p b) (\<lambda>m.
             if differs n m then Inr False else compare_children k (first_child n) (first_child m) p)))"
| "compare_children 0 a b p = Inl Endless"
| "compare_children (Suc k) a b p =
     (if a \<noteq> NULL \<and> b \<noteq> NULL
      then and_then (compare_structure k a b p) (\<lambda>same.
           if \<not> same then Inr False
           else and_then (get_node p a) (\<lambda>n. and_then (get_node p b) (\<lambda>m.
                  compare_children k (next_sibling n) (next_sibling m) p)))
      else Inr True)"

text \<open>What it computes: equal roots, and children that are equal as far as both have them.\<close>

definition data_differs :: "node_data \<Rightarrow> node_data \<Rightarrow> bool" where
  "data_differs d e \<longleftrightarrow> node_type d \<noteq> Node_Thread_Root \<and>
     (\<not> (node_type d = node_type e \<and> scorep_profile_compare_type_data (type_specific_data d) (type_specific_data e) (node_type d)) \<or>
      node_count d > 0 \<and> node_count e = 0 \<or> node_count d = 0 \<and> node_count e > 0)"

fun same_prefix :: "ptree \<Rightarrow> ptree \<Rightarrow> bool"
  and same_prefixes :: "ptree list \<Rightarrow> ptree list \<Rightarrow> bool" where
  "same_prefix (PNode a d ks) (PNode b e ls) \<longleftrightarrow> \<not> data_differs d e \<and> same_prefixes ks ls"
| "same_prefixes (t # ts) (u # us) \<longleftrightarrow> same_prefix t u \<and> same_prefixes ts us"
| "same_prefixes [] us \<longleftrightarrow> True"
| "same_prefixes ts [] \<longleftrightarrow> True"

lemma compare_structure_prefix:
  "tree_in (nodes p) par nxt t \<Longrightarrow> tree_in (nodes p) par' nxt' u \<Longrightarrow> 2 * length (addresses t) \<le> k \<Longrightarrow>
   compare_structure k (address t) (address u) p = Inr (same_prefix t u)"
  "trees_in (nodes p) par ts \<Longrightarrow> trees_in (nodes p) par' us \<Longrightarrow> Suc (2 * length (concat (map addresses ts))) \<le> k \<Longrightarrow>
   compare_children k (first_address ts) (first_address us) p = Inr (same_prefixes ts us)"
proof (induction t u and ts us arbitrary: k par nxt par' nxt' and k par par' rule: same_prefix_same_prefixes.induct)
  case (1 a d ks b e ls)
  obtain j where k: "k = Suc j" using 1(4) by (cases k) simp_all
  have kids: "trees_in (nodes p) a ks" "trees_in (nodes p) b ls" using 1(2,3) by simp_all
  obtain n m where n: "nodes p a = Some n" "first_child n = first_address ks" "a \<noteq> NULL" "node_data.truncate n = d"
    "nodes p b = Some m" "first_child m = first_address ls" "b \<noteq> NULL" "node_data.truncate m = e"
    using 1(2,3) by (auto simp: node_holds_def)
  have "differs n m = data_differs d e"
    unfolding n(4,8) [symmetric] by (auto simp: differs_def data_differs_def scorep_profile_compare_nodes_def node_data.defs)
  then show ?case using 1(1) [OF kids, of j] 1(4) k n by (auto simp: get_node_def)
next
  case (2 t ts u us)
  obtain j where k: "k = Suc j" using 2(5) by (cases k) simp_all
  have ts: "tree_in (nodes p) par (first_address ts) t" "trees_in (nodes p) par ts"
    "tree_in (nodes p) par' (first_address us) u" "trees_in (nodes p) par' us" using 2(3,4) by simp_all
  obtain n where n: "get_node p (address t) = Inr n" "next_sibling n = first_address ts" "address t \<noteq> NULL"
    using tree_in_root [OF ts(1)] by metis
  obtain m where m: "get_node p (address u) = Inr m" "next_sibling m = first_address us" "address u \<noteq> NULL"
    using tree_in_root [OF ts(3)] by metis
  have "addresses t \<noteq> []" by (cases t) simp
  then have "2 * length (addresses t) \<le> j" "Suc (2 * length (concat (map addresses ts))) \<le> j"
    using 2(5) k by (cases "addresses t"; simp)+
  then show ?case using 2(1) [OF ts(1,3)] 2(2) [OF ts(2,4)] n m k by auto
qed (auto simp: gr0_conv_Suc dest!: Suc_le_D)

subsection \<open>The passes on trees\<close>

text \<open>Sorting by the time of the first enter.\<close>

fun ordered_tree :: "ptree \<Rightarrow> ptree" where
  "ordered_tree (PNode a d ks) = PNode a d (sort_key (\<lambda>t. first_enter_time (content t)) (map ordered_tree ks))"

lemma ordered_tree_sort: "sort_tree (\<lambda>d e. first_enter_time e < first_enter_time d) t = ordered_tree t"
proof (induction t)
  case (PNode a d ks)
  then have eq: "map (sort_tree (\<lambda>d e. first_enter_time e < first_enter_time d)) ks = map ordered_tree ks" by simp
  show ?case unfolding sort_tree.simps ordered_tree.simps sort_by_key [where key = "\<lambda>t. first_enter_time (content t)"] eq ..
qed

lemma compares_first_enter_time: "compares compare_first_enter_time (\<lambda>d e. first_enter_time e < first_enter_time d)"
  by (simp add: compares_def compare_first_enter_time_def node_data.defs)

text \<open>Sorting with the comparison for equality.\<close>

definition same_key :: "node_data \<Rightarrow> node_data \<Rightarrow> bool" where
  "same_key d e \<longleftrightarrow> node_type d = node_type e \<and>
     scorep_profile_compare_type_data (type_specific_data d) (type_specific_data e) (node_type d)"

fun siblings_differ :: "ptree \<Rightarrow> bool" where
  "siblings_differ (PNode a d ks) \<longleftrightarrow>
     sorted_wrt (\<lambda>t u. \<not> same_key (content t) (content u)) ks \<and> list_all siblings_differ ks"

lemma same_key_refl [simp]: "same_key d d"
  by (cases "node_type d") (simp_all add: same_key_def compare_both_entries_def compare_only_value_def compare_only_handle_def)

lemma same_key_sym: "same_key d e \<Longrightarrow> same_key e d"
  by (cases "node_type d") (auto simp: same_key_def compare_both_entries_def compare_only_value_def compare_only_handle_def)

lemma compares_same_key: "compares scorep_profile_compare_nodes same_key"
  by (simp add: compares_def scorep_profile_compare_nodes_def same_key_def node_data.defs)

lemma sorted_wrt_different:
  "sorted_wrt (\<lambda>t u. \<not> same_key (content t) (content u)) ks \<Longrightarrow> t \<in> set ks \<Longrightarrow> u \<in> set ks \<Longrightarrow> t \<noteq> u \<Longrightarrow>
   \<not> same_key (content t) (content u)"
  by (induction ks) (auto dest: same_key_sym)

lemma sorted_wrt_distinct: "sorted_wrt (\<lambda>t u. \<not> same_key (content t) (content u)) ks \<Longrightarrow> distinct ks"
  by (induction ks) auto

lemma sort_tree_same_key: "siblings_differ t \<Longrightarrow> sort_tree same_key t = t"
proof (induction t)
  case (PNode a d ks)
  then have "map (sort_tree same_key) ks = ks" by (simp add: map_idI list_all_iff)
  then show ?case
    using PNode.prems sort_by_never [of ks "\<lambda>t u. same_key (content t) (content u)"] sorted_wrt_different [of ks]
      sorted_wrt_distinct [of ks] by simp
qed

text \<open>What sorting needs of a comparison of nodes, and what it gives for the two comparisons the program sorts with.\<close>

locale node_comparison =
  fixes func :: compare_node and after :: "node_data \<Rightarrow> node_data \<Rightarrow> bool"
  assumes func_after: "func a b = after (node_data.truncate a) (node_data.truncate b)"
begin

lemma sorts:
  assumes "holds_tree p par nxt t" and "max_nodes p < 2 ^ 32"
  shows "\<exists>p'. scorep_profile_sort_subtree (address t) func p = Inr p' \<and> holds_tree p' par nxt (sort_tree after t) \<and>
    works_on (set (addresses t)) p p'"
proof -
  have "compares func after" by (simp add: compares_def func_after)
  from sort_subtree_sorts [OF assms this] show ?thesis by (auto simp: evolves_def)
qed

end

interpretation enter_order: node_comparison compare_first_enter_time "\<lambda>d e. first_enter_time e < first_enter_time d"
  by unfold_locales (use compares_first_enter_time in \<open>simp add: compares_def\<close>)

interpretation key_order: node_comparison scorep_profile_compare_nodes same_key
  by unfold_locales (use compares_same_key in \<open>simp add: compares_def\<close>)

text \<open>All roots of the profile.\<close>

definition holds_roots :: "profile \<Rightarrow> ptree list \<Rightarrow> bool" where
  "holds_roots p ts \<longleftrightarrow> store_ok p \<and> is_initialized p \<and> trees_in (nodes p) NULL ts \<and> first_root_node p = first_address ts \<and>
     distinct (concat (map addresses ts)) \<and> list_all (all_content (\<lambda>d. length (dense_metrics d) = number_of_metrics p)) ts"

lemma store_ok_map_nodes: "store_ok (map_nodes g A p) = store_ok p"
proof -
  have "dom (nodes (map_nodes g A p)) = dom (nodes p)" by (auto simp: map_nodes_def split: if_splits)
  then show ?thesis by (simp add: store_ok_def)
qed

lemma for_roots_maps:
  assumes "store_ok p" and "is_initialized p" and "trees_in (nodes p) NULL ts" and "distinct (concat (map addresses ts))"
    and "list_all (all_content (\<lambda>d. length (dense_metrics d) = number_of_metrics p)) ts" and "length ts < k"
  shows "for_roots k (\<lambda>root. scorep_profile_for_all root (\<lambda>a. update_node a (change_data g))) (first_address ts) p =
    Inr (map_nodes g (set (concat (map addresses ts))) p)"
  using assms
proof (induction ts arbitrary: p k)
  case Nil
  then obtain j where "k = Suc j" by (cases k) simp_all
  then show ?case by simp
next
  case (Cons t ts)
  obtain j where k: "k = Suc j" using Cons.prems(6) by (cases k) simp_all
  let ?A = "set (addresses t)"
  let ?p = "map_nodes g ?A p"
  have t: "holds_tree p NULL (first_address ts) t" using Cons.prems by (simp add: holds_tree_def)
  obtain n where n: "nodes p (address t) = Some n" "next_sibling n = first_address ts" "address t \<noteq> NULL"
    using tree_in_root [of p NULL "first_address ts" t] t by (auto simp: holds_tree_def)
  have n': "get_node ?p (address t) = Inr (change_data g n)"
    using n(1) address_in [of t] by (simp add: get_node_def map_nodes_def)
  have dis: "?A \<inter> set (concat (map addresses ts)) = {}" using Cons.prems(4) by simp
  have "trees_in (nodes ?p) NULL ts" by (rule tree_in_other_nodes(2)) (use Cons.prems(3) dis in auto)
  then have "for_roots j (\<lambda>root. scorep_profile_for_all root (\<lambda>a. update_node a (change_data g))) (first_address ts) ?p =
      Inr (map_nodes g (set (concat (map addresses ts))) ?p)"
    by (intro Cons.IH) (use Cons.prems k in \<open>simp_all add: store_ok_map_nodes\<close>)
  then show ?case using for_all_maps [OF t, of g] n n' k map_nodes_map_nodes [OF dis, of g p] by simp
qed

lemma roots_few:
  assumes "store_ok p" and "trees_in (nodes p) NULL ts" and "distinct (concat (map addresses ts))"
  shows "length ts < fuel p"
proof -
  have "length ts \<le> length (concat (map addresses ts))"
  proof (induction ts)
    case (Cons u ts)
    then show ?case by (cases u) simp
  qed simp
  also have "\<dots> = card (set (concat (map addresses ts)))" using assms(3) by (rule distinct_card [symmetric])
  also have "\<dots> \<le> card (dom (nodes p))"
    using assms(1) tree_in_dom(2) [OF assms(2)] by (intro card_mono) (auto simp: store_ok_def)
  finally show ?thesis using assms(1) by (simp add: store_ok_def fuel_def)
qed

lemma substituted: "node_type (substitute_collapse r d) \<noteq> Node_Collapse"
  by (simp add: substitute_collapse_def)

lemma all_content_map: "(\<And>d. P (g d)) \<Longrightarrow> all_content P (map_tree g t)"
  by (induction t) (auto simp: list_all_iff)

lemma dense_substitute [simp]: "dense_metrics (substitute_collapse r d) = dense_metrics d"
  by (simp add: substitute_collapse_def)

lemma all_content_dense: 
  "(\<And>d. dense_metrics (g d) = dense_metrics d) \<Longrightarrow>
   all_content (\<lambda>d. length (dense_metrics d) = k) (map_tree g t) = all_content (\<lambda>d. length (dense_metrics d) = k) t"
  by (induction t) (auto simp: list_all_iff)

end
