(* ===== verification/ProfileProperties.thy ===== *)
theory ProfileProperties
  imports ProfileStatistics ProfilePasses
begin

section \<open>The properties of the profile\<close>

text \<open>The theorems on the call tree of a location, each with an example.\<close>

definition example_profile :: profile where
  "example_profile =
     \<lparr>nodes = Map.empty, max_nodes = 0, free_memory = [1, 2, 3, 4, 5, 6, 7, 8], locations = Map.empty, first_root_node = NULL,
      has_collapse_node = False, reached_depth = 0, is_initialized = True, reinitialize = False, max_callpath_depth = 2,
      stub_exchange = NULL, task_exchange_num = 1024, number_of_metrics = 0\<rparr>"

definition example_calls :: "call list" where
  "example_calls =
     [Call 5 10 None [Call 6 12 None [] 15 None, Call 6 16 None [Call 7 17 None [] 17 None] 18 None] 20 None]"

definition example_classes :: "u32 \<Rightarrow> region_class" where
  "example_classes r = Other_Region"

text \<open>A location at its root, node 1, and one in a region below it, node 2.\<close>

definition example_root :: "nat \<Rightarrow> profile_node" where
  "example_root child =
     node_data.extend (root_data 0 0 0) \<lparr>parent = NULL, first_child = child, next_sibling = NULL\<rparr>"

definition example_region :: profile_node where
  "example_region =
     node_data.extend (initial_data Node_Regular_Region (region_key 5) 0 [] [])
       \<lparr>parent = 1, first_child = NULL, next_sibling = NULL\<rparr>"

definition example_location :: profile_location where
  "example_location = (scorep_profile_create_location_data NULL)\<lparr>root_node := 1, current_task_node := 1\<rparr>"

definition example_at_root :: profile where
  "example_at_root = example_profile\<lparr>nodes := [1 \<mapsto> example_root NULL], max_nodes := 1, free_memory := [2, 3, 4, 5, 6],
     locations := [0 \<mapsto> example_location], first_root_node := 1\<rparr>"

definition example_running :: profile where
  "example_running = example_profile\<lparr>nodes := [1 \<mapsto> example_root 2, 2 \<mapsto> example_region], max_nodes := 2,
     free_memory := [3, 4, 5, 6], first_root_node := 1,
     locations := [0 \<mapsto> example_location\<lparr>current_task_node := 2, current_depth := 1\<rparr>]\<rparr>"

lemmas example_defs = example_profile_def example_calls_def example_classes_def store_ok_def draws_def NULL_def
  enough_values_def

text \<open>C1: whatever nested calls a location makes, and whatever tree is already below its current node, the events
run to their end, the location is back at that node and at the same depth, and the store holds the tree that the operation
\<open>tree_calls\<close> on trees gives, in memory that was free, with all other nodes as they were.\<close>

theorem nested_calls_refine_tree:
  assumes "holds_tree p par nxt t" and "stands_at p l (address t) depth" and "node_type (content t) \<noteq> Node_Collapse"
    and "list_all (plain_call class_of (number_of_metrics p)) cs"
    and "list_all (\<lambda>c. unat depth + call_height c < 2 ^ 32) cs"
    and "draws (number_of_metrics p) * sum_list (map call_size cs) \<le> length (free_memory p)"
    and "tree_calls (number_of_metrics p) (max_callpath_depth p) depth cs (free_memory p, t) = (as, t')"
  shows "\<exists>p'. run_events class_of inst mig l (concat (map events_of cs)) p = Inr p' \<and>
    holds_tree p' par nxt t' \<and> stands_at p' l (address t) depth \<and> free_memory p' = as \<and>
    works_on (set (addresses t)) p p'"
proof -
  have heights: "unat depth + call_height c < 2 ^ 32" if "c \<in> set cs" for c
    using assms(5) that by (simp add: list_all_iff)
  show ?thesis
    using run_call(2) [where class_of = class_of and inst = inst and mig = mig, OF assms(1-4) heights assms(6) refl refl refl]
      assms(7) by (auto simp: ran_def evolves_def)
qed

lemma nested_calls_refine_tree_witness:
  "\<exists>p' as t'. tree_calls 0 2 0 example_calls ([2, 3, 4, 5, 6], PNode 1 (root_data 0 0 0) []) = (as, t') \<and>
    run_events example_classes 0 (0, 0) 0 (concat (map events_of example_calls)) example_at_root = Inr p' \<and>
    holds_tree p' NULL NULL t' \<and> stands_at p' 0 1 0 \<and> free_memory p' = as"
proof -
  obtain as t' where t: "tree_calls 0 2 0 example_calls ([2, 3, 4, 5, 6], PNode 1 (root_data 0 0 0) []) = (as, t')"
    by (cases "tree_calls 0 2 0 example_calls ([2, 3, 4, 5, 6], PNode 1 (root_data 0 0 0) [])")
  have "\<exists>p'. run_events example_classes 0 (0, 0) 0 (concat (map events_of example_calls)) example_at_root = Inr p' \<and>
    holds_tree p' NULL NULL t' \<and> stands_at p' 0 (address (PNode 1 (root_data 0 0 0) [])) 0 \<and> free_memory p' = as \<and>
    works_on (set (addresses (PNode 1 (root_data 0 0 0) []))) example_at_root p'"
    by (rule nested_calls_refine_tree [where depth = 0])
      (use t in \<open>simp_all add: example_defs example_at_root_def example_root_def holds_tree_def node_holds_def node_data.defs
         stands_at_def example_location_def scorep_profile_create_location_data_def root_data_def initial_data_def\<close>)
  then show ?thesis using t by auto
qed

text \<open>C2: the statistics of a call path. When a location is created and then makes nested calls, the node of every call path of
regions within the depth limit that was called has the number of its calls, the sum, the least, the greatest and the sum of
squares of their durations, and the times it was first entered and last left.\<close>

theorem call_path_statistics:
  assumes "is_initialized p" and "store_ok p" and "stub_exchange p = NULL"
    and "list_all (plain_call class_of (number_of_metrics p)) cs"
    and "list_all (\<lambda>c. call_height c < 2 ^ 32) cs"
    and "draws (number_of_metrics p) * Suc (sum_list (map call_size cs)) \<le> length (free_memory p)"
    and "length rs \<le> unat (max_callpath_depth p)" and "calls_at rs cs = c # more_calls"
  shows "\<exists>p1 p' t d. on_location_creation NULL l thread_id None p = Inr p1 \<and>
    run_events class_of inst mig l (concat (map events_of cs)) p1 = Inr p' \<and>
    holds_tree p' NULL (first_root_node p) t \<and> first_root_node p' = address t \<and>
    at_path rs t = Some d \<and>
    node_count d = of_nat (length (calls_at rs cs)) \<and>
    metric_sum (inclusive_time d) = sum_list (map duration (calls_at rs cs)) \<and>
    metric_min (inclusive_time d) = Min (set (map duration (calls_at rs cs))) \<and>
    metric_max (inclusive_time d) = Max (set (map duration (calls_at rs cs))) \<and>
    squares (inclusive_time d) = sum_list (map (\<lambda>c. duration c * duration c) (calls_at rs cs)) \<and>
    first_enter_time d = enter_time c \<and> last_exit_time d = exit_time (last (calls_at rs cs))"
proof -
  have ne: "rs \<noteq> []" using assms(8) by auto
  obtain p1 p' t where run: "on_location_creation NULL l thread_id None p = Inr p1"
    "run_events class_of inst mig l (concat (map events_of cs)) p1 = Inr p'"
    "holds_tree p' NULL (first_root_node p) t" "first_root_node p' = address t"
    "at_path rs t = visited (number_of_metrics p) (last rs) (calls_at rs cs) None"
    using profile_of_calls [OF assms(1-6), of l thread_id inst mig] ne assms(7) by metis
  let ?new = "fresh_data (number_of_metrics p) (last rs) (enter_time c)"
  let ?d = "fold (visit (number_of_metrics p)) (calls_at rs cs) ?new"
  have d: "at_path rs t = Some ?d" using run(5) assms(8) by (simp add: visited_def)
  have d0: "inclusive_time ?new = scorep_profile_init_dense_metric" "node_count ?new = 0" "first_enter_time ?new = enter_time c"
    by (simp_all add: fresh_data_def initial_data_def)
  then have zero: "intermediate_sum (inclusive_time ?new) = 0" by (simp add: scorep_profile_init_dense_metric_def)
  have calls: "calls_at rs cs \<noteq> []" using assms(8) by simp
  note stats = visits_statistics(1-3) [of "number_of_metrics p" "calls_at rs cs" ?new]
    visits_statistics(4-7) [OF zero, of "number_of_metrics p" "calls_at rs cs"]
  show ?thesis
    using run(1-4) d stats d0 calls fold_min_top [of "map duration (calls_at rs cs)"] fold_max_bot [of "map duration (calls_at rs cs)"]
    by (intro exI [of _ p1] exI [of _ p'] exI [of _ t] exI [of _ ?d]) (simp add: scorep_profile_init_dense_metric_def)
qed

lemma call_path_statistics_witness:
  "\<exists>p1 p' t d. on_location_creation NULL 0 0 None example_profile = Inr p1 \<and>
    run_events example_classes 0 (0, 0) 0 (concat (map events_of example_calls)) p1 = Inr p' \<and>
    at_path [5, 6] t = Some d \<and> node_count d = 2 \<and> metric_sum (inclusive_time d) = 5 \<and>
    metric_min (inclusive_time d) = 2 \<and> metric_max (inclusive_time d) = 3 \<and> squares (inclusive_time d) = 13 \<and>
    first_enter_time d = 12 \<and> last_exit_time d = 18"
proof -
  have calls: "calls_at [5, 6] example_calls = Call 6 12 None [] 15 None # [Call 6 16 None [Call 7 17 None [] 17 None] 18 None]"
    by (simp add: example_calls_def)
  show ?thesis
    using call_path_statistics [where p = example_profile and class_of = example_classes and rs = "[5, 6]" and l = 0 and
        thread_id = 0 and inst = 0 and mig = "(0, 0)", OF _ _ _ _ _ _ _ calls]
    unfolding calls by (auto simp: example_defs duration_def)
qed


text \<open>C25: at the end of the measurement, whatever regions and parameters are still open at a location, the loop that leaves them
ends, without an error, and after it no region is open; the tree keeps its shape.\<close>

theorem open_regions_are_left:
  assumes "upwards p (current_task_node d) as" and "locations p l = Some d" and "is_initialized p"
    and "length as \<le> max_nodes p" and "enough_values (number_of_metrics p) ms" and "\<And>x. class_of x \<noteq> Parallel_Region"
  shows "\<exists>k p' d'. exit_open_regions k class_of mig l timestamp ms p = Inr p' \<and> locations p' l = Some d' \<and>
    open_region (fuel p') (current_task_node d') p' = Inr NULL \<and> is_initialized p' \<and> skeleton p' = skeleton p"
  using exit_open_regions_end [where class_of = class_of and mig = mig and timestamp = timestamp, OF assms] assms(3)
  unfolding alike_def by blast

lemma open_regions_are_left_witness:
  "\<exists>k p' d'. exit_open_regions k example_classes (0, 0) 0 50 None example_running = Inr p' \<and> locations p' 0 = Some d' \<and>
    open_region (fuel p') (current_task_node d') p' = Inr NULL \<and> is_initialized p' \<and> skeleton p' = skeleton example_running"
  by (rule open_regions_are_left [where as = "[2, 1]" and d = "example_location\<lparr>current_task_node := 2, current_depth := 1\<rparr>"])
    (simp_all add: example_defs example_running_def example_region_def example_root_def root_data_def initial_data_def node_data.defs)

text \<open>A node that is made for an untied task is marked as tied.\<close>

theorem created_node_is_tied:
  assumes "scorep_profile_create_node l par type data timestamp context p = Inr (a, p')"
  shows "nodes p' a \<noteq> None \<and> scorep_profile_get_task_context (the (nodes p' a)) = Context_Tied"
  using assms
  by (auto simp: scorep_profile_create_node_def initial_data_def scorep_profile_get_task_context_def node_data.defs Let_def
      outcome_simps split: if_splits)

lemma created_node_is_tied_witness:
  "\<exists>p'. scorep_profile_create_node 0 1 Node_Regular_Region (region_key 7) 5 Context_Untied example_at_root = Inr (2, p') \<and>
    scorep_profile_get_task_context (the (nodes p' 2)) = Context_Tied"
proof -
  have "\<exists>p'. scorep_profile_create_node 0 1 Node_Regular_Region (region_key 7) 5 Context_Untied example_at_root = Inr (2, p')"
    by (simp add: example_defs example_at_root_def example_location_def scorep_profile_create_location_data_def
        scorep_profile_create_node_def scorep_profile_alloc_node_def scorep_profile_recycle_stub_def get_location_def get_node_def
        SCOREP_Location_AllocForProfile_def zero_node_def scorep_profile_set_task_context_def)
  then show ?thesis using created_node_is_tied by blast
qed

text \<open>C26: sorting a subtree by the time of the first enter ends, orders the children of every node by that time,
those of the same time as they were, and moves no other node.\<close>

theorem subtree_sorted_by_first_enter:
  assumes "holds_tree p par nxt t" and "max_nodes p < 2 ^ 32"
  shows "\<exists>p'. scorep_profile_sort_subtree (address t) compare_first_enter_time p = Inr p' \<and>
    holds_tree p' par nxt (ordered_tree t) \<and> works_on (set (addresses t)) p p'"
  using enter_order.sorts [OF assms] unfolding ordered_tree_sort .

definition example_leaf :: "nat \<Rightarrow> u32 \<Rightarrow> u64 \<Rightarrow> nat \<Rightarrow> profile_node" where
  "example_leaf par r timestamp nxt =
     node_data.extend (initial_data Node_Regular_Region (region_key r) timestamp [] [])
       \<lparr>parent = par, first_child = NULL, next_sibling = nxt\<rparr>"

text \<open>A root with three children.\<close>

definition example_children :: profile where
  "example_children = example_profile\<lparr>max_nodes := 4, first_root_node := 1,
     nodes := [1 \<mapsto> example_root 2, 2 \<mapsto> example_leaf 1 7 30 3, 3 \<mapsto> example_leaf 1 6 20 4, 4 \<mapsto> example_leaf 1 5 10 NULL],
     free_memory := [5, 6], has_collapse_node := True\<rparr>"

definition leaf_tree :: "nat \<Rightarrow> u32 \<Rightarrow> u64 \<Rightarrow> ptree" where
  "leaf_tree a r timestamp = PNode a (initial_data Node_Regular_Region (region_key r) timestamp [] []) []"

definition example_tree :: ptree where
  "example_tree = PNode 1 (root_data 0 0 0) [leaf_tree 2 7 30, leaf_tree 3 6 20, leaf_tree 4 5 10]"

lemma example_holds_tree: "holds_tree example_children NULL NULL example_tree"
  by (simp add: holds_tree_def example_children_def example_tree_def leaf_tree_def example_leaf_def example_root_def example_defs
      node_holds_def node_data.defs root_data_def initial_data_def)

lemma subtree_sorted_by_first_enter_witness:
  "\<exists>p'. scorep_profile_sort_subtree 1 compare_first_enter_time example_children = Inr p' \<and>
    holds_tree p' NULL NULL (PNode 1 (root_data 0 0 0) [leaf_tree 4 5 10, leaf_tree 3 6 20, leaf_tree 2 7 30])"
proof -
  have "ordered_tree example_tree = PNode 1 (root_data 0 0 0) [leaf_tree 4 5 10, leaf_tree 3 6 20, leaf_tree 2 7 30]"
    by (simp add: example_tree_def leaf_tree_def initial_data_def)
  moreover have "address example_tree = 1" by (simp add: example_tree_def)
  moreover have "max_nodes example_children < 2 ^ 32" by (simp add: example_children_def)
  ultimately show ?thesis using subtree_sorted_by_first_enter [OF example_holds_tree] by fastforce
qed

text \<open>C27: the pass over collapsed call paths goes through the trees of all roots with their links only, and turns every
collapse node, and nothing else, into one of the given region.\<close>

theorem collapse_nodes_substituted:
  assumes "holds_roots p ts" and "has_collapse_node p"
  shows "\<exists>p'. scorep_profile_process_collapse r p = Inr p' \<and> holds_roots p' (map (map_tree (substitute_collapse r)) ts) \<and>
    list_all (all_content (\<lambda>d. node_type d \<noteq> Node_Collapse)) (map (map_tree (substitute_collapse r)) ts) \<and>
    (\<forall>x. x \<notin> set (concat (map addresses ts)) \<longrightarrow> nodes p' x = nodes p x)"
proof -
  let ?g = "substitute_collapse r" and ?A = "set (concat (map addresses ts))"
  have p: "store_ok p" "is_initialized p" "trees_in (nodes p) NULL ts" "first_root_node p = first_address ts"
    "distinct (concat (map addresses ts))" "list_all (all_content (\<lambda>d. length (dense_metrics d) = number_of_metrics p)) ts"
    using assms(1) by (simp_all add: holds_roots_def)
  have "scorep_profile_process_collapse r p = Inr (map_nodes ?g ?A p)"
    using for_roots_maps [OF p(1,2,3,5,6) roots_few [OF p(1,3,5)]] assms(2) p(4) by (simp add: scorep_profile_process_collapse_def)
  moreover have "trees_in (nodes (map_nodes ?g ?A p)) NULL (map (map_tree ?g) ts)" by (rule tree_in_map_nodes(2) [OF p(3)]) simp
  then have "holds_roots (map_nodes ?g ?A p) (map (map_tree ?g) ts)"
    using p by (simp add: holds_roots_def store_ok_map_nodes comp_def list_all_iff all_content_dense)
  moreover have "list_all (all_content (\<lambda>d. node_type d \<noteq> Node_Collapse)) (map (map_tree ?g) ts)"
    by (simp add: list_all_iff all_content_map substituted)
  ultimately show ?thesis by (auto simp: map_nodes_def)
qed

lemma collapse_nodes_substituted_witness:
  "\<exists>p'. scorep_profile_process_collapse 9 example_children = Inr p' \<and>
    holds_roots p' [map_tree (substitute_collapse 9) example_tree]"
proof -
  have "holds_roots example_children [example_tree]"
    using example_holds_tree by (simp add: holds_roots_def holds_tree_def example_children_def example_tree_def)
  then show ?thesis using collapse_nodes_substituted [of example_children "[example_tree]" 9] by (auto simp: example_children_def)
qed

text \<open>Sorting with the comparison for equality, as \<^verbatim>\<open>scorep_profile_cluster_same_location\<close> does, leaves every tree
without equal siblings as it was.\<close>

lemma sorting_by_equality_sorts_nothing:
  assumes "holds_tree p par nxt t" and "max_nodes p < 2 ^ 32" and "siblings_differ t"
  shows "\<exists>p'. scorep_profile_sort_subtree (address t) scorep_profile_compare_nodes p = Inr p' \<and> holds_tree p' par nxt t"
  using key_order.sorts [OF assms(1,2)] unfolding sort_tree_same_key [OF assms(3)] by blast

text \<open>The comparison of the structure of two trees answers that they are the same whenever the children they both
have are, however many more children one of them has.\<close>

theorem compare_structure_ignores_extra_children:
  assumes "tree_in (nodes p) par nxt (PNode a d ks)" and "tree_in (nodes p) par' nxt' (PNode b e (ls @ more_kids))"
    and "\<not> data_differs d e" and "list_all2 same_prefix ks ls" and "2 * length (addresses (PNode a d ks)) \<le> k"
  shows "compare_structure k a b p = Inr True"
proof -
  have "same_prefixes ks (ls @ more_kids)" using assms(4) by (induction ks ls rule: list_all2_induct) simp_all
  then show ?thesis using compare_structure_prefix(1) [OF assms(1,2,5)] assms(3) by simp
qed

lemma compare_structure_ignores_extra_children_witness:
  "compare_structure 2 3 2 (example_children\<lparr>nodes := (nodes example_children)(2 \<mapsto> example_leaf 1 6 30 3\<lparr>first_child := 5\<rparr>,
    5 \<mapsto> example_leaf 2 8 31 NULL)\<rparr>) = Inr True"
proof (rule compare_structure_ignores_extra_children [where more_kids = "[leaf_tree 5 8 31]" and par' = 1 and nxt' = 3 and par = 1 and nxt = 4])
  show "\<not> data_differs (initial_data Node_Regular_Region (region_key 6) 20 [] []) (initial_data Node_Regular_Region (region_key 6) 30 [] [])"
    by (simp add: data_differs_def initial_data_def compare_both_entries_def)
  show "list_all2 same_prefix [] []" by simp
qed (simp_all add: example_children_def example_leaf_def node_holds_def node_data.defs example_defs leaf_tree_def initial_data_def)

end
