(* ===== verification/SystemTree.thy ===== *)
theory SystemTree
  imports Prelude
begin

section \<open>Sequences of the system tree\<close>

text \<open>
  \<^verbatim>\<open>src/measurement/scorep_system_tree_sequence.c\<close>: the tree of machines, nodes, processes and locations in a
  compressed form, in which a node stands for a number of equal copies. The file sorts and compresses the tree of a
  process, gives the locations their numbers, packs a tree into a buffer to send it, merges the trees of several processes,
  and finds the place of a process in the enumeration of all nodes, depth first.

  Nodes are values of a tree type: no pointer to a node is shared. The enumeration of the types of nodes has the
  range of \<^verbatim>\<open>unsigned int\<close>, as the compilers of the platforms choose it, so differences of types wrap around. The parent
  pointers, which only the splitting of communicators reads, and the communication itself are left out: what a process
  receives is an argument.
\<close>

subsection \<open>Nodes\<close>

definition SEQ_TYPE_SYSTEM_TREE_NODE :: u32 where "SEQ_TYPE_SYSTEM_TREE_NODE = 0"
definition SEQ_TYPE_LOCATION_GROUP :: u32 where "SEQ_TYPE_LOCATION_GROUP = 1"
definition SEQ_TYPE_LOCATION :: u32 where "SEQ_TYPE_LOCATION = 2"

record seq_data =
  seq_name :: u32
  node_id :: u64
  seq_type :: u32
  sub_type :: u64
  domains :: u32
  num_copies :: u64

datatype system_tree_seq = Seq (seq_data: seq_data) (children: "system_tree_seq list")

text \<open>An array of pointers has fewer than \<open>2 ^ 61\<close> elements, so the number of children never wraps around.\<close>

definition num_children :: "system_tree_seq \<Rightarrow> u64" where
  "num_children t = of_nat (length (children t))"

record mapping_data =
  mapping_node_id :: u64
  mapping_index :: u64

subsection \<open>Comparison\<close>

text \<open>The result of a comparison is of type \<^verbatim>\<open>int64_t\<close>. The difference of two types of nodes is an unsigned number.\<close>

function compare_system_tree_structure :: "system_tree_seq \<Rightarrow> system_tree_seq \<Rightarrow> int"
  and compare_children :: "system_tree_seq list \<Rightarrow> system_tree_seq list \<Rightarrow> int"
  and compare_system_tree_seq :: "system_tree_seq \<Rightarrow> system_tree_seq \<Rightarrow> int" where
  "compare_system_tree_structure (Seq a as) (Seq b bs) =
     (let diff = uint (seq_type a - seq_type b) in if diff \<noteq> 0 then diff
      else let diff = sint (sub_type a - sub_type b) in if diff \<noteq> 0 then diff
      else let diff = int (length as) - int (length bs) in if diff \<noteq> 0 then diff
      else compare_children as bs)"
| "compare_children (a # as) (b # bs) =
     (let diff = compare_system_tree_seq a b in if diff \<noteq> 0 then diff else compare_children as bs)"
| "compare_children [] bs = 0"
| "compare_children (a # as) [] = 0"
| "compare_system_tree_seq a b =
     (let diff = sint (num_copies (seq_data a) - num_copies (seq_data b)) in if diff \<noteq> 0 then diff
      else compare_system_tree_structure a b)"
  by pat_completeness auto
termination
  by (relation "measure (\<lambda>x. case x of Inl (a, b) \<Rightarrow> 2 * size a
        | Inr (Inl (as, bs)) \<Rightarrow> 2 * size_list size as + 1 | Inr (Inr (a, b)) \<Rightarrow> 2 * size a + 1)")
    (auto split: prod.splits)

subsection \<open>Counting\<close>

fun count_records :: "system_tree_seq \<Rightarrow> u64" where
  "count_records (Seq d cs) = 1 + sum_list (map count_records cs)"

fun count_nodes :: "system_tree_seq \<Rightarrow> u64" where
  "count_nodes (Seq d cs) = (1 + sum_list (map count_nodes cs)) * num_copies d"

fun get_depth :: "system_tree_seq \<Rightarrow> u64" where
  "get_depth (Seq d cs) = (if cs = [] then 1 else foldl (\<lambda>m c. if c > m then c else m) 0 (map get_depth cs) + 1)"

text \<open>The first node of the given level that is a system tree node.\<close>

fun get_node_at_level :: "nat \<Rightarrow> system_tree_seq \<Rightarrow> system_tree_seq option"
  and get_child_at_level :: "nat \<Rightarrow> system_tree_seq list \<Rightarrow> system_tree_seq option" where
  "get_node_at_level 0 t = (if seq_type (seq_data t) = SEQ_TYPE_SYSTEM_TREE_NODE then Some t else None)"
| "get_node_at_level (Suc level) t = get_child_at_level level (children t)"
| "get_child_at_level level [] = None"
| "get_child_at_level level (c # cs) =
     (case get_node_at_level level c of None \<Rightarrow> get_child_at_level level cs | Some n \<Rightarrow> Some n)"

text \<open>The node at a position in the enumeration, depth first, of all copies of all nodes.\<close>

fun get_node_depth_first :: "system_tree_seq \<Rightarrow> u64 \<Rightarrow> system_tree_seq option"
  and search_children :: "system_tree_seq list \<Rightarrow> u64 \<Rightarrow> system_tree_seq option" where
  "get_node_depth_first (Seq d cs) i =
     (let amount = count_nodes (Seq d cs) in
      if amount \<le> i then None
      else let i = i mod (amount div num_copies d) in
      if i = 0 then Some (Seq d cs) else search_children cs i)"
| "search_children [] i = None"
| "search_children (c # cs) i =
     (let child_size = count_nodes c in
      if child_size > i then get_node_depth_first c (i - 1) else search_children cs (i - child_size))"

subsection \<open>Buffers\<close>

definition PACK_BUFFER_FACTOR :: u64 where "PACK_BUFFER_FACTOR = 5"

definition get_buffer_num :: "u64 \<Rightarrow> u64" where
  "get_buffer_num amount = PACK_BUFFER_FACTOR * (amount + 1)"

definition put :: "u64 \<Rightarrow> u64 list \<times> nat \<Rightarrow> (u64 list \<times> nat) outcome" where
  "put v = (\<lambda>(buffer, pos). if pos < length buffer then Inr (buffer[pos := v], pos + 1) else Inl Bad_Access)"

fun put_all :: "u64 list \<Rightarrow> u64 list \<times> nat \<Rightarrow> (u64 list \<times> nat) outcome" where
  "put_all [] b = Inr b"
| "put_all (v # vs) b = and_then (put v b) (put_all vs)"

fun pack_system_tree_seq_rec :: "system_tree_seq \<Rightarrow> u64 list \<times> nat \<Rightarrow> (u64 list \<times> nat) outcome"
  and pack_children :: "system_tree_seq list \<Rightarrow> u64 list \<times> nat \<Rightarrow> (u64 list \<times> nat) outcome" where
  "pack_system_tree_seq_rec (Seq d cs) b =
     and_then (put_all [ucast (seq_type d), sub_type d, ucast (domains d), num_copies d, num_children (Seq d cs)] b)
       (pack_children cs)"
| "pack_children [] b = Inr b"
| "pack_children (c # cs) b = and_then (pack_system_tree_seq_rec c b) (pack_children cs)"

text \<open>The memory of the buffer has arbitrary contents at first.\<close>

definition pack_system_tree_seq :: "(nat \<Rightarrow> u64) \<Rightarrow> system_tree_seq \<Rightarrow> u64 list outcome" where
  "pack_system_tree_seq memory t =
     (let amount = count_records t; buffer = map memory [0..<unat (get_buffer_num amount)]
      in and_then (put amount (buffer, 0)) (\<lambda>b.
         and_then (pack_system_tree_seq_rec t b) (\<lambda>(buffer, pos). Inr buffer)))"

definition get_cell :: "u64 list \<Rightarrow> nat \<Rightarrow> u64 outcome" where
  "get_cell buffer pos = (if pos < length buffer then Inr (buffer ! pos) else Inl Bad_Access)"

text \<open>The positions in the array of nodes and in the buffer, and the next identification of a node. Every level of the
recursion takes a node of the array, so that the length of the array is fuel enough.\<close>

type_synonym unpack_state = "nat \<times> nat \<times> u64"

fun unpack_system_tree_seq_rec ::
  "nat \<Rightarrow> nat \<Rightarrow> u64 list \<Rightarrow> unpack_state \<Rightarrow> (system_tree_seq \<times> unpack_state) outcome"
  and unpack_children ::
  "nat \<Rightarrow> nat \<Rightarrow> nat \<Rightarrow> u64 list \<Rightarrow> unpack_state \<Rightarrow> (system_tree_seq list \<times> unpack_state) outcome" where
  "unpack_system_tree_seq_rec 0 amount buffer st = Inl Endless"
| "unpack_system_tree_seq_rec (Suc k) amount buffer (pos_array, pos, next_id) =
     (if pos_array \<ge> amount then Inl Bad_Access
      else and_then (get_cell buffer pos) (\<lambda>type.
           and_then (get_cell buffer (pos + 1)) (\<lambda>sub.
           and_then (get_cell buffer (pos + 2)) (\<lambda>dom.
           and_then (get_cell buffer (pos + 3)) (\<lambda>copies.
           and_then (get_cell buffer (pos + 4)) (\<lambda>number.
           and_then (unpack_children k (unat number) amount buffer (pos_array + 1, pos + 5, next_id + 1)) (\<lambda>(cs, st).
             Inr (Seq \<lparr>seq_name = 0, node_id = next_id, seq_type = ucast type, sub_type = sub, domains = ucast dom,
                       num_copies = copies\<rparr> cs, st))))))))"
| "unpack_children k 0 amount buffer st = Inr ([], st)"
| "unpack_children k (Suc n) amount buffer st =
     and_then (unpack_system_tree_seq_rec k amount buffer st) (\<lambda>(c, st).
     and_then (unpack_children k n amount buffer st) (\<lambda>(cs, st). Inr (c # cs, st)))"

text \<open>The tree, and the next identification.\<close>

definition unpack_system_tree_seq :: "u64 list \<Rightarrow> u64 \<Rightarrow> (system_tree_seq \<times> u64) outcome" where
  "unpack_system_tree_seq buffer next_node_id =
     and_then (get_cell buffer 0) (\<lambda>amount.
     and_then (unpack_system_tree_seq_rec (Suc (unat amount)) (unat amount) buffer (0, 1, next_node_id))
       (\<lambda>(t, pos_array, pos, next_id). Inr (t, next_id)))"

subsection \<open>Sorting\<close>

fun merge_sorted :: "nat \<Rightarrow> system_tree_seq list \<Rightarrow> nat \<Rightarrow> nat \<Rightarrow> nat \<Rightarrow> nat \<Rightarrow> system_tree_seq list" where
  "merge_sorted 0 array middle number index_a index_b = []"
| "merge_sorted (Suc n) array middle number index_a index_b =
     (if index_a \<ge> middle then array ! index_b # merge_sorted n array middle number index_a (index_b + 1)
      else if index_b \<ge> number then array ! index_a # merge_sorted n array middle number (index_a + 1) index_b
      else if compare_system_tree_seq (array ! index_a) (array ! index_b) > 0
      then array ! index_b # merge_sorted n array middle number index_a (index_b + 1)
      else array ! index_a # merge_sorted n array middle number (index_a + 1) index_b)"

fun internal_mergesort :: "system_tree_seq list \<Rightarrow> system_tree_seq list" where
  "internal_mergesort array =
     (let number = length array; middle = number div 2 in
      if number < 2 then array
      else merge_sorted number (internal_mergesort (take middle array) @ internal_mergesort (drop middle array))
             middle number 0 middle)"

declare internal_mergesort.simps [simp del]

fun sort_system_tree_seq :: "system_tree_seq \<Rightarrow> system_tree_seq" where
  "sort_system_tree_seq (Seq d cs) =
     (let cs = map sort_system_tree_seq cs in Seq d (if length cs > 1 then internal_mergesort cs else cs))"

subsection \<open>Compression\<close>

definition update_local_mapping :: "mapping_data list \<Rightarrow> seq_data \<Rightarrow> seq_data \<Rightarrow> mapping_data list" where
  "update_local_mapping ms destination source =
     map (\<lambda>m. if mapping_node_id m = node_id source
              then m\<lparr>mapping_node_id := node_id destination,
                     mapping_index := mapping_index m + (num_copies destination - 1)\<rparr>
              else m) ms"

definition add_copies :: "system_tree_seq \<Rightarrow> system_tree_seq \<Rightarrow> system_tree_seq" where
  "add_copies other t = Seq ((seq_data t)\<lparr>num_copies := num_copies (seq_data t) + num_copies (seq_data other)\<rparr>) (children t)"

definition map_joined :: "system_tree_seq \<Rightarrow> system_tree_seq \<Rightarrow> mapping_data list \<Rightarrow> mapping_data list" where
  "map_joined new old ms =
     (if seq_type (seq_data old) = SEQ_TYPE_LOCATION then update_local_mapping ms (seq_data new) (seq_data old) else ms)"

fun join_equal ::
  "system_tree_seq \<Rightarrow> system_tree_seq list \<Rightarrow> mapping_data list \<Rightarrow> system_tree_seq list \<times> mapping_data list" where
  "join_equal new [] ms = ([new], ms)"
| "join_equal new (old # rest) ms =
     (if compare_system_tree_structure old new = 0
      then join_equal (add_copies old new) rest (map_joined (add_copies old new) old ms)
      else let (cs, ms) = join_equal old rest ms in (new # cs, ms))"

fun join_children :: "system_tree_seq list \<Rightarrow> mapping_data list \<Rightarrow> system_tree_seq list \<times> mapping_data list" where
  "join_children (c # c' # cs) ms = join_equal c (c' # cs) ms"
| "join_children cs ms = (cs, ms)"

fun simplify_system_tree_seq :: "system_tree_seq \<Rightarrow> mapping_data list \<Rightarrow> system_tree_seq \<times> mapping_data list"
  and simplify_children :: "system_tree_seq list \<Rightarrow> mapping_data list \<Rightarrow> system_tree_seq list \<times> mapping_data list" where
  "simplify_system_tree_seq (Seq d cs) ms =
     (let (cs, ms) = simplify_children cs ms;
          (cs, ms) = join_children cs ms
      in (Seq d cs, ms))"
| "simplify_children [] ms = ([], ms)"
| "simplify_children (c # cs) ms =
     (let (c, ms) = simplify_system_tree_seq c ms; (cs, ms) = simplify_children cs ms in (c # cs, ms))"

fun find_process :: "system_tree_seq \<Rightarrow> system_tree_seq" where
  "find_process (Seq d (c # cs)) =
     (if seq_type d \<noteq> SEQ_TYPE_LOCATION_GROUP then find_process c else Seq d (c # cs))"
| "find_process (Seq d []) = Seq d []"

fun enumerate_children :: "system_tree_seq list \<Rightarrow> u64 \<Rightarrow> mapping_data list \<Rightarrow> mapping_data list" where
  "enumerate_children [] before ms = ms"
| "enumerate_children (c # cs) before ms =
     enumerate_children cs (before + num_copies (seq_data c))
       (map (\<lambda>m. if mapping_node_id m = node_id (seq_data c) then m\<lparr>mapping_index := mapping_index m + before\<rparr> else m) ms)"

definition enumerate_locations :: "mapping_data list \<Rightarrow> system_tree_seq \<Rightarrow> mapping_data list" where
  "enumerate_locations ms root = enumerate_children (children (find_process root)) 0 ms"

definition create_local_location_mappings :: "mapping_data list \<Rightarrow> u64 list" where
  "create_local_location_mappings ms = map mapping_index ms"

subsection \<open>Merging\<close>

text \<open>
  The children of a source node go into those of a destination node: first the ones with an equal structure, as further
  copies. A child that was merged this way is a null pointer in the source, and its mapping is set.
\<close>

type_synonym source_child = "system_tree_seq option \<times> mapping_data"

function match_children ::
  "system_tree_seq list \<Rightarrow> source_child list \<Rightarrow> system_tree_seq list \<times> source_child list \<times> nat" where
  "match_children (d # ds) ((Some s, m) # ss) =
     (let diff = compare_system_tree_structure d s in
      if diff = 0
      then let (ds, ss, num_add) =
                 match_children (add_copies s d # ds) ss
           in (ds, (None, \<lparr>mapping_node_id = node_id (seq_data d), mapping_index = num_copies (seq_data d)\<rparr>) # ss, num_add)
      else if diff < 0
      then let (ds, ss, num_add) = match_children ds ((Some s, m) # ss) in (d # ds, ss, num_add)
      else let (ds, ss, num_add) = match_children (d # ds) ss in (ds, (Some s, m) # ss, num_add + 1))"
| "match_children (d # ds) ((None, m) # ss) = (d # ds, (None, m) # ss, length ss + 1)"
| "match_children [] ss = ([], ss, length ss)"
| "match_children (d # ds) [] = (d # ds, [], 0)"
  by pat_completeness auto
termination
  by (relation "measure (\<lambda>(ds, ss). length ds + length ss)") auto

text \<open>
  Then the others are put between them. The code looks at the element behind the last child of the source before it
  compares the position with their number; what it finds there does not matter.
\<close>

fun insert_children ::
  "nat \<Rightarrow> system_tree_seq list \<Rightarrow> source_child list \<Rightarrow> (system_tree_seq list \<times> source_child list) outcome" where
  "insert_children 0 ds ss = Inr ([], ss)"
| "insert_children (Suc k) ds ((None, m) # ss) =
     and_then (insert_children (Suc k) ds ss) (\<lambda>(cs, ss). Inr (cs, (None, m) # ss))"
| "insert_children (Suc k) [] [] = Inl Bad_Access"
| "insert_children (Suc k) (d # ds) [] = and_then (insert_children k ds []) (\<lambda>(cs, ss). Inr (d # cs, ss))"
| "insert_children (Suc k) [] ((Some s, m) # ss) =
     and_then (insert_children k [] ss) (\<lambda>(cs, ss).
       Inr (s # cs, (Some s, \<lparr>mapping_node_id = node_id (seq_data s), mapping_index = 0\<rparr>) # ss))"
| "insert_children (Suc k) (d # ds) ((Some s, m) # ss) =
     (if compare_system_tree_structure d s < 0
      then and_then (insert_children k ds ((Some s, m) # ss)) (\<lambda>(cs, ss). Inr (d # cs, ss))
      else and_then (insert_children k (d # ds) ss) (\<lambda>(cs, ss).
             Inr (s # cs, (Some s, \<lparr>mapping_node_id = node_id (seq_data s), mapping_index = 0\<rparr>) # ss)))"

text \<open>The mappings of the children of the source, and the new destination.\<close>

definition merge_children :: "system_tree_seq \<Rightarrow> system_tree_seq \<Rightarrow> (mapping_data list \<times> system_tree_seq) outcome" where
  "merge_children destination source =
     (let (ds, ss, num_add) = match_children (children destination)
            (map (\<lambda>s. (Some s, \<lparr>mapping_node_id = 0, mapping_index = 0\<rparr>)) (children source))
      in and_then (if num_add > 0 then insert_children (num_add + length ds) ds ss else Inr (ds, ss)) (\<lambda>(cs, ss).
           Inr (map snd ss, Seq (seq_data destination) cs)))"

text \<open>The identification of a node is replaced by its position among the children.\<close>

fun child_position :: "u64 \<Rightarrow> nat \<Rightarrow> system_tree_seq list \<Rightarrow> nat option" where
  "child_position i n [] = None"
| "child_position i n (c # cs) = (if node_id (seq_data c) = i then Some n else child_position i (n + 1) cs)"

definition update_mappings :: "system_tree_seq \<Rightarrow> mapping_data list \<Rightarrow> mapping_data list" where
  "update_mappings t ms =
     map (\<lambda>m. case child_position (mapping_node_id m) 0 (children t) of None \<Rightarrow> m
              | Some j \<Rightarrow> m\<lparr>mapping_node_id := of_nat j\<rparr>) ms"

subsection \<open>The reduction at one process\<close>

text \<open>The node that \<open>get_node_at_level\<close> finds, replaced.\<close>

fun set_node_at_level :: "nat \<Rightarrow> system_tree_seq \<Rightarrow> system_tree_seq \<Rightarrow> system_tree_seq"
  and set_child_at_level :: "nat \<Rightarrow> system_tree_seq \<Rightarrow> system_tree_seq list \<Rightarrow> system_tree_seq list" where
  "set_node_at_level 0 n t = n"
| "set_node_at_level (Suc level) n t = Seq (seq_data t) (set_child_at_level level n (children t))"
| "set_child_at_level level n [] = []"
| "set_child_at_level level n (c # cs) =
     (case get_node_at_level level c of None \<Rightarrow> c # set_child_at_level level n cs
      | Some _ \<Rightarrow> set_node_at_level level n c # cs)"

definition node_or_fault :: "system_tree_seq option \<Rightarrow> system_tree_seq outcome" where
  "node_or_fault n = (case n of None \<Rightarrow> Inl Bad_Access | Some t \<Rightarrow> Inr t)"

fun receive_all ::
  "nat \<Rightarrow> u64 list list \<Rightarrow> system_tree_seq \<Rightarrow> u64 \<Rightarrow> (mapping_data list list \<times> system_tree_seq \<times> u64) outcome" where
  "receive_all level [] current next_id = Inr ([], current, next_id)"
| "receive_all level (buffer # buffers) current next_id =
     and_then (unpack_system_tree_seq buffer next_id) (\<lambda>(remote, next_id).
     and_then (node_or_fault (get_node_at_level level remote)) (\<lambda>remote_current.
     and_then (merge_children current remote_current) (\<lambda>(ms, current).
     and_then (receive_all level buffers current next_id) (\<lambda>(mss, current, next_id).
       Inr (ms # mss, current, next_id)))))"

text \<open>The mappings of the process and of up to two others, whose trees were received, and the merged tree.\<close>

definition hierarchical_reduce ::
  "u64 list list \<Rightarrow> system_tree_seq \<Rightarrow> nat \<Rightarrow> u64 \<Rightarrow> (mapping_data list list \<times> system_tree_seq \<times> u64) outcome" where
  "hierarchical_reduce received root level next_id =
     and_then (node_or_fault (get_node_at_level level root)) (\<lambda>current.
       let own = map (\<lambda>c. \<lparr>mapping_node_id = node_id (seq_data c), mapping_index = 0\<rparr>) (children current)
       in and_then (receive_all level received current next_id) (\<lambda>(mss, current, next_id).
            Inr (map (update_mappings current) (own # mss), set_node_at_level level current root, next_id)))"

subsection \<open>Places in the enumeration\<close>

fun offsets_from :: "u64 \<Rightarrow> system_tree_seq list \<Rightarrow> u64 list" where
  "offsets_from first [] = []"
| "offsets_from first (c # cs) = first # offsets_from (first + count_nodes c) cs"

text \<open>The first element is written also when there are no children.\<close>

definition initial_offsets :: "system_tree_seq \<Rightarrow> u64 \<Rightarrow> u64 list outcome" where
  "initial_offsets root parent =
     and_then (node_or_fault (get_node_depth_first root parent)) (\<lambda>n.
       if children n = [] then Inl Bad_Access else Inr (offsets_from (parent + 1) (children n)))"

definition child_offset :: "system_tree_seq \<Rightarrow> u64 list \<Rightarrow> mapping_data \<Rightarrow> u64 outcome" where
  "child_offset root offsets m =
     (let k = unat (mapping_node_id m) in
      if k \<ge> length offsets then Inl Bad_Access
      else case get_node_depth_first root (offsets ! k) of None \<Rightarrow> Inl Abort
         | Some current \<Rightarrow>
             if num_copies (seq_data current) = 0 then Inl Bad_Access
             else Inr (offsets ! k + mapping_index m * (count_nodes current div num_copies (seq_data current))))"

fun child_offsets :: "system_tree_seq \<Rightarrow> u64 list \<Rightarrow> mapping_data list \<Rightarrow> u64 list outcome" where
  "child_offsets root offsets [] = Inr []"
| "child_offsets root offsets (m # ms) =
     and_then (child_offset root offsets m) (\<lambda>v. and_then (child_offsets root offsets ms) (\<lambda>vs. Inr (v # vs)))"

text \<open>What a process answers for itself, and the offsets that it sends on; the offsets of the process with rank 0 are the initial
ones, the others receive theirs.\<close>

fun all_child_offsets :: "system_tree_seq \<Rightarrow> u64 list \<Rightarrow> mapping_data list list \<Rightarrow> u64 list list outcome" where
  "all_child_offsets root offsets [] = Inr []"
| "all_child_offsets root offsets (ms # mss) =
     and_then (child_offsets root offsets ms) (\<lambda>vs.
     and_then (all_child_offsets root offsets mss) (\<lambda>vss. Inr (vs # vss)))"

definition hierarchical_scatter ::
  "u64 list option \<Rightarrow> system_tree_seq \<Rightarrow> mapping_data list list \<Rightarrow> u64 \<Rightarrow> (u64 \<times> u64 list list) outcome" where
  "hierarchical_scatter received root mappings parent =
     and_then (case received of None \<Rightarrow> initial_offsets root parent | Some offsets \<Rightarrow> Inr offsets) (\<lambda>offsets.
     and_then (all_child_offsets root offsets (tl mappings)) (\<lambda>sent.
       case mappings of (m # _) # _ \<Rightarrow>
           if unat (mapping_node_id m) < length offsets then Inr (offsets ! unat (mapping_node_id m), sent)
           else Inl Bad_Access
       | _ \<Rightarrow> Inl Bad_Access))"

subsection \<open>Traversal and names\<close>

text \<open>The traversal calls a function for every copy of every node, with the answer it gave for the parent.\<close>

fun traverse_copies ::
  "nat \<Rightarrow> u64 \<Rightarrow> (u64 \<Rightarrow> 'p \<Rightarrow> 's \<Rightarrow> 'p \<times> 's) \<Rightarrow> ('p \<Rightarrow> 's \<Rightarrow> 's) \<Rightarrow> 'p \<Rightarrow> 's \<Rightarrow> 's" where
  "traverse_copies 0 i func descend for_root st = st"
| "traverse_copies (Suc n) i func descend for_root st =
     (let (for_children, st) = func i for_root st
      in traverse_copies n (i + 1) func descend for_root (descend for_children st))"

fun scorep_system_tree_seq_traverse_all ::
  "(system_tree_seq \<Rightarrow> u64 \<Rightarrow> 'p \<Rightarrow> 's \<Rightarrow> 'p \<times> 's) \<Rightarrow> system_tree_seq \<Rightarrow> 'p \<Rightarrow> 's \<Rightarrow> 's"
  and traverse_children ::
  "(system_tree_seq \<Rightarrow> u64 \<Rightarrow> 'p \<Rightarrow> 's \<Rightarrow> 'p \<times> 's) \<Rightarrow> system_tree_seq list \<Rightarrow> 'p \<Rightarrow> 's \<Rightarrow> 's" where
  "scorep_system_tree_seq_traverse_all func (Seq d cs) for_root st =
     traverse_copies (unat (num_copies d)) 0 (func (Seq d cs))
       (\<lambda>for_children st. traverse_children func cs for_children st) for_root st"
| "traverse_children func [] for_children st = st"
| "traverse_children func (c # cs) for_children st =
     traverse_children func cs for_children (scorep_system_tree_seq_traverse_all func c for_children st)"

end
