(* ===== verification/SystemTreeLocations.thy ===== *)
theory SystemTreeLocations
  imports SystemTree
begin

section \<open>The numbers of the locations\<close>

text \<open>
  What a compressed tree stands for; sorting and joining keep the number of nodes; and the numbers that the locations of a
  process get from it are a permutation.
\<close>

subsection \<open>The enumeration\<close>

text \<open>All copies of all nodes, depth first. The specification of counting and finding.\<close>

fun expand :: "system_tree_seq \<Rightarrow> system_tree_seq list" where
  "expand (Seq d cs) = concat (replicate (unat (num_copies d)) (Seq d cs # concat (map expand cs)))"

definition below :: "system_tree_seq \<Rightarrow> system_tree_seq list" where
  "below t = concat (map expand (children t))"

definition one_copy :: "system_tree_seq \<Rightarrow> system_tree_seq list" where
  "one_copy t = t # below t"

lemma expand_one_copy: "expand t = concat (replicate (unat (num_copies (seq_data t))) (one_copy t))"
  by (cases t) (simp add: one_copy_def below_def)

definition copy_count :: "system_tree_seq \<Rightarrow> u64" where
  "copy_count t = 1 + sum_list (map count_nodes (children t))"

lemma count_nodes_copies: "count_nodes t = copy_count t * num_copies (seq_data t)"
  by (cases t) (simp add: copy_count_def)

lemma length_concat_replicate: "length (concat (replicate n xs)) = n * length xs"
  by (induction n) simp_all

lemma nth_concat_replicate: "i < n * length xs \<Longrightarrow> concat (replicate n xs) ! i = xs ! (i mod length xs)"
proof (induction n arbitrary: i)
  case (Suc n)
  show ?case
  proof (cases "i < length xs")
    case False
    then show ?thesis using Suc.IH [of "i - length xs"] Suc.prems by (simp add: nth_append le_mod_geq)
  qed (simp add: nth_append)
qed simp

text \<open>The count is the length of the enumeration, as far as 64 bits go.\<close>

lemma sum_list_of_nat: "(\<And>x. x \<in> set xs \<Longrightarrow> f x = (of_nat (g x) :: u64)) \<Longrightarrow> sum_list (map f xs) = of_nat (sum_list (map g xs))"
  by (induction xs) simp_all

lemma count_nodes_expand: "count_nodes t = of_nat (length (expand t))"
proof (induction t)
  case (Seq d cs)
  have "sum_list (map count_nodes cs) = of_nat (sum_list (map (\<lambda>c. length (expand c)) cs))"
    by (rule sum_list_of_nat) (rule Seq.IH)
  then show ?case by (simp add: length_concat comp_def sum_list_replicate algebra_simps)
qed

lemma copy_count_one_copy: "copy_count t = of_nat (length (one_copy t))"
  by (simp add: copy_count_def one_copy_def below_def length_concat comp_def sum_list_of_nat [OF count_nodes_expand])

subsection \<open>Equal structure\<close>

lemma word_diff_zero [simp]:
  fixes a b :: "'a::len word"
  shows "uint (a - b) = 0 \<longleftrightarrow> a = b" "sint (a - b) = 0 \<longleftrightarrow> a = b"
  by (metis eq_iff_diff_eq_0 uint_0_iff) (metis eq_iff_diff_eq_0 sint_0 signed_word_eqI)

lemma compare_zero:
  "compare_system_tree_structure a b = 0 \<Longrightarrow> seq_type (seq_data a) = seq_type (seq_data b) \<and>
     sub_type (seq_data a) = sub_type (seq_data b) \<and> copy_count a = copy_count b"
  "length as = length bs \<Longrightarrow> compare_children as bs = 0 \<Longrightarrow> map count_nodes as = map count_nodes bs"
  "compare_system_tree_seq a b = 0 \<Longrightarrow> count_nodes a = count_nodes b"
  by (induction a b and as bs and a b rule: compare_system_tree_structure_compare_children_compare_system_tree_seq.induct)
    (auto simp: Let_def copy_count_def count_nodes_copies split: if_splits)

lemma compare_refl: "compare_system_tree_structure t t = 0"
proof (induction t)
  case (Seq d cs)
  have "compare_children cs cs = 0" using Seq.IH by (induction cs) (simp_all add: Let_def)
  then show ?case by simp
qed

subsection \<open>Compression keeps the number of nodes\<close>

declare compare_system_tree_seq.simps [simp del]

lemma mset_merge_sorted:
  assumes "n = (middle - a) + (number - b)" and "a \<le> middle" and "middle \<le> b" and "b \<le> number" and "number = length array"
  shows "mset (merge_sorted n array middle number a b) = mset (drop a (take middle array)) + mset (drop b array)"
  using assms
proof (induction n array middle number a b rule: merge_sorted.induct)
  case (2 n array middle number a b)
  have front: "drop a (take middle array) = array ! a # drop (Suc a) (take middle array)" if "a < middle"
    using that 2(6-) by (simp add: Cons_nth_drop_Suc [symmetric])
  have rear: "drop b array = array ! b # drop (Suc b) array" if "b < number"
    using that 2(6-) by (simp add: Cons_nth_drop_Suc)
  have n: "Suc n = (middle - a) + (number - b)" and bounds: "a \<le> middle" "middle \<le> b" "b \<le> number" "number = length array"
    using 2 by simp_all
  consider "middle \<le> a" | "\<not> middle \<le> a" "number \<le> b"
    | "\<not> middle \<le> a" "\<not> number \<le> b" "compare_system_tree_seq (array ! a) (array ! b) > 0"
    | "\<not> middle \<le> a" "\<not> number \<le> b" "\<not> compare_system_tree_seq (array ! a) (array ! b) > 0" by blast
  then show ?case
  proof cases
    case 1
    then have "b < number" "n = (middle - a) + (number - (b + 1))" using n bounds by linarith+
    then show ?thesis using 1 2(1) bounds rear by simp
  next
    case none: 2
    then have "n = (middle - (a + 1)) + (number - b)" using n bounds by linarith
    then show ?thesis using none 2(2) bounds front by simp
  next
    case 3
    then have "n = (middle - a) + (number - (b + 1))" using n bounds by linarith
    then show ?thesis using 3 2(3) bounds front rear by simp
  next
    case 4
    then have "n = (middle - (a + 1)) + (number - b)" using n bounds by linarith
    then show ?thesis using 4 2(4) bounds front rear by simp
  qed
qed simp

lemma mset_mergesort: "mset (internal_mergesort array) = mset array"
proof (induction array rule: internal_mergesort.induct)
  case (1 array)
  show ?case
  proof (cases "length array < 2")
    case False
    let ?m = "length array div 2"
    let ?l = "internal_mergesort (take ?m array)" and ?r = "internal_mergesort (drop ?m array)"
    have ih: "mset ?l = mset (take ?m array)" "mset ?r = mset (drop ?m array)"
      using 1 False by simp_all
    have len: "length ?l = ?m" "length ?r = length array - ?m"
      using ih [THEN mset_eq_length] by simp_all
    have "mset (merge_sorted (length array) (?l @ ?r) ?m (length array) 0 ?m) = mset ?l + mset ?r"
      by (subst mset_merge_sorted) (simp_all add: len)
    also have "\<dots> = mset array" unfolding ih by (simp flip: mset_append)
    finally show ?thesis using False by (subst internal_mergesort.simps) (simp add: Let_def)
  qed (subst internal_mergesort.simps, simp)
qed

lemma count_nodes_sort: "count_nodes (sort_system_tree_seq t) = count_nodes t"
proof (induction t)
  case (Seq d cs)
  let ?cs = "map sort_system_tree_seq cs"
  have "sum_list (map count_nodes (internal_mergesort ?cs)) = sum_list (map count_nodes ?cs)"
    by (metis mset_mergesort mset_map sum_mset_sum_list)
  moreover have "map (count_nodes \<circ> sort_system_tree_seq) cs = map count_nodes cs" using Seq.IH by simp
  ultimately show ?case by (auto simp: Let_def simp del: map_eq_conv)
qed

lemma add_copies_simps [simp]:
  "node_id (seq_data (add_copies s t)) = node_id (seq_data t)" "children (add_copies s t) = children t"
  "num_copies (seq_data (add_copies s t)) = num_copies (seq_data t) + num_copies (seq_data s)"
  "seq_type (seq_data (add_copies s t)) = seq_type (seq_data t)" "sub_type (seq_data (add_copies s t)) = sub_type (seq_data t)"
  "copy_count (add_copies s t) = copy_count t"
  by (simp_all add: add_copies_def copy_count_def)

lemma count_join_equal: "sum_list (map count_nodes (fst (join_equal new rest ms))) = count_nodes new + sum_list (map count_nodes rest)"
proof (induction new rest ms rule: join_equal.induct)
  case (2 new old rest ms)
  then show ?case using compare_zero(1) [of old new] by (auto simp: split_beta count_nodes_copies algebra_simps)
qed simp

lemma count_simplify:
  "count_nodes (fst (simplify_system_tree_seq t ms)) = count_nodes t"
  "map count_nodes (fst (simplify_children cs ms)) = map count_nodes cs"
proof (induction t ms and cs ms rule: simplify_system_tree_seq_simplify_children.induct)
  case (1 d cs ms)
  obtain cs' ms' where s: "simplify_children cs ms = (cs', ms')" by (cases "simplify_children cs ms")
  then have cs': "map count_nodes cs' = map count_nodes cs" using 1 by simp
  have "sum_list (map count_nodes (fst (join_children cs' ms'))) = sum_list (map count_nodes cs')"
    by (cases "(cs', ms')" rule: join_children.cases) (simp_all del: join_equal.simps add: count_join_equal)
  then show ?case using s cs' by (simp add: split_beta)
next
  case (3 c cs ms)
  then show ?case by (cases "simplify_system_tree_seq c ms") (simp add: split_beta)
qed simp

subsection \<open>The numbers of the locations of a process\<close>

text \<open>A process whose tree has one branch down to its only location group, with the locations below it, all of them single.\<close>

definition is_location :: "system_tree_seq \<Rightarrow> bool" where
  "is_location t \<longleftrightarrow> children t = [] \<and> seq_type (seq_data t) = SEQ_TYPE_LOCATION \<and> num_copies (seq_data t) = 1"

fun one_branch :: "system_tree_seq \<Rightarrow> system_tree_seq list \<Rightarrow> bool" where
  "one_branch (Seq d cs) ls \<longleftrightarrow>
     (if seq_type d = SEQ_TYPE_LOCATION_GROUP then cs = ls \<and> ls \<noteq> [] \<and> list_all is_location ls
      else case cs of [c] \<Rightarrow> one_branch c ls | _ \<Rightarrow> False)"

abbreviation id_of :: "system_tree_seq \<Rightarrow> u64" where
  "id_of t \<equiv> node_id (seq_data t)"

text \<open>The place of a location in the sorted list.\<close>

fun place_of :: "u64 \<Rightarrow> system_tree_seq list \<Rightarrow> u64" where
  "place_of i [] = 0"
| "place_of i (c # cs) = (if id_of c = i then 0 else 1 + place_of i cs)"

lemma join_equal_other:
  "mapping_node_id m \<notin> id_of ` set rest \<Longrightarrow> snd (join_equal new rest [m]) = [m]"
  by (induction rest arbitrary: new) (auto simp: split_beta map_joined_def update_local_mapping_def)

lemma join_equal_cong: "fst (join_equal new rest ms) = fst (join_equal new rest ms')"
  by (induction rest arbitrary: new ms ms') (auto simp: split_beta)

lemma join_equal_append:
  "snd (join_equal new rest (ms @ ms')) = snd (join_equal new rest ms) @ snd (join_equal new rest ms')"
  by (induction rest arbitrary: new ms ms') (auto simp: split_beta map_joined_def update_local_mapping_def)

lemma enumerate_children_append:
  "enumerate_children cs s (ms @ ms') = enumerate_children cs s ms @ enumerate_children cs s ms'"
  by (induction cs s ms arbitrary: ms' rule: enumerate_children.induct) simp_all

lemma enumerate_other: "mapping_node_id m \<notin> id_of ` set cs \<Longrightarrow> enumerate_children cs s [m] = [m]"
  by (induction cs s "[m]" rule: enumerate_children.induct) auto

lemma join_equal_ids: "id_of ` set (fst (join_equal new rest ms)) \<subseteq> insert (id_of new) (id_of ` set rest)"
proof (induction rest arbitrary: new ms)
  case (Cons old rest)
  show ?case
  proof (cases "compare_system_tree_structure old new = 0")
    case True
    then show ?thesis using Cons.IH [of "add_copies old new" "map_joined (add_copies old new) old ms"] by auto
  next
    case False
    then show ?thesis using Cons.IH [of old ms] by (auto simp: split_beta)
  qed
qed simp

lemma map_joined_ids:
  "mapping_node_id ` set (map_joined new old ms) \<subseteq> insert (id_of new) (mapping_node_id ` set ms)"
  by (auto simp: map_joined_def update_local_mapping_def)

lemma join_equal_mapping_ids:
  "mapping_node_id ` set (snd (join_equal new rest ms)) \<subseteq> insert (id_of new) (id_of ` set rest) \<union> mapping_node_id ` set ms"
proof (induction rest arbitrary: new ms)
  case (Cons old rest)
  show ?case
  proof (cases "compare_system_tree_structure old new = 0")
    case True
    then show ?thesis
      using Cons.IH [of "add_copies old new" "map_joined (add_copies old new) old ms"]
        map_joined_ids [of "add_copies old new" old ms] by auto
  next
    case False
    then show ?thesis using Cons.IH [of old ms] by (auto simp: split_beta)
  qed
qed auto

text \<open>Joining equal neighbours and then counting the copies in front gives every location its place.\<close>

definition numbered :: "system_tree_seq \<Rightarrow> system_tree_seq list \<Rightarrow> u64 \<Rightarrow> mapping_data list \<Rightarrow> mapping_data list" where
  "numbered new rest s ms = (let (cs, ms) = join_equal new rest ms in enumerate_children cs s ms)"

lemma numbered_append: "numbered new rest s (ms @ ms') = numbered new rest s ms @ numbered new rest s ms'"
  using join_equal_cong [of new rest "ms @ ms'" ms] join_equal_cong [of new rest "ms @ ms'" ms']
  by (simp add: numbered_def split_beta join_equal_append enumerate_children_append)

lemma numbered_place:
  assumes "list_all is_location rest" and "distinct (map id_of (new # rest))"
  shows "map mapping_index (numbered new rest s [m]) =
    [mapping_index m + (if mapping_node_id m = id_of new then s
       else if mapping_node_id m \<in> id_of ` set rest then s + num_copies (seq_data new) + place_of (mapping_node_id m) rest
       else 0)]"
  using assms
proof (induction rest arbitrary: new s m)
  case Nil
  then show ?case by (simp add: numbered_def)
next
  case (Cons old rest)
  let ?m = "if mapping_node_id m = id_of old
    then m\<lparr>mapping_node_id := id_of new, mapping_index := mapping_index m + num_copies (seq_data new)\<rparr> else m"
  show ?case
  proof (cases "compare_system_tree_structure old new = 0")
    case True
    have old: "seq_type (seq_data old) = SEQ_TYPE_LOCATION" "num_copies (seq_data old) = 1"
      using Cons.prems by (simp_all add: is_location_def)
    have "numbered new (old # rest) s [m] = numbered (add_copies old new) rest s [?m]"
      using True old by (simp add: numbered_def map_joined_def update_local_mapping_def)
    then show ?thesis using Cons.IH [of "add_copies old new" s ?m] Cons.prems old by (auto simp: algebra_simps image_iff)
  next
    case False
    have one: "num_copies (seq_data old) = 1" using Cons.prems by (simp add: is_location_def)
    obtain cs ms where j: "join_equal old rest [m] = (cs, ms)" by (cases "join_equal old rest [m]")
    have ids: "id_of ` set cs \<subseteq> insert (id_of old) (id_of ` set rest)" using join_equal_ids [of old rest "[m]"] j by simp
    have num: "numbered new (old # rest) s [m] =
      enumerate_children cs (s + num_copies (seq_data new))
        (map (\<lambda>m. if mapping_node_id m = id_of new then m\<lparr>mapping_index := mapping_index m + s\<rparr> else m) ms)"
      using False j by (simp add: numbered_def split_beta)
    show ?thesis
    proof (cases "mapping_node_id m = id_of new")
      case new: True
      then have "ms = [m]" using join_equal_other [of m rest old] j Cons.prems by (auto simp: image_iff)
      moreover have "mapping_node_id (m\<lparr>mapping_index := mapping_index m + s\<rparr>) \<notin> id_of ` set cs"
        using new ids Cons.prems by auto
      ultimately show ?thesis using new unfolding num by (simp add: enumerate_other)
    next
      case other: False
      have "id_of new \<notin> mapping_node_id ` set ms"
        using join_equal_mapping_ids [of old rest "[m]"] j other Cons.prems by auto
      then have "map (\<lambda>m. if mapping_node_id m = id_of new then m\<lparr>mapping_index := mapping_index m + s\<rparr> else m) ms = ms"
        by (intro map_idI) (metis image_eqI)
      then have "numbered new (old # rest) s [m] = numbered old rest (s + num_copies (seq_data new)) [m]"
        unfolding num by (simp add: numbered_def j)
      then show ?thesis using Cons.IH [of old "s + num_copies (seq_data new)" m] Cons.prems other one by auto
    qed
  qed
qed

lemma numbered_Nil: "numbered new rest s [] = []"
proof -
  have "snd (join_equal new rest []) = []"
    by (induction rest arbitrary: new) (auto simp: split_beta map_joined_def update_local_mapping_def)
  moreover have "enumerate_children cs s [] = []" for cs by (induction cs arbitrary: s) simp_all
  ultimately show ?thesis by (simp add: numbered_def split_beta)
qed

lemma numbered_places:
  assumes "list_all is_location (x # xs)" and "distinct (map id_of (x # xs))"
    and "\<forall>m \<in> set ms. mapping_index m = 0 \<and> mapping_node_id m \<in> id_of ` set (x # xs)"
  shows "map mapping_index (numbered x xs 0 ms) = map (\<lambda>m. place_of (mapping_node_id m) (x # xs)) ms"
  using assms(3)
proof (induction ms)
  case (Cons m ms)
  have "map mapping_index (numbered x xs 0 [m]) = [place_of (mapping_node_id m) (x # xs)]"
    using numbered_place [of xs x 0 m] assms(1,2) Cons.prems by (auto simp: is_location_def)
  then show ?case using Cons numbered_append [of x xs 0 "[m]" ms] by simp
qed (simp add: numbered_Nil)

text \<open>The steps that a process takes before anything is sent.\<close>

definition local_location_numbers :: "system_tree_seq \<Rightarrow> mapping_data list \<Rightarrow> u64 list" where
  "local_location_numbers root ms =
     (let (root, ms) = simplify_system_tree_seq (sort_system_tree_seq root) ms
      in create_local_location_mappings (enumerate_locations ms root))"

lemma sort_locations: "list_all is_location ls \<Longrightarrow> map sort_system_tree_seq ls = ls"
proof (induction ls)
  case (Cons l ls)
  then show ?case by (cases l) (simp add: is_location_def Let_def)
qed simp

lemma simplify_locations: "list_all is_location ls \<Longrightarrow> simplify_children ls ms = (ls, ms)"
proof (induction ls)
  case (Cons l ls)
  then show ?case by (cases l) (simp add: is_location_def Let_def)
qed simp

lemma join_children_Cons: "join_children (x # xs) ms = join_equal x xs ms"
  by (cases xs) simp_all

lemma join_equal_ne: "fst (join_equal new rest ms) \<noteq> []"
  by (induction rest arbitrary: new ms) (auto simp: split_beta)

lemma one_branch_numbered:
  assumes "one_branch t ls"
  shows "\<exists>x xs. mset (x # xs) = mset ls \<and> map mapping_index (numbered x xs 0 ms) = local_location_numbers t ms"
  using assms
proof (induction t ls rule: one_branch.induct)
  case (1 d cs ls)
  show ?case
  proof (cases "seq_type d = SEQ_TYPE_LOCATION_GROUP")
    case True
    then have ls: "cs = ls" "ls \<noteq> []" "list_all is_location ls" using 1 by simp_all
    let ?sl = "if length ls > 1 then internal_mergesort ls else ls"
    have sorted: "sort_system_tree_seq (Seq d cs) = Seq d ?sl" using ls by (simp add: sort_locations Let_def)
    have m: "mset ?sl = mset ls" by (simp add: mset_mergesort)
    then have sl: "list_all is_location ?sl" "?sl \<noteq> []" using ls mset_eq_setD [OF m] by (auto simp: list_all_iff)
    then obtain x xs where x: "?sl = x # xs" by (cases ?sl) simp_all
    obtain js ms' where j: "join_equal x xs ms = (js, ms')" by (cases "join_equal x xs ms")
    have ne: "js \<noteq> []" using join_equal_ne [of x xs ms] j by simp
    have "simplify_system_tree_seq (Seq d (x # xs)) ms = (Seq d js, ms')"
      using simplify_locations [OF sl(1), of ms] j unfolding x by (simp add: join_children_Cons)
    moreover have "find_process (Seq d js) = Seq d js" using ne True by (cases js) simp_all
    ultimately have "local_location_numbers (Seq d cs) ms = map mapping_index (numbered x xs 0 ms)"
      unfolding local_location_numbers_def sorted x
      by (simp add: create_local_location_mappings_def enumerate_locations_def numbered_def j)
    then show ?thesis using m x by metis
  next
    case False
    then obtain c where c: "cs = [c]" "one_branch c ls" using "1.prems" by (auto split: list.splits)
    obtain c' ms' where s: "simplify_system_tree_seq (sort_system_tree_seq c) ms = (c', ms')"
      by (cases "simplify_system_tree_seq (sort_system_tree_seq c) ms")
    have "local_location_numbers (Seq d cs) ms = local_location_numbers c ms"
      using c s False by (simp add: local_location_numbers_def Let_def enumerate_locations_def)
    then show ?thesis using "1.IH" [OF False c(1) refl c(2)] by simp
  qed
qed

lemma place_of_nth: "distinct (map id_of xs) \<Longrightarrow> map (\<lambda>x. place_of (id_of x) xs) xs = map of_nat [0..<length xs]"
proof (induction xs)
  case (Cons x xs)
  have "map (\<lambda>y. place_of (id_of y) (x # xs)) xs = map (\<lambda>y. 1 + place_of (id_of y) xs) xs"
    using Cons.prems by (auto intro!: map_cong)
  also have "\<dots> = map ((+) 1) (map (\<lambda>y. place_of (id_of y) xs) xs)" by simp
  also have "\<dots> = map (\<lambda>i. of_nat (Suc i)) [0..<length xs]" using Cons by simp
  finally show ?case by (simp add: map_upt_Suc del: upt_Suc)
qed simp

text \<open>C17: the numbers that a process gives its locations. Whatever the order and the types of the locations, after sorting and
joining equal ones each location has a number of its own, and the numbers are those from 0 on without a gap.\<close>

theorem locations_numbered:
  assumes "one_branch t ls" and "distinct (map id_of ls)" and "length ls < 2 ^ 64"
  shows "mset (map unat (local_location_numbers t
      (map (\<lambda>l. \<lparr>mapping_node_id = id_of l, mapping_index = 0\<rparr>) ls))) = mset [0..<length ls]"
proof -
  let ?ms = "map (\<lambda>l. \<lparr>mapping_node_id = id_of l, mapping_index = 0\<rparr>) ls"
  obtain x xs where x: "mset (x # xs) = mset ls" "local_location_numbers t ?ms = map mapping_index (numbered x xs 0 ?ms)"
    using one_branch_numbered [OF assms(1)] by metis
  have locs: "list_all is_location ls" using assms(1) by (induction t ls rule: one_branch.induct) (auto split: if_splits list.splits)
  have set: "set (x # xs) = set ls" using mset_eq_setD [OF x(1)] .
  have "mset (map id_of (x # xs)) = mset (map id_of ls)" using x(1) by (metis mset_map)
  then have dist: "distinct (map id_of (x # xs))" using assms(2) mset_eq_imp_distinct_iff by blast
  have "map mapping_index (numbered x xs 0 ?ms) = map (\<lambda>m. place_of (mapping_node_id m) (x # xs)) ?ms"
    by (rule numbered_places [OF _ dist]) (use locs set in \<open>auto simp: list_all_iff\<close>)
  then have "mset (map unat (local_location_numbers t ?ms)) = image_mset (\<lambda>l. unat (place_of (id_of l) (x # xs))) (mset ls)"
    unfolding x(2) by (simp add: comp_def del: place_of.simps)
  also have "\<dots> = mset (map unat (map (\<lambda>l. place_of (id_of l) (x # xs)) (x # xs)))"
    unfolding x(1) [symmetric] by (simp add: comp_def del: place_of.simps)
  also have "\<dots> = mset (map (\<lambda>i. unat (of_nat i :: u64)) [0..<length (x # xs)])"
    unfolding place_of_nth [OF dist] by (simp only: map_map comp_def)
  also have "map (\<lambda>i. unat (of_nat i :: u64)) [0..<length (x # xs)] = [0..<length ls]"
    unfolding mset_eq_length [OF x(1)] using assms(3) by (intro map_idI) (simp add: unat_of_nat)
  finally show ?thesis .
qed

definition sample_data :: "u32 \<Rightarrow> u64 \<Rightarrow> u64 \<Rightarrow> u64 \<Rightarrow> seq_data" where
  "sample_data type sub i copies =
     \<lparr>seq_name = 0, node_id = i, seq_type = type, sub_type = sub, domains = 0, num_copies = copies\<rparr>"

lemmas sample_simps = sample_data_def SEQ_TYPE_SYSTEM_TREE_NODE_def SEQ_TYPE_LOCATION_GROUP_def SEQ_TYPE_LOCATION_def

definition sample_location :: "u64 \<Rightarrow> u64 \<Rightarrow> system_tree_seq" where
  "sample_location sub i = Seq (sample_data SEQ_TYPE_LOCATION sub i 1) []"

text \<open>A host with one process that has two threads of a kind and a device between them.\<close>

definition sample_process :: system_tree_seq where
  "sample_process =
     Seq (sample_data SEQ_TYPE_SYSTEM_TREE_NODE 5 0 1)
       [Seq (sample_data SEQ_TYPE_LOCATION_GROUP 0 1 1) [sample_location 0 2, sample_location 1 3, sample_location 0 4]]"

lemma locations_numbered_witness:
  "mset (map unat (local_location_numbers sample_process
     [\<lparr>mapping_node_id = 2, mapping_index = 0\<rparr>, \<lparr>mapping_node_id = 3, mapping_index = 0\<rparr>,
      \<lparr>mapping_node_id = 4, mapping_index = 0\<rparr>])) = {#0, 1, 2#}"
  using locations_numbered [of sample_process "[sample_location 0 2, sample_location 1 3, sample_location 0 4]"]
  by (simp add: sample_process_def sample_location_def is_location_def sample_simps upt_rec)

end
