(* ===== verification/SystemTreeBuffers.thy ===== *)
theory SystemTreeBuffers
  imports SystemTreeLocations
begin

section \<open>Sending a system tree\<close>

text \<open>A tree that is packed into a buffer and unpacked by another process is the same but for names and identifications.\<close>

fun nodes_in :: "system_tree_seq \<Rightarrow> nat" where
  "nodes_in (Seq d cs) = Suc (sum_list (map nodes_in cs))"

fun cells_of :: "system_tree_seq \<Rightarrow> u64 list" where
  "cells_of (Seq d cs) =
     [ucast (seq_type d), sub_type d, ucast (domains d), num_copies d, of_nat (length cs)] @ concat (map cells_of cs)"

text \<open>What the receiver gets: no names, and identifications in the order of the buffer.\<close>

fun received :: "u64 \<Rightarrow> system_tree_seq \<Rightarrow> system_tree_seq"
  and received_children :: "u64 \<Rightarrow> system_tree_seq list \<Rightarrow> system_tree_seq list" where
  "received i (Seq d cs) = Seq (d\<lparr>seq_name := 0, node_id := i\<rparr>) (received_children (i + 1) cs)"
| "received_children i [] = []"
| "received_children i (c # cs) = received i c # received_children (i + of_nat (nodes_in c)) cs"

lemma count_records_nodes: "count_records t = of_nat (nodes_in t)"
proof (induction t)
  case (Seq d cs)
  have "sum_list (map count_records cs) = of_nat (sum_list (map nodes_in cs))"
    by (rule sum_list_of_nat) (rule Seq.IH)
  then show ?case by simp
qed

lemma length_cells: "length (cells_of t) = 5 * nodes_in t"
proof (induction t)
  case (Seq d cs)
  have "sum_list (map (\<lambda>c. length (cells_of c)) cs) = 5 * sum_list (map nodes_in cs)" using Seq.IH by (induction cs) auto
  then show ?case by (simp add: length_concat comp_def)
qed

lemma put_all_run:
  "length pre = pos \<Longrightarrow> length vs \<le> length post \<Longrightarrow>
   put_all vs (pre @ post, pos) = Inr (pre @ vs @ drop (length vs) post, pos + length vs)"
proof (induction vs arbitrary: pre post pos)
  case (Cons v vs)
  then obtain x post' where post: "post = x # post'" by (cases post) auto
  then show ?case using Cons.IH [of "pre @ [v]" "pos + 1" post'] Cons.prems by (simp add: put_def list_update_append)
qed simp

definition packs :: "(u64 list \<times> nat \<Rightarrow> (u64 list \<times> nat) outcome) \<Rightarrow> u64 list \<Rightarrow> bool" where
  "packs f vs \<longleftrightarrow>
     (\<forall>pre post. length vs \<le> length post \<longrightarrow>
        f (pre @ post, length pre) = Inr (pre @ vs @ drop (length vs) post, length pre + length vs))"

lemma packsD:
  "packs f vs \<Longrightarrow> length vs \<le> length post \<Longrightarrow> pos = length pre \<Longrightarrow>
   f (pre @ post, pos) = Inr (pre @ vs @ drop (length vs) post, pos + length vs)"
  by (simp add: packs_def)

lemma packs_then:
  assumes "packs f vs" and "packs g ws"
  shows "packs (\<lambda>b. and_then (f b) g) (vs @ ws)"
  unfolding packs_def
proof (intro allI impI)
  fix pre post :: "u64 list"
  assume len: "length (vs @ ws) \<le> length post"
  then have "f (pre @ post, length pre) = Inr (pre @ vs @ drop (length vs) post, length pre + length vs)"
    using assms(1) by (simp add: packs_def)
  moreover have "g ((pre @ vs) @ drop (length vs) post, length (pre @ vs)) =
      Inr ((pre @ vs) @ ws @ drop (length ws) (drop (length vs) post), length (pre @ vs) + length ws)"
    using len by (intro packsD [OF assms(2)]) simp_all
  ultimately show "and_then (f (pre @ post, length pre)) g =
      Inr (pre @ (vs @ ws) @ drop (length (vs @ ws)) post, length pre + length (vs @ ws))"
    by (simp add: add.commute)
qed

lemma packs_put_all: "packs (put_all vs) vs"
  by (simp add: packs_def put_all_run)

lemma packs_children: "(\<And>c. c \<in> set cs \<Longrightarrow> packs (pack_system_tree_seq_rec c) (cells_of c)) \<Longrightarrow>
   packs (pack_children cs) (concat (map cells_of cs))"
proof (induction cs)
  case (Cons c cs)
  have "packs (\<lambda>b. and_then (pack_system_tree_seq_rec c b) (pack_children cs)) (cells_of c @ concat (map cells_of cs))"
    using Cons by (intro packs_then) simp_all
  then show ?case by simp
qed (simp add: packs_def)

lemma packs_tree: "packs (pack_system_tree_seq_rec t) (cells_of t)"
proof (induction t)
  case (Seq d cs)
  have "packs (\<lambda>b. and_then
      (put_all [ucast (seq_type d), sub_type d, ucast (domains d), num_copies d, num_children (Seq d cs)] b) (pack_children cs))
      ([ucast (seq_type d), sub_type d, ucast (domains d), num_copies d, num_children (Seq d cs)] @ concat (map cells_of cs))"
    by (intro packs_then packs_put_all packs_children Seq.IH)
  then show ?case by (simp add: num_children_def del: put_all.simps)
qed

text \<open>The buffer is long enough: the last four cells are never written and keep what was in the memory.\<close>

lemma pack_result:
  assumes "5 * nodes_in t + 5 < 2 ^ 64"
  shows "pack_system_tree_seq memory t =
    Inr (of_nat (nodes_in t) # cells_of t @ map memory [5 * nodes_in t + 1..<5 * nodes_in t + 5])"
proof -
  let ?number = "get_buffer_num (count_records t)" let ?post = "map memory [1..<5 * nodes_in t + 5]"
  have "?number = of_nat (5 * nodes_in t + 5)"
    by (simp add: get_buffer_num_def PACK_BUFFER_FACTOR_def count_records_nodes)
  then have number: "unat ?number = 5 * nodes_in t + 5" using assms by (simp only: unat_of_nat) simp
  have b: "map memory [0..<unat ?number] = memory 0 # ?post"
    unfolding number using upt_conv_Cons [of 0 "5 * nodes_in t + 5"] by simp
  have rest: "drop (5 * nodes_in t) ?post = map memory [5 * nodes_in t + 1..<5 * nodes_in t + 5]"
    by (simp add: drop_map)
  have "pack_system_tree_seq_rec t ([of_nat (nodes_in t)] @ ?post, length [of_nat (nodes_in t) :: u64]) =
    Inr ([of_nat (nodes_in t)] @ cells_of t @ drop (length (cells_of t)) ?post, 1 + length (cells_of t))"
    using length_cells [of t] by (subst packsD [OF packs_tree]) simp_all
  then have "pack_system_tree_seq_rec t (of_nat (nodes_in t) # ?post, 1) =
    Inr (of_nat (nodes_in t) # cells_of t @ map memory [5 * nodes_in t + 1..<5 * nodes_in t + 5], 1 + length (cells_of t))"
    unfolding length_cells rest by simp
  moreover have "put (count_records t) (memory 0 # ?post, 0) = Inr (of_nat (nodes_in t) # ?post, 1)"
    by (simp add: put_def count_records_nodes)
  ultimately show ?thesis unfolding pack_system_tree_seq_def Let_def b by simp
qed

text \<open>Unpacking reads exactly the cells of the tree.\<close>

definition cells_at :: "u64 list \<Rightarrow> nat \<Rightarrow> u64 list \<Rightarrow> bool" where
  "cells_at buffer pos vs \<longleftrightarrow> (\<exists>pre post. buffer = pre @ vs @ post \<and> length pre = pos)"

lemma cells_at_appendD:
  assumes "cells_at buffer pos (vs @ ws)"
  shows "cells_at buffer pos vs" "cells_at buffer (pos + length vs) ws"
proof -
  obtain pre post where b: "buffer = pre @ (vs @ ws) @ post" "length pre = pos" using assms unfolding cells_at_def by blast
  show "cells_at buffer pos vs" unfolding cells_at_def
    by (rule exI [of _ pre], rule exI [of _ "ws @ post"]) (simp add: b)
  show "cells_at buffer (pos + length vs) ws" unfolding cells_at_def
    by (rule exI [of _ "pre @ vs"], rule exI [of _ post]) (simp add: b)
qed

lemma cells_at_ConsD:
  assumes "cells_at buffer pos (v # vs)"
  shows "get_cell buffer pos = Inr v \<and> cells_at buffer (pos + 1) vs"
proof -
  have "cells_at buffer pos ([v] @ vs)" using assms by simp
  from cells_at_appendD(2) [OF this] have "cells_at buffer (pos + 1) vs" by simp
  moreover obtain pre post where "buffer = pre @ (v # vs) @ post" "length pre = pos" using assms unfolding cells_at_def by blast
  then have "get_cell buffer pos = Inr v" by (auto simp: get_cell_def)
  ultimately show ?thesis by blast
qed

lemma ucast_u32_u64 [simp]: "ucast (ucast (x :: u32) :: u64) = x"
  by (rule ucast_down_ucast_id) (simp add: is_down)

lemma nodes_in_pos: "0 < nodes_in t"
  by (cases t) simp

lemma length_le_nodes: "length cs \<le> sum_list (map nodes_in cs)"
proof (induction cs)
  case (Cons c cs)
  then show ?case using nodes_in_pos [of c] by simp
qed simp

lemma unpack_run:
  assumes "number < 2 ^ 64"
  shows "cells_at buffer pos (cells_of t) \<Longrightarrow> nodes_in t < k \<Longrightarrow> pos_array + nodes_in t \<le> number \<Longrightarrow>
    unpack_system_tree_seq_rec k number buffer (pos_array, pos, i) =
      Inr (received i t, pos_array + nodes_in t, pos + length (cells_of t), i + of_nat (nodes_in t))"
proof (induction t arbitrary: pos pos_array i k)
  case (Seq d cs)
  obtain k' where k: "k = Suc k'" using Seq.prems(2) by (cases k) simp_all
  have kids: "unpack_children k' (length cs') number buffer (pos_array, pos, i) =
      Inr (received_children i cs', pos_array + sum_list (map nodes_in cs'), pos + length (concat (map cells_of cs')),
           i + of_nat (sum_list (map nodes_in cs')))"
    if "set cs' \<subseteq> set cs" "cells_at buffer pos (concat (map cells_of cs'))" "sum_list (map nodes_in cs') < k'"
      "pos_array + sum_list (map nodes_in cs') \<le> number" for cs' pos pos_array i
    using that
  proof (induction cs' arbitrary: pos pos_array i)
    case (Cons c cs')
    have "unpack_system_tree_seq_rec k' number buffer (pos_array, pos, i) =
        Inr (received i c, pos_array + nodes_in c, pos + length (cells_of c), i + of_nat (nodes_in c))"
      using Cons.prems cells_at_appendD by (intro Seq.IH) fastforce+
    then show ?case
      using Cons.IH [of "pos + length (cells_of c)" "pos_array + nodes_in c" "i + of_nat (nodes_in c)"] Cons.prems
        cells_at_appendD [of buffer pos "cells_of c" "concat (map cells_of cs')"]
      by (simp add: algebra_simps)
  qed simp
  have len: "unat (of_nat (length cs) :: u64) = length cs"
    using Seq.prems(3) length_le_nodes [of cs] assms by (simp add: unat_of_nat)
  have "cells_at buffer (pos + 5) (concat (map cells_of cs))" "get_cell buffer pos = Inr (ucast (seq_type d))"
    "get_cell buffer (pos + 1) = Inr (sub_type d)" "get_cell buffer (pos + 2) = Inr (ucast (domains d))"
    "get_cell buffer (pos + 3) = Inr (num_copies d)" "get_cell buffer (pos + 4) = Inr (of_nat (length cs))"
    using Seq.prems(1) by (auto simp: eval_nat_numeral dest!: cells_at_ConsD)
  then show ?case
    using kids [of cs "pos + 5" "pos_array + 1" "i + 1"] Seq.prems k len
    by (cases d) (simp add: algebra_simps)
qed

text \<open>C19: sending a tree of \<open>n\<close> nodes. Packing it takes a buffer of \<open>5 * n + 5\<close> cells and writes the number of nodes and five
cells for each node, nothing else: the last four cells keep what was in the memory before. Unpacking the buffer, whatever is in those
cells, reads only from it and gives the same tree in types, domains, numbers of copies and structure; the names are lost, and the
identifications are numbered on in the order of the buffer.\<close>

theorem pack_unpack_roundtrip:
  assumes "8 * (5 * nodes_in t + 5) < 2 ^ 64"
  shows "pack_system_tree_seq memory t =
      Inr (of_nat (nodes_in t) # cells_of t @ map memory [5 * nodes_in t + 1..<5 * nodes_in t + 5]) \<and>
    length (cells_of t) = 5 * nodes_in t \<and>
    unpack_system_tree_seq (of_nat (nodes_in t) # cells_of t @ map memory [5 * nodes_in t + 1..<5 * nodes_in t + 5]) i =
      Inr (received i t, i + of_nat (nodes_in t))"
proof (intro conjI)
  let ?rest = "map memory [5 * nodes_in t + 1..<5 * nodes_in t + 5]"
  show "pack_system_tree_seq memory t = Inr (of_nat (nodes_in t) # cells_of t @ ?rest)"
    using assms by (intro pack_result) simp
  show "length (cells_of t) = 5 * nodes_in t" by (rule length_cells)
  have n: "unat (of_nat (nodes_in t) :: u64) = nodes_in t" using assms by (simp add: unat_of_nat)
  have cells: "cells_at (of_nat (nodes_in t) # cells_of t @ ?rest) 1 (cells_of t)"
    unfolding cells_at_def by (intro exI [of _ "[of_nat (nodes_in t)]"] exI [of _ ?rest]) simp
  have "unpack_system_tree_seq_rec (Suc (nodes_in t)) (nodes_in t) (of_nat (nodes_in t) # cells_of t @ ?rest) (0, 1, i) =
      Inr (received i t, 0 + nodes_in t, 1 + length (cells_of t), i + of_nat (nodes_in t))"
    by (rule unpack_run) (use assms cells in simp_all)
  then show "unpack_system_tree_seq (of_nat (nodes_in t) # cells_of t @ ?rest) i = Inr (received i t, i + of_nat (nodes_in t))"
    using n by (simp add: unpack_system_tree_seq_def get_cell_def del: unpack_system_tree_seq_rec.simps)
qed

lemma pack_unpack_roundtrip_witness:
  "pack_system_tree_seq (\<lambda>i. 0) sample_process = Inr (5 # cells_of sample_process @ [0, 0, 0, 0]) \<and>
    unpack_system_tree_seq (5 # cells_of sample_process @ [0, 0, 0, 0]) 7 = Inr (received 7 sample_process, 12)"
proof -
  have n: "nodes_in sample_process = 5" by (simp add: sample_process_def sample_location_def)
  have rest: "map (\<lambda>i. 0 :: u64) [26..<30] = [0, 0, 0, 0]" by (simp add: upt_rec)
  show ?thesis using pack_unpack_roundtrip [of sample_process "\<lambda>i. 0" 7] unfolding n by (simp add: rest)
qed

end
