(* ===== verification/SystemTreePlaces.thy ===== *)
theory SystemTreePlaces
  imports SystemTreeLocations
begin

section \<open>Places in the enumeration\<close>

text \<open>
  The traversal, the search for a node by its place, and the offsets by which the processes learn their places, all against
  the enumeration \<open>expand\<close>.
\<close>

subsection \<open>Traversal\<close>

lemma traverse_expand:
  assumes "\<And>n j st. func n j () st = ((), f n st)"
  shows "scorep_system_tree_seq_traverse_all func t () st = fold f (expand t) st"
proof (induction t arbitrary: st)
  case (Seq d cs)
  have kids: "traverse_children func cs' () st = fold f (concat (map expand cs')) st" if "set cs' \<subseteq> set cs" for cs' st
    using that by (induction cs' arbitrary: st) (simp_all add: Seq.IH)
  have "traverse_copies n i (func (Seq d cs)) (\<lambda>p st. traverse_children func cs p st) () st =
      fold f (concat (replicate n (Seq d cs # concat (map expand cs)))) st" for n i st
    by (induction n arbitrary: i st) (simp_all add: assms kids)
  then show ?case by simp
qed

subsection \<open>Search\<close>

lemma of_nat_eq: "unat (w :: u64) = n \<Longrightarrow> w = of_nat n"
  by auto

lemma last_of_copies: "n \<noteq> 0 \<Longrightarrow> xs \<noteq> [] \<Longrightarrow> last (concat (replicate n xs)) = last xs"
proof (induction n)
  case (Suc n)
  then show ?case by (cases n) simp_all
qed simp

lemma expand_ne: "expand t \<noteq> [] \<longleftrightarrow> num_copies (seq_data t) \<noteq> 0"
  by (simp add: expand_one_copy one_copy_def unat_eq_0)

lemma last_expand_one_copy: "expand t \<noteq> [] \<Longrightarrow> last (expand t) = last (one_copy t)"
  unfolding expand_ne by (simp add: expand_one_copy last_of_copies unat_eq_0 one_copy_def)

lemma last_expand: "expand t \<noteq> [] \<Longrightarrow> below (last (expand t)) = []"
proof (induction t)
  case (Seq d cs)
  show ?case
  proof (cases "concat (map expand cs) = []")
    case True
    then have "below (Seq d cs) = []" by (simp add: below_def)
    then show ?thesis using last_expand_one_copy [OF Seq.prems] by (simp add: one_copy_def)
  next
    case False
    then obtain us c vs where cs: "cs = us @ c # vs" "expand c \<noteq> []" "\<forall>v \<in> set vs. expand v = []"
      using split_list_last_prop [of cs "\<lambda>c. expand c \<noteq> []"] by auto
    then have "below (Seq d cs) = concat (map expand us) @ expand c" by (simp add: below_def)
    then have "last (expand (Seq d cs)) = last (expand c)"
      using cs(2) last_expand_one_copy [OF Seq.prems] by (simp add: one_copy_def)
    then show ?thesis using Seq.IH [of c] cs by simp
  qed
qed

lemma nth_expand: "i < length (expand t) \<Longrightarrow> expand t ! i = one_copy t ! (i mod length (one_copy t))"
  using nth_concat_replicate by (simp add: expand_one_copy length_concat_replicate)

text \<open>A place in an enumeration that fits into 64 bits is found when nodes are below the one there.\<close>

lemma search_found:
  assumes "\<And>c i. c \<in> set cs \<Longrightarrow> i < length (expand c) \<Longrightarrow> below (expand c ! i) \<noteq> [] \<Longrightarrow>
      get_node_depth_first c (of_nat i) = Some (expand c ! i)"
    and "i < length (concat (map expand cs))" and "below (concat (map expand cs) ! i) \<noteq> []"
    and "length (concat (map expand cs)) < 2 ^ 64 - 1"
  shows "search_children cs (of_nat (Suc i)) = Some (concat (map expand cs) ! i)"
  using assms
proof (induction cs arbitrary: i)
  case (Cons c cs)
  have size: "count_nodes c > of_nat (Suc i) \<longleftrightarrow> Suc i < length (expand c)"
    using Cons.prems(2,4) by (auto simp: count_nodes_expand word_less_nat_alt unat_of_nat simp del: of_nat_Suc)
  consider "Suc i < length (expand c)" | "Suc i = length (expand c)" | "length (expand c) < Suc i" by linarith
  then show ?case
  proof cases
    case 1
    then show ?thesis using Cons.prems(1) [of c i] Cons.prems(3) size by (simp add: Let_def nth_append)
  next
    case 2
    then have "concat (map expand (c # cs)) ! i = last (expand c)" by (cases "expand c") (auto simp: nth_append last_conv_nth)
    moreover have "expand c \<noteq> []" using 2 by auto
    ultimately show ?thesis using last_expand Cons.prems(3) by simp
  next
    case 3
    then have "of_nat (Suc i) - count_nodes c = of_nat (Suc (i - length (expand c)))"
      by (simp add: count_nodes_expand of_nat_diff less_Suc_eq_le)
    then show ?thesis using 3 Cons.IH [of "i - length (expand c)"] Cons.prems size
      by (simp add: Let_def nth_append del: of_nat_Suc)
  qed
qed simp

lemma length_expand_member: "c \<in> set cs \<Longrightarrow> length (expand c) \<le> length (concat (map expand cs))"
  by (induction cs) auto

lemma get_node_found:
  assumes "length (expand t) < 2 ^ 64" and "i < length (expand t)" and "below (expand t ! i) \<noteq> []"
  shows "get_node_depth_first t (of_nat i) = Some (expand t ! i)"
  using assms
proof (induction t arbitrary: i)
  case (Seq d cs)
  let ?t = "Seq d cs" and ?n = "unat (num_copies d)"
  let ?len = "length (one_copy ?t)" let ?k = "i mod ?len"
  have total: "length (expand ?t) = ?n * ?len" by (simp add: expand_one_copy length_concat_replicate del: expand.simps)
  have pos: "?n \<noteq> 0" "?len \<noteq> 0" using Seq.prems(2) unfolding total by (metis mult_0 not_less0, metis mult_0_right not_less0)
  have small: "?len \<le> length (expand ?t)" using pos(1) unfolding total by simp
  have count: "unat (count_nodes ?t) = ?n * ?len"
    using Seq.prems(1) unfolding count_nodes_expand total unat_of_nat by simp
  have "unat (count_nodes ?t div num_copies d) = ?len" using pos by (simp add: unat_div count del: count_nodes.simps)
  then have "unat (of_nat i mod (count_nodes ?t div num_copies d)) = ?k"
    using Seq.prems(1,2) by (simp add: unat_mod unat_of_nat del: count_nodes.simps expand.simps)
  then have place: "of_nat i mod (count_nodes ?t div num_copies d) = of_nat ?k"
    by (rule of_nat_eq)
  have found: "expand ?t ! i = one_copy ?t ! ?k" by (rule nth_expand) (rule Seq.prems(2))
  have within: "\<not> count_nodes ?t \<le> of_nat i"
    using Seq.prems(1,2) count by (simp add: word_le_nat_alt unat_of_nat total del: count_nodes.simps expand.simps)
  show ?case
  proof (cases ?k)
    case 0
    then show ?thesis using within place found by (simp add: one_copy_def Let_def del: count_nodes.simps expand.simps)
  next
    case (Suc k)
    have k: "k < length (concat (map expand cs))" using Suc pos(2) mod_less_divisor [of ?len i]
      by (simp add: one_copy_def below_def)
    have at: "expand ?t ! i = concat (map expand cs) ! k" unfolding found Suc by (simp add: one_copy_def below_def)
    have bound: "Suc (length (concat (map expand cs))) < 2 ^ 64"
      using small Seq.prems(1) by (simp add: one_copy_def below_def)
    have "search_children cs (of_nat (Suc k)) = Some (concat (map expand cs) ! k)"
    proof (rule search_found [OF _ k])
      fix c j
      assume c: "c \<in> set cs" "j < length (expand c)" "below (expand c ! j) \<noteq> []"
      have "length (expand c) \<le> length (concat (map expand cs))"
        using c(1) by (rule length_expand_member)
      then show "get_node_depth_first c (of_nat j) = Some (expand c ! j)" using Seq.IH [OF c(1) _ c(2,3)] bound by linarith
    qed (use Seq.prems(3) at bound in auto)
    moreover have "(of_nat (Suc k) :: u64) \<noteq> 0"
    proof
      assume zero: "(of_nat (Suc k) :: u64) = 0"
      have "unat (of_nat (Suc k) :: u64) = Suc k" using k bound unfolding unat_of_nat by simp
      then show False unfolding zero by simp
    qed
    ultimately show ?thesis
      using within place Suc at by (simp add: Let_def del: count_nodes.simps expand.simps of_nat_Suc)
  qed
qed

subsection \<open>Offsets\<close>

lemma drop_copies: "p < n * length xs \<Longrightarrow> \<exists>rest. drop p (concat (replicate n xs)) = drop (p mod length xs) xs @ rest"
proof (induction n arbitrary: p)
  case (Suc n)
  show ?case
  proof (cases "p < length xs")
    case False
    then show ?thesis using Suc.IH [of "p - length xs"] Suc.prems by (simp add: le_mod_geq)
  qed simp
qed simp

lemma drop_children:
  assumes "\<And>c i. c \<in> set cs \<Longrightarrow> i < length (expand c) \<Longrightarrow> \<exists>rest. drop i (expand c) = one_copy (expand c ! i) @ rest"
    and "i < length (concat (map expand cs))"
  shows "\<exists>rest. drop i (concat (map expand cs)) = one_copy (concat (map expand cs) ! i) @ rest"
  using assms
proof (induction cs arbitrary: i)
  case (Cons c cs)
  show ?case
  proof (cases "i < length (expand c)")
    case True
    then show ?thesis using Cons.prems(1) [of c i] by (auto simp: nth_append)
  next
    case False
    then have "\<exists>rest. drop (i - length (expand c)) (concat (map expand cs)) =
        one_copy (concat (map expand cs) ! (i - length (expand c))) @ rest"
      using Cons.prems by (intro Cons.IH) auto
    then show ?thesis using False by (simp add: nth_append)
  qed
qed simp

text \<open>At the place of a node starts the enumeration of one copy of it.\<close>

lemma one_copy_at: "p < length (expand t) \<Longrightarrow> \<exists>rest. drop p (expand t) = one_copy (expand t ! p) @ rest"
proof (induction t arbitrary: p)
  case (Seq d cs)
  let ?t = "Seq d cs" let ?k = "p mod length (one_copy ?t)"
  have "p < unat (num_copies d) * length (one_copy ?t)"
    using Seq.prems by (simp add: expand_one_copy length_concat_replicate del: expand.simps)
  from drop_copies [OF this] obtain rest where rest: "drop p (expand ?t) = drop ?k (one_copy ?t) @ rest"
    by (auto simp: expand_one_copy simp del: expand.simps)
  have found: "expand ?t ! p = one_copy ?t ! ?k" by (rule nth_expand) (rule Seq.prems)
  show ?case
  proof (cases ?k)
    case 0
    then show ?thesis using rest found by (simp add: one_copy_def)
  next
    case (Suc k)
    have "k < length (concat (map expand cs))" using Suc mod_less_divisor [of "length (one_copy ?t)" p]
      by (simp add: one_copy_def below_def)
    from drop_children [OF Seq.IH this] show ?thesis
      unfolding found rest Suc by (auto simp: one_copy_def below_def)
  qed
qed

definition start_of :: "system_tree_seq \<Rightarrow> nat \<Rightarrow> nat \<Rightarrow> nat" where
  "start_of n p k = Suc p + length (concat (map expand (take k (children n))))"

lemma offsets_from_nth:
  "k < length cs \<Longrightarrow> offsets_from first cs ! k = first + of_nat (length (concat (map expand (take k cs))))"
proof (induction cs arbitrary: first k)
  case (Cons c cs)
  then show ?case by (cases k) (simp_all add: count_nodes_expand algebra_simps)
qed simp

lemma length_offsets: "length (offsets_from first cs) = length cs"
  by (induction cs arbitrary: first) simp_all

lemma copy_place:
  assumes "p < length (expand root)" and "k < length (children (expand root ! p))"
    and "i < unat (num_copies (seq_data (children (expand root ! p) ! k)))"
  shows "start_of (expand root ! p) p k + i * length (one_copy (children (expand root ! p) ! k)) < length (expand root)"
    and "expand root ! (start_of (expand root ! p) p k + i * length (one_copy (children (expand root ! p) ! k))) =
      children (expand root ! p) ! k"
    and "start_of (expand root ! p) p k + length (expand (children (expand root ! p) ! k)) \<le> length (expand root)"
proof -
  let ?n = "expand root ! p" let ?c = "children ?n ! k" let ?l = "length (one_copy ?c)"
  let ?before = "concat (map expand (take k (children ?n)))" let ?s = "start_of ?n p k"
  obtain rest where rest: "drop p (expand root) = one_copy ?n @ rest" using one_copy_at [OF assms(1)] by blast
  have "children ?n = take k (children ?n) @ ?c # drop (Suc k) (children ?n)" using assms(2) by (rule id_take_nth_drop)
  then have "map expand (children ?n) = map expand (take k (children ?n)) @ expand ?c # map expand (drop (Suc k) (children ?n))"
    by (metis map_append list.simps(9))
  then have "one_copy ?n = (?n # ?before) @ expand ?c @ concat (map expand (drop (Suc k) (children ?n)))"
    unfolding one_copy_def below_def by simp
  then obtain rest' where at: "drop p (expand root) = (?n # ?before) @ expand ?c @ rest'" using rest by simp
  have "i * ?l < unat (num_copies (seq_data ?c)) * ?l" using assms(3) by (intro mult_less_mono1) (simp_all add: one_copy_def)
  also have copies: "\<dots> = length (expand ?c)" by (simp add: expand_one_copy length_concat_replicate)
  finally have i: "i * ?l < length (expand ?c)" .
  then have at_i: "expand ?c ! (i * ?l) = ?c" by (simp add: nth_expand) (simp add: one_copy_def)
  have start: "?s = p + length (?n # ?before)" by (simp add: start_of_def)
  have "length (drop p (expand root)) = length (?n # ?before) + (length (expand ?c) + length rest')" unfolding at by simp
  then have len: "length (expand root) = ?s + (length (expand ?c) + length rest')" using assms(1) start by simp
  show "?s + length (expand ?c) \<le> length (expand root)" "?s + i * ?l < length (expand root)"
    unfolding len using i by linarith+
  have "expand root ! (p + (length (?n # ?before) + i * ?l)) = drop p (expand root) ! (length (?n # ?before) + i * ?l)"
    using assms(1) by simp
  also have "\<dots> = (expand ?c @ rest') ! (i * ?l)" unfolding at by (rule nth_append_length_plus)
  also have "\<dots> = ?c" using i at_i by (simp add: nth_append)
  finally show "expand root ! (?s + i * ?l) = ?c" unfolding start by (simp add: add.assoc)
qed

text \<open>C32: places of processes. When the node at a place is merged from the trees of several processes, the place that is
computed for a copy of one of its children is a place where the enumeration has that child.\<close>

theorem offsets_find_copies:
  assumes "length (expand root) < 2 ^ 64" and "p < length (expand root)"
    and "unat k < length (children (expand root ! p))" and "below (children (expand root ! p) ! unat k) \<noteq> []"
    and "i < num_copies (seq_data (children (expand root ! p) ! unat k))"
  shows "\<exists>offsets v. initial_offsets root (of_nat p) = Inr offsets \<and>
    child_offset root offsets \<lparr>mapping_node_id = k, mapping_index = i\<rparr> = Inr v \<and>
    unat v < length (expand root) \<and> expand root ! unat v = children (expand root ! p) ! unat k"
proof -
  let ?n = "expand root ! p" let ?c = "children ?n ! unat k" let ?l = "length (one_copy ?c)" let ?s = "start_of ?n p (unat k)"
  let ?offsets = "offsets_from (of_nat p + 1) (children ?n)"
  have copies: "num_copies (seq_data ?c) \<noteq> 0" using assms(5) by auto
  then have "expand ?c \<noteq> []" by (simp add: expand_ne)
  then have "below ?n \<noteq> []" using assms(3) unfolding below_def by (auto intro: nth_mem)
  then have "get_node_depth_first root (of_nat p) = Some ?n" by (rule get_node_found [OF assms(1,2)])
  then have offsets: "initial_offsets root (of_nat p) = Inr ?offsets"
    using assms(3) by (auto simp: initial_offsets_def node_or_fault_def)
  have at_k: "?offsets ! unat k = of_nat ?s" using offsets_from_nth [OF assms(3)] by (simp add: start_of_def algebra_simps)
  note first = copy_place [OF assms(2,3), of 0]
  have start: "?s < length (expand root)" "expand root ! ?s = ?c" using first copies by (simp_all add: unat_gt_0)
  have found: "get_node_depth_first root (of_nat ?s) = Some ?c"
    using get_node_found [OF assms(1) start(1)] start(2) assms(4) by simp
  have place: "?s + unat i * ?l < length (expand root)" "expand root ! (?s + unat i * ?l) = ?c"
    using copy_place [OF assms(2,3), of "unat i"] assms(5) by (simp_all add: word_less_nat_alt)
  have len: "length (expand ?c) = unat (num_copies (seq_data ?c)) * ?l"
    by (simp add: expand_one_copy length_concat_replicate)
  have "length (expand ?c) < 2 ^ 64" using first(3) copies assms(1) by (simp add: unat_gt_0)
  then have "unat (count_nodes ?c) = unat (num_copies (seq_data ?c)) * ?l"
    unfolding count_nodes_expand unat_of_nat len by simp
  then have "unat (count_nodes ?c div num_copies (seq_data ?c)) = ?l"
    using copies by (simp add: unat_div unat_gt_0)
  then have size: "count_nodes ?c div num_copies (seq_data ?c) = of_nat ?l" by (rule of_nat_eq)
  have "of_nat ?s + i * of_nat ?l = (of_nat (?s + unat i * ?l) :: u64)" by simp
  moreover have "unat (of_nat (?s + unat i * ?l) :: u64) = ?s + unat i * ?l"
    using place(1) assms(1) unfolding unat_of_nat by simp
  ultimately have v: "unat (of_nat ?s + i * of_nat ?l :: u64) = ?s + unat i * ?l" by simp
  have "child_offset root ?offsets \<lparr>mapping_node_id = k, mapping_index = i\<rparr> = Inr (of_nat ?s + i * of_nat ?l)"
    using assms(3) by (simp add: child_offset_def length_offsets at_k found copies size Let_def)
  moreover have "unat (of_nat ?s + i * of_nat ?l :: u64) < length (expand root) \<and>
      expand root ! unat (of_nat ?s + i * of_nat ?l :: u64) = ?c" unfolding v using place by blast
  ultimately show ?thesis using offsets by blast
qed

lemma offsets_find_copies_witness:
  "\<exists>offsets v. initial_offsets sample_process 0 = Inr offsets \<and>
    child_offset sample_process offsets \<lparr>mapping_node_id = 0, mapping_index = 0\<rparr> = Inr v \<and>
    unat v < 5 \<and> expand sample_process ! unat v = hd (children sample_process)"
proof -
  have size: "length (expand sample_process) = 5" "expand sample_process ! 0 = sample_process"
    by (simp_all add: sample_process_def sample_location_def sample_simps)
  have child: "0 < length (children sample_process)" "hd (children sample_process) = children sample_process ! 0"
    "below (children sample_process ! 0) \<noteq> []" "0 < num_copies (seq_data (children sample_process ! 0))"
    by (simp_all add: sample_process_def sample_location_def sample_simps below_def)
  show ?thesis using offsets_find_copies [of sample_process 0 0 0] unfolding size child(2) using child by simp
qed

text \<open>The traversal visits all copies of all nodes, in the order of the enumeration.\<close>

theorem traversal_visits_all:
  "scorep_system_tree_seq_traverse_all (\<lambda>n copy p visited. ((), visited @ [n])) t () [] = expand t"
proof -
  have "fold (\<lambda>n visited. visited @ [n]) xs ys = ys @ xs" for xs ys :: "system_tree_seq list"
    by (induction xs arbitrary: ys) simp_all
  then show ?thesis using traverse_expand [of "\<lambda>n copy p visited. ((), visited @ [n])" "\<lambda>n visited. visited @ [n]" t "[]"]
    by simp
qed

subsection \<open>What the search passes over\<close>

text \<open>
  For every place of an enumeration, whether it has the last copy of a node without nodes below: first for a tree that is
  itself below another node, then for the tree that is searched, which is not a last copy of anything.
\<close>

fun leaf_ends :: "system_tree_seq \<Rightarrow> bool list" where
  "leaf_ends (Seq d cs) =
     (let n = unat (num_copies d); ends = concat (map leaf_ends cs)
      in if ends = [] then map (\<lambda>j. Suc j = n) [0..<n] else concat (replicate n (False # ends)))"

definition root_leaf_ends :: "system_tree_seq \<Rightarrow> bool list" where
  "root_leaf_ends t = concat (replicate (unat (num_copies (seq_data t))) (False # concat (map leaf_ends (children t))))"

lemma length_leaf_ends: "length (leaf_ends t) = length (expand t)"
proof (induction t)
  case (Seq d cs)
  have "length (concat (map leaf_ends cs)) = length (concat (map expand cs))"
    using Seq.IH by (induction cs) auto
  then show ?case
    by (cases "concat (map leaf_ends cs) = []") (simp_all add: length_concat_replicate Let_def del: concat_eq_Nil_conv)
qed

lemma length_all_leaf_ends: "length (concat (map leaf_ends cs)) = length (concat (map expand cs))"
  by (induction cs) (simp_all add: length_leaf_ends)

lemma last_leaf_ends: "leaf_ends t \<noteq> [] \<Longrightarrow> last (leaf_ends t)"
proof (induction t)
  case (Seq d cs)
  let ?n = "unat (num_copies d)" let ?ends = "concat (map leaf_ends cs)"
  have n: "?n \<noteq> 0" using Seq.prems by (cases ?n) (auto simp: Let_def split: if_splits)
  show ?case
  proof (cases "?ends = []")
    case True
    then show ?thesis using n by (simp add: last_map Let_def)
  next
    case False
    then obtain us c vs where cs: "cs = us @ c # vs" "leaf_ends c \<noteq> []" "\<forall>v \<in> set vs. leaf_ends v = []"
      using split_list_last_prop [of cs "\<lambda>c. leaf_ends c \<noteq> []"] by auto
    then have "last ?ends = last (leaf_ends c)" by simp
    then have "last ?ends" using Seq.IH [of c] cs by simp
    moreover have "leaf_ends (Seq d cs) = concat (replicate ?n (False # ?ends))" using False by (auto simp: Let_def)
    then have "last (leaf_ends (Seq d cs)) = last (False # ?ends)" using n last_of_copies [of ?n "False # ?ends"] by simp
    ultimately show ?thesis using False by simp
  qed
qed

text \<open>Up to the last place, it does not matter whether a tree is below another node.\<close>

lemma root_leaf_ends_same:
  assumes "Suc i < length (expand t)"
  shows "root_leaf_ends t ! i = leaf_ends t ! i"
proof (cases t)
  case (Seq d cs)
  let ?n = "unat (num_copies d)"
  show ?thesis
  proof (cases "concat (map leaf_ends cs) = []")
    case True
    then have ends: "leaf_ends t = map (\<lambda>j. Suc j = ?n) [0..<?n]" using Seq by (simp add: Let_def)
    then have i: "Suc i < ?n" using assms length_leaf_ends [of t] by simp
    have "root_leaf_ends t = concat (replicate ?n [False])"
      unfolding root_leaf_ends_def Seq system_tree_seq.sel True ..
    then have "root_leaf_ends t ! i = [False] ! (i mod 1)"
      using nth_concat_replicate [of i ?n "[False]"] i by simp
    then show ?thesis using ends i by simp
  next
    case False
    then show ?thesis using Seq by (auto simp: root_leaf_ends_def Let_def)
  qed
qed

lemma search_zero: "search_children cs 0 = None"
proof (induction cs)
  case (Cons c cs)
  have "get_node_depth_first c (- 1) = None" by (cases c) (simp add: Let_def del: count_nodes.simps)
  then show ?case using Cons by (cases "count_nodes c = 0") (simp_all add: Let_def word_neq_0_conv)
qed simp

lemma search_leaf_ends:
  assumes "\<And>c i. c \<in> set cs \<Longrightarrow> i < length (expand c) \<Longrightarrow>
      get_node_depth_first c (of_nat i) = (if root_leaf_ends c ! i then None else Some (expand c ! i))"
    and "i < length (concat (map expand cs))" and "length (concat (map expand cs)) < 2 ^ 64 - 1"
  shows "search_children cs (of_nat (Suc i)) =
    (if concat (map leaf_ends cs) ! i then None else Some (concat (map expand cs) ! i))"
  using assms
proof (induction cs arbitrary: i)
  case (Cons c cs)
  have size: "count_nodes c > of_nat (Suc i) \<longleftrightarrow> Suc i < length (expand c)"
    using Cons.prems(2,3) by (auto simp: count_nodes_expand word_less_nat_alt unat_of_nat simp del: of_nat_Suc)
  note len = length_leaf_ends [of c]
  consider "Suc i < length (expand c)" | "Suc i = length (expand c)" | "length (expand c) < Suc i" by linarith
  then show ?case
  proof cases
    case 1
    then show ?thesis using Cons.prems(1) [of c i] root_leaf_ends_same [OF 1] size len by (simp add: Let_def nth_append)
  next
    case 2
    then have "leaf_ends c \<noteq> []" "i = length (leaf_ends c) - 1" using len by auto
    then have "leaf_ends c ! i" using last_leaf_ends [of c] by (simp add: last_conv_nth)
    moreover have "of_nat (Suc i) - count_nodes c = 0" unfolding count_nodes_expand 2 by simp
    ultimately show ?thesis using 2 size len search_zero by (simp add: Let_def nth_append del: of_nat_Suc)
  next
    case 3
    then have "of_nat (Suc i) - count_nodes c = of_nat (Suc (i - length (expand c)))"
      by (simp add: count_nodes_expand of_nat_diff less_Suc_eq_le)
    then show ?thesis using 3 Cons.IH [of "i - length (expand c)"] Cons.prems size len
      by (simp add: Let_def nth_append del: of_nat_Suc)
  qed
qed simp

text \<open>The number that the search looks for within one copy of a node.\<close>

lemma place_in_copy:
  assumes "length (expand t) < 2 ^ 64" and "i < length (expand t)"
  shows "\<not> count_nodes t \<le> of_nat i"
    and "of_nat i mod (count_nodes t div num_copies (seq_data t)) = of_nat (i mod length (one_copy t))"
    and "length (one_copy t) \<le> length (expand t)" and "length (one_copy t) \<noteq> 0"
proof -
  let ?n = "unat (num_copies (seq_data t))" and ?len = "length (one_copy t)"
  have total: "length (expand t) = ?n * ?len" by (simp add: expand_one_copy length_concat_replicate)
  have pos: "?n \<noteq> 0" "?len \<noteq> 0" using assms(2) unfolding total by (metis mult_0 not_less0, metis mult_0_right not_less0)
  show "?len \<le> length (expand t)" using pos(1) unfolding total by simp
  show "?len \<noteq> 0" by (rule pos(2))
  have count: "unat (count_nodes t) = ?n * ?len"
    using assms(1) unfolding count_nodes_expand total unat_of_nat by simp
  show "\<not> count_nodes t \<le> of_nat i"
    using assms count by (simp add: word_le_nat_alt unat_of_nat total)
  have "unat (count_nodes t div num_copies (seq_data t)) = ?len" using pos by (simp add: unat_div count)
  then have "unat (of_nat i mod (count_nodes t div num_copies (seq_data t))) = i mod ?len"
    using assms by (simp add: unat_mod unat_of_nat)
  then show "of_nat i mod (count_nodes t div num_copies (seq_data t)) = of_nat (i mod ?len)" by (rule of_nat_eq)
qed

text \<open>C39: the search for a place. It finds the node that the enumeration has there, with one exception: the last copy of a node
without nodes below, such as a location, is never found below another node, because the search passes on to the next child too early.\<close>

theorem last_leaves_not_found:
  assumes "length (expand t) < 2 ^ 64" and "i < length (expand t)"
  shows "get_node_depth_first t (of_nat i) = (if root_leaf_ends t ! i then None else Some (expand t ! i))"
  using assms
proof (induction t arbitrary: i)
  case (Seq d cs)
  let ?t = "Seq d cs" and ?n = "unat (num_copies d)" and ?below = "concat (map expand cs)"
  let ?k = "i mod length (one_copy ?t)"
  note place = place_in_copy [OF Seq.prems]
  have found: "expand ?t ! i = one_copy ?t ! ?k" by (rule nth_expand) (rule Seq.prems(2))
  have "i < ?n * length (one_copy ?t)"
    using Seq.prems(2) by (simp add: expand_one_copy length_concat_replicate del: expand.simps)
  then have ends: "root_leaf_ends ?t ! i = (False # concat (map leaf_ends cs)) ! ?k"
    using nth_concat_replicate [of i ?n "False # concat (map leaf_ends cs)"]
    by (simp add: root_leaf_ends_def one_copy_def below_def length_all_leaf_ends)
  show ?case
  proof (cases ?k)
    case 0
    then show ?thesis using place(1,2) found ends by (simp add: one_copy_def Let_def del: count_nodes.simps expand.simps)
  next
    case (Suc k)
    have k: "k < length ?below" using Suc place(4) mod_less_divisor [of "length (one_copy ?t)" i]
      by (simp add: one_copy_def below_def)
    have bound: "Suc (length ?below) < 2 ^ 64" using place(3) Seq.prems(1) by (simp add: one_copy_def below_def)
    have "search_children cs (of_nat (Suc k)) = (if concat (map leaf_ends cs) ! k then None else Some (?below ! k))"
    proof (rule search_leaf_ends [OF _ k])
      fix c j assume c: "c \<in> set cs" "j < length (expand c)"
      have "length (expand c) \<le> length ?below" using c(1) by (rule length_expand_member)
      then show "get_node_depth_first c (of_nat j) = (if root_leaf_ends c ! j then None else Some (expand c ! j))"
        using Seq.IH [OF c(1) _ c(2)] bound by linarith
    qed (use bound in simp)
    moreover have "unat (of_nat (Suc k) :: u64) = Suc k" using k bound unfolding unat_of_nat by simp
    then have "(of_nat (Suc k) :: u64) \<noteq> 0" by (metis nat.distinct(1) unat_0)
    ultimately show ?thesis
      using place(1,2) Suc found ends by (simp add: Let_def one_copy_def below_def del: count_nodes.simps expand.simps of_nat_Suc)
  qed
qed

text \<open>A process with two locations, one of which stands for three.\<close>

definition sample_joined :: system_tree_seq where
  "sample_joined = Seq (sample_data SEQ_TYPE_LOCATION_GROUP 0 1 1)
     [Seq (sample_data SEQ_TYPE_LOCATION 0 2 3) [], Seq (sample_data SEQ_TYPE_LOCATION 1 3 1) []]"

lemma sample_joined_ends: "length (expand sample_joined) = 5" "root_leaf_ends sample_joined = [False, False, False, True, True]"
  by code_simp+

lemma last_leaves_not_found_witness:
  "get_node_depth_first sample_joined (of_nat 2) = Some (expand sample_joined ! 2) \<and>
   get_node_depth_first sample_joined (of_nat 3) = None"
proof
  show "get_node_depth_first sample_joined (of_nat 2) = Some (expand sample_joined ! 2)"
    using last_leaves_not_found [of sample_joined 2] unfolding sample_joined_ends by simp
  show "get_node_depth_first sample_joined (of_nat 3) = None"
    using last_leaves_not_found [of sample_joined 3] unfolding sample_joined_ends by simp
qed

end
