(* ===== verification/SystemTreeMerging.thy ===== *)
theory SystemTreeMerging
  imports SystemTreeLocations
begin

section \<open>Merging system trees\<close>

text \<open>
  Merging the children of a received node into a node of the receiver always succeeds, keeps every node of both, and tells
  for every received child which copies of which child it has become.
\<close>

definition copies_of :: "system_tree_seq \<Rightarrow> nat" where
  "copies_of t = unat (num_copies (seq_data t))"

definition rest_of :: "source_child list \<Rightarrow> system_tree_seq list" where
  "rest_of ss = List.map_filter fst ss"


lemma rest_of_simps [simp]:
  "rest_of [] = []" "rest_of ((Some s, m) # ss) = s # rest_of ss" "rest_of ((None, m) # ss) = rest_of ss"
  by (simp_all add: rest_of_def map_filter_simps)



text \<open>The mapping of a child that was put between the others.\<close>

definition inserted :: "source_child \<Rightarrow> source_child \<Rightarrow> bool" where
  "inserted x y \<longleftrightarrow> fst y = fst x \<and>
     (case fst x of None \<Rightarrow> snd y = snd x | Some s \<Rightarrow> snd y = \<lparr>mapping_node_id = node_id (seq_data s), mapping_index = 0\<rparr>)"

lemma inserted_simps [simp]:
  "inserted (None, m) (None, m)"
  "inserted (Some s, m) (Some s, \<lparr>mapping_node_id = node_id (seq_data s), mapping_index = 0\<rparr>)"
  by (simp_all add: inserted_def)



text \<open>A source child that found a match is among the copies of it.\<close>

definition stands_for :: "system_tree_seq list \<Rightarrow> system_tree_seq \<Rightarrow> mapping_data \<Rightarrow> bool" where
  "stands_for cs s m \<longleftrightarrow>
     (\<exists>c \<in> set cs. id_of c = mapping_node_id m \<and> compare_system_tree_structure c s = 0 \<and>
        unat (mapping_index m) + copies_of s \<le> copies_of c)"

definition matched :: "system_tree_seq list \<Rightarrow> source_child \<Rightarrow> source_child \<Rightarrow> bool" where
  "matched ds x y \<longleftrightarrow> (case fst y of None \<Rightarrow> stands_for ds (the (fst x)) (snd y) | Some s \<Rightarrow> y = x)"

lemma matched_simps [simp]:
  "matched ds (Some s, m) (None, m') \<longleftrightarrow> stands_for ds s m'" "matched ds x (Some s, m) \<longleftrightarrow> (Some s, m) = x"
  by (simp_all add: matched_def)




lemma compare_add_copies [simp]: "compare_system_tree_structure (add_copies s d) x = compare_system_tree_structure d x"
  by (cases d; cases x) (simp add: add_copies_def)




subsection \<open>Which copies a received child stands for\<close>


text \<open>The ranges of copies of the node with an identification that the mappings give to the received children, in their order.\<close>

definition ranges_in :: "u64 \<Rightarrow> system_tree_seq list \<Rightarrow> mapping_data list \<Rightarrow> (nat \<times> nat) list" where
  "ranges_in i ss ms =
     map (\<lambda>(s, m). (unat (mapping_index m), copies_of s)) (filter (\<lambda>(s, m). mapping_node_id m = i) (zip ss ms))"

lemma ranges_in_simps [simp]:
  "ranges_in i [] ms = []"
  "ranges_in i (s # ss) (m # ms) =
     (if mapping_node_id m = i then [(unat (mapping_index m), copies_of s)] else []) @ ranges_in i ss ms"
  by (simp_all add: ranges_in_def)

text \<open>The same for the children that have found a match so far.\<close>

fun matched_ranges :: "u64 \<Rightarrow> source_child list \<Rightarrow> source_child list \<Rightarrow> (nat \<times> nat) list" where
  "matched_ranges i (x # xs) ((None, m) # ys) =
     (if mapping_node_id m = i then [(unat (mapping_index m), copies_of (the (fst x)))] else []) @ matched_ranges i xs ys"
| "matched_ranges i (x # xs) ((Some s, m) # ys) = matched_ranges i xs ys"
| "matched_ranges i _ _ = []"

lemma matched_ranges_same: "list_all (\<lambda>x. fst x \<noteq> None) ss \<Longrightarrow> matched_ranges i ss ss = []"
proof (induction ss)
  case (Cons x ss)
  then show ?case by (cases x) auto
qed simp




















end
