(* ===== verification/ConfigValues.thy ===== *)
theory ConfigValues
  imports Prelude
begin

section \<open>Values of configuration variables\<close>

text \<open>
  The part of \<^verbatim>\<open>src/measurement/SCOREP_Config.c\<close> that parses and prints the value of a configuration variable. A C
  string is the list of its characters without the terminating null character; the functions of \<^verbatim>\<open>ctype.h\<close> are those
  of the C locale, in which no character from 128 on is a letter or space. A parser answers whether it succeeded and what
  is then in the variable, also when it fails. Requests for memory are answered by \<open>alloc\<close>, which is given the number of
  bytes.
\<close>

subsection \<open>Characters\<close>

definition isspace :: "char \<Rightarrow> bool" where
  "isspace c \<longleftrightarrow> (of_char c :: nat) = 32 \<or> 9 \<le> (of_char c :: nat) \<and> (of_char c :: nat) \<le> 13"

definition isdigit :: "char \<Rightarrow> bool" where
  "isdigit c \<longleftrightarrow> 48 \<le> (of_char c :: nat) \<and> (of_char c :: nat) \<le> 57"

definition isupper :: "char \<Rightarrow> bool" where
  "isupper c \<longleftrightarrow> 65 \<le> (of_char c :: nat) \<and> (of_char c :: nat) \<le> 90"

definition islower :: "char \<Rightarrow> bool" where
  "islower c \<longleftrightarrow> 97 \<le> (of_char c :: nat) \<and> (of_char c :: nat) \<le> 122"

definition isalpha :: "char \<Rightarrow> bool" where
  "isalpha c \<longleftrightarrow> isupper c \<or> islower c"

definition toupper :: "char \<Rightarrow> char" where
  "toupper c = (if islower c then char_of ((of_char c :: nat) - 32) else c)"

definition tolower :: "char \<Rightarrow> char" where
  "tolower c = (if isupper c then char_of ((of_char c :: nat) + 32) else c)"

definition string_to_upper :: "string \<Rightarrow> string" where
  "string_to_upper = map (\<lambda>c. if isalpha c then toupper c else c)"

definition string_to_lower :: "string \<Rightarrow> string" where
  "string_to_lower = map (\<lambda>c. if isalpha c then tolower c else c)"

text \<open>The comparison goes from the last character to the first.\<close>

fun equal_icase_stringn :: "string \<Rightarrow> string \<Rightarrow> nat \<Rightarrow> bool" where
  "equal_icase_stringn str1 str2 0 \<longleftrightarrow> True"
| "equal_icase_stringn str1 str2 (Suc n) \<longleftrightarrow>
     (if toupper (str1 ! n) \<noteq> toupper (str2 ! n) then False else equal_icase_stringn str1 str2 n)"

definition equal_icase_string :: "string \<Rightarrow> string \<Rightarrow> bool" where
  "equal_icase_string str1 str2 \<longleftrightarrow>
     (if length str1 = length str2 then equal_icase_stringn str1 str2 (length str1) else False)"

definition trim_string :: "string \<Rightarrow> string" where
  "trim_string s = rev (dropWhile isspace (rev (dropWhile isspace s)))"

subsection \<open>Numbers\<close>

definition digit :: "char \<Rightarrow> u64" where
  "digit c = of_nat (of_char c - 48)"

datatype number_error = ERANGE | EINVAL

text \<open>The loop over the digits, and the answer: an error, or the number with the rest of the string.\<close>

fun parse_digits :: "u64 \<Rightarrow> string \<Rightarrow> number_error + u64 \<times> string" where
  "parse_digits number [] = Inr (number, [])"
| "parse_digits number (c # cs) =
     (if isdigit c
      then let new_number = 10 * number + digit c
           in if new_number < number then Inl ERANGE else parse_digits new_number cs
      else Inr (number, c # cs))"

definition parse_uint64 :: "string \<Rightarrow> number_error + u64 \<times> string" where
  "parse_uint64 numberString =
     (let s = dropWhile isspace numberString
      in case parse_digits 0 s of
           Inl e \<Rightarrow> Inl e
         | Inr (number, rest) \<Rightarrow> if length rest = length s then Inl EINVAL else Inr (number, rest))"

definition parse_number :: "string \<Rightarrow> u64 \<Rightarrow> bool \<times> u64" where
  "parse_number value old =
     (case parse_uint64 value of
        Inl _ \<Rightarrow> (False, old)
      | Inr (number, rest) \<Rightarrow> (dropWhile isspace rest = [], number))"

text \<open>The cases for the suffixes fall through to the smaller ones.\<close>

definition scale_factor :: "char \<Rightarrow> u64 option" where
  "scale_factor c =
     (if c = CHR ''E'' then Some (1024 * 1024 * 1024 * 1024 * 1024 * 1024)
      else if c = CHR ''P'' then Some (1024 * 1024 * 1024 * 1024 * 1024)
      else if c = CHR ''T'' then Some (1024 * 1024 * 1024 * 1024)
      else if c = CHR ''G'' then Some (1024 * 1024 * 1024)
      else if c = CHR ''M'' then Some (1024 * 1024)
      else if c = CHR ''K'' then Some 1024
      else None)"

text \<open>The scale factor, whether the suffix was that for bytes, and the rest of the string.\<close>

fun parse_suffix :: "string \<Rightarrow> (u64 \<times> bool \<times> string) option" where
  "parse_suffix [] = Some (1, False, [])"
| "parse_suffix (c # cs) =
     (case scale_factor (toupper c) of
        Some f \<Rightarrow> Some (f, False, cs)
      | None \<Rightarrow> if toupper c = CHR ''B'' then Some (1, True, cs) else None)"

definition skip_byte_suffix :: "bool \<Rightarrow> string \<Rightarrow> string" where
  "skip_byte_suffix has_byte_suffix s =
     (case s of [] \<Rightarrow> [] | c # cs \<Rightarrow> if \<not> has_byte_suffix \<and> toupper c = CHR ''B'' then cs else s)"

definition parse_size :: "string \<Rightarrow> u64 \<Rightarrow> bool \<times> u64" where
  "parse_size value old =
     (case parse_uint64 value of
        Inl _ \<Rightarrow> (False, old)
      | Inr (number, rest) \<Rightarrow>
          case parse_suffix (dropWhile isspace rest) of
            None \<Rightarrow> (False, number)
          | Some (factor, has_byte_suffix, rest) \<Rightarrow>
              if dropWhile isspace (skip_byte_suffix has_byte_suffix rest) \<noteq> [] then (False, number)
              else if number * factor < number then (False, number)
              else (True, number * factor))"

text \<open>\<^verbatim>\<open>strtol\<close> of the standard library for base 10: the number, kept within the range of \<^verbatim>\<open>long\<close>, and what follows it;
without a digit the whole string follows.\<close>

definition LONG_MAX :: int where "LONG_MAX = 2 ^ 63 - 1"

definition strtol :: "string \<Rightarrow> int \<times> string" where
  "strtol s =
     (let t = dropWhile isspace s;
          (negative, t) = (case t of c # cs \<Rightarrow> if c = CHR ''-'' then (True, cs) else if c = CHR ''+'' then (False, cs) else (False, t)
                                   | [] \<Rightarrow> (False, []));
          ds = takeWhile isdigit t;
          n = foldl (\<lambda>n c. 10 * n + (int (of_char c) - 48)) 0 ds
      in if ds = [] then (0, s)
         else (if negative then max (- LONG_MAX - 1) (- n) else min LONG_MAX n, dropWhile isdigit t))"

text \<open>Every string is a truth value.\<close>

definition parse_bool :: "string \<Rightarrow> bool \<times> bool" where
  "parse_bool value =
     (if equal_icase_string value ''true'' \<or> equal_icase_string value ''yes'' \<or> equal_icase_string value ''on''
      then (True, True)
      else let (number, rest) = strtol value
           in if length rest \<noteq> length value \<and> rest = [] then (True, number \<noteq> 0) else (True, False))"

subsection \<open>Strings\<close>

text \<open>The old string is freed; without memory for a copy there is none.\<close>

definition parse_string :: "(nat \<Rightarrow> bool) \<Rightarrow> string \<Rightarrow> bool \<times> string option" where
  "parse_string alloc value = (if alloc (length value + 1) then (True, Some value) else (False, None))"

subsection \<open>Sets and options\<close>

record set_entry =
  entry_name :: string
  entry_value :: u64

text \<open>The names of an entry are separated by slashes.\<close>

function string_in_alias_list :: "string \<Rightarrow> string \<Rightarrow> bool" where
  "string_in_alias_list value aliases \<longleftrightarrow>
     (let name = takeWhile (\<lambda>c. c \<noteq> CHR ''/'') aliases; rest = dropWhile (\<lambda>c. c \<noteq> CHR ''/'') aliases
      in if length value = length name \<and> equal_icase_stringn value name (length name) then True
         else if rest = [] then False
         else string_in_alias_list value (tl rest))"
  by pat_completeness auto
termination
proof (relation "measure (\<lambda>(value, aliases). length aliases)")
  fix aliases name rest x :: string
  assume rest: "rest = dropWhile (\<lambda>c. c \<noteq> CHR ''/'') aliases" "rest \<noteq> []"
  have "length rest \<le> length aliases" unfolding rest(1) by (rule length_dropWhile_le)
  moreover have "0 < length rest" using rest(2) by simp
  ultimately have "length (tl rest) < length aliases" by (cases rest) simp_all
  then show "((x, tl rest), x, aliases) \<in> measure (\<lambda>(value, aliases). length aliases)" by simp
qed simp

declare string_in_alias_list.simps [simp del]

fun find_entry :: "string \<Rightarrow> set_entry list \<Rightarrow> set_entry option" where
  "find_entry value [] = None"
| "find_entry value (e # es) = (if string_in_alias_list value (entry_name e) then Some e else find_entry value es)"

definition SEPARATORS :: string where "SEPARATORS = '' ,:;''"

definition is_separator :: "char \<Rightarrow> bool" where
  "is_separator c \<longleftrightarrow> c \<in> set SEPARATORS"

text \<open>\<^verbatim>\<open>strtok\<close> of the standard library: the next token, what follows it, and what is left in front of the null character that
it writes behind the token.\<close>

definition strtok_token :: "string \<Rightarrow> (string \<times> string \<times> string) option" where
  "strtok_token s =
     (let t = dropWhile is_separator s; token = takeWhile (\<lambda>c. \<not> is_separator c) t
      in if t = [] then None
         else Some (token, tl (dropWhile (\<lambda>c. \<not> is_separator c) t), takeWhile is_separator s @ token))"

definition apply_entry :: "string \<Rightarrow> set_entry list \<Rightarrow> u64 \<Rightarrow> u64 option" where
  "apply_entry entry accepted selected =
     (let invert = (entry \<noteq> [] \<and> hd entry = CHR ''~''); name = (if invert then tl entry else entry)
      in case find_entry name accepted of
           None \<Rightarrow> None
         | Some e \<Rightarrow> Some (if invert then selected AND NOT (entry_value e) else selected OR entry_value e))"

text \<open>
  The loop over the tokens. As long as no token that is more than white space was seen, the next call of \<^verbatim>\<open>strtok\<close> starts
  again at the front of the copy, which the last call has cut behind its token.
\<close>

fun parse_entries :: "nat \<Rightarrow> set_entry list \<Rightarrow> string option \<Rightarrow> string \<Rightarrow> u64 \<Rightarrow> (bool \<times> u64) outcome" where
  "parse_entries 0 accepted value_for_strtok saved selected = Inl Endless"
| "parse_entries (Suc k) accepted value_for_strtok saved selected =
     (case strtok_token (case value_for_strtok of Some s \<Rightarrow> s | None \<Rightarrow> saved) of
        None \<Rightarrow> Inr (True, selected)
      | Some (token, rest, shortened) \<Rightarrow>
          let entry = trim_string token
          in if entry = [] then parse_entries k accepted (map_option (\<lambda>_. shortened) value_for_strtok) rest selected
             else (case apply_entry entry accepted selected of
                     None \<Rightarrow> Inr (False, selected)
                   | Some selected \<Rightarrow> parse_entries k accepted None rest selected))"

text \<open>One more step than there are characters, where the loop ends at all.\<close>

definition parse_bitset :: "(nat \<Rightarrow> bool) \<Rightarrow> string \<Rightarrow> set_entry list \<Rightarrow> (bool \<times> u64) outcome" where
  "parse_bitset alloc value accepted =
     (if equal_icase_string value ''none'' \<or> equal_icase_string value ''no'' then Inr (True, 0)
      else if \<not> alloc (length value + 1) then Inr (False, 0)
      else parse_entries (length value + 1) accepted (Some value) [] 0)"

definition parse_optionset :: "(nat \<Rightarrow> bool) \<Rightarrow> string \<Rightarrow> set_entry list \<Rightarrow> bool \<times> u64" where
  "parse_optionset alloc value accepted =
     (if \<not> alloc (length value + 1) then (False, 0)
      else let value = trim_string value
           in if value = [] then (True, 0)
              else case find_entry value accepted of None \<Rightarrow> (False, 0) | Some e \<Rightarrow> (True, entry_value e))"

subsection \<open>Values by type\<close>

datatype config_type =
    Config_String | Config_Path | Config_Bool | Config_Number | Config_Size | Config_Bitset | Config_Optionset | Invalid_Config

text \<open>What the reference of a variable points to.\<close>

datatype config_value = Text "string option" | Truth bool | Number u64

fun number_of :: "config_value \<Rightarrow> u64" where
  "number_of (Number n) = n"
| "number_of v = 0"

text \<open>The context is the array of accepted values, if any.\<close>

fun parse_value ::
  "(nat \<Rightarrow> bool) \<Rightarrow> string \<Rightarrow> config_type \<Rightarrow> config_value \<Rightarrow> set_entry list option \<Rightarrow> (bool \<times> config_value) outcome" where
  "parse_value alloc value Config_String old context = Inr (map_prod id Text (parse_string alloc value))"
| "parse_value alloc value Config_Path old context = Inr (map_prod id Text (parse_string alloc value))"
| "parse_value alloc value Config_Bool old context = Inr (map_prod id Truth (parse_bool value))"
| "parse_value alloc value Config_Number old context = Inr (map_prod id Number (parse_number value (number_of old)))"
| "parse_value alloc value Config_Size old context = Inr (map_prod id Number (parse_size value (number_of old)))"
| "parse_value alloc value Config_Bitset old None = Inl Abort"
| "parse_value alloc value Config_Bitset old (Some accepted) =
     and_then (parse_bitset alloc value accepted) (\<lambda>r. Inr (map_prod id Number r))"
| "parse_value alloc value Config_Optionset old None = Inl Abort"
| "parse_value alloc value Config_Optionset old (Some accepted) = Inr (map_prod id Number (parse_optionset alloc value accepted))"
| "parse_value alloc value Invalid_Config old context = Inr (False, old)"

subsection \<open>Printing\<close>

text \<open>The digits that \<^verbatim>\<open>PRIu64\<close> prints.\<close>

fun decimal_digits :: "nat \<Rightarrow> string" where
  "decimal_digits n = (if n < 10 then [char_of (48 + n)] else decimal_digits (n div 10) @ [char_of (48 + n mod 10)])"

declare decimal_digits.simps [simp del]

abbreviation QUOTE :: char where "QUOTE \<equiv> CHR 0x27"
abbreviation BACKSLASH :: char where "BACKSLASH \<equiv> CHR 0x5C"

definition single_quote_string :: "string \<Rightarrow> string" where
  "single_quote_string s =
     [QUOTE] @ concat (map (\<lambda>c. if c = QUOTE \<or> c = CHR ''!'' then [QUOTE, BACKSLASH, c, QUOTE] else [c]) s) @ [QUOTE]"

definition first_alias :: "string \<Rightarrow> string" where
  "first_alias aliases = takeWhile (\<lambda>c. c \<noteq> CHR ''/'') aliases"

fun dump_entries :: "string \<Rightarrow> u64 \<Rightarrow> set_entry list \<Rightarrow> string" where
  "dump_entries sep bitmask [] = []"
| "dump_entries sep bitmask (e # es) =
     (if bitmask AND entry_value e = entry_value e
      then sep @ single_quote_string (first_alias (entry_name e)) @ dump_entries '','' (bitmask AND NOT (entry_value e)) es
      else dump_entries sep bitmask es)"

definition dump_bitset :: "string \<Rightarrow> u64 \<Rightarrow> set_entry list \<Rightarrow> string" where
  "dump_bitset name bitmask accepted = name @ ''='' @ dump_entries [] bitmask accepted @ [CHR 0x0A]"

fun find_option :: "u64 \<Rightarrow> set_entry list \<Rightarrow> string" where
  "find_option option [] = []"
| "find_option option (e # es) =
     (if option = entry_value e then single_quote_string (first_alias (entry_name e)) else find_option option es)"

definition dump_optionset :: "string \<Rightarrow> u64 \<Rightarrow> set_entry list \<Rightarrow> string" where
  "dump_optionset name option accepted = name @ ''='' @ find_option option accepted @ [CHR 0x0A]"

fun scale_down :: "u64 \<Rightarrow> char \<Rightarrow> string \<Rightarrow> u64 \<times> char" where
  "scale_down v suffix [] = (v, suffix)"
| "scale_down v suffix (next_suffix # suffixes) =
     (if v mod 1024 = 0 then scale_down (v div 1024) next_suffix suffixes else (v, suffix))"

definition dump_size :: "string \<Rightarrow> u64 \<Rightarrow> string" where
  "dump_size name v =
     (let (v, suffix) = scale_down v (CHR '' '') ''KMGTPE''
      in name @ ''='' @ decimal_digits (unat v) @ (if suffix = CHR '' '' then [] else [suffix]) @ [CHR 0x0A])"

text \<open>A string without a value is printed through a null pointer.\<close>

fun dump_value :: "string \<Rightarrow> config_type \<Rightarrow> config_value \<Rightarrow> set_entry list \<Rightarrow> string outcome" where
  "dump_value name Config_Bool (Truth b) context = Inr (name @ ''='' @ (if b then ''true'' else ''false'') @ [CHR 0x0A])"
| "dump_value name Config_Bitset (Number n) context = Inr (dump_bitset name n context)"
| "dump_value name Config_Optionset (Number n) context = Inr (dump_optionset name n context)"
| "dump_value name Config_Number (Number n) context = Inr (name @ ''='' @ decimal_digits (unat n) @ [CHR 0x0A])"
| "dump_value name Config_Size (Number n) context = Inr (dump_size name n)"
| "dump_value name Config_String (Text (Some s)) context = Inr (name @ ''='' @ single_quote_string s @ [CHR 0x0A])"
| "dump_value name Config_Path (Text (Some s)) context = Inr (name @ ''='' @ single_quote_string s @ [CHR 0x0A])"
| "dump_value name Invalid_Config v context = Inr []"
| "dump_value name type v context = Inl Bad_Access"

end
