(* ===== verification/ConfigRegistry.thy ===== *)
theory ConfigRegistry
  imports ConfigValues Hashtab
begin

section \<open>The registry of configuration variables\<close>

text \<open>
  The other part of \<^verbatim>\<open>src/measurement/SCOREP_Config.c\<close>: name spaces and the variables in them, each found through a hash
  table of the model of \<^verbatim>\<open>SCOREP_Hashtab.c\<close> and kept in the order of registration. A pointer to a name space or variable is
  its position in that order. What the reference of a variable points to is kept with the variable; every variable has
  a reference of its own. The environment is a function. The flag \<open>memory\<close> tells whether requests for memory are met.
\<close>

subsection \<open>Data\<close>

definition ENV_NAME_SUB_LEN_MAX :: nat where "ENV_NAME_SUB_LEN_MAX = 41"

text \<open>A variable as a subsystem passes it for registration; a null pointer is \<open>None\<close>.\<close>

record new_variable =
  new_name :: string
  new_type :: config_type
  new_reference :: "config_value option"
  new_context :: "set_entry list option"
  new_default :: "string option"
  new_short_help :: "string option"
  new_long_help :: "string option"

record config_variable =
  variable_name :: string
  variable_type :: config_type
  variable_value :: config_value
  variable_context :: "set_entry list option"
  default_value :: string
  short_help :: string
  long_help :: string
  env_var_name :: string
  is_evaluated :: bool
  is_changed :: bool

record name_space =
  space_name :: string
  variable_table :: "(string, nat) hashtab"
  variables :: "config_variable list"

record config =
  name_spaces :: "(string, nat) hashtab option"
  name_space_list :: "name_space list"
  force_conditional :: bool

datatype config_error =
    Config_Success | Config_Mem_Fault | Config_Einval | Config_Index_Out_Of_Bounds | Config_Parse_Invalid_Value

definition strcasecmp :: "string \<Rightarrow> string \<Rightarrow> int" where
  "strcasecmp s t = strcmp (map tolower s) (map tolower t)"

definition hash_name_space :: "string \<Rightarrow> u64" where
  "hash_name_space name = SCOREP_Hashtab_HashString name"

definition compare_name_space :: "string \<Rightarrow> string \<Rightarrow> int" where
  "compare_name_space key item_key' = (if length key = length item_key' then strcasecmp key item_key' else 1)"

definition hash_variable :: "string \<Rightarrow> u64" where
  "hash_variable name = SCOREP_Hashtab_HashString name"

definition compare_variable :: "string \<Rightarrow> string \<Rightarrow> int" where
  "compare_variable key item_key' = strcasecmp key item_key'"

definition SCOREP_ConfigInit :: "bool \<Rightarrow> config \<Rightarrow> (config_error \<times> config) outcome" where
  "SCOREP_ConfigInit memory c =
     assert_that (name_spaces c = None) (
     and_then (SCOREP_Hashtab_CreateSize memory 32 hash_name_space compare_name_space) (\<lambda>t.
       case t of None \<Rightarrow> Inr (Config_Mem_Fault, c) | Some t \<Rightarrow> Inr (Config_Success, c\<lparr>name_spaces := Some t\<rparr>)))"

text \<open>The list of name spaces is freed, but its head and its tail still point to it.\<close>

definition SCOREP_ConfigFini :: "config \<Rightarrow> config outcome" where
  "SCOREP_ConfigFini c = assert_that (name_spaces c \<noteq> None) (Inr (c\<lparr>name_spaces := None\<rparr>))"

subsection \<open>Search\<close>

text \<open>The name is hashed as it is given, and stored in lower case.\<close>

definition get_name_space :: "bool \<Rightarrow> string \<Rightarrow> bool \<Rightarrow> config \<Rightarrow> (nat option \<times> config) outcome" where
  "get_name_space memory name create c =
     (case name_spaces c of None \<Rightarrow> Inl Bad_Access
      | Some tab \<Rightarrow>
        and_then (SCOREP_Hashtab_Find tab name) (\<lambda>(entry, hash_hint).
          case entry of
            Some e \<Rightarrow> Inr (Some (item_value e), c)
          | None \<Rightarrow>
              if \<not> create then Inr (None, c)
              else assert_that memory (
                and_then (SCOREP_Hashtab_CreateSize memory 32 hash_variable compare_variable) (\<lambda>vars.
                case vars of None \<Rightarrow> Inl Bad_Access
                | Some vars \<Rightarrow>
                  let lower = string_to_lower name; i = length (name_space_list c)
                  in and_then (SCOREP_Hashtab_Insert memory tab lower i (Some hash_hint)) (\<lambda>(_, tab).
                       Inr (Some i, c\<lparr>name_spaces := Some tab,
                         name_space_list := name_space_list c @ [\<lparr>space_name = lower, variable_table = vars, variables = []\<rparr>]\<rparr>))))))"

definition env_name :: "string \<Rightarrow> string \<Rightarrow> string" where
  "env_name space name =
     string_to_upper (''SCOREP_'' @ take ENV_NAME_SUB_LEN_MAX space @ (if space \<noteq> [] then ''_'' else [])
       @ take ENV_NAME_SUB_LEN_MAX name)"

definition fresh_variable :: "string \<Rightarrow> string \<Rightarrow> config_variable" where
  "fresh_variable space name =
     \<lparr>variable_name = name, variable_type = Config_String, variable_value = Text None, variable_context = None,
      default_value = [], short_help = [], long_help = [], env_var_name = env_name space name,
      is_evaluated = False, is_changed = False\<rparr>"

text \<open>A variable that exists is not created again: the answer is then the null pointer.\<close>

definition get_variable :: "bool \<Rightarrow> name_space \<Rightarrow> string \<Rightarrow> bool \<Rightarrow> (nat option \<times> name_space) outcome" where
  "get_variable memory ns name create =
     and_then (SCOREP_Hashtab_Find (variable_table ns) name) (\<lambda>(entry, hash_hint).
       if (entry = None) = (\<not> create) then Inr (None, ns)
       else case entry of
              Some e \<Rightarrow> Inr (Some (item_value e), ns)
            | None \<Rightarrow>
                assert_that memory (
                let lower = string_to_lower name; i = length (variables ns)
                in and_then (SCOREP_Hashtab_Insert memory (variable_table ns) lower i (Some hash_hint)) (\<lambda>(_, tab).
                     Inr (Some i, ns\<lparr>variable_table := tab, variables := variables ns @ [fresh_variable (space_name ns) lower]\<rparr>))))"

subsection \<open>Registration\<close>

definition isalnum :: "char \<Rightarrow> bool" where
  "isalnum c \<longleftrightarrow> isalpha c \<or> isdigit c"

fun check_name_rest :: "bool \<Rightarrow> string \<Rightarrow> bool" where
  "check_name_rest allow_underscore [] \<longleftrightarrow> True"
| "check_name_rest allow_underscore (c # cs) \<longleftrightarrow>
     (let allow_underscore = allow_underscore \<and> cs \<noteq> []
      in \<not> (\<not> isalnum c \<and> (\<not> allow_underscore \<or> c \<noteq> CHR ''_'')) \<and> check_name_rest allow_underscore cs)"

definition check_name :: "string \<Rightarrow> bool \<Rightarrow> bool" where
  "check_name name isNameSpace \<longleftrightarrow>
     isNameSpace \<and> name = [] \<or> name \<noteq> [] \<and> isalpha (hd name) \<and> check_name_rest (\<not> isNameSpace) (tl name)"

definition check_bitset :: "set_entry list \<Rightarrow> bool" where
  "check_bitset accepted \<longleftrightarrow>
     list_all (\<lambda>e. entry_value e \<noteq> 0 \<and> \<not> (equal_icase_string (entry_name e) ''no'' \<or> equal_icase_string (entry_name e) ''none''))
       accepted"

definition CONTROL_CHARACTERS :: "char list" where
  "CONTROL_CHARACTERS = [CHR 0x0A, CHR 0x0D, CHR 0x0B, CHR 0x09]"

text \<open>One turn of the loop over the variables.\<close>

definition register_variable ::
  "bool \<Rightarrow> (nat \<Rightarrow> bool) \<Rightarrow> new_variable \<Rightarrow> name_space \<Rightarrow> name_space outcome" where
  "register_variable memory alloc v ns =
     (case (new_reference v, new_default v, new_short_help v, new_long_help v) of
        (Some old, Some def_value, Some short, Some long) \<Rightarrow>
          assert_that (list_all (\<lambda>c. c \<notin> set CONTROL_CHARACTERS) short) (
          assert_that (length (new_name v) \<noteq> 1 \<and> length (new_name v) \<le> ENV_NAME_SUB_LEN_MAX) (
          assert_that (check_name (new_name v) False) (
          and_then (get_variable memory ns (new_name v) True) (\<lambda>(position, ns).
          case position of None \<Rightarrow> Inl Bad_Access
          | Some i \<Rightarrow>
            let var = (variables ns ! i)\<lparr>variable_type := new_type v, variable_value := old, variable_context := new_context v,
                        default_value := def_value, short_help := short, long_help := long\<rparr>
            in and_then (if new_type v = Config_Bitset
                         then case new_context v of None \<Rightarrow> Inl Bad_Access | Some es \<Rightarrow> assert_that (check_bitset es) (Inr ())
                         else Inr ()) (\<lambda>_.
               and_then (parse_value alloc def_value (new_type v) old (new_context v)) (\<lambda>(success, value).
                 assert_that success (Inr (ns\<lparr>variables := (variables ns)[i := var\<lparr>variable_value := value\<rparr>]\<rparr>))))))))
      | _ \<Rightarrow> Inl Abort)"

fun register_all ::
  "bool \<Rightarrow> (nat \<Rightarrow> bool) \<Rightarrow> new_variable list \<Rightarrow> name_space \<Rightarrow> name_space outcome" where
  "register_all memory alloc [] ns = Inr ns"
| "register_all memory alloc (v # vs) ns = and_then (register_variable memory alloc v ns) (register_all memory alloc vs)"

definition SCOREP_ConfigRegister ::
  "bool \<Rightarrow> (nat \<Rightarrow> bool) \<Rightarrow> string \<Rightarrow> new_variable list \<Rightarrow> config \<Rightarrow> (config_error \<times> config) outcome" where
  "SCOREP_ConfigRegister memory alloc name vs c =
     assert_that (name_spaces c \<noteq> None) (
     assert_that (length name \<le> ENV_NAME_SUB_LEN_MAX) (
     assert_that (check_name name True) (
     and_then (get_name_space memory name True c) (\<lambda>(space, c).
       case space of None \<Rightarrow> Inl Bad_Access
       | Some i \<Rightarrow> and_then (register_all memory alloc vs (name_space_list c ! i)) (\<lambda>ns.
                     Inr (Config_Success, c\<lparr>name_space_list := (name_space_list c)[i := ns]\<rparr>))))))"

definition SCOREP_ConfigRegisterCond ::
  "bool \<Rightarrow> (nat \<Rightarrow> bool) \<Rightarrow> string \<Rightarrow> new_variable list \<Rightarrow> bool \<Rightarrow> config \<Rightarrow> (config_error \<times> config) outcome" where
  "SCOREP_ConfigRegisterCond memory alloc name vs isAvailable c =
     (if isAvailable \<or> force_conditional c then SCOREP_ConfigRegister memory alloc name vs c else Inr (Config_Success, c))"

definition SCOREP_ConfigForceConditionalRegister :: "config \<Rightarrow> config" where
  "SCOREP_ConfigForceConditionalRegister c = c\<lparr>force_conditional := True\<rparr>"

subsection \<open>Setting values\<close>

text \<open>The answer is the variable, and whether its value, if the environment has one, could be parsed.\<close>

definition apply_env :: "(nat \<Rightarrow> bool) \<Rightarrow> (string \<Rightarrow> string option) \<Rightarrow> config_variable \<Rightarrow> (bool \<times> config_variable) outcome" where
  "apply_env alloc getenv v =
     (if is_evaluated v then Inr (True, v)
      else case getenv (env_var_name v) of
             None \<Rightarrow> Inr (True, v\<lparr>is_evaluated := True\<rparr>)
           | Some s \<Rightarrow> and_then (parse_value alloc s (variable_type v) (variable_value v) (variable_context v)) (\<lambda>(success, value).
                         Inr (success, v\<lparr>is_evaluated := True, is_changed := True, variable_value := value\<rparr>)))"

text \<open>The first value that cannot be parsed ends the loop.\<close>

fun apply_env_all ::
  "(nat \<Rightarrow> bool) \<Rightarrow> (string \<Rightarrow> string option) \<Rightarrow> config_variable list \<Rightarrow> (bool \<times> config_variable list) outcome" where
  "apply_env_all alloc getenv [] = Inr (True, [])"
| "apply_env_all alloc getenv (v # vs) =
     and_then (apply_env alloc getenv v) (\<lambda>(success, v).
       if \<not> success then Inr (False, v # vs)
       else and_then (apply_env_all alloc getenv vs) (\<lambda>(success, vs). Inr (success, v # vs)))"

fun apply_env_spaces ::
  "(nat \<Rightarrow> bool) \<Rightarrow> (string \<Rightarrow> string option) \<Rightarrow> name_space list \<Rightarrow> (bool \<times> name_space list) outcome" where
  "apply_env_spaces alloc getenv [] = Inr (True, [])"
| "apply_env_spaces alloc getenv (ns # nss) =
     and_then (apply_env_all alloc getenv (variables ns)) (\<lambda>(success, vs).
       if \<not> success then Inr (False, ns\<lparr>variables := vs\<rparr> # nss)
       else and_then (apply_env_spaces alloc getenv nss) (\<lambda>(success, nss). Inr (success, ns\<lparr>variables := vs\<rparr> # nss)))"

definition SCOREP_ConfigApplyEnv ::
  "(nat \<Rightarrow> bool) \<Rightarrow> (string \<Rightarrow> string option) \<Rightarrow> config \<Rightarrow> (config_error \<times> config) outcome" where
  "SCOREP_ConfigApplyEnv alloc getenv c =
     assert_that (name_spaces c \<noteq> None) (
     and_then (apply_env_spaces alloc getenv (name_space_list c)) (\<lambda>(success, nss).
       Inr (if success then Config_Success else Config_Einval, c\<lparr>name_space_list := nss\<rparr>)))"

definition SCOREP_ConfigSetValue ::
  "bool \<Rightarrow> (nat \<Rightarrow> bool) \<Rightarrow> string \<Rightarrow> string \<Rightarrow> string \<Rightarrow> config \<Rightarrow> (config_error \<times> config) outcome" where
  "SCOREP_ConfigSetValue memory alloc space name value c =
     and_then (get_name_space memory space False c) (\<lambda>(found, c).
       case found of None \<Rightarrow> Inr (Config_Index_Out_Of_Bounds, c)
       | Some i \<Rightarrow>
         let ns = name_space_list c ! i
         in and_then (get_variable memory ns name False) (\<lambda>(found, ns).
            case found of None \<Rightarrow> Inr (Config_Index_Out_Of_Bounds, c)
            | Some j \<Rightarrow>
              let v = variables ns ! j
              in and_then (parse_value alloc value (variable_type v) (variable_value v) (variable_context v)) (\<lambda>(success, value).
                   Inr (if success then Config_Success else Config_Parse_Invalid_Value,
                        c\<lparr>name_space_list := (name_space_list c)[i :=
                            ns\<lparr>variables := (variables ns)[j := v\<lparr>variable_value := value\<rparr>]\<rparr>]\<rparr>))))"

text \<open>An unknown name space is reported, but the null pointer is used all the same.\<close>

definition SCOREP_ConfigGetData :: "bool \<Rightarrow> string \<Rightarrow> string \<Rightarrow> config \<Rightarrow> config_variable option outcome" where
  "SCOREP_ConfigGetData memory space name c =
     and_then (get_name_space memory space False c) (\<lambda>(found, c).
       case found of None \<Rightarrow> Inl Bad_Access
       | Some i \<Rightarrow> and_then (get_variable memory (name_space_list c ! i) name False) (\<lambda>(found, ns).
                     Inr (map_option (\<lambda>j. variables ns ! j) found)))"

subsection \<open>Printing\<close>

fun dump_variables :: "bool \<Rightarrow> bool \<Rightarrow> config_variable list \<Rightarrow> string outcome" where
  "dump_variables allVariables withValue [] = Inr []"
| "dump_variables allVariables withValue (v # vs) =
     and_then (if is_changed v \<or> allVariables
               then let name = (if allVariables then [] else ''    '') @ env_var_name v
                    in if withValue
                       then dump_value name (variable_type v) (variable_value v) (case variable_context v of None \<Rightarrow> [] | Some es \<Rightarrow> es)
                       else Inr (name @ [CHR 0x0A])
               else Inr []) (\<lambda>line.
     and_then (dump_variables allVariables withValue vs) (\<lambda>lines. Inr (line @ lines)))"

definition config_dump :: "bool \<Rightarrow> bool \<Rightarrow> config \<Rightarrow> string outcome" where
  "config_dump allVariables withValue c = dump_variables allVariables withValue (concat (map variables (name_space_list c)))"

definition SCOREP_ConfigDump :: "config \<Rightarrow> string outcome" where
  "SCOREP_ConfigDump c = config_dump True True c"

definition SCOREP_ConfigDumpChangedVars :: "config \<Rightarrow> string outcome" where
  "SCOREP_ConfigDumpChangedVars c = config_dump False False c"

end
