(* ===== verification/ConfigProperties.thy ===== *)
theory ConfigProperties
  imports ConfigRegistry
begin

section \<open>The properties of the configuration\<close>

text \<open>Numbers are read exactly as long as they fit, and what is printed for a shell can be read back: strings, truth values, numbers and sizes.\<close>

subsection \<open>Numbers\<close>

lemma isdigit_char_of: "n < 10 \<Longrightarrow> isdigit (char_of (48 + n :: nat))"
  by (simp add: isdigit_def)

lemma digit_char_of: "n < 10 \<Longrightarrow> digit (char_of (48 + n :: nat)) = of_nat n"
  by (simp add: digit_def)

definition number_value :: "string \<Rightarrow> nat" where
  "number_value ds = foldl (\<lambda>n c. 10 * n + (of_char c - 48)) 0 ds"

lemma number_value_snoc: "number_value (ds @ [c]) = 10 * number_value ds + (of_char c - 48)"
  by (simp add: number_value_def)

lemma number_value_Nil [simp]: "number_value [] = 0"
  by (simp add: number_value_def)

lemma decimal_digits_props:
  "list_all isdigit (decimal_digits n) \<and> decimal_digits n \<noteq> [] \<and> number_value (decimal_digits n) = n"
proof (induction n rule: decimal_digits.induct)
  case (1 n)
  show ?case
  proof (cases "n < 10")
    case True
    then show ?thesis by (subst (1 2 3) decimal_digits.simps) (simp add: isdigit_char_of number_value_def)
  next
    case False
    have "n mod 10 < 10" by simp
    then show ?thesis using 1 [OF False] False
      by (subst (1 2 3) decimal_digits.simps) (simp add: isdigit_char_of number_value_snoc)
  qed
qed

lemma digits_mono: "foldl (\<lambda>n c. 10 * n + (of_char c - 48)) m ds \<ge> (m :: nat)"
proof (induction ds arbitrary: m)
  case (Cons c ds)
  have "m \<le> 10 * m + (of_char c - 48)" by simp
  also have "\<dots> \<le> foldl (\<lambda>n c. 10 * n + (of_char c - 48)) (10 * m + (of_char c - 48)) ds" by (rule Cons)
  finally show ?case by simp
qed simp

text \<open>A number that fits is read exactly.\<close>

lemma parse_digits_exact:
  assumes "list_all isdigit ds" and "rest = [] \<or> \<not> isdigit (hd rest)"
    and "foldl (\<lambda>n c. 10 * n + (of_char c - 48)) (unat m) ds < 2 ^ 64"
  shows "parse_digits m (ds @ rest) = Inr (of_nat (foldl (\<lambda>n c. 10 * n + (of_char c - 48)) (unat m) ds), rest)"
  using assms(1,3)
proof (induction ds arbitrary: m)
  case Nil
  then show ?case using assms(2) by (cases rest) simp_all
next
  case (Cons c ds)
  let ?d = "of_char c - 48 :: nat"
  let ?n = "10 * unat m + ?d"
  have n: "?n < 2 ^ 64" using Cons.prems(2) digits_mono [of ?n ds] by simp
  have eq: "10 * m + digit c = of_nat ?n" by (simp add: digit_def)
  have u: "unat (10 * m + digit c) = ?n" using n unfolding eq unat_of_nat by simp
  then have "\<not> 10 * m + digit c < m" by (simp add: word_less_nat_alt)
  then show ?case using Cons.IH [of "10 * m + digit c"] Cons.prems u by (simp add: Let_def)
qed

lemma digit_not_space: "isdigit c \<Longrightarrow> \<not> isspace c"
  by (simp add: isdigit_def isspace_def)

lemma parse_uint64_exact:
  assumes "list_all isspace ws" and "list_all isdigit ds" and "ds \<noteq> []" and "rest = [] \<or> \<not> isdigit (hd rest)"
    and "number_value ds < 2 ^ 64"
  shows "parse_uint64 (ws @ ds @ rest) = Inr (of_nat (number_value ds), rest)"
proof -
  have "dropWhile isspace (ws @ ds @ rest) = ds @ rest"
    using assms(1-3) digit_not_space by (cases ds) (auto simp: list_all_iff dropWhile_append)
  then show ?thesis
    using parse_digits_exact [of ds rest 0] assms(2-5) by (simp add: parse_uint64_def number_value_def)
qed

subsection \<open>The shell\<close>

text \<open>How a shell reads a word: characters between quotes stand for themselves, and so does a character behind a backslash
outside of them.\<close>

fun shell_word :: "bool \<Rightarrow> string \<Rightarrow> string option" where
  "shell_word quoted [] = (if quoted then None else Some [])"
| "shell_word True (c # cs) = (if c = QUOTE then shell_word False cs else map_option ((#) c) (shell_word True cs))"
| "shell_word False [c] =
     (if c = QUOTE \<or> c = BACKSLASH then None else Some [c])"
| "shell_word False (c # d # cs) =
     (if c = QUOTE then shell_word True (d # cs)
      else if c = BACKSLASH then map_option ((#) d) (shell_word False cs)
      else map_option ((#) c) (shell_word False (d # cs)))"

lemma shell_word_quote: "shell_word False (QUOTE # c # cs) = shell_word True (c # cs)"
  by simp

lemma shell_quoted:
  "shell_word True (concat (map (\<lambda>c. if c = QUOTE \<or> c = CHR ''!'' then [QUOTE, BACKSLASH, c, QUOTE] else [c]) s) @ QUOTE # rest) =
    map_option ((@) s) (shell_word False rest)"
proof (induction s)
  case Nil
  then show ?case by (simp add: option.map_ident)
next
  case (Cons c s)
  show ?case
  proof (cases "c = QUOTE \<or> c = CHR ''!''")
    case True
    let ?tail = "concat (map (\<lambda>c. if c = QUOTE \<or> c = CHR ''!'' then [QUOTE, BACKSLASH, c, QUOTE] else [c]) s) @ QUOTE # rest"
    have ne: "?tail \<noteq> []" by simp
    then obtain x xs where x: "?tail = x # xs" by (cases ?tail) simp_all
    have "shell_word True (QUOTE # BACKSLASH # c # QUOTE # ?tail) = map_option ((#) c) (shell_word True ?tail)"
      unfolding x by simp
    then show ?thesis using Cons True by (simp add: option.map_comp comp_def)
  next
    case False
    then show ?thesis using Cons by (simp add: option.map_comp comp_def)
  qed
qed

lemma shell_single_quote: "shell_word False (single_quote_string s @ rest) = map_option ((@) s) (shell_word False rest)"
proof -
  let ?tail = "concat (map (\<lambda>c. if c = QUOTE \<or> c = CHR ''!'' then [QUOTE, BACKSLASH, c, QUOTE] else [c]) s) @ QUOTE # rest"
  obtain x xs where x: "?tail = x # xs" by (cases ?tail) simp_all
  have "shell_word False (QUOTE # ?tail) = shell_word True ?tail" unfolding x by simp
  then show ?thesis using shell_quoted by (simp add: single_quote_string_def)
qed

subsection \<open>Sizes\<close>

text \<open>The suffix that is found stands for the factor that was divided out.\<close>

definition suffix_factor :: "char \<Rightarrow> u64" where
  "suffix_factor c = (case scale_factor c of Some f \<Rightarrow> f | None \<Rightarrow> 1)"

fun suffix_chain :: "char \<Rightarrow> string \<Rightarrow> bool" where
  "suffix_chain c [] \<longleftrightarrow> True"
| "suffix_chain c (d # ds) \<longleftrightarrow> suffix_factor d = 1024 * suffix_factor c \<and> suffix_chain d ds"

lemma div_1024: "v mod 1024 = 0 \<Longrightarrow> (v :: u64) div 1024 * 1024 = v"
  using div_mult_mod_eq [of v 1024] by simp

lemma scale_down_product:
  "suffix_chain c ds \<Longrightarrow> scale_down v c ds = (w, d) \<Longrightarrow>
    suffix_factor d * w = suffix_factor c * v \<and> w \<le> v \<and> d \<in> set (c # ds)"
proof (induction v c ds rule: scale_down.induct)
  case (2 v c d' ds)
  show ?case
  proof (cases "v mod 1024 = 0")
    case True
    with 2 have ih: "suffix_factor d * w = suffix_factor d' * (v div 1024) \<and> w \<le> v div 1024 \<and> d \<in> set (d' # ds)" by simp
    have "suffix_factor d' * (v div 1024) = suffix_factor c * (v div 1024 * 1024)" using 2(2) by (simp add: ac_simps)
    moreover have "v div 1024 \<le> v" by (simp add: word_le_nat_alt unat_div)
    ultimately show ?thesis using ih div_1024 [OF True] by auto
  qed (use 2 in auto)
qed auto

lemma suffix_chain_all: "suffix_chain (CHR '' '') ''KMGTPE''"
  by (simp add: suffix_factor_def scale_factor_def)

definition number_char :: "char \<Rightarrow> bool" where
  "number_char c \<longleftrightarrow> isdigit c \<or> c \<in> set ''KMGTPE''"

lemma suffix_is_read:
  "d \<in> set '' KMGTPE'' \<Longrightarrow> parse_suffix (dropWhile isspace (if d = CHR '' '' then [] else [d])) = Some (suffix_factor d, False, [])"
  by (simp, elim disjE; simp add: suffix_factor_def scale_factor_def isspace_def toupper_def islower_def)

lemma size_is_read:
  assumes "scale_down v (CHR '' '') ''KMGTPE'' = (w, d)"
  shows "parse_size (decimal_digits (unat w) @ (if d = CHR '' '' then [] else [d])) old = (True, v)"
proof -
  note p = decimal_digits_props [of "unat w"]
  have s: "suffix_factor d * w = v" "w \<le> v" "d \<in> set '' KMGTPE''"
    using scale_down_product [OF suffix_chain_all assms] by (auto simp: suffix_factor_def [of "CHR '' ''"] scale_factor_def)
  let ?rest = "if d = CHR '' '' then [] else [d]"
  have "unat w < 2 ^ 64" using unsigned_less [of w] by simp
  then have "parse_uint64 (decimal_digits (unat w) @ ?rest) = Inr (w, ?rest)"
    using parse_uint64_exact [of "[]" "decimal_digits (unat w)" ?rest] p s(3)
    by (auto simp: isdigit_def)
  moreover have "\<not> v < w" using s(2) by simp
  ultimately show ?thesis using s(1) suffix_is_read [OF s(3)] by (simp add: parse_size_def skip_byte_suffix_def ac_simps)
qed


subsection \<open>What is printed can be read back\<close>

fun has_type :: "config_value \<Rightarrow> config_type \<Rightarrow> bool" where
  "has_type (Text (Some s)) type \<longleftrightarrow> type = Config_String \<or> type = Config_Path"
| "has_type (Truth b) type \<longleftrightarrow> type = Config_Bool"
| "has_type (Number n) type \<longleftrightarrow> type = Config_Number \<or> type = Config_Size"
| "has_type v type \<longleftrightarrow> False"

definition plain :: "char \<Rightarrow> bool" where
  "plain c \<longleftrightarrow> c \<noteq> QUOTE \<and> c \<noteq> BACKSLASH"

lemma shell_word_plain: "list_all plain s \<Longrightarrow> shell_word False s = Some s"
proof (induction s)
  case (Cons c s)
  then show ?case by (cases s) (simp_all add: plain_def)
qed simp

lemma isdigit_plain: "list_all isdigit s \<Longrightarrow> list_all plain s"
  by (auto simp: list_all_iff plain_def isdigit_def)

lemma number_is_read:
  "parse_number (decimal_digits (unat (n :: u64))) old = (True, n)"
proof -
  note p = decimal_digits_props [of "unat n"]
  have "unat n < 2 ^ 64" using unsigned_less [of n] by simp
  then have "parse_uint64 (decimal_digits (unat n)) = Inr (n, [])"
    using parse_uint64_exact [of "[]" "decimal_digits (unat n)" "[]"] p by simp
  then show ?thesis by (simp add: parse_number_def)
qed

lemma true_is_read: "parse_bool ''true'' = (True, True)"
  by code_simp

lemma false_is_read: "parse_bool ''false'' = (True, False)"
  by code_simp

lemma bool_is_read: "parse_bool (if b then ''true'' else ''false'') = (True, b)"
  using true_is_read false_is_read by simp

text \<open>C20: printing a value for a shell and reading the word that the shell sees gives the value again, whatever
the variable held before.\<close>

theorem printed_value_is_read_back:
  assumes "has_type v type"
  shows "\<exists>word s. dump_value name type v entries = Inr (name @ ''='' @ word @ [CHR 0x0A]) \<and> shell_word False word = Some s \<and>
    parse_value (\<lambda>_. True) s type old context = Inr (True, v)"
proof (cases v)
  case (Text t)
  then obtain s where t: "v = Text (Some s)" "type = Config_String \<or> type = Config_Path" using assms by (cases t) auto
  then show ?thesis using shell_single_quote [of s "[]"] by (auto simp: parse_string_def)
next
  case (Truth b)
  then show ?thesis using assms bool_is_read [of b] shell_word_plain [of "if b then ''true'' else ''false''"]
    by (auto simp: plain_def)
next
  case (Number n)
  then consider "type = Config_Number" | "type = Config_Size" using assms by auto
  then show ?thesis
  proof cases
    case 1
    then show ?thesis using Number number_is_read shell_word_plain isdigit_plain decimal_digits_props [of "unat n"] by auto
  next
    case 2
    obtain w d where wd: "scale_down n (CHR '' '') ''KMGTPE'' = (w, d)" by fastforce
    let ?word = "decimal_digits (unat w) @ (if d = CHR '' '' then [] else [d])"
    have "list_all plain ?word"
      using isdigit_plain decimal_digits_props [of "unat w"] scale_down_product [OF suffix_chain_all wd]
      by (auto simp: plain_def)
    then have "shell_word False ?word = Some ?word" by (rule shell_word_plain)
    then show ?thesis using Number 2 wd size_is_read [OF wd] by (auto simp: dump_size_def)
  qed
qed

definition sample_text :: string where "sample_text = [CHR 0x41, QUOTE, CHR ''!'']"

lemma printed_value_is_read_back_witness:
  "has_type (Text (Some sample_text)) Config_String \<and>
   (\<exists>word s. dump_value ''N'' Config_String (Text (Some sample_text)) [] = Inr (''N'' @ ''='' @ word @ [CHR 0x0A]) \<and>
      shell_word False word = Some s \<and>
      parse_value (\<lambda>_. True) s Config_String (Text None) None = Inr (True, Text (Some sample_text)))"
  using printed_value_is_read_back [of "Text (Some sample_text)" Config_String "''N''" "[]" "Text None" None] by simp


subsection \<open>Numbers that do not fit\<close>

lemma digits_split:
  assumes "list_all isdigit ds" and "number_value ds < 2 ^ 64" and "isdigit c"
  shows "parse_digits 0 (ds @ [c]) =
    (let m = of_nat (number_value ds); n = 10 * m + digit c in if n < m then Inl ERANGE else Inr (n, []))"
proof -
  have "parse_digits m (ds @ [c]) =
      (let m' = of_nat (foldl (\<lambda>n c. 10 * n + (of_char c - 48)) (unat m) ds); n = 10 * m' + digit c
       in if n < m' then Inl ERANGE else Inr (n, []))"
    if "foldl (\<lambda>n c. 10 * n + (of_char c - 48)) (unat m) ds < 2 ^ 64" for m :: u64
    using assms(1) that
  proof (induction ds arbitrary: m)
    case Nil
    then show ?case using assms(3) by (simp add: Let_def)
  next
    case (Cons d ds)
    let ?n = "10 * unat m + (of_char d - 48 :: nat)"
    have n: "?n < 2 ^ 64" using Cons.prems(2) digits_mono [of ?n ds] by simp
    have eq: "10 * m + digit d = of_nat ?n" by (simp add: digit_def)
    have u: "unat (10 * m + digit d) = ?n" using n unfolding eq unat_of_nat by simp
    then have "\<not> 10 * m + digit d < m" by (simp add: word_less_nat_alt)
    then show ?case using Cons.IH [of "10 * m + digit d"] Cons.prems u by (simp add: Let_def)
  qed
  from this [of 0] assms(2) show ?thesis by (simp add: number_value_def)
qed

text \<open>C37: a number is rejected as too large only if what is left of it in 64 bits is less than the number without its last digit;
otherwise it is accepted with its value modulo $2^{64}$.\<close>

theorem parse_number_overflow:
  assumes "list_all isdigit ds" and "number_value ds < 2 ^ 64" and "isdigit c"
  shows "parse_number (ds @ [c]) old =
    (let n = number_value (ds @ [c]) mod 2 ^ 64
     in if n < number_value ds then (False, old) else (True, of_nat n))"
proof -
  let ?m = "of_nat (number_value ds) :: u64" let ?n = "10 * ?m + digit c"
  have "unat ?m = number_value ds" using assms(2) by (simp add: unat_of_nat)
  moreover have "?n = of_nat (number_value (ds @ [c]))" by (simp add: number_value_snoc digit_def)
  moreover from this have "unat ?n = number_value (ds @ [c]) mod 2 ^ 64" by (simp add: unat_of_nat)
  moreover have "of_nat (unat ?n) = ?n" by simp
  ultimately have less: "?n < ?m \<longleftrightarrow> number_value (ds @ [c]) mod 2 ^ 64 < number_value ds"
    and eq: "?n = of_nat (number_value (ds @ [c]) mod 2 ^ 64)"
    by (simp_all only: word_less_nat_alt)
  have "dropWhile isspace (ds @ [c]) = ds @ [c]"
    using assms(1,3) digit_not_space by (cases ds) auto
  then show ?thesis using digits_split [OF assms] less eq
    by (simp add: parse_number_def parse_uint64_def Let_def)
qed

lemma parse_number_overflow_witness:
  "parse_number ''30000000000000000000'' 0 = (True, 11553255926290448384) \<and> parse_number ''18446744073709551616'' 7 = (False, 7)"
  using parse_number_overflow [of "''3000000000000000000''" "CHR ''0''" 0]
    parse_number_overflow [of "''1844674407370955161''" "CHR ''6''" 7]
  by (simp add: isdigit_def number_value_def)

end
