(* ===== verification/ConfigSets.thy ===== *)
theory ConfigSets
  imports ConfigProperties
begin

section \<open>Sets and options\<close>

text \<open>The loop over the members of a set, when it ends, and that a set that is printed can be read back.\<close>

subsection \<open>Tokens\<close>

lemma takeWhile_token: "t \<noteq> [] \<Longrightarrow> \<not> is_separator (hd t) \<Longrightarrow> takeWhile (\<lambda>c. \<not> is_separator c) t \<noteq> []"
  by (cases t) simp_all

lemma dropWhile_hd: "dropWhile P s \<noteq> [] \<Longrightarrow> \<not> P (hd (dropWhile P s))"
  by (rule hd_dropWhile)

lemma strtok_token_shorter:
  assumes "strtok_token s = Some (token, rest, shortened)"
  shows "length rest < length s" and "token \<noteq> []" and "list_all (\<lambda>c. \<not> is_separator c) token"
proof -
  let ?t = "dropWhile is_separator s"
  have t: "?t \<noteq> []" "token = takeWhile (\<lambda>c. \<not> is_separator c) ?t" "rest = tl (dropWhile (\<lambda>c. \<not> is_separator c) ?t)"
    using assms by (auto simp: strtok_token_def Let_def split: if_splits)
  show "token \<noteq> []" using takeWhile_token t dropWhile_hd by metis
  show "list_all (\<lambda>c. \<not> is_separator c) token" using t(2) set_takeWhileD by (fastforce simp: list_all_iff)
  have "length (dropWhile (\<lambda>c. \<not> is_separator c) ?t) < length ?t"
    using \<open>token \<noteq> []\<close> t(2) by (metis add_less_same_cancel2 length_append length_greater_0_conv less_add_same_cancel2 takeWhile_dropWhile_id)
  then have "length rest < length ?t" using t(3) by simp
  also have "\<dots> \<le> length s" by (rule length_dropWhile_le)
  finally show "length rest < length s" .
qed

lemma strtok_token_word:
  assumes "list_all is_separator seps" and "list_all (\<lambda>c. \<not> is_separator c) token" and "token \<noteq> []"
  shows "strtok_token (seps @ token) = Some (token, [], seps @ token)"
    and "is_separator c \<Longrightarrow> strtok_token (seps @ token @ c # rest) = Some (token, rest, seps @ token)"
proof -
  have d: "dropWhile is_separator (seps @ token @ xs) = token @ xs" "takeWhile is_separator (seps @ token @ xs) = seps" for xs
    using assms by (cases token; auto simp: list_all_iff dropWhile_append takeWhile_append)+
  have w: "takeWhile (\<lambda>c. \<not> is_separator c) token = token" "dropWhile (\<lambda>c. \<not> is_separator c) token = []"
    using assms(2) by (auto simp: list_all_iff takeWhile_eq_all_conv dropWhile_eq_Nil_conv)
  have tl: "tl (dropWhile (\<lambda>c. \<not> is_separator c) token) = []" by (simp only: w(2) list.sel(2))
  show "strtok_token (seps @ token) = Some (token, [], seps @ token)"
    using d [of "[]"] w(1) tl assms(3) by (simp add: strtok_token_def Let_def)
  have "takeWhile (\<lambda>c. \<not> is_separator c) (token @ c # rest) = token"
    "dropWhile (\<lambda>c. \<not> is_separator c) (token @ c # rest) = c # rest" if "is_separator c"
    using that w assms(2) by (auto simp: list_all_iff takeWhile_append dropWhile_append)
  then show "strtok_token (seps @ token @ c # rest) = Some (token, rest, seps @ token)" if "is_separator c"
    using that d [of "c # rest"] by (simp add: strtok_token_def Let_def)
qed

lemma strtok_token_again:
  assumes "strtok_token s = Some (token, rest, shortened)"
  shows "strtok_token shortened = Some (token, [], shortened)"
proof -
  have "shortened = takeWhile is_separator s @ token"
    using assms by (auto simp: strtok_token_def Let_def split: if_splits)
  moreover have "list_all is_separator (takeWhile is_separator s)" using set_takeWhileD by (fastforce simp: list_all_iff)
  ultimately show ?thesis using strtok_token_word(1) strtok_token_shorter [OF assms] by simp
qed

subsection \<open>The end of the loop\<close>

lemma parse_entries_ends:
  "length saved < k \<Longrightarrow> \<exists>r. parse_entries k accepted None saved selected = Inr r"
proof (induction k arbitrary: saved selected)
  case (Suc k)
  show ?case
  proof (cases "strtok_token saved")
    case (Some r)
    then obtain token rest shortened where r: "strtok_token saved = Some (token, rest, shortened)" by (cases r) auto
    then have "length rest < k" using Suc.prems strtok_token_shorter(1) by fastforce
    then show ?thesis using Suc.IH r by (auto simp: Let_def split: option.splits)
  qed auto
qed simp

lemma parse_entries_more:
  "parse_entries k accepted v saved selected = Inr r \<Longrightarrow> parse_entries (k + j) accepted v saved selected = Inr r"
proof (induction k arbitrary: v saved selected)
  case (Suc k)
  then show ?case by (auto simp: Let_def split: option.splits if_splits)
qed simp

lemma parse_entries_stuck:
  "strtok_token s = Some (token, rest, shortened) \<Longrightarrow> trim_string token = [] \<Longrightarrow>
    parse_entries k accepted (Some s) saved selected = Inl Endless"
proof (induction k arbitrary: s rest shortened saved)
  case (Suc k)
  then show ?case using strtok_token_again [OF Suc.prems(1)] by simp
qed simp

definition first_token_is_blank :: "string \<Rightarrow> bool" where
  "first_token_is_blank s \<longleftrightarrow> (case strtok_token s of None \<Rightarrow> False | Some (token, _) \<Rightarrow> trim_string token = [])"

lemma parse_entries_start:
  assumes "\<not> first_token_is_blank s"
  shows "\<exists>r. parse_entries (length s + 1) accepted (Some s) [] selected = Inr r"
proof (cases "strtok_token s")
  case (Some r)
  then obtain token rest shortened where r: "strtok_token s = Some (token, rest, shortened)" by (cases r) auto
  have "length rest < length s" using r by (rule strtok_token_shorter(1))
  then show ?thesis using assms r parse_entries_ends [of rest "length s"]
    by (auto simp: first_token_is_blank_def Let_def split: option.splits)
qed auto

text \<open>C28: the loop over the members of a set never ends if the first token is white space other than a blank; otherwise it
ends after at most one turn per character and one more.\<close>

theorem parse_entries_ends_iff:
  "if first_token_is_blank value then \<forall>k. parse_entries k accepted (Some value) [] selected = Inl Endless
   else \<exists>r. \<forall>k. parse_entries (length value + 1 + k) accepted (Some value) [] selected = Inr r"
proof (cases "first_token_is_blank value")
  case True
  then obtain token rest shortened where "strtok_token value = Some (token, rest, shortened)" "trim_string token = []"
    by (auto simp: first_token_is_blank_def split: option.splits)
  then show ?thesis using True parse_entries_stuck [of "value"] by simp
next
  case False
  then obtain r where "parse_entries (length value + 1) accepted (Some value) [] selected = Inr r"
    using parse_entries_start by blast
  then have "\<forall>k. parse_entries (length value + 1 + k) accepted (Some value) [] selected = Inr r"
    using parse_entries_more by blast
  then show ?thesis using False by (simp only: if_False) blast
qed

lemma tab_is_blank: "first_token_is_blank [CHR 0x09]"
  by code_simp


subsection \<open>Printed sets can be read back\<close>

text \<open>The entries that are printed, and what is left of the bits.\<close>

fun chosen :: "u64 \<Rightarrow> set_entry list \<Rightarrow> set_entry list" where
  "chosen m [] = []"
| "chosen m (e # es) =
     (if m AND entry_value e = entry_value e then e # chosen (m AND NOT (entry_value e)) es else chosen m es)"

fun left_over :: "u64 \<Rightarrow> set_entry list \<Rightarrow> u64" where
  "left_over m [] = m"
| "left_over m (e # es) =
     (if m AND entry_value e = entry_value e then left_over (m AND NOT (entry_value e)) es else left_over m es)"

definition entry_word :: "set_entry \<Rightarrow> string" where
  "entry_word e = first_alias (entry_name e)"

definition listing :: "string list \<Rightarrow> string" where
  "listing ws = (case ws of [] \<Rightarrow> [] | w # ws \<Rightarrow> w @ concat (map (\<lambda>w. '','' @ w) ws))"

lemma dump_entries_tail:
  "dump_entries '','' m es = concat (map (\<lambda>e. '','' @ single_quote_string (entry_word e)) (chosen m es))"
  by (induction m es rule: chosen.induct) (simp_all add: entry_word_def)

lemma dump_entries_listing: "dump_entries [] m es = listing (map (\<lambda>e. single_quote_string (entry_word e)) (chosen m es))"
  by (induction m es rule: chosen.induct) (simp_all add: listing_def dump_entries_tail entry_word_def comp_def)

lemma shell_comma: "shell_word False (CHR '','' # s) = map_option ((#) (CHR '','')) (shell_word False s)"
  by (cases s) simp_all

lemma shell_tail:
  "shell_word False (concat (map (\<lambda>e. '','' @ single_quote_string (entry_word e)) es)) =
    Some (concat (map (\<lambda>e. '','' @ entry_word e) es))"
  by (induction es) (simp_all add: shell_comma shell_single_quote)

lemma shell_listing:
  "shell_word False (listing (map (\<lambda>e. single_quote_string (entry_word e)) es)) = Some (listing (map entry_word es))"
  by (cases es) (simp_all add: listing_def shell_single_quote comp_def shell_tail [simplified])

text \<open>The names of the entries can be told apart, and each is one word.\<close>

definition word_char :: "char \<Rightarrow> bool" where
  "word_char c \<longleftrightarrow> \<not> is_separator c \<and> \<not> isspace c"

definition readable :: "set_entry list \<Rightarrow> bool" where
  "readable accepted \<longleftrightarrow> list_all (\<lambda>e. entry_word e \<noteq> [] \<and> hd (entry_word e) \<noteq> CHR ''~'' \<and> list_all word_char (entry_word e) \<and>
     find_entry (entry_word e) accepted = Some e) accepted"

lemma trim_word: "list_all word_char w \<Longrightarrow> trim_string w = w"
proof -
  assume w: "list_all word_char w"
  then have "dropWhile isspace w = w" by (cases w) (simp_all add: word_char_def)
  moreover have "dropWhile isspace (rev w) = rev w" using w by (cases w rule: rev_cases) (simp_all add: word_char_def)
  ultimately show ?thesis by (simp add: trim_string_def)
qed

lemma apply_word:
  "readable accepted \<Longrightarrow> e \<in> set accepted \<Longrightarrow> apply_entry (entry_word e) accepted selected = Some (selected OR entry_value e)"
  by (auto simp: apply_entry_def readable_def list_all_iff)

lemma parse_entries_tail:
  assumes "readable accepted" and "set es \<subseteq> set accepted" and "es \<noteq> []"
    and "v = None \<and> saved = listing (map entry_word es) \<or> v = Some (listing (map entry_word es))"
  shows "\<exists>k. parse_entries k accepted v saved selected = Inr (True, foldl (\<lambda>m e. m OR entry_value e) selected es)"
  using assms(2-4)
proof (induction es arbitrary: v saved selected)
  case (Cons e es)
  let ?w = "entry_word e"
  let ?s = "case v of Some s \<Rightarrow> s | None \<Rightarrow> saved"
  have s: "?s = listing (?w # map entry_word es)" using Cons.prems(3) by auto
  have w: "?w \<noteq> []" "list_all word_char ?w" "list_all (\<lambda>c. \<not> is_separator c) ?w" "e \<in> set accepted"
    using assms(1) Cons.prems(1) by (auto simp: readable_def list_all_iff word_char_def)
  have a: "apply_entry ?w accepted selected = Some (selected OR entry_value e)" using apply_word assms(1) w(4) by blast
  show ?case
  proof (cases es)
    case Nil
    have "strtok_token ?s = Some (?w, [], ?w)" using strtok_token_word(1) [of "[]" ?w] w s Nil by (simp add: listing_def)
    then have "parse_entries (Suc (Suc 0)) accepted v saved selected = Inr (True, selected OR entry_value e)"
      using a w trim_word [OF w(2)] by (simp add: strtok_token_def [of "[]"])
    then have "\<exists>k. parse_entries k accepted v saved selected = Inr (True, selected OR entry_value e)" by blast
    then show ?thesis using Nil by simp
  next
    case (Cons e' es')
    let ?rest = "listing (map entry_word es)"
    have "strtok_token ?s = Some (?w, ?rest, ?w)"
      using strtok_token_word(2) [of "[]" ?w "CHR '',''" ?rest] w s Cons
      by (simp add: listing_def is_separator_def SEPARATORS_def)
    then have step: "parse_entries (Suc k) accepted v saved selected = parse_entries k accepted None ?rest (selected OR entry_value e)" for k
      using a w trim_word [OF w(2)] by simp
    obtain k where "parse_entries k accepted None ?rest (selected OR entry_value e) =
        Inr (True, foldl (\<lambda>m e. m OR entry_value e) (selected OR entry_value e) es)"
      using Cons.IH [of None ?rest] Cons.prems Cons by auto
    then have "parse_entries (Suc k) accepted v saved selected = Inr (True, foldl (\<lambda>m e. m OR entry_value e) selected (e # es))"
      using step by (simp only: foldl_Cons)
    then show ?thesis by blast
  qed
qed simp


lemma left_over_subset: "left_over m es AND m = left_over m es"
proof (induction m es rule: left_over.induct)
  case (2 m e es)
  let ?m = "m AND NOT (entry_value e)"
  have "l AND m = l" if "l AND ?m = l" for l
    using that by (metis and.assoc and.commute and.left_idem)
  then show ?case using 2 by simp
qed simp

lemma chosen_bits: "foldl (\<lambda>m e. m OR entry_value e) a (chosen m es) = a OR (m AND NOT (left_over m es))"
proof (induction m es arbitrary: a rule: chosen.induct)
  case (2 m e es)
  show ?case
  proof (cases "m AND entry_value e = entry_value e")
    case True
    let ?v = "entry_value e" and ?l = "left_over (m AND NOT (entry_value e)) es"
    have "?l AND (m AND NOT ?v) = ?l" by (rule left_over_subset)
    then have "a OR ?v OR (m AND NOT ?v AND NOT ?l) = a OR (m AND NOT ?l)"
      using True by (auto simp: bit_eq_iff bit_simps)
    then show ?thesis using 2 True by (simp add: ac_simps)
  qed (use 2 in simp)
qed simp

text \<open>
  The bits that the entries within a set cover. Where each entry contains every later one that it overlaps with, such as a list
  that names the larger sets first, taking the entries one after the other covers all of them.
\<close>

definition covered :: "u64 \<Rightarrow> set_entry list \<Rightarrow> u64" where
  "covered m es = foldr (\<lambda>e v. entry_value e OR v) (filter (\<lambda>e. m AND entry_value e = entry_value e) es) 0"

definition larger_first :: "set_entry list \<Rightarrow> bool" where
  "larger_first es \<longleftrightarrow>
     sorted_wrt (\<lambda>e f. entry_value e AND entry_value f = 0 \<or> entry_value e AND entry_value f = entry_value f) es"

lemma bit_covered: "bit (covered m es) i \<longleftrightarrow> (\<exists>e\<in>set es. m AND entry_value e = entry_value e \<and> bit (entry_value e) i)"
  by (induction es) (auto simp: covered_def bit_or_iff)

lemma covered_without:
  assumes v: "m AND v = v" and fs: "\<forall>f\<in>set es. v AND entry_value f = 0 \<or> v AND entry_value f = entry_value f"
  shows "v OR covered (m AND NOT v) es = v OR covered m es"
proof (rule bit_eqI)
  fix i
  have "bit v i \<or> (m AND NOT v) AND entry_value f = entry_value f"
    if f: "f \<in> set es" "m AND entry_value f = entry_value f" "bit (entry_value f) i" for f
  proof (cases "v AND entry_value f = 0")
    case True
    have "(m AND NOT v) AND entry_value f = entry_value f"
    proof (rule bit_eqI)
      fix k
      have "\<not> (bit v k \<and> bit (entry_value f) k)" using arg_cong [OF True, of "\<lambda>w. bit w k"] by (simp add: bit_and_iff)
      moreover have "bit (entry_value f) k \<longrightarrow> bit m k" using arg_cong [OF f(2), of "\<lambda>w. bit w k"] by (auto simp: bit_and_iff)
      ultimately show "bit ((m AND NOT v) AND entry_value f) k = bit (entry_value f) k"
        by (auto simp: bit_and_iff bit_not_iff dest: bit_imp_le_length)
    qed
    then show ?thesis ..
  next
    case False
    then have "v AND entry_value f = entry_value f" using fs f(1) by blast
    then show ?thesis using f(3) by (metis bit_and_iff)
  qed
  moreover have "m AND w = w" if "(m AND NOT v) AND w = w" for w
    using that by (metis and.assoc and.left_commute and.left_idem)
  ultimately show "bit (v OR covered (m AND NOT v) es) i = bit (v OR covered m es) i"
    unfolding bit_or_iff bit_covered by blast
qed

lemma chosen_covers: "larger_first es \<Longrightarrow> m AND NOT (left_over m es) = covered m es"
proof (induction m es rule: left_over.induct)
  case (1 m)
  then show ?case by (simp add: covered_def)
next
  case (2 m e es)
  let ?v = "entry_value e"
  have rest: "larger_first es" "\<forall>f\<in>set es. ?v AND entry_value f = 0 \<or> ?v AND entry_value f = entry_value f"
    using 2(3) by (simp_all add: larger_first_def)
  show ?case
  proof (cases "m AND ?v = ?v")
    case True
    have "left_over (m AND NOT ?v) es AND (m AND NOT ?v) = left_over (m AND NOT ?v) es" by (rule left_over_subset)
    then have "m AND NOT (left_over (m AND NOT ?v) es) = ?v OR ((m AND NOT ?v) AND NOT (left_over (m AND NOT ?v) es))"
      using True by (auto simp: bit_eq_iff bit_simps)
    also have "\<dots> = ?v OR covered (m AND NOT ?v) es" using 2(1) [OF True rest(1)] by simp
    also have "\<dots> = ?v OR covered m es" by (rule covered_without [OF True rest(2)])
    finally show ?thesis using True by (simp add: covered_def)
  next
    case False
    then show ?thesis using 2(2) [OF False rest(1)] by (simp add: covered_def)
  qed
qed

text \<open>In any list, no entry is left that is within the bits that were not printed.\<close>

lemma nothing_left: "e \<in> set es \<Longrightarrow> left_over m es AND entry_value e = entry_value e \<Longrightarrow> entry_value e = 0"
proof (induction m es rule: left_over.induct)
  case (2 m f es)
  let ?v = "entry_value f"
  show ?case
  proof (cases "e = f")
    case True
    have "m AND ?v = ?v \<Longrightarrow> ?v = 0"
    proof -
      assume sub: "m AND ?v = ?v"
      let ?l = "left_over (m AND NOT ?v) es"
      have "?l AND (m AND NOT ?v) = ?l" by (rule left_over_subset)
      moreover have "?l AND ?v = ?v" using 2(4) sub True by simp
      ultimately show "?v = 0" by (auto simp: bit_eq_iff bit_simps)
    qed
    moreover have "m AND ?v = ?v" if "\<not> m AND ?v = ?v"
      using 2(4) that True left_over_subset [of m es] by (metis and.assoc and.commute left_over.simps(2))
    ultimately show ?thesis using True by blast
  next
    case False
    then show ?thesis using 2 by (auto split: if_splits)
  qed
qed simp

lemma first_word_not_blank: "readable accepted \<Longrightarrow> set es \<subseteq> set accepted \<Longrightarrow> \<not> first_token_is_blank (listing (map entry_word es))"
proof (cases es)
  case (Cons e es')
  assume a: "readable accepted" "set es \<subseteq> set accepted"
  let ?w = "entry_word e" and ?rest = "listing (map entry_word es')"
  have w: "?w \<noteq> []" "list_all word_char ?w" "list_all (\<lambda>c. \<not> is_separator c) ?w"
    using a Cons by (auto simp: readable_def list_all_iff word_char_def)
  have "strtok_token (listing (map entry_word es)) = Some (?w, ?rest, ?w)"
  proof (cases es')
    case Nil
    then show ?thesis using strtok_token_word(1) [of "[]" ?w] w Cons by (simp add: listing_def)
  next
    case (Cons e' es'')
    then show ?thesis using \<open>es = e # es'\<close> strtok_token_word(2) [of "[]" ?w "CHR '',''" ?rest] w
      by (simp add: listing_def is_separator_def SEPARATORS_def)
  qed
  then show ?thesis using w trim_word by (simp add: first_token_is_blank_def)
qed (simp add: first_token_is_blank_def listing_def strtok_token_def)

lemma chosen_subset: "set (chosen m es) \<subseteq> set es"
  by (induction m es rule: chosen.induct) auto

text \<open>C29: printing a set for a shell and reading the word that the shell sees, provided that the first names of the entries are words
that can be told apart. What is read back is a part of the set, such that no entry is left that is within the rest. If each entry
contains every later one that it overlaps with, it is all the bits that the entries within the set cover; otherwise it can be less, since
an entry that overlaps with one that has been printed is not printed.\<close>

theorem printed_set_is_read_back:
  assumes "readable accepted" and "word = listing (map entry_word (chosen m accepted))"
    and "\<not> equal_icase_string word ''none''" and "\<not> equal_icase_string word ''no''"
  shows "\<exists>text v. dump_bitset name m accepted = name @ ''='' @ text @ [CHR 0x0A] \<and> shell_word False text = Some word \<and>
    parse_bitset (\<lambda>_. True) word accepted = Inr (True, v) \<and> m AND v = v \<and>
    (\<forall>e\<in>set accepted. (m AND NOT v) AND entry_value e = entry_value e \<longrightarrow> entry_value e = 0) \<and>
    (larger_first accepted \<longrightarrow> v = covered m accepted)"
proof -
  let ?es = "chosen m accepted" and ?v = "m AND NOT (left_over m accepted)"
  have sub: "set ?es \<subseteq> set accepted" by (rule chosen_subset)
  have v: "?v = foldl (\<lambda>m e. m OR entry_value e) 0 ?es" by (simp add: chosen_bits)
  obtain r where r: "parse_entries (length word + 1) accepted (Some word) [] 0 = Inr r"
    using parse_entries_start first_word_not_blank [OF assms(1) sub] assms(2) by blast
  have "r = (True, ?v)"
  proof (cases "?es = []")
    case True
    then have "r = (True, 0)" using r assms(2) by (simp add: listing_def strtok_token_def)
    then show ?thesis using v True by simp
  next
    case False
    then obtain k where "parse_entries k accepted (Some word) [] 0 = Inr (True, ?v)"
      using parse_entries_tail [OF assms(1) sub, of "Some word"] assms(2) v by auto
    then show ?thesis using r parse_entries_more [of k] parse_entries_more [of "length word + 1"]
      by (metis add.commute sum.inject(2))
  qed
  then have "parse_bitset (\<lambda>_. True) word accepted = Inr (True, ?v)" using r assms(3,4) by (simp add: parse_bitset_def)
  moreover have "m AND NOT ?v = left_over m accepted" using left_over_subset [of m accepted]
    by (auto simp: bit_eq_iff bit_simps)
  then have "\<forall>e\<in>set accepted. (m AND NOT ?v) AND entry_value e = entry_value e \<longrightarrow> entry_value e = 0"
    using nothing_left by simp
  moreover have "m AND ?v = ?v" by (simp add: and.assoc [symmetric])
  moreover have "larger_first accepted \<longrightarrow> ?v = covered m accepted" using chosen_covers by simp
  ultimately show ?thesis using shell_listing assms(2)
    by (intro exI [of _ "listing (map (\<lambda>e. single_quote_string (entry_word e)) ?es)"] exI [of _ ?v])
       (simp add: dump_bitset_def dump_entries_listing)
qed

definition sample_entries :: "set_entry list" where
  "sample_entries = [\<lparr>entry_name = ''all/everything'', entry_value = 7\<rparr>, \<lparr>entry_name = ''send'', entry_value = 1\<rparr>,
    \<lparr>entry_name = ''recv/receive'', entry_value = 2\<rparr>]"

lemma sample_readable: "readable sample_entries"
  by code_simp

lemma sample_word: "listing (map entry_word (chosen 3 sample_entries)) = ''send,recv''"
  by code_simp

lemma sample_not_none: "\<not> equal_icase_string ''send,recv'' ''none''" "\<not> equal_icase_string ''send,recv'' ''no''"
  by code_simp+

lemma sample_larger_first: "larger_first sample_entries"
  by (simp add: larger_first_def sample_entries_def)

lemma sample_covered: "covered 3 sample_entries = 3"
  by code_simp

lemma printed_set_is_read_back_witness:
  "\<exists>text. dump_bitset ''N'' 3 sample_entries = ''N'' @ ''='' @ text @ [CHR 0x0A] \<and> shell_word False text = Some ''send,recv'' \<and>
    parse_bitset (\<lambda>_. True) ''send,recv'' sample_entries = Inr (True, 3)"
  using printed_set_is_read_back [OF sample_readable sample_word [symmetric] sample_not_none, of "''N''"] sample_larger_first
  unfolding sample_covered by blast

end
