(* ===== verification/ConfigLookup.thy ===== *)
theory ConfigLookup
  imports ConfigRegistry
begin

section \<open>Registration, search and the environment\<close>

text \<open>
  The tables of name spaces and variables break the contract \<open>key_functions\<close> of the hash table: names that differ in case
  compare as equal, but their hash values differ. What remains is the contract \<open>spelled_names\<close> below: a name is found
  as it was spelled when it was registered.
\<close>

subsection \<open>Names\<close>

lemma tolower_idem: "tolower (tolower c) = tolower c"
proof (cases "isupper c")
  case True
  then have "(of_char c :: nat) + 32 < 256" by (simp add: isupper_def)
  then show ?thesis using True by (auto simp: tolower_def isupper_def)
qed (simp add: tolower_def)

lemma string_to_lower_map: "string_to_lower = map tolower"
  by (auto simp: string_to_lower_def isalpha_def tolower_def fun_eq_iff)

lemma map_tolower_idem: "map tolower (map tolower s) = map tolower s"
  by (simp add: tolower_idem)

definition position_of :: "('k, 'v) hashtab \<Rightarrow> 'k \<Rightarrow> 'v option" where
  "position_of t k = (case SCOREP_Hashtab_Find t k of Inr (e, _) \<Rightarrow> map_option item_value e | Inl _ \<Rightarrow> None)"

definition table_ok :: "('k, 'v) hashtab \<Rightarrow> bool" where
  "table_ok t \<longleftrightarrow> 0 < tabsize t \<and> length (table t) = tabsize t"

lemma Find_ok:
  "table_ok t \<Longrightarrow> SCOREP_Hashtab_Find t k =
    Inr (find_item (item_matches t k (hash_func t k)) (table t ! chain_index t (hash_func t k)), hash_func t k)"
  by (simp add: table_ok_def SCOREP_Hashtab_Find_def read_table_def chain_index_def Let_def)

lemma Find_after_Insert:
  assumes "table_ok t"
  shows "\<exists>item t'. SCOREP_Hashtab_Insert True t key v (Some h) = Inr (Some item, t') \<and> table_ok t' \<and>
    hash_func t' = hash_func t \<and> kcmp_func t' = kcmp_func t \<and> item_value item = v \<and>
    (\<forall>k. SCOREP_Hashtab_Find t' k =
      (if hash_func t k = h \<and> kcmp_func t k key = 0 then Inr (Some item, hash_func t k) else SCOREP_Hashtab_Find t k))"
proof -
  let ?i = "chain_index t h" and ?item = "\<lparr>item_key = key, item_value = v, hash_value = h\<rparr>"
  let ?t = "t\<lparr>table := (table t)[?i := ?item # table t ! ?i], hashtab_size := size_wrap (hashtab_size t + 1)\<rparr>"
  have i: "?i < length (table t)" using assms by (simp add: table_ok_def chain_index_def)
  have ok: "table_ok ?t" using assms by (simp add: table_ok_def)
  have run: "SCOREP_Hashtab_Insert True t key v (Some h) = Inr (Some ?item, ?t)"
    using i by (simp add: SCOREP_Hashtab_Insert_def hash_or_def read_table_def Let_def)
  have m: "item_matches ?t k x = item_matches t k x" for k x by (simp add: item_matches_def fun_eq_iff)
  have c: "chain_index ?t x = chain_index t x" for x by (simp add: chain_index_def)
  have "SCOREP_Hashtab_Find ?t k =
      (if hash_func t k = h \<and> kcmp_func t k key = 0 then Inr (Some ?item, hash_func t k) else SCOREP_Hashtab_Find t k)" for k
  proof (cases "chain_index t (hash_func t k) = ?i")
    case True
    then show ?thesis using i unfolding Find_ok [OF ok] Find_ok [OF assms] m c
      by (auto simp: item_matches_def)
  next
    case False
    then show ?thesis unfolding Find_ok [OF ok] Find_ok [OF assms] m c by auto
  qed
  with run ok show ?thesis by auto
qed

locale spelled_names =
  fixes hash :: "string \<Rightarrow> u64" and kcmp :: "string \<Rightarrow> string \<Rightarrow> int"
  assumes equal_names: "kcmp a b = 0 \<longleftrightarrow> map tolower a = map tolower b"
begin

text \<open>A table of positions below \<open>n\<close>.\<close>

definition holds :: "(string, nat) hashtab \<Rightarrow> nat \<Rightarrow> bool" where
  "holds t n \<longleftrightarrow> table_ok t \<and> hash_func t = hash \<and> kcmp_func t = kcmp \<and> (\<forall>k i. position_of t k = Some i \<longrightarrow> i < n)"

lemma create: "SCOREP_Hashtab_CreateSize True 32 hash kcmp = Inr (Some t) \<Longrightarrow> holds t 0"
  by (auto simp: SCOREP_Hashtab_CreateSize_def holds_def table_ok_def position_of_def Find_ok chain_index_def
      split: sum.splits option.splits)

lemma find: "holds t n \<Longrightarrow> \<exists>e. SCOREP_Hashtab_Find t k = Inr (e, hash k) \<and> position_of t k = map_option item_value e"
  by (simp add: holds_def position_of_def Find_ok)

lemma add:
  assumes "holds t n" and "SCOREP_Hashtab_Find t name = Inr (None, h)"
  shows "\<exists>item t'. SCOREP_Hashtab_Insert True t (string_to_lower name) n (Some h) = Inr (item, t') \<and> holds t' (Suc n) \<and>
    position_of t' name = Some n \<and> (\<forall>k i. position_of t k = Some i \<longrightarrow> position_of t' k = Some i)"
proof -
  have ok: "table_ok t" and funs: "hash_func t = hash" "kcmp_func t = kcmp" using assms(1) by (auto simp: holds_def)
  have h: "h = hash name" and none: "find_item (item_matches t name h) (table t ! chain_index t h) = None"
    using assms(2) by (auto simp: Find_ok [OF ok] funs)
  obtain item t' where ins: "SCOREP_Hashtab_Insert True t (string_to_lower name) n (Some h) = Inr (Some item, t')"
    and ok': "table_ok t'" and funs': "hash_func t' = hash" "kcmp_func t' = kcmp" and val: "item_value item = n"
    and find': "\<And>k. SCOREP_Hashtab_Find t' k =
      (if hash k = h \<and> kcmp k (string_to_lower name) = 0 then Inr (Some item, hash k) else SCOREP_Hashtab_Find t k)"
    using Find_after_Insert [OF ok, of "string_to_lower name" n h] funs by auto
  have same: "kcmp k (string_to_lower name) = 0 \<longleftrightarrow> map tolower k = map tolower name" for k
    by (simp only: equal_names string_to_lower_map map_tolower_idem)
  have old: "position_of t k = None" if "hash k = h" and "map tolower k = map tolower name" for k
  proof -
    have "item_matches t k h = item_matches t name h" using that equal_names by (auto simp: item_matches_def funs fun_eq_iff)
    then show ?thesis using none that by (simp add: position_of_def Find_ok [OF ok] funs)
  qed
  have pos: "position_of t' k = (if hash k = h \<and> map tolower k = map tolower name then Some n else position_of t k)" for k
    using find' [of k] same by (simp add: position_of_def val)
  then have "position_of t k = Some i \<Longrightarrow> position_of t' k = Some i" for k i using old [of k] by auto
  moreover have "holds t' (Suc n)" using ok' funs' pos assms(1) by (auto simp: holds_def less_Suc_eq)
  ultimately show ?thesis using ins pos [of name] h by auto
qed

end

interpretation space_names: spelled_names hash_name_space compare_name_space
proof unfold_locales
  fix a b
  show "compare_name_space a b = 0 \<longleftrightarrow> map tolower a = map tolower b"
    by (auto simp: compare_name_space_def strcasecmp_def dest: map_eq_imp_length_eq)
qed

interpretation variable_names: spelled_names hash_variable compare_variable
  by unfold_locales (simp add: compare_variable_def strcasecmp_def)

subsection \<open>Registration\<close>

text \<open>Every position in a table belongs to a name space or variable.\<close>

definition space_ok :: "name_space \<Rightarrow> bool" where
  "space_ok ns \<longleftrightarrow> variable_names.holds (variable_table ns) (length (variables ns))"

definition config_ok :: "config \<Rightarrow> bool" where
  "config_ok c \<longleftrightarrow> (case name_spaces c of None \<Rightarrow> True | Some tab \<Rightarrow>
     space_names.holds tab (length (name_space_list c)) \<and> list_all space_ok (name_space_list c))"

text \<open>What is known of a variable after its registration.\<close>

definition registered :: "(nat \<Rightarrow> bool) \<Rightarrow> new_variable \<Rightarrow> config_variable \<Rightarrow> bool" where
  "registered alloc v var \<longleftrightarrow> variable_name var = string_to_lower (new_name v) \<and> variable_type var = new_type v \<and>
     Some (default_value var) = new_default v \<and> Some (short_help var) = new_short_help v \<and> Some (long_help var) = new_long_help v \<and>
     variable_context var = new_context v \<and> \<not> is_evaluated var \<and> \<not> is_changed var \<and>
     (\<exists>old. new_reference v = Some old \<and>
        parse_value alloc (default_value var) (new_type v) old (new_context v) = Inr (True, variable_value var))"

lemma register_variable_ok:
  assumes "space_ok ns" and "register_variable True alloc v ns = Inr ns'"
  shows "space_ok ns' \<and> length (variables ns') = Suc (length (variables ns)) \<and>
    take (length (variables ns)) (variables ns') = variables ns \<and>
    position_of (variable_table ns') (new_name v) = Some (length (variables ns)) \<and>
    registered alloc v (variables ns' ! length (variables ns)) \<and>
    (\<forall>k i. position_of (variable_table ns) k = Some i \<longrightarrow> position_of (variable_table ns') k = Some i)"
proof -
  let ?n = "length (variables ns)"
  have holds: "variable_names.holds (variable_table ns) ?n" using assms(1) by (simp add: space_ok_def)
  obtain e where e: "SCOREP_Hashtab_Find (variable_table ns) (new_name v) = Inr (e, hash_variable (new_name v))"
    using variable_names.find [OF holds] by blast
  have none: "e = None" using assms(2) e by (auto simp: register_variable_def get_variable_def outcome_simps split: option.splits if_splits)
  obtain item t' where ins: "SCOREP_Hashtab_Insert True (variable_table ns) (string_to_lower (new_name v)) ?n
      (Some (hash_variable (new_name v))) = Inr (item, t')"
    and t': "variable_names.holds t' (Suc ?n)" "position_of t' (new_name v) = Some ?n"
      "\<forall>k i. position_of (variable_table ns) k = Some i \<longrightarrow> position_of t' k = Some i"
    using variable_names.add [OF holds] e none by blast
  let ?ns = "ns\<lparr>variable_table := t', variables := variables ns @ [fresh_variable (space_name ns) (string_to_lower (new_name v))]\<rparr>"
  have get: "get_variable True ns (new_name v) True = Inr (Some ?n, ?ns)"
    using e none ins by (simp add: get_variable_def Let_def)
  obtain old def_value short long where args: "new_reference v = Some old" "new_default v = Some def_value"
      "new_short_help v = Some short" "new_long_help v = Some long"
    using assms(2) by (auto simp: register_variable_def split: option.splits)
  obtain val where val: "parse_value alloc def_value (new_type v) old (new_context v) = Inr (True, val)"
    and ns': "ns' = ?ns\<lparr>variables := (variables ?ns)[?n := (variables ?ns ! ?n)\<lparr>variable_type := new_type v, variable_value := val,
        variable_context := new_context v, default_value := def_value, short_help := short, long_help := long\<rparr>]\<rparr>"
    using assms(2) args get by (auto simp: register_variable_def Let_def outcome_simps split: if_splits sum.splits)
  show ?thesis using t' val args unfolding ns'
    by (simp add: space_ok_def registered_def fresh_variable_def)
qed


lemma register_all_ok:
  "space_ok ns \<Longrightarrow> register_all True alloc vs ns = Inr ns' \<Longrightarrow>
    space_ok ns' \<and> take (length (variables ns)) (variables ns') = variables ns \<and>
    length (variables ns) \<le> length (variables ns') \<and>
    (\<forall>k i. position_of (variable_table ns) k = Some i \<longrightarrow> position_of (variable_table ns') k = Some i) \<and>
    (\<forall>v\<in>set vs. \<exists>i<length (variables ns'). position_of (variable_table ns') (new_name v) = Some i \<and>
       registered alloc v (variables ns' ! i))"
proof (induction vs arbitrary: ns)
  case (Cons v vs)
  let ?n = "length (variables ns)"
  obtain ns1 where step: "register_variable True alloc v ns = Inr ns1" and rest: "register_all True alloc vs ns1 = Inr ns'"
    using Cons.prems(2) by (auto simp: outcome_simps)
  note a = register_variable_ok [OF Cons.prems(1) step]
  have ih: "space_ok ns' \<and> take (length (variables ns1)) (variables ns') = variables ns1 \<and>
    length (variables ns1) \<le> length (variables ns') \<and>
    (\<forall>k i. position_of (variable_table ns1) k = Some i \<longrightarrow> position_of (variable_table ns') k = Some i) \<and>
    (\<forall>v\<in>set vs. \<exists>i<length (variables ns'). position_of (variable_table ns') (new_name v) = Some i \<and>
       registered alloc v (variables ns' ! i))"
    using Cons.IH rest a by blast
  have "take ?n (variables ns') = take ?n (take (length (variables ns1)) (variables ns'))" using a by (simp add: min_def)
  also have "\<dots> = take ?n (variables ns1)" by (rule arg_cong [of _ _ "take ?n"]) (use ih in blast)
  also have "\<dots> = variables ns" using a by blast
  finally have "take ?n (variables ns') = variables ns" .
  moreover have "variables ns' ! ?n = variables ns1 ! ?n" using ih a by (metis lessI nth_take)
  ultimately show ?case using ih a by auto
qed simp

text \<open>The lookup of a variable, and its place.\<close>

lemma get_name_space_found:
  assumes "config_ok c" and "get_name_space True name True c = Inr (Some i, c')"
  shows "config_ok c' \<and> i < length (name_space_list c') \<and>
    (\<exists>tab. name_spaces c' = Some tab \<and> position_of tab name = Some i)"
proof -
  obtain tab where tab: "name_spaces c = Some tab" using assms(2) by (auto simp: get_name_space_def split: option.splits)
  let ?n = "length (name_space_list c)"
  have holds: "space_names.holds tab ?n" and all: "list_all space_ok (name_space_list c)"
    using assms(1) tab by (simp_all add: config_ok_def)
  obtain e where e: "SCOREP_Hashtab_Find tab name = Inr (e, hash_name_space name)" "position_of tab name = map_option item_value e"
    using space_names.find [OF holds] by blast
  show ?thesis
  proof (cases e)
    case None
    obtain item t' where "SCOREP_Hashtab_Insert True tab (string_to_lower name) ?n (Some (hash_name_space name)) = Inr (item, t')"
      and t': "space_names.holds t' (Suc ?n)" "position_of t' name = Some ?n"
      using space_names.add [OF holds] e(1) None by blast
    moreover obtain vars where "SCOREP_Hashtab_CreateSize True 32 hash_variable compare_variable = Inr (Some vars :: (string, nat) hashtab option)"
      by (auto simp: SCOREP_Hashtab_CreateSize_def)
    moreover from this have "variable_names.holds vars 0" by (rule variable_names.create)
    ultimately show ?thesis using assms(2) tab e None all
      by (auto simp: get_name_space_def Let_def config_ok_def space_ok_def)
  next
    case (Some a)
    then have "i = item_value a" "c' = c" using assms(2) tab e by (auto simp: get_name_space_def)
    then show ?thesis using assms(1) tab e(2) Some holds by (simp add: space_names.holds_def)
  qed
qed

lemma get_data_at:
  assumes "config_ok c" and "name_spaces c = Some tab" and "position_of tab space = Some i"
    and "position_of (variable_table (name_space_list c ! i)) name = Some j"
  shows "SCOREP_ConfigGetData memory space name c = Inr (Some (variables (name_space_list c ! i) ! j))"
proof -
  have holds: "space_names.holds tab (length (name_space_list c))" using assms(1,2) by (simp add: config_ok_def)
  then have i: "i < length (name_space_list c)" using assms(3) by (simp add: space_names.holds_def)
  then have "variable_names.holds (variable_table (name_space_list c ! i)) (length (variables (name_space_list c ! i)))"
    using assms(1,2) by (simp add: config_ok_def list_all_length space_ok_def)
  then obtain e where e: "SCOREP_Hashtab_Find (variable_table (name_space_list c ! i)) name = Inr (Some e, hash_variable name)"
      "item_value e = j"
    using variable_names.find [of _ _ name] assms(4) by fastforce
  obtain e' where e': "SCOREP_Hashtab_Find tab space = Inr (Some e', hash_name_space space)" "item_value e' = i"
    using space_names.find [OF holds, of space] assms(3) by fastforce
  show ?thesis using assms(2) e e' by (simp add: SCOREP_ConfigGetData_def get_name_space_def get_variable_def)
qed

text \<open>C21: registration keeps every table of positions in its bounds, and every variable that was registered is found under
the name of its space and its own name as they were spelled, with its description and its default value parsed.\<close>

theorem registered_variables_are_found:
  assumes "config_ok c" and "SCOREP_ConfigRegister True alloc space vs c = Inr (Config_Success, c')" and "v \<in> set vs"
  shows "config_ok c' \<and> (\<exists>var. SCOREP_ConfigGetData True space (new_name v) c' = Inr (Some var) \<and> registered alloc v var)"
proof -
  obtain i c1 ns where get: "get_name_space True space True c = Inr (Some i, c1)"
    and reg: "register_all True alloc vs (name_space_list c1 ! i) = Inr ns"
    and c': "c' = c1\<lparr>name_space_list := (name_space_list c1)[i := ns]\<rparr>"
    using assms(2) by (auto simp: SCOREP_ConfigRegister_def outcome_simps split: option.splits)
  have c1: "config_ok c1" "i < length (name_space_list c1)" using get_name_space_found [OF assms(1) get] by simp_all
  obtain tab where tab: "name_spaces c1 = Some tab" "position_of tab space = Some i"
    using get_name_space_found [OF assms(1) get] by blast
  have "space_ok (name_space_list c1 ! i)" using c1 tab by (simp add: config_ok_def list_all_length)
  note r = register_all_ok [OF this reg]
  have "config_ok c'" using c1 tab r unfolding c' by (auto simp: config_ok_def list_all_length nth_list_update)
  moreover obtain j where "position_of (variable_table ns) (new_name v) = Some j" "registered alloc v (variables ns ! j)"
    using r assms(3) by blast
  ultimately show ?thesis using get_data_at [of c' tab space i "new_name v" j True] tab c1(2) unfolding c' by auto
qed

definition sample_variable :: new_variable where
  "sample_variable = \<lparr>new_name = ''total_memory'', new_type = Config_Size, new_reference = Some (Number 0), new_context = None,
     new_default = Some ''16M'', new_short_help = Some ''memory'', new_long_help = Some ''memory''\<rparr>"

definition no_config :: config where
  "no_config = \<lparr>name_spaces = None, name_space_list = [], force_conditional = False\<rparr>"

definition init_config :: config where
  "init_config = (case SCOREP_ConfigInit True no_config of Inr (_, c) \<Rightarrow> c | Inl _ \<Rightarrow> no_config)"


lemma init_config_ok: "config_ok init_config"
proof -
  obtain t where t: "SCOREP_Hashtab_CreateSize True 32 hash_name_space compare_name_space = Inr (Some t :: (string, nat) hashtab option)"
    by (auto simp: SCOREP_Hashtab_CreateSize_def)
  then have "space_names.holds t 0" by (rule space_names.create)
  then show ?thesis using t by (simp add: init_config_def SCOREP_ConfigInit_def no_config_def config_ok_def)
qed

lemma register_variable_succeeds:
  assumes "space_ok ns" and "position_of (variable_table ns) (new_name v) = None"
    and "new_reference v = Some old" and "new_default v = Some def_value" and "new_short_help v = Some short" and "new_long_help v \<noteq> None"
    and "list_all (\<lambda>c. c \<notin> set CONTROL_CHARACTERS) short" and "length (new_name v) \<noteq> 1" and "length (new_name v) \<le> ENV_NAME_SUB_LEN_MAX"
    and "check_name (new_name v) False" and "new_type v \<noteq> Config_Bitset"
    and "parse_value alloc def_value (new_type v) old (new_context v) = Inr (True, val)"
  shows "\<exists>ns'. register_variable True alloc v ns = Inr ns'"
proof -
  have holds: "variable_names.holds (variable_table ns) (length (variables ns))" using assms(1) by (simp add: space_ok_def)
  have none: "SCOREP_Hashtab_Find (variable_table ns) (new_name v) = Inr (None, hash_variable (new_name v))"
    using variable_names.find [OF holds, of "new_name v"] assms(2) by auto
  obtain item t' where "SCOREP_Hashtab_Insert True (variable_table ns) (string_to_lower (new_name v)) (length (variables ns))
      (Some (hash_variable (new_name v))) = Inr (item, t')"
    using variable_names.add [OF holds none] by blast
  then show ?thesis using assms(3-) none
    by (auto simp: register_variable_def get_variable_def Let_def)
qed

lemma new_name_space:
  assumes "space_names.holds tab 0" and "name_spaces c = Some tab" and "name_space_list c = []"
  shows "\<exists>c'. get_name_space True name True c = Inr (Some 0, c') \<and> length (name_space_list c') = 1 \<and>
    variable_names.holds (variable_table (name_space_list c' ! 0)) 0 \<and> variables (name_space_list c' ! 0) = []"
proof -
  have none: "SCOREP_Hashtab_Find tab name = Inr (None, hash_name_space name)"
    using space_names.find [OF assms(1), of name] assms(1) by (cases "position_of tab name") (auto simp: space_names.holds_def)
  obtain item t' where "SCOREP_Hashtab_Insert True tab (string_to_lower name) 0 (Some (hash_name_space name)) = Inr (item, t')"
    using space_names.add [OF assms(1) none] by blast
  moreover obtain vars where vars: "SCOREP_Hashtab_CreateSize True 32 hash_variable compare_variable = Inr (Some vars :: (string, nat) hashtab option)"
    by (auto simp: SCOREP_Hashtab_CreateSize_def)
  moreover from this have "variable_names.holds vars 0" by (rule variable_names.create)
  ultimately show ?thesis using none assms(2,3) by (simp add: get_name_space_def Let_def)
qed

definition sample_config :: config where
  "sample_config = (case SCOREP_ConfigRegister True (\<lambda>_. True) [] [sample_variable] init_config of Inr (_, c) \<Rightarrow> c | Inl _ \<Rightarrow> no_config)"

lemma sample_parses: "parse_value (\<lambda>_. True) ''16M'' Config_Size (Number 0) None = Inr (True, Number 16777216)"
  by code_simp

lemma sample_name: "check_name ''total_memory'' False"
  by code_simp

lemma sample_registers:
  "SCOREP_ConfigRegister True (\<lambda>_. True) [] [sample_variable] init_config = Inr (Config_Success, sample_config)"
proof -
  obtain t where t: "SCOREP_Hashtab_CreateSize True 32 hash_name_space compare_name_space = Inr (Some t :: (string, nat) hashtab option)"
    by (auto simp: SCOREP_Hashtab_CreateSize_def)
  then have "space_names.holds t 0" "name_spaces init_config = Some t" "name_space_list init_config = []"
    using space_names.create by (auto simp: init_config_def SCOREP_ConfigInit_def no_config_def)
  from new_name_space [OF this, of "[]"] obtain c where c: "get_name_space True [] True init_config = Inr (Some 0, c)"
    "variable_names.holds (variable_table (name_space_list c ! 0)) 0" "variables (name_space_list c ! 0) = []" by blast
  then have ok: "space_ok (name_space_list c ! 0)" and "position_of (variable_table (name_space_list c ! 0)) (new_name sample_variable) = None"
    by (auto simp: space_ok_def variable_names.holds_def)
  then obtain ns where "register_variable True (\<lambda>_. True) sample_variable (name_space_list c ! 0) = Inr ns"
    using register_variable_succeeds [where v = sample_variable] sample_parses sample_name
    by (fastforce simp: sample_variable_def CONTROL_CHARACTERS_def ENV_NAME_SUB_LEN_MAX_def)
  then have "\<exists>c'. SCOREP_ConfigRegister True (\<lambda>_. True) [] [sample_variable] init_config = Inr (Config_Success, c')"
    using c(1) \<open>name_spaces init_config = Some t\<close> by (simp add: SCOREP_ConfigRegister_def check_name_def)
  then show ?thesis by (auto simp: sample_config_def)
qed

lemma registered_variables_are_found_witness:
  "config_ok sample_config \<and>
   (\<exists>var. SCOREP_ConfigGetData True [] ''total_memory'' sample_config = Inr (Some var) \<and> registered (\<lambda>_. True) sample_variable var)"
  using registered_variables_are_found [OF init_config_ok sample_registers, of sample_variable]
  by (simp add: sample_variable_def)

subsection \<open>The environment\<close>

lemma apply_env_evaluated: "apply_env alloc getenv v = Inr (s, v') \<Longrightarrow> is_evaluated v'"
  by (auto simp: apply_env_def outcome_simps split: if_splits option.splits)

lemma apply_env_again: "is_evaluated v \<Longrightarrow> apply_env alloc getenv v = Inr (True, v)"
  by (simp add: apply_env_def)

lemma apply_env_all_evaluated:
  "apply_env_all alloc getenv vs = Inr (True, vs') \<Longrightarrow> list_all is_evaluated vs'"
  by (induction vs arbitrary: vs') (auto simp: outcome_simps dest: apply_env_evaluated split: if_splits)

lemma apply_env_all_again: "list_all is_evaluated vs \<Longrightarrow> apply_env_all alloc getenv vs = Inr (True, vs)"
  by (induction vs) (simp_all add: apply_env_again)

lemma apply_env_spaces_evaluated:
  "apply_env_spaces alloc getenv nss = Inr (True, nss') \<Longrightarrow> list_all (\<lambda>ns. list_all is_evaluated (variables ns)) nss'"
  by (induction nss arbitrary: nss') (auto simp: outcome_simps dest: apply_env_all_evaluated split: if_splits)

lemma apply_env_spaces_again:
  "list_all (\<lambda>ns. list_all is_evaluated (variables ns)) nss \<Longrightarrow> apply_env_spaces alloc getenv nss = Inr (True, nss)"
  by (induction nss) (simp_all add: apply_env_all_again)

text \<open>Once the environment was applied without an error, applying it again, even after it has changed, changes nothing.\<close>

theorem environment_is_applied_once:
  assumes "SCOREP_ConfigApplyEnv alloc getenv c = Inr (Config_Success, c')"
  shows "SCOREP_ConfigApplyEnv alloc' getenv' c' = Inr (Config_Success, c')"
proof -
  have "list_all (\<lambda>ns. list_all is_evaluated (variables ns)) (name_space_list c')" and "name_spaces c' \<noteq> None"
    using assms apply_env_spaces_evaluated
    by (auto simp: SCOREP_ConfigApplyEnv_def outcome_simps split: if_splits)
  then show ?thesis by (simp add: SCOREP_ConfigApplyEnv_def apply_env_spaces_again)
qed

definition sample_env :: "string \<Rightarrow> string option" where
  "sample_env s = (if s = ''SCOREP_TOTAL_MEMORY'' then Some ''2G'' else None)"

definition unapplied_config :: config where
  "unapplied_config = init_config\<lparr>name_space_list := [\<lparr>space_name = [],
     variable_table = \<lparr>table = [], tabsize = 0, hashtab_size = 0, hash_func = hash_variable, kcmp_func = compare_variable\<rparr>,
     variables = [(fresh_variable [] ''total_memory'')\<lparr>variable_type := Config_Size, variable_value := Number 16777216\<rparr>]\<rparr>]\<rparr>"

definition applied_config :: config where
  "applied_config = (case SCOREP_ConfigApplyEnv (\<lambda>_. True) sample_env unapplied_config of Inr (_, c) \<Rightarrow> c | Inl _ \<Rightarrow> no_config)"

lemma sample_env_name: "env_name [] ''total_memory'' = ''SCOREP_TOTAL_MEMORY''"
  by code_simp

lemma sample_env_parses: "parse_value (\<lambda>_. True) ''2G'' Config_Size (Number 16777216) None = Inr (True, Number 2147483648)"
  by code_simp

lemma sample_applied: "SCOREP_ConfigApplyEnv (\<lambda>_. True) sample_env unapplied_config = Inr (Config_Success, applied_config)"
proof -
  have "name_spaces init_config \<noteq> None"
    by (simp add: init_config_def SCOREP_ConfigInit_def no_config_def SCOREP_Hashtab_CreateSize_def)
  then have "\<exists>c. SCOREP_ConfigApplyEnv (\<lambda>_. True) sample_env unapplied_config = Inr (Config_Success, c)"
    using sample_env_parses
    by (simp add: SCOREP_ConfigApplyEnv_def unapplied_config_def apply_env_def fresh_variable_def sample_env_name sample_env_def)
  then show ?thesis by (auto simp: applied_config_def)
qed

lemma environment_is_applied_once_witness:
  "SCOREP_ConfigApplyEnv (\<lambda>_. True) (\<lambda>_. Some ''1'') applied_config = Inr (Config_Success, applied_config)"
  by (rule environment_is_applied_once [OF sample_applied])

end
