(* ===== verification/AllocMetric.thy ===== *)
theory AllocMetric
  imports Prelude "HOL-Library.Tree"
begin

section \<open>Tracking of allocations\<close>

text \<open>
  \<^verbatim>\<open>src/utils/alloc_metric/SCOREP_AllocMetric.c\<close>: the allocations of the program, found by their address in a splay tree,
  with the total of their sizes. The tree is that of the library theory Tree: the pointers \<^verbatim>\<open>left\<close> and \<^verbatim>\<open>right\<close> are the
  subtrees, and no item is shared. Items that a thread has taken out of the tree are passed as values; the address of an item, which is what a pointer
  comparison sees and what the free list keeps, is one of its fields. Addresses for new items are given as a list, and
  an empty list is exhausted memory, which ends the program.

  What the metric reports, the values of the counter and the events for the substrates, is appended to a list in the order of
  the calls; a substrate may change its data in an item, which the function \<open>track\<close> describes. The mutex makes each function one step.
\<close>

subsection \<open>Data\<close>

definition NUM_SUBSTRATES :: nat where "NUM_SUBSTRATES = 4"

record allocation_item =
  item_ptr :: nat
  alloc_address :: u64
  alloc_size :: u64
  substrate_data :: "u64 list"

type_synonym alloc_tree = "allocation_item tree"

text \<open>Address and size, then for an event of the substrates the memory of the metric and of the process.\<close>

datatype alloc_event =
    Trigger_Counter u64
  | Track_Alloc u64 u64 u64 u64
  | Track_Realloc u64 u64 u64 u64 u64 u64
  | Track_Free u64 u64 u64 u64
  | Leaked_Memory u64 u64

record alloc_metric =
  allocations :: alloc_tree
  free_list :: "nat list"
  total_allocated_memory :: u64
  process_allocated_memory :: u64
  misc_memory :: "nat list"
  reported :: "alloc_event list"

subsection \<open>Splaying\<close>

text \<open>
  The nodes that were linked to the left tree, each with its left subtree, and those of the right tree with their right
  subtrees, the last one first: their missing child is the node that is linked next. The last step fills it with what is left.
\<close>

definition assemble ::
  "alloc_tree \<Rightarrow> allocation_item \<Rightarrow> alloc_tree \<Rightarrow> (alloc_tree \<times> allocation_item) list \<Rightarrow> (allocation_item \<times> alloc_tree) list \<Rightarrow> alloc_tree"
where
  "assemble l i r lefts rights =
     Node (fold (\<lambda>(t, j) acc. Node t j acc) lefts l) i (fold (\<lambda>(j, t) acc. Node acc j t) rights r)"

function splay_loop ::
  "u64 \<Rightarrow> alloc_tree \<Rightarrow> allocation_item \<Rightarrow> alloc_tree \<Rightarrow> (alloc_tree \<times> allocation_item) list \<Rightarrow> (allocation_item \<times> alloc_tree) list \<Rightarrow> alloc_tree"
where
  "splay_loop key l i r lefts rights =
     (if key < alloc_address i
      then (case l of Leaf \<Rightarrow> assemble l i r lefts rights
            | Node ll j lr \<Rightarrow>
                if key < alloc_address j
                then let r = Node lr i r
                     in (case ll of Leaf \<Rightarrow> assemble ll j r lefts rights
                         | Node l' i' r' \<Rightarrow> splay_loop key l' i' r' lefts ((j, r) # rights))
                else splay_loop key ll j lr lefts ((i, r) # rights))
      else if key > alloc_address i
      then (case r of Leaf \<Rightarrow> assemble l i r lefts rights
            | Node rl j rr \<Rightarrow>
                if key > alloc_address j
                then let l = Node l i rl
                     in (case rr of Leaf \<Rightarrow> assemble l j rr lefts rights
                         | Node l' i' r' \<Rightarrow> splay_loop key l' i' r' ((l, j) # lefts) rights)
                else splay_loop key rl j rr ((l, i) # lefts) rights)
      else assemble l i r lefts rights)"
  by pat_completeness auto
termination
  by (relation "measure (\<lambda>(key, l, i, r, lefts, rights). size l + size r)") auto

declare splay_loop.simps [simp del]

definition splay :: "alloc_tree \<Rightarrow> u64 \<Rightarrow> alloc_tree" where
  "splay root key = (case root of Leaf \<Rightarrow> Leaf | Node l i r \<Rightarrow> splay_loop key l i r [] [])"

subsection \<open>The tree\<close>

text \<open>An item whose address is known becomes the whole tree, after a warning.\<close>

definition insert_memory_allocation :: "alloc_tree \<Rightarrow> allocation_item \<Rightarrow> alloc_tree" where
  "insert_memory_allocation t allocation =
     (case splay t (alloc_address allocation) of
        Leaf \<Rightarrow> Node Leaf allocation Leaf
      | Node l i r \<Rightarrow>
          if alloc_address allocation < alloc_address i then Node l allocation (Node Leaf i r)
          else if alloc_address allocation > alloc_address i then Node (Node l i Leaf) allocation r
          else Node Leaf allocation Leaf)"

definition add_memory_allocation :: "alloc_metric \<Rightarrow> u64 \<Rightarrow> u64 \<Rightarrow> (allocation_item \<times> alloc_metric) outcome" where
  "add_memory_allocation m addr sz =
     and_then (case free_list m of
                 p # ps \<Rightarrow> Inr (p, m\<lparr>free_list := ps\<rparr>)
               | [] \<Rightarrow> (case misc_memory m of [] \<Rightarrow> Inl Abort | p # ps \<Rightarrow> Inr (p, m\<lparr>misc_memory := ps\<rparr>)))
       (\<lambda>(p, m).
          let item = \<lparr>item_ptr = p, alloc_address = addr, alloc_size = sz, substrate_data = replicate NUM_SUBSTRATES 0\<rparr>
          in Inr (item, m\<lparr>allocations := insert_memory_allocation (allocations m) item\<rparr>))"

definition find_memory_allocation :: "alloc_tree \<Rightarrow> u64 \<Rightarrow> allocation_item option \<times> alloc_tree" where
  "find_memory_allocation t addr =
     (case splay t addr of
        Leaf \<Rightarrow> (None, Leaf)
      | Node l i r \<Rightarrow> (if addr = alloc_address i then Some i else None, Node l i r))"

text \<open>The right subtree of what comes to the root of the left subtree is overwritten.\<close>

definition remove_memory_allocation :: "alloc_tree \<Rightarrow> nat \<Rightarrow> alloc_tree" where
  "remove_memory_allocation t p =
     (case t of
        Leaf \<Rightarrow> Leaf
      | Node l i r \<Rightarrow>
          if item_ptr i \<noteq> p then t
          else (case splay l (alloc_address i) of Leaf \<Rightarrow> r | Node l' j r' \<Rightarrow> Node l' j r))"

definition free_memory_allocation :: "alloc_metric \<Rightarrow> nat \<Rightarrow> alloc_metric" where
  "free_memory_allocation m p = m\<lparr>free_list := p # free_list m\<rparr>"

definition delete_memory_allocation :: "alloc_metric \<Rightarrow> nat \<Rightarrow> alloc_metric" where
  "delete_memory_allocation m p =
     free_memory_allocation (m\<lparr>allocations := remove_memory_allocation (allocations m) p\<rparr>) p"

subsection \<open>Events\<close>

definition report :: "alloc_event list \<Rightarrow> alloc_metric \<Rightarrow> alloc_metric" where
  "report es m = m\<lparr>reported := reported m @ es\<rparr>"

text \<open>The substrates change their data in the item at the root of the tree, where the item was just inserted.\<close>

definition update_root :: "(allocation_item \<Rightarrow> allocation_item) \<Rightarrow> alloc_metric \<Rightarrow> alloc_metric" where
  "update_root f m = m\<lparr>allocations := (case allocations m of Leaf \<Rightarrow> Leaf | Node l i r \<Rightarrow> Node l (f i) r)\<rparr>"

definition update_data :: "(alloc_event \<Rightarrow> u64 list \<Rightarrow> u64 list) \<Rightarrow> alloc_event \<Rightarrow> allocation_item \<Rightarrow> allocation_item" where
  "update_data track e i = i\<lparr>substrate_data := track e (substrate_data i)\<rparr>"

definition SCOREP_AllocMetric_AcquireAlloc :: "u64 \<Rightarrow> alloc_metric \<Rightarrow> (allocation_item option \<times> alloc_metric) outcome" where
  "SCOREP_AllocMetric_AcquireAlloc addr m =
     assert_that (addr \<noteq> 0) (
       let (allocation, t) = find_memory_allocation (allocations m) addr
       in Inr (allocation,
               m\<lparr>allocations := (case allocation of None \<Rightarrow> t | Some i \<Rightarrow> remove_memory_allocation t (item_ptr i))\<rparr>))"

definition SCOREP_AllocMetric_HandleAlloc ::
  "(alloc_event \<Rightarrow> u64 list \<Rightarrow> u64 list) \<Rightarrow> u64 \<Rightarrow> u64 \<Rightarrow> alloc_metric \<Rightarrow> alloc_metric outcome" where
  "SCOREP_AllocMetric_HandleAlloc track resultAddr sz m =
     (let process = process_allocated_memory m + sz; total = total_allocated_memory m + sz;
          e = Track_Alloc resultAddr sz total process
      in and_then (add_memory_allocation (m\<lparr>process_allocated_memory := process, total_allocated_memory := total\<rparr>) resultAddr sz)
           (\<lambda>(_, m). Inr (update_root (update_data track e) (report [Trigger_Counter total, e] m))))"

text \<open>The answer is the size before, which is stored for the caller if it asks for it.\<close>

definition SCOREP_AllocMetric_HandleRealloc ::
  "(alloc_event \<Rightarrow> u64 list \<Rightarrow> u64 list) \<Rightarrow> u64 \<Rightarrow> u64 \<Rightarrow> allocation_item option \<Rightarrow> alloc_metric \<Rightarrow> (u64 \<times> alloc_metric) outcome" where
  "SCOREP_AllocMetric_HandleRealloc track resultAddr sz prevAllocation m =
     (case prevAllocation of
        Some i \<Rightarrow>
          if alloc_address i = resultAddr
          then let process = process_allocated_memory m + (sz - alloc_size i);
                   total = total_allocated_memory m + (sz - alloc_size i);
                   e = Track_Realloc (alloc_address i) (alloc_size i) resultAddr sz total process;
                   i' = (update_data track e i)\<lparr>alloc_size := sz\<rparr>
               in Inr (alloc_size i, report [e, Trigger_Counter total]
                    (m\<lparr>process_allocated_memory := process, total_allocated_memory := total,
                       allocations := insert_memory_allocation (allocations m) i'\<rparr>))
          else let process = process_allocated_memory m + sz;
                   total = total_allocated_memory m + sz;
                   e = Track_Realloc (alloc_address i) (alloc_size i) resultAddr sz total process;
                   i' = (update_data track e i)\<lparr>alloc_address := resultAddr, alloc_size := sz\<rparr>
               in Inr (alloc_size i, report [e, Trigger_Counter total]
                    (m\<lparr>process_allocated_memory := process - alloc_size i, total_allocated_memory := total - alloc_size i,
                       allocations := insert_memory_allocation (allocations m) i'\<rparr>))
      | None \<Rightarrow>
          let process = process_allocated_memory m + sz; total = total_allocated_memory m + sz;
              e = Track_Alloc resultAddr sz total process
          in and_then (add_memory_allocation (m\<lparr>process_allocated_memory := process, total_allocated_memory := total\<rparr>) resultAddr sz)
               (\<lambda>(_, m). Inr (0, update_root (update_data track e) (report [e, Trigger_Counter total] m))))"

definition SCOREP_AllocMetric_HandleFree :: "allocation_item option \<Rightarrow> alloc_metric \<Rightarrow> u64 \<times> alloc_metric" where
  "SCOREP_AllocMetric_HandleFree allocation m =
     (case allocation of
        None \<Rightarrow> (0, m)
      | Some i \<Rightarrow>
          let process = process_allocated_memory m - alloc_size i; total = total_allocated_memory m - alloc_size i
          in (alloc_size i,
              report [Trigger_Counter total, Track_Free (alloc_address i) (alloc_size i) total process]
                (free_memory_allocation (m\<lparr>process_allocated_memory := process, total_allocated_memory := total\<rparr>) (item_ptr i))))"

text \<open>Splaying keeps the number of items, so the loop over the leaked allocations ends.\<close>

definition linked_left :: "(alloc_tree \<times> allocation_item) list \<Rightarrow> allocation_item list" where
  "linked_left lefts = concat (map (\<lambda>(t, j). inorder t @ [j]) (rev lefts))"

definition linked_right :: "(allocation_item \<times> alloc_tree) list \<Rightarrow> allocation_item list" where
  "linked_right rights = concat (map (\<lambda>(j, t). j # inorder t) rights)"

lemma linked_simps [simp]:
  "linked_left [] = []" "linked_left ((t, j) # lefts) = linked_left lefts @ inorder t @ [j]"
  "linked_right [] = []" "linked_right ((j, t) # rights) = j # inorder t @ linked_right rights"
  by (simp_all add: linked_left_def linked_right_def)

lemma inorder_fold_left: "inorder (fold (\<lambda>(t, j) acc. Node t j acc) lefts l) = linked_left lefts @ inorder l"
  by (induction lefts arbitrary: l) auto

lemma inorder_fold_right: "inorder (fold (\<lambda>(j, t) acc. Node acc j t) rights r) = inorder r @ linked_right rights"
  by (induction rights arbitrary: r) auto

lemma inorder_assemble:
  "inorder (assemble l i r lefts rights) = linked_left lefts @ inorder l @ i # inorder r @ linked_right rights"
  by (simp add: assemble_def inorder_fold_left inorder_fold_right)

lemma inorder_splay_loop:
  "inorder (splay_loop key l i r lefts rights) = linked_left lefts @ inorder l @ i # inorder r @ linked_right rights"
proof (induction key l i r lefts rights rule: splay_loop.induct)
  case (1 key l i r lefts rights)
  show ?case
  proof (cases "key < alloc_address i")
    case True
    then show ?thesis using 1(1,2)
      by (subst splay_loop.simps) (auto simp: inorder_assemble Let_def split: tree.splits)
  next
    case False
    then show ?thesis using 1(3,4)
      by (subst splay_loop.simps) (auto simp: inorder_assemble Let_def split: tree.splits)
  qed
qed

lemma inorder_splay [simp]: "inorder (splay t key) = inorder t"
  by (cases t) (simp_all add: splay_def inorder_splay_loop)

lemma size_splay [simp]: "size (splay t key) = size t"
  by (metis inorder_splay length_inorder)

lemma splay_Leaf [simp]: "splay t key = Leaf \<longleftrightarrow> t = Leaf"
  by (metis size_splay eq_size_0)

lemma splay_empty [simp]: "splay Leaf key = Leaf"
  by simp

lemma remove_root_smaller: "size (remove_memory_allocation (Node l i r) (item_ptr i)) < size (Node l i r)"
proof (cases "splay l (alloc_address i)")
  case (Node l' j r')
  have "size l = size (splay l (alloc_address i))" by simp
  also have "\<dots> = Suc (size l' + size r')" unfolding Node by simp
  finally have "size l = Suc (size l' + size r')" .
  then show ?thesis using Node by (simp add: remove_memory_allocation_def)
qed (simp add: remove_memory_allocation_def splay_def)

function SCOREP_AllocMetric_ReportLeaked :: "alloc_metric \<Rightarrow> alloc_metric" where
  "SCOREP_AllocMetric_ReportLeaked m =
     (case allocations m of
        Leaf \<Rightarrow> m
      | Node l i r \<Rightarrow>
          SCOREP_AllocMetric_ReportLeaked
            (delete_memory_allocation (report [Leaked_Memory (alloc_address i) (alloc_size i)] m) (item_ptr i)))"
  by pat_completeness auto
termination
  using remove_root_smaller
  by (relation "measure (\<lambda>m. size (allocations m))") (auto simp: delete_memory_allocation_def free_memory_allocation_def report_def)

declare SCOREP_AllocMetric_ReportLeaked.simps [simp del]

subsection \<open>Creation\<close>

text \<open>The block is cleared; the definitions of the metric are left out.\<close>

definition SCOREP_AllocMetric_NewScoped :: "u64 \<Rightarrow> nat list \<Rightarrow> alloc_metric" where
  "SCOREP_AllocMetric_NewScoped process misc =
     \<lparr>allocations = Leaf, free_list = [], total_allocated_memory = 0, process_allocated_memory = process,
      misc_memory = misc, reported = []\<rparr>"

end
