(* ===== verification/AllocTracking.thy ===== *)
theory AllocTracking
  imports AllocMetric
begin

section \<open>What the tracking of allocations knows\<close>

text \<open>
  The tree stands for a map from addresses to sizes, and the total is the sum of all sizes, as long as no address is
  reported twice. The requests of the threads come in any order, each of them one step.
\<close>

subsection \<open>Sorted trees\<close>

abbreviation sorted_items :: "allocation_item list \<Rightarrow> bool" where
  "sorted_items \<equiv> sorted_wrt (\<lambda>i j. alloc_address i < alloc_address j)"

definition tree_ok :: "alloc_tree \<Rightarrow> bool" where
  "tree_ok t \<longleftrightarrow> sorted_items (inorder t)"

abbreviation below_key :: "u64 \<Rightarrow> allocation_item list \<Rightarrow> bool" where
  "below_key k xs \<equiv> \<forall>x\<in>set xs. alloc_address x < k"

abbreviation above_key :: "u64 \<Rightarrow> allocation_item list \<Rightarrow> bool" where
  "above_key k xs \<equiv> \<forall>x\<in>set xs. k < alloc_address x"

lemma set_fold_left: "set_tree (fold (\<lambda>(t, j) acc. Node t j acc) lefts l) = set (linked_left lefts) \<union> set_tree l"
  using arg_cong [OF inorder_fold_left [of lefts l], of set] by simp

lemma set_fold_right: "set_tree (fold (\<lambda>(j, t) acc. Node acc j t) rights r) = set_tree r \<union> set (linked_right rights)"
  using arg_cong [OF inorder_fold_right [of rights r], of set] by simp

lemmas set_folds = set_fold_left [simplified] set_fold_right [simplified]

lemma above_sorted: "sorted_items (xs @ i # ys) \<Longrightarrow> k < alloc_address i \<Longrightarrow> above_key k ys"
  by (auto simp: sorted_wrt_append intro: order.strict_trans)

lemma below_sorted: "sorted_items (xs @ i # ys) \<Longrightarrow> alloc_address i < k \<Longrightarrow> below_key k xs"
  by (auto simp: sorted_wrt_append intro: order.strict_trans)

lemma splay_loop_root:
  "sorted_items (inorder l @ i # inorder r) \<Longrightarrow> below_key key (linked_left lefts) \<Longrightarrow> above_key key (linked_right rights) \<Longrightarrow>
    splay_loop key l i r lefts rights = Node l' i' r' \<Longrightarrow> below_key key (inorder l') \<and> above_key key (inorder r')"
proof (induction key l i r lefts rights rule: splay_loop.induct)
  case (1 key l i r lefts rights)
  note sorted = 1(5) and run = 1(8)
  have stop: "below_key key (inorder l') \<and> above_key key (inorder r')"
    if "assemble l1 i1 r1 lefts rights = Node l' i' r'" "below_key key (inorder l1)" "above_key key (inorder r1)" for l1 i1 r1
    using that 1(6,7) by (auto simp: assemble_def set_folds)
  consider "key < alloc_address i" | "key > alloc_address i" | "key = alloc_address i" by (meson linorder_neqE)
  then show ?case
  proof cases
    case k: 1
    note ri = above_sorted [OF sorted k]
    show ?thesis
    proof (cases l)
      case Leaf
      then show ?thesis using stop [of Leaf i r] run k ri by (subst (asm) splay_loop.simps) simp
    next
      case (Node ll j lr)
      have sorted': "sorted_items (inorder ll @ j # inorder lr @ i # inorder r)" using sorted Node by simp
      show ?thesis
      proof (cases "key < alloc_address j")
        case True
        note rj = above_sorted [OF sorted' True]
        show ?thesis
        proof (cases ll)
          case Leaf
          then show ?thesis using stop [of Leaf j "Node lr i r"] run k Node True rj
            by (subst (asm) splay_loop.simps) (simp add: Let_def)
        next
          case n: (Node l2 i2 r2)
          have "splay_loop key l2 i2 r2 lefts ((j, Node lr i r) # rights) = Node l' i' r'"
            using run k Node True n by (subst (asm) splay_loop.simps) (simp add: Let_def)
          moreover have "sorted_items (inorder l2 @ i2 # inorder r2)" using sorted' n by (simp add: sorted_wrt_append)
          moreover have "above_key key (linked_right ((j, Node lr i r) # rights))" using 1(7) rj True by auto
          ultimately show ?thesis using 1(1) [OF k Node True refl n] 1(6) by blast
        qed
      next
        case False
        have "splay_loop key ll j lr lefts ((i, r) # rights) = Node l' i' r'"
          using run k Node False by (subst (asm) splay_loop.simps) simp
        moreover have "sorted_items (inorder ll @ j # inorder lr)" using sorted Node by (simp add: sorted_wrt_append)
        moreover have "above_key key (linked_right ((i, r) # rights))" using 1(7) ri k by auto
        ultimately show ?thesis using 1(2) [OF k Node False] 1(6) by blast
      qed
    qed
  next
    case k: 2
    then have nk: "\<not> key < alloc_address i" by simp
    note li = below_sorted [OF sorted k]
    show ?thesis
    proof (cases r)
      case Leaf
      then show ?thesis using stop [of l i Leaf] run k nk li by (subst (asm) splay_loop.simps) simp
    next
      case (Node rl j rr)
      have sorted': "sorted_items ((inorder l @ i # inorder rl) @ j # inorder rr)" using sorted Node by simp
      show ?thesis
      proof (cases "key > alloc_address j")
        case True
        note lj = below_sorted [OF sorted' True]
        show ?thesis
        proof (cases rr)
          case Leaf
          then show ?thesis using stop [of "Node l i rl" j Leaf] run k nk Node True lj
            by (subst (asm) splay_loop.simps) (simp add: Let_def)
        next
          case n: (Node l2 i2 r2)
          have "splay_loop key l2 i2 r2 ((Node l i rl, j) # lefts) rights = Node l' i' r'"
            using run k nk Node True n by (subst (asm) splay_loop.simps) (simp add: Let_def)
          moreover have "sorted_items (inorder l2 @ i2 # inorder r2)" using sorted' n by (simp add: sorted_wrt_append)
          moreover have "below_key key (linked_left ((Node l i rl, j) # lefts))" using 1(6) lj True by auto
          ultimately show ?thesis using 1(3) [OF nk k Node True refl n] 1(7) by blast
        qed
      next
        case False
        have "splay_loop key rl j rr ((l, i) # lefts) rights = Node l' i' r'"
          using run k nk Node False by (subst (asm) splay_loop.simps) simp
        moreover have "sorted_items (inorder rl @ j # inorder rr)" using sorted Node by (simp add: sorted_wrt_append)
        moreover have "below_key key (linked_left ((l, i) # lefts))" using 1(6) li k by auto
        ultimately show ?thesis using 1(4) [OF nk k Node False] 1(7) by blast
      qed
    qed
  next
    case 3
    have "below_key key (inorder l)" "above_key key (inorder r)" using sorted 3 by (auto simp: sorted_wrt_append)
    then show ?thesis using stop [of l i r] run 3 by (subst (asm) splay_loop.simps) simp
  qed
qed

lemma splay_root:
  assumes "tree_ok t" and "splay t key = Node l i r"
  shows "below_key key (inorder l) \<and> above_key key (inorder r)"
proof (cases t)
  case (Node l0 i0 r0)
  have run: "splay_loop key l0 i0 r0 [] [] = Node l i r" using assms(2) unfolding Node by (simp only: splay_def tree.case)
  have "sorted_items (inorder l0 @ i0 # inorder r0)" using assms(1) unfolding Node by (simp add: tree_ok_def)
  then show ?thesis by (rule splay_loop_root [OF _ _ _ run]) simp_all
qed (use assms in \<open>simp add: splay_def\<close>)

lemma splay_parts:
  assumes "tree_ok t" and "splay t key = Node l i r"
  shows "inorder t = inorder l @ i # inorder r" and "sorted_items (inorder l @ i # inorder r)"
    and "below_key key (inorder l)" and "above_key key (inorder r)"
proof -
  show eq: "inorder t = inorder l @ i # inorder r" using inorder_splay [of t key] assms(2) by simp
  then show "sorted_items (inorder l @ i # inorder r)" using assms(1) by (simp add: tree_ok_def)
  show "below_key key (inorder l)" "above_key key (inorder r)" using splay_root [OF assms] by simp_all
qed

subsection \<open>The map\<close>

definition entries :: "allocation_item list \<Rightarrow> (u64 \<times> u64) list" where
  "entries xs = map (\<lambda>i. (alloc_address i, alloc_size i)) xs"

definition tracked :: "alloc_tree \<Rightarrow> u64 \<rightharpoonup> u64" where
  "tracked t = map_of (entries (inorder t))"

lemma entries_append [simp]: "entries (xs @ ys) = entries xs @ entries ys" "entries (x # xs) = (alloc_address x, alloc_size x) # entries xs"
  "entries [] = []"
  by (simp_all add: entries_def)

lemma map_of_entries_None: "map_of (entries xs) a = None \<longleftrightarrow> (\<forall>x\<in>set xs. alloc_address x \<noteq> a)"
  by (induction xs) auto

lemma map_of_entries_mid:
  "sorted_items (xs @ x # ys) \<Longrightarrow> map_of (entries (xs @ x # ys)) = (map_of (entries (xs @ ys)))(alloc_address x \<mapsto> alloc_size x)"
proof
  fix a
  assume s: "sorted_items (xs @ x # ys)"
  then have "\<forall>y\<in>set xs. alloc_address y \<noteq> alloc_address x" by (auto simp: sorted_wrt_append)
  then have "map_of (entries xs) (alloc_address x) = None" by (simp add: map_of_entries_None)
  then show "map_of (entries (xs @ x # ys)) a = ((map_of (entries (xs @ ys)))(alloc_address x \<mapsto> alloc_size x)) a"
    by (auto simp: map_add_def split: option.splits)
qed

lemma map_of_entries_absent:
  "sorted_items (xs @ x # ys) \<Longrightarrow> map_of (entries (xs @ ys)) (alloc_address x) = None"
  by (auto simp: map_of_entries_None sorted_wrt_append simp flip: entries_append(1))

text \<open>Insertion at a new address.\<close>

lemma insert_parts:
  assumes "tree_ok t" and "tracked t (alloc_address x) = None"
  shows "\<exists>xs ys. inorder t = xs @ ys \<and> inorder (insert_memory_allocation t x) = xs @ x # ys \<and> sorted_items (xs @ x # ys)"
proof (cases "splay t (alloc_address x)")
  case Leaf
  then have "t = Leaf" by simp
  then show ?thesis by (intro exI [of _ "[]"]) (simp add: insert_memory_allocation_def splay_def)
next
  case (Node l i r)
  note p = splay_parts [OF assms(1) Node]
  have "i \<in> set (inorder t)" using p(1) by simp
  then have ne: "alloc_address i \<noteq> alloc_address x" using assms(2) by (auto simp: tracked_def map_of_entries_None)
  show ?thesis
  proof (cases "alloc_address x < alloc_address i")
    case True
    then have "inorder (insert_memory_allocation t x) = inorder l @ x # i # inorder r"
      using Node by (simp add: insert_memory_allocation_def)
    moreover have "sorted_items (inorder l @ x # i # inorder r)" using p(2-4) True by (auto simp: sorted_wrt_append)
    ultimately show ?thesis using p(1) by (intro exI [of _ "inorder l"] exI [of _ "i # inorder r"]) simp
  next
    case False
    then have gt: "alloc_address i < alloc_address x" using ne by simp
    then have "inorder (insert_memory_allocation t x) = inorder l @ i # x # inorder r"
      using Node False by (simp add: insert_memory_allocation_def)
    moreover have "sorted_items (inorder l @ i # x # inorder r)" using p(2-4) gt by (auto simp: sorted_wrt_append)
    ultimately show ?thesis using p(1) by (intro exI [of _ "inorder l @ [i]"] exI [of _ "inorder r"]) simp
  qed
qed

lemma remove_root_inorder:
  assumes "sorted_items (inorder l @ i # inorder r)"
  shows "inorder (remove_memory_allocation (Node l i r) (item_ptr i)) = inorder l @ inorder r"
proof (cases "splay l (alloc_address i)")
  case Leaf
  then have "l = Leaf" by simp
  then show ?thesis by (simp add: remove_memory_allocation_def splay_def)
next
  case (Node l' j r')
  have ok: "tree_ok l" using assms by (simp add: tree_ok_def sorted_wrt_append)
  note p = splay_parts [OF ok Node]
  have "below_key (alloc_address i) (inorder l)" using assms by (auto simp: sorted_wrt_append)
  then have "below_key (alloc_address i) (inorder r')" unfolding p(1) by simp
  then have "set (inorder r') = {}" using p(4) by (metis equals0I order.asym)
  then show ?thesis using p(1) Node by (simp add: remove_memory_allocation_def)
qed

lemma sorted_without: "sorted_items (xs @ x # ys) \<Longrightarrow> sorted_items (xs @ ys)"
  by (simp add: sorted_wrt_append)

end
