(* ===== verification/AllocRequests.thy ===== *)
theory AllocRequests
  imports AllocTracking
begin

section \<open>Requests of the threads\<close>

text \<open>
  A thread that gives memory back or changes its size first takes the item out of the tree and later hands it in again;
  other threads may be served in between. The specification is a map, the list of what was taken out, and a total.
\<close>

datatype request =
    Alloc_Request u64 u64
  | Acquire_Request u64
  | Realloc_Request "nat option" u64 u64
  | Free_Request "nat option"

definition without :: "nat \<Rightarrow> 'a list \<Rightarrow> 'a list" where
  "without k xs = take k xs @ drop (Suc k) xs"

definition taken :: "nat option \<Rightarrow> 'a list \<Rightarrow> 'a option" where
  "taken k xs = map_option (\<lambda>k. xs ! k) k"

definition rest_of_taken :: "nat option \<Rightarrow> 'a list \<Rightarrow> 'a list" where
  "rest_of_taken k xs = (case k of None \<Rightarrow> xs | Some k \<Rightarrow> without k xs)"

text \<open>The position is that of an item which was acquired; no position is the null pointer of an address that was not found.\<close>

fun serve ::
  "(alloc_event \<Rightarrow> u64 list \<Rightarrow> u64 list) \<Rightarrow> request \<Rightarrow> alloc_metric \<times> allocation_item list \<Rightarrow> (alloc_metric \<times> allocation_item list) outcome"
where
  "serve track (Alloc_Request a n) (m, acq) = and_then (SCOREP_AllocMetric_HandleAlloc track a n m) (\<lambda>m. Inr (m, acq))"
| "serve track (Acquire_Request a) (m, acq) =
     and_then (SCOREP_AllocMetric_AcquireAlloc a m) (\<lambda>(i, m). Inr (m, case i of None \<Rightarrow> acq | Some i \<Rightarrow> i # acq))"
| "serve track (Realloc_Request k a n) (m, acq) =
     and_then (SCOREP_AllocMetric_HandleRealloc track a n (taken k acq) m) (\<lambda>(_, m). Inr (m, rest_of_taken k acq))"
| "serve track (Free_Request k) (m, acq) = Inr (snd (SCOREP_AllocMetric_HandleFree (taken k acq) m), rest_of_taken k acq)"

fun serve_all ::
  "(alloc_event \<Rightarrow> u64 list \<Rightarrow> u64 list) \<Rightarrow> request list \<Rightarrow> alloc_metric \<times> allocation_item list \<Rightarrow> (alloc_metric \<times> allocation_item list) outcome"
where
  "serve_all track [] s = Inr s"
| "serve_all track (q # qs) s = and_then (serve track q s) (serve_all track qs)"

type_synonym book = "(u64 \<rightharpoonup> u64) \<times> (u64 \<times> u64) list \<times> u64"

fun book_request :: "request \<Rightarrow> book \<Rightarrow> book" where
  "book_request (Alloc_Request a n) (f, acq, bytes) = (f(a \<mapsto> n), acq, bytes + n)"
| "book_request (Acquire_Request a) (f, acq, bytes) =
     (case f a of None \<Rightarrow> (f, acq, bytes) | Some n \<Rightarrow> (f(a := None), (a, n) # acq, bytes))"
| "book_request (Realloc_Request k a n) (f, acq, bytes) =
     (f(a \<mapsto> n), rest_of_taken k acq, bytes + n - (case taken k acq of None \<Rightarrow> 0 | Some (_, n') \<Rightarrow> n'))"
| "book_request (Free_Request k) (f, acq, bytes) =
     (f, rest_of_taken k acq, bytes - (case taken k acq of None \<Rightarrow> 0 | Some (_, n') \<Rightarrow> n'))"

definition within :: "nat option \<Rightarrow> 'a list \<Rightarrow> bool" where
  "within k xs \<longleftrightarrow> (case k of None \<Rightarrow> True | Some k \<Rightarrow> k < length xs)"

text \<open>No address is reported again while it is known.\<close>

fun request_ok :: "request \<Rightarrow> book \<Rightarrow> bool" where
  "request_ok (Alloc_Request a n) (f, acq, bytes) \<longleftrightarrow> f a = None"
| "request_ok (Acquire_Request a) (f, acq, bytes) \<longleftrightarrow> a \<noteq> 0"
| "request_ok (Realloc_Request k a n) (f, acq, bytes) \<longleftrightarrow> f a = None \<and> within k acq"
| "request_ok (Free_Request k) (f, acq, bytes) \<longleftrightarrow> within k acq"

fun requests_ok :: "request list \<Rightarrow> book \<Rightarrow> bool" where
  "requests_ok [] b \<longleftrightarrow> True"
| "requests_ok (q # qs) b \<longleftrightarrow> request_ok q b \<and> requests_ok qs (book_request q b)"

text \<open>What both have in common, and that every item of memory is at exactly one place.\<close>

definition items_of :: "alloc_metric \<Rightarrow> allocation_item list \<Rightarrow> nat multiset" where
  "items_of m acq = mset (map item_ptr (inorder (allocations m))) + mset (map item_ptr acq) + mset (free_list m) + mset (misc_memory m)"

definition kept_in_book :: "u64 \<Rightarrow> nat multiset \<Rightarrow> book \<Rightarrow> alloc_metric \<times> allocation_item list \<Rightarrow> bool" where
  "kept_in_book process items b s \<longleftrightarrow> (case (b, s) of ((f, acq', bytes), (m, acq)) \<Rightarrow>
     tree_ok (allocations m) \<and> tracked (allocations m) = f \<and> entries acq = acq' \<and> total_allocated_memory m = bytes \<and>
     process_allocated_memory m = process + bytes \<and> items_of m acq = items \<and>
     bytes = sum_list (map alloc_size (inorder (allocations m))) + sum_list (map alloc_size acq))"

lemma entries_taken: "taken k (entries xs) = map_option (\<lambda>i. (alloc_address i, alloc_size i)) (taken k xs)" if "within k xs"
  using that by (cases k) (simp_all add: taken_def entries_def within_def)

lemma entries_rest: "entries (rest_of_taken k xs) = rest_of_taken k (entries xs)"
  by (cases k) (simp_all add: rest_of_taken_def without_def entries_def take_map drop_map)

lemma mset_without: "k < length xs \<Longrightarrow> mset xs = add_mset (xs ! k) (mset (without k xs))"
  by (metis id_take_nth_drop mset.simps(2) mset_append union_mset_add_mset_right without_def)

lemma sum_without: "k < length xs \<Longrightarrow> sum_list (map alloc_size xs) = alloc_size (xs ! k) + sum_list (map alloc_size (without k xs))"
  using arg_cong [OF mset_without [of k xs], of "\<lambda>m. sum_mset (image_mset alloc_size m)"]
  by (simp flip: sum_mset_sum_list mset_map)

lemma within_entries: "within k (entries xs) \<longleftrightarrow> within k xs"
  by (cases k) (simp_all add: within_def entries_def)

subsection \<open>Inserting\<close>

lemma insert_in_book:
  assumes "tree_ok t" and "tracked t (alloc_address x) = None"
  shows "tree_ok (insert_memory_allocation t x)" and "tracked (insert_memory_allocation t x) = (tracked t)(alloc_address x \<mapsto> alloc_size x)"
    and "mset (inorder (insert_memory_allocation t x)) = add_mset x (mset (inorder t))"
proof -
  obtain xs ys where p: "inorder t = xs @ ys" "inorder (insert_memory_allocation t x) = xs @ x # ys" "sorted_items (xs @ x # ys)"
    using insert_parts [OF assms] by blast
  show "tree_ok (insert_memory_allocation t x)" using p by (simp add: tree_ok_def)
  show "tracked (insert_memory_allocation t x) = (tracked t)(alloc_address x \<mapsto> alloc_size x)"
    using map_of_entries_mid [OF p(3)] by (simp add: tracked_def p)
  show "mset (inorder (insert_memory_allocation t x)) = add_mset x (mset (inorder t))" by (simp add: p)
qed

lemma sum_sizes_mset: "mset xs = mset ys \<Longrightarrow> sum_list (map alloc_size xs) = sum_list (map alloc_size ys)"
  by (metis mset_map sum_mset_sum_list)

lemma ptrs_mset: "mset xs = mset ys \<Longrightarrow> mset (map item_ptr xs) = mset (map item_ptr ys)"
  by simp


text \<open>The data of the substrates do not matter.\<close>

definition view :: "alloc_tree \<Rightarrow> (nat \<times> u64 \<times> u64) list" where
  "view t = map (\<lambda>i. (item_ptr i, alloc_address i, alloc_size i)) (inorder t)"

lemma view_parts:
  "map item_ptr (inorder t) = map fst (view t)" "map alloc_address (inorder t) = map (fst \<circ> snd) (view t)"
  "map alloc_size (inorder t) = map (snd \<circ> snd) (view t)" "entries (inorder t) = map snd (view t)"
  by (simp_all add: view_def entries_def)

lemma tree_ok_view: "tree_ok t \<longleftrightarrow> sorted_wrt (<) (map (fst \<circ> snd) (view t))"
  by (simp add: tree_ok_def view_def sorted_wrt_map)

lemma tracked_view: "tracked t = map_of (map snd (view t))"
  by (simp add: tracked_def view_parts)

lemma view_update_root: "view (allocations (update_root (update_data track e) m)) = view (allocations m)"
  by (cases "allocations m") (simp_all add: update_root_def update_data_def view_def)

lemma same_view:
  assumes "view t = view t'"
  shows "tree_ok t = tree_ok t'" and "tracked t = tracked t'" and "map alloc_size (inorder t) = map alloc_size (inorder t')"
    and "image_mset item_ptr (mset (inorder t)) = image_mset item_ptr (mset (inorder t'))"
proof -
  show "tree_ok t = tree_ok t'" "tracked t = tracked t'" "map alloc_size (inorder t) = map alloc_size (inorder t')"
    using assms by (simp_all add: tree_ok_view tracked_view view_parts)
  have "mset (map item_ptr (inorder t)) = mset (map item_ptr (inorder t'))" using assms by (simp only: view_parts)
  then show "image_mset item_ptr (mset (inorder t)) = image_mset item_ptr (mset (inorder t'))" by simp
qed

lemma add_memory_result:
  assumes "misc_memory m \<noteq> []"
  shows "\<exists>i m'. add_memory_allocation m a n = Inr (i, m') \<and> alloc_address i = a \<and> alloc_size i = n \<and>
    allocations m' = insert_memory_allocation (allocations m) i \<and>
    add_mset (item_ptr i) (mset (free_list m') + mset (misc_memory m')) = mset (free_list m) + mset (misc_memory m) \<and>
    length (misc_memory m) \<le> Suc (length (misc_memory m')) \<and>
    total_allocated_memory m' = total_allocated_memory m \<and> process_allocated_memory m' = process_allocated_memory m"
  using assms by (cases "free_list m"; cases "misc_memory m") (auto simp: add_memory_allocation_def Let_def)

lemma update_root_fields [simp]:
  "free_list (update_root f m) = free_list m" "misc_memory (update_root f m) = misc_memory m"
  "total_allocated_memory (update_root f m) = total_allocated_memory m"
  "process_allocated_memory (update_root f m) = process_allocated_memory m"
  by (simp_all add: update_root_def)

lemma report_fields [simp]:
  "free_list (report es m) = free_list m" "misc_memory (report es m) = misc_memory m"
  "total_allocated_memory (report es m) = total_allocated_memory m"
  "process_allocated_memory (report es m) = process_allocated_memory m" "allocations (report es m) = allocations m"
  by (simp_all add: report_def)

text \<open>Adding an item that was made for the purpose, at a new address.\<close>

lemma add_in_book:
  assumes kept: "kept_in_book process items (f, acq', bytes) (m, acq)" and new: "f a = None" and "misc_memory m \<noteq> []"
  shows "\<exists>i m'. add_memory_allocation (m\<lparr>process_allocated_memory := process_allocated_memory m + n,
        total_allocated_memory := total_allocated_memory m + n\<rparr>) a n = Inr (i, m') \<and>
    length (misc_memory m) \<le> Suc (length (misc_memory m')) \<and>
    (\<forall>es e. kept_in_book process items (f(a \<mapsto> n), acq', bytes + n) (update_root (update_data track e) (report es m'), acq))"
proof -
  let ?m = "m\<lparr>process_allocated_memory := process_allocated_memory m + n, total_allocated_memory := total_allocated_memory m + n\<rparr>"
  obtain i m' where add: "add_memory_allocation ?m a n = Inr (i, m')" and i: "alloc_address i = a" "alloc_size i = n"
    and t: "allocations m' = insert_memory_allocation (allocations m) i"
    and ptrs: "add_mset (item_ptr i) (mset (free_list m') + mset (misc_memory m')) = mset (free_list m) + mset (misc_memory m)"
    and len: "length (misc_memory m) \<le> Suc (length (misc_memory m'))"
    and totals: "total_allocated_memory m' = total_allocated_memory m + n" "process_allocated_memory m' = process_allocated_memory m + n"
    using add_memory_result [of ?m a n] assms(3) by auto
  have ok: "tree_ok (allocations m)" and f: "tracked (allocations m) = f" using kept by (simp_all add: kept_in_book_def)
  note ins = insert_in_book [OF ok, of i]
  have none: "tracked (allocations m) (alloc_address i) = None" using f new i by simp
  have "items_of m' acq = mset (map item_ptr (inorder (allocations m))) + mset (map item_ptr acq) +
      add_mset (item_ptr i) (mset (free_list m') + mset (misc_memory m'))"
    using ins(3) [OF none] by (simp add: items_of_def t)
  also have "\<dots> = items" unfolding ptrs using kept by (simp add: items_of_def kept_in_book_def ac_simps)
  finally have items: "items_of m' acq = items" .
  have bytes: "sum_list (map alloc_size (inorder (allocations m'))) = n + sum_list (map alloc_size (inorder (allocations m)))"
    using sum_sizes_mset [of "inorder (allocations m')" "i # inorder (allocations m)"] ins(3) [OF none] i by (simp add: t)
  have k: "kept_in_book process items (f(a \<mapsto> n), acq', bytes + n) (m', acq)"
    using kept ins(1,2) [OF none] items bytes totals i f by (simp add: kept_in_book_def t ac_simps)
  have "kept_in_book process items (f(a \<mapsto> n), acq', bytes + n) (update_root (update_data track e) (report es m'), acq)" for es e
    using k same_view [OF view_update_root [of track e "report es m'"]] by (simp add: kept_in_book_def items_of_def)
  with add len show ?thesis by blast
qed


subsection \<open>Serving a request\<close>

text \<open>Taking an item out.\<close>

lemma kept_same:
  assumes "kept_in_book process items (f, acq', bytes) (m, acq)" and "inorder t = inorder (allocations m)"
  shows "kept_in_book process items (f, acq', bytes) (m\<lparr>allocations := t\<rparr>, acq)"
  using assms by (simp add: kept_in_book_def tree_ok_def tracked_def items_of_def)

lemma acquire_in_book:
  assumes kept: "kept_in_book process items (f, acq', bytes) (m, acq)" and "a \<noteq> 0"
  shows "\<exists>s. serve track (Acquire_Request a) (m, acq) = Inr s \<and>
    kept_in_book process items (book_request (Acquire_Request a) (f, acq', bytes)) s \<and> misc_memory (fst s) = misc_memory m"
proof (cases "splay (allocations m) a")
  case Leaf
  then have e: "allocations m = Leaf" by simp
  then have "f a = None" using kept by (auto simp: kept_in_book_def tracked_def)
  moreover have "serve track (Acquire_Request a) (m, acq) = Inr (m\<lparr>allocations := Leaf\<rparr>, acq)"
    using assms(2) Leaf by (simp add: SCOREP_AllocMetric_AcquireAlloc_def find_memory_allocation_def)
  ultimately show ?thesis using kept_same [OF kept, of Leaf] e by simp
next
  case (Node l i r)
  have ok: "tree_ok (allocations m)" and f: "f = map_of (entries (inorder (allocations m)))" using kept by (auto simp: kept_in_book_def tracked_def)
  note p = splay_parts [OF ok Node]
  show ?thesis
  proof (cases "a = alloc_address i")
    case True
    let ?t = "remove_memory_allocation (Node l i r) (item_ptr i)"
    have rem: "inorder ?t = inorder l @ inorder r"
      by (rule remove_root_inorder [OF p(2)])
    have f': "f = (map_of (entries (inorder l @ inorder r)))(a \<mapsto> alloc_size i)"
      using map_of_entries_mid [OF p(2)] f p(1) True by simp
    have none: "map_of (entries (inorder l @ inorder r)) a = None" using map_of_entries_absent [OF p(2)] True by simp
    have del: "f(a := None) = tracked ?t" unfolding tracked_def rem f' using none by (simp only: fun_upd_upd fun_upd_idem)
    have fa: "f a = Some (alloc_size i)" unfolding f' by simp
    have run: "serve track (Acquire_Request a) (m, acq) = Inr (m\<lparr>allocations := ?t\<rparr>, i # acq)"
      using assms(2) Node True by (simp add: SCOREP_AllocMetric_AcquireAlloc_def find_memory_allocation_def)
    have "items_of (m\<lparr>allocations := ?t\<rparr>) (i # acq) = items"
      using kept p(1) rem by (simp add: kept_in_book_def items_of_def)
    moreover have "tree_ok ?t" using sorted_without [OF p(2)] rem by (simp add: tree_ok_def)
    moreover have "sum_list (map alloc_size (inorder (allocations m))) + sum_list (map alloc_size acq) =
        sum_list (map alloc_size (inorder ?t)) + sum_list (map alloc_size (i # acq))"
      unfolding rem p(1) by simp
    ultimately have "kept_in_book process items (f(a := None), (a, alloc_size i) # acq', bytes) (m\<lparr>allocations := ?t\<rparr>, i # acq)"
      using kept True del by (simp add: kept_in_book_def)
    then show ?thesis using run fa by simp
  next
    case False
    have "\<forall>x\<in>set (inorder (allocations m)). alloc_address x \<noteq> a" unfolding p(1) using p(3,4) False by auto
    then have fa: "f a = None" unfolding f by (simp only: map_of_entries_None)
    have run: "serve track (Acquire_Request a) (m, acq) = Inr (m\<lparr>allocations := Node l i r\<rparr>, acq)"
      using assms(2) Node False by (simp add: SCOREP_AllocMetric_AcquireAlloc_def find_memory_allocation_def)
    have "inorder (Node l i r) = inorder (allocations m)" using p(1) by simp
    then show ?thesis using kept_same [OF kept] run fa by simp
  qed
qed

text \<open>Handing an item in again: at a new address of any kind.\<close>

lemma reinsert_in_book:
  assumes kept: "kept_in_book process items (f, acq', bytes) (m, acq)" and new: "f a = None" and k: "k < length acq"
    and i: "item_ptr i = item_ptr (acq ! k)" "alloc_address i = a" "alloc_size i = n"
    and m': "allocations m' = insert_memory_allocation (allocations m) i" "free_list m' = free_list m" "misc_memory m' = misc_memory m"
      "total_allocated_memory m' = bytes + n - alloc_size (acq ! k)"
      "process_allocated_memory m' = process + (bytes + n - alloc_size (acq ! k))"
  shows "kept_in_book process items (f(a \<mapsto> n), without k acq', bytes + n - alloc_size (acq ! k)) (m', without k acq)"
proof -
  have ok: "tree_ok (allocations m)" and f: "tracked (allocations m) = f" and ent: "entries acq = acq'"
    using kept by (simp_all add: kept_in_book_def)
  have none: "tracked (allocations m) (alloc_address i) = None" using f new i by simp
  note ins = insert_in_book [OF ok none]
  have "mset acq = add_mset (acq ! k) (mset (without k acq))" using k by (rule mset_without)
  then have ptrs: "mset (map item_ptr acq) = add_mset (item_ptr i) (mset (map item_ptr (without k acq)))" using i(1) by simp
  have "items_of m' (without k acq) = mset (map item_ptr (inorder (allocations m))) +
      add_mset (item_ptr i) (mset (map item_ptr (without k acq))) + mset (free_list m) + mset (misc_memory m)"
    using ins(3) by (simp add: items_of_def m')
  also have "\<dots> = items" unfolding ptrs [symmetric] using kept by (simp add: items_of_def kept_in_book_def)
  finally have items: "items_of m' (without k acq) = items" .
  have "sum_list (map alloc_size (inorder (allocations m'))) = n + sum_list (map alloc_size (inorder (allocations m)))"
    using sum_sizes_mset [of "inorder (allocations m')" "i # inorder (allocations m)"] ins(3) i by (simp add: m')
  moreover have "sum_list (map alloc_size acq) = alloc_size (acq ! k) + sum_list (map alloc_size (without k acq))"
    using k by (rule sum_without)
  ultimately have "bytes + n - alloc_size (acq ! k) =
      sum_list (map alloc_size (inorder (allocations m'))) + sum_list (map alloc_size (without k acq))"
    using kept by (simp add: kept_in_book_def)
  moreover have "entries (without k acq) = without k acq'" using entries_rest [of "Some k" acq] ent by (simp add: rest_of_taken_def)
  ultimately show ?thesis using ins(1,2) items m' f i by (simp add: kept_in_book_def)
qed

lemma free_in_book:
  assumes kept: "kept_in_book process items (f, acq', bytes) (m, acq)" and k: "within k acq"
  shows "\<exists>s. serve track (Free_Request k) (m, acq) = Inr s \<and>
    kept_in_book process items (book_request (Free_Request k) (f, acq', bytes)) s \<and> misc_memory (fst s) = misc_memory m"
proof (cases k)
  case None
  then show ?thesis using kept by (simp add: SCOREP_AllocMetric_HandleFree_def taken_def rest_of_taken_def)
next
  case (Some j)
  then have j: "j < length acq" using k by (simp add: within_def)
  have ent: "entries acq = acq'" using kept by (simp add: kept_in_book_def)
  have tk: "taken k acq' = Some (alloc_address (acq ! j), alloc_size (acq ! j))"
    using j Some by (simp add: taken_def entries_def flip: ent)
  have rest: "entries (without j acq) = without j acq'" using entries_rest [of "Some j" acq] ent by (simp add: rest_of_taken_def)
  have ptrs: "mset (map item_ptr acq) = add_mset (item_ptr (acq ! j)) (mset (map item_ptr (without j acq)))"
    using mset_without [OF j] by simp
  have sum: "sum_list (map alloc_size acq) = alloc_size (acq ! j) + sum_list (map alloc_size (without j acq))" by (rule sum_without [OF j])
  let ?m = "snd (SCOREP_AllocMetric_HandleFree (taken k acq) m)"
  have m: "allocations ?m = allocations m" "misc_memory ?m = misc_memory m" "free_list ?m = item_ptr (acq ! j) # free_list m"
    "total_allocated_memory ?m = total_allocated_memory m - alloc_size (acq ! j)"
    "process_allocated_memory ?m = process_allocated_memory m - alloc_size (acq ! j)"
    using Some by (simp_all add: SCOREP_AllocMetric_HandleFree_def taken_def Let_def free_memory_allocation_def)
  have "items_of ?m (without j acq) = mset (map item_ptr (inorder (allocations m))) +
      add_mset (item_ptr (acq ! j)) (mset (map item_ptr (without j acq))) + mset (free_list m) + mset (misc_memory m)"
    by (simp add: items_of_def m)
  also have "\<dots> = items" unfolding ptrs [symmetric] using kept by (simp add: items_of_def kept_in_book_def)
  finally have "items_of ?m (without j acq) = items" .
  then show ?thesis using kept Some tk rest sum m by (simp add: rest_of_taken_def kept_in_book_def)
qed


lemma realloc_in_book:
  assumes kept: "kept_in_book process items (f, acq', bytes) (m, acq)" and new: "f a = None" and k: "within k acq"
    and "misc_memory m \<noteq> []"
  shows "\<exists>s. serve track (Realloc_Request k a n) (m, acq) = Inr s \<and>
    kept_in_book process items (book_request (Realloc_Request k a n) (f, acq', bytes)) s \<and>
    length (misc_memory m) \<le> Suc (length (misc_memory (fst s)))"
proof (cases k)
  case None
  obtain i m' where add: "add_memory_allocation (m\<lparr>process_allocated_memory := process_allocated_memory m + n,
        total_allocated_memory := total_allocated_memory m + n\<rparr>) a n = Inr (i, m')"
    and len: "length (misc_memory m) \<le> Suc (length (misc_memory m'))"
    and k': "\<And>es e. kept_in_book process items (f(a \<mapsto> n), acq', bytes + n) (update_root (update_data track e) (report es m'), acq)"
    using add_in_book [OF kept new assms(4)] by blast
  show ?thesis using add len k' None
    by (simp add: SCOREP_AllocMetric_HandleRealloc_def taken_def rest_of_taken_def Let_def)
next
  case (Some j)
  then have j: "j < length acq" using k by (simp add: within_def)
  let ?i = "acq ! j"
  have ent: "entries acq = acq'" and bytes: "total_allocated_memory m = bytes" "process_allocated_memory m = process + bytes"
    using kept by (simp_all add: kept_in_book_def)
  have tk: "taken k acq' = Some (alloc_address ?i, alloc_size ?i)"
    using j Some by (simp add: taken_def entries_def flip: ent)
  let ?m = "case SCOREP_AllocMetric_HandleRealloc track a n (taken k acq) m of Inr (_, m') \<Rightarrow> m' | Inl _ \<Rightarrow> m"
  have run: "SCOREP_AllocMetric_HandleRealloc track a n (taken k acq) m = Inr (alloc_size ?i, ?m)"
    using Some by (simp add: SCOREP_AllocMetric_HandleRealloc_def taken_def Let_def)
  obtain i where i: "item_ptr i = item_ptr ?i" "alloc_address i = a" "alloc_size i = n"
    and m: "allocations ?m = insert_memory_allocation (allocations m) i" "free_list ?m = free_list m" "misc_memory ?m = misc_memory m"
      "total_allocated_memory ?m = bytes + n - alloc_size ?i" "process_allocated_memory ?m = process + (bytes + n - alloc_size ?i)"
  proof (cases "alloc_address ?i = a")
    case True
    show ?thesis
      by (rule that [of "(update_data track (Track_Realloc a (alloc_size ?i) a n (bytes + (n - alloc_size ?i))
            (process + bytes + (n - alloc_size ?i))) ?i)\<lparr>alloc_size := n\<rparr>"])
        (use True Some bytes in \<open>simp_all add: SCOREP_AllocMetric_HandleRealloc_def taken_def Let_def update_data_def algebra_simps\<close>)
  next
    case False
    show ?thesis
      by (rule that [of "(update_data track (Track_Realloc (alloc_address ?i) (alloc_size ?i) a n (bytes + n)
            (process + bytes + n)) ?i)\<lparr>alloc_address := a, alloc_size := n\<rparr>"])
        (use False Some bytes in \<open>simp_all add: SCOREP_AllocMetric_HandleRealloc_def taken_def Let_def update_data_def algebra_simps\<close>)
  qed
  have "kept_in_book process items (f(a \<mapsto> n), without j acq', bytes + n - alloc_size ?i) (?m, without j acq)"
    by (rule reinsert_in_book [OF kept new j i m])
  moreover obtain m' where "?m = m'" by simp
  ultimately have "SCOREP_AllocMetric_HandleRealloc track a n (taken k acq) m = Inr (alloc_size ?i, m')"
    "kept_in_book process items (f(a \<mapsto> n), without j acq', bytes + n - alloc_size ?i) (m', without j acq)"
    "misc_memory m' = misc_memory m"
    using run m(3) by simp_all
  then show ?thesis using tk Some by (simp add: rest_of_taken_def)
qed

lemma alloc_in_book:
  assumes kept: "kept_in_book process items (f, acq', bytes) (m, acq)" and new: "f a = None" and "misc_memory m \<noteq> []"
  shows "\<exists>s. serve track (Alloc_Request a n) (m, acq) = Inr s \<and>
    kept_in_book process items (book_request (Alloc_Request a n) (f, acq', bytes)) s \<and>
    length (misc_memory m) \<le> Suc (length (misc_memory (fst s)))"
proof -
  obtain i m' where add: "add_memory_allocation (m\<lparr>process_allocated_memory := process_allocated_memory m + n,
        total_allocated_memory := total_allocated_memory m + n\<rparr>) a n = Inr (i, m')"
    and len: "length (misc_memory m) \<le> Suc (length (misc_memory m'))"
    and k': "\<And>es e. kept_in_book process items (f(a \<mapsto> n), acq', bytes + n) (update_root (update_data track e) (report es m'), acq)"
    using add_in_book [OF kept new assms(3)] by blast
  then show ?thesis by (simp add: SCOREP_AllocMetric_HandleAlloc_def Let_def)
qed

lemma serve_in_book:
  assumes "kept_in_book process items b s" and "request_ok q b" and "misc_memory (fst s) \<noteq> []"
  shows "\<exists>s'. serve track q s = Inr s' \<and> kept_in_book process items (book_request q b) s' \<and>
    length (misc_memory (fst s)) \<le> Suc (length (misc_memory (fst s')))"
proof -
  obtain f acq' bytes m acq where bs: "b = (f, acq', bytes)" "s = (m, acq)" by (metis prod_cases3 surj_pair)
  have ent: "acq' = entries acq" using assms(1) bs by (simp add: kept_in_book_def)
  note kept = assms(1) [unfolded bs]
  show ?thesis
  proof (cases q)
    case (Alloc_Request a n)
    then show ?thesis using alloc_in_book [OF kept] assms(2,3) bs by simp
  next
    case (Acquire_Request a)
    then have "a \<noteq> 0" using assms(2) bs by simp
    then show ?thesis using acquire_in_book [OF kept] bs Acquire_Request by fastforce
  next
    case (Realloc_Request k a n)
    then have "f a = None" "within k acq" using assms(2) bs ent within_entries by auto
    then show ?thesis using realloc_in_book [OF kept, where track = track] assms(3) bs Realloc_Request by simp
  next
    case (Free_Request k)
    then have "within k acq" using assms(2) bs ent within_entries by simp
    then show ?thesis using free_in_book [OF kept] bs Free_Request by fastforce
  qed
qed

lemma serve_all_in_book:
  "kept_in_book process items b s \<Longrightarrow> requests_ok qs b \<Longrightarrow> length qs \<le> length (misc_memory (fst s)) \<Longrightarrow>
    \<exists>s'. serve_all track qs s = Inr s' \<and> kept_in_book process items (fold book_request qs b) s'"
proof (induction qs arbitrary: b s)
  case (Cons q qs)
  have "misc_memory (fst s) \<noteq> []" using Cons.prems(3) by auto
  then obtain s1 where s1: "serve track q s = Inr s1" "kept_in_book process items (book_request q b) s1"
    "length (misc_memory (fst s)) \<le> Suc (length (misc_memory (fst s1)))"
    using serve_in_book [OF Cons.prems(1), of q track] Cons.prems(2) by auto
  then obtain s' where "serve_all track qs s1 = Inr s'" "kept_in_book process items (fold book_request qs (book_request q b)) s'"
    using Cons.IH [OF s1(2)] Cons.prems(2,3) by auto
  then show ?case using s1(1) by simp
qed simp


subsection \<open>The theorems\<close>

text \<open>C13: a metric that serves the requests of the threads, interleaved in any way, agrees with the book: it tracks the
same sizes, the same items are out, and its total is the sum of the sizes of what is tracked and what is out; every item of its
memory is at exactly one place. No request fails as long as there is memory for an item.\<close>

theorem requests_kept_in_book:
  assumes "requests_ok qs (Map.empty, [], 0)" and "length qs \<le> length misc"
  shows "\<exists>m acq. serve_all track qs (SCOREP_AllocMetric_NewScoped process misc, []) = Inr (m, acq) \<and>
    fold book_request qs (Map.empty, [], 0) = (tracked (allocations m), entries acq, total_allocated_memory m) \<and>
    total_allocated_memory m = sum_list (map alloc_size (inorder (allocations m))) + sum_list (map alloc_size acq) \<and>
    process_allocated_memory m = process + total_allocated_memory m \<and>
    tree_ok (allocations m) \<and> items_of m acq = mset misc"
proof -
  let ?m = "SCOREP_AllocMetric_NewScoped process misc"
  have "kept_in_book process (mset misc) (Map.empty, [], 0) (?m, [])"
    by (simp add: kept_in_book_def SCOREP_AllocMetric_NewScoped_def tree_ok_def tracked_def items_of_def)
  then obtain s where s: "serve_all track qs (?m, []) = Inr s" "kept_in_book process (mset misc) (fold book_request qs (Map.empty, [], 0)) s"
    using serve_all_in_book [of process "mset misc" "(Map.empty, [], 0)" "(?m, [])" qs track] assms
    by (auto simp: SCOREP_AllocMetric_NewScoped_def)
  then show ?thesis by (cases s; cases "fold book_request qs (Map.empty, [], 0)") (auto simp: kept_in_book_def)
qed

definition sample_requests :: "request list" where
  "sample_requests = [Alloc_Request 64 100, Alloc_Request 32 50, Acquire_Request 64, Alloc_Request 96 10,
     Realloc_Request (Some 0) 128 200, Acquire_Request 7, Acquire_Request 32, Free_Request (Some 0)]"

lemma sample_requests_ok: "requests_ok sample_requests (Map.empty, [], 0)"
  by (simp add: sample_requests_def rest_of_taken_def without_def taken_def within_def)

lemma sample_book: "fold book_request sample_requests (Map.empty, [], 0) = ([96 \<mapsto> 10, 128 \<mapsto> 200], [], 210)"
  by (simp add: sample_requests_def rest_of_taken_def without_def taken_def fun_eq_iff)

lemma requests_kept_in_book_witness:
  "\<exists>m acq. serve_all (\<lambda>_ d. d) sample_requests (SCOREP_AllocMetric_NewScoped 0 [1, 2, 3, 4, 5, 6, 7, 8], []) = Inr (m, acq) \<and>
    ([96 \<mapsto> 10, 128 \<mapsto> 200], [], 210) = (tracked (allocations m), entries acq, total_allocated_memory m) \<and>
    total_allocated_memory m = sum_list (map alloc_size (inorder (allocations m))) + sum_list (map alloc_size acq) \<and>
    process_allocated_memory m = 0 + total_allocated_memory m \<and>
    tree_ok (allocations m) \<and> items_of m acq = mset [1, 2, 3, 4, 5, 6, 7, 8]"
  unfolding sample_book [symmetric]
  by (rule requests_kept_in_book [OF sample_requests_ok]) (simp add: sample_requests_def)

lemma delete_root:
  assumes "tree_ok (Node l i r)" and "allocations m = Node l i r"
  shows "tree_ok (allocations (delete_memory_allocation (report es m) (item_ptr i)))"
    and "inorder (allocations (delete_memory_allocation (report es m) (item_ptr i))) = inorder l @ inorder r"
    and "reported (delete_memory_allocation (report es m) (item_ptr i)) = reported m @ es"
proof -
  have s: "sorted_items (inorder l @ i # inorder r)" using assms(1) by (simp add: tree_ok_def)
  show "inorder (allocations (delete_memory_allocation (report es m) (item_ptr i))) = inorder l @ inorder r"
    using remove_root_inorder [OF s] assms(2) by (simp add: delete_memory_allocation_def free_memory_allocation_def)
  then show "tree_ok (allocations (delete_memory_allocation (report es m) (item_ptr i)))"
    using sorted_without [OF s] by (simp add: tree_ok_def)
  show "reported (delete_memory_allocation (report es m) (item_ptr i)) = reported m @ es"
    by (simp add: delete_memory_allocation_def free_memory_allocation_def report_def)
qed

text \<open>C31: at the end every allocation that is still tracked is reported as leaked once, and nothing else is; the tree is then
empty.\<close>

theorem leaks_reported_once:
  assumes "tree_ok (allocations m)"
  shows "allocations (SCOREP_AllocMetric_ReportLeaked m) = Leaf \<and>
    mset (reported (SCOREP_AllocMetric_ReportLeaked m)) =
      mset (reported m) + mset (map (\<lambda>(a, n). Leaked_Memory a n) (entries (inorder (allocations m))))"
  using assms
proof (induction m rule: SCOREP_AllocMetric_ReportLeaked.induct)
  case (1 m)
  show ?case
  proof (cases "allocations m")
    case Leaf
    then show ?thesis by (subst (1 2) SCOREP_AllocMetric_ReportLeaked.simps) simp
  next
    case (Node l i r)
    note d = delete_root [OF 1(2) [unfolded Node] Node, of "[Leaked_Memory (alloc_address i) (alloc_size i)]"]
    show ?thesis using 1(1) [OF Node d(1)] d(2,3) Node
      by (subst (1 2) SCOREP_AllocMetric_ReportLeaked.simps) simp
  qed
qed

definition sample_item :: "nat \<Rightarrow> u64 \<Rightarrow> u64 \<Rightarrow> allocation_item" where
  "sample_item p a n = \<lparr>item_ptr = p, alloc_address = a, alloc_size = n, substrate_data = []\<rparr>"

definition sample_metric :: alloc_metric where
  "sample_metric = (SCOREP_AllocMetric_NewScoped 0 [5])\<lparr>allocations := Node (Node Leaf (sample_item 1 16 8) Leaf) (sample_item 2 64 4) Leaf,
     total_allocated_memory := 12\<rparr>"

lemma sample_metric_ok: "tree_ok (allocations sample_metric)"
  by (simp add: sample_metric_def tree_ok_def sample_item_def)

lemma leaks_reported_once_witness:
  "mset (reported (SCOREP_AllocMetric_ReportLeaked sample_metric)) = {#Leaked_Memory 16 8, Leaked_Memory 64 4#}"
  using leaks_reported_once [OF sample_metric_ok]
  by (simp add: sample_metric_def SCOREP_AllocMetric_NewScoped_def sample_item_def)

text \<open>C38: an address that is reported again while it is known takes the place of the whole tree: every other allocation is
forgotten, although the total still counts it.\<close>

theorem known_address_forgets_others:
  assumes "tree_ok (allocations m)" and "tracked (allocations m) a \<noteq> None" and "misc_memory m \<noteq> []"
  shows "\<exists>m'. SCOREP_AllocMetric_HandleAlloc track a n m = Inr m' \<and> tracked (allocations m') = [a \<mapsto> n] \<and>
    total_allocated_memory m' = total_allocated_memory m + n"
proof -
  let ?m = "m\<lparr>process_allocated_memory := process_allocated_memory m + n, total_allocated_memory := total_allocated_memory m + n\<rparr>"
  obtain i m' where add: "add_memory_allocation ?m a n = Inr (i, m')" "alloc_address i = a" "alloc_size i = n"
    "allocations m' = insert_memory_allocation (allocations m) i" "total_allocated_memory m' = total_allocated_memory m + n"
    using add_memory_result [of ?m a n] assms(3) by auto
  obtain x where x: "x \<in> set (inorder (allocations m))" "alloc_address x = a"
    using assms(2) by (auto simp: tracked_def map_of_entries_None)
  obtain l j r where s: "splay (allocations m) a = Node l j r" using x(1) by (cases "splay (allocations m) a") auto
  note p = splay_parts [OF assms(1) s]
  have "alloc_address j = a" using x p(3,4) unfolding p(1) by auto
  then have "allocations m' = Node Leaf i Leaf" using s add(2,4) by (simp add: insert_memory_allocation_def)
  then have "tracked (allocations (update_root (update_data track e) (report es m'))) = [a \<mapsto> n]" for e es
    using same_view(2) [OF view_update_root] add(2,3) by (simp add: tracked_def)
  then show ?thesis using add by (simp add: SCOREP_AllocMetric_HandleAlloc_def Let_def)
qed

lemma known_address_forgets_others_witness:
  "tracked (allocations sample_metric) 16 = Some 8 \<and>
   (\<exists>m'. SCOREP_AllocMetric_HandleAlloc (\<lambda>_ d. d) 64 4 sample_metric = Inr m' \<and> tracked (allocations m') = [64 \<mapsto> 4] \<and>
     total_allocated_memory m' = total_allocated_memory sample_metric + 4)"
  using known_address_forgets_others [OF sample_metric_ok, of 64 "\<lambda>_ d. d" 4]
  by (simp add: sample_metric_def tracked_def sample_item_def SCOREP_AllocMetric_NewScoped_def)

end
