(* ===== verification/TaskStack.thy ===== *)
theory TaskStack
  imports JenkinsHash
begin

section \<open>Region stacks of tasks\<close>

text \<open>
  \<^verbatim>\<open>src/measurement/SCOREP_Task.c\<close>: every task of a location has a stack of the regions it is in, in frames of 30 regions that are
  linked from the top to the bottom. Frames and tasks that are no longer used are kept for the next one.

  A chain of frames is a list, the one that is used first; a frame is the list of its regions. Tasks are
  records in a store, and a handle is an address, 0 being the null pointer. Memory for new tasks and frames is given as lists:
  addresses for tasks, and for frames what was in the memory before; an empty list is exhausted memory, which ends the program.
  The data of the substrates in a task and their callbacks are left out. The hash value of a region is
  what the definitions answer for its handle, a function that answers nothing for a handle that is no region.
\<close>

subsection \<open>Data\<close>

definition SCOREP_TASK_STACK_SIZE :: u32 where "SCOREP_TASK_STACK_SIZE = 30"

definition SCOREP_INVALID_REGION :: u32 where "SCOREP_INVALID_REGION = 0"

definition SCOREP_FILTERED_REGION :: u32 where "SCOREP_FILTERED_REGION = - 1"

type_synonym stack_frame = "u32 list"

record task =
  current_frame :: "stack_frame list"
  current_index :: u32
  thread_id :: u32
  generation_number :: u32
  parent_hash_value :: u32

record location_tasks =
  current_task :: nat
  recycled_tasks :: "nat list"
  implicit_task :: nat
  recycled_frames :: "stack_frame list"
  tasks :: "nat \<rightharpoonup> task"
  misc_tasks :: "nat list"
  misc_frames :: "stack_frame list"
  exits :: "u32 list"
  calling_contexts :: "u32 list"

definition get_task :: "nat \<Rightarrow> location_tasks \<Rightarrow> task outcome" where
  "get_task t s = (case tasks s t of None \<Rightarrow> Inl Bad_Access | Some k \<Rightarrow> Inr k)"

definition set_task :: "nat \<Rightarrow> task \<Rightarrow> location_tasks \<Rightarrow> location_tasks" where
  "set_task t k s = s\<lparr>tasks := (tasks s)(t \<mapsto> k)\<rparr>"

subsection \<open>Frames\<close>

definition recycle_stack_frame :: "stack_frame \<Rightarrow> location_tasks \<Rightarrow> location_tasks" where
  "recycle_stack_frame frame s = s\<lparr>recycled_frames := frame # recycled_frames s\<rparr>"

definition recycle_task :: "nat \<Rightarrow> location_tasks \<Rightarrow> location_tasks" where
  "recycle_task t s = s\<lparr>recycled_tasks := t # recycled_tasks s\<rparr>"

definition alloc_new_stack_frame :: "location_tasks \<Rightarrow> (stack_frame \<times> location_tasks) outcome" where
  "alloc_new_stack_frame s =
     (case recycled_frames s of
        f # fs \<Rightarrow> Inr (f, s\<lparr>recycled_frames := fs\<rparr>)
      | [] \<Rightarrow> (case misc_frames s of [] \<Rightarrow> Inl Abort | f # fs \<Rightarrow> Inr (f, s\<lparr>misc_frames := fs\<rparr>)))"

definition task_pop_stack :: "nat \<Rightarrow> location_tasks \<Rightarrow> location_tasks outcome" where
  "task_pop_stack t s =
     and_then (get_task t s) (\<lambda>k.
       case current_frame k of
         [] \<Rightarrow> Inl Abort
       | f # fs \<Rightarrow>
           Inr (if current_index k = 0
                then recycle_stack_frame f (set_task t (k\<lparr>current_frame := fs, current_index := SCOREP_TASK_STACK_SIZE - 1\<rparr>) s)
                else set_task t (k\<lparr>current_index := current_index k - 1\<rparr>) s))"

text \<open>Writing and reading a region of a frame, within its bounds.\<close>

definition write_region :: "stack_frame \<Rightarrow> u32 \<Rightarrow> u32 \<Rightarrow> stack_frame outcome" where
  "write_region f i region = (if unat i < length f then Inr (f[unat i := region]) else Inl Bad_Access)"

definition read_region :: "stack_frame \<Rightarrow> u32 \<Rightarrow> u32 outcome" where
  "read_region f i = (if unat i < length f then Inr (f ! unat i) else Inl Bad_Access)"

definition SCOREP_Task_GetTopRegion :: "task \<Rightarrow> u32 outcome" where
  "SCOREP_Task_GetTopRegion k =
     (case current_frame k of [] \<Rightarrow> Inr SCOREP_INVALID_REGION | f # _ \<Rightarrow> read_region f (current_index k))"

definition SCOREP_Task_GetCurrentTask :: "location_tasks \<Rightarrow> nat" where
  "SCOREP_Task_GetCurrentTask s = current_task s"

definition SCOREP_Task_Enter :: "u32 \<Rightarrow> location_tasks \<Rightarrow> location_tasks outcome" where
  "SCOREP_Task_Enter region s =
     and_then (get_task (current_task s) s) (\<lambda>k.
       if current_index k < SCOREP_TASK_STACK_SIZE - 1
       then let i = current_index k + 1
            in case current_frame k of
                 [] \<Rightarrow> Inl Bad_Access
               | f # fs \<Rightarrow> and_then (write_region f i region) (\<lambda>f.
                            Inr (set_task (current_task s) (k\<lparr>current_frame := f # fs, current_index := i\<rparr>) s))
       else and_then (alloc_new_stack_frame s) (\<lambda>(f, s).
              and_then (write_region f 0 region) (\<lambda>f.
                Inr (set_task (current_task s) (k\<lparr>current_frame := f # current_frame k, current_index := 0\<rparr>) s))))"

definition SCOREP_Task_Exit :: "location_tasks \<Rightarrow> location_tasks outcome" where
  "SCOREP_Task_Exit s = task_pop_stack (current_task s) s"

text \<open>The whole chain goes to the recycled frames, one after the other.\<close>

definition SCOREP_Task_ClearStack :: "nat \<Rightarrow> location_tasks \<Rightarrow> location_tasks outcome" where
  "SCOREP_Task_ClearStack t s =
     and_then (get_task t s) (\<lambda>k.
       Inr (set_task t (k\<lparr>current_frame := [], current_index := SCOREP_TASK_STACK_SIZE - 1\<rparr>)
              (fold recycle_stack_frame (current_frame k) s)))"

definition SCOREP_Task_ClearCurrent :: "location_tasks \<Rightarrow> location_tasks outcome" where
  "SCOREP_Task_ClearCurrent s = SCOREP_Task_ClearStack (SCOREP_Task_GetCurrentTask s) s"

subsection \<open>Leaving all regions\<close>

text \<open>
  \<^verbatim>\<open>SCOREP_ExitRegion\<close> and \<^verbatim>\<open>SCOREP_Location_ExitRegion\<close> tell the substrates, and without unwinding remove the region from
  the stack of the current task. With it, they ask for the calling context of the exit, and leave the stack of the task alone.
  The calling contexts that the unwinding answers with, one for each region that it has seen entered, are given as a list in
  the state; without a region that is entered it ends the program, and so does an answer that is no calling context.
\<close>

definition SCOREP_INVALID_CALLING_CONTEXT :: u32 where "SCOREP_INVALID_CALLING_CONTEXT = 0"

definition scorep_calling_context_exit :: "u32 \<Rightarrow> location_tasks \<Rightarrow> location_tasks outcome" where
  "scorep_calling_context_exit region s =
     (case calling_contexts s of
        [] \<Rightarrow> Inl Abort
      | c # cs \<Rightarrow> assert_that (c \<noteq> SCOREP_INVALID_CALLING_CONTEXT)
                    (Inr (s\<lparr>calling_contexts := cs, exits := exits s @ [region]\<rparr>)))"

definition SCOREP_ExitRegion :: "bool \<Rightarrow> u32 \<Rightarrow> location_tasks \<Rightarrow> location_tasks outcome" where
  "SCOREP_ExitRegion unwinding region s =
     (if unwinding then scorep_calling_context_exit region s else SCOREP_Task_Exit (s\<lparr>exits := exits s @ [region]\<rparr>))"

fun exit_all :: "nat \<Rightarrow> bool \<Rightarrow> nat \<Rightarrow> location_tasks \<Rightarrow> location_tasks outcome" where
  "exit_all 0 unwinding t s = Inl Endless"
| "exit_all (Suc n) unwinding t s =
     and_then (get_task t s) (\<lambda>k.
       if current_frame k = [] then Inr s
       else and_then (SCOREP_Task_GetTopRegion k) (\<lambda>region.
              and_then (if region \<noteq> SCOREP_FILTERED_REGION then SCOREP_ExitRegion unwinding region s else task_pop_stack t s)
                (exit_all n unwinding t)))"

text \<open>One turn for each region there is room for in the frames and each calling context, and one more.\<close>

definition SCOREP_Task_ExitAllRegions :: "bool \<Rightarrow> nat \<Rightarrow> location_tasks \<Rightarrow> location_tasks outcome" where
  "SCOREP_Task_ExitAllRegions unwinding t s =
     and_then (get_task t s) (\<lambda>k.
       exit_all (Suc (30 * length (current_frame k) + length (calling_contexts s))) unwinding t s)"

subsection \<open>The hash value of the stack\<close>

text \<open>The hash values of regions are hashed byte by byte.\<close>

definition hash_of_hash :: "u32 \<Rightarrow> u32 \<Rightarrow> u32" where
  "hash_of_hash region_hash h = jenkins_hash False (word_bytes (\<lambda>_. region_hash)) 4 h"

fun aggregate_regions :: "(u32 \<Rightarrow> u32 option) \<Rightarrow> u32 list \<Rightarrow> u32 \<Rightarrow> u32 outcome" where
  "aggregate_regions hash_value [] h = Inr h"
| "aggregate_regions hash_value (r # rs) h =
     (case hash_value r of None \<Rightarrow> Inl Bad_Access | Some rh \<Rightarrow> aggregate_regions hash_value rs (hash_of_hash rh h))"

fun stack_frame_aggregation :: "(u32 \<Rightarrow> u32 option) \<Rightarrow> stack_frame list \<Rightarrow> u32 \<Rightarrow> task \<Rightarrow> u32 outcome" where
  "stack_frame_aggregation hash_value [] frameSize k = Inr (parent_hash_value k)"
| "stack_frame_aggregation hash_value (f # fs) frameSize k =
     and_then (stack_frame_aggregation hash_value fs (SCOREP_TASK_STACK_SIZE - 1) k) (\<lambda>h.
       if length f \<le> unat frameSize then Inl Bad_Access
       else aggregate_regions hash_value (take (Suc (unat frameSize)) f) h)"

definition SCOREP_Task_GetRegionStackHash :: "(u32 \<Rightarrow> u32 option) \<Rightarrow> task \<Rightarrow> u32 outcome" where
  "SCOREP_Task_GetRegionStackHash hash_value k =
     (if current_frame k = [] then Inr 0 else stack_frame_aggregation hash_value (current_frame k) (current_index k) k)"

subsection \<open>Tasks\<close>

text \<open>The hash value of the parent keeps what was in the memory before, \<open>left_over\<close>, if there is no current task.\<close>

definition scorep_task_create ::
  "(u32 \<Rightarrow> u32 option) \<Rightarrow> u32 \<Rightarrow> u32 \<Rightarrow> u32 \<Rightarrow> location_tasks \<Rightarrow> (nat \<times> location_tasks) outcome" where
  "scorep_task_create hash_value left_over threadId generationNumber s =
     and_then (case recycled_tasks s of
                 t # ts \<Rightarrow> Inr (t, s\<lparr>recycled_tasks := ts\<rparr>)
               | [] \<Rightarrow> (case misc_tasks s of [] \<Rightarrow> Inl Abort | t # ts \<Rightarrow> Inr (t, s\<lparr>misc_tasks := ts\<rparr>)))
       (\<lambda>(t, s).
          and_then (if current_task s \<noteq> 0
                    then and_then (get_task (current_task s) s) (SCOREP_Task_GetRegionStackHash hash_value)
                    else Inr (case tasks s t of None \<Rightarrow> left_over | Some k \<Rightarrow> parent_hash_value k)) (\<lambda>h.
            Inr (t, set_task t \<lparr>current_frame = [], current_index = SCOREP_TASK_STACK_SIZE - 1, thread_id = threadId,
                                generation_number = generationNumber, parent_hash_value = h\<rparr> s)))"

definition scorep_task_complete :: "nat \<Rightarrow> location_tasks \<Rightarrow> location_tasks" where
  "scorep_task_complete t s = recycle_task t s"

definition scorep_task_switch :: "nat \<Rightarrow> location_tasks \<Rightarrow> location_tasks" where
  "scorep_task_switch t s = s\<lparr>current_task := t\<rparr>"

definition SCOREP_Task_GetThreadId :: "task \<Rightarrow> u32" where
  "SCOREP_Task_GetThreadId k = thread_id k"

definition SCOREP_Task_GetGenerationNumber :: "task \<Rightarrow> u32" where
  "SCOREP_Task_GetGenerationNumber k = generation_number k"

text \<open>The data of the location are cleared, and its first task gets the hash value of the last fork of the parent location.\<close>

definition task_subsystem_init_location ::
  "u32 \<Rightarrow> u32 \<Rightarrow> nat list \<Rightarrow> stack_frame list \<Rightarrow> location_tasks outcome" where
  "task_subsystem_init_location location_id last_fork_hash misc frames =
     (let s = \<lparr>current_task = 0, recycled_tasks = [], implicit_task = 0, recycled_frames = [], tasks = Map.empty,
               misc_tasks = misc, misc_frames = frames, exits = [],
               calling_contexts = []\<rparr>
      in and_then (scorep_task_create (\<lambda>_. None) 0 location_id 0 s) (\<lambda>(t, s).
         and_then (get_task t s) (\<lambda>k.
           Inr (set_task t (k\<lparr>parent_hash_value := last_fork_hash\<rparr>) (s\<lparr>current_task := t, implicit_task := t\<rparr>)))))"

definition task_subsystem_finalize_location :: "location_tasks \<Rightarrow> location_tasks" where
  "task_subsystem_finalize_location s = scorep_task_complete (current_task s) s"

end
