(* ===== verification/TaskStackProperties.thy ===== *)
theory TaskStackProperties
  imports TaskStack
begin

section \<open>The stack of regions is a stack\<close>

text \<open>The frames of a task stand for the list of its regions, the innermost first.\<close>

subsection \<open>The regions of a task\<close>

definition full_frame :: "stack_frame \<Rightarrow> bool" where
  "full_frame f \<longleftrightarrow> length f = 30"

fun stack_in :: "stack_frame list \<Rightarrow> u32 \<Rightarrow> u32 list" where
  "stack_in [] i = []"
| "stack_in (f # fs) i = rev (take (Suc (unat i)) f) @ concat (map rev fs)"

definition stack_of :: "task \<Rightarrow> u32 list" where
  "stack_of k = stack_in (current_frame k) (current_index k)"

definition task_ok :: "task \<Rightarrow> bool" where
  "task_ok k \<longleftrightarrow> list_all full_frame (current_frame k) \<and> unat (current_index k) < 30 \<and>
     (current_frame k = [] \<longrightarrow> current_index k = 29)"

text \<open>The current task is in the store, every frame has its length, and \<open>n\<close> frames are in use or can be had.\<close>

definition stack_ok :: "nat \<Rightarrow> location_tasks \<Rightarrow> task \<Rightarrow> bool" where
  "stack_ok n s k \<longleftrightarrow> tasks s (current_task s) = Some k \<and> task_ok k \<and> list_all full_frame (recycled_frames s) \<and>
     list_all full_frame (misc_frames s) \<and> length (current_frame k) + length (recycled_frames s) + length (misc_frames s) = n"

lemma length_full: "list_all full_frame fs \<Longrightarrow> length (concat (map rev fs)) = 30 * length fs"
  by (induction fs) (simp_all add: full_frame_def)

lemma stack_of_length:
  assumes "task_ok k"
  shows "length (stack_of k) = (if current_frame k = [] then 0 else 30 * (length (current_frame k) - 1) + Suc (unat (current_index k)))"
proof (cases "current_frame k")
  case (Cons f fs)
  then have "full_frame f" "list_all full_frame fs" "unat (current_index k) < 30" using assms by (simp_all add: task_ok_def)
  then show ?thesis using Cons length_full [of fs] by (simp add: stack_of_def full_frame_def)
qed (simp add: stack_of_def)

lemma stack_of_empty: "task_ok k \<Longrightarrow> stack_of k = [] \<longleftrightarrow> current_frame k = []"
  using stack_of_length [of k] by (cases "stack_of k"; cases "current_frame k") auto

lemma size_minus_one: "SCOREP_TASK_STACK_SIZE - 1 = 29"
  by (simp add: SCOREP_TASK_STACK_SIZE_def)

lemma unat_suc_index: "unat i < 29 \<Longrightarrow> unat (i + 1) = Suc (unat (i :: u32))"
  by (simp add: unat_word_ariths)

lemma take_update: "i < length f \<Longrightarrow> take (Suc i) (f[i := r]) = take i f @ [r]"
  by (simp add: take_Suc_conv_app_nth)

text \<open>A region on top.\<close>

lemma enter_pushes:
  assumes ok: "stack_ok n s k" and room: "length (stack_of k) < 30 * n"
  shows "\<exists>s' k'. SCOREP_Task_Enter r s = Inr s' \<and> stack_ok n s' k' \<and> stack_of k' = r # stack_of k \<and>
    parent_hash_value k' = parent_hash_value k \<and> current_task s' = current_task s"
proof -
  have k: "tasks s (current_task s) = Some k" "task_ok k" using ok by (simp_all add: stack_ok_def)
  let ?i = "current_index k"
  show ?thesis
  proof (cases "?i < SCOREP_TASK_STACK_SIZE - 1")
    case True
    then have i: "unat ?i < 29" by (simp add: size_minus_one word_less_nat_alt)
    then have "?i \<noteq> 29" by auto
    then obtain f fs where f: "current_frame k = f # fs" using k(2) by (cases "current_frame k") (auto simp: task_ok_def)
    then have len: "length f = 30" using k(2) by (simp add: task_ok_def full_frame_def)
    note suc = unat_suc_index [OF i]
    let ?k = "k\<lparr>current_frame := f[Suc (unat ?i) := r] # fs, current_index := ?i + 1\<rparr>"
    have "SCOREP_Task_Enter r s = Inr (set_task (current_task s) ?k s)"
      using True k(1) f suc i len by (simp add: SCOREP_Task_Enter_def get_task_def Let_def write_region_def)
    moreover have "stack_ok n (set_task (current_task s) ?k s) ?k"
      using ok f suc i len by (simp add: stack_ok_def task_ok_def set_task_def full_frame_def)
    moreover have "stack_of ?k = r # stack_of k"
      using f suc i len take_update [of "Suc (unat ?i)" f r] by (simp add: stack_of_def)
    ultimately show ?thesis by (intro exI [of _ "set_task (current_task s) ?k s"] exI [of _ ?k]) (simp add: set_task_def)
  next
    case False
    then have i: "unat ?i = 29" using k(2) by (simp add: size_minus_one word_less_nat_alt task_ok_def)
    then have "length (stack_of k) = 30 * length (current_frame k)"
      using stack_of_length [OF k(2)] by (cases "current_frame k") simp_all
    then have "length (current_frame k) < n" using room by simp
    then have "recycled_frames s \<noteq> [] \<or> misc_frames s \<noteq> []" using ok by (auto simp: stack_ok_def)
    then obtain f s1 where s1: "alloc_new_stack_frame s = Inr (f, s1)" "full_frame f"
      "tasks s1 = tasks s" "current_task s1 = current_task s"
      "list_all full_frame (recycled_frames s1)" "list_all full_frame (misc_frames s1)"
      "Suc (length (recycled_frames s1) + length (misc_frames s1)) = length (recycled_frames s) + length (misc_frames s)"
      using ok by (cases "recycled_frames s"; cases "misc_frames s") (auto simp: alloc_new_stack_frame_def stack_ok_def)
    then have ne: "f \<noteq> []" by (auto simp: full_frame_def)
    let ?k = "k\<lparr>current_frame := f[0 := r] # current_frame k, current_index := 0\<rparr>"
    have "SCOREP_Task_Enter r s = Inr (set_task (current_task s) ?k s1)"
      using False k(1) s1 ne by (simp add: SCOREP_Task_Enter_def get_task_def write_region_def)
    moreover have "stack_ok n (set_task (current_task s) ?k s1) ?k"
      using ok s1 by (simp add: stack_ok_def task_ok_def set_task_def full_frame_def)
    moreover have "stack_of ?k = r # stack_of k"
    proof -
      have "concat (map rev (current_frame k)) = stack_of k"
        using k(2) i by (cases "current_frame k") (simp_all add: stack_of_def task_ok_def full_frame_def)
      moreover have "take (Suc 0) (f[0 := r]) = [r]" using s1(2) take_update [of 0 f r] by (simp add: full_frame_def)
      ultimately show ?thesis by (simp add: stack_of_def)
    qed
    ultimately show ?thesis by (intro exI [of _ "set_task (current_task s) ?k s1"] exI [of _ ?k]) (simp add: set_task_def s1)
  qed
qed

text \<open>The top region removed, also from a task that is not the current one.\<close>

lemma pop_empty: "tasks s t = Some k \<Longrightarrow> current_frame k = [] \<Longrightarrow> task_pop_stack t s = Inl Abort"
  by (simp add: task_pop_stack_def get_task_def)

lemma pop_pops:
  assumes ok: "stack_ok n s k" and ne: "stack_of k \<noteq> []"
  shows "\<exists>s' k'. SCOREP_Task_Exit s = Inr s' \<and> stack_ok n s' k' \<and> stack_of k' = tl (stack_of k) \<and>
    parent_hash_value k' = parent_hash_value k \<and> current_task s' = current_task s \<and> exits s' = exits s \<and>
    calling_contexts s' = calling_contexts s"
proof -
  have k: "tasks s (current_task s) = Some k" "task_ok k" using ok by (simp_all add: stack_ok_def)
  obtain f fs where f: "current_frame k = f # fs" using ne k(2) stack_of_empty by (cases "current_frame k") auto
  have len: "length f = 30" "list_all full_frame fs" "unat (current_index k) < 30"
    using k(2) f by (simp_all add: task_ok_def full_frame_def)
  let ?i = "current_index k"
  show ?thesis
  proof (cases "?i = 0")
    case True
    let ?k = "k\<lparr>current_frame := fs, current_index := 29\<rparr>"
    let ?s = "recycle_stack_frame f (set_task (current_task s) ?k s)"
    have "SCOREP_Task_Exit s = Inr ?s"
      using True k(1) f by (simp add: SCOREP_Task_Exit_def task_pop_stack_def get_task_def size_minus_one)
    moreover have "stack_ok n ?s ?k"
      using ok f len by (simp add: stack_ok_def task_ok_def set_task_def recycle_stack_frame_def full_frame_def)
    moreover have "stack_of ?k = tl (stack_of k)"
    proof -
      have "rev (take (Suc 0) f) = [hd f]" using len(1) by (cases f) simp_all
      then show ?thesis using f True len by (cases fs) (simp_all add: stack_of_def full_frame_def)
    qed
    ultimately show ?thesis by (intro exI [of _ ?s] exI [of _ ?k]) (simp add: set_task_def recycle_stack_frame_def)
  next
    case False
    then have "0 < unat ?i" by (simp add: unat_gt_0)
    then have i: "Suc (unat (?i - 1)) = unat ?i" using unat_minus_one [OF False] by simp
    let ?k = "k\<lparr>current_index := ?i - 1\<rparr>"
    let ?s = "set_task (current_task s) ?k s"
    have "SCOREP_Task_Exit s = Inr ?s"
      using False k(1) f by (simp add: SCOREP_Task_Exit_def task_pop_stack_def get_task_def)
    moreover have "stack_ok n ?s ?k" using ok f len i by (simp add: stack_ok_def task_ok_def set_task_def)
    moreover have "stack_of ?k = tl (stack_of k)"
      using f i len take_Suc_conv_app_nth [of "unat ?i" f] by (simp add: stack_of_def)
    ultimately show ?thesis by (intro exI [of _ ?s] exI [of _ ?k]) (simp add: set_task_def)
  qed
qed


lemma recycle_all:
  "recycled_frames (fold recycle_stack_frame fs s) = rev fs @ recycled_frames s \<and> misc_frames (fold recycle_stack_frame fs s) = misc_frames s \<and>
    tasks (fold recycle_stack_frame fs s) = tasks s \<and> current_task (fold recycle_stack_frame fs s) = current_task s"
  by (induction fs arbitrary: s) (simp_all add: recycle_stack_frame_def)

lemma clear_empties:
  assumes ok: "stack_ok n s k"
  shows "\<exists>s' k'. SCOREP_Task_ClearCurrent s = Inr s' \<and> stack_ok n s' k' \<and> stack_of k' = [] \<and>
    parent_hash_value k' = parent_hash_value k \<and> current_task s' = current_task s"
proof -
  let ?k = "k\<lparr>current_frame := [], current_index := 29\<rparr>"
  let ?s = "set_task (current_task s) ?k (fold recycle_stack_frame (current_frame k) s)"
  have "SCOREP_Task_ClearCurrent s = Inr ?s"
    using ok by (simp add: SCOREP_Task_ClearCurrent_def SCOREP_Task_ClearStack_def SCOREP_Task_GetCurrentTask_def get_task_def
        stack_ok_def size_minus_one)
  moreover have "stack_ok n ?s ?k"
    using ok recycle_all [of "current_frame k" s] by (simp add: stack_ok_def task_ok_def set_task_def)
  ultimately show ?thesis using recycle_all [of "current_frame k" s]
    by (intro exI [of _ ?s] exI [of _ ?k]) (simp add: stack_of_def set_task_def)
qed

subsection \<open>The hash value\<close>

lemma aggregate_append:
  "aggregate_regions hv (xs @ ys) h = and_then (aggregate_regions hv xs h) (aggregate_regions hv ys)"
  by (induction xs arbitrary: h) (simp_all split: option.split)

lemma aggregate_frames:
  "list_all full_frame fs \<Longrightarrow> fs \<noteq> [] \<Longrightarrow> unat i < 30 \<Longrightarrow>
    stack_frame_aggregation hv fs i k = aggregate_regions hv (rev (stack_in fs i)) (parent_hash_value k)"
proof (induction fs arbitrary: i)
  case (Cons f fs)
  have len: "length f = 30" using Cons.prems(1) by (simp add: full_frame_def)
  show ?case
  proof (cases fs)
    case Nil
    then show ?thesis using Cons.prems(3) len by simp
  next
    case (Cons g gs)
    have full: "stack_in fs 29 = concat (map rev fs)" using Cons Cons.prems(1) by (simp add: full_frame_def)
    have "stack_frame_aggregation hv fs 29 k = aggregate_regions hv (rev (concat (map rev fs))) (parent_hash_value k)"
      using Cons.IH [of 29] Cons Cons.prems(1) full by simp
    then show ?thesis using Cons.prems(3) len by (simp add: aggregate_append size_minus_one)
  qed
qed simp

lemma aggregate_unknown: "\<exists>r\<in>set rs. hv r = None \<Longrightarrow> aggregate_regions hv rs h = Inl Bad_Access"
  by (induction rs arbitrary: h) (auto split: option.split)

definition hash_of_regions :: "(u32 \<Rightarrow> u32 option) \<Rightarrow> u32 \<Rightarrow> u32 list \<Rightarrow> u32 outcome" where
  "hash_of_regions hv parent st = (if st = [] then Inr 0 else aggregate_regions hv (rev st) parent)"

lemma stack_hash: "task_ok k \<Longrightarrow> SCOREP_Task_GetRegionStackHash hv k = hash_of_regions hv (parent_hash_value k) (stack_of k)"
  using stack_of_empty [of k] aggregate_frames [of "current_frame k" "current_index k" hv k]
  by (auto simp: SCOREP_Task_GetRegionStackHash_def hash_of_regions_def task_ok_def stack_of_def)

lemma top_region: "task_ok k \<Longrightarrow> SCOREP_Task_GetTopRegion k = Inr (case stack_of k of [] \<Rightarrow> SCOREP_INVALID_REGION | r # _ \<Rightarrow> r)"
  by (cases "current_frame k")
    (auto simp: SCOREP_Task_GetTopRegion_def stack_of_def read_region_def task_ok_def full_frame_def take_Suc_conv_app_nth)

subsection \<open>Any sequence of operations\<close>

datatype stack_op = Enter_Op u32 | Exit_Op | Clear_Op

fun do_op :: "stack_op \<Rightarrow> location_tasks \<Rightarrow> location_tasks outcome" where
  "do_op (Enter_Op r) s = SCOREP_Task_Enter r s"
| "do_op Exit_Op s = SCOREP_Task_Exit s"
| "do_op Clear_Op s = SCOREP_Task_ClearCurrent s"

fun do_ops :: "stack_op list \<Rightarrow> location_tasks \<Rightarrow> location_tasks outcome" where
  "do_ops [] s = Inr s"
| "do_ops (q # qs) s = and_then (do_op q s) (do_ops qs)"

fun list_op :: "stack_op \<Rightarrow> u32 list \<Rightarrow> u32 list option" where
  "list_op (Enter_Op r) st = Some (r # st)"
| "list_op Exit_Op st = (case st of [] \<Rightarrow> None | _ # st \<Rightarrow> Some st)"
| "list_op Clear_Op st = Some []"

fun list_ops :: "stack_op list \<Rightarrow> u32 list \<Rightarrow> u32 list option" where
  "list_ops [] st = Some st"
| "list_ops (q # qs) st = (case list_op q st of None \<Rightarrow> None | Some st \<Rightarrow> list_ops qs st)"

text \<open>The stack never gets deeper than this.\<close>

fun fits :: "nat \<Rightarrow> stack_op list \<Rightarrow> u32 list \<Rightarrow> bool" where
  "fits n [] st \<longleftrightarrow> True"
| "fits n (q # qs) st \<longleftrightarrow> (case list_op q st of None \<Rightarrow> True | Some st \<Rightarrow> length st \<le> n \<and> fits n qs st)"

definition stands_for_stack :: "nat \<Rightarrow> u32 \<Rightarrow> location_tasks \<Rightarrow> u32 list \<Rightarrow> bool" where
  "stands_for_stack n parent s st \<longleftrightarrow> (\<exists>k. stack_ok n s k \<and> stack_of k = st \<and> parent_hash_value k = parent)"

lemma do_op_refines:
  assumes "stands_for_stack n parent s st" and "\<forall>st'. list_op q st = Some st' \<longrightarrow> length st' \<le> 30 * n"
  shows "case list_op q st of None \<Rightarrow> do_op q s = Inl Abort
    | Some st' \<Rightarrow> \<exists>s'. do_op q s = Inr s' \<and> stands_for_stack n parent s' st'"
proof -
  obtain k where k: "stack_ok n s k" "stack_of k = st" "parent_hash_value k = parent" using assms(1) by (auto simp: stands_for_stack_def)
  show ?thesis
  proof (cases q)
    case (Enter_Op r)
    then have "length (stack_of k) < 30 * n" using assms(2) k(2) by auto
    from enter_pushes [OF k(1) this, of r] show ?thesis using Enter_Op k by (auto simp: stands_for_stack_def)
  next
    case Exit_Op
    show ?thesis
    proof (cases st)
      case Nil
      then have "SCOREP_Task_Exit s = Inl Abort"
        using k pop_empty [of s "current_task s" k] stack_of_empty [of k] by (simp add: SCOREP_Task_Exit_def stack_ok_def)
      then show ?thesis using Exit_Op Nil by simp
    next
      case (Cons r st')
      then show ?thesis using pop_pops [OF k(1)] Exit_Op k by (auto simp: stands_for_stack_def)
    qed
  next
    case Clear_Op
    then show ?thesis using clear_empties [OF k(1)] k by (auto simp: stands_for_stack_def)
  qed
qed

lemma do_ops_refine:
  "stands_for_stack n parent s st \<Longrightarrow> fits (30 * n) qs st \<Longrightarrow>
    (case list_ops qs st of None \<Rightarrow> do_ops qs s = Inl Abort
     | Some st' \<Rightarrow> \<exists>s'. do_ops qs s = Inr s' \<and> stands_for_stack n parent s' st')"
proof (induction qs arbitrary: s st)
  case (Cons q qs)
  note r = do_op_refines [OF Cons.prems(1), of q]
  show ?case
  proof (cases "list_op q st")
    case None
    then show ?thesis using r by simp
  next
    case (Some st')
    then obtain s' where "do_op q s = Inr s'" "stands_for_stack n parent s' st'" using r Cons.prems(2) by auto
    then show ?thesis using Cons.IH [of s' st'] Cons.prems(2) Some by (auto split: option.splits)
  qed
qed simp

text \<open>A location starts with an empty stack.\<close>

lemma init_empty:
  assumes "list_all full_frame frames" and "misc \<noteq> []"
  shows "\<exists>s. task_subsystem_init_location i h misc frames = Inr s \<and> stands_for_stack (length frames) h s []"
proof (cases misc)
  case (Cons t ts)
  then show ?thesis using assms(1)
    by (auto simp: task_subsystem_init_location_def scorep_task_create_def get_task_def set_task_def stands_for_stack_def
        stack_ok_def task_ok_def stack_of_def Let_def size_minus_one)
qed (use assms in simp)

text \<open>C14: entering, leaving and clearing regions in any order does on the frames what it does on a list, with the memory of as
many frames as the deepest stack fills, however often frames are given back and used again; leaving a region of the empty
stack is the only way to fail. The top region is the head of the list, and the hash value that of its regions from the bottom up.\<close>

theorem region_stack_refines_list:
  assumes "list_all full_frame frames" and "misc \<noteq> []" and "fits (30 * length frames) qs []"
  shows "\<exists>s. task_subsystem_init_location i h misc frames = Inr s \<and>
    (case list_ops qs [] of
      None \<Rightarrow> do_ops qs s = Inl Abort
    | Some st \<Rightarrow> \<exists>s' k. do_ops qs s = Inr s' \<and> tasks s' (SCOREP_Task_GetCurrentTask s') = Some k \<and>
        SCOREP_Task_GetTopRegion k = Inr (case st of [] \<Rightarrow> SCOREP_INVALID_REGION | r # _ \<Rightarrow> r) \<and>
        SCOREP_Task_GetRegionStackHash hv k = hash_of_regions hv h st)"
proof -
  obtain s where s: "task_subsystem_init_location i h misc frames = Inr s" "stands_for_stack (length frames) h s []"
    using init_empty [OF assms(1,2), of i h] by auto
  note r = do_ops_refine [OF s(2) assms(3)]
  show ?thesis
  proof (cases "list_ops qs []")
    case None
    then show ?thesis using r s(1) by simp
  next
    case (Some st)
    then obtain s' k where "do_ops qs s = Inr s'" "stack_ok (length frames) s' k" "stack_of k = st" "parent_hash_value k = h"
      using r by (auto simp: stands_for_stack_def)
    then show ?thesis using Some s(1) top_region [of k] stack_hash [of k hv]
      by (auto simp: SCOREP_Task_GetCurrentTask_def stack_ok_def)
  qed
qed

lemma region_stack_refines_list_witness:
  "\<exists>s. task_subsystem_init_location 0 17 [1] [replicate 30 0] = Inr s \<and>
    (\<exists>s' k. do_ops [Enter_Op 5, Enter_Op 7, Exit_Op] s = Inr s' \<and> tasks s' (SCOREP_Task_GetCurrentTask s') = Some k \<and>
      SCOREP_Task_GetTopRegion k = Inr 5 \<and>
      SCOREP_Task_GetRegionStackHash (\<lambda>_. Some 3) k = hash_of_regions (\<lambda>_. Some 3) 17 [5])"
  using region_stack_refines_list [of "[replicate 30 0]" "[1]" "[Enter_Op 5, Enter_Op 7, Exit_Op]" 0 17 "\<lambda>_. Some 3"]
  by (simp add: full_frame_def)

subsection \<open>Leaving all regions\<close>

lemma exit_all_done:
  "stack_ok n s k \<Longrightarrow> stack_of k = [] \<Longrightarrow> exit_all (Suc m) unwinding (current_task s) s = Inr s"
  using stack_of_empty by (simp add: get_task_def stack_ok_def)

lemma exit_all_turn:
  assumes "stack_ok n s k" and "stack_of k = r # st"
  shows "exit_all (Suc m) unwinding (current_task s) s =
    and_then (if r \<noteq> SCOREP_FILTERED_REGION then SCOREP_ExitRegion unwinding r s else SCOREP_Task_Exit s)
      (exit_all m unwinding (current_task s))"
  using assms stack_of_empty [of k] top_region [of k] by (simp add: get_task_def stack_ok_def SCOREP_Task_Exit_def)

lemma stack_ok_exits: "stack_ok n (s\<lparr>exits := es\<rparr>) k \<longleftrightarrow> stack_ok n s k"
  "stack_ok n (s\<lparr>calling_contexts := cs, exits := es\<rparr>) k \<longleftrightarrow> stack_ok n s k"
  by (simp_all add: stack_ok_def)

lemma exit_all_ends:
  assumes "\<not> unwinding \<or> (\<forall>r\<in>set (stack_of k). r = SCOREP_FILTERED_REGION)" and "stack_ok n s k" and "length (stack_of k) < m"
  shows "\<exists>s' k'. exit_all m unwinding (current_task s) s = Inr s' \<and> stack_ok n s' k' \<and> stack_of k' = [] \<and>
    current_task s' = current_task s \<and> exits s' = exits s @ filter (\<lambda>r. r \<noteq> SCOREP_FILTERED_REGION) (stack_of k)"
  using assms
proof (induction m arbitrary: s k)
  case (Suc m)
  show ?case
  proof (cases "stack_of k")
    case Nil
    then show ?thesis using exit_all_done [OF Suc.prems(2) Nil, of m unwinding] Suc.prems(2) by (intro exI [of _ s] exI [of _ k]) simp
  next
    case (Cons r st)
    let ?s = "if r \<noteq> SCOREP_FILTERED_REGION then s\<lparr>exits := exits s @ [r]\<rparr> else s"
    have ok: "stack_ok n ?s k" using Suc.prems(2) stack_ok_exits by simp
    obtain s1 k1 where s1: "SCOREP_Task_Exit ?s = Inr s1" "stack_ok n s1 k1" "stack_of k1 = st" "current_task s1 = current_task s"
      "exits s1 = exits ?s"
      using pop_pops [OF ok] Cons by (auto split: if_splits)
    have "exit_all (Suc m) unwinding (current_task s) s = exit_all m unwinding (current_task s) s1"
      using exit_all_turn [OF Suc.prems(2) Cons, of m unwinding] s1(1) Suc.prems(1) Cons
      by (auto simp: SCOREP_ExitRegion_def Let_def split: if_splits)
    moreover obtain s' k' where "exit_all m unwinding (current_task s1) s1 = Inr s'" "stack_ok n s' k'" "stack_of k' = []"
      "current_task s' = current_task s1" "exits s' = exits s1 @ filter (\<lambda>r. r \<noteq> SCOREP_FILTERED_REGION) (stack_of k1)"
      using Suc.IH [of k1 s1] s1 Suc.prems Cons by auto
    ultimately show ?thesis using s1 Cons by (intro exI [of _ s'] exI [of _ k']) auto
  qed
qed simp

lemma exit_all_aborts:
  "stack_ok n s k \<Longrightarrow> \<exists>r\<in>set (stack_of k). r \<noteq> SCOREP_FILTERED_REGION \<Longrightarrow>
   length (stack_of k) + length (calling_contexts s) < m \<Longrightarrow> exit_all m True (current_task s) s = Inl Abort"
proof (induction m arbitrary: s k)
  case (Suc m)
  obtain r st where st: "stack_of k = r # st" using Suc.prems(2) by (cases "stack_of k") auto
  note turn = exit_all_turn [OF Suc.prems(1) st, of m True]
  show ?case
  proof (cases "r = SCOREP_FILTERED_REGION")
    case True
    obtain s1 k1 where "SCOREP_Task_Exit s = Inr s1" "stack_ok n s1 k1" "stack_of k1 = st" "current_task s1 = current_task s"
      "calling_contexts s1 = calling_contexts s"
      using pop_pops [OF Suc.prems(1)] st by auto
    then show ?thesis using turn True Suc.IH [of s1 k1] Suc.prems(2,3) st by auto
  next
    case False
    show ?thesis
    proof (cases "calling_contexts s")
      case Nil
      then show ?thesis using turn False by (simp add: SCOREP_ExitRegion_def scorep_calling_context_exit_def)
    next
      case (Cons c cs)
      let ?s = "s\<lparr>calling_contexts := cs, exits := exits s @ [r]\<rparr>"
      have "exit_all m True (current_task ?s) ?s = Inl Abort"
        using Suc.prems Cons stack_ok_exits by (intro Suc.IH) simp_all
      then show ?thesis using turn False Cons
        by (simp add: SCOREP_ExitRegion_def scorep_calling_context_exit_def assert_that_def)
    qed
  qed
qed simp

text \<open>C30: leaving all regions of the current task always comes to an end: with an empty stack, and then the substrates have been
told of every region that is not filtered, from the top down; or, if there is such a region and unwinding is enabled, with the end of
the program, since the region stays on the stack of the task while the unwinding runs out of calling contexts.\<close>

theorem all_regions_left:
  assumes "stack_ok n s k"
  shows "if unwinding \<and> (\<exists>r\<in>set (stack_of k). r \<noteq> SCOREP_FILTERED_REGION)
    then SCOREP_Task_ExitAllRegions unwinding (current_task s) s = Inl Abort
    else \<exists>s' k'. SCOREP_Task_ExitAllRegions unwinding (current_task s) s = Inr s' \<and> tasks s' (current_task s) = Some k' \<and>
      stack_of k' = [] \<and> exits s' = exits s @ filter (\<lambda>r. r \<noteq> SCOREP_FILTERED_REGION) (stack_of k)"
proof -
  let ?n = "Suc (30 * length (current_frame k) + length (calling_contexts s))"
  have k: "tasks s (current_task s) = Some k" "task_ok k" using assms by (simp_all add: stack_ok_def)
  have run: "SCOREP_Task_ExitAllRegions unwinding (current_task s) s = exit_all ?n unwinding (current_task s) s"
    using k(1) by (simp add: SCOREP_Task_ExitAllRegions_def get_task_def del: exit_all.simps)
  have len: "length (stack_of k) + length (calling_contexts s) < ?n"
    using stack_of_length [OF k(2)] k(2) by (cases "current_frame k") (simp_all add: task_ok_def)
  show ?thesis
  proof (cases "unwinding \<and> (\<exists>r\<in>set (stack_of k). r \<noteq> SCOREP_FILTERED_REGION)")
    case True
    then show ?thesis using exit_all_aborts [OF assms _ len] run by (simp del: exit_all.simps)
  next
    case False
    obtain s' k' where "exit_all ?n unwinding (current_task s) s = Inr s'" "stack_ok n s' k'"
      "stack_of k' = []" "current_task s' = current_task s" "exits s' = exits s @ filter (\<lambda>r. r \<noteq> SCOREP_FILTERED_REGION) (stack_of k)"
      using exit_all_ends [OF _ assms, of unwinding ?n] False len by fastforce
    then have "SCOREP_Task_ExitAllRegions unwinding (current_task s) s = Inr s' \<and> tasks s' (current_task s) = Some k' \<and>
        stack_of k' = [] \<and> exits s' = exits s @ filter (\<lambda>r. r \<noteq> SCOREP_FILTERED_REGION) (stack_of k)"
      unfolding run by (simp add: stack_ok_def del: exit_all.simps)
    then show ?thesis using False by (simp only: if_False) blast
  qed
qed

definition sample_task :: task where
  "sample_task = \<lparr>current_frame = [[5, - 1, 7] @ replicate 27 0], current_index = 2, thread_id = 0, generation_number = 0, parent_hash_value = 0\<rparr>"

definition sample_tasks :: location_tasks where
  "sample_tasks = \<lparr>current_task = 1, recycled_tasks = [], implicit_task = 1, recycled_frames = [], tasks = [1 \<mapsto> sample_task],
     misc_tasks = [], misc_frames = [], exits = [], calling_contexts = [9]\<rparr>"

lemma sample_tasks_ok: "stack_ok 1 sample_tasks sample_task"
  by (simp add: stack_ok_def task_ok_def full_frame_def sample_tasks_def sample_task_def)

lemma sample_stack: "stack_of sample_task = [7, - 1, 5]"
  by code_simp

lemma sample_exits: "filter (\<lambda>r. r \<noteq> SCOREP_FILTERED_REGION) [7, - 1, 5] = [7, 5]"
  by code_simp

lemma sample_task_ok: "task_ok sample_task"
  using sample_tasks_ok by (simp add: stack_ok_def)

lemma all_regions_left_witness:
  "(\<exists>s' k'. SCOREP_Task_ExitAllRegions False (current_task sample_tasks) sample_tasks = Inr s' \<and>
     tasks s' (current_task sample_tasks) = Some k' \<and> stack_of k' = [] \<and> exits s' = [7, 5]) \<and>
   SCOREP_Task_ExitAllRegions True (current_task sample_tasks) sample_tasks = Inl Abort"
proof -
  have "\<exists>r\<in>set [7, - 1, 5]. r \<noteq> SCOREP_FILTERED_REGION" by (simp add: SCOREP_FILTERED_REGION_def)
  moreover have "exits sample_tasks = []" by (simp add: sample_tasks_def)
  ultimately show ?thesis
    using all_regions_left [OF sample_tasks_ok, of False] all_regions_left [OF sample_tasks_ok, of True]
    unfolding sample_stack sample_exits by (simp only: simp_thms if_True if_False append_Nil)
qed

text \<open>A filtered region on the stack, which is no region of the definitions, makes the hash value of the stack read memory that
is not a definition.\<close>

theorem filtered_region_breaks_hash:
  assumes "task_ok k" and "SCOREP_FILTERED_REGION \<in> set (stack_of k)" and "hv SCOREP_FILTERED_REGION = None"
  shows "SCOREP_Task_GetRegionStackHash hv k = Inl Bad_Access"
  using stack_hash [OF assms(1), of hv] aggregate_unknown [of "rev (stack_of k)" hv] assms(2,3)
  by (auto simp: hash_of_regions_def)

lemma filtered_region_breaks_hash_witness:
  "SCOREP_Task_GetRegionStackHash (\<lambda>r. if r = SCOREP_FILTERED_REGION then None else Some r) sample_task = Inl Bad_Access"
  by (rule filtered_region_breaks_hash [OF sample_task_ok]) (simp_all add: sample_stack SCOREP_FILTERED_REGION_def)

end
