(* ===== verification/RewindStack.thy ===== *)
theory RewindStack
  imports Prelude
begin

section \<open>Rewind regions of a location\<close>

text \<open>
  \<^verbatim>\<open>src/measurement/tracing/scorep_rewind_stack_management.c\<close> and its callers in \<^verbatim>\<open>SCOREP_Tracing_Events.c\<close> and
  \<^verbatim>\<open>SCOREP_Tracing.c\<close>: a user can mark a region such that the events it has written to the trace buffer are dropped when it
  is left. The regions that are entered are in a linked list with the time they were entered at and with the kinds of
  events they have seen; items that are no longer used are kept in a second list.

  The items are records in a store, a pointer is an address, 0 being the null pointer. The addresses that the
  allocator of the location would hand out next are a list of the state; when it is empty the memory is exhausted, which
  ends the program. The event writer is a library; the model records the calls it gets, and the answers whether a written
  event makes it flush its buffer first, which calls back into \<^verbatim>\<open>scorep_on_trace_pre_flush\<close>, are given in the state.
  The loops get a number of turns; that enough of them suffice is part of the theorems.
\<close>

subsection \<open>Data\<close>

type_synonym rewind_paradigm = nat

definition SCOREP_REWIND_PARADIGM_MPI :: rewind_paradigm where "SCOREP_REWIND_PARADIGM_MPI = 0"

definition SCOREP_REWIND_PARADIGM_THREAD_FORK_JOIN :: rewind_paradigm where "SCOREP_REWIND_PARADIGM_THREAD_FORK_JOIN = 1"

definition SCOREP_REWIND_PARADIGM_THREAD_CREATE_WAIT :: rewind_paradigm where
  "SCOREP_REWIND_PARADIGM_THREAD_CREATE_WAIT = 2"

definition SCOREP_REWIND_PARADIGM_THREAD_LOCKING :: rewind_paradigm where "SCOREP_REWIND_PARADIGM_THREAD_LOCKING = 3"

definition SCOREP_REWIND_PARADIGM_MAX :: rewind_paradigm where "SCOREP_REWIND_PARADIGM_MAX = 4"

record rewind_item =
  rewind_id :: u32
  entertimestamp :: u64
  prev :: nat
  paradigm_affected :: "bool list"

datatype measurement_mode = Measurement_Off | Measurement_On

datatype writer_call =
    Store_Rewind_Point u32
  | Clear_Rewind_Point u32
  | Rewind_To u32
  | Measurement_On_Off u64 measurement_mode
  | Mpi_Send u64 u32 u32 u32 u64
  | Mpi_Recv u64 u32 u32 u32 u64
  | Mpi_Collective_Begin u64
  | Thread_Fork u64 nat u32
  | Thread_Acquire_Lock u64 nat u32 u32
  | Thread_Release_Lock u64 nat u32 u32

datatype trace_property =
    MPI_COMMUNICATION_COMPLETE
  | THREAD_FORK_JOIN_EVENT_COMPLETE
  | THREAD_CREATE_WAIT_EVENT_COMPLETE
  | THREAD_LOCK_EVENT_COMPLETE

record tracing_data =
  rewind_stack :: nat
  rewind_free_list :: nat
  rewind_items :: "nat \<rightharpoonup> rewind_item"
  misc_addresses :: "nat list"
  writer_calls :: "writer_call list"
  flush_answers :: "bool list"
  invalidated :: "trace_property list"

definition get_item :: "nat \<Rightarrow> tracing_data \<Rightarrow> rewind_item outcome" where
  "get_item a s = (case rewind_items s a of None \<Rightarrow> Inl Bad_Access | Some i \<Rightarrow> Inr i)"

definition change_item :: "nat \<Rightarrow> (rewind_item \<Rightarrow> rewind_item) \<Rightarrow> tracing_data \<Rightarrow> tracing_data outcome" where
  "change_item a f s = and_then (get_item a s) (\<lambda>i. Inr (s\<lparr>rewind_items := (rewind_items s)(a \<mapsto> f i)\<rparr>))"

subsection \<open>The stack\<close>

text \<open>The loops that walk along the stack as long as the id of the item is another one; the second keeps the item before.\<close>

fun find_rewind_item :: "nat \<Rightarrow> u32 \<Rightarrow> nat \<Rightarrow> tracing_data \<Rightarrow> nat outcome" where
  "find_rewind_item 0 rid a s = Inl Endless"
| "find_rewind_item (Suc n) rid a s =
     (if a = 0 then Inr 0
      else and_then (get_item a s) (\<lambda>i. if rewind_id i \<noteq> rid then find_rewind_item n rid (prev i) s else Inr a))"

fun find_with_last :: "nat \<Rightarrow> u32 \<Rightarrow> nat \<Rightarrow> nat \<Rightarrow> tracing_data \<Rightarrow> (nat \<times> nat) outcome" where
  "find_with_last 0 rid last_item a s = Inl Endless"
| "find_with_last (Suc n) rid last_item a s =
     (if a = 0 then Inr (last_item, 0)
      else and_then (get_item a s) (\<lambda>i.
             if rewind_id i \<noteq> rid then find_with_last n rid a (prev i) s else Inr (last_item, a)))"

definition scorep_rewind_stack_find :: "nat \<Rightarrow> u32 \<Rightarrow> tracing_data \<Rightarrow> bool outcome" where
  "scorep_rewind_stack_find n rid s =
     and_then (find_rewind_item n rid (rewind_stack s) s) (\<lambda>a.
       if a = 0 then Inr False else and_then (get_item a s) (\<lambda>i. Inr (rewind_id i = rid)))"

text \<open>An item of the free list, or a new one from the memory of the location.\<close>

definition take_item :: "tracing_data \<Rightarrow> (nat \<times> tracing_data) outcome" where
  "take_item s =
     (if rewind_free_list s \<noteq> 0
      then and_then (get_item (rewind_free_list s) s) (\<lambda>i.
             Inr (rewind_free_list s, s\<lparr>rewind_free_list := prev i\<rparr>))
      else (case misc_addresses s of [] \<Rightarrow> Inl Out_Of_Memory | a # as \<Rightarrow> Inr (a, s\<lparr>misc_addresses := as\<rparr>)))"

definition scorep_rewind_stack_push :: "nat \<Rightarrow> u32 \<Rightarrow> u64 \<Rightarrow> tracing_data \<Rightarrow> tracing_data outcome" where
  "scorep_rewind_stack_push n rid timestamp s =
     (let stack_head = rewind_stack s
      in and_then (scorep_rewind_stack_find n rid s) (\<lambda>found.
        if found
        then and_then (find_with_last n rid stack_head stack_head s) (\<lambda>(last_item, a).
             and_then
               (if last_item \<noteq> stack_head
                then and_then (get_item a s) (\<lambda>i.
                     and_then (change_item last_item (\<lambda>l. l\<lparr>prev := prev i\<rparr>) s) (\<lambda>s.
                     and_then (change_item a (\<lambda>i. i\<lparr>prev := stack_head\<rparr>) s) (\<lambda>s. Inr (a, s))))
                else Inr (stack_head, s)) (\<lambda>(head, s).
             and_then (change_item head (\<lambda>i. i\<lparr>entertimestamp := timestamp\<rparr>) s) (\<lambda>s.
               Inr (s\<lparr>rewind_stack := head\<rparr>))))
        else and_then (take_item s) (\<lambda>(a, s).
               Inr (s\<lparr>rewind_items := (rewind_items s)(a \<mapsto>
                        \<lparr>rewind_id = rid, entertimestamp = timestamp, prev = stack_head,
                         paradigm_affected = replicate SCOREP_REWIND_PARADIGM_MAX False\<rparr>),
                      rewind_stack := a\<rparr>))))"

text \<open>The three results are written to where the caller wants them, and stay as they are if the stack is empty.\<close>

definition scorep_rewind_stack_pop ::
  "u32 \<times> u64 \<times> bool list \<Rightarrow> tracing_data \<Rightarrow> ((u32 \<times> u64 \<times> bool list) \<times> tracing_data) outcome" where
  "scorep_rewind_stack_pop results s =
     (let a = rewind_stack s
      in if a = 0 then Inr (results, s)
         else and_then (get_item a s) (\<lambda>i.
                and_then (change_item a (\<lambda>i. i\<lparr>prev := rewind_free_list s\<rparr>) s) (\<lambda>s.
                  Inr ((rewind_id i, entertimestamp i, paradigm_affected i),
                       s\<lparr>rewind_free_list := a, rewind_stack := prev i\<rparr>))))"

fun delete_items :: "nat \<Rightarrow> nat \<Rightarrow> tracing_data \<Rightarrow> tracing_data outcome" where
  "delete_items 0 a s = Inl Endless"
| "delete_items (Suc n) a s =
     (if a = 0 then Inr s
      else and_then (get_item a s) (\<lambda>i.
             and_then (change_item a (\<lambda>i. i\<lparr>prev := rewind_free_list s\<rparr>) s) (\<lambda>s.
               delete_items n (prev i) (s\<lparr>rewind_free_list := a\<rparr>))))"

definition scorep_rewind_stack_delete :: "nat \<Rightarrow> tracing_data \<Rightarrow> tracing_data outcome" where
  "scorep_rewind_stack_delete n s =
     and_then (delete_items n (rewind_stack s) s) (\<lambda>s. Inr (s\<lparr>rewind_stack := 0\<rparr>))"

fun mark_items :: "nat \<Rightarrow> rewind_paradigm \<Rightarrow> nat \<Rightarrow> tracing_data \<Rightarrow> tracing_data outcome" where
  "mark_items 0 p a s = Inl Endless"
| "mark_items (Suc n) p a s =
     (if a = 0 then Inr s
      else and_then (change_item a (\<lambda>i. i\<lparr>paradigm_affected := (paradigm_affected i)[p := True]\<rparr>) s) (\<lambda>s.
             and_then (get_item a s) (\<lambda>i. mark_items n p (prev i) s)))"

definition scorep_rewind_set_affected_paradigm :: "nat \<Rightarrow> rewind_paradigm \<Rightarrow> tracing_data \<Rightarrow> tracing_data outcome" where
  "scorep_rewind_set_affected_paradigm n p s =
     assert_that (p < SCOREP_REWIND_PARADIGM_MAX) (mark_items n p (rewind_stack s) s)"

subsection \<open>Events\<close>

text \<open>
  A call of the writer. An event that no longer fits into its buffer makes it flush the buffer, for which it first calls
  \<^verbatim>\<open>scorep_on_trace_pre_flush\<close>; what is on the stack can then no longer be rewound and is dropped.
\<close>

definition call_writer :: "writer_call \<Rightarrow> tracing_data \<Rightarrow> tracing_data" where
  "call_writer c s = s\<lparr>writer_calls := writer_calls s @ [c]\<rparr>"

definition scorep_on_trace_pre_flush :: "nat \<Rightarrow> tracing_data \<Rightarrow> tracing_data outcome" where
  "scorep_on_trace_pre_flush n s = scorep_rewind_stack_delete n s"

definition write_event :: "nat \<Rightarrow> writer_call \<Rightarrow> tracing_data \<Rightarrow> tracing_data outcome" where
  "write_event n c s =
     (case flush_answers s of
        True # as \<Rightarrow> and_then (scorep_on_trace_pre_flush n (s\<lparr>flush_answers := as\<rparr>)) (\<lambda>s. Inr (call_writer c s))
      | _ \<Rightarrow> Inr (call_writer c (s\<lparr>flush_answers := tl (flush_answers s)\<rparr>)))"

definition enable_recording :: "nat \<Rightarrow> u64 \<Rightarrow> tracing_data \<Rightarrow> tracing_data outcome" where
  "enable_recording n timestamp s = write_event n (Measurement_On_Off timestamp Measurement_On) s"

definition disable_recording :: "nat \<Rightarrow> u64 \<Rightarrow> tracing_data \<Rightarrow> tracing_data outcome" where
  "disable_recording n timestamp s = write_event n (Measurement_On_Off timestamp Measurement_Off) s"

definition store_rewind_point :: "nat \<Rightarrow> u64 \<Rightarrow> u32 \<Rightarrow> tracing_data \<Rightarrow> tracing_data outcome" where
  "store_rewind_point n timestamp region_id s =
     scorep_rewind_stack_push n region_id timestamp (call_writer (Store_Rewind_Point region_id) s)"

definition clear_rewind_point :: "u32 \<Rightarrow> tracing_data \<Rightarrow> tracing_data" where
  "clear_rewind_point region_id s = call_writer (Clear_Rewind_Point region_id) s"

definition rewind_trace_buffer :: "u32 \<Rightarrow> tracing_data \<Rightarrow> tracing_data" where
  "rewind_trace_buffer region_id s = call_writer (Rewind_To region_id) s"

text \<open>
  Events that are lost for the analysis if they are dropped. Handles are given by their ids and the paradigm of threads by
  its value in the trace and its class.
\<close>

definition mpi_send :: "nat \<Rightarrow> u64 \<Rightarrow> u32 \<Rightarrow> u32 \<Rightarrow> u32 \<Rightarrow> u64 \<Rightarrow> tracing_data \<Rightarrow> tracing_data outcome" where
  "mpi_send n timestamp destination_rank communicator tag bytes_sent s =
     and_then (write_event n (Mpi_Send timestamp destination_rank communicator tag bytes_sent) s) (\<lambda>s.
       scorep_rewind_set_affected_paradigm n SCOREP_REWIND_PARADIGM_MPI s)"

definition mpi_recv :: "nat \<Rightarrow> u64 \<Rightarrow> u32 \<Rightarrow> u32 \<Rightarrow> u32 \<Rightarrow> u64 \<Rightarrow> tracing_data \<Rightarrow> tracing_data outcome" where
  "mpi_recv n timestamp source_rank communicator tag bytes_sent s =
     and_then (write_event n (Mpi_Recv timestamp source_rank communicator tag bytes_sent) s) (\<lambda>s.
       scorep_rewind_set_affected_paradigm n SCOREP_REWIND_PARADIGM_MPI s)"

definition mpi_collective_begin :: "nat \<Rightarrow> u64 \<Rightarrow> tracing_data \<Rightarrow> tracing_data outcome" where
  "mpi_collective_begin n timestamp s =
     and_then (write_event n (Mpi_Collective_Begin timestamp) s) (\<lambda>s.
       scorep_rewind_set_affected_paradigm n SCOREP_REWIND_PARADIGM_MPI s)"

datatype thread_class = Thread_Fork_Join | Thread_Create_Wait | Other_Class

definition set_rewind_affected_thread_paradigm :: "nat \<Rightarrow> thread_class \<Rightarrow> tracing_data \<Rightarrow> tracing_data outcome" where
  "set_rewind_affected_thread_paradigm n c s =
     (case c of
        Thread_Fork_Join \<Rightarrow> scorep_rewind_set_affected_paradigm n SCOREP_REWIND_PARADIGM_THREAD_FORK_JOIN s
      | Thread_Create_Wait \<Rightarrow> scorep_rewind_set_affected_paradigm n SCOREP_REWIND_PARADIGM_THREAD_CREATE_WAIT s
      | Other_Class \<Rightarrow> Inl Abort)"

definition thread_fork_event :: "nat \<Rightarrow> u64 \<Rightarrow> nat \<times> thread_class \<Rightarrow> u32 \<Rightarrow> u32 \<Rightarrow> tracing_data \<Rightarrow> tracing_data outcome" where
  "thread_fork_event n timestamp paradigm requested sequence_count s =
     and_then (write_event n (Thread_Fork timestamp (fst paradigm) requested) s) (\<lambda>s.
       set_rewind_affected_thread_paradigm n (snd paradigm) s)"

definition thread_acquire_lock :: "nat \<Rightarrow> u64 \<Rightarrow> nat \<Rightarrow> u32 \<Rightarrow> u32 \<Rightarrow> tracing_data \<Rightarrow> tracing_data outcome" where
  "thread_acquire_lock n timestamp paradigm lock acquisition_order s =
     and_then (write_event n (Thread_Acquire_Lock timestamp paradigm lock acquisition_order) s) (\<lambda>s.
       scorep_rewind_set_affected_paradigm n SCOREP_REWIND_PARADIGM_THREAD_LOCKING s)"

definition thread_release_lock :: "nat \<Rightarrow> u64 \<Rightarrow> nat \<Rightarrow> u32 \<Rightarrow> u32 \<Rightarrow> tracing_data \<Rightarrow> tracing_data outcome" where
  "thread_release_lock n timestamp paradigm lock acquisition_order s =
     and_then (write_event n (Thread_Release_Lock timestamp paradigm lock acquisition_order) s) (\<lambda>s.
       scorep_rewind_set_affected_paradigm n SCOREP_REWIND_PARADIGM_THREAD_LOCKING s)"

text \<open>The loop that takes items off the stack until the one with the id is found.\<close>

fun pop_until :: "nat \<Rightarrow> u32 \<Rightarrow> u32 \<times> u64 \<times> bool list \<Rightarrow> tracing_data \<Rightarrow> ((u64 \<times> bool list) \<times> tracing_data) outcome" where
  "pop_until 0 rid results s = Inl Endless"
| "pop_until (Suc n) rid results s =
     and_then (scorep_rewind_stack_pop results s) (\<lambda>((id_pop, timestamp, affected), s).
       if rid \<noteq> id_pop then pop_until n rid (id_pop, timestamp, affected) (clear_rewind_point id_pop s)
       else Inr ((timestamp, affected), s))"

definition invalidate_if :: "bool list \<Rightarrow> rewind_paradigm \<Rightarrow> trace_property \<Rightarrow> tracing_data \<Rightarrow> tracing_data" where
  "invalidate_if affected p property s =
     (if affected ! p then s\<lparr>invalidated := invalidated s @ [property]\<rparr> else s)"

definition exit_rewind_point :: "nat \<Rightarrow> u64 \<Rightarrow> u32 \<Rightarrow> bool \<Rightarrow> bool list \<Rightarrow> tracing_data \<Rightarrow> tracing_data outcome" where
  "exit_rewind_point n leavetimestamp rid do_rewind garbage s =
     and_then (scorep_rewind_stack_find n rid s) (\<lambda>found.
       if \<not> found then Inr s
       else and_then (pop_until n rid (0, 0, garbage) s) (\<lambda>((timestamp, affected), s).
              and_then
                (if do_rewind
                 then and_then (disable_recording n timestamp (rewind_trace_buffer rid s)) (\<lambda>s.
                      and_then (enable_recording n timestamp s) (\<lambda>s.
                        Inr (invalidate_if affected SCOREP_REWIND_PARADIGM_THREAD_LOCKING THREAD_LOCK_EVENT_COMPLETE
                            (invalidate_if affected SCOREP_REWIND_PARADIGM_THREAD_CREATE_WAIT THREAD_CREATE_WAIT_EVENT_COMPLETE
                            (invalidate_if affected SCOREP_REWIND_PARADIGM_THREAD_FORK_JOIN THREAD_FORK_JOIN_EVENT_COMPLETE
                            (invalidate_if affected SCOREP_REWIND_PARADIGM_MPI MPI_COMMUNICATION_COMPLETE s))))))
                 else Inr s) (\<lambda>s.
              Inr (clear_rewind_point rid s))))"

text \<open>A new location, with the addresses of its memory and the answers of the writer.\<close>

definition SCOREP_Tracing_CreateLocationData :: "nat list \<Rightarrow> bool list \<Rightarrow> tracing_data" where
  "SCOREP_Tracing_CreateLocationData addresses flushes =
     \<lparr>rewind_stack = 0, rewind_free_list = 0, rewind_items = Map.empty, misc_addresses = addresses, writer_calls = [],
      flush_answers = flushes, invalidated = []\<rparr>"

end
