(* ===== verification/RewindProperties.thy ===== *)
theory RewindProperties
  imports RewindStack
begin

section \<open>Rewind regions: properties\<close>

text \<open>
  The linked items of a location as a list, and what the operations on the stack and the events do to it.
\<close>

subsection \<open>Linked items\<close>

fun linked_items :: "(nat \<rightharpoonup> rewind_item) \<Rightarrow> nat \<Rightarrow> nat list \<Rightarrow> nat \<Rightarrow> bool" where
  "linked_items H p [] q \<longleftrightarrow> p = q"
| "linked_items H p (a # as) q \<longleftrightarrow> p = a \<and> a \<noteq> 0 \<and> (\<exists>i. H a = Some i \<and> linked_items H (prev i) as q)"

lemma items_append: "linked_items H p (as @ bs) q \<longleftrightarrow> (\<exists>r. linked_items H p as r \<and> linked_items H r bs q)"
  by (induction as arbitrary: p) auto

lemma items_update [simp]: "a \<notin> set as \<Longrightarrow> linked_items (H(a \<mapsto> i)) p as q = linked_items H p as q"
  by (induction as arbitrary: p) auto

lemmas items_if_update [simp] = items_update [unfolded fun_upd_def]

lemma items_same_prev: "H a = Some i \<Longrightarrow> prev j = prev i \<Longrightarrow> linked_items (H(a \<mapsto> j)) p as q = linked_items H p as q"
  by (induction as arbitrary: p) auto

lemma items_dom: "linked_items H p as q \<Longrightarrow> set as \<subseteq> dom H \<and> 0 \<notin> set as"
  by (induction as arbitrary: p) auto

lemma items_end: "linked_items H 0 as 0 \<longleftrightarrow> as = []"
  by (cases as) auto

type_synonym rewind_entry = "u32 \<times> u64 \<times> bool list"

definition entry_of :: "rewind_item \<Rightarrow> rewind_entry" where
  "entry_of i = (rewind_id i, entertimestamp i, paradigm_affected i)"

definition item_entries :: "(nat \<rightharpoonup> rewind_item) \<Rightarrow> nat list \<Rightarrow> rewind_entry list" where
  "item_entries H as = map (\<lambda>a. entry_of (the (H a))) as"

lemma item_entries_simps [simp]:
  "item_entries H [] = []"
  "item_entries H (a # as) = entry_of (the (H a)) # item_entries H as"
  "item_entries H (as @ bs) = item_entries H as @ item_entries H bs"
  "length (item_entries H as) = length as"
  by (simp_all add: item_entries_def)

lemma item_entries_update [simp]: "a \<notin> set as \<Longrightarrow> item_entries (H(a \<mapsto> i)) as = item_entries H as"
  by (auto simp: item_entries_def)

definition laid_out :: "tracing_data \<Rightarrow> nat list \<Rightarrow> nat list \<Rightarrow> bool" where
  "laid_out s as fs \<longleftrightarrow>
     linked_items (rewind_items s) (rewind_stack s) as 0 \<and> linked_items (rewind_items s) (rewind_free_list s) fs 0 \<and>
     distinct (as @ fs @ misc_addresses s) \<and> 0 \<notin> set (misc_addresses s)"

text \<open>
  What a list of item_entries, the number of items that are kept for reuse and the number of items that still fit into
  the memory say about a state. The ids are unique.
\<close>

definition rewind_view :: "tracing_data \<Rightarrow> rewind_entry list \<Rightarrow> nat \<Rightarrow> nat \<Rightarrow> bool" where
  "rewind_view s xs spare room \<longleftrightarrow>
     (\<exists>as fs. laid_out s as fs \<and> xs = item_entries (rewind_items s) as \<and> spare = length fs) \<and>
     room = length (misc_addresses s) \<and> distinct (map fst xs) \<and>
     (\<forall>x\<in>set xs. length (snd (snd x)) = SCOREP_REWIND_PARADIGM_MAX)"

lemma get_item_Some [simp]: "rewind_items s a = Some i \<Longrightarrow> get_item a s = Inr i"
  by (simp add: get_item_def)

lemma change_item_Some [simp]:
  "rewind_items s a = Some i \<Longrightarrow> change_item a f s = Inr (s\<lparr>rewind_items := (rewind_items s)(a \<mapsto> f i)\<rparr>)"
  by (simp add: change_item_def)

subsection \<open>Search\<close>

lemma find_rewind_item_run:
  "linked_items (rewind_items s) a as 0 \<Longrightarrow> length as < n \<Longrightarrow>
   find_rewind_item n rid a s =
     Inr (case dropWhile (\<lambda>a. rewind_id (the (rewind_items s a)) \<noteq> rid) as of [] \<Rightarrow> 0 | b # _ \<Rightarrow> b)"
proof (induction n arbitrary: a as)
  case (Suc n)
  then show ?case by (cases as) auto
qed simp

lemma find_with_last_run:
  "linked_items (rewind_items s) a (pre @ b # post) 0 \<Longrightarrow> length pre < n \<Longrightarrow>
   \<forall>c\<in>set pre. rewind_id (the (rewind_items s c)) \<noteq> rid \<Longrightarrow> rewind_id (the (rewind_items s b)) = rid \<Longrightarrow>
   find_with_last n rid l a s = Inr (last (l # pre), b)"
proof (induction pre arbitrary: a n l)
  case Nil
  then show ?case by (cases n) auto
next
  case (Cons c pre)
  then show ?case by (cases n) auto
qed

lemma ids_of_item_entries: "map fst (item_entries H as) = map (\<lambda>a. rewind_id (the (H a))) as"
  by (simp add: item_entries_def entry_of_def)

lemma find_run:
  assumes "linked_items (rewind_items s) (rewind_stack s) as 0" "length as < n"
  shows "scorep_rewind_stack_find n rid s = Inr (rid \<in> fst ` set (item_entries (rewind_items s) as))"
proof -
  let ?d = "dropWhile (\<lambda>a. rewind_id (the (rewind_items s a)) \<noteq> rid) as"
  have ids: "rid \<in> fst ` set (item_entries (rewind_items s) as) \<longleftrightarrow> (\<exists>a\<in>set as. rewind_id (the (rewind_items s a)) = rid)"
    by (auto simp: item_entries_def entry_of_def image_iff)
  show ?thesis
  proof (cases ?d)
    case Nil
    then have "\<forall>a\<in>set as. rewind_id (the (rewind_items s a)) \<noteq> rid" by (simp add: dropWhile_eq_Nil_conv)
    then show ?thesis using ids by (simp add: scorep_rewind_stack_find_def find_rewind_item_run[OF assms] Nil)
  next
    case (Cons b bs)
    then have "b \<in> set ?d" "?d \<noteq> []" "hd ?d = b" by simp_all
    then have b: "b \<in> set as" "rewind_id (the (rewind_items s b)) = rid"
      using set_dropWhileD[of b] hd_dropWhile[of "\<lambda>a. rewind_id (the (rewind_items s a)) \<noteq> rid" as] by blast+
    obtain i where i: "rewind_items s b = Some i" using items_dom[OF assms(1)] b(1) by blast
    have "b \<noteq> 0" using items_dom[OF assms(1)] b(1) by metis
    then have "scorep_rewind_stack_find n rid s = Inr True"
      using i b(2) by (simp add: scorep_rewind_stack_find_def find_rewind_item_run[OF assms] Cons)
    moreover have "rid \<in> fst ` set (item_entries (rewind_items s) as)" using ids b by blast
    ultimately show ?thesis by simp
  qed
qed


subsection \<open>The stack as a list\<close>

text \<open>
  What push does: an entry with a new id is put in front; the id in front, and the one behind it, make it renew the time
  of the entry in front; an entry further down is moved to the front with the new time.
\<close>

definition entry_with :: "u32 \<Rightarrow> rewind_entry list \<Rightarrow> rewind_entry" where
  "entry_with rid xs = the (find (\<lambda>x. fst x = rid) xs)"

definition listed_push :: "u32 \<Rightarrow> u64 \<Rightarrow> rewind_entry list \<Rightarrow> rewind_entry list" where
  "listed_push rid timestamp xs =
     (if rid \<notin> fst ` set xs then (rid, timestamp, replicate SCOREP_REWIND_PARADIGM_MAX False) # xs
      else if rid \<in> fst ` set (take 2 xs) then (fst (hd xs), timestamp, snd (snd (hd xs))) # tl xs
      else (rid, timestamp, snd (snd (entry_with rid xs))) # filter (\<lambda>x. fst x \<noteq> rid) xs)"

text \<open>What the stack operations leave alone.\<close>

definition same_calls :: "tracing_data \<Rightarrow> tracing_data \<Rightarrow> bool" where
  "same_calls s s' \<longleftrightarrow>
     writer_calls s' = writer_calls s \<and> flush_answers s' = flush_answers s \<and> invalidated s' = invalidated s"

lemma take_item_run:
  assumes "laid_out s as fs" "fs \<noteq> [] \<or> misc_addresses s \<noteq> []"
  shows "\<exists>a s'. take_item s = Inr (a, s') \<and> laid_out s' as (tl fs) \<and> a \<notin> set (as @ tl fs @ misc_addresses s') \<and> a \<noteq> 0 \<and>
           rewind_items s' = rewind_items s \<and> rewind_stack s' = rewind_stack s \<and>
           length (misc_addresses s') = (if fs = [] then length (misc_addresses s) - 1 else length (misc_addresses s)) \<and>
           same_calls s s'"
proof (cases fs)
  case Nil
  then obtain a ms where "misc_addresses s = a # ms" using assms by (cases "misc_addresses s") auto
  then show ?thesis using assms Nil by (auto simp: take_item_def laid_out_def same_calls_def)
next
  case (Cons f gs)
  then show ?thesis using assms by (auto simp: take_item_def laid_out_def same_calls_def)
qed

lemma laid_out_push:
  assumes "laid_out s as fs" "a \<notin> set (as @ fs @ misc_addresses s)" "a \<noteq> 0" "prev i = rewind_stack s"
  shows "laid_out (s\<lparr>rewind_items := (rewind_items s)(a \<mapsto> i), rewind_stack := a\<rparr>) (a # as) fs"
  using assms by (auto simp: laid_out_def)

lemma push_new:
  assumes "rewind_view s xs spare room" "rid \<notin> fst ` set xs" "length xs < n" "spare > 0 \<or> room > 0"
  shows "\<exists>s'. scorep_rewind_stack_push n rid timestamp s = Inr s' \<and>
           rewind_view s' (listed_push rid timestamp xs) (spare - 1) (if spare = 0 then room - 1 else room) \<and> same_calls s s'"
proof -
  obtain as fs where l: "laid_out s as fs" "xs = item_entries (rewind_items s) as" "spare = length fs"
    "room = length (misc_addresses s)"
    using assms(1) by (auto simp: rewind_view_def)
  have found: "scorep_rewind_stack_find n rid s = Inr False"
    using l assms by (simp add: find_run[of s as n] laid_out_def)
  obtain a s1 where t: "take_item s = Inr (a, s1)" "laid_out s1 as (tl fs)" "a \<notin> set (as @ tl fs @ misc_addresses s1)" "a \<noteq> 0"
    "rewind_items s1 = rewind_items s" "rewind_stack s1 = rewind_stack s"
    "length (misc_addresses s1) = (if fs = [] then length (misc_addresses s) - 1 else length (misc_addresses s))" "same_calls s s1"
    using take_item_run[OF l(1)] l assms(4) by auto
  let ?i = "\<lparr>rewind_id = rid, entertimestamp = timestamp, prev = rewind_stack s,
              paradigm_affected = replicate SCOREP_REWIND_PARADIGM_MAX False\<rparr>"
  let ?s = "s1\<lparr>rewind_items := (rewind_items s1)(a \<mapsto> ?i), rewind_stack := a\<rparr>"
  have "scorep_rewind_stack_push n rid timestamp s = Inr ?s"
    by (simp add: scorep_rewind_stack_push_def found t(1))
  moreover have "laid_out ?s (a # as) (tl fs)" using laid_out_push[OF t(2-4), of ?i] t(6) by simp
  moreover have "item_entries (rewind_items ?s) (a # as) = listed_push rid timestamp xs"
    using t(3,5) l(2) assms(2) by (simp add: listed_push_def entry_of_def)
  moreover have "same_calls s ?s" using t(8) by (simp add: same_calls_def)
  moreover have "distinct (map fst (listed_push rid timestamp xs))"
    using assms(1,2) by (simp add: listed_push_def rewind_view_def)
  moreover have "\<forall>x\<in>set (listed_push rid timestamp xs). length (snd (snd x)) = SCOREP_REWIND_PARADIGM_MAX"
    using assms(1,2) by (auto simp: listed_push_def rewind_view_def)
  moreover have "length (tl fs) = spare - 1" "length (misc_addresses ?s) = (if spare = 0 then room - 1 else room)"
    using l(3,4) t(7) by simp_all
  ultimately show ?thesis unfolding rewind_view_def
    by (intro exI[of _ ?s] conjI exI[of _ "a # as"] exI[of _ "tl fs"]) simp_all
qed

lemma push_no_memory:
  assumes "rewind_view s xs 0 0" "rid \<notin> fst ` set xs" "length xs < n"
  shows "scorep_rewind_stack_push n rid timestamp s = Inl Out_Of_Memory"
proof -
  obtain as where l: "laid_out s as []" "xs = item_entries (rewind_items s) as" "misc_addresses s = []"
    using assms(1) by (auto simp: rewind_view_def)
  have "scorep_rewind_stack_find n rid s = Inr False"
    using l assms by (simp add: find_run[of s as n] laid_out_def)
  then show ?thesis using l by (simp add: scorep_rewind_stack_push_def take_item_def laid_out_def)
qed

lemma laid_out_same_prev:
  "laid_out s as fs \<Longrightarrow> rewind_items s a = Some i \<Longrightarrow> prev j = prev i \<Longrightarrow>
   laid_out (s\<lparr>rewind_items := (rewind_items s)(a \<mapsto> j)\<rparr>) as fs"
  by (simp add: laid_out_def items_same_prev)

lemma item_entries_split:
  assumes "rid \<in> fst ` set (item_entries H as)"
  shows "\<exists>pre b post. as = pre @ b # post \<and> rewind_id (the (H b)) = rid \<and> (\<forall>c\<in>set pre. rewind_id (the (H c)) \<noteq> rid)"
proof -
  have "\<exists>a\<in>set as. rewind_id (the (H a)) = rid" using assms by (auto simp: item_entries_def entry_of_def)
  then obtain pre b post where "as = pre @ b # post" "rewind_id (the (H b)) = rid" "\<forall>c\<in>set pre. \<not> rewind_id (the (H c)) = rid"
    using split_list_first_prop[of as "\<lambda>a. rewind_id (the (H a)) = rid"] by auto
  then show ?thesis by blast
qed

lemma find_entry: "x \<in> set xs \<Longrightarrow> distinct (map fst xs) \<Longrightarrow> find (\<lambda>y. fst y = fst x) xs = Some x"
  by (induction xs) (auto simp: image_iff)

lemma listed_push_ok:
  assumes "rewind_view s xs spare room"
  shows "distinct (map fst (listed_push rid timestamp xs)) \<and>
    (\<forall>x\<in>set (listed_push rid timestamp xs). length (snd (snd x)) = SCOREP_REWIND_PARADIGM_MAX)"
proof -
  have ids: "distinct (map fst xs)" and flags: "\<forall>x\<in>set xs. length (snd (snd x)) = SCOREP_REWIND_PARADIGM_MAX"
    using assms by (simp_all add: rewind_view_def)
  consider "rid \<notin> fst ` set xs" | "rid \<in> fst ` set xs" "rid \<in> fst ` set (take 2 xs)"
    | "rid \<in> fst ` set xs" "rid \<notin> fst ` set (take 2 xs)" by blast
  then show ?thesis
  proof cases
    case 1
    then show ?thesis using ids flags by (simp add: listed_push_def)
  next
    case 2
    then show ?thesis using ids flags by (cases xs) (simp_all add: listed_push_def)
  next
    case 3
    then obtain x where x: "x \<in> set xs" "fst x = rid" by auto
    then have "entry_with rid xs = x" using find_entry[OF x(1) ids] by (simp add: entry_with_def)
    then show ?thesis using 3 ids flags x by (auto simp: listed_push_def distinct_map_filter)
  qed
qed

lemma push_known:
  assumes "rewind_view s xs spare room" "rid \<in> fst ` set xs" "length xs < n"
  shows "\<exists>s'. scorep_rewind_stack_push n rid timestamp s = Inr s' \<and>
           rewind_view s' (listed_push rid timestamp xs) spare room \<and> same_calls s s'"
proof -
  obtain as fs where l: "laid_out s as fs" "xs = item_entries (rewind_items s) as" "spare = length fs"
    "room = length (misc_addresses s)"
    using assms(1) by (auto simp: rewind_view_def)
  have seg: "linked_items (rewind_items s) (rewind_stack s) as 0" and dist: "distinct as" using l(1) by (simp_all add: laid_out_def)
  have found: "scorep_rewind_stack_find n rid s = Inr True"
    using l assms by (simp add: find_run[OF seg, of n])
  obtain pre b post where as: "as = pre @ b # post" and b: "rewind_id (the (rewind_items s b)) = rid"
    and pre: "\<forall>c\<in>set pre. rewind_id (the (rewind_items s c)) \<noteq> rid"
    using item_entries_split[OF assms(2)[unfolded l(2)]] by blast
  have walk: "find_with_last n rid (rewind_stack s) (rewind_stack s) s = Inr (last (rewind_stack s # pre), b)"
    using find_with_last_run[OF seg[unfolded as] _ pre b, of n] assms(3) l(2) as by simp
  show ?thesis
  proof (cases "length pre \<le> 1")
    case True
    obtain t where ht: "as = rewind_stack s # t" using seg as by (cases pre) simp_all
    obtain i where i: "rewind_items s (rewind_stack s) = Some i" using seg ht by (cases as) auto
    have same: "last (rewind_stack s # pre) = rewind_stack s"
      using True ht as by (cases pre) auto
    let ?s = "s\<lparr>rewind_items := (rewind_items s)(rewind_stack s \<mapsto> i\<lparr>entertimestamp := timestamp\<rparr>)\<rparr>"
    have "scorep_rewind_stack_push n rid timestamp s = Inr ?s"
      using i by (simp add: scorep_rewind_stack_push_def found walk [unfolded same])
    moreover have "rid \<in> fst ` set (take 2 xs)"
      using True as b l(2) by (cases pre) (auto simp: entry_of_def)
    then have eq: "listed_push rid timestamp xs = item_entries (rewind_items ?s) as"
      using assms(2) i l(2) ht dist by (simp add: listed_push_def entry_of_def)
    moreover have "laid_out ?s as fs" using laid_out_same_prev[OF l(1) i] by simp
    moreover have "same_calls s ?s" by (simp add: same_calls_def)
    moreover have "distinct (map fst (item_entries (rewind_items ?s) as))" "\<forall>x\<in>set (item_entries (rewind_items ?s) as). length (snd (snd x)) = SCOREP_REWIND_PARADIGM_MAX"
      using assms(1) l(2) i ht dist by (auto simp: rewind_view_def entry_of_def)
    ultimately show ?thesis using l(3,4) unfolding rewind_view_def eq
      by (intro exI[of _ ?s] conjI exI[of _ as] exI[of _ fs]) simp_all
  next
    case False
    then obtain ps k where ps: "pre = ps @ [k]" "ps \<noteq> []" by (cases pre rule: rev_cases) auto
    let ?H = "rewind_items s"
    obtain r where r: "linked_items ?H (rewind_stack s) ps k" "k \<noteq> 0" "b \<noteq> 0"
      and ik: "\<exists>i. ?H k = Some i \<and> prev i = b" and ib: "\<exists>i. ?H b = Some i \<and> linked_items ?H (prev i) post 0"
      using seg unfolding as ps by (auto simp: items_append)
    obtain i j where ij: "?H k = Some i" "?H b = Some j" "linked_items ?H (prev j) post 0" using ik ib by blast
    have head: "rewind_stack s \<in> set ps" using r(1) ps(2) by (cases ps) auto
    have dist': "distinct (ps @ k # b # post)" using dist unfolding as ps by simp
    let ?j = "j\<lparr>prev := rewind_stack s, entertimestamp := timestamp\<rparr>"
    let ?s = "s\<lparr>rewind_items := ?H(k \<mapsto> i\<lparr>prev := prev j\<rparr>, b \<mapsto> ?j), rewind_stack := b\<rparr>"
    let ?as = "b # ps @ k # post"
    have "last (rewind_stack s # pre) = k" "k \<noteq> rewind_stack s" using ps head dist' by auto
    then have "scorep_rewind_stack_push n rid timestamp s = Inr ?s"
      using ij dist' by (simp add: scorep_rewind_stack_push_def found walk change_item_def get_item_def)
    moreover have "laid_out ?s ?as fs"
      using l(1) ij r dist' unfolding laid_out_def as ps by (auto simp: items_append)
    moreover have "listed_push rid timestamp xs = item_entries (rewind_items ?s) ?as"
    proof -
      let ?E = "item_entries ?H"
      have ids: "distinct (map fst xs)" using assms(1) by (simp add: rewind_view_def)
      have xs: "xs = ?E ps @ entry_of i # entry_of j # ?E post" using l(2) as ps ij by simp
      have rid: "rewind_id j = rid" using b ij by simp
      have "rid \<notin> fst ` set (take 2 xs)"
      proof -
        obtain p qs where "ps = p # qs" using ps(2) by (cases ps) auto
        then have "set (take 2 xs) \<subseteq> set (?E ps) \<union> {entry_of i}" unfolding xs by (cases qs) auto
        moreover have "rid \<notin> fst ` (set (?E ps) \<union> {entry_of i})" using ids rid unfolding xs by (auto simp: entry_of_def)
        ultimately show ?thesis by blast
      qed
      moreover have "entry_with rid xs = entry_of j"
        using find_entry[OF _ ids, of "entry_of j"] rid xs by (simp add: entry_with_def entry_of_def)
      moreover have "filter (\<lambda>x. fst x \<noteq> rid) xs = ?E ps @ entry_of i # ?E post"
      proof -
        have "rid \<notin> fst ` (set (?E ps) \<union> {entry_of i} \<union> set (?E post))" using ids rid unfolding xs by (auto simp: entry_of_def)
        then have "filter (\<lambda>x. fst x \<noteq> rid) (?E ps) = ?E ps" "filter (\<lambda>x. fst x \<noteq> rid) (?E post) = ?E post" "fst (entry_of i) \<noteq> rid"
          by (auto simp: filter_id_conv)
        then show ?thesis using rid unfolding xs by (simp add: entry_of_def)
      qed
      ultimately show ?thesis using assms(2) dist' ij rid by (simp add: listed_push_def entry_of_def)
    qed
    moreover have "same_calls s ?s" by (simp add: same_calls_def)
    ultimately show ?thesis using l(3,4) listed_push_ok[OF assms(1), of rid timestamp] unfolding rewind_view_def
      by (intro exI[of _ ?s] conjI exI[of _ ?as] exI[of _ fs]) simp_all
  qed
qed

lemma same_calls_refl [simp]: "same_calls s s"
  by (simp add: same_calls_def)

lemma pop_run:
  assumes "rewind_view s (x # xs) spare room"
  shows "\<exists>s'. scorep_rewind_stack_pop results s = Inr (x, s') \<and> rewind_view s' xs (Suc spare) room \<and> same_calls s s'"
proof -
  obtain as fs where l: "laid_out s as fs" "x # xs = item_entries (rewind_items s) as" "spare = length fs"
    "room = length (misc_addresses s)"
    using assms by (auto simp: rewind_view_def)
  then obtain a bs where as: "as = a # bs" by (cases as) auto
  then obtain i where i: "rewind_stack s = a" "a \<noteq> 0" "rewind_items s a = Some i" "linked_items (rewind_items s) (prev i) bs 0"
    using l(1) by (auto simp: laid_out_def)
  let ?s = "s\<lparr>rewind_items := (rewind_items s)(a \<mapsto> i\<lparr>prev := rewind_free_list s\<rparr>), rewind_free_list := a, rewind_stack := prev i\<rparr>"
  have "scorep_rewind_stack_pop results s = Inr (x, ?s)"
    using i l(2) as by (simp add: scorep_rewind_stack_pop_def entry_of_def)
  moreover have "laid_out ?s bs (a # fs)" using l(1) as i by (auto simp: laid_out_def)
  moreover have "xs = item_entries (rewind_items ?s) bs" using l(1,2) as by (simp add: laid_out_def)
  moreover have "same_calls s ?s" by (simp add: same_calls_def)
  ultimately show ?thesis using assms l(3,4) unfolding rewind_view_def
    by (intro exI[of _ ?s] conjI exI[of _ bs] exI[of _ "a # fs"]) simp_all
qed

lemma pop_no_item: "rewind_view s [] spare room \<Longrightarrow> scorep_rewind_stack_pop results s = Inr (results, s)"
  by (auto simp: rewind_view_def scorep_rewind_stack_pop_def laid_out_def item_entries_def)

lemma delete_items_run:
  assumes "linked_items (rewind_items s) p as 0" and "linked_items (rewind_items s) (rewind_free_list s) fs 0"
    and "distinct (as @ fs)" and "length as < n"
  shows "\<exists>s'. delete_items n p s = Inr s' \<and> linked_items (rewind_items s') (rewind_free_list s') (rev as @ fs) 0 \<and>
    misc_addresses s' = misc_addresses s \<and> same_calls s s'"
  using assms
proof (induction n arbitrary: p as fs s)
  case (Suc n)
  show ?case
  proof (cases as)
    case Nil
    then show ?thesis using Suc.prems by simp
  next
    case (Cons a bs)
    then obtain i where i: "p = a" "a \<noteq> 0" "rewind_items s a = Some i" "linked_items (rewind_items s) (prev i) bs 0"
      using Suc.prems(1) by auto
    let ?s = "s\<lparr>rewind_items := (rewind_items s)(a \<mapsto> i\<lparr>prev := rewind_free_list s\<rparr>), rewind_free_list := a\<rparr>"
    have "\<exists>s'. delete_items n (prev i) ?s = Inr s' \<and> linked_items (rewind_items s') (rewind_free_list s') (rev bs @ a # fs) 0 \<and>
        misc_addresses s' = misc_addresses ?s \<and> same_calls ?s s'"
      using Suc.prems i Cons by (intro Suc.IH) simp_all
    then show ?thesis using i Cons by (auto simp: same_calls_def)
  qed
qed simp

lemma delete_run:
  assumes "rewind_view s xs spare room" and "length xs < n"
  shows "\<exists>s'. scorep_rewind_stack_delete n s = Inr s' \<and> rewind_view s' [] (spare + length xs) room \<and> same_calls s s'"
proof -
  obtain as fs where l: "laid_out s as fs" "xs = item_entries (rewind_items s) as" "spare = length fs"
    "room = length (misc_addresses s)"
    using assms by (auto simp: rewind_view_def)
  then obtain s' where s': "delete_items n (rewind_stack s) s = Inr s'" "linked_items (rewind_items s') (rewind_free_list s') (rev as @ fs) 0"
    "misc_addresses s' = misc_addresses s" "same_calls s s'"
    using delete_items_run[of s "rewind_stack s" as fs n] assms(2) by (auto simp: laid_out_def)
  let ?s = "s'\<lparr>rewind_stack := 0\<rparr>"
  have "laid_out ?s [] (rev as @ fs)" using l(1) s' by (auto simp: laid_out_def)
  then have "rewind_view ?s [] (spare + length xs) room"
    using l s'(3) unfolding rewind_view_def by (intro conjI exI[of _ "[]"] exI[of _ "rev as @ fs"]) simp_all
  then show ?thesis using s' by (auto simp: scorep_rewind_stack_delete_def same_calls_def)
qed

definition marked :: "rewind_paradigm \<Rightarrow> nat set \<Rightarrow> (nat \<rightharpoonup> rewind_item) \<Rightarrow> (nat \<rightharpoonup> rewind_item)" where
  "marked p A H = (\<lambda>a. if a \<in> A then map_option (\<lambda>i. i\<lparr>paradigm_affected := (paradigm_affected i)[p := True]\<rparr>) (H a) else H a)"

definition mark_entry :: "rewind_paradigm \<Rightarrow> rewind_entry \<Rightarrow> rewind_entry" where
  "mark_entry p x = (fst x, fst (snd x), (snd (snd x))[p := True])"

lemma items_marked [simp]: "linked_items (marked p A H) q as r = linked_items H q as r"
  by (induction as arbitrary: q) (auto simp: marked_def)

lemma item_entries_marked: "linked_items H q as r \<Longrightarrow> item_entries (marked p (set as) H) as = map (mark_entry p) (item_entries H as)"
  using items_dom[of H q as r] by (auto simp: item_entries_def marked_def entry_of_def mark_entry_def)

lemma mark_items_run:
  assumes "linked_items (rewind_items s) q as 0" and "distinct as" and "length as < n"
  shows "mark_items n p q s = Inr (s\<lparr>rewind_items := marked p (set as) (rewind_items s)\<rparr>)"
  using assms
proof (induction n arbitrary: q as s)
  case (Suc n)
  show ?case
  proof (cases as)
    case Nil
    then show ?thesis using Suc.prems by (simp add: marked_def)
  next
    case (Cons a bs)
    then obtain i where i: "q = a" "a \<noteq> 0" "rewind_items s a = Some i" "linked_items (rewind_items s) (prev i) bs 0"
      using Suc.prems(1) by auto
    let ?s = "s\<lparr>rewind_items := (rewind_items s)(a \<mapsto> i\<lparr>paradigm_affected := (paradigm_affected i)[p := True]\<rparr>)\<rparr>"
    have "mark_items n p (prev i) ?s = Inr (?s\<lparr>rewind_items := marked p (set bs) (rewind_items ?s)\<rparr>)"
      using Suc.prems i Cons by (intro Suc.IH) simp_all
    moreover have "marked p (set bs) (rewind_items ?s) = marked p (set as) (rewind_items s)"
      using Suc.prems(2) Cons i by (auto simp: marked_def fun_eq_iff)
    ultimately show ?thesis using i by simp
  qed
qed simp

lemma mark_run:
  assumes "rewind_view s xs spare room" and "length xs < n" and "p < SCOREP_REWIND_PARADIGM_MAX"
  shows "\<exists>s'. scorep_rewind_set_affected_paradigm n p s = Inr s' \<and> rewind_view s' (map (mark_entry p) xs) spare room \<and>
    same_calls s s'"
proof -
  obtain as fs where l: "laid_out s as fs" "xs = item_entries (rewind_items s) as" "spare = length fs"
    "room = length (misc_addresses s)"
    using assms by (auto simp: rewind_view_def)
  let ?s = "s\<lparr>rewind_items := marked p (set as) (rewind_items s)\<rparr>"
  have "scorep_rewind_set_affected_paradigm n p s = Inr ?s"
    using l assms(2,3) mark_items_run[of s "rewind_stack s" as n p] by (simp add: scorep_rewind_set_affected_paradigm_def laid_out_def)
  moreover have "laid_out ?s as fs" using l(1) by (simp add: laid_out_def)
  moreover have "map (mark_entry p) xs = item_entries (rewind_items ?s) as"
    using l(1,2) item_entries_marked[of "rewind_items s" "rewind_stack s" as 0 p] by (simp add: laid_out_def)
  moreover have "map fst (map (mark_entry p) xs) = map fst xs" by (simp add: mark_entry_def)
  moreover have "\<forall>x\<in>set (map (mark_entry p) xs). length (snd (snd x)) = SCOREP_REWIND_PARADIGM_MAX"
    using assms(1) by (auto simp: rewind_view_def mark_entry_def)
  moreover have "same_calls s ?s" by (simp add: same_calls_def)
  ultimately show ?thesis using assms(1) l(3,4) unfolding rewind_view_def
    by (intro exI[of _ ?s] conjI exI[of _ as] exI[of _ fs]) simp_all
qed

subsection \<open>The events as operations on a book\<close>

text \<open>The regions that are entered, from the innermost one, the items to spare and the room for more, and the calls of the writer.\<close>

record rewind_book =
  regions :: "rewind_entry list"
  spare_items :: nat
  room_items :: nat
  calls :: "writer_call list"
  answers :: "bool list"
  invalid :: "trace_property list"

definition in_book :: "tracing_data \<Rightarrow> rewind_book \<Rightarrow> bool" where
  "in_book s b \<longleftrightarrow>
     rewind_view s (regions b) (spare_items b) (room_items b) \<and>
     calls b = writer_calls s \<and> answers b = flush_answers s \<and> invalid b = invalidated s"

definition listed_write :: "writer_call \<Rightarrow> rewind_book \<Rightarrow> rewind_book" where
  "listed_write c b =
     (if answers b \<noteq> [] \<and> hd (answers b)
      then b\<lparr>regions := [], spare_items := spare_items b + length (regions b), answers := tl (answers b), calls := calls b @ [c]\<rparr>
      else b\<lparr>answers := tl (answers b), calls := calls b @ [c]\<rparr>)"

definition listed_mark :: "rewind_paradigm \<Rightarrow> rewind_book \<Rightarrow> rewind_book" where
  "listed_mark p b = b\<lparr>regions := map (mark_entry p) (regions b)\<rparr>"

definition listed_enter :: "u64 \<Rightarrow> u32 \<Rightarrow> rewind_book \<Rightarrow> rewind_book option" where
  "listed_enter timestamp rid b =
     (let b' = b\<lparr>calls := calls b @ [Store_Rewind_Point rid], regions := listed_push rid timestamp (regions b)\<rparr>
      in if rid \<in> fst ` set (regions b) then Some b'
         else if spare_items b > 0 then Some (b'\<lparr>spare_items := spare_items b - 1\<rparr>)
         else if room_items b > 0 then Some (b'\<lparr>room_items := room_items b - 1\<rparr>)
         else None)"

definition lost_properties :: "bool list \<Rightarrow> trace_property list" where
  "lost_properties affected =
     map snd (filter (\<lambda>(p, property). affected ! p)
       [(0, MPI_COMMUNICATION_COMPLETE), (1, THREAD_FORK_JOIN_EVENT_COMPLETE), (2, THREAD_CREATE_WAIT_EVENT_COMPLETE),
        (3, THREAD_LOCK_EVENT_COMPLETE)])"

definition listed_exit :: "u32 \<Rightarrow> bool \<Rightarrow> rewind_book \<Rightarrow> rewind_book" where
  "listed_exit rid do_rewind b =
     (if rid \<notin> fst ` set (regions b) then b
      else
        let inner = takeWhile (\<lambda>x. fst x \<noteq> rid) (regions b);
            (timestamp, affected) = snd (entry_with rid (regions b));
            b = b\<lparr>regions := drop (Suc (length inner)) (regions b), spare_items := spare_items b + Suc (length inner),
                   calls := calls b @ map (\<lambda>x. Clear_Rewind_Point (fst x)) inner\<rparr>;
            b = (if do_rewind
                 then let b = listed_write (Measurement_On_Off timestamp Measurement_On)
                                (listed_write (Measurement_On_Off timestamp Measurement_Off)
                                  (b\<lparr>calls := calls b @ [Rewind_To rid]\<rparr>))
                      in b\<lparr>invalid := invalid b @ lost_properties affected\<rparr>
                 else b)
        in b\<lparr>calls := calls b @ [Clear_Rewind_Point rid]\<rparr>)"

lemma in_book_view: "in_book s b \<Longrightarrow> rewind_view s (regions b) (spare_items b) (room_items b)"
  by (simp add: in_book_def)

lemma view_call [simp]:
  "rewind_view (s\<lparr>writer_calls := cs\<rparr>) xs k m = rewind_view s xs k m"
  "rewind_view (s\<lparr>flush_answers := as\<rparr>) xs k m = rewind_view s xs k m"
  "rewind_view (s\<lparr>invalidated := ps\<rparr>) xs k m = rewind_view s xs k m"
  by (simp_all add: rewind_view_def laid_out_def)

lemma write_in_book:
  assumes "in_book s b" and "length (regions b) < n"
  shows "\<exists>s'. write_event n c s = Inr s' \<and> in_book s' (listed_write c b)"
proof (cases "answers b \<noteq> [] \<and> hd (answers b)")
  case True
  then obtain as where as: "flush_answers s = True # as" "answers b = True # as"
    using assms(1) by (cases "answers b") (auto simp: in_book_def)
  have "rewind_view (s\<lparr>flush_answers := as\<rparr>) (regions b) (spare_items b) (room_items b)" using assms(1) by (simp add: in_book_def)
  from delete_run[OF this assms(2)] obtain s' where
    "scorep_rewind_stack_delete n (s\<lparr>flush_answers := as\<rparr>) = Inr s'"
    "rewind_view s' [] (spare_items b + length (regions b)) (room_items b)" "same_calls (s\<lparr>flush_answers := as\<rparr>) s'" by blast
  then show ?thesis using as assms(1)
    by (simp add: write_event_def scorep_on_trace_pre_flush_def call_writer_def in_book_def listed_write_def same_calls_def)
next
  case False
  then have "(case flush_answers s of True # as \<Rightarrow> x as | _ \<Rightarrow> y) = y" for x and y :: "tracing_data outcome"
    using assms(1) by (cases "flush_answers s") (auto simp: in_book_def split: bool.splits)
  moreover have "listed_write c b = b\<lparr>answers := tl (answers b), calls := calls b @ [c]\<rparr>"
    unfolding listed_write_def using False by (simp only: if_False)
  ultimately show ?thesis using assms(1)
    by (simp add: write_event_def call_writer_def in_book_def)
qed

lemma mark_in_book:
  assumes "in_book s b" and "length (regions b) < n" and "p < SCOREP_REWIND_PARADIGM_MAX"
  shows "\<exists>s'. scorep_rewind_set_affected_paradigm n p s = Inr s' \<and> in_book s' (listed_mark p b)"
  using mark_run[OF in_book_view[OF assms(1)] assms(2,3)] assms(1)
  by (auto simp: in_book_def listed_mark_def same_calls_def)

lemma enter_in_book:
  assumes "in_book s b" and "length (regions b) < n"
  shows "case listed_enter timestamp rid b of None \<Rightarrow> store_rewind_point n timestamp rid s = Inl Out_Of_Memory
    | Some b' \<Rightarrow> \<exists>s'. store_rewind_point n timestamp rid s = Inr s' \<and> in_book s' b'"
proof -
  let ?s = "call_writer (Store_Rewind_Point rid) s"
  have v: "rewind_view ?s (regions b) (spare_items b) (room_items b)" using assms(1) by (simp add: in_book_def call_writer_def)
  consider "rid \<in> fst ` set (regions b)" | "rid \<notin> fst ` set (regions b)" "spare_items b > 0 \<or> room_items b > 0"
    | "rid \<notin> fst ` set (regions b)" "spare_items b = 0" "room_items b = 0" by auto
  then show ?thesis
  proof cases
    case 1
    from push_known[OF v this assms(2), of timestamp] show ?thesis using 1 assms(1)
      by (auto simp: listed_enter_def store_rewind_point_def in_book_def same_calls_def call_writer_def)
  next
    case 2
    from push_new[OF v 2(1) assms(2) 2(2), of timestamp] show ?thesis using 2 assms(1)
      by (auto simp: listed_enter_def store_rewind_point_def in_book_def same_calls_def call_writer_def split: if_splits)
  next
    case 3
    then show ?thesis using push_no_memory[of ?s "regions b" rid n timestamp] v assms(2)
      by (simp add: listed_enter_def store_rewind_point_def)
  qed
qed

text \<open>Leaving: the regions above the one that is left are popped and their rewind points cleared.\<close>

lemma pop_until_run:
  assumes "rewind_view s (inner @ (rid, timestamp, affected) # outer) spare room"
    and "length inner < n" and "\<forall>x\<in>set inner. fst x \<noteq> rid"
  shows "\<exists>s'. pop_until n rid results s = Inr ((timestamp, affected), s') \<and>
    rewind_view s' outer (spare + Suc (length inner)) room \<and> flush_answers s' = flush_answers s \<and> invalidated s' = invalidated s \<and>
    writer_calls s' = writer_calls s @ map (\<lambda>x. Clear_Rewind_Point (fst x)) inner"
  using assms
proof (induction n arbitrary: inner s spare results)
  case (Suc n)
  show ?case
  proof (cases inner)
    case Nil
    then show ?thesis using pop_run[of s "(rid, timestamp, affected)" outer spare room results] Suc.prems(1)
      by (auto simp: same_calls_def)
  next
    case (Cons x xs)
    obtain i t a where x: "x = (i, t, a)" by (cases x)
    obtain s1 where s1: "scorep_rewind_stack_pop results s = Inr (x, s1)"
      "rewind_view s1 (xs @ (rid, timestamp, affected) # outer) (Suc spare) room" "same_calls s s1"
      using pop_run[of s x "xs @ (rid, timestamp, affected) # outer" spare room results] Suc.prems(1) Cons by auto
    let ?s = "clear_rewind_point i s1"
    have "rewind_view ?s (xs @ (rid, timestamp, affected) # outer) (Suc spare) room"
      using s1(2) by (simp add: clear_rewind_point_def call_writer_def)
    then obtain s' where "pop_until n rid (i, t, a) ?s = Inr ((timestamp, affected), s')"
      "rewind_view s' outer (Suc spare + Suc (length xs)) room" "flush_answers s' = flush_answers ?s" "invalidated s' = invalidated ?s"
      "writer_calls s' = writer_calls ?s @ map (\<lambda>x. Clear_Rewind_Point (fst x)) xs"
      using Suc.IH[of ?s xs "Suc spare" "(i, t, a)"] Suc.prems(2,3) Cons by auto
    then show ?thesis using s1 Suc.prems(3) Cons x
      by (auto simp: same_calls_def clear_rewind_point_def call_writer_def)
  qed
qed simp

lemma invalidate_all:
  "invalidate_if affected SCOREP_REWIND_PARADIGM_THREAD_LOCKING THREAD_LOCK_EVENT_COMPLETE
     (invalidate_if affected SCOREP_REWIND_PARADIGM_THREAD_CREATE_WAIT THREAD_CREATE_WAIT_EVENT_COMPLETE
     (invalidate_if affected SCOREP_REWIND_PARADIGM_THREAD_FORK_JOIN THREAD_FORK_JOIN_EVENT_COMPLETE
     (invalidate_if affected SCOREP_REWIND_PARADIGM_MPI MPI_COMMUNICATION_COMPLETE s))) =
   s\<lparr>invalidated := invalidated s @ lost_properties affected\<rparr>"
  by (simp add: invalidate_if_def lost_properties_def SCOREP_REWIND_PARADIGM_THREAD_LOCKING_def
      SCOREP_REWIND_PARADIGM_THREAD_CREATE_WAIT_def SCOREP_REWIND_PARADIGM_THREAD_FORK_JOIN_def SCOREP_REWIND_PARADIGM_MPI_def)

lemma split_at_entry:
  assumes "rid \<in> fst ` set xs"
  shows "\<exists>inner x outer. xs = inner @ x # outer \<and> fst x = rid \<and> (\<forall>y\<in>set inner. fst y \<noteq> rid) \<and>
    takeWhile (\<lambda>x. fst x \<noteq> rid) xs = inner \<and> entry_with rid xs = x \<and> drop (Suc (length inner)) xs = outer"
proof -
  have "\<exists>x\<in>set xs. fst x = rid" using assms by auto
  then obtain inner x outer where split: "xs = inner @ x # outer" "fst x = rid" "\<forall>y\<in>set inner. \<not> fst y = rid"
    using split_list_first_prop[of xs "\<lambda>x. fst x = rid"] by blast
  have "takeWhile (\<lambda>x. fst x \<noteq> rid) xs = inner"
    using split takeWhile_append2[of inner "\<lambda>x. fst x \<noteq> rid" "x # outer"] by fastforce
  moreover have "find (\<lambda>y. fst y = rid) inner = None" using split(3) unfolding find_None_iff by blast
  then have "find (\<lambda>y. fst y = rid) (inner @ x # outer) = Some x" using split(2) by (induction inner) (auto split: if_splits)
  then have "entry_with rid xs = x" unfolding split(1) entry_with_def by simp
  ultimately show ?thesis using split by (intro exI[of _ inner] exI[of _ x] exI[of _ outer]) simp
qed

lemma exit_in_book:
  assumes "in_book s b" and "length (regions b) < n"
  shows "\<exists>s'. exit_rewind_point n leavetimestamp rid do_rewind garbage s = Inr s' \<and> in_book s' (listed_exit rid do_rewind b)"
proof -
  note v = in_book_view[OF assms(1)]
  have found: "scorep_rewind_stack_find n rid s = Inr (rid \<in> fst ` set (regions b))"
    using v find_run[of s _ n rid] assms(2) by (auto simp: rewind_view_def laid_out_def)
  show ?thesis
  proof (cases "rid \<in> fst ` set (regions b)")
    case False
    then show ?thesis using found assms(1) by (simp add: exit_rewind_point_def listed_exit_def)
  next
    case True
    obtain inner x outer where split: "regions b = inner @ x # outer" "fst x = rid" "\<forall>y\<in>set inner. fst y \<noteq> rid"
      and found_x: "takeWhile (\<lambda>x. fst x \<noteq> rid) (regions b) = inner" "entry_with rid (regions b) = x"
        "drop (Suc (length inner)) (regions b) = outer"
      using split_at_entry[OF True] by blast
    obtain timestamp affected where x: "x = (rid, timestamp, affected)" using split(2) by (cases x) auto
    note pieces = found_x[unfolded x]
    let ?b = "b\<lparr>regions := outer, spare_items := spare_items b + Suc (length inner),
      calls := calls b @ map (\<lambda>x. Clear_Rewind_Point (fst x)) inner\<rparr>"
    obtain s1 where s1: "pop_until n rid (0, 0, garbage) s = Inr ((timestamp, affected), s1)" "in_book s1 ?b"
      using pop_until_run[of s inner rid timestamp affected outer "spare_items b" "room_items b" n "(0, 0, garbage)"]
        v split assms x by (auto simp: in_book_def)
    have len: "length (regions (listed_write c b')) \<le> length (regions b')" for c b' by (simp add: listed_write_def)
    show ?thesis
    proof (cases do_rewind)
      case False
      then show ?thesis using found True s1 pieces
        by (auto simp: exit_rewind_point_def listed_exit_def Let_def in_book_def clear_rewind_point_def call_writer_def)
    next
      case rewind: True
      let ?off = "Measurement_On_Off timestamp Measurement_Off" and ?on = "Measurement_On_Off timestamp Measurement_On"
      let ?r = "?b\<lparr>calls := calls ?b @ [Rewind_To rid]\<rparr>"
      have "in_book (rewind_trace_buffer rid s1) ?r"
        using s1(2) by (simp add: in_book_def rewind_trace_buffer_def call_writer_def)
      moreover have outer: "length (regions ?r) < n" using split(1) assms(2) by simp
      ultimately obtain s2 where s2: "write_event n ?off (rewind_trace_buffer rid s1) = Inr s2" "in_book s2 (listed_write ?off ?r)"
        using write_in_book[of "rewind_trace_buffer rid s1" ?r n ?off] by blast
      have "length (regions (listed_write ?off ?r)) < n" using outer len[of ?off ?r] by linarith
      with s2(2) obtain s3 where s3: "write_event n ?on s2 = Inr s3" "in_book s3 (listed_write ?on (listed_write ?off ?r))"
        using write_in_book[of s2 "listed_write ?off ?r" n ?on] by blast
      let ?s = "clear_rewind_point rid (s3\<lparr>invalidated := invalidated s3 @ lost_properties affected\<rparr>)"
      have "exit_rewind_point n leavetimestamp rid do_rewind garbage s = Inr ?s"
        using found True s1(1) rewind s2(1) s3(1)
        by (simp add: exit_rewind_point_def disable_recording_def enable_recording_def invalidate_all)
      moreover have "in_book ?s (listed_exit rid do_rewind b)"
        using True rewind pieces s3(2)
        by (simp add: listed_exit_def Let_def in_book_def clear_rewind_point_def call_writer_def)
      ultimately show ?thesis by blast
    qed
  qed
qed

subsection \<open>Sequences of events\<close>

datatype rewind_event =
    Enter_Rewind u64 u32
  | Leave_Rewind u64 u32 bool "bool list"
  | Send u64 u32 u32 u32 u64
  | Receive u64 u32 u32 u32 u64
  | Collective_Begin u64
  | Fork u64 "nat \<times> thread_class" u32 u32
  | Acquire_Lock u64 nat u32 u32
  | Release_Lock u64 nat u32 u32

fun do_event :: "nat \<Rightarrow> rewind_event \<Rightarrow> tracing_data \<Rightarrow> tracing_data outcome" where
  "do_event n (Enter_Rewind timestamp rid) s = store_rewind_point n timestamp rid s"
| "do_event n (Leave_Rewind timestamp rid do_rewind garbage) s = exit_rewind_point n timestamp rid do_rewind garbage s"
| "do_event n (Send timestamp rank comm tag bytes) s = mpi_send n timestamp rank comm tag bytes s"
| "do_event n (Receive timestamp rank comm tag bytes) s = mpi_recv n timestamp rank comm tag bytes s"
| "do_event n (Collective_Begin timestamp) s = mpi_collective_begin n timestamp s"
| "do_event n (Fork timestamp paradigm requested number) s = thread_fork_event n timestamp paradigm requested number s"
| "do_event n (Acquire_Lock timestamp paradigm lock order) s = thread_acquire_lock n timestamp paradigm lock order s"
| "do_event n (Release_Lock timestamp paradigm lock order) s = thread_release_lock n timestamp paradigm lock order s"

fun do_events :: "nat \<Rightarrow> rewind_event list \<Rightarrow> tracing_data \<Rightarrow> tracing_data outcome" where
  "do_events n [] s = Inr s"
| "do_events n (e # es) s = and_then (do_event n e s) (do_events n es)"

text \<open>The same on the book: the paradigms of the events are numbered.\<close>

fun listed_event :: "rewind_event \<Rightarrow> rewind_book \<Rightarrow> rewind_book outcome" where
  "listed_event (Enter_Rewind timestamp rid) b =
     (case listed_enter timestamp rid b of None \<Rightarrow> Inl Out_Of_Memory | Some b' \<Rightarrow> Inr b')"
| "listed_event (Leave_Rewind timestamp rid do_rewind garbage) b = Inr (listed_exit rid do_rewind b)"
| "listed_event (Send timestamp rank comm tag bytes) b =
     Inr (listed_mark 0 (listed_write (Mpi_Send timestamp rank comm tag bytes) b))"
| "listed_event (Receive timestamp rank comm tag bytes) b =
     Inr (listed_mark 0 (listed_write (Mpi_Recv timestamp rank comm tag bytes) b))"
| "listed_event (Collective_Begin timestamp) b = Inr (listed_mark 0 (listed_write (Mpi_Collective_Begin timestamp) b))"
| "listed_event (Fork timestamp (paradigm, c) requested number) b =
     (let b = listed_write (Thread_Fork timestamp paradigm requested) b
      in case c of Thread_Fork_Join \<Rightarrow> Inr (listed_mark 1 b) | Thread_Create_Wait \<Rightarrow> Inr (listed_mark 2 b)
         | Other_Class \<Rightarrow> Inl Abort)"
| "listed_event (Acquire_Lock timestamp paradigm lock order) b =
     Inr (listed_mark 3 (listed_write (Thread_Acquire_Lock timestamp paradigm lock order) b))"
| "listed_event (Release_Lock timestamp paradigm lock order) b =
     Inr (listed_mark 3 (listed_write (Thread_Release_Lock timestamp paradigm lock order) b))"

fun listed_events :: "rewind_event list \<Rightarrow> rewind_book \<Rightarrow> rewind_book outcome" where
  "listed_events [] b = Inr b"
| "listed_events (e # es) b = and_then (listed_event e b) (listed_events es)"

definition refines_book :: "tracing_data outcome \<Rightarrow> rewind_book outcome \<Rightarrow> bool" where
  "refines_book r q \<longleftrightarrow> (case q of Inl e \<Rightarrow> r = Inl e | Inr b \<Rightarrow> \<exists>s. r = Inr s \<and> in_book s b)"

lemma refines_bookI: "r = Inr s \<Longrightarrow> in_book s b \<Longrightarrow> refines_book r (Inr b)"
  by (simp add: refines_book_def)

lemma length_listed_write: "length (regions (listed_write c b)) \<le> length (regions b)"
  by (simp add: listed_write_def)

lemma write_mark_in_book:
  assumes "in_book s b" and "length (regions b) < n" and "p < SCOREP_REWIND_PARADIGM_MAX"
  shows "refines_book (and_then (write_event n c s) (scorep_rewind_set_affected_paradigm n p)) (Inr (listed_mark p (listed_write c b)))"
proof -
  obtain s1 where s1: "write_event n c s = Inr s1" "in_book s1 (listed_write c b)" using write_in_book[OF assms(1,2)] by blast
  have "length (regions (listed_write c b)) < n" using length_listed_write[of c b] assms(2) by linarith
  from mark_in_book[OF s1(2) this assms(3)] show ?thesis using s1(1) by (auto intro: refines_bookI)
qed

lemmas paradigm_defs = SCOREP_REWIND_PARADIGM_MPI_def SCOREP_REWIND_PARADIGM_THREAD_FORK_JOIN_def
  SCOREP_REWIND_PARADIGM_THREAD_CREATE_WAIT_def SCOREP_REWIND_PARADIGM_THREAD_LOCKING_def SCOREP_REWIND_PARADIGM_MAX_def

lemma event_in_book:
  assumes "in_book s b" and "length (regions b) < n"
  shows "refines_book (do_event n e s) (listed_event e b)"
proof (cases e)
  case (Enter_Rewind timestamp rid)
  then show ?thesis using enter_in_book[OF assms, of timestamp rid] by (auto simp: refines_book_def split: option.splits)
next
  case (Leave_Rewind timestamp rid do_rewind garbage)
  then show ?thesis using exit_in_book[OF assms, of timestamp rid do_rewind garbage] by (auto simp: refines_book_def)
next
  case (Fork timestamp paradigm requested number)
  obtain q c where q: "paradigm = (q, c)" by (cases paradigm)
  obtain s1 where s1: "write_event n (Thread_Fork timestamp q requested) s = Inr s1" using write_in_book[OF assms] by blast
  have mark: "refines_book (and_then (write_event n (Thread_Fork timestamp q requested) s) (scorep_rewind_set_affected_paradigm n p))
      (Inr (listed_mark p (listed_write (Thread_Fork timestamp q requested) b)))" if "p < 4" for p
    using write_mark_in_book[OF assms, of p] that by (simp add: paradigm_defs)
  show ?thesis using mark[of 1] mark[of 2] s1 Fork q
    by (cases c) (simp_all add: thread_fork_event_def set_rewind_affected_thread_paradigm_def Let_def paradigm_defs refines_book_def)
qed (use write_mark_in_book[OF assms, of 0] write_mark_in_book[OF assms, of 3] in
      \<open>simp_all add: mpi_send_def mpi_recv_def mpi_collective_begin_def thread_acquire_lock_def thread_release_lock_def paradigm_defs\<close>)

lemma length_listed_event: "listed_event e b = Inr b' \<Longrightarrow> length (regions b') \<le> Suc (length (regions b))"
proof -
  assume e: "listed_event e b = Inr b'"
  have push: "length (listed_push rid timestamp xs) \<le> Suc (length xs)" for rid timestamp xs
    by (cases xs) (auto simp: listed_push_def intro: le_SucI le_trans[OF length_filter_le])
  have exit: "length (regions (listed_exit rid do_rewind b)) \<le> length (regions b)" for rid do_rewind
    by (auto simp: listed_exit_def Let_def listed_write_def split: prod.splits)
  have mark: "length (regions (listed_mark p (listed_write c b))) \<le> Suc (length (regions b))" for p c
    using length_listed_write[of c b] by (simp add: listed_mark_def)
  show ?thesis
  proof (cases e)
    case (Enter_Rewind timestamp rid)
    then show ?thesis using e push[of rid timestamp "regions b"]
      by (auto simp: listed_enter_def Let_def split: if_splits)
  next
    case (Leave_Rewind timestamp rid do_rewind garbage)
    then show ?thesis using e exit[of rid do_rewind] by auto
  next
    case (Fork timestamp paradigm requested number)
    then show ?thesis using e mark by (cases paradigm; cases "snd paradigm") (auto simp: Let_def)
  qed (use e mark in auto)
qed

lemma events_in_book:
  "in_book s b \<Longrightarrow> length (regions b) + length es < n \<Longrightarrow> refines_book (do_events n es s) (listed_events es b)"
proof (induction es arbitrary: s b)
  case Nil
  then show ?case by (simp add: refines_book_def)
next
  case (Cons e es)
  have e: "refines_book (do_event n e s) (listed_event e b)" using Cons.prems by (intro event_in_book) simp_all
  show ?case
  proof (cases "listed_event e b")
    case (Inl f)
    then show ?thesis using e by (simp add: refines_book_def)
  next
    case (Inr b')
    then obtain s' where s': "do_event n e s = Inr s'" "in_book s' b'" using e by (auto simp: refines_book_def)
    have "length (regions b') + length es < n" using length_listed_event[OF Inr] Cons.prems(2) by simp
    then show ?thesis using Cons.IH[OF s'(2)] s'(1) Inr by simp
  qed
qed

subsection \<open>Rewind points\<close>

text \<open>The rewind points that the writer holds: those that were stored and have not been cleared since.\<close>

definition held_points :: "writer_call list \<Rightarrow> u32 set" where
  "held_points cs = fold (\<lambda>c P. case c of Store_Rewind_Point i \<Rightarrow> insert i P | Clear_Rewind_Point i \<Rightarrow> P - {i} | _ \<Rightarrow> P) cs {}"

lemma held_points_simps [simp]:
  "held_points [] = {}"
  "held_points (cs @ [Store_Rewind_Point i]) = insert i (held_points cs)"
  "held_points (cs @ [Clear_Rewind_Point i]) = held_points cs - {i}"
  "held_points (cs @ [Rewind_To i]) = held_points cs"
  "held_points (cs @ [Measurement_On_Off t m]) = held_points cs"
  "held_points (cs @ [Mpi_Send t a c g k]) = held_points cs"
  "held_points (cs @ [Mpi_Recv t a c g k]) = held_points cs"
  "held_points (cs @ [Mpi_Collective_Begin t]) = held_points cs"
  "held_points (cs @ [Thread_Fork t p u]) = held_points cs"
  "held_points (cs @ [Thread_Acquire_Lock t p u v]) = held_points cs"
  "held_points (cs @ [Thread_Release_Lock t p u v]) = held_points cs"
  by (simp_all add: held_points_def)

lemma held_points_rewound [simp]: "held_points (cs @ ds @ [Rewind_To i]) = held_points (cs @ ds)"
  using held_points_simps(4)[of "cs @ ds" i] by simp

lemma held_points_cleared: "held_points (cs @ map (\<lambda>x. Clear_Rewind_Point (fst x)) xs) = held_points cs - fst ` set xs"
proof (induction xs rule: rev_induct)
  case (snoc x xs)
  then show ?case using held_points_simps(3)[of "cs @ map (\<lambda>x. Clear_Rewind_Point (fst x)) xs" "fst x"] by auto
qed simp

definition region_ids :: "rewind_book \<Rightarrow> u32 set" where
  "region_ids b = fst ` set (regions b)"

lemma ids_listed_push: "fst ` set (listed_push rid timestamp xs) = insert rid (fst ` set xs)"
proof -
  consider "rid \<notin> fst ` set xs" | "rid \<in> fst ` set (take 2 xs)" "rid \<in> fst ` set xs"
    | "rid \<in> fst ` set xs" "rid \<notin> fst ` set (take 2 xs)" by blast
  then show ?thesis
  proof cases
    case 1
    then show ?thesis by (simp add: listed_push_def)
  next
    case 2
    then show ?thesis by (cases xs) (auto simp: listed_push_def)
  next
    case 3
    then show ?thesis by (auto simp: listed_push_def)
  qed
qed

text \<open>What an event keeps: every region on the stack has its rewind point; if the writer does not flush, there are no others; no item is lost.\<close>

definition points_ok :: "u32 set \<Rightarrow> nat \<Rightarrow> bool \<Rightarrow> rewind_book \<Rightarrow> bool" where
  "points_ok E m never_flushed b \<longleftrightarrow> region_ids b \<subseteq> held_points (calls b) - E \<and>
     (never_flushed \<longrightarrow> True \<notin> set (answers b) \<and> region_ids b = held_points (calls b) - E) \<and>
     length (regions b) + spare_items b + room_items b = m"

lemma points_write:
  assumes "points_ok E m q b" and "\<And>cs. held_points (cs @ [c]) = held_points cs"
  shows "points_ok E m q (listed_write c b)"
  using assms by (cases "answers b") (auto simp: points_ok_def listed_write_def region_ids_def)

lemma points_mark [simp]: "points_ok E m q (listed_mark p b) \<longleftrightarrow> points_ok E m q b"
  by (simp add: points_ok_def listed_mark_def region_ids_def image_image mark_entry_def)

lemma length_listed_push:
  assumes "distinct (map fst xs)"
  shows "length (listed_push rid timestamp xs) = (if rid \<in> fst ` set xs then length xs else Suc (length xs))"
proof -
  have "length (listed_push rid timestamp xs) = length (map fst (listed_push rid timestamp xs))" by simp
  have "length (filter (\<lambda>x. fst x \<noteq> rid) xs) = length xs - 1" if rid: "rid \<in> fst ` set xs"
  proof -
    have "length (filter (\<lambda>x. fst x \<noteq> rid) xs) = length (filter (\<lambda>i. i \<noteq> rid) (map fst xs))"
      by (simp add: filter_map comp_def)
    also have "\<dots> = length (remove1 rid (map fst xs))" using assms by (simp add: distinct_remove1_removeAll removeAll_filter_not_eq eq_commute)
    also have "\<dots> = length xs - 1" using rid by (simp add: length_remove1)
    finally show ?thesis .
  qed
  moreover have "xs \<noteq> []" if "rid \<in> fst ` set xs" using that by auto
  ultimately show ?thesis by (auto simp: listed_push_def)
qed

lemma points_enter:
  assumes "points_ok {} m q b" and "distinct (map fst (regions b))" and "listed_enter timestamp rid b = Some b'"
  shows "points_ok {} m q b'"
proof -
  let ?l = "listed_push rid timestamp (regions b)"
  have fields: "regions b' = ?l" "calls b' = calls b @ [Store_Rewind_Point rid]" "answers b' = answers b"
    "length ?l + spare_items b' + room_items b' = length (regions b) + spare_items b + room_items b"
    using assms(3) length_listed_push[OF assms(2), of rid timestamp] by (auto simp: listed_enter_def Let_def split: if_splits)
  have "region_ids b' = insert rid (region_ids b)" using fields(1) ids_listed_push by (simp add: region_ids_def)
  moreover have "held_points (calls b') = insert rid (held_points (calls b))" using fields(2) by simp
  ultimately show ?thesis using assms(1) fields(1,3,4) unfolding points_ok_def by auto
qed

lemma points_exit:
  assumes "points_ok {} m q b" and "distinct (map fst (regions b))"
  shows "points_ok {} m q (listed_exit rid do_rewind b)"
proof (cases "rid \<in> fst ` set (regions b)")
  case False
  then show ?thesis using assms(1) by (simp add: listed_exit_def)
next
  case True
  obtain inner x outer where split: "regions b = inner @ x # outer" "fst x = rid"
    and pieces: "takeWhile (\<lambda>x. fst x \<noteq> rid) (regions b) = inner" "entry_with rid (regions b) = x"
      "drop (Suc (length inner)) (regions b) = outer"
    using split_at_entry[OF True] by blast
  let ?b = "b\<lparr>regions := outer, spare_items := spare_items b + Suc (length inner),
      calls := calls b @ map (\<lambda>x. Clear_Rewind_Point (fst x)) inner\<rparr>"
  let ?r = "?b\<lparr>calls := calls ?b @ [Rewind_To rid]\<rparr>"
  have apart: "region_ids ?b \<inter> (fst ` set inner \<union> {rid}) = {}" "region_ids b = fst ` set inner \<union> {rid} \<union> region_ids ?b"
    using assms(2) split by (auto simp: region_ids_def)
  have ok: "points_ok {rid} m q ?b" using assms(1) apart split(1)
    by (auto simp: points_ok_def held_points_cleared)
  then have "points_ok {rid} m q ?r" by (simp add: points_ok_def region_ids_def)
  then have writes: "points_ok {rid} m q (listed_write (Measurement_On_Off t Measurement_On) (listed_write (Measurement_On_Off t Measurement_Off) ?r))" for t
    by (intro points_write) simp_all
  have clear: "points_ok {} m q (b'\<lparr>calls := calls b' @ [Clear_Rewind_Point rid]\<rparr>)" if "points_ok {rid} m q b'" for b'
    using that by (simp add: points_ok_def region_ids_def)
  have more: "points_ok {rid} m q (b'\<lparr>invalid := ps\<rparr>) \<longleftrightarrow> points_ok {rid} m q b'" for b' ps
    by (simp add: points_ok_def region_ids_def)
  obtain timestamp affected where snd: "snd x = (timestamp, affected)" by (cases "snd x")
  show ?thesis
  proof (cases do_rewind)
    case False
    have "listed_exit rid do_rewind b = ?b\<lparr>calls := calls ?b @ [Clear_Rewind_Point rid]\<rparr>"
      using True False by (simp add: listed_exit_def pieces snd Let_def)
    moreover have "points_ok {} m q (?b\<lparr>calls := calls ?b @ [Clear_Rewind_Point rid]\<rparr>)" by (rule clear) (rule ok)
    ultimately show ?thesis by simp
  next
    case rewind: True
    then show ?thesis using True clear[OF more[THEN iffD2, OF writes]]
      by (simp add: listed_exit_def pieces snd Let_def)
  qed
qed

lemma points_event:
  assumes "points_ok {} m q b" and "distinct (map fst (regions b))" and "listed_event e b = Inr b'"
  shows "points_ok {} m q b'"
proof (cases e)
  case (Enter_Rewind timestamp rid)
  then show ?thesis using points_enter[OF assms(1,2)] assms(3) by (auto split: option.splits)
next
  case (Leave_Rewind timestamp rid do_rewind garbage)
  then show ?thesis using points_exit[OF assms(1,2)] assms(3) by auto
next
  case (Fork timestamp paradigm requested number)
  obtain p c where p: "paradigm = (p, c)" by (cases paradigm)
  have "points_ok {} m q (listed_write (Thread_Fork timestamp p requested) b)" by (rule points_write[OF assms(1)]) simp
  then show ?thesis using assms(3) Fork p by (cases c) (auto simp: Let_def)
qed (use assms(3) points_write[OF assms(1)] in auto)

lemma points_events:
  assumes "in_book s b" and "length (regions b) + length es < n" and "points_ok {} m q b" and "listed_events es b = Inr b'"
  shows "points_ok {} m q b'"
  using assms
proof (induction es arbitrary: s b)
  case (Cons e es)
  obtain b1 where b1: "listed_event e b = Inr b1" "listed_events es b1 = Inr b'"
    using Cons.prems(4) by (cases "listed_event e b") auto
  have "refines_book (do_event n e s) (listed_event e b)" using Cons.prems by (intro event_in_book) simp_all
  then obtain s1 where s1: "in_book s1 b1" using b1(1) by (auto simp: refines_book_def)
  have "distinct (map fst (regions b))" using Cons.prems(1) by (simp add: in_book_def rewind_view_def)
  then have "points_ok {} m q b1" by (rule points_event[OF Cons.prems(3) _ b1(1)])
  moreover have "length (regions b1) + length es < n" using length_listed_event[OF b1(1)] Cons.prems(2) by simp
  ultimately show ?case using Cons.IH[OF s1] b1(2) by blast
qed simp

definition new_book :: "nat list \<Rightarrow> bool list \<Rightarrow> rewind_book" where
  "new_book addresses flushes =
     \<lparr>regions = [], spare_items = 0, room_items = length addresses, calls = [], answers = flushes, invalid = []\<rparr>"

lemma new_in_book:
  "distinct addresses \<Longrightarrow> 0 \<notin> set addresses \<Longrightarrow> in_book (SCOREP_Tracing_CreateLocationData addresses flushes) (new_book addresses flushes)"
  by (auto simp: in_book_def new_book_def SCOREP_Tracing_CreateLocationData_def rewind_view_def laid_out_def
      intro!: exI[of _ "[]"])

text \<open>C40: rewind regions. From a new location on, any sequence of events does on the linked items what it does on the list of the regions
that are entered: entering a region puts it in front, except that the region behind the front is left where it is and its time given to
the one in front; leaving one drops all that were entered after it. The ids on the list are unique, no item is lost, every region on the list has
its rewind point with the writer, and as long as the writer does not flush its buffer there are no other rewind points.\<close>

theorem rewind_regions_refine_list:
  assumes "distinct addresses" and "0 \<notin> set addresses" and "length es < n"
  shows "case listed_events es (new_book addresses flushes) of
      Inl e \<Rightarrow> do_events n es (SCOREP_Tracing_CreateLocationData addresses flushes) = Inl e
    | Inr b \<Rightarrow> \<exists>s. do_events n es (SCOREP_Tracing_CreateLocationData addresses flushes) = Inr s \<and> in_book s b \<and>
        distinct (map fst (regions b)) \<and> length (regions b) + spare_items b + room_items b = length addresses \<and>
        region_ids b \<subseteq> held_points (writer_calls s) \<and>
        (True \<notin> set flushes \<longrightarrow> region_ids b = held_points (writer_calls s))"
proof -
  let ?s = "SCOREP_Tracing_CreateLocationData addresses flushes" and ?b = "new_book addresses flushes"
  have start: "in_book ?s ?b" "length (regions ?b) + length es < n"
    using new_in_book assms by (auto simp: new_book_def)
  have run: "refines_book (do_events n es ?s) (listed_events es ?b)" by (rule events_in_book[OF start])
  show ?thesis
  proof (cases "listed_events es ?b")
    case (Inl e)
    then show ?thesis using run by (simp add: refines_book_def)
  next
    case (Inr b)
    then obtain s where s: "do_events n es ?s = Inr s" "in_book s b" using run by (auto simp: refines_book_def)
    have "points_ok {} (length addresses) (True \<notin> set flushes) ?b"
      by (simp add: points_ok_def new_book_def region_ids_def)
    then have "points_ok {} (length addresses) (True \<notin> set flushes) b" by (rule points_events[OF start _ Inr])
    then show ?thesis using s Inr by (auto simp: points_ok_def in_book_def rewind_view_def)
  qed
qed

text \<open>Two nested regions, a message, and leaving the outer region with a rewind.\<close>

definition sample_events :: "rewind_event list" where
  "sample_events = [Enter_Rewind 1 5, Enter_Rewind 2 7, Send 3 0 0 0 64, Leave_Rewind 4 5 True []]"

lemma sample_listed:
  "listed_events sample_events (new_book [8, 16] []) =
     Inr \<lparr>regions = [], spare_items = 2, room_items = 0,
          calls = [Store_Rewind_Point 5, Store_Rewind_Point 7, Mpi_Send 3 0 0 0 64, Clear_Rewind_Point 7, Rewind_To 5,
                   Measurement_On_Off 1 Measurement_Off, Measurement_On_Off 1 Measurement_On, Clear_Rewind_Point 5],
          answers = [], invalid = [MPI_COMMUNICATION_COMPLETE]\<rparr>"
  by code_simp

lemma rewind_regions_refine_list_witness:
  "\<exists>s. do_events 5 sample_events (SCOREP_Tracing_CreateLocationData [8, 16] []) = Inr s \<and>
     writer_calls s = [Store_Rewind_Point 5, Store_Rewind_Point 7, Mpi_Send 3 0 0 0 64, Clear_Rewind_Point 7, Rewind_To 5,
       Measurement_On_Off 1 Measurement_Off, Measurement_On_Off 1 Measurement_On, Clear_Rewind_Point 5] \<and>
     held_points (writer_calls s) = {}"
proof -
  have "distinct [8, 16 :: nat]" "0 \<notin> set [8, 16 :: nat]" "length sample_events < 5" by (simp_all add: sample_events_def)
  from rewind_regions_refine_list[OF this, of "[]"] show ?thesis
    unfolding sample_listed by (auto simp: in_book_def region_ids_def)
qed

text \<open>
  The region behind the front is not moved to the front when it is entered again, although the ids are said to be moved
  on top and their time renewed: the time goes to the region in front. When the region is left with a rewind, the buffer is rewound
  to the point that was stored last, at time 3, but the part that is marked as missing starts at time 1.
\<close>

lemma second_region_not_moved:
  "i \<noteq> rid \<Longrightarrow> listed_push rid timestamp ((i, t, f) # (rid, u, g) # xs) = (i, timestamp, f) # (rid, u, g) # xs"
  by (simp add: listed_push_def)

lemma third_region_moved:
  "i \<noteq> rid \<Longrightarrow> k \<noteq> rid \<Longrightarrow> rid \<notin> fst ` set xs \<Longrightarrow>
   listed_push rid timestamp ((i, t, f) # (k, u, g) # (rid, v, h) # xs) = (rid, timestamp, h) # (i, t, f) # (k, u, g) # xs"
  by (force simp: listed_push_def entry_with_def filter_id_conv)

lemma second_region_marks_wrong_time:
  "(case do_events 9 [Enter_Rewind 1 5, Enter_Rewind 2 7, Enter_Rewind 3 5, Leave_Rewind 4 5 True []]
      (SCOREP_Tracing_CreateLocationData [8, 16] []) of Inl e \<Rightarrow> [] | Inr s \<Rightarrow> writer_calls s) =
    [Store_Rewind_Point 5, Store_Rewind_Point 7, Store_Rewind_Point 5, Clear_Rewind_Point 7, Rewind_To 5,
     Measurement_On_Off 1 Measurement_Off, Measurement_On_Off 1 Measurement_On, Clear_Rewind_Point 5]"
  by code_simp

end
