(* ===== verification/Spec2Isabelle.thy ===== *)
theory Spec2Isabelle
  imports Prelude JenkinsHash Vector Hashtab Selective Bitset Allocator Utils_IO FilterRules
    SimplifyPath MovableMemory AllocatorMemory DefinitionManager DefinitionKinds Definitions
    Unification DefinitionProperties
    ProfileNode ProfileEvents ProfileLocation ProfileRun ProfileStatistics ProfileSorting ProfilePasses ProfileProperties
    SystemTree SystemTreeLocations SystemTreeBuffers SystemTreePlaces SystemTreeMerging
    ConfigValues ConfigRegistry ConfigProperties ConfigSets ConfigLookup
    AllocMetric AllocTracking AllocRequests TaskStack TaskStackProperties
    RewindStack RewindProperties
begin

text \<open>
  A verification development of the measurement system Score-P.

  Score-P is linked into a parallel program. While the program runs, adapters report events (a region is entered or left,
  a thread starts, ...) to the measurement core, which hands them to the substrates: one adds them up in a call tree per
  location (profiling), one writes them to a trace through OTF2. Names, regions, groups and the machine are definitions,
  which are stored once, numbered, and unified over all processes at the end. All this rests on memory management of
  its own and on a few containers. The development models these lower layers, the definitions, the profile and the
  compression of the system tree. Sources are given relative to \<^verbatim>\<open>src/\<close>, the root of the repository.

  \<^bold>\<open>Common vocabulary.\<close>
  Theory Prelude: words of 8 to 64 bits, the outcome of a function that may abort (\<open>Abort\<close>: a failed assertion), use memory
  that is not its own (\<open>Bad_Access\<close>) or not end (\<open>Endless\<close>). Sizes of type \<^verbatim>\<open>size_t\<close> are natural numbers, and \<open>size_wrap\<close>
  is applied where a sum or product may exceed 64 bits. Pointers are addresses in a store, positions, or the values they point to where
  nothing is shared; each theory says which. Requests for memory are answered by a parameter. Locks make an operation one step.

  \<^bold>\<open>Utilities.\<close>
  \<^item> JenkinsHash (\<^verbatim>\<open>common/hash/jenkins_hash.c\<close>, \<^verbatim>\<open>jenkins_hash.h\<close>): all variants of the hash. Shown: the readers by words, half-words and bytes agree,
    hashing words agrees with hashing their bytes, and the mixing steps lose nothing.
  \<^item> Vector (\<^verbatim>\<open>src/utils/vector/\<close>): an array of pointers that grows by \<^verbatim>\<open>realloc\<close>, on its block of cells. Shown: it refines the
    list, its searches find the bounds, and where the number of bytes wraps around.
  \<^item> Hashtab (\<^verbatim>\<open>src/utils/hashtab/\<close>): table, iterator, hash and comparison functions. The locale \<open>key_functions\<close> is the contract of the
    latter; in it a table is a stack of values per key. Shown also: iteration visits every item once, as long as nothing was removed.
  \<^item> Utils_IO and SimplifyPath (\<^verbatim>\<open>common/utils/src/io/UTILS_IO_Tools.c\<close>, \<^verbatim>\<open>cstr/UTILS_CStr.c\<close>): reading of lines, and paths.
  \<^item> FilterRules (\<^verbatim>\<open>src/utils/filter/\<close>): filter files and the matching of their rules; \<^verbatim>\<open>fnmatch\<close> is a parameter.
  \<^item> Selective (\<^verbatim>\<open>src/adapters/user/scorep_selective_*.c\<close>): intervals of instances of regions that are recorded. Shown: the state machine
    records exactly what is selected or nested in something selected.

  \<^bold>\<open>Memory.\<close>
  \<^item> Bitset (\<^verbatim>\<open>src/utils/memory/scorep_bitset.h\<close>): which pages are in use; the search for a range is first fit and complete.
  \<^item> Allocator (\<^verbatim>\<open>SCOREP_Allocator.c\<close>, \<^verbatim>\<open>scorep_page.h\<close>): page managers on this bitset. Shown: an allocation overlaps nothing that is in
    use, and every page comes back.
  \<^item> MovableMemory and AllocatorMemory: the locale \<open>movable_memory_laws\<close> is what the definitions rely on; the
    allocator is its interpretation.

  \<^bold>\<open>Definitions\<close> (\<^verbatim>\<open>src/measurement/definitions/\<close>, \<^verbatim>\<open>src/measurement/scorep_unify.c\<close>).
  \<^item> DefinitionManager: storing, finding duplicates, numbering; the locales \<open>definition_kinds\<close> and \<open>definition_manager_laws\<close>.
  \<^item> DefinitionKinds and Definitions: strings, source files, regions, groups, parameters, attributes, source code locations, system
    tree nodes, I/O files and callpaths; the locale \<open>program_definitions\<close> describes the states the program reaches.
  \<^item> Unification: the unified definitions of a process and the mappings to them.
  \<^item> DefinitionProperties: on the page allocator, equal definitions and only those have the same handle, numbers are positions among
    the different definitions, and the mappings lead to equal definitions.

  \<^bold>\<open>Profile\<close> (\<^verbatim>\<open>src/measurement/profiling/\<close>).
  \<^item> ProfileNode, ProfileEvents, ProfileLocation: nodes linked by pointers in a store, metrics, recycled nodes, and the events of regions, parameters,
    locations and threads.
  \<^item> ProfileRun and ProfileStatistics: the nodes form a tree, and the events of nested calls refine an operation on this tree; hence the
    statistics of each call path are those of its calls.
  \<^item> ProfileSorting and ProfilePasses: the merge sort of chains and the traversal by links, with the locale \<open>node_comparison\<close>.
  \<^item> ProfileProperties: the theorems, with examples.

  \<^bold>\<open>System tree\<close> (\<^verbatim>\<open>src/measurement/scorep_system_tree_sequence.c\<close>).
  \<^item> SystemTree: the tree of machines, processes and locations in which a node stands for equal copies; comparison, sorting, joining of
    equal nodes, packing, merging of the trees of processes, and places in the enumeration of all nodes.
  \<^item> SystemTreeLocations, SystemTreeBuffers, SystemTreeMerging, SystemTreePlaces: against the enumeration \<open>expand\<close> of all copies:
    numbers of locations, buffers, which copies the merged children of
    another process stand for, and which places the search finds.

  \<^bold>\<open>Configuration\<close> (\<^verbatim>\<open>src/measurement/SCOREP_Config.c\<close>).
  \<^item> ConfigValues and ConfigRegistry: values parsed and printed; name spaces and variables, on the hash table, and the environment.
  \<^item> ConfigProperties, ConfigSets and ConfigLookup: what is printed for a shell is read back, when the loop over a set ends, and, in the
    locale \<open>spelled_names\<close>, that registered variables are found.

  \<^bold>\<open>Rewind regions\<close> (\<^verbatim>\<open>src/measurement/tracing/scorep_rewind_stack_management.c\<close> and its callers in \<^verbatim>\<open>SCOREP_Tracing_Events.c\<close>).
  \<^item> RewindStack and RewindProperties: regions whose events are dropped from the trace buffer when they are left, as linked items with a free
    list, and the calls of the event writer. Shown: any sequence of events does on the items what it does on a list, the writer has the rewind points
    of the regions on the list, and the region behind the front is not moved when it is entered again.

  \<^bold>\<open>Tasks and allocations.\<close>
  \<^item> TaskStack and TaskStackProperties (\<^verbatim>\<open>src/measurement/SCOREP_Task.c\<close>): the stack of regions of a task in frames of 30. Shown: it refines
    a list, leaving all regions ends, and the hash of the stack is that of its regions.
  \<^item> AllocMetric, AllocTracking and AllocRequests (\<^verbatim>\<open>src/utils/alloc_metric/SCOREP_AllocMetric.c\<close>): a splay tree of the allocations of the program. Shown: it
    refines a map, for all interleavings of the requests of threads, the totals are the sums of sizes, and what is left is reported once.

  \<^bold>\<open>Bounds.\<close>
  Fuel stands where a loop in C may not end. Along a chain of nodes of a profile it is \<open>fuel p\<close>, one more than the number of nodes ever made, and twice
  this for the recursion of the sort; a tree in the store has fewer nodes, so the theorems on the profile conclude that the loops end. The search
  for free pages has one step per page and one more, and the theorem on first fit includes that it is enough. The loop over the members of a set has one step per
  character and one more; it ends within them if and only if it ends at all, which is one of the theorems. Leaving all regions has one step
  per region there is room for or calling context and one more. The loops along the rewind regions get more steps than there are events. Splaying, merging and the other recursions end by a measure.

  \<^bold>\<open>Not modelled.\<close>
  The adapters (MPI, OpenMP, CUDA, ...), which cover most lines, wrap the functions of other libraries and pass events on; the rest of tracing,
  which calls OTF2; the writers of profiles, which call CUBE; services that read timers, counters and symbols; message passing between processes; start and end of the
  measurement, which call tables of functions of plugins; and the tools. Of the modelled parts: the list of properties
  of definitions, the kinds of definitions that are not listed above, metrics of type \<^verbatim>\<open>double\<close>, task objects of profiles, clustering and expansion of
  profiles, building the system tree from the definitions and its names, the help texts of the configuration, and debug output. Releasing memory is left out where nothing
  is used afterwards.
\<close>

end
